(* ===== verification/Prelude.thy ===== *)
theory Prelude
  imports Main "HOL-Library.Word" "HOL-Library.Char_ord" "HOL-Library.List_Lexorder"
begin

text \<open>
  The prelude of the development: what the C sources use of the language and of its
  standard library, and the generic facts the components share.

  \<^item> A C string is the list of the bytes before its terminating NUL, so a \<^typ>\<open>string\<close>
    of the model holds no NUL; \<open>strncpy\<close> into an array of \<open>n\<close> bytes followed by the
    store of the final NUL keeps at most \<open>n - 1\<close> bytes (\<open>strbuf\<close>).
  \<^item> \<open>ctype.h\<close> is modelled in the C locale the program runs in (it never calls
    \<open>setlocale\<close>): only ASCII letters are letters.
  \<^item> \<open>strcmp\<close> compares bytes as unsigned values; only the sign of its result matters.
  \<^item> \<open>long\<close> is a 64-bit two's complement integer; \<open>strtol\<close> saturates and sets
    \<open>errno\<close> outside of its range.
\<close>

unbundle bit_operations_syntax

named_theorems cstr \<open>facts about C strings\<close>
named_theorems bounds_simps \<open>facts about the sizes of buffers and arrays\<close>

type_synonym ulong = "64 word"

subsection \<open>Bytes and \<open>ctype.h\<close>\<close>

definition byte :: "char \<Rightarrow> nat" where
  "byte c = of_char c"

definition isspace :: "char \<Rightarrow> bool" where
  "isspace c \<longleftrightarrow> byte c = 32 \<or> (9 \<le> byte c \<and> byte c \<le> 13)"

definition isdigit :: "char \<Rightarrow> bool" where
  "isdigit c \<longleftrightarrow> 48 \<le> byte c \<and> byte c \<le> 57"

definition isupper :: "char \<Rightarrow> bool" where
  "isupper c \<longleftrightarrow> 65 \<le> byte c \<and> byte c \<le> 90"

definition islower :: "char \<Rightarrow> bool" where
  "islower c \<longleftrightarrow> 97 \<le> byte c \<and> byte c \<le> 122"

definition isalpha :: "char \<Rightarrow> bool" where
  "isalpha c \<longleftrightarrow> isupper c \<or> islower c"

definition isalnum :: "char \<Rightarrow> bool" where
  "isalnum c \<longleftrightarrow> isalpha c \<or> isdigit c"

definition tolower :: "char \<Rightarrow> char" where
  "tolower c = (if isupper c then char_of (byte c + 32) else c)"

definition toupper :: "char \<Rightarrow> char" where
  "toupper c = (if islower c then char_of (byte c - 32) else c)"

subsection \<open>\<open>string.h\<close>\<close>

definition strbuf :: "nat \<Rightarrow> string \<Rightarrow> string" where
  "strbuf n s = take (n - 1) s"

fun strcmp :: "string \<Rightarrow> string \<Rightarrow> int" where
  "strcmp [] [] = 0"
| "strcmp [] (b # bs) = - 1"
| "strcmp (a # as) [] = 1"
| "strcmp (a # as) (b # bs) =
     (if a = b then strcmp as bs else if byte a < byte b then - 1 else 1)"

fun skip_space :: "string \<Rightarrow> string" where
  "skip_space [] = []"
| "skip_space (c # cs) = (if isspace c then skip_space cs else c # cs)"

fun is_prefix :: "string \<Rightarrow> string \<Rightarrow> bool" where
  "is_prefix [] s = True"
| "is_prefix (p # ps) [] = False"
| "is_prefix (p # ps) (c # cs) = (p = c \<and> is_prefix ps cs)"

text \<open>\<open>strchr\<close> and \<open>strstr\<close> return the suffix that starts at the first occurrence.\<close>

fun strchr :: "string \<Rightarrow> char \<Rightarrow> string option" where
  "strchr [] c = None"
| "strchr (a # as) c = (if a = c then Some (a # as) else strchr as c)"

fun strstr :: "string \<Rightarrow> string \<Rightarrow> string option" where
  "strstr [] p = (if p = [] then Some [] else None)"
| "strstr (a # as) p = (if is_prefix p (a # as) then Some (a # as) else strstr as p)"

subsection \<open>\<open>strtol\<close>\<close>

definition LONG_MAX :: int where "LONG_MAX = 2 ^ 63 - 1"
definition LONG_MIN :: int where "LONG_MIN = - (2 ^ 63)"

text \<open>Signed 64-bit arithmetic wraps in the compiled program.\<close>

definition wrap64 :: "int \<Rightarrow> int" where
  "wrap64 x = (x + 2 ^ 63) mod 2 ^ 64 - 2 ^ 63"

fun digits_val :: "int \<Rightarrow> string \<Rightarrow> int" where
  "digits_val acc [] = acc"
| "digits_val acc (c # cs) = digits_val (10 * acc + (int (byte c) - 48)) cs"

text \<open>
  \<open>strtol\<close> in base 10: leading white space, an optional sign, the longest run of digits.
  The result is the value (saturated), whether \<open>errno\<close> was set to \<open>ERANGE\<close>, and the
  unread rest; with no digits nothing is consumed.
\<close>

definition strtol :: "string \<Rightarrow> int \<times> bool \<times> string" where
  "strtol s =
     (let t = skip_space s;
          neg = (t \<noteq> [] \<and> hd t = CHR ''-'');
          u = (if t \<noteq> [] \<and> (hd t = CHR ''-'' \<or> hd t = CHR ''+'') then tl t else t);
          ds = takeWhile isdigit u;
          rest = dropWhile isdigit u;
          v = (if neg then - digits_val 0 ds else digits_val 0 ds)
      in if ds = [] then (0, False, s)
         else if v > LONG_MAX then (LONG_MAX, True, rest)
         else if v < LONG_MIN then (LONG_MIN, True, rest)
         else (v, False, rest))"

text \<open>\<open>printf ("%ld")\<close>.\<close>

fun nat_digits :: "nat \<Rightarrow> string" where
  "nat_digits n = (if n < 10 then [char_of (48 + n)]
                   else nat_digits (n div 10) @ [char_of (48 + n mod 10)])"

declare nat_digits.simps [simp del]

definition show_long :: "int \<Rightarrow> string" where
  "show_long n = (if n < 0 then CHR ''-'' # nat_digits (nat (- n)) else nat_digits (nat n))"

subsection \<open>The order \<open>strcmp\<close> decides\<close>

lemma byte_less_iff: "byte a < byte b \<longleftrightarrow> a < b"
  by (simp add: byte_def less_char_def)

lemma strcmp_less: "strcmp a b < 0 \<longleftrightarrow> a < b"
  by (induction a b rule: strcmp.induct) (auto simp: byte_less_iff)

lemma strcmp_eq [cstr]: "strcmp a b = 0 \<longleftrightarrow> a = b"
  by (induction a b rule: strcmp.induct) auto

lemma strcmp_refl [simp]: "strcmp a a = 0"
  by (simp add: strcmp_eq)

lemma strcmp_greater: "strcmp a b > 0 \<longleftrightarrow> b < a"
  using strcmp_less [of a b] strcmp_eq [of a b] by (cases a b rule: linorder_cases) auto

subsection \<open>Buffers\<close>

lemma length_strbuf [bounds_simps]: "length (strbuf n s) \<le> n - 1"
  by (simp add: strbuf_def)

lemma length_strbuf_less [bounds_simps]: "0 < n \<Longrightarrow> length (strbuf n s) < n"
  using length_strbuf [of n s] by linarith

lemma strbuf_id [cstr]: "length s < n \<Longrightarrow> strbuf n s = s"
  by (simp add: strbuf_def)

lemma strbuf_idem [simp]: "strbuf n (strbuf n s) = strbuf n s"
  by (simp add: strbuf_def)

lemma set_strbuf: "set (strbuf n s) \<subseteq> set s"
  by (simp add: strbuf_def set_take_subset)

subsection \<open>White space\<close>

lemma skip_space_dropWhile: "skip_space s = dropWhile isspace s"
  by (induction s) auto

lemma skip_space_idem [simp]: "skip_space (skip_space s) = skip_space s"
  by (induction s) auto

lemma skip_space_id: "s = [] \<or> \<not> isspace (hd s) \<Longrightarrow> skip_space s = s"
  by (cases s) auto

lemma length_skip_space [simp]: "length (skip_space s) \<le> length s"
  by (induction s) auto

lemma hd_skip_space: "skip_space s \<noteq> [] \<Longrightarrow> \<not> isspace (hd (skip_space s))"
  by (induction s) auto

subsection \<open>Searching in strings\<close>

lemma is_prefix_iff: "is_prefix p s \<longleftrightarrow> (\<exists>t. s = p @ t)"
  by (induction p s rule: is_prefix.induct) auto

lemma strchr_None_iff: "strchr s c = None \<longleftrightarrow> c \<notin> set s"
  by (induction s) auto

lemma strchr_SomeD: "strchr s c = Some t \<Longrightarrow> \<exists>u. s = u @ t \<and> c \<notin> set u \<and> t \<noteq> [] \<and> hd t = c"
proof (induction s)
  case (Cons a s)
  show ?case
  proof (cases "a = c")
    case True
    with Cons.prems show ?thesis by (intro exI [of _ "[]"]) auto
  next
    case False
    with Cons obtain u where "s = u @ t" "c \<notin> set u" "t \<noteq> []" "hd t = c" by auto
    with False show ?thesis by (intro exI [of _ "a # u"]) auto
  qed
qed simp

lemma strstr_Some_prefix: "strstr s p = Some t \<Longrightarrow> is_prefix p t"
  by (induction s) (auto split: if_splits)

subsection \<open>Decimal numbers\<close>

lemma LONG_MIN_le_MAX [simp]: "LONG_MIN \<le> LONG_MAX"
  by (simp add: LONG_MIN_def LONG_MAX_def)

lemma wrap64_id: "LONG_MIN \<le> x \<Longrightarrow> x \<le> LONG_MAX \<Longrightarrow> wrap64 x = x"
  by (simp add: wrap64_def LONG_MIN_def LONG_MAX_def)

lemma wrap64_range: "LONG_MIN \<le> wrap64 x \<and> wrap64 x \<le> LONG_MAX"
proof -
  have "0 \<le> (x + 2 ^ 63) mod 2 ^ 64" "(x + 2 ^ 63) mod 2 ^ 64 < (2 ^ 64 :: int)"
    by (rule pos_mod_sign pos_mod_bound; simp)+
  then show ?thesis by (simp add: wrap64_def LONG_MIN_def LONG_MAX_def)
qed

lemma strtol_range: "strtol s = (v, e, r) \<Longrightarrow> LONG_MIN \<le> v \<and> v \<le> LONG_MAX"
  by (auto simp: strtol_def Let_def LONG_MIN_def LONG_MAX_def split: if_splits)

lemma byte_char_of: "(n::nat) < 256 \<Longrightarrow> byte (char_of n) = n"
  by (simp add: byte_def)

lemma isdigit_digit: "(n::nat) < 10 \<Longrightarrow> isdigit (char_of (48 + n))"
  by (simp add: isdigit_def byte_char_of)

lemma nat_digits_digits: "\<forall>c\<in>set (nat_digits n). isdigit c"
proof (induction n rule: nat_digits.induct)
  case (1 n)
  then show ?case by (subst nat_digits.simps) (auto simp: isdigit_digit)
qed

lemma nat_digits_nonempty [simp]: "nat_digits n \<noteq> []"
  by (subst nat_digits.simps) simp

lemma digits_val_append: "digits_val acc (xs @ ys) = digits_val (digits_val acc xs) ys"
  by (induction xs arbitrary: acc) auto

lemma digits_val_nat_digits: "digits_val 0 (nat_digits n) = int n"
proof (induction n rule: nat_digits.induct)
  case (1 n)
  show ?case
  proof (cases "n < 10")
    case True
    then show ?thesis by (subst nat_digits.simps) (simp add: byte_char_of)
  next
    case False
    have "byte (char_of (48 + n mod 10)) = 48 + n mod 10" by (rule byte_char_of) simp
    then show ?thesis using False 1
      by (subst nat_digits.simps) (simp add: digits_val_append zdiv_int zmod_int)
  qed
qed

lemma isdigit_not_space: "isdigit c \<Longrightarrow> \<not> isspace c"
  by (simp add: isdigit_def isspace_def)

lemma isdigit_not_sign: "isdigit c \<Longrightarrow> c \<noteq> CHR ''-'' \<and> c \<noteq> CHR ''+''"
  by (auto simp: isdigit_def byte_def)

lemma takeWhile_all: "\<forall>c\<in>set xs. P c \<Longrightarrow> takeWhile P xs = xs"
  by simp

lemma dropWhile_all: "\<forall>c\<in>set xs. P c \<Longrightarrow> dropWhile P xs = []"
  by simp

lemma strtol_show_long:
  assumes "LONG_MIN \<le> n" "n \<le> LONG_MAX"
  shows "strtol (show_long n) = (n, False, [])"
proof -
  define k where "k = nat \<bar>n\<bar>"
  have hd_digit: "isdigit (hd (nat_digits k))" for k
    using nat_digits_digits [of k] by (simp add: list.set_sel(1))
  have skip: "skip_space (nat_digits k) = nat_digits k" for k
    using hd_digit [of k] isdigit_not_space by (intro skip_space_id) blast
  have ds: "takeWhile isdigit (nat_digits k) = nat_digits k"
    "dropWhile isdigit (nat_digits k) = []" for k
    using nat_digits_digits by (auto intro: takeWhile_all dropWhile_all)
  have sgn: "hd (nat_digits k) \<noteq> CHR ''-''" "hd (nat_digits k) \<noteq> CHR ''+''" for k
    using hd_digit [of k] isdigit_not_sign by blast+
  have nospace: "\<not> isspace (CHR ''-'')" by (simp add: isspace_def byte_def)
  show ?thesis
  proof (cases "n < 0")
    case True
    then show ?thesis using assms
      by (simp add: strtol_def show_long_def nospace ds digits_val_nat_digits Let_def)
  next
    case False
    then show ?thesis using assms
      by (simp add: strtol_def show_long_def skip ds sgn digits_val_nat_digits Let_def)
  qed
qed

subsection \<open>Lists\<close>

lemma map_fst_nth: "i < length xs \<Longrightarrow> map fst xs ! i = fst (xs ! i)"
  by simp

lemma list_split_nth: "i < length xs \<Longrightarrow> xs = take i xs @ xs ! i # drop (Suc i) xs"
  by (rule id_take_nth_drop)

end
