(* ===== verification/Lexer.thy ===== *)
theory Lexer
  imports Prelude
begin

text \<open>
  The SQL lexer, \<open>src/legacy/lexer.c\<close>, with the token types of \<open>src/legacy/types.h\<close>.
  A lexer is the SQL string and the index of the next byte; reading at the end of the string
  reads the NUL, which ends every scan. A token's text is cut to 255 bytes.

  The lemmas show that a token never overflows its buffer, that the lexer always advances
  within the string until it meets the end of the input or an illegal byte, and give one
  rewrite rule per kind of token, which the parser proofs use.
\<close>

datatype token_type =
    TOKEN_EOF | TOKEN_ILLEGAL | TOKEN_IDENTIFIER | TOKEN_STRING | TOKEN_NUMBER
  | TOKEN_SELECT | TOKEN_INSERT | TOKEN_UPDATE | TOKEN_DELETE | TOKEN_FROM | TOKEN_WHERE
  | TOKEN_SET | TOKEN_INTO | TOKEN_VALUES | TOKEN_STAR | TOKEN_COMMA | TOKEN_LPAREN
  | TOKEN_RPAREN | TOKEN_EQ | TOKEN_BETWEEN | TOKEN_AND | TOKEN_SEMICOLON

record token =
  ttype :: token_type
  ttext :: string

record lexer =
  sql :: string
  pos :: nat

definition TOKEN_TEXT :: nat where "TOKEN_TEXT = 256"

definition init_lexer :: "string \<Rightarrow> lexer" where
  "init_lexer s =
     \<lparr>sql = s,
      pos = (if 3 \<le> length s \<and> byte (s ! 0) = 239 \<and> byte (s ! 1) = 187 \<and> byte (s ! 2) = 191
             then 3 else 0)\<rparr>"

text \<open>The loops \<open>while (sql[pos] && P(sql[pos])) pos++\<close>.\<close>

definition scan_while :: "(char \<Rightarrow> bool) \<Rightarrow> string \<Rightarrow> nat \<Rightarrow> nat" where
  "scan_while P s p = p + length (takeWhile P (drop p s))"

definition token_text :: "string \<Rightarrow> nat \<Rightarrow> nat \<Rightarrow> string" where
  "token_text s start stop = strbuf TOKEN_TEXT (take (stop - start) (drop start s))"

definition is_symbol :: "char \<Rightarrow> bool" where
  "is_symbol c \<longleftrightarrow> c \<in> set ''*,=();''"

definition symbol_type :: "char \<Rightarrow> token_type" where
  "symbol_type c =
     (if c = CHR ''*'' then TOKEN_STAR else if c = CHR '','' then TOKEN_COMMA
      else if c = CHR ''='' then TOKEN_EQ else if c = CHR ''('' then TOKEN_LPAREN
      else if c = CHR '')'' then TOKEN_RPAREN else TOKEN_SEMICOLON)"

definition QUOTE :: char where "QUOTE = CHR 0x27"

definition is_word_char :: "char \<Rightarrow> bool" where
  "is_word_char c \<longleftrightarrow> isalnum c \<or> c \<in> set ''_-.''"

definition keyword_type :: "string \<Rightarrow> token_type" where
  "keyword_type txt =
     (let upper_text = map toupper txt in
      if upper_text = ''SELECT'' then TOKEN_SELECT
      else if upper_text = ''INSERT'' then TOKEN_INSERT
      else if upper_text = ''UPDATE'' then TOKEN_UPDATE
      else if upper_text = ''DELETE'' then TOKEN_DELETE
      else if upper_text = ''FROM'' then TOKEN_FROM
      else if upper_text = ''WHERE'' then TOKEN_WHERE
      else if upper_text = ''SET'' then TOKEN_SET
      else if upper_text = ''INTO'' then TOKEN_INTO
      else if upper_text = ''VALUES'' then TOKEN_VALUES
      else if upper_text = ''BETWEEN'' then TOKEN_BETWEEN
      else if upper_text = ''AND'' then TOKEN_AND
      else TOKEN_IDENTIFIER)"

definition get_next_token :: "lexer \<Rightarrow> token \<times> lexer" where
  "get_next_token l =
     (let s = sql l; p = scan_while isspace s (pos l) in
      if length s \<le> p then (\<lparr>ttype = TOKEN_EOF, ttext = []\<rparr>, l\<lparr>pos := p\<rparr>)
      else let c = s ! p in
        if is_symbol c then (\<lparr>ttype = symbol_type c, ttext = [c]\<rparr>, l\<lparr>pos := p + 1\<rparr>)
        else if c = QUOTE then
          let q = scan_while (\<lambda>d. d \<noteq> QUOTE) s (p + 1) in
          (\<lparr>ttype = TOKEN_STRING, ttext = token_text s (p + 1) q\<rparr>,
           l\<lparr>pos := (if q < length s then q + 1 else q)\<rparr>)
        else if isalpha c \<or> c = CHR ''_'' then
          let q = scan_while is_word_char s p; txt = token_text s p q in
          (\<lparr>ttype = keyword_type txt, ttext = txt\<rparr>, l\<lparr>pos := q\<rparr>)
        else if isdigit c then
          let q = scan_while is_word_char s p in
          (\<lparr>ttype = TOKEN_NUMBER, ttext = token_text s p q\<rparr>, l\<lparr>pos := q\<rparr>)
        else (\<lparr>ttype = TOKEN_ILLEGAL, ttext = []\<rparr>, l\<lparr>pos := p\<rparr>))"

subsection \<open>Bounds and progress\<close>

lemma scan_while_ge: "p \<le> scan_while P s p"
  by (simp add: scan_while_def)

lemma scan_while_le: "p \<le> length s \<Longrightarrow> scan_while P s p \<le> length s"
  using length_takeWhile_le [of P "drop p s"] by (simp add: scan_while_def)

lemma scan_while_gt: "p < length s \<Longrightarrow> P (s ! p) \<Longrightarrow> p < scan_while P s p"
  by (simp add: scan_while_def Cons_nth_drop_Suc [symmetric])

lemma token_text_length [bounds_simps]: "length (token_text s a b) < TOKEN_TEXT"
  by (simp add: token_text_def TOKEN_TEXT_def length_strbuf_less)

lemma get_next_token_text_length [bounds_simps]:
  "length (ttext (fst (get_next_token l))) < TOKEN_TEXT"
  by (auto simp: get_next_token_def Let_def token_text_length) (simp_all add: TOKEN_TEXT_def)

lemma get_next_token_sql [simp]: "sql (snd (get_next_token l)) = sql l"
  by (simp add: get_next_token_def Let_def)

lemma get_next_token_pos_le:
  "pos l \<le> length (sql l) \<Longrightarrow> pos (snd (get_next_token l)) \<le> length (sql l)"
  using scan_while_le [of "pos l" "sql l" isspace]
    scan_while_le [of "Suc (scan_while isspace (sql l) (pos l))" "sql l" "\<lambda>d. d \<noteq> QUOTE"]
  by (auto simp: get_next_token_def Let_def intro: scan_while_le)

lemma word_start_char: "isalpha c \<or> c = CHR ''_'' \<or> isdigit c \<Longrightarrow> is_word_char c"
  by (auto simp: is_word_char_def isalnum_def)

lemma get_next_token_progress:
  assumes "ttype (fst (get_next_token l)) \<notin> {TOKEN_EOF, TOKEN_ILLEGAL}"
  shows "pos l < pos (snd (get_next_token l))"
proof -
  define p where "p = scan_while isspace (sql l) (pos l)"
  have p: "pos l \<le> p" by (simp add: p_def scan_while_ge)
  have lt: "p < length (sql l)"
    using assms by (auto simp: get_next_token_def Let_def p_def [symmetric] split: if_splits)
  have gt: "p < scan_while is_word_char (sql l) p"
    if "isalpha (sql l ! p) \<or> sql l ! p = CHR ''_'' \<or> isdigit (sql l ! p)"
    using lt word_start_char [OF that] by (rule scan_while_gt)
  have q: "p + 1 \<le> scan_while (\<lambda>d. d \<noteq> QUOTE) (sql l) (p + 1)" by (rule scan_while_ge)
  show ?thesis
    using assms p lt gt q
    by (auto simp: get_next_token_def Let_def p_def [symmetric] split: if_splits)
qed

subsection \<open>One rule per kind of token\<close>

lemma drop_eq_Cons: "drop p s = c # r \<Longrightarrow> p < length s \<and> s ! p = c \<and> drop (Suc p) s = r"
  by (metis drop_all list.distinct(1) list.inject not_le_imp_less Cons_nth_drop_Suc)

lemma scan_while_stop: "drop p s = c # r \<Longrightarrow> \<not> P c \<Longrightarrow> scan_while P s p = p"
  by (simp add: scan_while_def)

lemma scan_while_space:
  "drop p s = CHR '' '' # c # r \<Longrightarrow> \<not> isspace c \<Longrightarrow> scan_while isspace s p = Suc p"
  by (simp add: scan_while_def isspace_def byte_def)

lemma scan_while_word:
  assumes "drop p s = w @ r" "\<forall>c\<in>set w. P c" "r = [] \<or> \<not> P (hd r)"
  shows "scan_while P s p = p + length w"
proof -
  have "takeWhile P (w @ r) = w" using assms(2,3) by (cases r) auto
  then show ?thesis by (simp add: scan_while_def assms(1))
qed

lemma token_text_word:
  assumes "drop p s = w @ r" "length w < TOKEN_TEXT"
  shows "token_text s p (p + length w) = w"
  using assms by (simp add: token_text_def strbuf_id)

definition is_ident :: "string \<Rightarrow> bool" where
  "is_ident w \<longleftrightarrow> w \<noteq> [] \<and> length w < TOKEN_TEXT \<and> (isalpha (hd w) \<or> hd w = CHR ''_'') \<and>
     list_all is_word_char w"

lemma alpha_not_space: "isalpha c \<or> c = CHR ''_'' \<Longrightarrow> \<not> isspace c"
  by (auto simp: isalpha_def isupper_def islower_def isspace_def byte_def)

lemma alpha_not_symbol: "isalpha c \<or> c = CHR ''_'' \<Longrightarrow> \<not> is_symbol c \<and> c \<noteq> QUOTE"
  by (auto simp: isalpha_def isupper_def islower_def is_symbol_def QUOTE_def byte_def)

lemma lex_word:
  assumes "drop (pos l) (sql l) = CHR '' '' # w @ r \<or> drop (pos l) (sql l) = w @ r"
    and "is_ident w" "r = [] \<or> \<not> is_word_char (hd r)"
  shows "get_next_token l =
    (\<lparr>ttype = keyword_type w, ttext = w\<rparr>, l\<lparr>pos := length (sql l) - length r\<rparr>)"
proof -
  obtain c w' where w: "w = c # w'" "isalpha c \<or> c = CHR ''_''" "length w < TOKEN_TEXT"
    "\<forall>d\<in>set w. is_word_char d"
    using assms(2) by (cases w) (auto simp: is_ident_def list_all_iff)
  define p where "p = scan_while isspace (sql l) (pos l)"
  have dp: "drop p (sql l) = w @ r"
    using assms(1) w(1) alpha_not_space [OF w(2)] scan_while_space [of "pos l" "sql l" c "w' @ r"]
      scan_while_stop [of "pos l" "sql l" c "w' @ r" isspace]
    by (auto simp: p_def dest: drop_eq_Cons)
  then have pl: "p < length (sql l)" and c: "sql l ! p = c"
    using w(1) drop_eq_Cons [of p "sql l" c "w' @ r"] by auto
  have len: "p + length w = length (sql l) - length r"
    using arg_cong [OF dp, of length] pl by simp
  have q: "scan_while is_word_char (sql l) p = p + length w"
    by (rule scan_while_word [OF dp w(4) assms(3)])
  show ?thesis
    using pl c alpha_not_symbol [OF w(2)] w(2) q token_text_word [OF dp w(3)] len
    by (simp add: get_next_token_def Let_def p_def [symmetric])
qed

lemma lex_symbol:
  assumes "drop (pos l) (sql l) = CHR '' '' # c # r \<or> drop (pos l) (sql l) = c # r" "is_symbol c"
  shows "get_next_token l =
    (\<lparr>ttype = symbol_type c, ttext = [c]\<rparr>, l\<lparr>pos := length (sql l) - length r\<rparr>)"
proof -
  have ns: "\<not> isspace c" using assms(2) by (auto simp: is_symbol_def isspace_def byte_def)
  define p where "p = scan_while isspace (sql l) (pos l)"
  have dp: "drop p (sql l) = c # r"
    using assms(1) ns scan_while_space [of "pos l" "sql l" c r]
      scan_while_stop [of "pos l" "sql l" c r isspace]
    by (auto simp: p_def dest: drop_eq_Cons)
  then have pl: "p < length (sql l)" "sql l ! p = c"
    using drop_eq_Cons [of p "sql l" c r] by auto
  have len: "Suc p = length (sql l) - length r"
    using arg_cong [OF dp, of length] pl by simp
  then show ?thesis using pl assms(2) by (simp add: get_next_token_def Let_def p_def [symmetric])
qed

lemma lex_string:
  assumes "drop (pos l) (sql l) = CHR '' '' # QUOTE # w @ QUOTE # r"
    and "QUOTE \<notin> set w" "length w < TOKEN_TEXT"
  shows "get_next_token l =
    (\<lparr>ttype = TOKEN_STRING, ttext = w\<rparr>, l\<lparr>pos := length (sql l) - length r\<rparr>)"
proof -
  have ns: "\<not> isspace QUOTE" "\<not> is_symbol QUOTE"
    by (auto simp: QUOTE_def isspace_def is_symbol_def byte_def)
  define p where "p = scan_while isspace (sql l) (pos l)"
  have dp: "drop p (sql l) = QUOTE # w @ QUOTE # r"
    using assms(1) scan_while_space [OF assms(1) ns(1)] by (auto simp: p_def dest: drop_eq_Cons)
  then have pl: "p < length (sql l)" "sql l ! p = QUOTE" "drop (p + 1) (sql l) = w @ QUOTE # r"
    using drop_eq_Cons [of p "sql l" QUOTE "w @ QUOTE # r"] by auto
  have q: "scan_while (\<lambda>d. d \<noteq> QUOTE) (sql l) (p + 1) = p + 1 + length w"
    by (rule scan_while_word [OF pl(3)]) (use assms(2) in auto)
  have len: "length (sql l) = p + 1 + length w + 1 + length r"
    using arg_cong [OF dp, of length] pl(1) by simp
  show ?thesis
    using pl ns q token_text_word [OF pl(3) assms(3)] len
    by (simp add: get_next_token_def Let_def p_def [symmetric])
qed

lemma lex_eof:
  assumes "\<forall>c\<in>set (drop (pos l) (sql l)). isspace c" "pos l \<le> length (sql l)"
  shows "get_next_token l = (\<lparr>ttype = TOKEN_EOF, ttext = []\<rparr>, l\<lparr>pos := length (sql l)\<rparr>)"
proof -
  have "scan_while isspace (sql l) (pos l) = length (sql l)"
    using assms by (simp add: scan_while_def takeWhile_all)
  then show ?thesis by (simp add: get_next_token_def Let_def)
qed

subsection \<open>Properties of the lexer\<close>

text \<open>
  C20. A call of the lexer inside the string stays inside it, never writes more than 255 bytes
  into the token's buffer, leaves the SQL text alone, and moves forward unless it reports the
  end of the input or an illegal byte; so a loop over the tokens ends.
\<close>

theorem lexer_token_bounds:
  assumes "pos l \<le> length (sql l)" "get_next_token l = (t, l')"
  shows "length (ttext t) < TOKEN_TEXT \<and> sql l' = sql l \<and> pos l' \<le> length (sql l) \<and>
    (ttype t = TOKEN_EOF \<or> ttype t = TOKEN_ILLEGAL \<or> pos l < pos l')"
  using get_next_token_text_length [of l] get_next_token_sql [of l] get_next_token_pos_le [OF assms(1)]
    get_next_token_progress [of l] assms(2)
  by auto

theorem lexer_token_bounds_witness:
  "\<exists>t l'. get_next_token (init_lexer ''id = 5'') = (t, l') \<and> ttype t = TOKEN_IDENTIFIER \<and> 0 < pos l'"
proof -
  let ?l = "init_lexer ''id = 5''"
  have g: "get_next_token ?l = (\<lparr>ttype = TOKEN_IDENTIFIER, ttext = ''id''\<rparr>, ?l\<lparr>pos := 2\<rparr>)" by code_simp
  have "pos ?l = 0" by (simp add: init_lexer_def byte_def)
  then show ?thesis using lexer_token_bounds [OF _ g] g by simp
qed

end
