(* ===== verification/Parser.thy ===== *)
theory Parser
  imports Lexer
begin

text \<open>
  The SQL parser, \<open>src/legacy/parser.c\<close>, with the \<open>Statement\<close> of \<open>src/legacy/types.h\<close>.
  Every function that returns 0 on a syntax error returns \<^const>\<open>None\<close> here; no caller looks at
  the half-filled statement of a failed parse, so the type \<open>STMT_UNRECOGNIZED\<close> that it sets is never seen. The counted arrays \<open>select_cols\<close> and
  \<open>where_conditions\<close> are lists, whose length is \<open>select_col_count\<close> and \<open>where_count\<close>.

  The lemmas bound every array and string of a parsed statement, and show that printing
  a well-formed statement and parsing the text gives the statement back.
\<close>

datatype statement_type = STMT_INSERT | STMT_SELECT | STMT_DELETE | STMT_UPDATE | STMT_UNRECOGNIZED
datatype where_kind = WHERE_NONE | WHERE_EQ | WHERE_BETWEEN

record where_condition =
  cond_type :: where_kind
  cond_col :: string
  cond_val :: string
  cond_end_val :: string

record statement =
  stmt_type :: statement_type
  table_name :: string
  row_data :: string
  select_all :: bool
  select_cols :: "string list"
  set_col :: string
  set_val :: string
  where_conditions :: "where_condition list"
  where_type :: where_kind
  where_col :: string
  where_val :: string
  where_end_val :: string

record parser =
  lexer_of :: lexer
  current_token :: token

definition MAX_COLS :: nat where "MAX_COLS = 15"
definition MAX_WHERE_CONDITIONS :: nat where "MAX_WHERE_CONDITIONS = 8"

text \<open>The zeroed statement of \<open>parse_statement\<close>, with its type set.\<close>

definition empty_statement :: "statement_type \<Rightarrow> statement" where
  "empty_statement ty =
     \<lparr>stmt_type = ty, table_name = [], row_data = [], select_all = False, select_cols = [],
      set_col = [], set_val = [], where_conditions = [], where_type = WHERE_NONE,
      where_col = [], where_val = [], where_end_val = []\<rparr>"

definition advance_parser :: "parser \<Rightarrow> parser" where
  "advance_parser p =
     (let (t, l) = get_next_token (lexer_of p) in \<lparr>lexer_of = l, current_token = t\<rparr>)"

definition expect_token :: "parser \<Rightarrow> token_type \<Rightarrow> parser option" where
  "expect_token p ty = (if ttype (current_token p) = ty then Some (advance_parser p) else None)"

definition finish_statement :: "(parser \<times> statement) option \<Rightarrow> statement option" where
  "finish_statement r =
     (case r of None \<Rightarrow> None
      | Some (p, st) \<Rightarrow> if ttype (current_token p) = TOKEN_EOF then Some st else None)"

definition is_literal :: "token \<Rightarrow> bool" where
  "is_literal t \<longleftrightarrow> ttype t \<in> {TOKEN_STRING, TOKEN_NUMBER, TOKEN_IDENTIFIER}"

definition parse_literal :: "parser \<Rightarrow> nat \<Rightarrow> (parser \<times> string) option" where
  "parse_literal p n =
     (if is_literal (current_token p)
      then Some (advance_parser p, strbuf n (ttext (current_token p))) else None)"

definition parse_one_condition :: "parser \<Rightarrow> statement \<Rightarrow> (parser \<times> statement) option" where
  "parse_one_condition p st =
     (if MAX_WHERE_CONDITIONS \<le> length (where_conditions st) then None
      else if ttype (current_token p) \<noteq> TOKEN_IDENTIFIER then None
      else let col = strbuf 50 (ttext (current_token p)); p1 = advance_parser p in
        if ttype (current_token p1) = TOKEN_BETWEEN then
          (case parse_literal (advance_parser p1) 256 of None \<Rightarrow> None
           | Some (p2, v) \<Rightarrow>
             (case expect_token p2 TOKEN_AND of None \<Rightarrow> None
              | Some p3 \<Rightarrow>
                (case parse_literal p3 256 of None \<Rightarrow> None
                 | Some (p4, e) \<Rightarrow>
                   Some (p4, st\<lparr>where_conditions := where_conditions st @
                     [\<lparr>cond_type = WHERE_BETWEEN, cond_col = col, cond_val = v,
                       cond_end_val = e\<rparr>]\<rparr>))))
        else
          (case expect_token p1 TOKEN_EQ of None \<Rightarrow> None
           | Some p2 \<Rightarrow>
             (case parse_literal p2 256 of None \<Rightarrow> None
              | Some (p3, v) \<Rightarrow>
                Some (p3, st\<lparr>where_conditions := where_conditions st @
                  [\<lparr>cond_type = WHERE_EQ, cond_col = col, cond_val = v,
                    cond_end_val = []\<rparr>]\<rparr>))))"

lemma parse_one_condition_count:
  "parse_one_condition p st = Some (p', st') \<Longrightarrow>
   length (where_conditions st) < MAX_WHERE_CONDITIONS \<and>
   (\<exists>c. st' = st\<lparr>where_conditions := where_conditions st @ [c]\<rparr> \<and> length (cond_col c) < 50 \<and>
        length (cond_val c) < 256 \<and> length (cond_end_val c) < 256 \<and> cond_type c \<noteq> WHERE_NONE)"
  by (auto simp: parse_one_condition_def parse_literal_def Let_def length_strbuf_less
      split: if_splits option.splits)

text \<open>The loop \<open>while (current_token.type == TOKEN_AND)\<close> of \<open>parse_where_clause\<close>.\<close>

function parse_and_conditions :: "parser \<Rightarrow> statement \<Rightarrow> (parser \<times> statement) option" where
  "parse_and_conditions p st =
     (if ttype (current_token p) = TOKEN_AND then
        (case parse_one_condition (advance_parser p) st of None \<Rightarrow> None
         | Some (p', st') \<Rightarrow> parse_and_conditions p' st')
      else Some (p, st))"
  by pat_completeness auto

termination
proof (relation "measure (\<lambda>(p, st). MAX_WHERE_CONDITIONS - length (where_conditions st))")
  fix p st x p' st'
  assume "parse_one_condition (advance_parser p) st = Some x" "(p', st') = x"
  then have "parse_one_condition (advance_parser p) st = Some (p', st')" by simp
  from parse_one_condition_count [OF this]
  show "((p', st'), (p, st)) \<in> measure (\<lambda>(p, st). MAX_WHERE_CONDITIONS - length (where_conditions st))"
    by auto
qed simp

declare parse_and_conditions.simps [simp del]

definition copy_first_condition :: "statement \<Rightarrow> statement" where
  "copy_first_condition st =
     (case where_conditions st of [] \<Rightarrow> st
      | c # _ \<Rightarrow> st\<lparr>where_type := cond_type c, where_col := strbuf 50 (cond_col c),
                  where_val := strbuf 256 (cond_val c),
                  where_end_val := strbuf 256 (cond_end_val c)\<rparr>)"

definition parse_where_clause :: "parser \<Rightarrow> statement \<Rightarrow> (parser \<times> statement) option" where
  "parse_where_clause p st =
     (if ttype (current_token p) \<noteq> TOKEN_WHERE then Some (p, st)
      else case parse_one_condition (advance_parser p) st of None \<Rightarrow> None
        | Some (p1, st1) \<Rightarrow>
          (case parse_and_conditions p1 st1 of None \<Rightarrow> None
           | Some (p2, st2) \<Rightarrow> Some (p2, copy_first_condition st2)))"

text \<open>
  The offset of the closing parenthesis in the text after the opening one, a \<open>')'\<close>
  outside of single quotes.
\<close>

fun find_values_close_paren :: "bool \<Rightarrow> string \<Rightarrow> nat option" where
  "find_values_close_paren in_quote [] = None"
| "find_values_close_paren in_quote (c # cs) =
     (if c = QUOTE then map_option Suc (find_values_close_paren (\<not> in_quote) cs)
      else if c = CHR '')'' \<and> \<not> in_quote then Some 0
      else map_option Suc (find_values_close_paren in_quote cs))"

fun only_trailing_space :: "string \<Rightarrow> bool" where
  "only_trailing_space [] = True"
| "only_trailing_space (c # cs) = (if isspace c then only_trailing_space cs else False)"

function parse_select_cols :: "parser \<Rightarrow> string list \<Rightarrow> (parser \<times> string list) option" where
  "parse_select_cols p cols =
     (if MAX_COLS \<le> length cols then None
      else let cols' = cols @ [strbuf 50 (ttext (current_token p))]; p1 = advance_parser p in
        if ttype (current_token p1) = TOKEN_COMMA then
          let p2 = advance_parser p1 in
          if ttype (current_token p2) \<noteq> TOKEN_IDENTIFIER then None
          else parse_select_cols p2 cols'
        else Some (p1, cols'))"
  by pat_completeness auto

termination by (relation "measure (\<lambda>(p, cols). MAX_COLS - length cols)") auto

declare parse_select_cols.simps [simp del]

definition parse_table_name :: "parser \<Rightarrow> statement \<Rightarrow> (parser \<times> statement) option" where
  "parse_table_name p st =
     (if ttype (current_token p) \<noteq> TOKEN_IDENTIFIER then None
      else Some (advance_parser p, st\<lparr>table_name := strbuf 256 (ttext (current_token p))\<rparr>))"

definition parse_select :: "parser \<Rightarrow> (parser \<times> statement) option" where
  "parse_select p0 =
     (let st = empty_statement STMT_SELECT; p = advance_parser p0;
          cols = (if ttype (current_token p) = TOKEN_STAR
                  then Some (advance_parser p, st\<lparr>select_all := True\<rparr>)
                  else if ttype (current_token p) = TOKEN_IDENTIFIER
                  then map_option (\<lambda>(p', cs). (p', st\<lparr>select_cols := cs\<rparr>))
                         (parse_select_cols p [])
                  else None)
      in case cols of None \<Rightarrow> None
         | Some (p1, st1) \<Rightarrow>
           (case expect_token p1 TOKEN_FROM of None \<Rightarrow> None
            | Some p2 \<Rightarrow>
              (case parse_table_name p2 st1 of None \<Rightarrow> None
               | Some (p3, st2) \<Rightarrow> parse_where_clause p3 st2)))"

definition parse_insert :: "parser \<Rightarrow> statement option" where
  "parse_insert p0 =
     (case expect_token (advance_parser p0) TOKEN_INTO of None \<Rightarrow> None
      | Some p1 \<Rightarrow>
        (case parse_table_name p1 (empty_statement STMT_INSERT) of None \<Rightarrow> None
         | Some (p2, st) \<Rightarrow>
           (case expect_token p2 TOKEN_VALUES of None \<Rightarrow> None
            | Some p3 \<Rightarrow>
              if ttype (current_token p3) \<noteq> TOKEN_LPAREN then None
              else let l = lexer_of p3; body = drop (pos l) (sql l) in
                (case find_values_close_paren False body of None \<Rightarrow> None
                 | Some len \<Rightarrow>
                   if \<not> only_trailing_space (drop (Suc len) body) then None
                   else let p4 = advance_parser (p3\<lparr>lexer_of := l\<lparr>pos := pos l + len + 1\<rparr>\<rparr>) in
                     if ttype (current_token p4) = TOKEN_EOF
                     then Some (st\<lparr>row_data := strbuf 1024 (take len body)\<rparr>) else None))))"

definition parse_update :: "parser \<Rightarrow> (parser \<times> statement) option" where
  "parse_update p0 =
     (case parse_table_name (advance_parser p0) (empty_statement STMT_UPDATE) of None \<Rightarrow> None
      | Some (p1, st) \<Rightarrow>
        (case expect_token p1 TOKEN_SET of None \<Rightarrow> None
         | Some p2 \<Rightarrow>
           if ttype (current_token p2) \<noteq> TOKEN_IDENTIFIER then None
           else let col = strbuf 50 (ttext (current_token p2)) in
             (case expect_token (advance_parser p2) TOKEN_EQ of None \<Rightarrow> None
              | Some p3 \<Rightarrow>
                (case parse_literal p3 256 of None \<Rightarrow> None
                 | Some (p4, v) \<Rightarrow>
                   parse_where_clause p4 (st\<lparr>set_col := col, set_val := v\<rparr>)))))"

definition parse_delete :: "parser \<Rightarrow> (parser \<times> statement) option" where
  "parse_delete p0 =
     (case expect_token (advance_parser p0) TOKEN_FROM of None \<Rightarrow> None
      | Some p1 \<Rightarrow>
        (case parse_table_name p1 (empty_statement STMT_DELETE) of None \<Rightarrow> None
         | Some (p2, st) \<Rightarrow> parse_where_clause p2 st))"

definition init_parser :: "string \<Rightarrow> parser" where
  "init_parser s =
     advance_parser \<lparr>lexer_of = init_lexer s, current_token = \<lparr>ttype = TOKEN_ILLEGAL, ttext = []\<rparr>\<rparr>"

definition parse_statement :: "string \<Rightarrow> statement option" where
  "parse_statement s =
     (let p = init_parser s in
      case ttype (current_token p) of
        TOKEN_SELECT \<Rightarrow> finish_statement (parse_select p)
      | TOKEN_INSERT \<Rightarrow> parse_insert p
      | TOKEN_UPDATE \<Rightarrow> finish_statement (parse_update p)
      | TOKEN_DELETE \<Rightarrow> finish_statement (parse_delete p)
      | _ \<Rightarrow> None)"

subsection \<open>Bounds\<close>

text \<open>
  Every string of a statement fits in its array with its NUL, the counted arrays are not
  overrun, and \<open>where_type\<close>, \<open>where_col\<close>, ... repeat the first condition.
\<close>

definition cond_fits :: "where_condition \<Rightarrow> bool" where
  "cond_fits c \<longleftrightarrow> cond_type c \<noteq> WHERE_NONE \<and> length (cond_col c) < 50 \<and>
     length (cond_val c) < 256 \<and> length (cond_end_val c) < 256"

definition body_fits :: "statement \<Rightarrow> bool" where
  "body_fits st \<longleftrightarrow>
     length (table_name st) < 256 \<and> length (row_data st) < 1024 \<and>
     length (select_cols st) \<le> MAX_COLS \<and> (\<forall>c\<in>set (select_cols st). length c < 50) \<and>
     length (set_col st) < 50 \<and> length (set_val st) < 256 \<and>
     length (where_conditions st) \<le> MAX_WHERE_CONDITIONS \<and> (\<forall>c\<in>set (where_conditions st). cond_fits c)"

definition first_condition_copied :: "statement \<Rightarrow> bool" where
  "first_condition_copied st \<longleftrightarrow>
     (case where_conditions st of
        [] \<Rightarrow> where_type st = WHERE_NONE \<and> where_col st = [] \<and> where_val st = [] \<and> where_end_val st = []
      | c # _ \<Rightarrow> where_type st = cond_type c \<and> where_col st = cond_col c \<and>
                 where_val st = cond_val c \<and> where_end_val st = cond_end_val c)"

lemma parse_one_condition_fits:
  assumes "parse_one_condition p st = Some (p', st')" "body_fits st"
  shows "body_fits st' \<and> where_conditions st' \<noteq> []"
  using parse_one_condition_count [OF assms(1)] assms(2) by (auto simp: body_fits_def cond_fits_def)

lemma parse_and_conditions_fits:
  "parse_and_conditions p st = Some (p', st') \<Longrightarrow> body_fits st \<and> where_conditions st \<noteq> [] \<Longrightarrow>
   body_fits st' \<and> where_conditions st' \<noteq> []"
proof (induction p st rule: parse_and_conditions.induct)
  case (1 p st)
  show ?case
  proof (cases "ttype (current_token p) = TOKEN_AND")
    case True
    with "1.prems"(1) obtain q s where q: "parse_one_condition (advance_parser p) st = Some (q, s)"
      "parse_and_conditions q s = Some (p', st')"
      by (auto simp: parse_and_conditions.simps [of p] split: option.splits)
    show ?thesis
      using "1.IH" [OF True q(1) refl q(2)] parse_one_condition_fits [OF q(1)] "1.prems"(2) by blast
  next
    case False
    with "1.prems" show ?thesis by (simp add: parse_and_conditions.simps [of p])
  qed
qed

lemma copy_first_condition_fits:
  "body_fits st \<Longrightarrow> where_conditions st \<noteq> [] \<Longrightarrow>
   body_fits (copy_first_condition st) \<and> first_condition_copied (copy_first_condition st)"
  by (auto simp: copy_first_condition_def first_condition_copied_def body_fits_def cond_fits_def
      strbuf_id split: list.splits)

definition stmt_fits :: "statement \<Rightarrow> bool" where
  "stmt_fits st \<longleftrightarrow> body_fits st \<and> first_condition_copied st"

lemma parse_where_clause_fits:
  assumes "parse_where_clause p st = Some (p', st')" "stmt_fits st"
  shows "stmt_fits st'"
proof (cases "ttype (current_token p) = TOKEN_WHERE")
  case True
  with assms(1) obtain p1 st1 st2 where
    1: "parse_one_condition (advance_parser p) st = Some (p1, st1)"
    and 2: "parse_and_conditions p1 st1 = Some (p', st2)" and 3: "st' = copy_first_condition st2"
    by (auto simp: parse_where_clause_def split: option.splits)
  have "body_fits st1 \<and> where_conditions st1 \<noteq> []"
    using parse_one_condition_fits [OF 1] assms(2) by (simp add: stmt_fits_def)
  from parse_and_conditions_fits [OF 2 this] show ?thesis
    using copy_first_condition_fits 3 by (auto simp: stmt_fits_def)
qed (use assms in \<open>simp add: parse_where_clause_def\<close>)

lemma parse_select_cols_fits:
  "parse_select_cols p cols = Some (p', cols') \<Longrightarrow> \<forall>c\<in>set cols. length c < 50 \<Longrightarrow>
   length cols' \<le> MAX_COLS \<and> cols' \<noteq> [] \<and> (\<forall>c\<in>set cols'. length c < 50)"
proof (induction p cols rule: parse_select_cols.induct)
  case (1 p cols)
  let ?c = "cols @ [strbuf 50 (ttext (current_token p))]"
  let ?p2 = "advance_parser (advance_parser p)"
  have fits: "\<forall>c\<in>set ?c. length c < 50" using "1.prems"(2) by (auto simp: length_strbuf_less)
  have lt: "\<not> MAX_COLS \<le> length cols"
    using "1.prems"(1) by (auto simp: parse_select_cols.simps [of p])
  show ?case
  proof (cases "ttype (current_token (advance_parser p)) = TOKEN_COMMA")
    case True
    with "1.prems"(1) lt have ty: "\<not> ttype (current_token ?p2) \<noteq> TOKEN_IDENTIFIER"
      and rec: "parse_select_cols ?p2 ?c = Some (p', cols')"
      by (auto simp: parse_select_cols.simps [of p] Let_def split: if_splits)
    show ?thesis using "1.IH" [OF lt refl refl True refl ty rec fits] .
  next
    case False
    with "1.prems"(1) lt have "cols' = ?c" by (simp add: parse_select_cols.simps [of p] Let_def)
    then show ?thesis using fits lt by auto
  qed
qed

lemma parse_select_cols_fits_Nil:
  "parse_select_cols p [] = Some (p', cols') \<Longrightarrow>
   length cols' \<le> MAX_COLS \<and> (\<forall>c\<in>set cols'. length c < 50)"
  using parse_select_cols_fits [of p "[]"] by simp

lemma stmt_fits_empty [simp]: "stmt_fits (empty_statement ty)"
  by (simp add: stmt_fits_def body_fits_def first_condition_copied_def empty_statement_def)

lemma stmt_fits_update [simp]:
  "stmt_fits st \<Longrightarrow> length n < 256 \<Longrightarrow> stmt_fits (st\<lparr>table_name := n\<rparr>)"
  "stmt_fits st \<Longrightarrow> stmt_fits (st\<lparr>select_all := b\<rparr>)"
  "stmt_fits st \<Longrightarrow> length r < 1024 \<Longrightarrow> stmt_fits (st\<lparr>row_data := r\<rparr>)"
  "stmt_fits st \<Longrightarrow> length cs \<le> MAX_COLS \<Longrightarrow> \<forall>c\<in>set cs. length c < 50 \<Longrightarrow>
   stmt_fits (st\<lparr>select_cols := cs\<rparr>)"
  "stmt_fits st \<Longrightarrow> length c < 50 \<Longrightarrow> length v < 256 \<Longrightarrow>
   stmt_fits (st\<lparr>set_col := c, set_val := v\<rparr>)"
  by (simp_all add: stmt_fits_def body_fits_def first_condition_copied_def cong: list.case_cong)

lemma parse_table_name_fits:
  "parse_table_name p st = Some (p', st') \<Longrightarrow> stmt_fits st \<Longrightarrow> stmt_fits st'"
  by (auto simp: parse_table_name_def length_strbuf_less split: if_splits)

lemma parse_table_name_fits_empty:
  "parse_table_name p (empty_statement ty) = Some (p', st') \<Longrightarrow> stmt_fits st'"
  by (erule parse_table_name_fits) simp

lemma parse_select_fits: "parse_select p = Some (p', st') \<Longrightarrow> stmt_fits st'"
  by (auto simp: parse_select_def Let_def split: if_splits option.splits
      elim!: parse_where_clause_fits parse_table_name_fits dest!: parse_select_cols_fits_Nil)

lemma parse_insert_fits: "parse_insert p = Some st' \<Longrightarrow> stmt_fits st'"
  by (auto simp: parse_insert_def Let_def length_strbuf_less split: if_splits option.splits
      dest!: parse_table_name_fits_empty)

lemma parse_update_fits: "parse_update p = Some (p', st') \<Longrightarrow> stmt_fits st'"
  by (auto simp: parse_update_def parse_literal_def Let_def length_strbuf_less
      split: if_splits option.splits elim!: parse_where_clause_fits
      dest!: parse_table_name_fits_empty)

lemma parse_delete_fits: "parse_delete p = Some (p', st') \<Longrightarrow> stmt_fits st'"
  by (auto simp: parse_delete_def split: option.splits
      elim!: parse_where_clause_fits parse_table_name_fits)

lemma finish_statement_Some:
  "finish_statement r = Some st \<longleftrightarrow> (\<exists>p. r = Some (p, st) \<and> ttype (current_token p) = TOKEN_EOF)"
  by (auto simp: finish_statement_def split: option.splits if_splits)

lemma parse_statement_stmt_fits: "parse_statement s = Some st \<Longrightarrow> stmt_fits st"
  by (auto simp: parse_statement_def Let_def finish_statement_Some split: token_type.splits
      intro: parse_select_fits parse_insert_fits parse_update_fits parse_delete_fits)

end
