(* ===== verification/Parser_Print.thy ===== *)
theory Parser_Print
  imports Parser
begin

text \<open>
  A printer for statements and the proof that the parser inverts it. A statement is printed
  as a list of tokens separated by one space; the parser is then run on the token list
  (\<open>at_tokens\<close>), so that its proofs never look at characters. Literals are printed in quotes,
  since the parser keeps only their text.
\<close>

subsection \<open>Printing tokens\<close>

definition word_token :: "string \<Rightarrow> token" where
  "word_token w = \<lparr>ttype = keyword_type w, ttext = w\<rparr>"

definition symbol_token :: "char \<Rightarrow> token" where
  "symbol_token c = \<lparr>ttype = symbol_type c, ttext = [c]\<rparr>"

definition string_token :: "string \<Rightarrow> token" where
  "string_token w = \<lparr>ttype = TOKEN_STRING, ttext = w\<rparr>"

definition eof_token :: token where
  "eof_token = \<lparr>ttype = TOKEN_EOF, ttext = []\<rparr>"

definition print_token :: "token \<Rightarrow> string" where
  "print_token t = (if ttype t = TOKEN_STRING then QUOTE # ttext t @ [QUOTE] else ttext t)"

definition is_word :: "token \<Rightarrow> bool" where
  "is_word t \<longleftrightarrow> is_ident (ttext t) \<and> t = word_token (ttext t)"

definition is_sym :: "token \<Rightarrow> bool" where
  "is_sym t \<longleftrightarrow> ttext t \<noteq> [] \<and> is_symbol (hd (ttext t)) \<and> t = symbol_token (hd (ttext t))"

definition is_str :: "token \<Rightarrow> bool" where
  "is_str t \<longleftrightarrow> ttype t = TOKEN_STRING \<and> QUOTE \<notin> set (ttext t) \<and> length (ttext t) < TOKEN_TEXT"

definition printable :: "token \<Rightarrow> bool" where
  "printable t \<longleftrightarrow> is_word t \<or> is_sym t \<or> is_str t"

definition spaced :: "token list \<Rightarrow> string" where
  "spaced ts = concat (map (\<lambda>t. CHR '' '' # print_token t) ts)"

text \<open>
  The rest of the input of a lexer is the tokens \<open>ts\<close> and then \<open>rest\<close>, which only
  follows a symbol.
\<close>

definition stream :: "lexer \<Rightarrow> token list \<Rightarrow> string \<Rightarrow> bool" where
  "stream l ts rest \<longleftrightarrow> pos l \<le> length (sql l) \<and> drop (pos l) (sql l) = spaced ts @ rest \<and>
     list_all printable ts \<and> (ts = [] \<or> rest = [] \<or> is_sym (last ts))"

lemma keyword_type_not_string [simp]: "keyword_type w \<noteq> TOKEN_STRING" "keyword_type w \<noteq> TOKEN_EOF"
  by (simp_all add: keyword_type_def Let_def)

lemma symbol_type_not_string [simp]: "symbol_type c \<noteq> TOKEN_STRING" "symbol_type c \<noteq> TOKEN_EOF"
  by (simp_all add: symbol_type_def)

lemma space_not_word [simp]: "\<not> is_word_char (CHR '' '')"
  by (simp add: is_word_char_def isalnum_def isalpha_def isupper_def islower_def isdigit_def byte_def)

lemma spaced_simps [simp]:
  "spaced [] = []" "spaced (t # ts) = CHR '' '' # print_token t @ spaced ts"
  by (simp_all add: spaced_def)

lemma drop_length_minus: "drop p s = u @ r \<Longrightarrow> p \<le> length s \<Longrightarrow> drop (length s - length r) s = r"
  by (metis append_eq_conv_conj append_take_drop_id append_assoc length_append diff_add_inverse2)

lemma is_word_not_sym: "is_word t \<Longrightarrow> \<not> is_sym t"
  using alpha_not_symbol by (auto simp: is_word_def is_sym_def is_ident_def)

lemma word_boundary:
  assumes "stream l (t # ts) rest" "is_word t"
  shows "spaced ts @ rest = [] \<or> \<not> is_word_char (hd (spaced ts @ rest))"
proof (cases ts)
  case Nil
  then show ?thesis using assms is_word_not_sym by (auto simp: stream_def)
next
  case (Cons u us)
  then show ?thesis by simp
qed

lemma get_next_token_stream:
  assumes "stream l (t # ts) rest"
  shows "\<exists>l'. get_next_token l = (t, l') \<and> stream l' ts rest \<and> sql l' = sql l"
proof -
  let ?r = "spaced ts @ rest"
  let ?l' = "l\<lparr>pos := length (sql l) - length ?r\<rparr>"
  have d: "drop (pos l) (sql l) = CHR '' '' # print_token t @ ?r" and pl: "pos l \<le> length (sql l)"
    using assms by (auto simp: stream_def)
  have "drop (pos ?l') (sql ?l') = ?r"
    using drop_length_minus [of "pos l" "sql l" "CHR '' '' # print_token t" ?r] d pl by simp
  then have st: "stream ?l' ts rest"
    using assms by (auto simp: stream_def split: if_splits)
  have "get_next_token l = (t, ?l')"
  proof -
    consider "is_word t" | "is_sym t" | "is_str t"
      using assms by (auto simp: stream_def printable_def)
    then show ?thesis
    proof cases
      case 1
      then have w: "t = \<lparr>ttype = keyword_type (ttext t), ttext = ttext t\<rparr>" "is_ident (ttext t)"
        by (auto simp: is_word_def word_token_def)
      then have "print_token t = ttext t" by (simp add: print_token_def) (metis keyword_type_not_string(1) token.select_convs(1))
      then show ?thesis
        using lex_word [of l "ttext t" ?r] d w word_boundary [OF assms 1] by simp
    next
      case 2
      then obtain c where c: "t = \<lparr>ttype = symbol_type c, ttext = [c]\<rparr>" "is_symbol c"
        by (auto simp: is_sym_def symbol_token_def)
      then show ?thesis using lex_symbol [of l c ?r] d by (simp add: print_token_def)
    next
      case 3
      then show ?thesis
        using lex_string [of l "ttext t" ?r] d by (simp add: print_token_def is_str_def)
    qed
  qed
  with st show ?thesis by auto
qed

text \<open>The whole token list of an input, up to the end of the input or an illegal byte.\<close>

function tokens_from :: "lexer \<Rightarrow> token list" where
  "tokens_from l =
     (if length (sql l) < pos l then []
      else let (t, l') = get_next_token l in
        if ttype t \<in> {TOKEN_EOF, TOKEN_ILLEGAL} then [] else t # tokens_from l')"
  by pat_completeness auto

termination
proof (relation "measure (\<lambda>l. Suc (length (sql l)) - pos l)")
  fix l x t l'
  assume a: "\<not> length (sql l) < pos l" "x = get_next_token l" "(t, l') = x"
    "\<not> ttype t \<in> {TOKEN_EOF, TOKEN_ILLEGAL}"
  then have "t = fst (get_next_token l)" "l' = snd (get_next_token l)" by (metis fst_conv, metis snd_conv)
  with a get_next_token_progress [of l] show "(l', l) \<in> measure (\<lambda>l. Suc (length (sql l)) - pos l)"
    by auto
qed simp

declare tokens_from.simps [simp del]

lemma get_next_token_stream_end:
  "stream l [] [] \<Longrightarrow> get_next_token l = (eof_token, l\<lparr>pos := length (sql l)\<rparr>)"
  by (simp add: stream_def lex_eof eof_token_def)

lemma keyword_type_proper: "keyword_type w \<noteq> TOKEN_EOF" "keyword_type w \<noteq> TOKEN_ILLEGAL"
  by (simp_all add: keyword_type_def Let_def)

lemma symbol_type_proper: "symbol_type c \<noteq> TOKEN_ILLEGAL"
  by (simp add: symbol_type_def)

lemma printable_type: "printable t \<Longrightarrow> ttype t \<notin> {TOKEN_EOF, TOKEN_ILLEGAL}"
proof -
  assume "printable t"
  then consider "t = word_token (ttext t)" | "t = symbol_token (hd (ttext t))" | "ttype t = TOKEN_STRING"
    unfolding printable_def is_word_def is_sym_def is_str_def by blast
  then show ?thesis
  proof cases
    case 1
    then have "ttype t = keyword_type (ttext t)" by (metis word_token_def token.select_convs(1))
    then show ?thesis using keyword_type_proper by simp
  next
    case 2
    then have "ttype t = symbol_type (hd (ttext t))" by (metis symbol_token_def token.select_convs(1))
    then show ?thesis using symbol_type_proper by simp
  qed simp
qed

lemma tokens_from_stream: "stream l ts [] \<Longrightarrow> tokens_from l = ts"
proof (induction ts arbitrary: l)
  case Nil
  then show ?case
    by (subst tokens_from.simps) (simp add: get_next_token_stream_end eof_token_def)
next
  case (Cons t ts)
  then obtain l' where l': "get_next_token l = (t, l')" "stream l' ts []"
    using get_next_token_stream by blast
  have "\<not> length (sql l) < pos l" and "printable t" using Cons.prems by (auto simp: stream_def)
  then show ?case
    using l' Cons.IH [OF l'(2)] printable_type by (subst tokens_from.simps) auto
qed

subsection \<open>The parser on a token list\<close>

definition at_tokens :: "parser \<Rightarrow> token list \<Rightarrow> string \<Rightarrow> bool" where
  "at_tokens p ts rest \<longleftrightarrow>
     (case ts of [] \<Rightarrow> current_token p = eof_token \<and> rest = []
      | t # us \<Rightarrow> current_token p = t \<and> stream (lexer_of p) us rest)"

lemma at_tokens_current: "at_tokens p (t # ts) rest \<Longrightarrow> current_token p = t"
  by (simp add: at_tokens_def)

lemma at_tokens_current_hd:
  "at_tokens p ts rest \<Longrightarrow> current_token p = (if ts = [] then eof_token else hd ts)"
  by (cases ts) (auto simp: at_tokens_def)

lemma at_tokens_advance:
  assumes "at_tokens p (t # ts) rest" "ts \<noteq> [] \<or> rest = []"
  shows "at_tokens (advance_parser p) ts rest"
proof (cases ts)
  case Nil
  then show ?thesis
    using assms by (simp add: at_tokens_def advance_parser_def get_next_token_stream_end)
next
  case (Cons u us)
  then obtain l' where "get_next_token (lexer_of p) = (u, l')" "stream l' us rest"
    using assms(1) get_next_token_stream [of "lexer_of p" u us rest] by (auto simp: at_tokens_def)
  then show ?thesis using Cons by (simp add: at_tokens_def advance_parser_def)
qed

lemma at_tokens_expect:
  assumes "at_tokens p (t # ts) rest" "ttype t = ty" "ts \<noteq> [] \<or> rest = []"
  shows "\<exists>p'. expect_token p ty = Some p' \<and> at_tokens p' ts rest"
  using at_tokens_advance [OF assms(1,3)] assms by (simp add: expect_token_def at_tokens_def)

lemma at_tokens_literal:
  assumes "at_tokens p (string_token v # ts) []" "length v < n"
  shows "\<exists>p'. parse_literal p n = Some (p', v) \<and> at_tokens p' ts []"
  using at_tokens_advance [OF assms(1)] assms
  by (simp add: parse_literal_def at_tokens_def is_literal_def string_token_def strbuf_id)

subsection \<open>Printing statements\<close>

definition ident :: "nat \<Rightarrow> string \<Rightarrow> bool" where
  "ident n w \<longleftrightarrow> is_ident w \<and> keyword_type w = TOKEN_IDENTIFIER \<and> length w < n"

definition literal :: "string \<Rightarrow> bool" where
  "literal v \<longleftrightarrow> QUOTE \<notin> set v \<and> length v < 256"

definition cond_tokens :: "where_condition \<Rightarrow> token list" where
  "cond_tokens c = word_token (cond_col c) #
     (if cond_type c = WHERE_BETWEEN
      then [word_token ''BETWEEN'', string_token (cond_val c), word_token ''AND'',
            string_token (cond_end_val c)]
      else [symbol_token (CHR ''=''), string_token (cond_val c)])"

definition and_tokens :: "where_condition list \<Rightarrow> token list" where
  "and_tokens cs = concat (map (\<lambda>c. word_token ''AND'' # cond_tokens c) cs)"

fun where_tokens :: "where_condition list \<Rightarrow> token list" where
  "where_tokens [] = []"
| "where_tokens (c # cs) = word_token ''WHERE'' # cond_tokens c @ and_tokens cs"

fun col_tokens :: "string list \<Rightarrow> token list" where
  "col_tokens [] = []"
| "col_tokens [c] = [word_token c]"
| "col_tokens (c # cs) = word_token c # symbol_token (CHR '','') # col_tokens cs"

definition show_statement :: "statement \<Rightarrow> string" where
  "show_statement st =
     (case stmt_type st of
        STMT_SELECT \<Rightarrow> ''SELECT'' @ spaced
          ((if select_all st then [symbol_token (CHR ''*'')] else col_tokens (select_cols st)) @
           word_token ''FROM'' # word_token (table_name st) # where_tokens (where_conditions st))
      | STMT_INSERT \<Rightarrow> ''INSERT'' @ spaced
          [word_token ''INTO'', word_token (table_name st), word_token ''VALUES'',
           symbol_token (CHR ''('')] @ row_data st @ '')''
      | STMT_UPDATE \<Rightarrow> ''UPDATE'' @ spaced
          (word_token (table_name st) # word_token ''SET'' # word_token (set_col st) #
           symbol_token (CHR ''='') # string_token (set_val st) # where_tokens (where_conditions st))
      | STMT_DELETE \<Rightarrow> ''DELETE'' @ spaced
          (word_token ''FROM'' # word_token (table_name st) # where_tokens (where_conditions st))
      | STMT_UNRECOGNIZED \<Rightarrow> [])"

definition cond_ok :: "where_condition \<Rightarrow> bool" where
  "cond_ok c \<longleftrightarrow> ident 50 (cond_col c) \<and> literal (cond_val c) \<and>
     (case cond_type c of WHERE_NONE \<Rightarrow> False | WHERE_EQ \<Rightarrow> cond_end_val c = []
      | WHERE_BETWEEN \<Rightarrow> literal (cond_end_val c))"

text \<open>The quotes of a row are balanced and its parentheses are inside quotes.\<close>

fun row_text :: "bool \<Rightarrow> string \<Rightarrow> bool" where
  "row_text q [] = (\<not> q)"
| "row_text q (c # cs) = (if c = QUOTE then row_text (\<not> q) cs
     else if c = CHR '')'' \<and> \<not> q then False else row_text q cs)"

text \<open>
  A statement that some SQL text denotes: names are identifiers, literals hold no quote,
  fields that do not belong to its type are zero.
\<close>

definition statement_ok :: "statement \<Rightarrow> bool" where
  "statement_ok st \<longleftrightarrow>
     ident 256 (table_name st) \<and> list_all cond_ok (where_conditions st) \<and>
     length (where_conditions st) \<le> MAX_WHERE_CONDITIONS \<and> first_condition_copied st \<and>
     (case stmt_type st of
        STMT_SELECT \<Rightarrow> row_data st = [] \<and> set_col st = [] \<and> set_val st = [] \<and>
          (if select_all st then select_cols st = []
           else select_cols st \<noteq> [] \<and> length (select_cols st) \<le> MAX_COLS \<and>
                list_all (ident 50) (select_cols st))
      | STMT_INSERT \<Rightarrow> row_text False (row_data st) \<and> length (row_data st) < 1024 \<and>
          \<not> select_all st \<and> select_cols st = [] \<and> set_col st = [] \<and> set_val st = [] \<and>
          where_conditions st = []
      | STMT_UPDATE \<Rightarrow> row_data st = [] \<and> \<not> select_all st \<and> select_cols st = [] \<and>
          ident 50 (set_col st) \<and> literal (set_val st)
      | STMT_DELETE \<Rightarrow> row_data st = [] \<and> \<not> select_all st \<and> select_cols st = [] \<and>
          set_col st = [] \<and> set_val st = []
      | STMT_UNRECOGNIZED \<Rightarrow> False)"

subsection \<open>Every token of a printed statement is printable\<close>

lemma printable_string [simp]: "literal v \<Longrightarrow> printable (string_token v)"
  by (simp add: printable_def is_str_def literal_def string_token_def TOKEN_TEXT_def)

lemma printable_word [simp]: "is_ident w \<Longrightarrow> printable (word_token w)"
  by (simp add: printable_def is_word_def word_token_def)

lemma printable_symbol [simp]: "is_symbol c \<Longrightarrow> printable (symbol_token c)"
  by (simp add: printable_def is_sym_def symbol_token_def)

lemma ident_is_ident: "ident n w \<Longrightarrow> is_ident w"
  by (simp add: ident_def)

lemma is_ident_keywords [simp]:
  "is_ident ''BETWEEN''" "is_ident ''AND''" "is_ident ''WHERE''" "is_ident ''FROM''"
  "is_ident ''SET''" "is_ident ''INTO''" "is_ident ''VALUES''" "is_ident ''SELECT''"
  "is_ident ''INSERT''" "is_ident ''UPDATE''" "is_ident ''DELETE''"
  by (simp_all add: is_ident_def TOKEN_TEXT_def is_word_char_def isalnum_def isalpha_def isupper_def
      byte_def)

lemma is_symbol_symbols [simp]:
  "is_symbol (CHR ''='')" "is_symbol (CHR '','')" "is_symbol (CHR ''('')" "is_symbol (CHR ''*'')"
  by (simp_all add: is_symbol_def)

lemma toupper_upper [simp]: "isupper c \<Longrightarrow> toupper c = c"
  by (simp add: toupper_def islower_def isupper_def)

lemma token_types [simp]:
  "ttype (word_token ''BETWEEN'') = TOKEN_BETWEEN" "ttype (word_token ''AND'') = TOKEN_AND"
  "ttype (word_token ''WHERE'') = TOKEN_WHERE" "ttype (word_token ''FROM'') = TOKEN_FROM"
  "ttype (word_token ''SET'') = TOKEN_SET" "ttype (word_token ''INTO'') = TOKEN_INTO"
  "ttype (word_token ''VALUES'') = TOKEN_VALUES" "ttype (word_token ''SELECT'') = TOKEN_SELECT"
  "ttype (word_token ''INSERT'') = TOKEN_INSERT" "ttype (word_token ''UPDATE'') = TOKEN_UPDATE"
  "ttype (word_token ''DELETE'') = TOKEN_DELETE" "ttype eof_token = TOKEN_EOF"
  "ttype (symbol_token (CHR ''='')) = TOKEN_EQ" "ttype (symbol_token (CHR '','')) = TOKEN_COMMA"
  "ttype (symbol_token (CHR ''('')) = TOKEN_LPAREN" "ttype (symbol_token (CHR ''*'')) = TOKEN_STAR"
  "ttype (string_token v) = TOKEN_STRING"
  by (simp_all add: word_token_def keyword_type_def symbol_token_def symbol_type_def
      string_token_def eof_token_def isupper_def byte_def)

lemma ident_token [simp]: "ident n w \<Longrightarrow> ttype (word_token w) = TOKEN_IDENTIFIER"
  "ttext (word_token w) = w" "ident n w \<Longrightarrow> strbuf n w = w" "ident n w \<Longrightarrow> length w < n"
  by (simp_all add: word_token_def ident_def strbuf_id)

lemma literal_length [simp]: "literal v \<Longrightarrow> length v < 256"
  by (simp add: literal_def)

lemma printable_cond: "cond_ok c \<Longrightarrow> list_all printable (cond_tokens c)"
  by (auto simp: cond_ok_def cond_tokens_def dest: ident_is_ident split: where_kind.splits)

lemma printable_and: "list_all cond_ok cs \<Longrightarrow> list_all printable (and_tokens cs)"
  by (induction cs) (auto simp: and_tokens_def printable_cond)

lemma printable_where: "list_all cond_ok cs \<Longrightarrow> list_all printable (where_tokens cs)"
  by (cases cs) (auto simp: printable_cond printable_and)

lemma printable_cols: "list_all (ident n) cs \<Longrightarrow> list_all printable (col_tokens cs)"
  by (induction cs rule: col_tokens.induct) (auto dest: ident_is_ident)

subsection \<open>Parsing what was printed\<close>

lemma parse_one_condition_at:
  assumes "at_tokens p (cond_tokens c @ ts) []" "cond_ok c"
    and "length (where_conditions st) < MAX_WHERE_CONDITIONS"
  shows "\<exists>p'. parse_one_condition p st =
    Some (p', st\<lparr>where_conditions := where_conditions st @ [c]\<rparr>) \<and> at_tokens p' ts []"
proof -
  have col: "ident 50 (cond_col c)" and v: "length (cond_val c) < 256"
    using assms(2) by (auto simp: cond_ok_def)
  note cur = at_tokens_current_hd [OF assms(1)]
  show ?thesis
  proof (cases "cond_type c")
    case WHERE_BETWEEN
    have e: "length (cond_end_val c) < 256"
      using assms(2) WHERE_BETWEEN by (simp add: cond_ok_def)
    have "at_tokens (advance_parser p) (word_token ''BETWEEN'' # string_token (cond_val c) #
        word_token ''AND'' # string_token (cond_end_val c) # ts) []"
      using assms(1) WHERE_BETWEEN by (auto simp: cond_tokens_def intro!: at_tokens_advance)
    from at_tokens_current [OF this] at_tokens_advance [OF this] at_tokens_literal [OF _ v]
    obtain p2 where 2: "ttype (current_token (advance_parser p)) = TOKEN_BETWEEN"
      "parse_literal (advance_parser (advance_parser p)) 256 = Some (p2, cond_val c)"
      "at_tokens p2 (word_token ''AND'' # string_token (cond_end_val c) # ts) []" by fastforce
    obtain p3 where 3: "expect_token p2 TOKEN_AND = Some p3"
      "at_tokens p3 (string_token (cond_end_val c) # ts) []"
      using at_tokens_expect [OF 2(3)] by fastforce
    obtain p4 where "parse_literal p3 256 = Some (p4, cond_end_val c)" "at_tokens p4 ts []"
      using at_tokens_literal [OF 3(2) e] by blast
    then show ?thesis
      using cur col assms(3) 2(1,2) 3(1) WHERE_BETWEEN
      by (simp add: parse_one_condition_def cond_tokens_def Let_def)
  next
    case WHERE_EQ
    have "at_tokens (advance_parser p) (symbol_token (CHR ''='') # string_token (cond_val c) # ts) []"
      using assms(1) WHERE_EQ by (auto simp: cond_tokens_def intro!: at_tokens_advance)
    from at_tokens_current [OF this] at_tokens_expect [OF this, of TOKEN_EQ]
    obtain p2 where 2: "ttype (current_token (advance_parser p)) = TOKEN_EQ"
      "expect_token (advance_parser p) TOKEN_EQ = Some p2"
      "at_tokens p2 (string_token (cond_val c) # ts) []" by auto
    obtain p3 where "parse_literal p2 256 = Some (p3, cond_val c)" "at_tokens p3 ts []"
      using at_tokens_literal [OF 2(3) v] by blast
    then show ?thesis
      using cur col assms 2(1,2) WHERE_EQ
      by (simp add: parse_one_condition_def cond_tokens_def cond_ok_def Let_def)
  qed (use assms(2) in \<open>simp add: cond_ok_def\<close>)
qed

lemma parse_and_conditions_at:
  "at_tokens p (and_tokens cs) [] \<Longrightarrow> list_all cond_ok cs \<Longrightarrow>
   length (where_conditions st) + length cs \<le> MAX_WHERE_CONDITIONS \<Longrightarrow>
   \<exists>p'. parse_and_conditions p st =
     Some (p', st\<lparr>where_conditions := where_conditions st @ cs\<rparr>) \<and> at_tokens p' [] []"
proof (induction cs arbitrary: p st)
  case Nil
  then show ?case
    using at_tokens_current_hd [OF Nil(1)]
    by (simp add: and_tokens_def parse_and_conditions.simps [of p])
next
  case (Cons c cs)
  have at: "at_tokens p (word_token ''AND'' # cond_tokens c @ and_tokens cs) []"
    using Cons.prems(1) by (simp add: and_tokens_def)
  obtain p1 where p1: "parse_one_condition (advance_parser p) st =
      Some (p1, st\<lparr>where_conditions := where_conditions st @ [c]\<rparr>)" "at_tokens p1 (and_tokens cs) []"
    using parse_one_condition_at [OF at_tokens_advance [OF at], of st] Cons.prems by auto
  show ?case
    using Cons.IH [OF p1(2), of "st\<lparr>where_conditions := where_conditions st @ [c]\<rparr>"] Cons.prems
      at_tokens_current [OF at] p1(1)
    by (simp add: parse_and_conditions.simps [of p])
qed

lemma parse_where_clause_at:
  assumes "at_tokens p (where_tokens cs) []" "list_all cond_ok cs"
    and "length cs \<le> MAX_WHERE_CONDITIONS" "where_conditions st = []"
  shows "\<exists>p'. parse_where_clause p st =
    Some (p', if cs = [] then st else copy_first_condition (st\<lparr>where_conditions := cs\<rparr>)) \<and>
    at_tokens p' [] []"
proof (cases cs)
  case Nil
  then show ?thesis
    using assms(1) at_tokens_current_hd [OF assms(1)] by (simp add: parse_where_clause_def)
next
  case (Cons c ds)
  have at: "at_tokens p (word_token ''WHERE'' # cond_tokens c @ and_tokens ds) []"
    using assms(1) Cons by simp
  obtain p1 where p1: "parse_one_condition (advance_parser p) st =
      Some (p1, st\<lparr>where_conditions := [c]\<rparr>)" "at_tokens p1 (and_tokens ds) []"
    using parse_one_condition_at [OF at_tokens_advance [OF at], of st] assms Cons by auto
  show ?thesis
    using parse_and_conditions_at [OF p1(2), of "st\<lparr>where_conditions := [c]\<rparr>"] p1(1) assms Cons
      at_tokens_current [OF at]
    by (auto simp: parse_where_clause_def)
qed

lemma parse_select_cols_at:
  "at_tokens p (col_tokens cs @ t # ts) [] \<Longrightarrow> ttype t \<noteq> TOKEN_COMMA \<Longrightarrow> list_all (ident 50) cs \<Longrightarrow>
   cs \<noteq> [] \<Longrightarrow> length cols + length cs \<le> MAX_COLS \<Longrightarrow>
   \<exists>p'. parse_select_cols p cols = Some (p', cols @ cs) \<and> at_tokens p' (t # ts) []"
proof (induction cs arbitrary: p cols rule: col_tokens.induct)
  case (2 c)
  then have "at_tokens (advance_parser p) (t # ts) []" by (auto intro: at_tokens_advance)
  then show ?case
    using "2.prems" at_tokens_current [of p] at_tokens_current [of "advance_parser p"]
    by (simp add: parse_select_cols.simps [of p])
next
  case (3 c d ds)
  let ?p2 = "advance_parser (advance_parser p)"
  have at1: "at_tokens (advance_parser p) (symbol_token (CHR '','') # col_tokens (d # ds) @ t # ts) []"
    using "3.prems"(1) by (auto intro: at_tokens_advance)
  then have at2: "at_tokens ?p2 (col_tokens (d # ds) @ t # ts) []" by (auto intro: at_tokens_advance)
  have ty: "ttype (current_token ?p2) = TOKEN_IDENTIFIER"
    using at_tokens_current_hd [OF at2] "3.prems"(3) by (cases ds) auto
  obtain p' where "parse_select_cols ?p2 (cols @ [c]) = Some (p', (cols @ [c]) @ d # ds)"
    "at_tokens p' (t # ts) []"
    using "3.IH" [OF at2, of "cols @ [c]"] "3.prems" by auto
  then show ?case
    using "3.prems" at_tokens_current [of p] at_tokens_current [OF at1] ty
    by (simp add: parse_select_cols.simps [of p])
qed simp

lemma parse_table_name_at:
  assumes "at_tokens p (word_token w # ts) rest" "ident 256 w" "ts \<noteq> [] \<or> rest = []"
  shows "\<exists>p'. parse_table_name p st = Some (p', st\<lparr>table_name := w\<rparr>) \<and> at_tokens p' ts rest"
  using at_tokens_advance [OF assms(1,3)] at_tokens_current [OF assms(1)] assms(2)
  by (simp add: parse_table_name_def)

lemma init_parser_at:
  assumes "is_ident w" "list_all printable ts" "ts \<noteq> []" "rest = [] \<or> is_sym (last ts)"
  shows "at_tokens (init_parser (w @ spaced ts @ rest)) (word_token w # ts) rest"
proof -
  obtain c w' where w: "w = c # w'" "isalpha c \<or> c = CHR ''_''"
    using assms(1) by (cases w) (auto simp: is_ident_def)
  then have "byte c \<noteq> 239" by (auto simp: isalpha_def isupper_def islower_def byte_def)
  then have init: "init_lexer (w @ spaced ts @ rest) = \<lparr>sql = w @ spaced ts @ rest, pos = 0\<rparr>"
    by (simp add: init_lexer_def w(1))
  have bd: "\<not> is_word_char (hd (spaced ts @ rest))" using assms(3) by (cases ts) auto
  have lt: "get_next_token (init_lexer (w @ spaced ts @ rest)) =
      (word_token w, \<lparr>sql = w @ spaced ts @ rest, pos = length w\<rparr>)"
    using lex_word [of "init_lexer (w @ spaced ts @ rest)" w "spaced ts @ rest"] assms(1) bd init
    by (simp add: word_token_def)
  show ?thesis
    using lt assms(2-4)
    by (auto simp: init_parser_def advance_parser_def at_tokens_def stream_def)
qed

definition clear_where :: "statement \<Rightarrow> statement" where
  "clear_where st = st\<lparr>where_conditions := [], where_type := WHERE_NONE, where_col := [],
     where_val := [], where_end_val := []\<rparr>"

lemma where_result:
  assumes "first_condition_copied st" "list_all cond_ok (where_conditions st)"
  shows "(if where_conditions st = [] then clear_where st
          else copy_first_condition ((clear_where st)\<lparr>where_conditions := where_conditions st\<rparr>)) = st"
proof (cases "where_conditions st")
  case Nil
  with assms(1) show ?thesis
    by (cases st) (auto simp: first_condition_copied_def clear_where_def)
next
  case (Cons c cs)
  then have "length (cond_col c) < 50" "length (cond_val c) < 256" "length (cond_end_val c) < 256"
    using assms(2) by (auto simp: cond_ok_def split: where_kind.splits)
  with Cons assms(1) show ?thesis
    by (cases st) (auto simp: first_condition_copied_def clear_where_def copy_first_condition_def strbuf_id)
qed

lemma parse_where_clause_at_stmt:
  assumes "at_tokens p (where_tokens (where_conditions st)) []" "statement_ok st"
  shows "\<exists>p'. parse_where_clause p (clear_where st) = Some (p', st) \<and> at_tokens p' [] []"
proof -
  have "where_conditions (clear_where st) = []" by (simp add: clear_where_def)
  with parse_where_clause_at [OF assms(1), of "clear_where st"] assms(2) where_result [of st]
  show ?thesis unfolding statement_ok_def by auto
qed

lemma finish_statement_at:
  "at_tokens p [] [] \<Longrightarrow> finish_statement (Some (p, st)) = Some st"
  by (simp add: finish_statement_def at_tokens_def)

lemma statement_okD:
  assumes "statement_ok st"
  shows "ident 256 (table_name st)" "list_all printable (where_tokens (where_conditions st))"
    "printable (word_token (table_name st))"
  using assms printable_where ident_is_ident unfolding statement_ok_def by auto

lemma parse_select_show:
  assumes ok: "statement_ok st" and ty: "stmt_type st = STMT_SELECT"
  shows "parse_statement (show_statement st) = Some st"
proof -
  define from_ts where "from_ts = word_token ''FROM'' # word_token (table_name st) #
    where_tokens (where_conditions st)"
  define col_ts where "col_ts = (if select_all st then [symbol_token (CHR ''*'')]
    else col_tokens (select_cols st))"
  let ?p0 = "init_parser (show_statement st)"
  let ?e = "empty_statement STMT_SELECT"
  have pc: "list_all printable col_ts" using ok ty printable_cols [of 50 "select_cols st"]
    by (auto simp: col_ts_def statement_ok_def)
  have at: "at_tokens ?p0 (word_token ''SELECT'' # col_ts @ from_ts) []"
    using init_parser_at [of "''SELECT''" "col_ts @ from_ts" "[]"] statement_okD [OF ok] ty pc
    by (simp add: show_statement_def col_ts_def from_ts_def)
  have at1: "at_tokens (advance_parser ?p0) (col_ts @ from_ts) []" using at_tokens_advance [OF at] by simp
  obtain p1 s1 where 1: "(if ttype (current_token (advance_parser ?p0)) = TOKEN_STAR
      then Some (advance_parser (advance_parser ?p0), ?e\<lparr>select_all := True\<rparr>)
      else if ttype (current_token (advance_parser ?p0)) = TOKEN_IDENTIFIER
      then map_option (\<lambda>(p', cs). (p', ?e\<lparr>select_cols := cs\<rparr>)) (parse_select_cols (advance_parser ?p0) [])
      else None) = Some (p1, s1)" "at_tokens p1 from_ts []"
      "s1\<lparr>table_name := table_name st\<rparr> = clear_where st"
  proof (cases "select_all st")
    case True
    have "?e\<lparr>select_all := True, table_name := table_name st\<rparr> = clear_where st"
      using True ok ty by (cases st) (simp add: statement_ok_def clear_where_def empty_statement_def)
    then show ?thesis
      using that at1 at_tokens_current_hd [OF at1] at_tokens_advance [of "advance_parser ?p0" _ from_ts] True
      by (simp add: col_ts_def)
  next
    case False
    then have cols: "select_cols st \<noteq> []" "list_all (ident 50) (select_cols st)"
      "length (select_cols st) \<le> MAX_COLS" using ok ty by (auto simp: statement_ok_def)
    have "ttype (hd (col_tokens (select_cols st) @ from_ts)) = TOKEN_IDENTIFIER"
      using cols(1,2) by (cases "select_cols st" rule: col_tokens.cases) auto
    then have id: "ttype (current_token (advance_parser ?p0)) = TOKEN_IDENTIFIER"
      using at_tokens_current_hd [OF at1] False by (simp add: col_ts_def from_ts_def)
    have "?e\<lparr>select_cols := select_cols st, table_name := table_name st\<rparr> = clear_where st"
      using False ok ty by (cases st) (simp add: statement_ok_def clear_where_def empty_statement_def)
    moreover obtain p1 where "parse_select_cols (advance_parser ?p0) [] = Some (p1, select_cols st)"
      "at_tokens p1 from_ts []"
      using parse_select_cols_at [of "advance_parser ?p0" "select_cols st" "word_token ''FROM''" _ "[]"]
        at1 cols False by (auto simp: col_ts_def from_ts_def)
    ultimately show ?thesis using that id by simp
  qed
  obtain p2 where 2: "expect_token p1 TOKEN_FROM = Some p2"
    "at_tokens p2 (word_token (table_name st) # where_tokens (where_conditions st)) []"
    using at_tokens_expect [OF 1(2) [unfolded from_ts_def], of TOKEN_FROM] by auto
  obtain p3 where 3: "parse_table_name p2 s1 = Some (p3, clear_where st)"
    "at_tokens p3 (where_tokens (where_conditions st)) []"
    using parse_table_name_at [OF 2(2), of s1] statement_okD [OF ok] 1(3) by auto
  obtain p4 where 4: "parse_where_clause p3 (clear_where st) = Some (p4, st)" "at_tokens p4 [] []"
    using parse_where_clause_at_stmt [OF 3(2) ok] by blast
  have "parse_select ?p0 = Some (p4, st)"
    unfolding parse_select_def Let_def 1(1) using 2(1) 3(1) 4(1) by simp
  then show ?thesis
    using at_tokens_current [OF at] finish_statement_at [OF 4(2)] by (simp add: parse_statement_def Let_def)
qed

lemma parse_delete_show:
  assumes ok: "statement_ok st" and ty: "stmt_type st = STMT_DELETE"
  shows "parse_statement (show_statement st) = Some st"
proof -
  let ?p0 = "init_parser (show_statement st)"
  let ?ts = "word_token (table_name st) # where_tokens (where_conditions st)"
  have at: "at_tokens ?p0 (word_token ''DELETE'' # word_token ''FROM'' # ?ts) []"
    using init_parser_at [of "''DELETE''" "word_token ''FROM'' # ?ts" "[]"] statement_okD [OF ok] ty
    by (simp add: show_statement_def)
  obtain p1 where 1: "expect_token (advance_parser ?p0) TOKEN_FROM = Some p1" "at_tokens p1 ?ts []"
    using at_tokens_expect [OF at_tokens_advance [OF at], of TOKEN_FROM] by auto
  have e: "(empty_statement STMT_DELETE)\<lparr>table_name := table_name st\<rparr> = clear_where st"
    using ok ty by (cases st) (simp add: statement_ok_def clear_where_def empty_statement_def)
  obtain p2 where 2: "parse_table_name p1 (empty_statement STMT_DELETE) = Some (p2, clear_where st)"
    "at_tokens p2 (where_tokens (where_conditions st)) []"
    using parse_table_name_at [OF 1(2), of "empty_statement STMT_DELETE"] statement_okD [OF ok] e by auto
  obtain p3 where 3: "parse_where_clause p2 (clear_where st) = Some (p3, st)" "at_tokens p3 [] []"
    using parse_where_clause_at_stmt [OF 2(2) ok] by blast
  show ?thesis
    using at_tokens_current [OF at] finish_statement_at [OF 3(2)] 1(1) 2(1) 3(1)
    by (simp add: parse_statement_def parse_delete_def Let_def)
qed

lemma parse_update_show:
  assumes ok: "statement_ok st" and ty: "stmt_type st = STMT_UPDATE"
  shows "parse_statement (show_statement st) = Some st"
proof -
  let ?p0 = "init_parser (show_statement st)"
  let ?lit = "string_token (set_val st) # where_tokens (where_conditions st)"
  let ?set = "word_token ''SET'' # word_token (set_col st) # symbol_token (CHR ''='') # ?lit"
  have col: "ident 50 (set_col st)" "literal (set_val st)" using ok ty by (auto simp: statement_ok_def)
  have at: "at_tokens ?p0 (word_token ''UPDATE'' # word_token (table_name st) # ?set) []"
    using init_parser_at [of "''UPDATE''" "word_token (table_name st) # ?set" "[]"] statement_okD [OF ok] ty
      col ident_is_ident [OF col(1)]
    by (simp add: show_statement_def)
  obtain p1 where 1: "parse_table_name (advance_parser ?p0) (empty_statement STMT_UPDATE) =
      Some (p1, (empty_statement STMT_UPDATE)\<lparr>table_name := table_name st\<rparr>)" "at_tokens p1 ?set []"
    using parse_table_name_at [OF at_tokens_advance [OF at]] statement_okD [OF ok] by blast
  obtain p2 where 2: "expect_token p1 TOKEN_SET = Some p2"
    "at_tokens p2 (word_token (set_col st) # symbol_token (CHR ''='') # ?lit) []"
    using at_tokens_expect [OF 1(2), of TOKEN_SET] by auto
  obtain p3 where 3: "expect_token (advance_parser p2) TOKEN_EQ = Some p3" "at_tokens p3 ?lit []"
    using at_tokens_expect [OF at_tokens_advance [OF 2(2)], of TOKEN_EQ] by auto
  obtain p4 where 4: "parse_literal p3 256 = Some (p4, set_val st)"
    "at_tokens p4 (where_tokens (where_conditions st)) []"
    using at_tokens_literal [OF 3(2), of 256] col(2) by auto
  obtain p5 where 5: "parse_where_clause p4 (clear_where st) = Some (p5, st)" "at_tokens p5 [] []"
    using parse_where_clause_at_stmt [OF 4(2) ok] by blast
  have e: "(empty_statement STMT_UPDATE)\<lparr>table_name := table_name st, set_col := set_col st,
      set_val := set_val st\<rparr> = clear_where st"
    using ok ty by (cases st) (simp add: statement_ok_def clear_where_def empty_statement_def)
  have "parse_update ?p0 = Some (p5, st)"
    using at_tokens_current [OF 2(2)] col 1(1) 2(1) 3(1) 4(1) 5(1) e
    by (simp add: parse_update_def Let_def)
  then show ?thesis
    using at_tokens_current [OF at] finish_statement_at [OF 5(2)] by (simp add: parse_statement_def Let_def)
qed

lemma find_values_close_paren_row:
  "row_text q row \<Longrightarrow> find_values_close_paren q (row @ CHR '')'' # r) = Some (length row)"
  by (induction q row rule: row_text.induct) (auto simp: QUOTE_def split: if_splits)

lemma only_trailing_space_iff: "only_trailing_space s \<longleftrightarrow> (\<forall>c\<in>set s. isspace c)"
  by (induction s) auto

lemma parse_insert_show:
  assumes ok: "statement_ok st" and ty: "stmt_type st = STMT_INSERT"
  shows "parse_statement (show_statement st) = Some st"
proof -
  let ?p0 = "init_parser (show_statement st)"
  let ?rest = "row_data st @ '')''"
  let ?vals = "[word_token ''VALUES'', symbol_token (CHR ''('')]"
  have row: "row_text False (row_data st)" "length (row_data st) < 1024"
    using ok ty by (auto simp: statement_ok_def)
  have sym: "is_sym (symbol_token (CHR ''(''))" by (simp add: is_sym_def symbol_token_def)
  have at: "at_tokens ?p0 (word_token ''INSERT'' # word_token ''INTO'' # word_token (table_name st) # ?vals) ?rest"
    using init_parser_at [of "''INSERT''" "word_token ''INTO'' # word_token (table_name st) # ?vals" ?rest]
      statement_okD [OF ok] ty sym
    by (simp add: show_statement_def)
  obtain p1 where 1: "expect_token (advance_parser ?p0) TOKEN_INTO = Some p1"
    "at_tokens p1 (word_token (table_name st) # ?vals) ?rest"
    using at_tokens_expect [OF at_tokens_advance [OF at], of TOKEN_INTO] by auto
  have e: "(empty_statement STMT_INSERT)\<lparr>table_name := table_name st, row_data := row_data st\<rparr> = st"
    using ok ty by (cases st) (simp add: statement_ok_def first_condition_copied_def empty_statement_def)
  obtain p2 where 2: "parse_table_name p1 (empty_statement STMT_INSERT) =
      Some (p2, (empty_statement STMT_INSERT)\<lparr>table_name := table_name st\<rparr>)" "at_tokens p2 ?vals ?rest"
    using parse_table_name_at [OF 1(2), of "empty_statement STMT_INSERT"] statement_okD [OF ok] by auto
  obtain p3 where 3: "expect_token p2 TOKEN_VALUES = Some p3"
    "at_tokens p3 [symbol_token (CHR ''('')] ?rest"
    using at_tokens_expect [OF 2(2), of TOKEN_VALUES] by auto
  let ?l = "lexer_of p3"
  have body: "drop (pos ?l) (sql ?l) = ?rest" "pos ?l \<le> length (sql ?l)"
    using 3(2) by (auto simp: at_tokens_def stream_def)
  have len: "length (sql ?l) = pos ?l + length (row_data st) + 1"
    using arg_cong [OF body(1), of length] body(2) by simp
  have eof: "get_next_token (?l\<lparr>pos := Suc (pos ?l + length (row_data st))\<rparr>) =
      (eof_token, ?l\<lparr>pos := length (sql ?l)\<rparr>)"
    using len by (subst lex_eof) (auto simp: eof_token_def)
  show ?thesis
    using at_tokens_current [OF at] at_tokens_current [OF 3(2)] 1(1) 2(1) 3(1) eof body(1) e
      find_values_close_paren_row [OF row(1), of "[]"] row(2)
    by (simp add: parse_statement_def parse_insert_def advance_parser_def strbuf_id Let_def)
qed

text \<open>All four kinds of statement.\<close>

lemma statement_ok_recognized: "statement_ok st \<Longrightarrow> stmt_type st \<noteq> STMT_UNRECOGNIZED"
  by (auto simp: statement_ok_def)

lemma parse_show_statement: "statement_ok st \<Longrightarrow> parse_statement (show_statement st) = Some st"
  by (cases "stmt_type st")
    (auto intro: parse_select_show parse_insert_show parse_update_show parse_delete_show dest: statement_ok_recognized)

subsection \<open>Properties of the parser\<close>

text \<open>
  Printing a list of tokens with a blank before each and lexing the text gives the list back:
  no token is merged with, split from or shadowed by its neighbours.
\<close>

theorem lexer_tokens_print:
  assumes "list_all printable ts"
  shows "tokens_from (init_lexer (spaced ts)) = ts"
proof (rule tokens_from_stream)
  have "pos (init_lexer (spaced ts)) = 0" by (cases ts) (simp_all add: init_lexer_def byte_def)
  then show "stream (init_lexer (spaced ts)) ts []" using assms by (simp add: stream_def init_lexer_def)
qed

theorem lexer_tokens_print_witness:
  "tokens_from (init_lexer '' SET age = 5x'') \<noteq> [] \<and>
   tokens_from (init_lexer (spaced [word_token ''SET'', word_token ''age'', symbol_token (CHR ''=''), string_token ''a,b'']))
     = [word_token ''SET'', word_token ''age'', symbol_token (CHR ''=''), string_token ''a,b'']"
proof
  show "tokens_from (init_lexer '' SET age = 5x'') \<noteq> []"
    by (subst tokens_from.simps) code_simp
  show "tokens_from (init_lexer (spaced [word_token ''SET'', word_token ''age'', symbol_token (CHR ''=''), string_token ''a,b'']))
     = [word_token ''SET'', word_token ''age'', symbol_token (CHR ''=''), string_token ''a,b'']"
    by (rule lexer_tokens_print) code_simp
qed

text \<open>
  C21. Whatever text is parsed, every name and value of the statement fits its buffer, there are at
  most \<open>MAX_COLS\<close> selected columns and \<open>MAX_WHERE_CONDITIONS\<close> conditions, and the fields for a single
  condition repeat the first one.
\<close>

theorem parse_statement_fits:
  assumes "parse_statement s = Some st"
  shows "stmt_fits st"
  by (rule parse_statement_stmt_fits [OF assms])

theorem parse_statement_fits_witness:
  "\<exists>st. parse_statement ''DELETE FROM t WHERE a = 1'' = Some st \<and> stmt_fits st \<and> table_name st = ''t''"
proof -
  have "parse_statement ''DELETE FROM t WHERE a = 1'' \<noteq> None \<and>
      table_name (the (parse_statement ''DELETE FROM t WHERE a = 1'')) = ''t''" by code_simp
  then obtain st where st: "parse_statement ''DELETE FROM t WHERE a = 1'' = Some st" "table_name st = ''t''" by auto
  from st parse_statement_fits [OF st(1)] show ?thesis by blast
qed

text \<open>
  C10. Parsing inverts printing: the text of a SELECT, INSERT, UPDATE or DELETE statement, with its
  columns, values and conditions, parses to that statement.
\<close>

theorem parse_statement_show:
  assumes "statement_ok st"
  shows "parse_statement (show_statement st) = Some st"
  by (rule parse_show_statement [OF assms])

definition demo_delete :: statement where
  "demo_delete = the (parse_statement ''DELETE FROM t WHERE a = 1 AND b BETWEEN 2 AND 3'')"

theorem parse_statement_show_witness:
  "length (where_conditions demo_delete) = 2 \<and> parse_statement (show_statement demo_delete) = Some demo_delete"
proof
  show "length (where_conditions demo_delete) = 2" by code_simp
  have "statement_ok demo_delete" by code_simp
  then show "parse_statement (show_statement demo_delete) = Some demo_delete" by (rule parse_statement_show)
qed

end
