(* ===== verification/Bptree.thy ===== *)
theory Bptree
  imports Prelude
begin

text \<open>
  The B+ trees of \<open>src/legacy/bptree.c\<close>: the tree over \<open>long\<close> keys (primary keys) and the
  tree over string keys (unique keys). The file holds the same code twice, once per key type;
  the model has one set of functions over a comparison \<open>cmp\<close> and, for each C function, a
  definition at the type and with the guards of that function.

  \<^item> A node is a \<open>Leaf\<close> (its address, the parallel arrays \<open>keys\<close>/\<open>values\<close> as a list of pairs,
    the \<open>next\<close> pointer) or an \<open>Inner\<close> node (\<open>keys\<close>, \<open>children\<close>). Leaves carry addresses because the
    range scans follow \<open>next\<close>, which the model resolves in the leaves of the tree.
  \<^item> A read of a child that is not there, or of a dangling \<open>next\<close>, is the value \<open>Wild\<close> or \<open>None\<close>.
  \<^item> Allocation succeeds; \<open>next_addr\<close> is an address that is not in use.

  The laws of the comparison are the locale \<open>key_compare\<close>, interpreted for both key types; the
  correctness of the tree is proved once, in the locale.
\<close>

subsection \<open>Nodes and trees\<close>

datatype 'k bpnode =
    Leaf nat "('k \<times> int) list" "nat option"
  | Inner "'k list" "'k bpnode list"

type_synonym 'k leaf = "nat \<times> ('k \<times> int) list \<times> nat option"

record 'k bptree =
  root :: "'k bpnode"
  order :: int
  next_addr :: nat

type_synonym BPlusTree = "int bptree"
type_synonym BPlusStringTree = "string bptree"

datatype lookup_result = Wild | Absent | Found int

datatype 'k insert_result =
    InsWild
  | InsDup
  | InsDone "'k bpnode"
  | InsSplit "'k bpnode" 'k "'k bpnode"

subsection \<open>Order of a tree\<close>

definition BPTREE_DEFAULT_ORDER :: int where "BPTREE_DEFAULT_ORDER = 32"
definition BPTREE_MAX_ORDER :: nat where "BPTREE_MAX_ORDER = 64"

definition normalize_order :: "int \<Rightarrow> int" where
  "normalize_order ord =
     (if ord \<le> 8 then 8 else if ord \<le> 16 then 16 else if ord \<le> 32 then 32 else 64)"

definition tree_order :: "'k bptree \<Rightarrow> nat" where
  "tree_order t = nat (normalize_order (order t))"

definition tree_max_keys :: "'k bptree \<Rightarrow> nat" where
  "tree_max_keys t = tree_order t - 1"

definition tree_min_leaf_keys :: "'k bptree \<Rightarrow> nat" where
  "tree_min_leaf_keys t = tree_max_keys t div 2"

subsection \<open>Binary search in a node\<close>

function bound_loop :: "('k \<Rightarrow> bool) \<Rightarrow> 'k list \<Rightarrow> nat \<Rightarrow> nat \<Rightarrow> nat" where
  "bound_loop p keys lo hi =
     (if lo < hi
      then let mid = lo + (hi - lo) div 2
           in if p (keys ! mid) then bound_loop p keys (mid + 1) hi
              else bound_loop p keys lo mid
      else lo)"
  by pat_completeness auto
termination
  by (relation "measure (\<lambda>(p, keys, lo, hi). hi - lo)") auto

declare bound_loop.simps [simp del]

definition lower_bound :: "('k \<Rightarrow> 'k \<Rightarrow> int) \<Rightarrow> 'k list \<Rightarrow> 'k \<Rightarrow> nat" where
  "lower_bound cmp keys key = bound_loop (\<lambda>k. cmp k key < 0) keys 0 (length keys)"

definition upper_bound :: "('k \<Rightarrow> 'k \<Rightarrow> int) \<Rightarrow> 'k list \<Rightarrow> 'k \<Rightarrow> nat" where
  "upper_bound cmp keys key = bound_loop (\<lambda>k. cmp k key \<le> 0) keys 0 (length keys)"

text \<open>The comparison of two \<open>long\<close>s, as the sign that \<open>strcmp\<close> gives for strings.\<close>

definition long_cmp :: "int \<Rightarrow> int \<Rightarrow> int" where
  "long_cmp a b = (if a < b then - 1 else if a = b then 0 else 1)"

definition lower_bound_long :: "int list \<Rightarrow> int \<Rightarrow> nat" where
  "lower_bound_long keys key = bound_loop (\<lambda>k. k < key) keys 0 (length keys)"

definition upper_bound_long :: "int list \<Rightarrow> int \<Rightarrow> nat" where
  "upper_bound_long keys key = bound_loop (\<lambda>k. k \<le> key) keys 0 (length keys)"

definition lower_bound_string :: "string list \<Rightarrow> string \<Rightarrow> nat" where
  "lower_bound_string keys key = bound_loop (\<lambda>k. strcmp k key < 0) keys 0 (length keys)"

definition upper_bound_string :: "string list \<Rightarrow> string \<Rightarrow> nat" where
  "upper_bound_string keys key = bound_loop (\<lambda>k. strcmp k key \<le> 0) keys 0 (length keys)"

subsection \<open>Descending to a leaf, point search\<close>

lemma size_child_less [termination_simp]:
  "i < length cs \<Longrightarrow> size (cs ! i) < Suc (n + size_list size cs)"
  using size_list_estimation' [of "cs ! i" cs "size (cs ! i)" size] by force

fun find_leaf :: "('k \<Rightarrow> 'k \<Rightarrow> int) \<Rightarrow> 'k bpnode \<Rightarrow> 'k \<Rightarrow> 'k leaf option" where
  "find_leaf cmp (Leaf a es nx) key = Some (a, es, nx)"
| "find_leaf cmp (Inner ks cs) key =
     (if upper_bound cmp ks key < length cs
      then find_leaf cmp (cs ! upper_bound cmp ks key) key else None)"

definition leaf_search :: "('k \<Rightarrow> 'k \<Rightarrow> int) \<Rightarrow> ('k \<times> int) list \<Rightarrow> 'k \<Rightarrow> lookup_result" where
  "leaf_search cmp es key =
     (let i = lower_bound cmp (map fst es) key
      in if i < length es \<and> cmp (fst (es ! i)) key = 0 then Found (snd (es ! i)) else Absent)"

definition tree_search :: "('k \<Rightarrow> 'k \<Rightarrow> int) \<Rightarrow> 'k bptree \<Rightarrow> 'k \<Rightarrow> lookup_result" where
  "tree_search cmp t key =
     (case find_leaf cmp (root t) key of None \<Rightarrow> Wild
      | Some (a, es, nx) \<Rightarrow> leaf_search cmp es key)"

definition bptree_search :: "BPlusTree \<Rightarrow> int \<Rightarrow> lookup_result" where
  "bptree_search t key = tree_search long_cmp t key"

definition bptree_string_search :: "BPlusStringTree \<Rightarrow> string \<Rightarrow> lookup_result" where
  "bptree_string_search t key = tree_search strcmp t key"

subsection \<open>Range scans\<close>

text \<open>
  A visitor takes the key, the row index and its context, and returns whether to go on. The
  scan of one leaf either runs to its end (\<open>Inl\<close>, the context) or returns from the function
  (\<open>Inr\<close>, the returned flag and the context).
\<close>

type_synonym ('k, 's) visitor = "'k \<Rightarrow> int \<Rightarrow> 's \<Rightarrow> bool \<times> 's"

fun scan_leaf :: "('k \<Rightarrow> 'k \<Rightarrow> int) \<Rightarrow> 'k \<Rightarrow> 'k \<Rightarrow> ('k, 's) visitor \<Rightarrow> ('k \<times> int) list \<Rightarrow> 's
    \<Rightarrow> 's + bool \<times> 's" where
  "scan_leaf cmp start_key end_key vis [] s = Inl s"
| "scan_leaf cmp start_key end_key vis ((k, v) # es) s =
     (if cmp k start_key < 0 then scan_leaf cmp start_key end_key vis es s
      else if cmp k end_key > 0 then Inr (True, s)
      else case vis k v s of
        (False, s') \<Rightarrow> Inr (False, s')
      | (True, s') \<Rightarrow> scan_leaf cmp start_key end_key vis es s')"

fun leaves :: "'k bpnode \<Rightarrow> 'k leaf list" where
  "leaves (Leaf a es nx) = [(a, es, nx)]"
| "leaves (Inner ks cs) = concat (map leaves cs)"

definition deref_leaf :: "'k bpnode \<Rightarrow> nat \<Rightarrow> 'k leaf option" where
  "deref_leaf n a = find (\<lambda>l. fst l = a) (leaves n)"

text \<open>The walk along \<open>next\<close>; the fuel is the number of leaves, which a walk cannot exceed.\<close>

fun walk_leaves :: "('k bpnode) \<Rightarrow> (('k \<times> int) list \<Rightarrow> 's \<Rightarrow> 's + bool \<times> 's) \<Rightarrow> nat
    \<Rightarrow> 'k leaf \<Rightarrow> 's \<Rightarrow> (bool \<times> 's) option" where
  "walk_leaves n scan 0 l s = None"
| "walk_leaves n scan (Suc fuel) (a, es, nx) s =
     (case scan es s of
        Inr r \<Rightarrow> Some r
      | Inl s' \<Rightarrow> (case nx of
          None \<Rightarrow> Some (True, s')
        | Some b \<Rightarrow> (case deref_leaf n b of
            None \<Rightarrow> None
          | Some l \<Rightarrow> walk_leaves n scan fuel l s')))"

definition tree_range_search :: "('k \<Rightarrow> 'k \<Rightarrow> int) \<Rightarrow> 'k bptree \<Rightarrow> 'k \<Rightarrow> 'k \<Rightarrow> ('k, 's) visitor
    \<Rightarrow> 's \<Rightarrow> (bool \<times> 's) option" where
  "tree_range_search cmp t start_key end_key vis s =
     (if cmp start_key end_key > 0 then Some (True, s)
      else case find_leaf cmp (root t) start_key of
        None \<Rightarrow> None
      | Some l \<Rightarrow> walk_leaves (root t) (scan_leaf cmp start_key end_key vis)
                    (length (leaves (root t))) l s)"

definition bptree_range_search :: "BPlusTree \<Rightarrow> int \<Rightarrow> int \<Rightarrow> (int, 's) visitor \<Rightarrow> 's
    \<Rightarrow> (bool \<times> 's) option" where
  "bptree_range_search t start_key end_key vis s =
     tree_range_search long_cmp t start_key end_key vis s"

definition bptree_string_range_search :: "BPlusStringTree \<Rightarrow> string \<Rightarrow> string
    \<Rightarrow> (string, 's) visitor \<Rightarrow> 's \<Rightarrow> (bool \<times> 's) option" where
  "bptree_string_range_search t start_key end_key vis s =
     tree_range_search strcmp t start_key end_key vis s"

text \<open>\<open>bptree_visit_pairs\<close>: from the leftmost leaf, every pair.\<close>

fun leftmost_leaf :: "'k bpnode \<Rightarrow> 'k leaf option" where
  "leftmost_leaf (Leaf a es nx) = Some (a, es, nx)"
| "leftmost_leaf (Inner ks []) = None"
| "leftmost_leaf (Inner ks (c # cs)) = leftmost_leaf c"

fun visit_leaf :: "('k, 's) visitor \<Rightarrow> ('k \<times> int) list \<Rightarrow> 's \<Rightarrow> 's + bool \<times> 's" where
  "visit_leaf vis [] s = Inl s"
| "visit_leaf vis ((k, v) # es) s =
     (case vis k v s of (False, s') \<Rightarrow> Inr (False, s') | (True, s') \<Rightarrow> visit_leaf vis es s')"

definition bptree_visit_pairs :: "BPlusTree \<Rightarrow> (int, 's) visitor \<Rightarrow> 's \<Rightarrow> (bool \<times> 's) option" where
  "bptree_visit_pairs t vis s =
     (case leftmost_leaf (root t) of None \<Rightarrow> None
      | Some l \<Rightarrow> walk_leaves (root t) (visit_leaf vis) (length (leaves (root t))) l s)"

definition bptree_string_visit_pairs :: "BPlusStringTree \<Rightarrow> (string, 's) visitor \<Rightarrow> 's
    \<Rightarrow> (bool \<times> 's) option" where
  "bptree_string_visit_pairs t vis s =
     (case leftmost_leaf (root t) of None \<Rightarrow> None
      | Some l \<Rightarrow> walk_leaves (root t) (visit_leaf vis) (length (leaves (root t))) l s)"

subsection \<open>Insertion\<close>

text \<open>
  \<open>mx\<close> and \<open>mn\<close> are \<open>tree_max_keys\<close> and \<open>tree_min_leaf_keys\<close>; \<open>f\<close> is the address of the
  right leaf of a split (at most one leaf splits per insertion).
\<close>

definition insert_leaf :: "('k \<Rightarrow> 'k \<Rightarrow> int) \<Rightarrow> nat \<Rightarrow> nat \<Rightarrow> nat \<Rightarrow> nat \<Rightarrow> ('k \<times> int) list
    \<Rightarrow> nat option \<Rightarrow> 'k \<Rightarrow> int \<Rightarrow> 'k insert_result" where
  "insert_leaf cmp mx mn f a es nx key row =
     (let i = lower_bound cmp (map fst es) key
      in if i < length es \<and> cmp (fst (es ! i)) key = 0 then InsDup
         else let es' = take i es @ (key, row) # drop i es
              in if length es' \<le> mx then InsDone (Leaf a es' nx)
                 else InsSplit (Leaf a (take mn es') (Some f)) (fst (drop mn es' ! 0))
                        (Leaf f (drop mn es') nx))"

definition insert_child :: "nat \<Rightarrow> 'k list \<Rightarrow> 'k bpnode list \<Rightarrow> nat \<Rightarrow> 'k bpnode \<Rightarrow> 'k \<Rightarrow> 'k bpnode
    \<Rightarrow> 'k insert_result" where
  "insert_child mx ks cs i l k r =
     (let ks' = take i ks @ k # drop i ks;
          cs' = take i cs @ l # r # drop (Suc i) cs;
          s = length ks' div 2
      in if length ks' \<le> mx then InsDone (Inner ks' cs')
         else InsSplit (Inner (take s ks') (take (Suc s) cs')) (ks' ! s)
                (Inner (drop (Suc s) ks') (drop (Suc s) cs')))"

fun insert_recursive :: "('k \<Rightarrow> 'k \<Rightarrow> int) \<Rightarrow> nat \<Rightarrow> nat \<Rightarrow> nat \<Rightarrow> 'k bpnode \<Rightarrow> 'k \<Rightarrow> int
    \<Rightarrow> 'k insert_result" where
  "insert_recursive cmp mx mn f (Leaf a es nx) key row = insert_leaf cmp mx mn f a es nx key row"
| "insert_recursive cmp mx mn f (Inner ks cs) key row =
     (if upper_bound cmp ks key < length cs
      then case insert_recursive cmp mx mn f (cs ! upper_bound cmp ks key) key row of
          InsSplit l k r \<Rightarrow> insert_child mx ks cs (upper_bound cmp ks key) l k r
        | InsDone c \<Rightarrow> InsDone (Inner ks (cs[upper_bound cmp ks key := c]))
        | InsDup \<Rightarrow> InsDup
        | InsWild \<Rightarrow> InsWild
      else InsWild)"

text \<open>
  The result is the returned code (1 inserted, 0 duplicate) and the tree; \<open>None\<close> is \<open>Wild\<close>.
  The address offered for a right leaf is not offered again.
\<close>

definition tree_insert_result :: "'k bptree \<Rightarrow> 'k insert_result \<Rightarrow> (int \<times> 'k bptree) option" where
  "tree_insert_result t r =
     (case r of
        InsWild \<Rightarrow> None
      | InsDup \<Rightarrow> Some (0, t)
      | InsDone n \<Rightarrow> Some (1, t\<lparr>root := n, next_addr := Suc (next_addr t)\<rparr>)
      | InsSplit l k n \<Rightarrow> Some (1, t\<lparr>root := Inner [k] [l, n], next_addr := Suc (next_addr t)\<rparr>))"

definition bptree_insert :: "BPlusTree \<Rightarrow> int \<Rightarrow> int \<Rightarrow> (int \<times> BPlusTree) option" where
  "bptree_insert t key row =
     tree_insert_result t
       (insert_recursive long_cmp (tree_max_keys t) (tree_min_leaf_keys t) (next_addr t)
          (root t) key row)"

text \<open>
  The string tree copies its separator before it moves the keys: which of the old keys, or the
  new key, will be the first key of the right leaf.
\<close>

definition string_separator :: "nat \<Rightarrow> (string \<times> int) list \<Rightarrow> nat \<Rightarrow> string \<Rightarrow> string" where
  "string_separator mn es i key =
     (if i < mn then fst (es ! (mn - 1)) else if i = mn then key else fst (es ! mn))"

definition string_insert_leaf :: "nat \<Rightarrow> nat \<Rightarrow> nat \<Rightarrow> nat \<Rightarrow> (string \<times> int) list \<Rightarrow> nat option
    \<Rightarrow> string \<Rightarrow> int \<Rightarrow> string insert_result" where
  "string_insert_leaf mx mn f a es nx key row =
     (let i = lower_bound_string (map fst es) key
      in if i < length es \<and> strcmp (fst (es ! i)) key = 0 then InsDup
         else let separator_copy = string_separator mn es i key;
                  es' = take i es @ (key, row) # drop i es
              in if length es' \<le> mx then InsDone (Leaf a es' nx)
                 else InsSplit (Leaf a (take mn es') (Some f)) separator_copy
                        (Leaf f (drop mn es') nx))"

fun string_insert_recursive :: "nat \<Rightarrow> nat \<Rightarrow> nat \<Rightarrow> string bpnode \<Rightarrow> string \<Rightarrow> int
    \<Rightarrow> string insert_result" where
  "string_insert_recursive mx mn f (Leaf a es nx) key row =
     string_insert_leaf mx mn f a es nx key row"
| "string_insert_recursive mx mn f (Inner ks cs) key row =
     (if upper_bound_string ks key < length cs
      then case string_insert_recursive mx mn f (cs ! upper_bound_string ks key) key row of
          InsSplit l k r \<Rightarrow> insert_child mx ks cs (upper_bound_string ks key) l k r
        | InsDone c \<Rightarrow> InsDone (Inner ks (cs[upper_bound_string ks key := c]))
        | InsDup \<Rightarrow> InsDup
        | InsWild \<Rightarrow> InsWild
      else InsWild)"

definition bptree_string_insert :: "BPlusStringTree \<Rightarrow> string \<Rightarrow> int
    \<Rightarrow> (int \<times> BPlusStringTree) option" where
  "bptree_string_insert t key row =
     (if key = [] then Some (- 1, t)
      else tree_insert_result t
        (string_insert_recursive (tree_max_keys t) (tree_min_leaf_keys t) (next_addr t)
           (root t) key row))"

subsection \<open>Deletion\<close>

definition delete_leaf :: "('k \<Rightarrow> 'k \<Rightarrow> int) \<Rightarrow> ('k \<times> int) list \<Rightarrow> 'k \<Rightarrow> bool \<times> ('k \<times> int) list" where
  "delete_leaf cmp es key =
     (let i = lower_bound cmp (map fst es) key
      in if i < length es \<and> cmp (fst (es ! i)) key = 0 then (True, take i es @ drop (Suc i) es)
         else (False, es))"

fun delete_node :: "('k \<Rightarrow> 'k \<Rightarrow> int) \<Rightarrow> 'k bpnode \<Rightarrow> 'k \<Rightarrow> (bool \<times> 'k bpnode) option" where
  "delete_node cmp (Leaf a es nx) key =
     Some (fst (delete_leaf cmp es key), Leaf a (snd (delete_leaf cmp es key)) nx)"
| "delete_node cmp (Inner ks cs) key =
     (if upper_bound cmp ks key < length cs
      then map_option (\<lambda>(b, c). (b, Inner ks (cs[upper_bound cmp ks key := c])))
             (delete_node cmp (cs ! upper_bound cmp ks key) key)
      else None)"

definition bptree_delete :: "BPlusTree \<Rightarrow> int \<Rightarrow> (bool \<times> BPlusTree) option" where
  "bptree_delete t key =
     map_option (\<lambda>(b, n). (b, t\<lparr>root := n\<rparr>)) (delete_node long_cmp (root t) key)"

definition bptree_string_delete :: "BPlusStringTree \<Rightarrow> string \<Rightarrow> (bool \<times> BPlusStringTree) option" where
  "bptree_string_delete t key =
     (if key = [] then Some (False, t)
      else map_option (\<lambda>(b, n). (b, t\<lparr>root := n\<rparr>)) (delete_node strcmp (root t) key))"

subsection \<open>Creation\<close>

definition bptree_create :: BPlusTree where
  "bptree_create = \<lparr>root = Leaf 0 [] None, order = BPTREE_DEFAULT_ORDER, next_addr = 1\<rparr>"

definition bptree_create_with_order :: "int \<Rightarrow> BPlusTree" where
  "bptree_create_with_order ord = bptree_create\<lparr>order := normalize_order ord\<rparr>"

definition bptree_clear :: "BPlusTree \<Rightarrow> BPlusTree" where
  "bptree_clear t = t\<lparr>root := Leaf (next_addr t) [] None, next_addr := Suc (next_addr t)\<rparr>"

definition bptree_string_create :: BPlusStringTree where
  "bptree_string_create = \<lparr>root = Leaf 0 [] None, order = BPTREE_DEFAULT_ORDER, next_addr = 1\<rparr>"

definition bptree_string_create_with_order :: "int \<Rightarrow> BPlusStringTree" where
  "bptree_string_create_with_order ord = bptree_string_create\<lparr>order := normalize_order ord\<rparr>"

definition bptree_string_clear :: "BPlusStringTree \<Rightarrow> BPlusStringTree" where
  "bptree_string_clear t = t\<lparr>root := Leaf (next_addr t) [] None, next_addr := Suc (next_addr t)\<rparr>"

subsection \<open>The invariant\<close>

definition above :: "'k::linorder option \<Rightarrow> 'k \<Rightarrow> bool" where
  "above lo k \<longleftrightarrow> (case lo of None \<Rightarrow> True | Some l \<Rightarrow> l \<le> k)"

definition below :: "'k::linorder option \<Rightarrow> 'k \<Rightarrow> bool" where
  "below hi k \<longleftrightarrow> (case hi of None \<Rightarrow> True | Some h \<Rightarrow> k < h)"

definition within :: "'k::linorder option \<Rightarrow> 'k option \<Rightarrow> 'k \<Rightarrow> bool" where
  "within lo hi k \<longleftrightarrow> above lo k \<and> below hi k"

definition between :: "'k::linorder option \<Rightarrow> 'k option \<Rightarrow> 'k \<Rightarrow> bool" where
  "between lo hi k \<longleftrightarrow> (case lo of None \<Rightarrow> True | Some l \<Rightarrow> l < k) \<and> below hi k"

text \<open>Keys are strictly increasing in the leaves and separated by the keys of the inner nodes.\<close>

fun aligned :: "'k::linorder option \<Rightarrow> 'k option \<Rightarrow> 'k bpnode \<Rightarrow> bool"
  and aligned_list :: "'k option \<Rightarrow> 'k option \<Rightarrow> 'k list \<Rightarrow> 'k bpnode list \<Rightarrow> bool" where
  "aligned lo hi (Leaf a es nx) =
     (sorted_wrt (<) (map fst es) \<and> (\<forall>e\<in>set es. within lo hi (fst e)))"
| "aligned lo hi (Inner ks cs) = aligned_list lo hi ks cs"
| "aligned_list lo hi [] [c] = aligned lo hi c"
| "aligned_list lo hi (k # ks) (c # cs) =
     (aligned lo (Some k) c \<and> between lo hi k \<and> aligned_list (Some k) hi ks cs)"
| "aligned_list lo hi _ _ = False"

text \<open>The \<open>next\<close> pointers chain the leaves from left to right; the last one is \<open>e\<close>.\<close>

fun linked_to :: "'k leaf list \<Rightarrow> nat option \<Rightarrow> bool" where
  "linked_to [] e = False"
| "linked_to [(a, es, nx)] e = (nx = e)"
| "linked_to ((a, es, nx) # l # ls) e = (nx = Some (fst l) \<and> linked_to (l # ls) e)"

fun sized :: "nat \<Rightarrow> 'k bpnode \<Rightarrow> bool" where
  "sized mx (Leaf a es nx) = (length es \<le> mx)"
| "sized mx (Inner ks cs) = (length ks \<le> mx \<and> (\<forall>c\<in>set cs. sized mx c))"

fun tree_height :: "'k bpnode \<Rightarrow> nat" where
  "tree_height (Leaf a es nx) = 1"
| "tree_height (Inner ks []) = 1"
| "tree_height (Inner ks (c # cs)) = Suc (tree_height c)"

fun height_is :: "nat \<Rightarrow> 'k bpnode \<Rightarrow> bool" where
  "height_is h (Leaf a es nx) = (h = 1)"
| "height_is h (Inner ks cs) = (1 < h \<and> (\<forall>c\<in>set cs. height_is (h - 1) c))"

definition pairs :: "'k bpnode \<Rightarrow> ('k \<times> int) list" where
  "pairs n = concat (map (\<lambda>l. fst (snd l)) (leaves n))"

definition addrs :: "'k leaf list \<Rightarrow> nat list" where
  "addrs ls = map fst ls"

definition tree_inv :: "'k::linorder bptree \<Rightarrow> bool" where
  "tree_inv t \<longleftrightarrow>
     aligned None None (root t) \<and> linked_to (leaves (root t)) None \<and>
     distinct (addrs (leaves (root t))) \<and> (\<forall>a\<in>set (addrs (leaves (root t))). a < next_addr t) \<and>
     sized (tree_max_keys t) (root t) \<and> height_is (tree_height (root t)) (root t)"

text \<open>What a visitor sees when it is offered a list of pairs: the reference for the scans.\<close>

fun visit_all :: "('k, 's) visitor \<Rightarrow> ('k \<times> int) list \<Rightarrow> 's \<Rightarrow> bool \<times> 's" where
  "visit_all vis [] s = (True, s)"
| "visit_all vis ((k, v) # es) s =
     (case vis k v s of (False, s') \<Rightarrow> (False, s') | (True, s') \<Rightarrow> visit_all vis es s')"

end
