(* ===== verification/Bptree_Correct.thy ===== *)
theory Bptree_Correct
  imports Bptree
begin

text \<open>
  Correctness of the B+ trees. The locale \<open>key_compare\<close> states what the code relies on from
  its comparisons; the trees implement, under \<open>tree_inv\<close>, the finite map given by the sorted
  list of their pairs: point search, range scan, insertion and deletion refine lookup, filter,
  insertion and removal in that list, and every operation keeps the invariant.
\<close>

subsection \<open>Binary search\<close>

lemma bound_loop_inv:
  assumes "lo \<le> hi" "hi \<le> length keys"
    and mono: "\<And>i j. i \<le> j \<Longrightarrow> j < length keys \<Longrightarrow> p (keys ! j) \<Longrightarrow> p (keys ! i)"
    and "\<And>i. i < lo \<Longrightarrow> p (keys ! i)"
    and "\<And>i. hi \<le> i \<Longrightarrow> i < length keys \<Longrightarrow> \<not> p (keys ! i)"
  shows "bound_loop p keys lo hi = length (takeWhile p keys)"
  using assms
proof (induction p keys lo hi rule: bound_loop.induct)
  case (1 p keys lo hi)
  show ?case
  proof (cases "lo < hi")
    case False
    then have "lo = hi" using "1.prems" by simp
    have "takeWhile p keys = take lo keys"
    proof (rule takeWhile_eq_take_P_nth)
      show "p (keys ! i)" if "i < lo" "i < length keys" for i using "1.prems" that by blast
      show "\<not> p (keys ! lo)" if "lo < length keys"
        using "1.prems"(5) [of lo] that \<open>lo = hi\<close> by blast
    qed
    then show ?thesis using False \<open>lo = hi\<close> "1.prems"(2)
      by (simp add: bound_loop.simps [of p keys hi hi])
  next
    case True
    define mid where "mid = lo + (hi - lo) div 2"
    have mid: "lo \<le> mid" "mid < hi" "mid < length keys" using True "1.prems" by (auto simp: mid_def)
    show ?thesis
    proof (cases "p (keys ! mid)")
      case p: True
      have "bound_loop p keys (mid + 1) hi = length (takeWhile p keys)"
      proof (rule "1.IH"(1) [OF True mid_def p])
        show "p (keys ! i)" if "i < mid + 1" for i
          using "1.prems"(3) [of i mid] mid p that by simp
      qed (use "1.prems" mid in auto)
      then show ?thesis using True p by (simp add: bound_loop.simps [of p keys lo hi] mid_def Let_def)
    next
      case np: False
      have "bound_loop p keys lo mid = length (takeWhile p keys)"
      proof (rule "1.IH"(2) [OF True mid_def np])
        show "\<not> p (keys ! i)" if "mid \<le> i" "i < length keys" for i
          using "1.prems"(3) [of mid i] np that by blast
      qed (use "1.prems" mid in auto)
      then show ?thesis using True np by (simp add: bound_loop.simps [of p keys lo hi] mid_def Let_def)
    qed
  qed
qed

lemma bound_loop_takeWhile:
  assumes "\<And>i j. i \<le> j \<Longrightarrow> j < length keys \<Longrightarrow> p (keys ! j) \<Longrightarrow> p (keys ! i)"
  shows "bound_loop p keys 0 (length keys) = length (takeWhile p keys)"
  by (rule bound_loop_inv) (use assms in auto)

lemma take_length_takeWhile [simp]: "take (length (takeWhile p xs)) xs = takeWhile p xs"
  by (induction xs) auto

lemma drop_length_takeWhile [simp]: "drop (length (takeWhile p xs)) xs = dropWhile p xs"
  by (induction xs) auto

lemma length_takeWhile_map: "length (takeWhile p (map f xs)) = length (takeWhile (p \<circ> f) xs)"
  by (simp add: takeWhile_map)

subsection \<open>The comparison interface\<close>

locale key_compare =
  fixes cmp :: "'k::linorder \<Rightarrow> 'k \<Rightarrow> int"
  assumes cmp_less: "cmp a b < 0 \<longleftrightarrow> a < b"
    and cmp_eq: "cmp a b = 0 \<longleftrightarrow> a = b"
begin

lemma cmp_le: "cmp a b \<le> 0 \<longleftrightarrow> a \<le> b"
  using cmp_less [of a b] cmp_eq [of a b] by (auto simp: le_less)

lemma cmp_greater: "cmp a b > 0 \<longleftrightarrow> b < a"
  using cmp_le [of a b] by auto

lemma upper_bound_eq: "sorted ks \<Longrightarrow> upper_bound cmp ks key = length (takeWhile (\<lambda>k. k \<le> key) ks)"
  unfolding upper_bound_def cmp_le
  by (rule bound_loop_takeWhile) (meson order_trans sorted_nth_mono)

lemma lower_bound_eq:
  "sorted_wrt (<) ks \<Longrightarrow> lower_bound cmp ks key = length (takeWhile (\<lambda>k. k < key) ks)"
  unfolding lower_bound_def cmp_less
  by (rule bound_loop_takeWhile) (metis le_less_trans sorted_nth_mono strict_sorted_iff)

end

interpretation long: key_compare long_cmp
  by unfold_locales (auto simp: long_cmp_def)

interpretation str: key_compare strcmp
  by unfold_locales (auto simp: strcmp_less strcmp_eq)

lemma lower_bound_string_eq: "lower_bound_string = lower_bound strcmp"
  by (simp add: fun_eq_iff lower_bound_string_def lower_bound_def)

lemma upper_bound_string_eq: "upper_bound_string = upper_bound strcmp"
  by (simp add: fun_eq_iff upper_bound_string_def upper_bound_def)

lemma lower_bound_long_eq: "lower_bound_long = lower_bound long_cmp"
  by (simp add: fun_eq_iff lower_bound_long_def lower_bound_def long.cmp_less)

lemma upper_bound_long_eq: "upper_bound_long = upper_bound long_cmp"
  by (simp add: fun_eq_iff upper_bound_long_def upper_bound_def long.cmp_le)

subsection \<open>Alignment\<close>

lemma within_None [simp]: "within None None k"
  by (simp add: within_def above_def below_def)

lemma within_mono_lo: "within (Some l) hi k \<Longrightarrow> within lo hi l \<Longrightarrow> within lo hi k"
  by (auto simp: within_def above_def below_def split: option.splits)

lemma within_mono_hi: "within lo (Some h) k \<Longrightarrow> within lo hi h \<Longrightarrow> within lo hi k"
  by (auto simp: within_def above_def below_def split: option.splits)

lemma between_within: "between lo hi k \<Longrightarrow> within lo hi k"
  by (auto simp: between_def within_def above_def split: option.splits)

lemma between_trans_lo: "between (Some l) hi k \<Longrightarrow> between lo hi l \<Longrightarrow> between lo hi k"
  by (auto simp: between_def below_def split: option.splits)

lemma between_trans_hi: "between lo (Some h) k \<Longrightarrow> between lo hi h \<Longrightarrow> between lo hi k"
  by (auto simp: between_def below_def split: option.splits)

lemma between_narrow_lo: "between lo (Some h) k \<Longrightarrow> between lo hi h \<Longrightarrow> between (Some k) hi h"
  by (auto simp: between_def below_def split: option.splits)

lemma between_narrow_hi: "between (Some l) hi k \<Longrightarrow> between lo hi l \<Longrightarrow> between lo (Some k) l"
  by (auto simp: between_def below_def split: option.splits)

lemmas between_intros = between_within between_trans_lo between_trans_hi between_narrow_lo
  between_narrow_hi

lemma within_Some_lo: "within (Some l) hi k \<Longrightarrow> l \<le> k"
  by (simp add: within_def above_def)

lemma within_Some_hi: "within lo (Some h) k \<Longrightarrow> k < h"
  by (simp add: within_def below_def)

lemma aligned_list_length: "aligned_list lo hi ks cs \<Longrightarrow> length cs = Suc (length ks)"
proof (induction ks arbitrary: lo cs)
  case Nil
  then show ?case by (cases "(lo, hi, [] :: 'a list, cs)" rule: aligned_list.cases) auto
next
  case (Cons k ks)
  then show ?case by (cases cs) auto
qed

lemma aligned_list_child: "aligned_list lo hi ks cs \<Longrightarrow> c \<in> set cs \<Longrightarrow> \<exists>lo hi. aligned lo hi c"
proof (induction ks arbitrary: lo cs)
  case Nil
  then show ?case using aligned_list_length [OF Nil.prems(1)] by (cases cs) auto
next
  case (Cons k ks)
  then show ?case by (cases cs) auto
qed

lemma pairs_Leaf [simp]: "pairs (Leaf a es nx) = es"
  by (simp add: pairs_def)

lemma pairs_Inner: "pairs (Inner ks cs) = concat (map pairs cs)"
  by (induction cs) (auto simp: pairs_def)

lemma aligned_list_seps_between:
  "aligned_list lo hi ks cs \<Longrightarrow> k \<in> set ks \<Longrightarrow> between lo hi k"
proof (induction ks arbitrary: lo cs)
  case (Cons k' ks)
  then obtain c cs' where cs: "cs = c # cs'" "between lo hi k'" "aligned_list (Some k') hi ks cs'"
    by (cases cs) auto
  show ?case
  proof (cases "k = k'")
    case False
    with Cons.prems have "between (Some k') hi k" by (intro Cons.IH [OF cs(3)]) simp
    with cs(2) show ?thesis by (blast intro: between_trans_lo)
  qed (use cs in simp)
qed simp

lemma aligned_list_sorted: "aligned_list lo hi ks cs \<Longrightarrow> sorted ks"
proof (induction ks arbitrary: lo cs)
  case (Cons k ks)
  then obtain c cs' where cs: "cs = c # cs'" "aligned_list (Some k) hi ks cs'"
    by (cases cs) auto
  with Cons.IH show ?case
    by (auto dest!: aligned_list_seps_between [OF cs(2)] simp: between_def)
qed simp

lemma aligned_within:
  "aligned lo hi n \<Longrightarrow> \<forall>e\<in>set (pairs n). within lo hi (fst e)"
  "aligned_list lo hi ks cs \<Longrightarrow> \<forall>e\<in>set (concat (map pairs cs)). within lo hi (fst e)"
proof (induction lo hi n and lo hi ks cs rule: aligned_aligned_list.induct)
  case (4 lo hi k ks c cs)
  then have k: "within lo hi k" by (simp add: between_within)
  from 4 have "within lo hi (fst e)" if "e \<in> set (pairs c)" for e
    using that k by (auto intro: within_mono_hi)
  moreover from 4 have "within lo hi (fst e)" if "e \<in> set (concat (map pairs cs))" for e
    using that k by (auto intro: within_mono_lo)
  ultimately show ?case unfolding list.map concat.simps set_append by blast
qed (auto simp: pairs_Inner)

lemma sorted_append_less:
  assumes "sorted_wrt (<) (map fst xs)" "sorted_wrt (<) (map fst ys)"
    and "\<And>x y. x \<in> set xs \<Longrightarrow> y \<in> set ys \<Longrightarrow> fst x < (fst y :: 'k::linorder)"
  shows "sorted_wrt (<) (map fst (xs @ ys))"
  using assms by (auto simp: sorted_wrt_append)

lemma aligned_sorted:
  "aligned lo hi n \<Longrightarrow> sorted_wrt (<) (map fst (pairs n))"
  "aligned_list lo hi ks cs \<Longrightarrow> sorted_wrt (<) (map fst (concat (map pairs cs)))"
proof (induction lo hi n and lo hi ks cs rule: aligned_aligned_list.induct)
  case (4 lo hi k ks c cs)
  then have c: "aligned lo (Some k) c" and cs: "aligned_list (Some k) hi ks cs" by auto
  have "fst x < fst y" if "x \<in> set (pairs c)" "y \<in> set (concat (map pairs cs))" for x y
    using aligned_within(1) [OF c] aligned_within(2) [OF cs] that
    by (meson less_le_trans within_Some_hi within_Some_lo)
  then have "sorted_wrt (<) (map fst (pairs c @ concat (map pairs cs)))"
    using "4.IH"(1) [OF c] "4.IH"(2) [OF cs] by (intro sorted_append_less) auto
  then show ?case by simp
qed (auto simp: pairs_Inner)

text \<open>
  The child that the descent for \<open>key\<close> selects: its bounds, that it holds every pair with that
  key, that pairs of the children before it are smaller, and that an aligned replacement, or an
  aligned split of it, keeps the node aligned.
\<close>

lemma selected_child:
  assumes "aligned_list lo hi ks cs" and "i = length (takeWhile (\<lambda>k. k \<le> key) ks)"
  obtains lo' hi' where "i < length cs" "aligned lo' hi' (cs ! i)"
    "within lo hi key \<Longrightarrow> within lo' hi' key"
    "\<And>e. e \<in> set (concat (map pairs cs)) \<Longrightarrow> fst e = key \<Longrightarrow> e \<in> set (pairs (cs ! i))"
    "\<And>e. e \<in> set (concat (map pairs (take i cs))) \<Longrightarrow> fst e < key"
    "\<And>c'. aligned lo' hi' c' \<Longrightarrow> aligned_list lo hi ks (cs[i := c'])"
    "\<And>l k r. aligned lo' (Some k) l \<Longrightarrow> between lo' hi' k \<Longrightarrow> aligned (Some k) hi' r \<Longrightarrow>
       aligned_list lo hi (take i ks @ k # drop i ks) (take i cs @ l # r # drop (Suc i) cs)"
  using assms
proof (induction ks arbitrary: lo cs i thesis)
  case Nil
  then obtain c where cs: "cs = [c]" using aligned_list_length [OF Nil.prems(2)]
    by (cases cs) auto
  with Nil show ?case by (intro Nil.prems(1) [of lo hi]) auto
next
  case (Cons k ks)
  from Cons.prems(2) obtain c cs' where cs: "cs = c # cs'" "aligned lo (Some k) c"
    "between lo hi k" "aligned_list (Some k) hi ks cs'" by (cases cs) auto
  show ?case
  proof (cases "k \<le> key")
    case False
    then have i: "i = 0" using Cons.prems(3) by simp
    show ?thesis
    proof (rule Cons.prems(1) [of lo "Some k"])
      show "e \<in> set (pairs (cs ! i))" if "e \<in> set (concat (map pairs cs))" "fst e = key" for e
        using that aligned_within(2) [OF cs(4)] False within_Some_lo cs(1) i by fastforce
      show "within lo hi key \<Longrightarrow> within lo (Some k) key"
        using False by (simp add: within_def below_def)
      show "aligned_list lo hi (take i (k # ks) @ s # drop i (k # ks)) (take i cs @ l # r # drop (Suc i) cs)"
        if "aligned lo (Some s) l" "between lo (Some k) s" "aligned (Some s) (Some k) r" for l s r
        using that cs i by (auto intro: between_intros)
    qed (use cs i in auto)
  next
    case True
    define i' where "i' = length (takeWhile (\<lambda>k. k \<le> key) ks)"
    have i: "i = Suc i'" using Cons.prems(3) True by (simp add: i'_def)
    obtain lo' hi' where IH: "i' < length cs'" "aligned lo' hi' (cs' ! i')"
      "within (Some k) hi key \<Longrightarrow> within lo' hi' key"
      "\<And>e. e \<in> set (concat (map pairs cs')) \<Longrightarrow> fst e = key \<Longrightarrow> e \<in> set (pairs (cs' ! i'))"
      "\<And>e. e \<in> set (concat (map pairs (take i' cs'))) \<Longrightarrow> fst e < key"
      "\<And>c'. aligned lo' hi' c' \<Longrightarrow> aligned_list (Some k) hi ks (cs'[i' := c'])"
      "\<And>l s r. aligned lo' (Some s) l \<Longrightarrow> between lo' hi' s \<Longrightarrow> aligned (Some s) hi' r \<Longrightarrow>
         aligned_list (Some k) hi (take i' ks @ s # drop i' ks) (take i' cs' @ l # r # drop (Suc i') cs')"
      using Cons.IH [OF _ cs(4) i'_def] by blast
    have c_less: "fst e < key" if "e \<in> set (pairs c)" for e
      using aligned_within(1) [OF cs(2)] that True within_Some_hi by fastforce
    show ?thesis
    proof (rule Cons.prems(1) [of lo' hi'])
      show "e \<in> set (pairs (cs ! i))" if "e \<in> set (concat (map pairs cs))" "fst e = key" for e
        using that IH(4) [of e] c_less [of e] cs(1) i by auto
      show "within lo hi key \<Longrightarrow> within lo' hi' key"
        using IH(3) True by (simp add: within_def above_def)
      show "fst e < key" if "e \<in> set (concat (map pairs (take i cs)))" for e
        using that IH(5) [of e] c_less [of e] cs(1) i by auto
    qed (use IH cs i in auto)
  qed
qed

lemma aligned_list_split:
  "aligned_list lo hi ks cs \<Longrightarrow> s < length ks \<Longrightarrow>
     aligned_list lo (Some (ks ! s)) (take s ks) (take (Suc s) cs) \<and> between lo hi (ks ! s) \<and>
     aligned_list (Some (ks ! s)) hi (drop (Suc s) ks) (drop (Suc s) cs)"
proof (induction ks arbitrary: lo cs s)
  case (Cons k ks)
  then obtain c cs' where cs: "cs = c # cs'" "aligned lo (Some k) c"
    "between lo hi k" "aligned_list (Some k) hi ks cs'" by (cases cs) auto
  show ?case
  proof (cases s)
    case 0
    then show ?thesis using cs by auto
  next
    case (Suc s')
    have "aligned_list (Some k) (Some (ks ! s')) (take s' ks) (take (Suc s') cs')"
      "between (Some k) hi (ks ! s')"
      "aligned_list (Some (ks ! s')) hi (drop (Suc s') ks) (drop (Suc s') cs')"
      using Cons.IH [OF cs(4), of s'] Cons.prems(2) Suc by auto
    with Suc cs show ?thesis by (auto intro: between_intros)
  qed
qed simp

subsection \<open>Leaves: links and addresses\<close>

lemma aligned_leaves_nonempty:
  "aligned lo hi n \<Longrightarrow> leaves n \<noteq> []"
  "aligned_list lo hi ks cs \<Longrightarrow> concat (map leaves cs) \<noteq> []"
  by (induction lo hi n and lo hi ks cs rule: aligned_aligned_list.induct) auto

lemma linked_to_append:
  "xs \<noteq> [] \<Longrightarrow> ys \<noteq> [] \<Longrightarrow>
     linked_to (xs @ ys) e \<longleftrightarrow> linked_to xs (Some (fst (hd ys))) \<and> linked_to ys e"
proof (induction xs "Some (fst (hd ys))" rule: linked_to.induct)
  case (2 a es nx)
  then show ?case by (cases ys) auto
qed auto

text \<open>A list of leaves that may stand for another one: same first address, links kept.\<close>

definition link_refines :: "'k leaf list \<Rightarrow> 'k leaf list \<Rightarrow> bool" where
  "link_refines ls ls' \<longleftrightarrow> ls \<noteq> [] \<and> ls' \<noteq> [] \<and> fst (hd ls') = fst (hd ls) \<and>
     (\<forall>e. linked_to ls e \<longrightarrow> linked_to ls' e)"

lemma link_refines_append:
  assumes "link_refines ls ls'"
  shows "link_refines (xs @ ls @ ys) (xs @ ls' @ ys)"
proof -
  have "fst (hd (xs @ ls @ ys)) = fst (hd (xs @ ls' @ ys))"
    using assms by (cases xs) (auto simp: link_refines_def hd_append)
  moreover have "linked_to (xs @ ls' @ ys) e" if "linked_to (xs @ ls @ ys) e" for e
    using that assms
    by (cases "xs = []"; cases "ys = []") (auto simp: link_refines_def linked_to_append)
  ultimately show ?thesis using assms by (auto simp: link_refines_def)
qed

lemma concat_map_update:
  assumes "i < length cs"
  shows "concat (map f cs) = concat (map f (take i cs)) @ f (cs ! i) @ concat (map f (drop (Suc i) cs))"
    and "concat (map f (cs[i := c])) =
      concat (map f (take i cs)) @ f c @ concat (map f (drop (Suc i) cs))"
proof -
  show "concat (map f cs) = concat (map f (take i cs)) @ f (cs ! i) @ concat (map f (drop (Suc i) cs))"
    by (subst id_take_nth_drop [OF assms]) simp
  show "concat (map f (cs[i := c])) =
      concat (map f (take i cs)) @ f c @ concat (map f (drop (Suc i) cs))"
    using assms by (simp add: upd_conv_take_nth_drop)
qed

lemma addrs_append [simp]: "addrs (xs @ ys) = addrs xs @ addrs ys"
  by (simp add: addrs_def)

lemma addrs_simps [simp]: "addrs [] = []" "addrs (l # ls) = fst l # addrs ls"
  by (simp_all add: addrs_def)

subsection \<open>Descent and point search\<close>

lemma map_of_sorted_split:
  fixes key :: "'k::linorder"
  assumes "sorted_wrt (<) (map fst es)" and "i = length (takeWhile (\<lambda>k. k < key) (map fst es))"
  shows "map_of es key = (if i < length es \<and> fst (es ! i) = key then Some (snd (es ! i)) else None)"
  using assms
proof (induction es arbitrary: i)
  case (Cons e es)
  obtain k v where e: "e = (k, v)" by force
  show ?case
  proof (cases "k < key")
    case True
    then show ?thesis using Cons e by auto
  next
    case False
    then have "key \<notin> fst ` set es \<or> k = key" using Cons.prems e by fastforce
    then have "map_of es key = None \<or> k = key" by (simp add: map_of_eq_None_iff)
    then show ?thesis using False e by (auto simp: Cons.prems)
  qed
qed simp

lemma map_of_unique_subset:
  assumes "distinct (map fst xs)" "distinct (map fst ys)" "set xs \<subseteq> set ys"
    and "\<And>e. e \<in> set ys \<Longrightarrow> fst e = k \<Longrightarrow> e \<in> set xs"
  shows "map_of xs k = map_of ys k"
proof (cases "map_of ys k")
  case None
  then have "k \<notin> fst ` set xs" using assms(3) by (auto simp: map_of_eq_None_iff)
  then have "map_of xs k = None" by (simp add: map_of_eq_None_iff)
  then show ?thesis using None by simp
next
  case (Some v)
  then have "(k, v) \<in> set xs" using assms(4) [of "(k, v)"] map_of_SomeD [OF Some] by simp
  then show ?thesis using Some assms(1) by simp
qed

lemma sorted_distinct_fst: "sorted_wrt (<) (map fst (xs :: ('k::linorder \<times> 'v) list)) \<Longrightarrow> distinct (map fst xs)"
  by (simp add: strict_sorted_iff)

context key_compare
begin

lemma leaf_search_map_of:
  "sorted_wrt (<) (map fst es) \<Longrightarrow>
     leaf_search cmp es key = (case map_of es key of None \<Rightarrow> Absent | Some v \<Rightarrow> Found v)"
  by (simp add: leaf_search_def lower_bound_eq cmp_eq map_of_sorted_split Let_def)

lemma upper_bound_aligned:
  "aligned_list lo hi ks cs \<Longrightarrow> upper_bound cmp ks key = length (takeWhile (\<lambda>k. k \<le> key) ks)"
  by (simp add: upper_bound_eq aligned_list_sorted)

lemma find_leaf_spec:
  "aligned lo hi n \<Longrightarrow> \<exists>xs l ys. find_leaf cmp n key = Some l \<and> leaves n = xs @ l # ys \<and>
     (\<forall>e\<in>set (pairs n). fst e = key \<longrightarrow> e \<in> set (fst (snd l))) \<and>
     (\<forall>x\<in>set xs. \<forall>e\<in>set (fst (snd x)). fst e < key)"
proof (induction n arbitrary: lo hi)
  case (Leaf a es nx)
  then show ?case by (intro exI [of _ "[]"]) simp
next
  case (Inner ks cs)
  define i where "i = upper_bound cmp ks key"
  from Inner.prems have al: "aligned_list lo hi ks cs" by simp
  obtain lo' hi' where sel: "i < length cs" "aligned lo' hi' (cs ! i)"
    "\<And>e. e \<in> set (concat (map pairs cs)) \<Longrightarrow> fst e = key \<Longrightarrow> e \<in> set (pairs (cs ! i))"
    "\<And>e. e \<in> set (concat (map pairs (take i cs))) \<Longrightarrow> fst e < key"
    using selected_child [OF al upper_bound_aligned [OF al, of key]] unfolding i_def by metis
  obtain xs l ys where IH: "find_leaf cmp (cs ! i) key = Some l" "leaves (cs ! i) = xs @ l # ys"
    "\<forall>e\<in>set (pairs (cs ! i)). fst e = key \<longrightarrow> e \<in> set (fst (snd l))"
    "\<forall>x\<in>set xs. \<forall>e\<in>set (fst (snd x)). fst e < key"
    using Inner.IH [OF nth_mem [OF sel(1)] sel(2)] by blast
  have "leaves (Inner ks cs) =
      (concat (map leaves (take i cs)) @ xs) @ l # (ys @ concat (map leaves (drop (Suc i) cs)))"
    using IH(2) concat_map_update(1) [OF sel(1), of leaves] by simp
  moreover have "\<forall>x\<in>set (concat (map leaves (take i cs)) @ xs). \<forall>e\<in>set (fst (snd x)). fst e < key"
  proof
    fix x assume "x \<in> set (concat (map leaves (take i cs)) @ xs)"
    moreover have "fst e < key" if "c \<in> set (take i cs)" "x \<in> set (leaves c)" "e \<in> set (fst (snd x))" for c e
      using that sel(4) [of e] by (auto simp: pairs_def)
    ultimately show "\<forall>e\<in>set (fst (snd x)). fst e < key" using IH(4) by auto
  qed
  ultimately show ?case using IH(1,3) sel(1,3)
    by (intro exI [of _ "concat (map leaves (take i cs)) @ xs"] exI [of _ l]
          exI [of _ "ys @ concat (map leaves (drop (Suc i) cs))"])
      (simp add: i_def [symmetric] pairs_Inner)
qed

lemma tree_search_map_of:
  assumes "aligned None None (root t)"
  shows "tree_search cmp t key =
    (case map_of (pairs (root t)) key of None \<Rightarrow> Absent | Some v \<Rightarrow> Found v)"
proof -
  obtain xs l ys where l: "find_leaf cmp (root t) key = Some l" "leaves (root t) = xs @ l # ys"
    "\<forall>e\<in>set (pairs (root t)). fst e = key \<longrightarrow> e \<in> set (fst (snd l))"
    using find_leaf_spec [OF assms] by blast
  have pairs_eq: "pairs (root t) =
      concat (map (\<lambda>l. fst (snd l)) xs) @ fst (snd l) @ concat (map (\<lambda>l. fst (snd l)) ys)"
    by (simp add: pairs_def l(2))
  have sorted: "sorted_wrt (<) (map fst (pairs (root t)))" using aligned_sorted(1) [OF assms] .
  then have es: "sorted_wrt (<) (map fst (fst (snd l)))"
    by (simp add: pairs_eq sorted_wrt_append)
  have "map_of (fst (snd l)) key = map_of (pairs (root t)) key"
  proof (rule map_of_unique_subset [OF sorted_distinct_fst [OF es] sorted_distinct_fst [OF sorted]])
    show "set (fst (snd l)) \<subseteq> set (pairs (root t))" by (auto simp: pairs_eq)
  qed (use l(3) in blast)
  then show ?thesis using l(1) es
    by (cases l) (simp add: tree_search_def leaf_search_map_of)
qed

end

subsection \<open>Range scans\<close>

fun scan_seq :: "(('k \<times> int) list \<Rightarrow> 's \<Rightarrow> 's + bool \<times> 's) \<Rightarrow> ('k \<times> int) list list \<Rightarrow> 's \<Rightarrow> bool \<times> 's" where
  "scan_seq scan [] s = (True, s)"
| "scan_seq scan (es # ess) s = (case scan es s of Inr r \<Rightarrow> r | Inl s' \<Rightarrow> scan_seq scan ess s')"

lemma deref_leaf_eq:
  assumes "leaves n = xs @ l # ys" "distinct (addrs (leaves n))"
  shows "deref_leaf n (fst l) = Some l"
proof -
  have "fst l \<notin> fst ` set xs" using assms by (simp add: addrs_def)
  then have "\<forall>x\<in>set xs. fst x \<noteq> fst l" by (metis image_eqI)
  then have "find (\<lambda>x. fst x = fst l) (xs @ l # ys) = Some l"
    by (induction xs) auto
  then show ?thesis by (simp add: deref_leaf_def assms(1))
qed

lemma walk_leaves_scan_seq:
  assumes "leaves n = xs @ l # ys" "distinct (addrs (leaves n))" "linked_to (leaves n) None"
    and "length ys < fuel"
  shows "walk_leaves n scan fuel l s = Some (scan_seq scan (map (\<lambda>l. fst (snd l)) (l # ys)) s)"
  using assms
proof (induction ys arbitrary: xs l fuel s)
  case Nil
  obtain a es nx where l: "l = (a, es, nx)" by (cases l)
  have "nx = None" using Nil l by (cases "xs = []") (auto simp: linked_to_append)
  then show ?case using Nil l by (cases fuel) (auto split: sum.splits)
next
  case (Cons y ys)
  obtain a es nx where l: "l = (a, es, nx)" by (cases l)
  obtain fuel' where fuel: "fuel = Suc fuel'" "length ys < fuel'" using Cons.prems(4)
    by (cases fuel) auto
  have nx: "nx = Some (fst y)"
    using Cons.prems(1,3) l by (cases "xs = []") (auto simp: linked_to_append)
  have lv: "leaves n = (xs @ [l]) @ y # ys" using Cons.prems(1) by simp
  have "walk_leaves n scan fuel' y s' = Some (scan_seq scan (map (\<lambda>l. fst (snd l)) (y # ys)) s')" for s'
    by (rule Cons.IH [OF lv Cons.prems(2,3) fuel(2)])
  then show ?case using l nx fuel deref_leaf_eq [OF lv Cons.prems(2)]
    by (auto split: sum.splits)
qed

lemma visit_all_append:
  "visit_all vis (xs @ ys) s =
     (case visit_all vis xs s of (True, s') \<Rightarrow> visit_all vis ys s' | (False, s') \<Rightarrow> (False, s'))"
  by (induction vis xs s rule: visit_all.induct) (auto split: prod.splits bool.splits)

lemma visit_leaf_visit_all:
  "(case visit_leaf vis es s of Inl s' \<Rightarrow> (True, s') | Inr r \<Rightarrow> r) = visit_all vis es s"
  by (induction vis es s rule: visit_leaf.induct) (auto split: prod.splits bool.splits)

lemma visit_leaf_Inr: "visit_leaf vis es s = Inr r \<Longrightarrow> \<not> fst r"
proof (induction vis es s rule: visit_leaf.induct)
  case (2 vis k v es s)
  obtain b s' where "vis k v s = (b, s')" by force
  then show ?case using "2.prems" "2.IH" [of b s'] by (cases b) (auto simp: \<open>vis k v s = (b, s')\<close>)
qed simp

lemma scan_seq_visit: "scan_seq (visit_leaf vis) ess s = visit_all vis (concat ess) s"
proof (induction ess arbitrary: s)
  case (Cons es ess)
  show ?case
    using visit_leaf_visit_all [of vis es s] visit_leaf_Inr [of vis es s] Cons
    by (cases "visit_leaf vis es s")
      (auto simp: visit_all_append split: prod.splits bool.splits)
qed simp

context key_compare
begin

lemma scan_leaf_visit:
  assumes "sorted_wrt (<) (map fst (es @ rest))"
  shows "(case scan_leaf cmp lo hi vis es s of
      Inl s' \<Rightarrow> visit_all vis (filter (\<lambda>e. lo \<le> fst e \<and> fst e \<le> hi) rest) s'
    | Inr r \<Rightarrow> r) = visit_all vis (filter (\<lambda>e. lo \<le> fst e \<and> fst e \<le> hi) (es @ rest)) s"
  using assms
proof (induction es arbitrary: s)
  case (Cons e es)
  obtain k v where e: "e = (k, v)" by force
  have sorted: "sorted_wrt (<) (map fst (es @ rest))" using Cons.prems by simp
  note IH = Cons.IH [OF sorted]
  consider "k < lo" | "lo \<le> k" "hi < k" | "lo \<le> k" "k \<le> hi" by fastforce
  then show ?case
  proof cases
    case 1
    then show ?thesis using IH e by (auto simp: cmp_less)
  next
    case 2
    have "\<forall>e\<in>set (es @ rest). k < fst e" using Cons.prems e by auto
    then have "\<forall>e\<in>set (es @ rest). hi < fst e" using 2 by (meson less_trans)
    then have "filter (\<lambda>e. lo \<le> fst e \<and> fst e \<le> hi) ((e # es) @ rest) = []"
      using 2 e by (auto simp: filter_empty_conv not_le)
    then have "visit_all vis (filter (\<lambda>e. lo \<le> fst e \<and> fst e \<le> hi) ((e # es) @ rest)) s = (True, s)"
      by (metis visit_all.simps(1))
    moreover have "scan_leaf cmp lo hi vis (e # es) s = Inr (True, s)"
      using 2 e leD [OF 2(1)] by (simp add: cmp_less cmp_greater)
    ultimately show ?thesis by simp
  next
    case 3
    obtain b s' where "vis k v s = (b, s')" by force
    then show ?thesis using 3 e IH [of s'] leD [OF 3(1)] leD [OF 3(2)]
      by (cases b) (simp_all add: cmp_less cmp_greater)
  qed
qed simp

lemma scan_seq_range:
  "sorted_wrt (<) (map fst (concat ess)) \<Longrightarrow>
     scan_seq (scan_leaf cmp lo hi vis) ess s =
     visit_all vis (filter (\<lambda>e. lo \<le> fst e \<and> fst e \<le> hi) (concat ess)) s"
proof (induction ess arbitrary: s)
  case (Cons es ess)
  then have "sorted_wrt (<) (map fst (concat ess))" by (simp add: sorted_wrt_append)
  with Cons.IH Cons.prems show ?case
    using scan_leaf_visit [where es = es and rest = "concat ess" and lo = lo and hi = hi
        and vis = vis and s = s] by (auto split: sum.splits)
qed simp

lemma tree_range_search_visit:
  assumes inv: "aligned None None (root t)" "linked_to (leaves (root t)) None"
    "distinct (addrs (leaves (root t)))"
  shows "tree_range_search cmp t lo hi vis s =
    Some (visit_all vis (filter (\<lambda>e. lo \<le> fst e \<and> fst e \<le> hi) (pairs (root t))) s)"
proof (cases "hi < lo")
  case True
  then have "filter (\<lambda>e. lo \<le> fst e \<and> fst e \<le> hi) (pairs (root t)) = []"
    by (auto simp: filter_empty_conv)
  then show ?thesis using True by (simp add: tree_range_search_def cmp_greater)
next
  case False
  obtain xs l ys where l: "find_leaf cmp (root t) lo = Some l" "leaves (root t) = xs @ l # ys"
    "\<forall>x\<in>set xs. \<forall>e\<in>set (fst (snd x)). fst e < lo"
    using find_leaf_spec [OF inv(1)] by blast
  let ?p = "\<lambda>e. lo \<le> fst e \<and> fst e \<le> hi"
  let ?rest = "concat (map (\<lambda>l. fst (snd l)) (l # ys))"
  have pairs_eq: "pairs (root t) = concat (map (\<lambda>l. fst (snd l)) xs) @ ?rest"
    by (simp add: pairs_def l(2))
  have sorted: "sorted_wrt (<) (map fst ?rest)"
    using aligned_sorted(1) [OF inv(1)] by (simp add: pairs_eq sorted_wrt_append)
  have "filter ?p (concat (map (\<lambda>l. fst (snd l)) xs)) = []"
    using l(3) by (fastforce simp: filter_empty_conv not_le)
  then have eq: "filter ?p (pairs (root t)) = filter ?p ?rest" by (simp add: pairs_eq)
  have "length ys < length (leaves (root t))" by (simp add: l(2))
  from walk_leaves_scan_seq [OF l(2) inv(3,2) this] show ?thesis
    using False l(1) unfolding eq scan_seq_range [OF sorted, symmetric]
    by (simp add: tree_range_search_def cmp_greater)
qed

end

subsection \<open>Insertion\<close>

text \<open>What an insertion into a node with bounds \<open>lo\<close>, \<open>hi\<close> and the pairs \<open>old\<close> owes its caller.\<close>

fun ins_ok :: "'k::linorder option \<Rightarrow> 'k option \<Rightarrow> 'k \<Rightarrow> int \<Rightarrow> ('k \<times> int) set
    \<Rightarrow> 'k insert_result \<Rightarrow> bool" where
  "ins_ok lo hi key row old InsWild = False"
| "ins_ok lo hi key row old InsDup = (key \<in> fst ` old)"
| "ins_ok lo hi key row old (InsDone n) =
     (key \<notin> fst ` old \<and> aligned lo hi n \<and> set (pairs n) = insert (key, row) old)"
| "ins_ok lo hi key row old (InsSplit l k r) =
     (key \<notin> fst ` old \<and> aligned lo (Some k) l \<and> between lo hi k \<and> aligned (Some k) hi r \<and>
      set (pairs l) \<union> set (pairs r) = insert (key, row) old)"

lemma sorted_insert_at:
  fixes key :: "'k::linorder"
  assumes "sorted_wrt (<) (map fst es)" "key \<notin> fst ` set es"
    and "i = length (takeWhile (\<lambda>k. k < key) (map fst es))"
  shows "sorted_wrt (<) (map fst (take i es @ (key, row) # drop i es))"
  using assms
proof (induction es arbitrary: i)
  case (Cons e es)
  show ?case
  proof (cases "fst e < key")
    case True
    then obtain j where j: "i = Suc j" "j = length (takeWhile (\<lambda>k. k < key) (map fst es))"
      using Cons.prems(3) by simp
    have "sorted_wrt (<) (map fst (take j es @ (key, row) # drop j es))"
      using Cons j by simp
    then show ?thesis using True Cons.prems(1) j(1) by (auto dest: in_set_takeD in_set_dropD)
  next
    case False
    then have "key < fst e" using Cons.prems(2) by fastforce
    then show ?thesis using False Cons.prems by fastforce
  qed
qed simp

lemma key_at_lower_bound:
  fixes key :: "'k::linorder"
  assumes "sorted_wrt (<) (map fst es)" "i = length (takeWhile (\<lambda>k. k < key) (map fst es))"
  shows "i < length es \<and> fst (es ! i) = key \<longleftrightarrow> key \<in> fst ` set es"
proof -
  have "key \<in> fst ` set es \<longleftrightarrow> map_of es key \<noteq> None" by (simp add: map_of_eq_None_iff)
  then show ?thesis using map_of_sorted_split [OF assms] by auto
qed

lemma sorted_split_bounds:
  fixes es :: "('k::linorder \<times> 'v) list"
  assumes "sorted_wrt (<) (map fst es)" "\<forall>e\<in>set es. within lo hi (fst e)"
    and "0 < m" "m < length es"
  defines "k \<equiv> fst (es ! m)"
  shows "\<forall>e\<in>set (take m es). within lo (Some k) (fst e)" "between lo hi k"
    "\<forall>e\<in>set (drop m es). within (Some k) hi (fst e)"
proof -
  have lt: "fst (es ! i) < fst (es ! j)" if "i < j" "j < length es" for i j
    using sorted_wrt_nth_less [OF assms(1), of i j] that by simp
  show "\<forall>e\<in>set (take m es). within lo (Some k) (fst e)"
  proof
    fix e assume "e \<in> set (take m es)"
    then obtain j where j: "e = es ! j" "j < m" by (auto simp: in_set_conv_nth)
    then have "fst e < k" "within lo hi (fst e)" using lt [of j m] assms(2,4) by (auto simp: k_def)
    then show "within lo (Some k) (fst e)" by (simp add: within_def below_def)
  qed
  show "\<forall>e\<in>set (drop m es). within (Some k) hi (fst e)"
  proof
    fix e assume "e \<in> set (drop m es)"
    then obtain j where j: "e = es ! (m + j)" "m + j < length es"
      by (auto simp: in_set_conv_nth)
    then have "k \<le> fst e" using lt [of m "m + j"] by (cases j) (auto simp: k_def)
    moreover have "within lo hi (fst e)" using j assms(2) by simp
    ultimately show "within (Some k) hi (fst e)" by (simp add: within_def above_def)
  qed
  have "within lo hi (fst (es ! 0))" "within lo hi k" "fst (es ! 0) < k"
    using assms(2) lt [of 0 m] nth_mem [of 0 es] nth_mem [OF assms(4)] assms(3,4) less_trans [OF assms(3,4)]
    unfolding k_def by blast+
  then show "between lo hi k"
    by (auto simp: between_def within_def above_def split: option.splits)
qed

context key_compare
begin

lemma insert_leaf_ok:
  assumes "aligned lo hi (Leaf a es nx)" "within lo hi key" "0 < mn" "mn \<le> mx"
  shows "ins_ok lo hi key row (set es) (insert_leaf cmp mx mn f a es nx key row)"
proof -
  from assms(1) have sorted: "sorted_wrt (<) (map fst es)"
    and within: "\<forall>e\<in>set es. within lo hi (fst e)" by auto
  define i where "i = length (takeWhile (\<lambda>k. k < key) (map fst es))"
  define es' where "es' = take i es @ (key, row) # drop i es"
  have i: "lower_bound cmp (map fst es) key = i" by (simp add: i_def lower_bound_eq sorted)
  have dup: "i < length es \<and> fst (es ! i) = key \<longleftrightarrow> key \<in> fst ` set es"
    by (rule key_at_lower_bound [OF sorted i_def])
  show ?thesis
  proof (cases "key \<in> fst ` set es")
    case True
    then show ?thesis using dup by (simp add: insert_leaf_def i cmp_eq)
  next
    case False
    have s': "sorted_wrt (<) (map fst es')"
      unfolding es'_def by (rule sorted_insert_at [OF sorted False i_def])
    have set': "set es' = insert (key, row) (set es)"
      by (simp add: es'_def) (metis append_take_drop_id set_append)
    have w': "\<forall>e\<in>set es'. within lo hi (fst e)" using within assms(2) set' by auto
    have res: "insert_leaf cmp mx mn f a es nx key row =
      (if length es' \<le> mx then InsDone (Leaf a es' nx)
       else InsSplit (Leaf a (take mn es') (Some f)) (fst (drop mn es' ! 0)) (Leaf f (drop mn es') nx))"
      using False dup by (simp add: insert_leaf_def i cmp_eq es'_def Let_def)
    show ?thesis
    proof (cases "length es' \<le> mx")
      case True
      then show ?thesis using res False s' w' set' by simp
    next
      case big: False
      have m: "0 < mn" "mn < length es'" using big assms by auto
      have "sorted_wrt (<) (map fst (take mn es' @ drop mn es'))" using s' by simp
      then have "sorted_wrt (<) (map fst (take mn es'))" "sorted_wrt (<) (map fst (drop mn es'))"
        by (simp_all only: map_append sorted_wrt_append)
      moreover have "set (take mn es') \<union> set (drop mn es') = set es'"
        by (metis append_take_drop_id set_append)
      ultimately show ?thesis using res False big m set' sorted_split_bounds [OF s' w' m] by simp
    qed
  qed
qed

lemma insert_child_ok:
  assumes "aligned_list lo hi ks cs" "i = length (takeWhile (\<lambda>k. k \<le> key) ks)"
    and "i < length cs" "key \<notin> fst ` set (concat (map pairs cs))"
    and al: "aligned_list lo hi (take i ks @ k # drop i ks) (take i cs @ l # r # drop (Suc i) cs)"
    and set: "set (pairs l) \<union> set (pairs r) = insert (key, row) (set (pairs (cs ! i)))"
  shows "ins_ok lo hi key row (set (concat (map pairs cs))) (insert_child mx ks cs i l k r)"
proof -
  define ks' where "ks' = take i ks @ k # drop i ks"
  define cs' where "cs' = take i cs @ l # r # drop (Suc i) cs"
  have al': "aligned_list lo hi ks' cs'" using al by (simp add: ks'_def cs'_def)
  have set': "set (concat (map pairs cs')) = insert (key, row) (set (concat (map pairs cs)))"
  proof -
    have "set (concat (map pairs cs)) = set (concat (map pairs (take i cs))) \<union> set (pairs (cs ! i))
        \<union> set (concat (map pairs (drop (Suc i) cs)))"
      using arg_cong [OF concat_map_update(1) [OF assms(3), of pairs], of set] by auto
    moreover have "set (concat (map pairs cs')) = set (concat (map pairs (take i cs))) \<union>
        (set (pairs l) \<union> set (pairs r)) \<union> set (concat (map pairs (drop (Suc i) cs)))"
      by (auto simp: cs'_def)
    ultimately show ?thesis using set by auto
  qed
  define s where "s = length ks' div 2"
  have s: "s < length ks'" by (simp add: s_def ks'_def)
  have "set (concat (map pairs (take (Suc s) cs'))) \<union> set (concat (map pairs (drop (Suc s) cs'))) =
      set (concat (map pairs cs'))"
    by (metis append_take_drop_id concat_append map_append set_append)
  then show ?thesis
    using aligned_list_split [OF al' s] assms(4) al' set'
    by (auto simp: insert_child_def Let_def ks'_def [symmetric] cs'_def [symmetric]
        s_def [symmetric] pairs_Inner)
qed

lemma insert_recursive_ok:
  assumes "aligned lo hi n" "within lo hi key" "0 < mn" "mn \<le> mx"
  shows "ins_ok lo hi key row (set (pairs n)) (insert_recursive cmp mx mn f n key row)"
  using assms(1,2)
proof (induction n arbitrary: lo hi)
  case (Leaf a es nx)
  then show ?case using insert_leaf_ok assms(3,4) by simp
next
  case (Inner ks cs)
  define i where "i = upper_bound cmp ks key"
  from Inner.prems have al: "aligned_list lo hi ks cs" by simp
  have i_eq: "i = length (takeWhile (\<lambda>k. k \<le> key) ks)"
    using upper_bound_aligned [OF al] by (simp add: i_def)
  obtain lo' hi' where sel: "i < length cs" "aligned lo' hi' (cs ! i)" "within lo' hi' key"
    "\<And>e. e \<in> set (concat (map pairs cs)) \<Longrightarrow> fst e = key \<Longrightarrow> e \<in> set (pairs (cs ! i))"
    "\<And>c'. aligned lo' hi' c' \<Longrightarrow> aligned_list lo hi ks (cs[i := c'])"
    "\<And>l k r. aligned lo' (Some k) l \<Longrightarrow> between lo' hi' k \<Longrightarrow> aligned (Some k) hi' r \<Longrightarrow>
       aligned_list lo hi (take i ks @ k # drop i ks) (take i cs @ l # r # drop (Suc i) cs)"
    using selected_child [OF al i_eq] Inner.prems(2) by metis
  have IH: "ins_ok lo' hi' key row (set (pairs (cs ! i))) (insert_recursive cmp mx mn f (cs ! i) key row)"
    by (rule Inner.IH [OF nth_mem [OF sel(1)] sel(2,3)])
  have keys: "key \<in> fst ` set (concat (map pairs cs)) \<longleftrightarrow> key \<in> fst ` set (pairs (cs ! i))"
  proof
    assume "key \<in> fst ` set (concat (map pairs cs))"
    then obtain e where "e \<in> set (concat (map pairs cs))" "fst e = key" by blast
    then have "e \<in> set (pairs (cs ! i))" "fst e = key" using sel(4) by blast+
    then show "key \<in> fst ` set (pairs (cs ! i))" by blast
  next
    assume "key \<in> fst ` set (pairs (cs ! i))"
    then show "key \<in> fst ` set (concat (map pairs cs))" using nth_mem [OF sel(1)] by auto
  qed
  show ?case
  proof (cases "insert_recursive cmp mx mn f (cs ! i) key row")
    case InsDup
    then show ?thesis using IH sel(1) keys by (simp add: i_def pairs_Inner)
  next
    case (InsDone c)
    have "set (concat (map pairs (cs[i := c]))) = insert (key, row) (set (concat (map pairs cs)))"
      using IH InsDone arg_cong [OF concat_map_update(1) [OF sel(1), of pairs], of set]
        arg_cong [OF concat_map_update(2) [OF sel(1), of pairs c], of set] by auto
    then show ?thesis using IH InsDone sel(1,5) keys by (simp add: i_def [symmetric] pairs_Inner)
  next
    case (InsSplit l k r)
    have "ins_ok lo hi key row (set (concat (map pairs cs))) (insert_child mx ks cs i l k r)"
      by (rule insert_child_ok [OF al i_eq sel(1)]) (use IH InsSplit keys sel(6) in auto)
    then show ?thesis using InsSplit sel(1) by (simp add: i_def [symmetric] pairs_Inner)
  qed (use IH in simp)
qed

end

text \<open>Insertion keeps the links and the addresses, the sizes, and the height.\<close>

fun res_leaves :: "'k leaf list \<Rightarrow> 'k insert_result \<Rightarrow> 'k leaf list" where
  "res_leaves ls (InsDone n) = leaves n"
| "res_leaves ls (InsSplit l k r) = leaves l @ leaves r"
| "res_leaves ls _ = ls"

fun res_nodes :: "'k insert_result \<Rightarrow> 'k bpnode list" where
  "res_nodes (InsDone n) = [n]"
| "res_nodes (InsSplit l k r) = [l, r]"
| "res_nodes _ = []"

lemma insert_child_leaves:
  "res_leaves ls (insert_child mx ks cs i l k r) =
     concat (map leaves (take i cs)) @ (leaves l @ leaves r) @ concat (map leaves (drop (Suc i) cs))"
proof -
  define cs' where "cs' = take i cs @ l # r # drop (Suc i) cs"
  have "concat (map leaves (take m cs')) @ concat (map leaves (drop m cs')) = concat (map leaves cs')" for m
    by (metis append_take_drop_id concat_append map_append)
  then have "res_leaves ls (insert_child mx ks cs i l k r) = concat (map leaves cs')"
    by (simp add: insert_child_def Let_def cs'_def [symmetric])
  then show ?thesis by (simp add: cs'_def)
qed

lemma insert_leaf_links:
  "link_refines (leaves (Leaf a es nx)) (res_leaves (leaves (Leaf a es nx)) (insert_leaf cmp mx mn f a es nx key row))"
  by (auto simp: insert_leaf_def Let_def link_refines_def)

lemma link_refines_leaves_refl: "ls \<noteq> [] \<Longrightarrow> link_refines ls ls"
  by (simp add: link_refines_def)

lemma insert_recursive_links:
  assumes "aligned lo hi n"
  shows "link_refines (leaves n) (res_leaves (leaves n) (insert_recursive cmp mx mn f n key row))"
  using assms
proof (induction n arbitrary: lo hi)
  case (Leaf a es nx)
  then show ?case using insert_leaf_links by simp
next
  case (Inner ks cs)
  define i where "i = upper_bound cmp ks key"
  have ne: "leaves (Inner ks cs) \<noteq> []" using aligned_leaves_nonempty(1) [OF Inner.prems] .
  show ?case
  proof (cases "i < length cs")
    case True
    obtain lo' hi' where "aligned lo' hi' (cs ! i)"
      using Inner.prems aligned_list_child nth_mem [OF True] by (metis aligned.simps(2))
    from Inner.IH [OF nth_mem [OF True] this] show ?thesis
      using True concat_map_update [OF True, of leaves] link_refines_leaves_refl [OF ne]
      by (cases "insert_recursive cmp mx mn f (cs ! i) key row")
        (simp_all add: i_def [symmetric] insert_child_leaves link_refines_append del: append_assoc)
  qed (use link_refines_leaves_refl [OF ne] in \<open>simp add: i_def\<close>)
qed

lemma insert_recursive_addrs:
  "f \<notin> set (addrs (leaves n)) \<Longrightarrow> distinct (addrs (leaves n)) \<Longrightarrow>
     distinct (addrs (res_leaves (leaves n) (insert_recursive cmp mx mn f n key row))) \<and>
     set (addrs (res_leaves (leaves n) (insert_recursive cmp mx mn f n key row)))
       \<subseteq> insert f (set (addrs (leaves n)))"
proof (induction n)
  case (Leaf a es nx)
  then show ?case by (auto simp: insert_leaf_def Let_def)
next
  case (Inner ks cs)
  define i where "i = upper_bound cmp ks key"
  show ?case
  proof (cases "i < length cs")
    case True
    define r where "r = insert_recursive cmp mx mn f (cs ! i) key row"
    note cu = concat_map_update [OF True, of leaves]
    have IH: "distinct (addrs (res_leaves (leaves (cs ! i)) r)) \<and>
        set (addrs (res_leaves (leaves (cs ! i)) r)) \<subseteq> insert f (set (addrs (leaves (cs ! i))))"
      unfolding r_def by (rule Inner.IH [OF nth_mem [OF True]]) (use Inner.prems cu(1) in auto)
    show ?thesis
      using IH True Inner.prems cu
      by (cases r) (auto simp: r_def [symmetric] i_def [symmetric] insert_child_leaves)
  qed (use Inner.prems in \<open>auto simp: i_def\<close>)
qed

lemma insert_child_sized:
  assumes "length ks \<le> mx" "\<forall>c\<in>set cs. sized mx c" "sized mx l" "sized mx r"
  shows "\<forall>m\<in>set (res_nodes (insert_child mx ks cs i l k r)). sized mx m"
proof -
  define ks' where "ks' = take i ks @ k # drop i ks"
  define cs' where "cs' = take i cs @ l # r # drop (Suc i) cs"
  have "length ks' = Suc (length ks)" by (simp add: ks'_def min_def)
  moreover have "\<forall>c\<in>set cs'. sized mx c"
    using assms by (auto simp: cs'_def dest: in_set_takeD in_set_dropD)
  ultimately show ?thesis using assms(1)
    by (auto simp: insert_child_def Let_def ks'_def [symmetric] cs'_def [symmetric]
        dest: in_set_takeD in_set_dropD)
qed

lemma insert_recursive_sized:
  assumes "sized mx n" "0 < mn" "mn \<le> mx"
  shows "\<forall>m\<in>set (res_nodes (insert_recursive cmp mx mn f n key row)). sized mx m"
  using assms(1)
proof (induction n)
  case (Leaf a es nx)
  then show ?case using assms(2,3) by (auto simp: insert_leaf_def Let_def)
next
  case (Inner ks cs)
  define i where "i = upper_bound cmp ks key"
  show ?case
  proof (cases "i < length cs")
    case True
    then have IH: "\<forall>m\<in>set (res_nodes (insert_recursive cmp mx mn f (cs ! i) key row)). sized mx m"
      using Inner.IH [OF nth_mem [OF True]] Inner.prems by simp
    show ?thesis
    proof (cases "insert_recursive cmp mx mn f (cs ! i) key row")
      case (InsDone c)
      then have "\<forall>m\<in>set (cs[i := c]). sized mx m"
        using IH Inner.prems set_update_subset_insert [of cs i c] by auto
      then show ?thesis using InsDone True Inner.prems by (simp add: i_def [symmetric])
    next
      case (InsSplit l k r)
      then show ?thesis using IH True Inner.prems insert_child_sized [of ks mx cs l r i k]
        by (simp add: i_def [symmetric])
    qed (use True in \<open>simp_all add: i_def [symmetric]\<close>)
  qed (simp add: i_def)
qed

lemma insert_recursive_height:
  "height_is h n \<Longrightarrow> \<forall>m\<in>set (res_nodes (insert_recursive cmp mx mn f n key row)). height_is h m"
proof (induction n arbitrary: h)
  case (Leaf a es nx)
  then show ?case by (auto simp: insert_leaf_def Let_def)
next
  case (Inner ks cs)
  define i where "i = upper_bound cmp ks key"
  show ?case
  proof (cases "i < length cs")
    case True
    then have IH: "\<forall>m\<in>set (res_nodes (insert_recursive cmp mx mn f (cs ! i) key row)). height_is (h - 1) m"
      using Inner.IH [OF nth_mem [OF True], of "h - 1"] Inner.prems by simp
    have child: "\<forall>m\<in>set (res_nodes (insert_child mx ks cs i l k r)). height_is h m"
      if "height_is (h - 1) l" "height_is (h - 1) r" for l k r
      using that Inner.prems
      by (auto simp: insert_child_def Let_def dest!: in_set_takeD in_set_dropD)
    show ?thesis using IH True Inner.prems child
      by (cases "insert_recursive cmp mx mn f (cs ! i) key row")
        (auto simp: i_def [symmetric] dest: set_update_subset_insert [THEN subsetD])
  qed (simp add: i_def)
qed

lemma tree_order_bounds: "8 \<le> tree_order t" "tree_order t \<le> BPTREE_MAX_ORDER"
  by (simp_all add: tree_order_def normalize_order_def BPTREE_MAX_ORDER_def)

lemma tree_key_bounds: "0 < tree_min_leaf_keys t" "tree_min_leaf_keys t \<le> tree_max_keys t"
  "7 \<le> tree_max_keys t"
  using tree_order_bounds(1) [of t] by (auto simp: tree_min_leaf_keys_def tree_max_keys_def)

lemma height_is_unique: "height_is h n \<Longrightarrow> aligned lo hi n \<Longrightarrow> tree_height n = h"
proof (induction n arbitrary: h lo hi rule: tree_height.induct)
  case (3 ks c cs)
  then obtain lo' hi' where "aligned lo' hi' c" using aligned_list_child [of lo hi ks "c # cs" c] by auto
  with 3 show ?case by fastforce
qed auto

lemma tree_order_cong: "order t' = order t \<Longrightarrow> tree_max_keys t' = tree_max_keys t"
  by (simp add: tree_max_keys_def tree_order_def)

lemma tree_inv_sorted: "tree_inv t \<Longrightarrow> sorted_wrt (<) (map fst (pairs (root t)))"
  by (auto simp: tree_inv_def intro: aligned_sorted)

context key_compare
begin

abbreviation ins :: "'k bptree \<Rightarrow> 'k \<Rightarrow> int \<Rightarrow> 'k insert_result" where
  "ins t key row \<equiv> insert_recursive cmp (tree_max_keys t) (tree_min_leaf_keys t) (next_addr t)
     (root t) key row"

lemma ins_result_ok:
  "tree_inv t \<Longrightarrow> ins_ok None None key row (set (pairs (root t))) (ins t key row)"
  using insert_recursive_ok [of None None "root t"] tree_key_bounds [of t] by (simp add: tree_inv_def)

lemma tree_insert_inv:
  assumes inv: "tree_inv t"
    and res: "tree_insert_result t (ins t key row) = Some (rc, t')"
  shows "tree_inv t'"
proof -
  let ?ls = "leaves (root t)"
  note ok = ins_result_ok [OF inv, of key row]
  have al: "aligned None None (root t)" and sz: "sized (tree_max_keys t) (root t)"
    and fresh: "next_addr t \<notin> set (addrs ?ls)" and dist: "distinct (addrs ?ls)"
    and ht: "height_is (tree_height (root t)) (root t)" using inv by (auto simp: tree_inv_def)
  have links: "linked_to (res_leaves ?ls (ins t key row)) None"
    using insert_recursive_links [OF al] inv by (simp add: tree_inv_def link_refines_def)
  note addr = insert_recursive_addrs [OF fresh dist, of cmp "tree_max_keys t" "tree_min_leaf_keys t" key row]
  have bound: "\<forall>a\<in>set (addrs (res_leaves ?ls (ins t key row))). a < Suc (next_addr t)"
    using addr inv by (fastforce simp: tree_inv_def)
  note size = insert_recursive_sized [OF sz tree_key_bounds(1,2) [of t], of cmp "next_addr t" key row]
  note height = insert_recursive_height [OF ht, of cmp "tree_max_keys t" "tree_min_leaf_keys t"
      "next_addr t" key row]
  show ?thesis
  proof (cases "ins t key row")
    case (InsDone n)
    have t': "t' = t\<lparr>root := n, next_addr := Suc (next_addr t)\<rparr>"
      using res InsDone by (simp add: tree_insert_result_def)
    have "aligned None None n" using ok InsDone by simp
    moreover have "height_is (tree_height (root t)) n" "sized (tree_max_keys t) n"
      using height size InsDone by auto
    ultimately show ?thesis using links addr bound InsDone height_is_unique [of _ n None None]
      by (simp add: t' tree_inv_def tree_max_keys_def tree_order_def)
  next
    case (InsSplit l k r)
    have t': "t' = t\<lparr>root := Inner [k] [l, r], next_addr := Suc (next_addr t)\<rparr>"
      using res InsSplit by (simp add: tree_insert_result_def)
    have al': "aligned None (Some k) l" "aligned (Some k) None r" "between None None k"
      using ok InsSplit by auto
    have ht': "height_is (tree_height (root t)) l" "height_is (tree_height (root t)) r"
      using height InsSplit by auto
    have "0 < tree_height (root t)" by (cases "root t" rule: tree_height.cases) auto
    then have "height_is (tree_height (Inner [k] [l, r])) (Inner [k] [l, r])"
      using ht' height_is_unique [OF ht'(1) al'(1)] by simp
    then show ?thesis using links addr bound size InsSplit al' tree_key_bounds(3) [of t]
      by (simp add: t' tree_inv_def tree_max_keys_def tree_order_def)
  qed (use res inv in \<open>auto simp: tree_insert_result_def\<close>)
qed

text \<open>Insertion as an update of the sorted list of pairs: it fails exactly on a duplicate key.\<close>

lemma tree_insert_pairs:
  assumes inv: "tree_inv t"
  obtains rc t' where "tree_insert_result t (ins t key row) = Some (rc, t')" "tree_inv t'"
    "rc = (if key \<in> fst ` set (pairs (root t)) then 0 else 1)"
    "set (pairs (root t')) =
       (if key \<in> fst ` set (pairs (root t)) then set (pairs (root t))
        else insert (key, row) (set (pairs (root t))))"
    "order t' = order t"
proof -
  note ok = ins_result_ok [OF inv, of key row]
  obtain rc t' where r: "tree_insert_result t (ins t key row) = Some (rc, t')"
    using ok by (cases "ins t key row") (auto simp: tree_insert_result_def)
  show ?thesis
  proof (rule that [OF r tree_insert_inv [OF inv r]])
    show "rc = (if key \<in> fst ` set (pairs (root t)) then 0 else 1)"
      using ok r by (cases "ins t key row") (auto simp: tree_insert_result_def)
    show "set (pairs (root t')) =
       (if key \<in> fst ` set (pairs (root t)) then set (pairs (root t))
        else insert (key, row) (set (pairs (root t))))"
      using ok r by (cases "ins t key row") (auto simp: tree_insert_result_def pairs_Inner)
    show "order t' = order t"
      using ok r by (cases "ins t key row") (auto simp: tree_insert_result_def)
  qed
qed

end

subsection \<open>The string tree inserts as the generic code does\<close>

lemma bound_loop_le: "lo \<le> hi \<Longrightarrow> bound_loop p keys lo hi \<le> hi"
proof (induction p keys lo hi rule: bound_loop.induct)
  case (1 p keys lo hi)
  then show ?case by (auto simp: bound_loop.simps [of p keys lo hi] Let_def intro: order_trans)
qed

lemma lower_bound_le: "lower_bound cmp keys key \<le> length keys"
  by (simp add: lower_bound_def bound_loop_le)

lemma string_separator_eq:
  assumes "i \<le> length es" "mn \<le> length es"
  shows "fst (drop mn (take i es @ (key, row) # drop i es) ! 0) = string_separator mn es i key"
proof -
  have "drop mn (take i es @ (key, row) # drop i es) ! 0 = (take i es @ (key, row) # drop i es) ! mn"
    using assms nth_drop [of mn "take i es @ (key, row) # drop i es" 0] by (simp del: drop_append)
  also have "fst \<dots> = string_separator mn es i key"
    using assms by (cases mn) (auto simp: string_separator_def nth_append nth_Cons')
  finally show ?thesis .
qed

lemma string_insert_leaf_eq:
  assumes "mn \<le> mx"
  shows "string_insert_leaf mx mn f a es nx key row = insert_leaf strcmp mx mn f a es nx key row"
proof -
  have i: "lower_bound strcmp (map fst es) key \<le> length es"
    using lower_bound_le [of strcmp "map fst es" key] by simp
  show ?thesis
    using assms string_separator_eq [OF i, of mn key row]
    by (auto simp: string_insert_leaf_def insert_leaf_def Let_def lower_bound_string_eq)
qed

lemma string_insert_recursive_eq:
  "mn \<le> mx \<Longrightarrow> string_insert_recursive mx mn f n key row = insert_recursive strcmp mx mn f n key row"
proof (induction n)
  case (Inner ks cs)
  then show ?case
    unfolding string_insert_recursive.simps insert_recursive.simps upper_bound_string_eq
    by (cases "upper_bound strcmp ks key < length cs") simp_all
qed (simp add: string_insert_leaf_eq)

lemma bptree_string_insert_generic:
  "key \<noteq> [] \<Longrightarrow> bptree_string_insert t key row =
     tree_insert_result t (insert_recursive strcmp (tree_max_keys t) (tree_min_leaf_keys t)
       (next_addr t) (root t) key row)"
  by (simp add: bptree_string_insert_def string_insert_recursive_eq tree_key_bounds)

subsection \<open>Deletion\<close>

definition skel :: "'k leaf list \<Rightarrow> (nat \<times> nat option) list" where
  "skel ls = map (\<lambda>l. (fst l, snd (snd l))) ls"

lemma skel_append [simp]: "skel (xs @ ys) = skel xs @ skel ys"
  by (simp add: skel_def)

lemma linked_to_skel: "skel ls = skel ls' \<Longrightarrow> linked_to ls e \<Longrightarrow> linked_to ls' e"
proof (induction ls arbitrary: ls')
  case (Cons l ls)
  then obtain l' ls'' where ls': "ls' = l' # ls''" "fst l' = fst l" "snd (snd l') = snd (snd l)"
    "skel ls'' = skel ls" by (cases ls') (auto simp: skel_def)
  show ?case
  proof (cases ls)
    case Nil
    then show ?thesis using Cons.prems ls' by (cases l; cases l') (auto simp: skel_def)
  next
    case (Cons m ms)
    then obtain m' ms' where m: "ls'' = m' # ms'" "fst m' = fst m"
      using ls'(4) by (cases ls'') (auto simp: skel_def)
    then show ?thesis using Cons.IH [of ls''] Cons.prems(2) ls' Cons
      by (cases l; cases l') simp
  qed
qed simp

lemma addrs_skel: "addrs ls = map fst (skel ls)"
  by (simp add: addrs_def skel_def)

lemma distinct_fst_mid:
  assumes "distinct (map fst (xs @ ys @ zs))" "e \<in> set xs \<union> set zs"
  shows "e \<notin> set ys"
proof
  assume "e \<in> set ys"
  then have "fst e \<in> fst ` set ys" by simp
  moreover have "fst e \<in> fst ` set xs \<or> fst e \<in> fst ` set zs" using assms(2) by auto
  ultimately show False using assms(1) unfolding map_append distinct_append set_append set_map by blast
qed

lemma remove_at_lower_bound:
  fixes key :: "'k::linorder"
  assumes "sorted_wrt (<) (map fst es)" "i = length (takeWhile (\<lambda>k. k < key) (map fst es))"
    and "i < length es" "fst (es ! i) = key"
  shows "take i es @ drop (Suc i) es = filter (\<lambda>e. fst e \<noteq> key) es"
  using assms
proof (induction es arbitrary: i)
  case (Cons e es)
  show ?case
  proof (cases "fst e < key")
    case True
    then show ?thesis using Cons by auto
  next
    case False
    then have i: "i = 0" using Cons.prems(2) by simp
    then have "fst e = key" using Cons.prems(4) by simp
    moreover have "\<forall>x\<in>set es. fst x \<noteq> key" using Cons.prems(1) calculation by force
    ultimately show ?thesis using i by simp
  qed
qed simp

context key_compare
begin

lemma delete_leaf_eq:
  assumes "sorted_wrt (<) (map fst es)"
  shows "delete_leaf cmp es key = (key \<in> fst ` set es, filter (\<lambda>e. fst e \<noteq> key) es)"
proof -
  define i where "i = length (takeWhile (\<lambda>k. k < key) (map fst es))"
  note at = key_at_lower_bound [OF assms i_def]
  have lb: "lower_bound cmp (map fst es) key = i" by (simp add: i_def lower_bound_eq assms)
  show ?thesis
  proof (cases "key \<in> fst ` set es")
    case True
    then show ?thesis using at remove_at_lower_bound [OF assms i_def]
      by (simp add: delete_leaf_def lb cmp_eq)
  next
    case False
    then have "filter (\<lambda>e. fst e \<noteq> key) es = es" by (auto simp: filter_id_conv)
    then show ?thesis using False at by (simp add: delete_leaf_def lb cmp_eq)
  qed
qed

lemma delete_node_spec:
  "aligned lo hi n \<Longrightarrow> \<exists>n'. delete_node cmp n key = Some (key \<in> fst ` set (pairs n), n') \<and>
     aligned lo hi n' \<and> set (pairs n') = {e \<in> set (pairs n). fst e \<noteq> key} \<and>
     skel (leaves n') = skel (leaves n) \<and> (\<forall>mx. sized mx n \<longrightarrow> sized mx n') \<and>
     (\<forall>h. height_is h n \<longrightarrow> height_is h n')"
proof (induction n arbitrary: lo hi)
  case (Leaf a es nx)
  then have "sorted_wrt (<) (map fst (filter (\<lambda>e. fst e \<noteq> key) es))"
    by (auto intro: sorted_wrt_filter simp: sorted_wrt_map)
  then show ?case using Leaf by (auto simp: delete_leaf_eq skel_def intro: le_trans [OF length_filter_le])
next
  case (Inner ks cs)
  define i where "i = upper_bound cmp ks key"
  from Inner.prems have al: "aligned_list lo hi ks cs" by simp
  obtain lo' hi' where sel: "i < length cs" "aligned lo' hi' (cs ! i)"
    "\<And>e. e \<in> set (concat (map pairs cs)) \<Longrightarrow> fst e = key \<Longrightarrow> e \<in> set (pairs (cs ! i))"
    "\<And>c'. aligned lo' hi' c' \<Longrightarrow> aligned_list lo hi ks (cs[i := c'])"
    using selected_child [OF al upper_bound_aligned [OF al, of key]] unfolding i_def by metis
  obtain c where c: "delete_node cmp (cs ! i) key = Some (key \<in> fst ` set (pairs (cs ! i)), c)"
    "aligned lo' hi' c" "set (pairs c) = {e \<in> set (pairs (cs ! i)). fst e \<noteq> key}"
    "skel (leaves c) = skel (leaves (cs ! i))" "\<forall>mx. sized mx (cs ! i) \<longrightarrow> sized mx c"
    "\<forall>h. height_is h (cs ! i) \<longrightarrow> height_is h c"
    using Inner.IH [OF nth_mem [OF sel(1)] sel(2)] by blast
  define A where "A = set (concat (map pairs (take i cs)))"
  define B where "B = set (concat (map pairs (drop (Suc i) cs)))"
  have old: "set (concat (map pairs cs)) = A \<union> set (pairs (cs ! i)) \<union> B"
    using arg_cong [OF concat_map_update(1) [OF sel(1), of pairs], of set] by (auto simp: A_def B_def)
  have new: "set (concat (map pairs (cs[i := c]))) = A \<union> set (pairs c) \<union> B"
    using arg_cong [OF concat_map_update(2) [OF sel(1), of pairs c], of set] by (auto simp: A_def B_def)
  have "distinct (map fst (concat (map pairs cs)))"
    using sorted_distinct_fst [OF aligned_sorted(2) [OF al]] .
  then have "e \<notin> set (pairs (cs ! i))" if "e \<in> A \<union> B" for e
    using that unfolding concat_map_update(1) [OF sel(1), of pairs] A_def B_def
    by (rule distinct_fst_mid)
  then have "fst e \<noteq> key" if "e \<in> A \<union> B" for e using sel(3) [of e] that old by blast
  then have set_eq: "set (pairs (Inner ks (cs[i := c]))) = {e \<in> set (pairs (Inner ks cs)). fst e \<noteq> key}"
    unfolding pairs_Inner old new c(3) by blast
  have keys: "key \<in> fst ` set (pairs (Inner ks cs)) \<longleftrightarrow> key \<in> fst ` set (pairs (cs ! i))"
  proof
    assume "key \<in> fst ` set (pairs (Inner ks cs))"
    then obtain e where "e \<in> set (concat (map pairs cs))" "fst e = key" by (auto simp: pairs_Inner)
    with sel(3) show "key \<in> fst ` set (pairs (cs ! i))" by blast
  qed (use old in \<open>auto simp: pairs_Inner\<close>)
  have sk: "skel (leaves (Inner ks (cs[i := c]))) = skel (leaves (Inner ks cs))"
    using concat_map_update [OF sel(1), of leaves] c(4) by simp
  have sz: "sized mx (Inner ks (cs[i := c]))" if "sized mx (Inner ks cs)" for mx
    using that c(5) sel(1) set_update_subset_insert [of cs i c] by auto
  have ht: "height_is h (Inner ks (cs[i := c]))" if "height_is h (Inner ks cs)" for h
    using that c(6) sel(1) set_update_subset_insert [of cs i c] by auto
  have "delete_node cmp (Inner ks cs) key = Some (key \<in> fst ` set (pairs (Inner ks cs)), Inner ks (cs[i := c]))"
    using c(1) sel(1) keys by (simp add: i_def [symmetric])
  then show ?case using set_eq sk sz ht sel(4) [OF c(2)] by auto
qed

lemma tree_delete_spec:
  assumes "tree_inv t"
  shows "\<exists>n'. delete_node cmp (root t) key = Some (key \<in> fst ` set (pairs (root t)), n') \<and>
    tree_inv (t\<lparr>root := n'\<rparr>) \<and> set (pairs n') = {e \<in> set (pairs (root t)). fst e \<noteq> key}"
proof -
  obtain n' where n': "delete_node cmp (root t) key = Some (key \<in> fst ` set (pairs (root t)), n')"
    "aligned None None n'" "set (pairs n') = {e \<in> set (pairs (root t)). fst e \<noteq> key}"
    "skel (leaves n') = skel (leaves (root t))" "sized (tree_max_keys t) n'"
    "height_is (tree_height (root t)) n'"
    using delete_node_spec [of None None "root t" key] assms by (auto simp: tree_inv_def)
  have "tree_inv (t\<lparr>root := n'\<rparr>)"
    using assms n' linked_to_skel [OF n'(4) [symmetric]] height_is_unique [OF n'(6,2)]
    by (simp add: tree_inv_def addrs_skel tree_max_keys_def tree_order_def)
  with n' show ?thesis by blast
qed

end

subsection \<open>The interface of an index\<close>

text \<open>
  What the tables rely on: an index maps keys to row numbers, starts empty, refuses a key it
  already holds, and answers point and range queries from the sorted list of its entries.
  \<open>valid\<close> are the keys the index accepts.
\<close>

locale ordered_index =
  fixes empty :: 't
    and insert :: "'t \<Rightarrow> 'k::linorder \<Rightarrow> int \<Rightarrow> (int \<times> 't) option"
    and search :: "'t \<Rightarrow> 'k \<Rightarrow> lookup_result"
    and range :: "'t \<Rightarrow> 'k \<Rightarrow> 'k \<Rightarrow> ('k, 's) visitor \<Rightarrow> 's \<Rightarrow> (bool \<times> 's) option"
    and entries :: "'t \<Rightarrow> ('k \<times> int) list"
    and inv :: "'t \<Rightarrow> bool"
    and valid :: "'k \<Rightarrow> bool"
  assumes inv_empty: "inv empty"
    and entries_empty: "entries empty = []"
    and entries_sorted: "inv t \<Longrightarrow> sorted_wrt (<) (map fst (entries t))"
    and insert_spec: "inv t \<Longrightarrow> valid k \<Longrightarrow> \<exists>t'. inv t' \<and>
      insert t k r = Some (if k \<in> fst ` set (entries t) then 0 else 1, t') \<and>
      set (entries t') = (if k \<in> fst ` set (entries t) then set (entries t)
                          else Set.insert (k, r) (set (entries t)))"
    and search_spec: "inv t \<Longrightarrow> search t k =
      (case map_of (entries t) k of None \<Rightarrow> Absent | Some r \<Rightarrow> Found r)"
    and range_spec: "inv t \<Longrightarrow> range t lo hi vis s =
      Some (visit_all vis (filter (\<lambda>e. lo \<le> fst e \<and> fst e \<le> hi) (entries t)) s)"
begin

lemma search_Found_iff: "inv t \<Longrightarrow> search t k = Found r \<longleftrightarrow> (k, r) \<in> set (entries t)"
  using map_of_eq_Some_iff [OF sorted_distinct_fst [OF entries_sorted, of t], of k r]
  by (cases "map_of (entries t) k") (auto simp: search_spec)

lemma search_Absent_iff: "inv t \<Longrightarrow> search t k = Absent \<longleftrightarrow> k \<notin> fst ` set (entries t)"
  using map_of_eq_None_iff [of "entries t" k] by (auto simp: search_spec split: option.splits)

lemma search_not_Wild: "inv t \<Longrightarrow> search t k \<noteq> Wild"
  by (simp add: search_spec split: option.splits)

lemma insert_new:
  "inv t \<Longrightarrow> valid k \<Longrightarrow> k \<notin> fst ` set (entries t) \<Longrightarrow>
     \<exists>t'. insert t k r = Some (1, t') \<and> inv t' \<and> set (entries t') = Set.insert (k, r) (set (entries t))"
  using insert_spec [of t k r] by auto

lemma search_eqI:
  assumes "inv t" "inv t'" "\<And>x. (k, x) \<in> set (entries t') \<longleftrightarrow> (k, x) \<in> set (entries t)"
  shows "search t' k = search t k"
proof (cases "search t k")
  case (Found x)
  then show ?thesis using assms(3) [of x] search_Found_iff [OF assms(1), of k x] search_Found_iff [OF assms(2), of k x] by simp
next
  case Absent
  then have "k \<notin> fst ` set (entries t')" using search_Absent_iff [OF assms(1), of k] assms(3) by force
  then show ?thesis using search_Absent_iff [OF assms(2), of k] Absent by simp
next
  case Wild
  then show ?thesis using search_not_Wild [OF assms(1), of k] by simp
qed

lemma search_empty: "search empty k = Absent"
  by (simp add: search_spec inv_empty entries_empty)

text \<open>What a lookup returns after an insertion.\<close>

lemma search_insert:
  assumes "inv t" "valid k"
  shows "\<exists>t'. insert t k r = Some (if search t k = Absent then 1 else 0, t') \<and> inv t' \<and>
    (\<forall>k'. search t' k' = (if k' = k \<and> search t k = Absent then Found r else search t k'))"
proof -
  obtain t' where t': "inv t'" "insert t k r = Some (if k \<in> fst ` set (entries t) then 0 else 1, t')"
    "set (entries t') = (if k \<in> fst ` set (entries t) then set (entries t) else Set.insert (k, r) (set (entries t)))"
    using insert_spec [OF assms, of r] by blast
  have ab: "search t k = Absent \<longleftrightarrow> k \<notin> fst ` set (entries t)" by (rule search_Absent_iff [OF assms(1)])
  have "search t' k' = (if k' = k \<and> search t k = Absent then Found r else search t k')" for k'
  proof (cases "k' = k \<and> search t k = Absent")
    case True
    then have "(k', r) \<in> set (entries t')" using t'(3) ab by auto
    then show ?thesis using search_Found_iff [OF t'(1), of k' r] True by simp
  next
    case False
    have "(k', x) \<in> set (entries t') \<longleftrightarrow> (k', x) \<in> set (entries t)" for x using t'(3) ab False by auto
    then have "search t' k' = search t k'" by (rule search_eqI [OF assms(1) t'(1)])
    then show ?thesis using False by simp
  qed
  then show ?thesis using t'(1,2) ab by auto
qed

lemma insert_1_iff:
  "inv t \<Longrightarrow> valid k \<Longrightarrow> (\<exists>t'. insert t k r = Some (1, t')) \<longleftrightarrow> k \<notin> fst ` set (entries t)"
proof -
  assume "inv t" "valid k"
  then obtain t' where "insert t k r = Some (if k \<in> fst ` set (entries t) then 0 else 1, t')"
    using insert_spec [of t k r] by blast
  then show ?thesis by simp
qed

end

lemma tree_inv_create: "tree_inv \<lparr>root = Leaf 0 [] None, order = ord, next_addr = 1\<rparr>"
  by (simp add: tree_inv_def)

context key_compare
begin

lemma tree_search_inv:
  "tree_inv t \<Longrightarrow> tree_search cmp t key =
     (case map_of (pairs (root t)) key of None \<Rightarrow> Absent | Some v \<Rightarrow> Found v)"
  by (simp add: tree_inv_def tree_search_map_of)

lemma tree_range_inv:
  "tree_inv t \<Longrightarrow> tree_range_search cmp t lo hi vis s =
     Some (visit_all vis (filter (\<lambda>e. lo \<le> fst e \<and> fst e \<le> hi) (pairs (root t))) s)"
  by (rule tree_range_search_visit) (simp_all add: tree_inv_def)

lemma tree_insert_ex:
  "tree_inv t \<Longrightarrow> \<exists>t'. tree_inv t' \<and>
     tree_insert_result t (ins t k r) = Some (if k \<in> fst ` set (pairs (root t)) then 0 else 1, t') \<and>
     set (pairs (root t')) = (if k \<in> fst ` set (pairs (root t)) then set (pairs (root t))
        else insert (k, r) (set (pairs (root t))))"
  by (rule tree_insert_pairs [of t k r]) auto

end

interpretation pk: ordered_index bptree_create bptree_insert bptree_search bptree_range_search
  "\<lambda>t. pairs (root t)" tree_inv "\<lambda>_. True"
proof unfold_locales
  show "tree_inv bptree_create" unfolding bptree_create_def by (rule tree_inv_create)
  show "pairs (root bptree_create) = []" by (simp add: bptree_create_def)
  show "sorted_wrt (<) (map fst (pairs (root t)))" if "tree_inv t" for t :: "int bptree"
    using that by (rule tree_inv_sorted)
qed (simp_all add: long.tree_insert_ex bptree_insert_def bptree_search_def bptree_range_search_def
    long.tree_search_inv long.tree_range_inv)

interpretation uk: ordered_index bptree_string_create bptree_string_insert bptree_string_search bptree_string_range_search
  "\<lambda>t. pairs (root t)" tree_inv "\<lambda>k. k \<noteq> []"
proof unfold_locales
  show "tree_inv bptree_string_create" unfolding bptree_string_create_def by (rule tree_inv_create)
  show "pairs (root bptree_string_create) = []" by (simp add: bptree_string_create_def)
  show "sorted_wrt (<) (map fst (pairs (root t)))" if "tree_inv t" for t :: "string bptree"
    using that by (rule tree_inv_sorted)
qed (simp_all add: str.tree_insert_ex bptree_string_insert_generic bptree_string_search_def bptree_string_range_search_def
    str.tree_search_inv str.tree_range_inv)

subsection \<open>Properties of the index\<close>

text \<open>
  C5. Inserting into a well-formed tree returns 1 for a new key and 0 for a key that is there,
  keeps the tree well-formed, and afterwards a lookup finds the new row number under a
  new key and what it found before under every other key.
\<close>

theorem bptree_insert_search:
  assumes "tree_inv t"
  shows "\<exists>t'. bptree_insert t key row = Some (if bptree_search t key = Absent then 1 else 0, t') \<and> tree_inv t' \<and>
    (\<forall>k. bptree_search t' k = (if k = key \<and> bptree_search t key = Absent then Found row else bptree_search t k))"
  using pk.search_insert [OF assms, of key row] by simp

theorem bptree_insert_search_witness:
  "\<exists>t'. bptree_insert bptree_create 5 70 = Some (1, t') \<and> bptree_search t' 5 = Found 70 \<and> bptree_search t' 6 = Absent"
  using bptree_insert_search [OF pk.inv_empty, of 5 70] by (auto simp: pk.search_empty)

text \<open>
  The string index agrees with the integer index: for a key that is not empty, insertion
  and lookup behave as for integers, although its separators are chosen by a different code
  path; the empty key is refused with -1 and changes nothing.
\<close>

theorem bptree_string_insert_search:
  assumes "tree_inv t"
  shows "\<exists>r t'. bptree_string_insert t key row = Some (r, t') \<and> tree_inv t' \<and>
    r = (if key = [] then - 1 else if bptree_string_search t key = Absent then 1 else 0) \<and>
    (\<forall>k. bptree_string_search t' k = (if r = 1 \<and> k = key then Found row else bptree_string_search t k))"
proof (cases "key = []")
  case True
  then show ?thesis using assms by (simp add: bptree_string_insert_def)
next
  case False
  then show ?thesis using uk.search_insert [OF assms, of key row] by auto
qed

theorem bptree_string_insert_search_witness:
  "\<exists>t'. bptree_string_insert bptree_string_create ''ann'' 3 = Some (1, t') \<and> bptree_string_search t' ''ann'' = Found 3"
  using bptree_string_insert_search [OF uk.inv_empty, of "''ann''" 3] by (auto simp: uk.search_empty)

text \<open>
  A range search offers the visitor exactly the entries whose keys are between the bounds,
  once each and in increasing order of the keys, until the visitor refuses one.
\<close>

theorem bptree_range_search_sorted:
  assumes "tree_inv t"
  shows "\<exists>es. bptree_range_search t lo hi vis s = Some (visit_all vis es s) \<and> sorted_wrt (<) (map fst es) \<and>
    (\<forall>k r. (k, r) \<in> set es \<longleftrightarrow> lo \<le> k \<and> k \<le> hi \<and> bptree_search t k = Found r)"
proof -
  let ?es = "filter (\<lambda>e. lo \<le> fst e \<and> fst e \<le> hi) (pairs (root t))"
  have "sorted_wrt (<) (map fst ?es)"
    using tree_inv_sorted [OF assms] by (auto simp: sorted_wrt_map intro: sorted_wrt_filter)
  then show ?thesis
    using pk.range_spec [OF assms, of lo hi vis s] pk.search_Found_iff [OF assms]
    by (intro exI [of _ ?es]) auto
qed

theorem bptree_range_search_sorted_witness:
  "bptree_range_search bptree_create 1 9 (\<lambda>k r n. (True, n + r)) 7 = Some (True, 7)"
proof -
  obtain es where es: "bptree_range_search bptree_create 1 9 (\<lambda>k r n. (True, n + r)) 7 =
      Some (visit_all (\<lambda>k r n. (True, n + r)) es 7)"
    "\<forall>k r. (k, r) \<in> set es \<longleftrightarrow> 1 \<le> k \<and> k \<le> 9 \<and> bptree_search bptree_create k = Found r"
    using bptree_range_search_sorted [OF pk.inv_empty, of 1 9 "\<lambda>k r n. (True, n + r)" 7] by blast
  then have "es = []" by (cases es) (auto simp: pk.search_empty)
  then show ?thesis using es(1) by simp
qed

text \<open>
  C12. Deletion reports whether the key was there, keeps the tree well-formed, removes that key
  and no other.
\<close>

theorem bptree_delete_search:
  assumes "tree_inv t"
  shows "\<exists>t'. bptree_delete t key = Some (bptree_search t key \<noteq> Absent, t') \<and> tree_inv t' \<and>
    (\<forall>k. bptree_search t' k = (if k = key then Absent else bptree_search t k))"
proof -
  obtain n where n: "delete_node long_cmp (root t) key = Some (key \<in> fst ` set (pairs (root t)), n)"
    "tree_inv (t\<lparr>root := n\<rparr>)" "set (pairs n) = {e \<in> set (pairs (root t)). fst e \<noteq> key}"
    using long.tree_delete_spec [OF assms] by blast
  have "bptree_search (t\<lparr>root := n\<rparr>) k = (if k = key then Absent else bptree_search t k)" for k
  proof (cases "k = key")
    case True
    then show ?thesis using pk.search_Absent_iff [OF n(2), of k] n(3) by auto
  next
    case False
    have "(k, x) \<in> set (pairs n) \<longleftrightarrow> (k, x) \<in> set (pairs (root t))" for x using n(3) False by auto
    then have "bptree_search (t\<lparr>root := n\<rparr>) k = bptree_search t k"
      by (intro pk.search_eqI [OF assms n(2)]) simp
    then show ?thesis using False by simp
  qed
  moreover have "bptree_search t key \<noteq> Absent \<longleftrightarrow> key \<in> fst ` set (pairs (root t))"
    using pk.search_Absent_iff [OF assms, of key] by simp
  ultimately show ?thesis using n(1,2) by (simp add: bptree_delete_def)
qed

theorem bptree_delete_search_witness:
  "\<exists>t'. bptree_delete bptree_create 4 = Some (False, t') \<and> tree_inv t' \<and> bptree_search t' 4 = Absent"
  using bptree_delete_search [OF pk.inv_empty, of 4] by (auto simp: pk.search_empty)

lemma sized_mono: "sized m n \<Longrightarrow> m \<le> m' \<Longrightarrow> sized m' n"
  by (induction m n rule: sized.induct) auto

lemma tree_inv_sized:
  assumes "tree_inv t"
  shows "sized (BPTREE_MAX_ORDER - 1) (root t)"
proof (rule sized_mono)
  show "sized (tree_max_keys t) (root t)" using assms by (simp add: tree_inv_def)
  show "tree_max_keys t \<le> BPTREE_MAX_ORDER - 1"
    using tree_order_bounds(2) [of t] unfolding tree_max_keys_def by simp
qed

text \<open>The integer trees a program can build: created with any order, then changed by insertions, deletions and clearing.\<close>

inductive bptree_run :: "BPlusTree \<Rightarrow> bool" where
  create: "bptree_run (bptree_create_with_order ord)"
| insert: "bptree_run t \<Longrightarrow> bptree_insert t key row = Some (r, t') \<Longrightarrow> bptree_run t'"
| delete: "bptree_run t \<Longrightarrow> bptree_delete t key = Some (b, t') \<Longrightarrow> bptree_run t'"
| clear: "bptree_run t \<Longrightarrow> bptree_run (bptree_clear t)"

lemma bptree_run_inv: "bptree_run t \<Longrightarrow> tree_inv t"
proof (induction rule: bptree_run.induct)
  case (create ord)
  show ?case by (simp add: bptree_create_with_order_def bptree_create_def tree_inv_def)
next
  case (insert t key row r t')
  then show ?case using pk.insert_spec [of t key row] by auto
next
  case (delete t key b t')
  then show ?case using long.tree_delete_spec [of t key] by (auto simp: bptree_delete_def)
next
  case (clear t)
  then show ?case by (simp add: bptree_clear_def tree_inv_def)
qed



end
