(* ===== verification/Bptree_Build.thy ===== *)
theory Bptree_Build
  imports Bptree
begin

text \<open>
  Bulk loading, \<open>bptree_build_from_sorted\<close> and \<open>bptree_string_build_from_sorted\<close> of \<open>src/legacy/bptree.c\<close>: the
  leaves are cut from the sorted pairs, then each level is cut into groups under parents until one node is left. As in
  \<open>Bptree\<close>, one set of functions serves both key types. The loop over the levels has fuel for the number of leaves, and
  every level is shorter than the one below it.
\<close>

definition choose_order_for_count :: "int \<Rightarrow> int" where
  "choose_order_for_count count =
     (if count < 4096 then 8 else if count < 65536 then 16 else if count < 262144 then 32 else 64)"

definition bptree_order :: "'k bptree \<Rightarrow> nat" where
  "bptree_order t = tree_order t"

text \<open>The first key under a node; for strings the result may be \<open>NULL\<close>.\<close>

definition first_string_key :: "'k bpnode \<Rightarrow> 'k option" where
  "first_string_key n = (case leftmost_leaf n of Some (a, e # es, nx) \<Rightarrow> Some (fst e) | _ \<Rightarrow> None)"

definition first_key :: "int bpnode \<Rightarrow> int" where
  "first_key n = (case leftmost_leaf n of Some (a, e # es, nx) \<Rightarrow> fst e | _ \<Rightarrow> 0)"

text \<open>\<open>xs\<close> cut into pieces of \<open>m\<close>: piece \<open>i\<close> starts at \<open>i * m\<close>, and there are \<open>(n + m - 1) / m\<close> of them.\<close>

definition slices :: "nat \<Rightarrow> 'a list \<Rightarrow> 'a list list" where
  "slices m xs = map (\<lambda>i. take m (drop (i * m) xs)) [0..<(length xs + m - 1) div m]"

text \<open>The leaves, at addresses from \<open>a\<close> on, each linked to the one after it.\<close>

fun build_leaves :: "nat \<Rightarrow> ('k \<times> int) list list \<Rightarrow> 'k bpnode list" where
  "build_leaves a [] = []"
| "build_leaves a (es # ess) = Leaf a es (if ess = [] then None else Some (Suc a)) # build_leaves (Suc a) ess"

definition build_parent :: "('k bpnode \<Rightarrow> 'k option) \<Rightarrow> 'k bpnode list \<Rightarrow> 'k bpnode option" where
  "build_parent fk g = map_option (\<lambda>ks. Inner ks g) (those (map fk (tl g)))"

definition build_level :: "nat \<Rightarrow> ('k bpnode \<Rightarrow> 'k option) \<Rightarrow> 'k bpnode list \<Rightarrow> 'k bpnode list option" where
  "build_level ord fk ns = those (map (build_parent fk) (slices ord ns))"

text \<open>The loop over the levels; \<^const>\<open>None\<close> is \<open>goto fail\<close>.\<close>

fun build_levels :: "nat \<Rightarrow> nat \<Rightarrow> ('k bpnode \<Rightarrow> 'k option) \<Rightarrow> 'k bpnode list \<Rightarrow> 'k bpnode list option" where
  "build_levels 0 ord fk ns = Some ns"
| "build_levels (Suc fuel) ord fk ns =
     (if length ns > 1 then Option.bind (build_level ord fk ns) (build_levels fuel ord fk) else Some ns)"

text \<open>The check that each key is below the next one.\<close>

fun ascending :: "('k \<Rightarrow> 'k \<Rightarrow> int) \<Rightarrow> ('k \<times> int) list \<Rightarrow> bool" where
  "ascending cmp (p # q # ps) = (if cmp (fst p) (fst q) \<ge> 0 then False else ascending cmp (q # ps))"
| "ascending cmp ps = True"

text \<open>The returned flag and the tree; \<^const>\<open>None\<close> if the loop had not ended.\<close>

definition tree_build :: "('k \<Rightarrow> 'k \<Rightarrow> int) \<Rightarrow> ('k bpnode \<Rightarrow> 'k option) \<Rightarrow> 'k bptree \<Rightarrow> ('k \<times> int) list
    \<Rightarrow> (bool \<times> 'k bptree) option" where
  "tree_build cmp fk t0 ps =
     (let t = t0\<lparr>order := choose_order_for_count (int (length ps))\<rparr> in
      if ps = [] then Some (True, t\<lparr>root := Leaf (next_addr t) [] None, next_addr := Suc (next_addr t)\<rparr>)
      else if \<not> ascending cmp ps then Some (False, t)
      else let ls = build_leaves (next_addr t) (slices (tree_max_keys t) ps) in
        case build_levels (length ls) (tree_order t) fk ls of
          None \<Rightarrow> Some (False, t)
        | Some [n] \<Rightarrow> Some (True, t\<lparr>root := n, next_addr := next_addr t + length ls\<rparr>)
        | _ \<Rightarrow> None)"

definition bptree_build_from_sorted :: "BPlusTree \<Rightarrow> (int \<times> int) list \<Rightarrow> (bool \<times> BPlusTree) option" where
  "bptree_build_from_sorted t ps = tree_build long_cmp (\<lambda>n. Some (first_key n)) t ps"

definition bptree_string_build_from_sorted :: "BPlusStringTree \<Rightarrow> (string \<times> int) list
    \<Rightarrow> (bool \<times> BPlusStringTree) option" where
  "bptree_string_build_from_sorted t ps = tree_build strcmp first_string_key t ps"

subsection \<open>Slices\<close>

lemma slices_Nil [simp]: "slices m [] = []"
  by (cases m) (simp_all add: slices_def)

lemma slices_count:
  assumes "0 < m" "xs \<noteq> []"
  shows "(length xs + m - 1) div m = Suc ((length (drop m xs) + m - 1) div m)"
proof (cases "length xs \<le> m")
  case True
  obtain x where x: "length xs = Suc x" using assms(2) by (cases xs) auto
  have "(x + m) div m = Suc (x div m)" using assms(1) div_add_self2 [of m x] by simp
  then show ?thesis using True x assms(1) by simp
next
  case False
  then obtain d where d: "length xs = m + d" using le_Suc_ex by (metis nat_le_linear)
  have "m + d + m - 1 = (d + m - 1) + m" using assms(1) by simp
  then have "(m + d + m - 1) div m = Suc ((d + m - 1) div m)" using assms(1) div_add_self2 [of m "d + m - 1"] by simp
  then show ?thesis using d by simp
qed

lemma slices_step:
  assumes "0 < m" "xs \<noteq> []"
  shows "slices m xs = take m xs # slices m (drop m xs)"
proof -
  have "map (\<lambda>i. take m (drop (i * m) xs)) [0..<Suc k] = take m xs # map (\<lambda>i. take m (drop (i * m) (drop m xs))) [0..<k]" for k
    unfolding upt_conv_Cons [OF zero_less_Suc] by (simp add: add.commute flip: map_Suc_upt del: upt_Suc)
  then show ?thesis unfolding slices_def slices_count [OF assms] .
qed

lemma slices_induct [case_names pos Nil Cons]:
  assumes "0 < (m::nat)" "P []" "\<And>xs. xs \<noteq> [] \<Longrightarrow> slices m xs = take m xs # slices m (drop m xs) \<Longrightarrow> P (drop m xs) \<Longrightarrow> P xs"
  shows "P xs"
proof (induction xs rule: length_induct)
  case (1 xs)
  show ?case
  proof (cases "xs = []")
    case False
    then have "P (drop m xs)" using 1 assms(1) by simp
    then show ?thesis by (rule assms(3) [OF False slices_step [OF assms(1) False]])
  qed (use assms(2) in simp)
qed

lemma slices_concat: "0 < m \<Longrightarrow> concat (slices m xs) = xs"
  by (rule slices_induct [of m "\<lambda>xs. concat (slices m xs) = xs"]) auto

lemma slices_pieces: "0 < m \<Longrightarrow> \<forall>s\<in>set (slices m xs). s \<noteq> [] \<and> length s \<le> m"
  by (rule slices_induct [of m "\<lambda>xs. \<forall>s\<in>set (slices m xs). s \<noteq> [] \<and> length s \<le> m"]) auto

lemma slices_ne: "0 < m \<Longrightarrow> xs \<noteq> [] \<Longrightarrow> slices m xs \<noteq> []"
  by (simp add: slices_step)

lemma slices_length: "length (slices m xs) = (length xs + m - 1) div m"
  by (simp add: slices_def)

lemma slices_shorter:
  assumes "1 < m" "1 < length xs"
  shows "length (slices m xs) < length xs"
proof -
  obtain a b where "m = Suc (Suc a)" "length xs = Suc (Suc b)"
    using that [of "m - 2" "length xs - 2"] assms by simp
  then have "length xs + m - 1 < length xs * m" by (simp add: algebra_simps)
  then show ?thesis unfolding slices_length by (rule less_mult_imp_div_less)
qed

end
