(* ===== verification/Bptree_Build_Correct.thy ===== *)
theory Bptree_Build_Correct
  imports Bptree_Correct Bptree_Build
begin

text \<open>
  Bulk loading gives a well-formed tree with exactly the given pairs, for both key types. A level is well formed when its
  nodes, put side by side with their first keys as separators, are.
\<close>

subsection \<open>The first key of a node\<close>

definition lead_key :: "'k bpnode \<Rightarrow> 'k" where
  "lead_key n = fst (hd (pairs n))"

definition has_lead :: "'k bpnode \<Rightarrow> bool" where
  "has_lead n \<longleftrightarrow> (\<exists>a e es nx. leftmost_leaf n = Some (a, e # es, nx) \<and> pairs n \<noteq> [] \<and> hd (pairs n) = e)"

lemma has_lead_Inner:
  assumes "has_lead c"
  shows "has_lead (Inner ks (c # cs))" "lead_key (Inner ks (c # cs)) = lead_key c"
  using assms by (auto simp: has_lead_def lead_key_def pairs_Inner)

lemma first_string_key_lead: "has_lead n \<Longrightarrow> first_string_key n = Some (lead_key n)"
  by (auto simp: has_lead_def first_string_key_def lead_key_def)

lemma first_key_lead: "has_lead n \<Longrightarrow> first_key n = lead_key n"
  by (auto simp: has_lead_def first_key_def lead_key_def)

subsection \<open>Levels\<close>

definition level_ok :: "nat \<Rightarrow> nat \<Rightarrow> 'k::linorder bpnode list \<Rightarrow> bool" where
  "level_ok mx h ns \<longleftrightarrow> ns \<noteq> [] \<and> (\<forall>n\<in>set ns. has_lead n \<and> sized mx n \<and> height_is h n) \<and> 0 < h \<and>
     aligned_list None None (map lead_key (tl ns)) ns"

definition parent :: "'k bpnode list \<Rightarrow> 'k bpnode" where
  "parent g = Inner (map lead_key (tl g)) g"

lemma those_map_Some: "(\<And>x. x \<in> set xs \<Longrightarrow> f x = Some (g x)) \<Longrightarrow> those (map f xs) = Some (map g xs)"
  by (induction xs) auto

lemma group_aligned:
  assumes m: "0 < m"
  shows "\<forall>lo. ns \<noteq> [] \<longrightarrow> aligned_list lo hi (map lead_key (tl ns)) ns \<longrightarrow>
    aligned_list lo hi (map (\<lambda>g. lead_key (hd g)) (tl (slices m ns))) (map parent (slices m ns))"
proof (rule slices_induct [OF m, of "\<lambda>ns. \<forall>lo. ns \<noteq> [] \<longrightarrow> aligned_list lo hi (map lead_key (tl ns)) ns \<longrightarrow>
    aligned_list lo hi (map (\<lambda>g. lead_key (hd g)) (tl (slices m ns))) (map parent (slices m ns))"])
  show "\<forall>lo. [] \<noteq> [] \<longrightarrow> aligned_list lo hi (map lead_key (tl [])) [] \<longrightarrow>
    aligned_list lo hi (map (\<lambda>g. lead_key (hd g)) (tl (slices m []))) (map parent (slices m []))" by simp
next
  fix ns :: "'a bpnode list"
  assume ns: "ns \<noteq> []" and step: "slices m ns = take m ns # slices m (drop m ns)"
    and IH: "\<forall>lo. drop m ns \<noteq> [] \<longrightarrow> aligned_list lo hi (map lead_key (tl (drop m ns))) (drop m ns) \<longrightarrow>
      aligned_list lo hi (map (\<lambda>g. lead_key (hd g)) (tl (slices m (drop m ns)))) (map parent (slices m (drop m ns)))"
  show "\<forall>lo. ns \<noteq> [] \<longrightarrow> aligned_list lo hi (map lead_key (tl ns)) ns \<longrightarrow>
      aligned_list lo hi (map (\<lambda>g. lead_key (hd g)) (tl (slices m ns))) (map parent (slices m ns))"
  proof (intro allI impI)
    fix lo assume al: "aligned_list lo hi (map lead_key (tl ns)) ns"
    show "aligned_list lo hi (map (\<lambda>g. lead_key (hd g)) (tl (slices m ns))) (map parent (slices m ns))"
    proof (cases "drop m ns = []")
      case True
      then show ?thesis using step al by (simp add: parent_def)
    next
      case False
      obtain k where k: "m = Suc k" using m by (cases m) auto
      have len: "m < length ns" using False by simp
      let ?ks = "map lead_key (tl ns)"
      have sep: "?ks ! k = lead_key (hd (drop m ns))" using len k by (simp add: nth_tl hd_drop_conv_nth)
      have tk: "take k ?ks = map lead_key (tl (take m ns))" "drop m ?ks = map lead_key (tl (drop m ns))"
        using k by (simp_all add: take_map drop_map tl_take tl_drop)
      have "aligned_list lo (Some (?ks ! k)) (take k ?ks) (take (Suc k) ns)" "between lo hi (?ks ! k)"
        "aligned_list (Some (?ks ! k)) hi (drop (Suc k) ?ks) (drop (Suc k) ns)"
        using aligned_list_split [OF al, of k] len k by auto
      then have "aligned lo (Some (lead_key (hd (drop m ns)))) (parent (take m ns))" "between lo hi (lead_key (hd (drop m ns)))"
        "aligned_list (Some (lead_key (hd (drop m ns)))) hi (map lead_key (tl (drop m ns))) (drop m ns)"
        unfolding k [symmetric] sep tk by (auto simp: parent_def)
      moreover obtain g gs where g: "slices m (drop m ns) = g # gs" "hd g = hd (drop m ns)"
        using slices_step [OF m False] m by simp
      ultimately show ?thesis using IH False step by simp
    qed
  qed
qed

lemma build_level_ok:
  assumes ok: "level_ok (m - 1) h ns" and m: "1 < m" and fk: "\<And>n. has_lead n \<Longrightarrow> fk n = Some (lead_key n)"
  shows "build_level m fk ns = Some (map parent (slices m ns))" "level_ok (m - 1) (Suc h) (map parent (slices m ns))"
    "concat (map leaves (map parent (slices m ns))) = concat (map leaves ns)"
proof -
  have m0: "0 < m" using m by simp
  note c = slices_concat [OF m0, of ns]
  have n: "n \<in> set ns" if "g \<in> set (slices m ns)" "n \<in> set g" for n g using that c by (metis UN_I set_concat)
  have lead: "has_lead n \<and> sized (m - 1) n \<and> height_is h n" if "n \<in> set ns" for n using ok that by (simp add: level_ok_def)
  have g: "g \<noteq> [] \<and> length g \<le> m" if "g \<in> set (slices m ns)" for g using slices_pieces [OF m0] that by blast
  have bp: "build_parent fk g = Some (parent g)" if gs: "g \<in> set (slices m ns)" for g
  proof -
    have "those (map fk (tl g)) = Some (map lead_key (tl g))"
    proof (rule those_map_Some)
      fix x assume "x \<in> set (tl g)"
      then have "x \<in> set ns" using n [OF gs] g [OF gs] by (cases g) auto
      then show "fk x = Some (lead_key x)" using fk lead by blast
    qed
    then show ?thesis by (simp add: build_parent_def parent_def)
  qed
  then show "build_level m fk ns = Some (map parent (slices m ns))" unfolding build_level_def by (rule those_map_Some)
  have pg: "has_lead (parent g) \<and> lead_key (parent g) = lead_key (hd g) \<and> sized (m - 1) (parent g) \<and> height_is (Suc h) (parent g)"
    if gs: "g \<in> set (slices m ns)" for g
  proof -
    obtain x xs where x: "g = x # xs" using g [OF gs] by (cases g) auto
    have "has_lead x" using lead n [OF gs] x by auto
    then show ?thesis using has_lead_Inner [of x "map lead_key xs" xs] lead n [OF gs] g [OF gs] ok x
      by (auto simp: parent_def level_ok_def)
  qed
  have "aligned_list None None (map (\<lambda>g. lead_key (hd g)) (tl (slices m ns))) (map parent (slices m ns))"
    using group_aligned [OF m0] ok unfolding level_ok_def by blast
  moreover have "map (\<lambda>g. lead_key (hd g)) (tl (slices m ns)) = map lead_key (tl (map parent (slices m ns)))"
    using pg list.set_sel(2) [of "slices m ns"] by (cases "slices m ns") auto
  ultimately show "level_ok (m - 1) (Suc h) (map parent (slices m ns))"
    using pg slices_ne [OF m0, of ns] ok unfolding level_ok_def by simp
  have "concat (map leaves (map parent gs)) = concat (map leaves (concat gs))" for gs :: "'a bpnode list list"
    by (induction gs) (auto simp: parent_def)
  then show "concat (map leaves (map parent (slices m ns))) = concat (map leaves ns)" using c by metis
qed

lemma build_levels_ok:
  assumes "level_ok (m - 1) h ns" "1 < m" "length ns \<le> Suc fuel" "\<And>n. has_lead n \<Longrightarrow> fk n = Some (lead_key n)"
  shows "\<exists>n h'. build_levels fuel m fk ns = Some [n] \<and> level_ok (m - 1) h' [n] \<and> leaves n = concat (map leaves ns)"
  using assms
proof (induction fuel arbitrary: h ns)
  case 0
  then have "length ns = 1" by (cases ns) (auto simp: level_ok_def)
  then show ?case using 0 by (cases ns) auto
next
  case (Suc fuel)
  show ?case
  proof (cases "1 < length ns")
    case False
    then have "length ns = 1" using Suc.prems(1) by (cases ns) (auto simp: level_ok_def)
    then show ?thesis using Suc.prems by (cases ns) auto
  next
    case True
    note b = build_level_ok [OF Suc.prems(1,2,4)]
    have "length (map parent (slices m ns)) \<le> Suc fuel" using slices_shorter [OF Suc.prems(2) True] Suc.prems(3) by simp
    then obtain n h' where "build_levels fuel m fk (map parent (slices m ns)) = Some [n]" "level_ok (m - 1) h' [n]"
      "leaves n = concat (map leaves (map parent (slices m ns)))"
      using Suc.IH [OF b(2) Suc.prems(2) _ Suc.prems(4)] by blast
    then show ?thesis using b(1,3) True by auto
  qed
qed

subsection \<open>The leaves\<close>

lemma build_leaves_ne: "build_leaves a ess = [] \<longleftrightarrow> ess = []"
  by (cases ess) auto

lemma build_leaves_aligned:
  fixes ess :: "('k::linorder \<times> int) list list"
  assumes "ess \<noteq> []" "\<forall>es\<in>set ess. es \<noteq> []" "sorted_wrt (<) (map fst (concat ess))" "lo = None \<or> lo = Some (fst (hd (hd ess)))"
  shows "aligned_list lo None (map lead_key (tl (build_leaves a ess))) (build_leaves a ess)"
  using assms
proof (induction ess arbitrary: a lo)
  case (Cons es ess)
  obtain e es' where e: "es = e # es'" using Cons.prems(2) by (cases es) auto
  have srt: "sorted_wrt (<) (map fst es)" "sorted_wrt (<) (map fst (concat ess))"
    "x \<in> set es \<Longrightarrow> y \<in> set (concat ess) \<Longrightarrow> fst x < fst y" for x y
    using Cons.prems(3) by (auto simp: sorted_wrt_append)
  have lo: "above lo (fst x)" if "x \<in> set es" for x
    using Cons.prems(4) srt(1) e that by (auto simp: above_def)
  show ?case
  proof (cases ess)
    case Nil
    then show ?thesis using srt(1) lo by (auto simp: within_def below_def)
  next
    case (Cons fs fss)
    obtain f fs' where f: "fs = f # fs'" using Cons.prems(2) Cons by (cases fs) auto
    have hd: "lead_key (hd (build_leaves (Suc a) ess)) = fst f" using Cons f by (simp add: lead_key_def)
    have lt: "fst x < fst f" if "x \<in> set es" for x using srt(3) [OF that] Cons f by auto
    have "aligned_list (Some (fst f)) None (map lead_key (tl (build_leaves (Suc a) ess))) (build_leaves (Suc a) ess)"
      by (rule Cons.IH) (use Cons Cons.prems srt(2) f in auto)
    moreover have "between lo None (fst f)" using Cons.prems(4) lt [of e] e by (auto simp: between_def below_def)
    moreover have "aligned lo (Some (fst f)) (Leaf a es nx)" for nx
      using srt(1) lo lt by (auto simp: within_def below_def)
    ultimately show ?thesis using Cons hd by simp
  qed
qed simp

lemma build_leaves_links:
  "ess \<noteq> [] \<Longrightarrow> linked_to (concat (map leaves (build_leaves a ess))) None"
  "addrs (concat (map leaves (build_leaves a ess))) = [a..<a + length ess]"
  "concat (map (\<lambda>l. fst (snd l)) (concat (map leaves (build_leaves a ess)))) = concat ess"
proof (induction ess arbitrary: a)
  case (Cons es ess)
  {
    case 1
    show ?case using Cons.IH(1) [of "Suc a"] by (cases ess) auto
  next
    case 2
    show ?case using Cons.IH(2) [of "Suc a"] by (simp add: upt_conv_Cons del: upt_Suc)
  next
    case 3
    show ?case using Cons.IH(3) [of "Suc a"] by simp
  }
qed (auto simp: addrs_def)

lemma build_leaves_nodes:
  "n \<in> set (build_leaves a ess) \<Longrightarrow> \<exists>a es nx. n = Leaf a es nx \<and> es \<in> set ess"
  by (induction a ess rule: build_leaves.induct) auto

lemma build_leaves_ok:
  fixes ps :: "('k::linorder \<times> int) list"
  assumes m: "0 < mx" and ps: "ps \<noteq> []" "sorted_wrt (<) (map fst ps)"
  shows "level_ok mx 1 (build_leaves a (slices mx ps))"
proof -
  note p = slices_pieces [OF m, of ps]
  have "has_lead n \<and> sized mx n \<and> height_is 1 n" if "n \<in> set (build_leaves a (slices mx ps))" for n
  proof -
    have "\<exists>b es nx. n = Leaf b es nx \<and> es \<in> set (slices mx ps)" using that by (rule build_leaves_nodes)
    then obtain b es nx where n: "n = Leaf b es nx" "es \<in> set (slices mx ps)" by blast
    then show ?thesis using p by (cases es) (auto simp: has_lead_def)
  qed
  moreover have "aligned_list None None (map lead_key (tl (build_leaves a (slices mx ps)))) (build_leaves a (slices mx ps))"
    by (rule build_leaves_aligned) (use p ps slices_ne [OF m] slices_concat [OF m, of ps] in auto)
  ultimately show ?thesis using slices_ne [OF m ps(1)] by (auto simp: level_ok_def build_leaves_ne)
qed

subsection \<open>The whole tree\<close>

context key_compare
begin

lemma ascending_sorted: "ascending cmp ps \<longleftrightarrow> sorted_wrt (<) (map fst ps)"
proof (induction ps)
  case (Cons p ps)
  show ?case
  proof (cases ps)
    case (Cons q qs)
    have "ascending cmp (p # ps) \<longleftrightarrow> fst p < fst q \<and> ascending cmp ps"
      using cmp_less [of "fst p" "fst q"] Cons by auto
    then show ?thesis using Cons.IH Cons by auto
  qed simp
qed simp

lemma tree_build_ok:
  assumes fk: "\<And>n. has_lead n \<Longrightarrow> fk n = Some (lead_key n)" and ps: "sorted_wrt (<) (map fst ps)"
  obtains t' where "tree_build cmp fk t ps = Some (True, t')" "tree_inv t'" "pairs (root t') = ps"
    "order t' = choose_order_for_count (int (length ps))"
proof (cases "ps = []")
  case True
  then show thesis using that by (simp add: tree_build_def tree_inv_def Let_def)
next
  case False
  define t1 where "t1 = t\<lparr>order := choose_order_for_count (int (length ps))\<rparr>"
  define ess where "ess = slices (tree_max_keys t1) ps"
  define ls where "ls = build_leaves (next_addr t1) ess"
  have m: "1 < tree_order t1" "tree_max_keys t1 = tree_order t1 - 1" "0 < tree_max_keys t1"
    using tree_order_bounds(1) [of t1] by (auto simp: tree_max_keys_def)
  have ess: "ess \<noteq> []" "concat ess = ps" using slices_ne [OF m(3) False] slices_concat [OF m(3)] by (auto simp: ess_def)
  have lv: "level_ok (tree_order t1 - 1) 1 ls" using build_leaves_ok [OF m(3) False ps] m(2) by (simp add: ls_def ess_def)
  obtain n h where n: "build_levels (length ls) (tree_order t1) fk ls = Some [n]" "level_ok (tree_order t1 - 1) h [n]"
    "leaves n = concat (map leaves ls)"
    using build_levels_ok [OF lv m(1) _ fk, of "length ls"] by fastforce
  define t' where "t' = t1\<lparr>root := n, next_addr := next_addr t1 + length ls\<rparr>"
  have b: "tree_build cmp fk t ps = Some (True, t')"
    using False ps n(1) by (simp add: tree_build_def Let_def ascending_sorted t'_def ls_def ess_def flip: t1_def)
  note links = build_leaves_links [where ess = ess and a = "next_addr t1", folded ls_def]
  have len: "length ls = length ess"
  proof -
    have "length (build_leaves a ess) = length ess" for a by (induction a ess rule: build_leaves.induct) auto
    then show ?thesis by (simp add: ls_def)
  qed
  have al: "aligned None None n" "sized (tree_max_keys t') n" "height_is h n"
    using n(2) m(2) tree_order_cong [of t' t1] by (simp_all add: level_ok_def t'_def)
  have "tree_inv t'"
    unfolding tree_inv_def using al links(1,2) ess(1) n(3) height_is_unique [OF al(3,1)] len by (simp add: t'_def)
  moreover have "pairs (root t') = ps" using links(3) ess(2) n(3) by (simp add: t'_def pairs_def)
  ultimately show thesis using that [OF b] by (simp add: t'_def t1_def)
qed

lemma tree_build_refused:
  "\<not> sorted_wrt (<) (map fst ps) \<Longrightarrow>
   tree_build cmp fk t ps = Some (False, t\<lparr>order := choose_order_for_count (int (length ps))\<rparr>)"
  by (auto simp: tree_build_def Let_def ascending_sorted)

end

subsection \<open>Properties of bulk loading\<close>

text \<open>
  Bulk loading from pairs with strictly increasing keys succeeds and gives a well-formed tree whose entries in order
  are exactly those pairs, so that a search finds the row number given with the key and nothing else.
\<close>

theorem bptree_build_search:
  assumes "sorted_wrt (<) (map fst ps)"
  shows "\<exists>t'. bptree_build_from_sorted t ps = Some (True, t') \<and> tree_inv t' \<and> pairs (root t') = ps \<and>
    (\<forall>k. bptree_search t' k = (case map_of ps k of None \<Rightarrow> Absent | Some r \<Rightarrow> Found r))"
proof -
  obtain t' where t': "bptree_build_from_sorted t ps = Some (True, t')" "tree_inv t'" "pairs (root t') = ps"
    unfolding bptree_build_from_sorted_def using long.tree_build_ok [OF _ assms] first_key_lead by metis
  have "bptree_search t' k = (case map_of ps k of None \<Rightarrow> Absent | Some r \<Rightarrow> Found r)" for k
    using long.tree_search_inv [OF t'(2)] t'(3) by (simp add: bptree_search_def)
  then show ?thesis using t' by blast
qed

definition demo_pairs :: "(int \<times> int) list" where
  "demo_pairs = map (\<lambda>i. (3 * int i, int i)) [0..<100]"

theorem bptree_build_search_witness:
  "sorted_wrt (<) (map fst demo_pairs) \<and>
   (\<exists>t'. bptree_build_from_sorted bptree_create demo_pairs = Some (True, t') \<and> tree_inv t' \<and> pairs (root t') = demo_pairs \<and>
    (\<forall>k. bptree_search t' k = (case map_of demo_pairs k of None \<Rightarrow> Absent | Some r \<Rightarrow> Found r)))"
proof -
  have "sorted_wrt (<) (map fst demo_pairs)" by (simp add: demo_pairs_def comp_def sorted_wrt_map)
  then show ?thesis using bptree_build_search [of demo_pairs bptree_create] by blast
qed

text \<open>
  Bulk loading of the string index succeeds exactly for strictly increasing keys, and then the index finds what was
  loaded. A refused load returns 0 and keeps the entries, but it has changed the order of the tree, so that later
  insertions split nodes by another bound.
\<close>

theorem bptree_string_build:
  "(\<exists>t'. bptree_string_build_from_sorted t ps = Some (sorted_wrt (<) (map fst ps), t') \<and>
     order t' = choose_order_for_count (int (length ps)) \<and>
     (if sorted_wrt (<) (map fst ps)
      then tree_inv t' \<and> pairs (root t') = ps \<and>
        (\<forall>k. bptree_string_search t' k = (case map_of ps k of None \<Rightarrow> Absent | Some r \<Rightarrow> Found r))
      else root t' = root t))"
proof (cases "sorted_wrt (<) (map fst ps)")
  case True
  obtain t' where t': "bptree_string_build_from_sorted t ps = Some (True, t')" "tree_inv t'" "pairs (root t') = ps"
    "order t' = choose_order_for_count (int (length ps))"
    unfolding bptree_string_build_from_sorted_def by (rule str.tree_build_ok [OF first_string_key_lead True])
  have "bptree_string_search t' k = (case map_of ps k of None \<Rightarrow> Absent | Some r \<Rightarrow> Found r)" for k
    using str.tree_search_inv [OF t'(2)] t'(3) by (simp add: bptree_string_search_def)
  then show ?thesis using t' True by auto
next
  case False
  then show ?thesis using str.tree_build_refused [OF False, of first_string_key t] by (simp add: bptree_string_build_from_sorted_def)
qed

end
