(* ===== verification/Values.thy ===== *)
theory Values
  imports Parser
begin

text \<open>
  Values and keys of the database, \<open>src/db/dbapi.c\<close> lines 84--262: trimming and unquoting,
  comparison, decimal keys, splitting a CSV record, and the choice of a write lock.
  A value is a C string; \<open>NULL\<close> pointers do not occur at the calls that are modelled.

  The lemmas give the order and equality that the comparisons decide, the round trip of
  decimal keys and of CSV records, and the bound of the lock index.
\<close>

definition RECORD_SIZE :: nat where "RECORD_SIZE = 1024"
definition WRITE_LOCK_SHARDS :: ulong where "WRITE_LOCK_SHARDS = 1024"
definition WRITE_RETRY_MAX :: nat where "WRITE_RETRY_MAX = 5"
definition WRITE_RETRY_BASE_US :: nat where "WRITE_RETRY_BASE_US = 1000"
definition WRITE_RETRY_CAP_US :: nat where "WRITE_RETRY_CAP_US = 32000"

text \<open>The delay in microseconds before the next attempt.\<close>

definition write_retry_sleep :: "nat \<Rightarrow> nat" where
  "write_retry_sleep attempt =
     (let shift = (if attempt < 10 then attempt else 10);
          delay = WRITE_RETRY_BASE_US * 2 ^ shift
      in if delay > WRITE_RETRY_CAP_US then WRITE_RETRY_CAP_US else delay)"

fun eq_icase :: "string \<Rightarrow> string \<Rightarrow> bool" where
  "eq_icase (a # as) (b # bs) = (if tolower a \<noteq> tolower b then False else eq_icase as bs)"
| "eq_icase as bs = (as = [] \<and> bs = [])"

fun fnv1a_mix :: "ulong \<Rightarrow> string \<Rightarrow> ulong" where
  "fnv1a_mix h [] = h"
| "fnv1a_mix h (c # cs) = fnv1a_mix ((h XOR of_nat (byte c)) * 1099511628211) cs"

text \<open>The first field, quotes included, in a buffer with room for \<open>n\<close> more bytes.\<close>

fun first_csv_loop :: "bool \<Rightarrow> nat \<Rightarrow> string \<Rightarrow> string" where
  "first_csv_loop in_q 0 row = []"
| "first_csv_loop in_q (Suc n) [] = []"
| "first_csv_loop in_q (Suc n) (c # cs) =
     (let q = (if c = QUOTE then \<not> in_q else in_q) in
      if c = CHR '','' \<and> \<not> q then [] else c # first_csv_loop q n cs)"

definition first_csv_token :: "string \<Rightarrow> nat \<Rightarrow> string" where
  "first_csv_token row outsz = first_csv_loop False (outsz - 1) row"

fun id_condition :: "where_condition list \<Rightarrow> string" where
  "id_condition [] = []"
| "id_condition (c # cs) =
     (if cond_type c = WHERE_EQ \<and> eq_icase (cond_col c) ''id'' then strbuf 256 (cond_val c)
      else id_condition cs)"

definition stmt_write_lock_idx :: "statement \<Rightarrow> ulong" where
  "stmt_write_lock_idx st =
     (let h = fnv1a_mix 1469598103934665603 (table_name st);
          key = (case stmt_type st of
                   STMT_INSERT \<Rightarrow> first_csv_token (row_data st) 256
                 | STMT_UPDATE \<Rightarrow> id_condition (where_conditions st)
                 | STMT_DELETE \<Rightarrow> id_condition (where_conditions st)
                 | _ \<Rightarrow> [])
      in (if key = [] then fnv1a_mix h ''|*'' else fnv1a_mix (fnv1a_mix h ''|'') key)
         mod WRITE_LOCK_SHARDS)"

definition trim :: "string \<Rightarrow> string" where
  "trim s = rev (skip_space (rev (skip_space s)))"

definition trim_uq :: "string \<Rightarrow> string" where
  "trim_uq s =
     (let t = trim s in
      if t \<noteq> [] \<and> hd t = QUOTE \<and> 2 \<le> length t \<and> last t = QUOTE then butlast (tl t) else t)"

definition norm_v :: "nat \<Rightarrow> string \<Rightarrow> string" where
  "norm_v dsz src = trim_uq (strbuf dsz src)"

definition cmp_v :: "string \<Rightarrow> string \<Rightarrow> bool" where
  "cmp_v lhs rhs \<longleftrightarrow> strcmp (norm_v RECORD_SIZE lhs) (norm_v RECORD_SIZE rhs) = 0"

definition cmp_rng :: "string \<Rightarrow> string \<Rightarrow> string \<Rightarrow> bool" where
  "cmp_rng src a0 a1 \<longleftrightarrow>
     (let v = norm_v RECORD_SIZE src; lo = norm_v RECORD_SIZE a0; hi = norm_v RECORD_SIZE a1
      in strcmp v lo \<ge> 0 \<and> strcmp v hi \<le> 0)"

definition parse_l :: "string \<Rightarrow> int option" where
  "parse_l src =
     (let buf = norm_v 256 src in
      if buf = [] then None
      else case strtol buf of (v, erange, rest) \<Rightarrow>
        if \<not> erange \<and> rest \<noteq> buf \<and> rest = [] then Some v else None)"

text \<open>
  \<open>split_csv\<close> cuts the buffer in place at the commas outside of quotes until the array of
  values is full; \<open>n\<close> is the number of free slots after the current one.
\<close>

fun split_loop :: "bool \<Rightarrow> nat \<Rightarrow> string \<Rightarrow> string \<Rightarrow> string list" where
  "split_loop in_q n cur [] = [rev cur]"
| "split_loop in_q n cur (c # cs) =
     (if n = 0 then [rev cur @ c # cs]
      else let q = (if c = QUOTE then \<not> in_q else in_q) in
        if c = CHR '','' \<and> \<not> q then rev cur # split_loop q (n - 1) [] cs
        else split_loop q n (c # cur) cs)"

definition split_csv :: "string \<Rightarrow> nat \<Rightarrow> nat \<Rightarrow> string list" where
  "split_csv row maxv bsz = split_loop False (maxv - 1) [] (strbuf bsz row)"

subsection \<open>Comparison\<close>

lemma eq_icase_iff: "eq_icase a b \<longleftrightarrow> map tolower a = map tolower b"
  by (induction a b rule: eq_icase.induct) auto

abbreviation norm :: "string \<Rightarrow> string" where
  "norm \<equiv> norm_v RECORD_SIZE"

lemma cmp_v_iff: "cmp_v a b \<longleftrightarrow> norm a = norm b"
  by (simp add: cmp_v_def strcmp_eq)

lemma cmp_rng_iff: "cmp_rng v a b \<longleftrightarrow> norm a \<le> norm v \<and> norm v \<le> norm b"
  using strcmp_less [of "norm v" "norm a"] strcmp_greater [of "norm v" "norm b"]
  by (auto simp: cmp_rng_def Let_def not_le [symmetric])

lemma write_lock_bound: "stmt_write_lock_idx st < WRITE_LOCK_SHARDS"
  unfolding stmt_write_lock_idx_def Let_def WRITE_LOCK_SHARDS_def
  by (rule word_mod_less_divisor) simp

lemma write_retry_sleep_bound: "write_retry_sleep a \<le> WRITE_RETRY_CAP_US"
  by (simp add: write_retry_sleep_def Let_def)

lemma first_csv_loop_length: "length (first_csv_loop q n row) \<le> n"
  by (induction q n row rule: first_csv_loop.induct) (auto simp: Let_def)

subsection \<open>Trimming\<close>

text \<open>A value that trimming and unquoting keep: what the tables store.\<close>

definition plain :: "string \<Rightarrow> bool" where
  "plain v \<longleftrightarrow> v = [] \<or> (\<not> isspace (hd v) \<and> \<not> isspace (last v) \<and>
     \<not> (2 \<le> length v \<and> hd v = QUOTE \<and> last v = QUOTE))"

lemma trim_id: "v = [] \<or> \<not> isspace (hd v) \<and> \<not> isspace (last v) \<Longrightarrow> trim v = v"
  by (auto simp: trim_def skip_space_id hd_rev)

lemma trim_uq_plain: "plain v \<Longrightarrow> trim_uq v = v"
  by (auto simp: plain_def trim_uq_def trim_id Let_def)

lemma trim_uq_quoted: "trim_uq (QUOTE # v @ [QUOTE]) = v"
proof -
  have "\<not> isspace QUOTE" by (simp add: QUOTE_def isspace_def byte_def)
  then have "trim (QUOTE # v @ [QUOTE]) = QUOTE # v @ [QUOTE]" by (intro trim_id) simp
  then show ?thesis by (simp add: trim_uq_def Let_def)
qed

lemma set_skip_space: "set (skip_space s) \<subseteq> set s"
  by (induction s) auto

lemma set_trim_uq: "set (trim_uq s) \<subseteq> set s"
proof -
  have t: "set (trim s) \<subseteq> set s" using set_skip_space [of "rev (skip_space s)"] set_skip_space [of s]
    by (auto simp: trim_def)
  have "set (butlast (tl (trim s))) \<subseteq> set (trim s)"
    by (cases "trim s") (auto dest: in_set_butlastD)
  with t show ?thesis by (auto simp: trim_uq_def Let_def)
qed

lemma length_trim: "length (trim s) \<le> length s"
  by (metis trim_def length_rev length_skip_space le_trans)

lemma length_trim_uq: "length (trim_uq s) \<le> length s"
  using length_trim [of s] by (auto simp: trim_uq_def Let_def)

lemma norm_v_plain: "plain v \<Longrightarrow> length v < n \<Longrightarrow> norm_v n v = v"
  by (simp add: norm_v_def strbuf_id trim_uq_plain)

subsection \<open>Decimal keys\<close>

lemma length_nat_digits: "n < 10 ^ Suc k \<Longrightarrow> length (nat_digits n) \<le> Suc k"
proof (induction k arbitrary: n)
  case 0
  then show ?case by (subst nat_digits.simps) simp
next
  case (Suc k)
  show ?case
  proof (cases "n < 10")
    case False
    have "n div 10 < 10 ^ Suc k" using Suc.prems by (simp add: div_less_iff_less_mult)
    with Suc.IH [of "n div 10"] False show ?thesis by (subst nat_digits.simps) simp
  qed (subst nat_digits.simps, simp)
qed

lemma length_show_long:
  assumes "LONG_MIN \<le> n" "n \<le> LONG_MAX" shows "length (show_long n) \<le> 20"
proof -
  have "nat \<bar>n\<bar> < 10 ^ Suc 18" using assms by (simp add: LONG_MIN_def LONG_MAX_def)
  from length_nat_digits [OF this] show ?thesis by (cases "n < 0") (auto simp: show_long_def)
qed

lemma show_long_nonempty [simp]: "show_long n \<noteq> []" "[] \<noteq> show_long n"
  by (simp_all add: show_long_def) (metis nat_digits_nonempty)

lemma digit_not_quote: "isdigit c \<Longrightarrow> c \<noteq> QUOTE \<and> c \<noteq> CHR '','' \<and> \<not> isspace c"
  by (auto simp: isdigit_def QUOTE_def isspace_def byte_def)

lemma show_long_chars: "c \<in> set (show_long n) \<Longrightarrow> isdigit c \<or> c = CHR ''-''"
  using nat_digits_digits by (auto simp: show_long_def split: if_splits)

lemma plain_show_long: "plain (show_long n)"
proof -
  have "\<not> isspace c \<and> c \<noteq> QUOTE" if "c \<in> set (show_long n)" for c
    using show_long_chars [OF that] digit_not_quote
    by (auto simp: isspace_def QUOTE_def byte_def)
  then show ?thesis by (simp add: plain_def)
qed

lemma parse_l_show_long:
  assumes "LONG_MIN \<le> n" "n \<le> LONG_MAX" shows "parse_l (show_long n) = Some n"
proof -
  have "norm_v 256 (show_long n) = show_long n"
    using plain_show_long length_show_long [OF assms] by (intro norm_v_plain) auto
  then show ?thesis by (simp add: parse_l_def Let_def strtol_show_long [OF assms])
qed

lemma parse_l_range: "parse_l s = Some k \<Longrightarrow> LONG_MIN \<le> k \<and> k \<le> LONG_MAX"
  using strtol_range by (auto simp: parse_l_def Let_def split: prod.splits if_splits)

subsection \<open>CSV records\<close>

text \<open>A field of a record: its commas are inside quotes, which are balanced.\<close>

fun field :: "bool \<Rightarrow> string \<Rightarrow> bool" where
  "field q [] = (\<not> q)"
| "field q (c # cs) = (if c = QUOTE then field (\<not> q) cs
     else if c = CHR '','' \<and> \<not> q then False else field q cs)"

fun join_csv :: "string list \<Rightarrow> string" where
  "join_csv [] = []"
| "join_csv [f] = f"
| "join_csv (f # fs) = f @ CHR '','' # join_csv fs"

lemma split_loop_field:
  assumes "0 < n"
  shows "field q f \<Longrightarrow> split_loop q n cur (f @ rest) =
    (case rest of [] \<Rightarrow> [rev cur @ f] | _ \<Rightarrow> split_loop False n (rev f @ cur) rest)"
  using assms
proof (induction f arbitrary: q cur)
  case Nil
  then show ?case by (cases rest) auto
next
  case (Cons c f)
  then show ?case
    by (cases rest) (auto simp: QUOTE_def Let_def split: if_splits)
qed

lemma split_loop_join:
  "\<forall>f\<in>set fs. field False f \<Longrightarrow> fs \<noteq> [] \<Longrightarrow> length fs \<le> Suc n \<Longrightarrow>
   split_loop False n [] (join_csv fs) = fs"
proof (induction fs arbitrary: n rule: join_csv.induct)
  case (2 f)
  show ?case
  proof (cases "n = 0")
    case True
    then show ?thesis by (cases f) auto
  next
    case False
    with 2 show ?thesis using split_loop_field [of n False f "[]" "[]"] by simp
  qed
next
  case (3 f g fs)
  then have n: "0 < n" by simp
  have "split_loop False n (rev f) (CHR '','' # join_csv (g # fs)) =
      f # split_loop False (n - 1) [] (join_csv (g # fs))"
    using n by (simp add: QUOTE_def)
  then show ?case using 3 split_loop_field [OF n, of False f "[]"] by auto
qed simp

lemma split_csv_join:
  assumes "\<forall>f\<in>set fs. field False f" "fs \<noteq> []" "length fs \<le> m" "length (join_csv fs) < b"
  shows "split_csv (join_csv fs) m b = fs"
  using assms by (simp add: split_csv_def strbuf_id split_loop_join)

lemma length_split_loop: "length (split_loop q n cur s) \<le> Suc n"
  by (induction q n cur s rule: split_loop.induct) (auto simp: Let_def QUOTE_def)

lemma split_loop_nonempty [simp]: "split_loop q n cur s \<noteq> []"
  by (induction q n cur s rule: split_loop.induct) (auto simp: Let_def)

lemma length_split_csv: "0 < maxv \<Longrightarrow> length (split_csv row maxv b) \<le> maxv"
  using length_split_loop [of False "maxv - 1"] by (simp add: split_csv_def)

subsection \<open>Properties of values\<close>

text \<open>
  A key printed with \<open>%ld\<close> parses to itself, also when it is quoted or padded with blanks, as
  long as the text is within the 255 bytes that \<open>parse_l\<close> reads.
\<close>

theorem parse_l_show:
  assumes "LONG_MIN \<le> n" "n \<le> LONG_MAX" "trim_uq s = show_long n" "length s < 256"
  shows "parse_l s = Some n"
proof -
  have "norm_v 256 s = show_long n" using assms(3,4) by (simp add: norm_v_def strbuf_id)
  then show ?thesis by (simp add: parse_l_def Let_def strtol_show_long [OF assms(1,2)])
qed

theorem parse_l_show_witness: "parse_l ''  -120 '' = Some (- 120)"
proof (rule parse_l_show)
  show "trim_uq ''  -120 '' = show_long (- 120)" by code_simp
qed (simp_all add: LONG_MIN_def LONG_MAX_def)

text \<open>
  Splitting a record gives back the fields it was joined from, commas inside balanced quotes
  included, when they fit the array and the buffer; it never returns more fields than the array has.
\<close>

theorem split_csv_join_csv:
  assumes "\<forall>f\<in>set fs. field False f" "fs \<noteq> []" "length fs \<le> m" "length (join_csv fs) < b"
  shows "split_csv (join_csv fs) m b = fs \<and> length (split_csv row m b) \<le> m"
proof -
  have "0 < m" using assms(2,3) by (cases fs) auto
  then show ?thesis using split_csv_join [OF assms] length_split_csv [of m row b] by simp
qed

theorem split_csv_join_csv_witness:
  "split_csv (join_csv [''7'', QUOTE # ''a,b'' @ [QUOTE], []]) 15 1024 = [''7'', QUOTE # ''a,b'' @ [QUOTE], []]"
proof -
  have "\<forall>f\<in>set [''7'', QUOTE # ''a,b'' @ [QUOTE], []]. field False f" by code_simp
  from split_csv_join_csv [OF this, of 15 1024 "[]"] show ?thesis by simp
qed

end
