(* ===== verification/Table.thy ===== *)
theory Table
  imports Values Bptree_Correct
begin

text \<open>
  One version of a table and the statements that run on it, \<open>src/db/dbapi.c\<close> lines 18--48 and
  307--720, 986--1150.

  \<^item> \<open>TabVer\<close> is \<open>tabver\<close>: the counted arrays are lists, \<open>-1\<close> as a column index is \<^const>\<open>None\<close>.
    \<open>rows_alloc\<close> is not a field of the struct: it is the number of elements \<open>malloc\<close> really gave
    to \<open>rows\<close>, which the code knows only through \<open>row_cap\<close>.
  \<^item> An operation that may touch memory outside of its objects returns \<^const>\<open>None\<close>: a descent that
    leaves a malformed tree, or a store past the end of \<open>rows\<close>. Otherwise it returns whether it
    returned 0, the table and the result it leaves behind, also when it fails: a failed
    operation may leave the working copy changed, and the model keeps that.
  \<^item> Allocation succeeds, so the \<open>OOM\<close> branches are not taken.
\<close>

datatype column_type = COL_NORMAL | COL_PK | COL_UK | COL_NN

record column =
  col_name :: string
  col_type :: column_type

type_synonym row = "string list"

record tabver =
  tab_name :: string
  cols :: "column list"
  pk_idx :: "nat option"
  uk_idx :: "nat list"
  rows :: "row list"
  row_cap :: nat
  rows_alloc :: nat
  next_id :: int
  ver_id :: ulong
  pk_tree :: BPlusTree
  uk_tree :: "BPlusStringTree list"
  prev :: "nat option"

record dbres =
  res_rows :: "(string \<times> string) list list"
  res_count :: int
  last_id :: int
  snap_id :: ulong
  err_code :: string
  err_msg :: string

type_synonym outcome = "(bool \<times> tabver \<times> dbres) option"

definition MAX_RECORDS :: nat where "MAX_RECORDS = 2000000"
definition MAX_UKS :: nat where "MAX_UKS = 5"

definition res_err :: "dbres \<Rightarrow> string \<Rightarrow> string \<Rightarrow> dbres" where
  "res_err res code msg = res\<lparr>err_code := strbuf 16 code, err_msg := msg\<rparr>"

definition res_clr :: dbres where
  "res_clr = \<lparr>res_rows = [], res_count = 0, last_id = 0, snap_id = 0, err_code = [], err_msg = []\<rparr>"

subsection \<open>Columns\<close>

fun index_from :: "nat \<Rightarrow> ('a \<Rightarrow> bool) \<Rightarrow> 'a list \<Rightarrow> nat option" where
  "index_from i P [] = None"
| "index_from i P (x # xs) = (if P x then Some i else index_from (Suc i) P xs)"

definition col_idx :: "tabver \<Rightarrow> string \<Rightarrow> nat option" where
  "col_idx tab name = index_from 0 (\<lambda>c. strcmp (col_name c) name = 0) (cols tab)"

definition uk_slot :: "tabver \<Rightarrow> nat \<Rightarrow> nat option" where
  "uk_slot tab idx = index_from 0 (\<lambda>u. u = idx) (uk_idx tab)"

subsection \<open>Matching rows\<close>

definition cond_match :: "tabver \<Rightarrow> row \<Rightarrow> where_condition \<Rightarrow> bool" where
  "cond_match tab row c =
     (case col_idx tab (cond_col c) of None \<Rightarrow> False
      | Some idx \<Rightarrow>
        (case cond_type c of
           WHERE_EQ \<Rightarrow> cmp_v (row ! idx) (cond_val c)
         | WHERE_BETWEEN \<Rightarrow>
             if pk_idx tab = Some idx then
               (case (parse_l (row ! idx), parse_l (cond_val c), parse_l (cond_end_val c)) of
                  (Some key, Some a0, Some a1) \<Rightarrow> \<not> (key < a0 \<or> key > a1)
                | _ \<Rightarrow> False)
             else cmp_rng (row ! idx) (cond_val c) (cond_end_val c)
         | WHERE_NONE \<Rightarrow> False))"

definition row_match :: "tabver \<Rightarrow> statement \<Rightarrow> row \<Rightarrow> bool" where
  "row_match tab st row = list_all (cond_match tab row) (where_conditions st)"

subsection \<open>SELECT\<close>

definition project :: "tabver \<Rightarrow> nat list \<Rightarrow> row \<Rightarrow> (string \<times> string) list" where
  "project tab sel row = map (\<lambda>i. (col_name (cols tab ! i), row ! i)) sel"

definition res_add :: "dbres \<Rightarrow> tabver \<Rightarrow> row \<Rightarrow> nat list \<Rightarrow> dbres" where
  "res_add res tab row sel =
     res\<lparr>res_rows := res_rows res @ [project tab sel row],
         res_count := int (length (res_rows res) + 1)\<rparr>"

text \<open>\<open>sel_vis\<close> and \<open>sel_svis\<close>: the key is not used.\<close>

definition sel_vis :: "tabver \<Rightarrow> statement \<Rightarrow> nat list \<Rightarrow> 'k \<Rightarrow> int \<Rightarrow> dbres \<Rightarrow> bool \<times> dbres" where
  "sel_vis tab st sel key row_idx res =
     (if row_idx < 0 \<or> row_idx \<ge> int (length (rows tab)) then (True, res)
      else let row = rows tab ! nat row_idx in
        if \<not> row_match tab st row then (True, res)
        else (True, res_add res tab row sel))"

definition index_score :: "tabver \<Rightarrow> where_condition \<Rightarrow> nat \<Rightarrow> nat" where
  "index_score tab c idx =
     (if cond_type c = WHERE_EQ \<and> pk_idx tab = Some idx then 100
      else if cond_type c = WHERE_EQ \<and> uk_slot tab idx \<noteq> None then 90
      else if cond_type c = WHERE_BETWEEN \<and> pk_idx tab = Some idx then 80
      else if cond_type c = WHERE_BETWEEN \<and> uk_slot tab idx \<noteq> None then 70
      else 0)"

fun pick_loop :: "tabver \<Rightarrow> where_condition list \<Rightarrow> nat \<Rightarrow> nat \<Rightarrow> (nat \<times> nat) option
    \<Rightarrow> (nat \<times> nat) option" where
  "pick_loop tab [] i best_s best = best"
| "pick_loop tab (c # cs) i best_s best =
     (case col_idx tab (cond_col c) of
        None \<Rightarrow> pick_loop tab cs (Suc i) best_s best
      | Some idx \<Rightarrow>
          let sc = index_score tab c idx in
          if sc > best_s then pick_loop tab cs (Suc i) sc (Some (i, idx))
          else pick_loop tab cs (Suc i) best_s best)"

definition pick_idx :: "tabver \<Rightarrow> statement \<Rightarrow> (nat \<times> nat) option" where
  "pick_idx tab st = pick_loop tab (where_conditions st) 0 0 None"

fun sel_columns :: "tabver \<Rightarrow> string list \<Rightarrow> nat list option" where
  "sel_columns tab [] = Some []"
| "sel_columns tab (c # cs) =
     (case col_idx tab c of None \<Rightarrow> None
      | Some i \<Rightarrow> map_option (\<lambda>is. i # is) (sel_columns tab cs))"

fun sel_scan :: "tabver \<Rightarrow> statement \<Rightarrow> nat list \<Rightarrow> row list \<Rightarrow> dbres \<Rightarrow> dbres" where
  "sel_scan tab st sel [] res = res"
| "sel_scan tab st sel (row # rs) res =
     sel_scan tab st sel rs (if row_match tab st row then res_add res tab row sel else res)"

definition sel_search :: "tabver \<Rightarrow> statement \<Rightarrow> nat list \<Rightarrow> dbres \<Rightarrow> lookup_result \<Rightarrow> (bool \<times> dbres) option" where
  "sel_search tab st sel res r =
     (case r of Wild \<Rightarrow> None
      | Absent \<Rightarrow> Some (True, res)
      | Found row_idx \<Rightarrow>
          (case sel_vis tab st sel () row_idx res of
             (True, res') \<Rightarrow> Some (True, res')
           | (False, res') \<Rightarrow> Some (False, res_err res' ''OOM'' ''out of memory'')))"

definition sel_do :: "tabver \<Rightarrow> statement \<Rightarrow> dbres \<Rightarrow> (bool \<times> dbres) option" where
  "sel_do tab st res =
     (case (if select_all st then Some [0..<length (cols tab)] else sel_columns tab (select_cols st)) of
        None \<Rightarrow> Some (False, res_err res ''BAD_SQL'' ''unknown SELECT column'')
      | Some sel \<Rightarrow>
        (case pick_idx tab st of
           None \<Rightarrow> Some (True, sel_scan tab st sel (rows tab) res)
         | Some (cond_i, col_i) \<Rightarrow>
           let c = where_conditions st ! cond_i in
           if cond_type c = WHERE_EQ \<and> pk_idx tab = Some col_i then
             (case parse_l (cond_val c) of
                None \<Rightarrow> Some (False, res_err res ''BAD_SQL'' ''PK filter must be integer'')
              | Some key \<Rightarrow> sel_search tab st sel res (bptree_search (pk_tree tab) key))
           else if cond_type c = WHERE_EQ \<and> uk_slot tab col_i \<noteq> None then
             sel_search tab st sel res
               (bptree_string_search (uk_tree tab ! the (uk_slot tab col_i)) (norm_v RECORD_SIZE (cond_val c)))
           else if cond_type c = WHERE_BETWEEN \<and> pk_idx tab = Some col_i then
             (let fail = (\<lambda>res. let res' = (if err_code res = [] then res_err res ''BAD_SQL'' ''bad PK BETWEEN''
                                              else res)
                               in Some (err_code res' = [], res'))
              in case (parse_l (cond_val c), parse_l (cond_end_val c)) of
                   (Some a0, Some a1) \<Rightarrow>
                     (case bptree_range_search (pk_tree tab) a0 a1 (sel_vis tab st sel) res of
                        None \<Rightarrow> None
                      | Some (True, res') \<Rightarrow> Some (True, res')
                      | Some (False, res') \<Rightarrow> fail res')
                 | _ \<Rightarrow> fail res)
           else if cond_type c = WHERE_BETWEEN \<and> uk_slot tab col_i \<noteq> None then
             (case bptree_string_range_search (uk_tree tab ! the (uk_slot tab col_i))
                     (norm_v RECORD_SIZE (cond_val c)) (norm_v RECORD_SIZE (cond_end_val c))
                     (sel_vis tab st sel) res of
                None \<Rightarrow> None
              | Some (True, res') \<Rightarrow> Some (True, res')
              | Some (False, res') \<Rightarrow> Some (False, res_err res' ''BAD_SQL'' ''bad UK BETWEEN''))
           else Some (True, sel_scan tab st sel (rows tab) res)))"

subsection \<open>Constraints\<close>

definition chk_dup_pk :: "tabver \<Rightarrow> int \<Rightarrow> bool option" where
  "chk_dup_pk tab key =
     (if pk_idx tab = None then Some False
      else case bptree_search (pk_tree tab) key of
        Wild \<Rightarrow> None | Absent \<Rightarrow> Some False | Found _ \<Rightarrow> Some True)"

definition chk_dup_uk :: "tabver \<Rightarrow> nat \<Rightarrow> string \<Rightarrow> int \<Rightarrow> bool option" where
  "chk_dup_uk tab idx val skip =
     (case uk_slot tab idx of None \<Rightarrow> Some False
      | Some slot \<Rightarrow>
          if val = [] then Some False
          else case bptree_string_search (uk_tree tab ! slot) (norm_v RECORD_SIZE val) of
            Wild \<Rightarrow> None | Absent \<Rightarrow> Some False | Found row_idx \<Rightarrow> Some (row_idx \<noteq> skip))"

subsection \<open>Capacity of the row array\<close>

definition INT_MAX :: nat where "INT_MAX = 2147483647"

text \<open>The limits, compared as integers when an example is evaluated.\<close>

lemma MAX_RECORDS_le [code_unfold]: "(MAX_RECORDS \<le> n) = (2000000 \<le> int n)"
  by (simp add: MAX_RECORDS_def)

lemma INT_MAX_half_less [code_unfold]: "(INT_MAX div 2 < n) = (1073741823 < int n)"
  by (simp add: INT_MAX_def)

text \<open>The loop of \<open>ensure_row_cap\<close>; it starts at a positive capacity.\<close>

function grow_cap :: "nat \<Rightarrow> nat \<Rightarrow> nat option" where
  "grow_cap cap need =
     (if cap = 0 then None
      else if cap < need then (if cap > INT_MAX div 2 then None else grow_cap (cap * 2) need)
      else Some cap)"
  by pat_completeness auto

termination by (relation "measure (\<lambda>(cap, need). need - cap)") auto

declare grow_cap.simps [simp del]

definition ensure_row_cap :: "tabver \<Rightarrow> nat \<Rightarrow> tabver option" where
  "ensure_row_cap tab need =
     (if need \<le> row_cap tab then Some tab
      else case grow_cap (if row_cap tab > 0 then row_cap tab else 16) need of
        None \<Rightarrow> None
      | Some cap \<Rightarrow> Some (tab\<lparr>row_cap := cap, rows_alloc := cap\<rparr>))"

subsection \<open>New rows\<close>

text \<open>
  The values of a new row, the key and the next automatic key; \<open>vals\<close> is what \<open>split_csv\<close>
  found. \<open>next_id\<close> stays advanced when the row is refused.
\<close>

definition row_cells :: "tabver \<Rightarrow> string list \<Rightarrow> bool \<Rightarrow> string option \<Rightarrow> row" where
  "row_cells tab vals miss_pk auto_pk =
     map (\<lambda>i. trim_uq
        (case auto_pk of
           Some txt \<Rightarrow> if pk_idx tab = Some i then txt
             else let src = (if miss_pk \<and> i > the (pk_idx tab) then i - 1 else i) in
               if src < length vals then vals ! src else []
         | None \<Rightarrow> let src = (if miss_pk \<and> i > the (pk_idx tab) then i - 1 else i) in
               if src < length vals then vals ! src else []))
       [0..<length (cols tab)]"

definition nn_ok :: "tabver \<Rightarrow> row \<Rightarrow> bool" where
  "nn_ok tab row = list_all (\<lambda>i. col_type (cols tab ! i) = COL_NN \<longrightarrow> row ! i \<noteq> []) [0..<length (cols tab)]"

definition row_new :: "tabver \<Rightarrow> string list \<Rightarrow> row option \<times> int \<times> int" where
  "row_new tab vals =
     (let miss_pk = (length vals \<noteq> length (cols tab)) in
      if miss_pk \<and> \<not> (pk_idx tab = Some 0 \<and> length vals + 1 = length (cols tab))
      then (None, 0, next_id tab)
      else
        let pk = (case pk_idx tab of
              None \<Rightarrow> Some (0, next_id tab, None)
            | Some p \<Rightarrow>
                if miss_pk \<or> vals ! p = [] \<or> cmp_v (vals ! p) ''NULL''
                then Some (next_id tab, wrap64 (next_id tab + 1), Some (show_long (next_id tab)))
                else case parse_l (vals ! p) of
                  None \<Rightarrow> None
                | Some key \<Rightarrow>
                    Some (key, if key \<ge> next_id tab then wrap64 (key + 1) else next_id tab, None))
        in case pk of
             None \<Rightarrow> (None, 0, next_id tab)
           | Some (new_id, next, auto_pk) \<Rightarrow>
               let cells = row_cells tab vals miss_pk auto_pk in
               (if nn_ok tab cells then Some cells else None, new_id, next))"

subsection \<open>Building the indexes\<close>

text \<open>
  The loop over the unique columns of row \<open>i\<close>: the unique columns, their trees. The result says
  whether every insertion added a key.
\<close>

fun uk_insert_row :: "row \<Rightarrow> int \<Rightarrow> nat list \<Rightarrow> BPlusStringTree list
    \<Rightarrow> (bool \<times> BPlusStringTree list) option" where
  "uk_insert_row row i (u # us) (t # ts) =
     (let txt = norm_v RECORD_SIZE (row ! u) in
      if txt = [] then map_option (\<lambda>(ok, ts'). (ok, t # ts')) (uk_insert_row row i us ts)
      else case bptree_string_insert t txt i of
        None \<Rightarrow> None
      | Some (r, t') \<Rightarrow>
          if r \<noteq> 1 then Some (False, t' # ts)
          else map_option (\<lambda>(ok, ts'). (ok, t' # ts')) (uk_insert_row row i us ts))"
| "uk_insert_row row i us ts = Some (True, ts)"

definition pk_insert_row :: "nat option \<Rightarrow> row \<Rightarrow> int \<Rightarrow> BPlusTree \<Rightarrow> (bool \<times> BPlusTree) option" where
  "pk_insert_row pk row i t =
     (case pk of None \<Rightarrow> Some (True, t)
      | Some p \<Rightarrow>
        (case parse_l (row ! p) of None \<Rightarrow> Some (False, t)
         | Some key \<Rightarrow>
           (case bptree_insert t key i of None \<Rightarrow> None | Some (r, t') \<Rightarrow> Some (r = 1, t'))))"

fun idx_rows :: "nat option \<Rightarrow> nat list \<Rightarrow> row list \<Rightarrow> int \<Rightarrow> BPlusTree \<Rightarrow> BPlusStringTree list
    \<Rightarrow> (bool \<times> BPlusTree \<times> BPlusStringTree list) option" where
  "idx_rows pk uks [] i t ts = Some (True, t, ts)"
| "idx_rows pk uks (row # rs) i t ts =
     (case pk_insert_row pk row i t of None \<Rightarrow> None
      | Some (False, t') \<Rightarrow> Some (False, t', ts)
      | Some (True, t') \<Rightarrow>
        (case uk_insert_row row i uks ts of None \<Rightarrow> None
         | Some (False, ts') \<Rightarrow> Some (False, t', ts')
         | Some (True, ts') \<Rightarrow> idx_rows pk uks rs (i + 1) t' ts'))"

definition idx_build :: "tabver \<Rightarrow> (bool \<times> tabver) option" where
  "idx_build tab =
     (case idx_rows (pk_idx tab) (uk_idx tab) (rows tab) 0 bptree_create
             (map (\<lambda>_. bptree_string_create) (uk_idx tab)) of
        None \<Rightarrow> None
      | Some (ok, t, ts) \<Rightarrow> Some (ok, tab\<lparr>pk_tree := t, uk_tree := ts\<rparr>))"

text \<open>\<open>tab_clone\<close>: \<open>ver_id\<close> and \<open>prev\<close> of the copy are zero; \<^term>\<open>Some None\<close> is a failed copy.\<close>

definition tab_clone :: "tabver \<Rightarrow> tabver option option" where
  "tab_clone src =
     (case idx_build (src\<lparr>row_cap := length (rows src), rows_alloc := length (rows src),
                          ver_id := 0, prev := None\<rparr>) of
        None \<Rightarrow> None
      | Some (ok, dst) \<Rightarrow> Some (if ok then Some dst else None))"

subsection \<open>INSERT, UPDATE, DELETE\<close>

fun uk_check_row :: "tabver \<Rightarrow> row \<Rightarrow> nat list \<Rightarrow> bool option" where
  "uk_check_row tab row [] = Some False"
| "uk_check_row tab row (u # us) =
     (case chk_dup_uk tab u (row ! u) (- 1) of
        None \<Rightarrow> None | Some True \<Rightarrow> Some True | Some False \<Rightarrow> uk_check_row tab row us)"

definition ins_do :: "tabver \<Rightarrow> statement \<Rightarrow> dbres \<Rightarrow> outcome" where
  "ins_do tab st res =
     (let vals = split_csv (row_data st) MAX_COLS RECORD_SIZE in
      if length (rows tab) \<ge> MAX_RECORDS
      then Some (False, tab, res_err res ''BAD_REQ'' ''table row limit reached'')
      else case ensure_row_cap tab (length (rows tab) + 1) of
        None \<Rightarrow> Some (False, tab, res_err res ''OOM'' ''out of memory'')
      | Some tab1 \<Rightarrow>
        if rows_alloc tab1 \<le> length (rows tab1) then None
        else (case row_new tab1 vals of
          (None, _, next) \<Rightarrow>
            Some (False, tab1\<lparr>next_id := next\<rparr>, res_err res ''BAD_SQL'' ''invalid INSERT values'')
        | (Some row, new_id, next) \<Rightarrow>
          let tab2 = tab1\<lparr>next_id := next\<rparr> in
          (case chk_dup_pk tab2 new_id of
             None \<Rightarrow> None
           | Some True \<Rightarrow> Some (False, tab2, res_err res ''BAD_SQL'' ''duplicate PK'')
           | Some False \<Rightarrow>
             (case uk_check_row tab2 row (uk_idx tab2) of
                None \<Rightarrow> None
              | Some True \<Rightarrow> Some (False, tab2, res_err res ''BAD_SQL'' ''duplicate UK'')
              | Some False \<Rightarrow>
                let i = int (length (rows tab2)); tab3 = tab2\<lparr>rows := rows tab2 @ [row]\<rparr> in
                (case bptree_insert (pk_tree tab3) new_id i of
                   None \<Rightarrow> None
                 | Some (r, t) \<Rightarrow>
                   let tab4 = tab3\<lparr>pk_tree := t\<rparr> in
                   if r \<noteq> 1 then Some (False, tab4, res_err res ''INT_ERR'' ''PK index update failed'')
                   else (case uk_insert_row row i (uk_idx tab4) (uk_tree tab4) of
                     None \<Rightarrow> None
                   | Some (ok, ts) \<Rightarrow>
                     let tab5 = tab4\<lparr>uk_tree := ts\<rparr> in
                     if ok then Some (True, tab5, res\<lparr>res_count := 1, last_id := new_id\<rparr>)
                     else Some (False, tab5, res_err res ''INT_ERR'' ''UK index update failed'')))))))"

fun upd_check :: "tabver \<Rightarrow> statement \<Rightarrow> nat \<Rightarrow> string \<Rightarrow> row list \<Rightarrow> int \<Rightarrow> bool option" where
  "upd_check tab st set_idx v [] i = Some False"
| "upd_check tab st set_idx v (row # rs) i =
     (if row_match tab st row \<and> col_type (cols tab ! set_idx) = COL_UK
      then (case chk_dup_uk tab set_idx v i of
              None \<Rightarrow> None | Some True \<Rightarrow> Some True
            | Some False \<Rightarrow> upd_check tab st set_idx v rs (i + 1))
      else upd_check tab st set_idx v rs (i + 1))"

definition rebuild :: "tabver \<Rightarrow> dbres \<Rightarrow> outcome" where
  "rebuild tab res =
     (case idx_build tab of None \<Rightarrow> None
      | Some (True, tab') \<Rightarrow> Some (True, tab', res)
      | Some (False, tab') \<Rightarrow> Some (False, tab', res_err res ''INT_ERR'' ''index rebuild failed''))"

text \<open>
  Matching is decided on the old row: \<open>upd_do\<close> stores into the row it has just matched and never
  looks at that row again.
\<close>

definition upd_do :: "tabver \<Rightarrow> statement \<Rightarrow> dbres \<Rightarrow> outcome" where
  "upd_do tab st res =
     (if where_conditions st = [] then Some (False, tab, res_err res ''BAD_SQL'' ''UPDATE requires WHERE'')
      else case col_idx tab (set_col st) of
        None \<Rightarrow> Some (False, tab, res_err res ''BAD_SQL'' ''unknown SET column'')
      | Some set_idx \<Rightarrow>
        if pk_idx tab = Some set_idx then Some (False, tab, res_err res ''BAD_SQL'' ''PK update not allowed'')
        else let v = norm_v 256 (set_val st) in
          if col_type (cols tab ! set_idx) = COL_NN \<and> v = []
          then Some (False, tab, res_err res ''BAD_SQL'' ''NN violation'')
          else (case upd_check tab st set_idx v (rows tab) 0 of
            None \<Rightarrow> None
          | Some True \<Rightarrow> Some (False, tab, res_err res ''BAD_SQL'' ''duplicate UK'')
          | Some False \<Rightarrow>
            let hits = length (filter (row_match tab st) (rows tab));
                tab1 = tab\<lparr>rows := map (\<lambda>row. if row_match tab st row then row[set_idx := v] else row) (rows tab)\<rparr>;
                res1 = res\<lparr>res_count := res_count res + int hits\<rparr> in
            if res_count res1 = 0 then Some (True, tab1, res1) else rebuild tab1 res1))"

definition del_do :: "tabver \<Rightarrow> statement \<Rightarrow> dbres \<Rightarrow> outcome" where
  "del_do tab st res =
     (if where_conditions st = [] then Some (False, tab, res_err res ''BAD_SQL'' ''DELETE requires WHERE'')
      else let hits = length (filter (row_match tab st) (rows tab));
               tab1 = tab\<lparr>rows := filter (\<lambda>row. \<not> row_match tab st row) (rows tab),
                          rows_alloc := length (rows tab)\<rparr>
           in rebuild tab1 (res\<lparr>res_count := res_count res + int hits\<rparr>))"

definition exec_stmt :: "tabver \<Rightarrow> statement \<Rightarrow> dbres \<Rightarrow> outcome" where
  "exec_stmt tab st res =
     (case stmt_type st of
        STMT_SELECT \<Rightarrow> map_option (\<lambda>(ok, r). (ok, tab, r)) (sel_do tab st res)
      | STMT_INSERT \<Rightarrow> ins_do tab st res
      | STMT_UPDATE \<Rightarrow> upd_do tab st res
      | STMT_DELETE \<Rightarrow> del_do tab st res
      | STMT_UNRECOGNIZED \<Rightarrow> Some (False, tab, res_err res ''BAD_SQL'' ''unsupported SQL''))"

definition stmt_is_wr :: "statement \<Rightarrow> bool" where
  "stmt_is_wr st \<longleftrightarrow> stmt_type st \<in> {STMT_INSERT, STMT_UPDATE, STMT_DELETE}"

end
