(* ===== verification/Table_Index.thy ===== *)
theory Table_Index
  imports Table
begin

text \<open>
  The indexes of a table agree with its rows. \<open>index_set\<close> is the set of entries an index must
  hold for a list of rows; the facts on insertion and search that the statements use are
  proved once for every index that keeps the contract \<open>ordered_index\<close>. The main result is that
  \<open>idx_build\<close> succeeds exactly when the keys of the rows are unique, and then gives indexes
  that hold exactly those entries.
\<close>

subsection \<open>Keys of rows\<close>

definition index_set :: "('r \<Rightarrow> 'k option) \<Rightarrow> 'r list \<Rightarrow> ('k \<times> int) set" where
  "index_set key rs = {(k, int i) | k i. i < length rs \<and> key (rs ! i) = Some k}"

definition key_set :: "('r \<Rightarrow> 'k option) \<Rightarrow> 'r list \<Rightarrow> 'k set" where
  "key_set key rs = {k. \<exists>r\<in>set rs. key r = Some k}"

definition unique :: "('r \<Rightarrow> 'k option) \<Rightarrow> 'r list \<Rightarrow> bool" where
  "unique key rs \<longleftrightarrow> distinct (map key (filter (\<lambda>r. key r \<noteq> None) rs))"

lemma index_set_Nil [simp]: "index_set key [] = {}"
  by (simp add: index_set_def)

lemma unique_Nil [simp]: "unique key []"
  by (simp add: unique_def)

lemma in_index_set:
  "(k, r) \<in> index_set key rs \<longleftrightarrow> (\<exists>i<length rs. r = int i \<and> key (rs ! i) = Some k)"
  by (auto simp: index_set_def)

lemma in_index_set_snoc:
  "(k, x) \<in> index_set key (rs @ [r]) \<longleftrightarrow>
     (k, x) \<in> index_set key rs \<or> x = int (length rs) \<and> key r = Some k"
proof -
  have "(\<exists>i<length rs. x = int i \<and> key ((rs @ [r]) ! i) = Some k) \<longleftrightarrow>
      (\<exists>i<length rs. x = int i \<and> key (rs ! i) = Some k)"
    by (intro ex_cong1) (auto simp: nth_append)
  then show ?thesis by (simp add: in_index_set Ex_less_Suc disj_commute)
qed

lemma index_set_snoc:
  "index_set key (rs @ [r]) =
     (case key r of None \<Rightarrow> index_set key rs
      | Some k \<Rightarrow> Set.insert (k, int (length rs)) (index_set key rs))"
  by (cases "key r") (auto simp: in_index_set_snoc)

lemma fst_index_set: "fst ` index_set key rs = key_set key rs"
proof -
  have "k \<in> fst ` index_set key rs \<longleftrightarrow> (\<exists>r. (k, r) \<in> index_set key rs)" for k
    by force
  then show ?thesis by (auto simp only: key_set_def in_set_conv_nth in_index_set set_eq_iff mem_Collect_eq Bex_def)
qed

lemma unique_snoc:
  "unique key (rs @ [r]) \<longleftrightarrow> unique key rs \<and> (\<forall>k. key r = Some k \<longrightarrow> k \<notin> key_set key rs)"
  by (auto simp: unique_def key_set_def image_iff)

lemma unique_prefix: "unique key (rs @ rs') \<Longrightarrow> unique key rs"
  by (simp add: unique_def)

lemma unique_filter: "unique key rs \<Longrightarrow> unique key (filter P rs)"
proof -
  assume "unique key rs"
  then have "distinct (map key (filter P (filter (\<lambda>r. key r \<noteq> None) rs)))"
    unfolding unique_def by (rule distinct_map_filter)
  then show ?thesis by (simp add: unique_def conj_commute)
qed

lemma unique_nth:
  "unique key rs \<Longrightarrow> i < length rs \<Longrightarrow> j < length rs \<Longrightarrow> key (rs ! i) = Some k \<Longrightarrow>
   key (rs ! j) = Some k \<Longrightarrow> i = j"
proof (induction rs rule: rev_induct)
  case (snoc r rs)
  then show ?case
    by (auto simp: unique_snoc nth_append key_set_def less_Suc_eq split: if_splits)
qed simp

context ordered_index
begin

lemma insert_indexed:
  assumes "inv t" "set (entries t) = index_set key rs" "key row = Some k" "valid k"
  shows "\<exists>t'. inv t' \<and>
    insert t k (int (length rs)) = Some (if k \<in> key_set key rs then 0 else 1, t') \<and>
    (k \<notin> key_set key rs \<longrightarrow> set (entries t') = index_set key (rs @ [row]))"
  using insert_spec [OF assms(1,4), of "int (length rs)"] assms(2,3) fst_index_set [of key rs]
  by (auto simp: index_set_snoc)

lemma search_indexed:
  assumes "inv t" "set (entries t) = index_set key rs"
  shows "search t k = Found r \<longleftrightarrow> (\<exists>i<length rs. r = int i \<and> key (rs ! i) = Some k)"
    and "search t k = Absent \<longleftrightarrow> k \<notin> key_set key rs"
    and "search t k \<noteq> Wild"
  using search_Found_iff [OF assms(1)] search_Absent_iff [OF assms(1)] search_not_Wild [OF assms(1)]
    fst_index_set [of key rs] assms(2)
  by (auto simp: in_index_set)

end

subsection \<open>Indexes that agree with the rows\<close>

definition pk_key :: "nat \<Rightarrow> row \<Rightarrow> int option" where
  "pk_key p row = parse_l (row ! p)"

definition val_key :: "string \<Rightarrow> string option" where
  "val_key v = (if norm v = [] then None else Some (norm v))"

definition uk_key :: "nat \<Rightarrow> row \<Rightarrow> string option" where
  "uk_key u row = val_key (row ! u)"

definition pk_unique :: "nat option \<Rightarrow> row list \<Rightarrow> bool" where
  "pk_unique pk rs \<longleftrightarrow> (case pk of None \<Rightarrow> True
     | Some p \<Rightarrow> (\<forall>r\<in>set rs. pk_key p r \<noteq> None) \<and> unique (pk_key p) rs)"

definition uks_unique :: "nat list \<Rightarrow> row list \<Rightarrow> bool" where
  "uks_unique us rs \<longleftrightarrow> (\<forall>u\<in>set us. unique (uk_key u) rs)"

definition pk_ok :: "nat option \<Rightarrow> row list \<Rightarrow> BPlusTree \<Rightarrow> bool" where
  "pk_ok pk rs t \<longleftrightarrow> tree_inv t \<and> pk_unique pk rs \<and>
     (case pk of None \<Rightarrow> True | Some p \<Rightarrow> set (pairs (root t)) = index_set (pk_key p) rs)"

definition uk_ok :: "row list \<Rightarrow> nat \<Rightarrow> BPlusStringTree \<Rightarrow> bool" where
  "uk_ok rs u t \<longleftrightarrow> tree_inv t \<and> unique (uk_key u) rs \<and> set (pairs (root t)) = index_set (uk_key u) rs"

definition uks_ok :: "nat list \<Rightarrow> row list \<Rightarrow> BPlusStringTree list \<Rightarrow> bool" where
  "uks_ok us rs ts \<longleftrightarrow> list_all2 (uk_ok rs) us ts"

lemma pk_insert_row_ok:
  assumes "pk_ok pk rs t"
  shows "\<exists>t'. pk_insert_row pk row (int (length rs)) t = Some (pk_unique pk (rs @ [row]), t') \<and>
    (pk_unique pk (rs @ [row]) \<longrightarrow> pk_ok pk (rs @ [row]) t')"
proof (cases pk)
  case None
  then show ?thesis using assms by (simp add: pk_insert_row_def pk_ok_def pk_unique_def)
next
  case (Some p)
  show ?thesis
  proof (cases "pk_key p row")
    case None
    then show ?thesis using Some by (simp add: pk_insert_row_def pk_unique_def pk_key_def)
  next
    case key: (Some k)
    have t: "tree_inv t" "set (pairs (root t)) = index_set (pk_key p) rs"
      and u: "\<forall>r\<in>set rs. pk_key p r \<noteq> None" "unique (pk_key p) rs"
      using assms Some by (auto simp: pk_ok_def pk_unique_def)
    from pk.insert_indexed [OF t key] obtain t' where t': "tree_inv t'"
      "bptree_insert t k (int (length rs)) = Some (if k \<in> key_set (pk_key p) rs then 0 else 1, t')"
      "k \<notin> key_set (pk_key p) rs \<longrightarrow> set (pairs (root t')) = index_set (pk_key p) (rs @ [row])" by auto
    have uniq: "pk_unique pk (rs @ [row]) \<longleftrightarrow> k \<notin> key_set (pk_key p) rs"
      using u key Some by (simp add: pk_unique_def unique_snoc)
    show ?thesis
      using Some key t' uniq
      by (auto simp: pk_insert_row_def pk_ok_def pk_key_def [symmetric])
  qed
qed

lemma uk_ok_snoc_None: "uk_ok rs u t \<Longrightarrow> uk_key u row = None \<Longrightarrow> uk_ok (rs @ [row]) u t"
  by (simp add: uk_ok_def unique_snoc index_set_snoc)

lemma uk_insert_ok:
  assumes "uk_ok rs u t" "uk_key u row = Some k"
  shows "\<exists>t'. bptree_string_insert t k (int (length rs)) =
      Some (if unique (uk_key u) (rs @ [row]) then 1 else 0, t') \<and>
    (unique (uk_key u) (rs @ [row]) \<longrightarrow> uk_ok (rs @ [row]) u t')"
proof -
  have k: "k \<noteq> []" using assms(2) by (auto simp: uk_key_def val_key_def split: if_splits)
  have t: "tree_inv t" "set (pairs (root t)) = index_set (uk_key u) rs" "unique (uk_key u) rs"
    using assms(1) by (auto simp: uk_ok_def)
  from uk.insert_indexed [OF t(1,2) assms(2) k] t(3) assms(2) show ?thesis
    by (auto simp: uk_ok_def unique_snoc)
qed

lemma uk_insert_row_ok:
  "uks_ok us rs ts \<Longrightarrow>
   \<exists>ts'. uk_insert_row row (int (length rs)) us ts = Some (uks_unique us (rs @ [row]), ts') \<and>
     (uks_unique us (rs @ [row]) \<longrightarrow> uks_ok us (rs @ [row]) ts')"
proof (induction us arbitrary: ts)
  case Nil
  then show ?case by (simp add: uks_ok_def uks_unique_def)
next
  case (Cons u us)
  then obtain t ts0 where ts: "ts = t # ts0" "uk_ok rs u t" "uks_ok us rs ts0"
    by (auto simp: uks_ok_def list_all2_Cons1)
  from Cons.IH [OF ts(3)] obtain ts' where
    IH: "uk_insert_row row (int (length rs)) us ts0 = Some (uks_unique us (rs @ [row]), ts')"
      "uks_unique us (rs @ [row]) \<longrightarrow> uks_ok us (rs @ [row]) ts'" by blast
  show ?case
  proof (cases "uk_key u row")
    case None
    then have n: "norm (row ! u) = []" by (simp add: uk_key_def val_key_def split: if_splits)
    have ok: "uk_ok (rs @ [row]) u t" using uk_ok_snoc_None [OF ts(2) None] .
    then have "unique (uk_key u) (rs @ [row])" by (simp add: uk_ok_def)
    then show ?thesis using n ok IH ts(1) by (auto simp: Let_def uks_unique_def uks_ok_def)
  next
    case (Some k)
    then have n: "norm (row ! u) = k" "k \<noteq> []" by (auto simp: uk_key_def val_key_def split: if_splits)
    from uk_insert_ok [OF ts(2) Some] obtain t' where t':
      "bptree_string_insert t k (int (length rs)) = Some (if unique (uk_key u) (rs @ [row]) then 1 else 0, t')"
      "unique (uk_key u) (rs @ [row]) \<longrightarrow> uk_ok (rs @ [row]) u t'" by blast
    then show ?thesis using n IH ts(1) by (auto simp: Let_def uks_unique_def uks_ok_def)
  qed
qed

lemma uks_unique_prefix: "uks_unique us (rs @ rs') \<Longrightarrow> uks_unique us rs"
  by (auto simp: uks_unique_def intro: unique_prefix)

lemma pk_unique_prefix: "pk_unique pk (rs @ rs') \<Longrightarrow> pk_unique pk rs"
  by (auto simp: pk_unique_def intro: unique_prefix split: option.splits)

lemma idx_rows_ok:
  "pk_ok pk rs t \<Longrightarrow> uks_ok us rs ts \<Longrightarrow>
   \<exists>t' ts'. idx_rows pk us todo (int (length rs)) t ts =
       Some (pk_unique pk (rs @ todo) \<and> uks_unique us (rs @ todo), t', ts') \<and>
     (pk_unique pk (rs @ todo) \<and> uks_unique us (rs @ todo) \<longrightarrow>
        pk_ok pk (rs @ todo) t' \<and> uks_ok us (rs @ todo) ts')"
proof (induction todo arbitrary: rs t ts)
  case Nil
  then have "uks_unique us rs"
    by (auto simp: uks_unique_def uks_ok_def uk_ok_def list_all2_conv_all_nth in_set_conv_nth)
  with Nil show ?case by (auto simp: pk_ok_def)
next
  case (Cons row todo)
  let ?rs = "rs @ [row]"
  obtain t' where t': "pk_insert_row pk row (int (length rs)) t = Some (pk_unique pk ?rs, t')"
    "pk_unique pk ?rs \<longrightarrow> pk_ok pk ?rs t'" using pk_insert_row_ok [OF Cons.prems(1)] by blast
  obtain ts' where ts': "uk_insert_row row (int (length rs)) us ts = Some (uks_unique us ?rs, ts')"
    "uks_unique us ?rs \<longrightarrow> uks_ok us ?rs ts'" using uk_insert_row_ok [OF Cons.prems(2)] by blast
  have pre: "pk_unique pk (rs @ row # todo) \<Longrightarrow> pk_unique pk ?rs"
    "uks_unique us (rs @ row # todo) \<Longrightarrow> uks_unique us ?rs"
    using pk_unique_prefix [of pk ?rs todo] uks_unique_prefix [of us ?rs todo] by auto
  show ?case
  proof (cases "pk_unique pk ?rs \<and> uks_unique us ?rs")
    case True
    then show ?thesis using t' ts' Cons.IH [of ?rs t' ts'] by (auto simp: add.commute)
  next
    case False
    then show ?thesis using t' ts' pre by (cases "pk_unique pk ?rs") auto
  qed
qed

subsection \<open>The invariant of a table\<close>

definition schema_ok :: "tabver \<Rightarrow> bool" where
  "schema_ok tab \<longleftrightarrow>
     (\<forall>p. pk_idx tab = Some p \<longrightarrow> p < length (cols tab) \<and> p \<notin> set (uk_idx tab)) \<and>
     distinct (uk_idx tab) \<and>
     (\<forall>i<length (cols tab). col_type (cols tab ! i) = COL_UK \<longleftrightarrow> i \<in> set (uk_idx tab)) \<and>
     (\<forall>u\<in>set (uk_idx tab). u < length (cols tab))"

definition tab_inv :: "tabver \<Rightarrow> bool" where
  "tab_inv tab \<longleftrightarrow> schema_ok tab \<and> (\<forall>r\<in>set (rows tab). length r = length (cols tab)) \<and>
     pk_ok (pk_idx tab) (rows tab) (pk_tree tab) \<and> uks_ok (uk_idx tab) (rows tab) (uk_tree tab) \<and>
     LONG_MIN \<le> next_id tab \<and> next_id tab \<le> LONG_MAX"

text \<open>What \<open>row_cap\<close> promises of the row array.\<close>

definition tab_mem :: "tabver \<Rightarrow> bool" where
  "tab_mem tab \<longleftrightarrow> length (rows tab) \<le> row_cap tab \<and> row_cap tab \<le> rows_alloc tab"

definition keys_unique :: "tabver \<Rightarrow> bool" where
  "keys_unique tab \<longleftrightarrow> pk_unique (pk_idx tab) (rows tab) \<and> uks_unique (uk_idx tab) (rows tab)"

lemma idx_build_ok:
  "\<exists>t ts. idx_build tab = Some (keys_unique tab, tab\<lparr>pk_tree := t, uk_tree := ts\<rparr>) \<and>
     (keys_unique tab \<longrightarrow> pk_ok (pk_idx tab) (rows tab) t \<and> uks_ok (uk_idx tab) (rows tab) ts)"
proof -
  have "pk_ok (pk_idx tab) [] bptree_create"
    using pk.inv_empty pk.entries_empty by (auto simp: pk_ok_def pk_unique_def split: option.splits)
  moreover have "uks_ok (uk_idx tab) [] (map (\<lambda>_. bptree_string_create) (uk_idx tab))"
    using uk.inv_empty uk.entries_empty
    by (simp add: uks_ok_def list_all2_conv_all_nth uk_ok_def)
  ultimately obtain t ts where "idx_rows (pk_idx tab) (uk_idx tab) (rows tab) 0 bptree_create
      (map (\<lambda>_. bptree_string_create) (uk_idx tab)) = Some (keys_unique tab, t, ts)"
    "keys_unique tab \<longrightarrow> pk_ok (pk_idx tab) (rows tab) t \<and> uks_ok (uk_idx tab) (rows tab) ts"
    using idx_rows_ok [of "pk_idx tab" "[]" bptree_create "uk_idx tab"
        "map (\<lambda>_. bptree_string_create) (uk_idx tab)" "rows tab"]
    by (auto simp: keys_unique_def)
  then show ?thesis unfolding idx_build_def by auto
qed

lemma tab_inv_keys_unique: "tab_inv tab \<Longrightarrow> keys_unique tab"
  by (auto simp: tab_inv_def keys_unique_def pk_ok_def uks_ok_def uk_ok_def uks_unique_def
      list_all2_conv_all_nth in_set_conv_nth)

lemma idx_build_tab_inv:
  assumes "schema_ok tab" "\<forall>r\<in>set (rows tab). length r = length (cols tab)"
    "LONG_MIN \<le> next_id tab" "next_id tab \<le> LONG_MAX"
  shows "\<exists>t ts. idx_build tab = Some (keys_unique tab, tab\<lparr>pk_tree := t, uk_tree := ts\<rparr>) \<and>
    (keys_unique tab \<longrightarrow> tab_inv (tab\<lparr>pk_tree := t, uk_tree := ts\<rparr>))"
  using idx_build_ok [of tab] assms by (auto simp: tab_inv_def schema_ok_def)

lemma tab_clone_ok:
  assumes "tab_inv src"
  shows "\<exists>dst. tab_clone src = Some (Some dst) \<and> tab_inv dst \<and> tab_mem dst \<and> rows dst = rows src \<and>
    cols dst = cols src \<and> next_id dst = next_id src \<and> tab_name dst = tab_name src \<and>
    pk_idx dst = pk_idx src \<and> uk_idx dst = uk_idx src \<and> prev dst = None"
proof -
  let ?s = "src\<lparr>row_cap := length (rows src), rows_alloc := length (rows src), ver_id := 0, prev := None\<rparr>"
  have "keys_unique ?s" using tab_inv_keys_unique [OF assms] by (simp add: keys_unique_def)
  moreover have "schema_ok ?s" "\<forall>r\<in>set (rows ?s). length r = length (cols ?s)"
    "LONG_MIN \<le> next_id ?s" "next_id ?s \<le> LONG_MAX"
    using assms by (auto simp: tab_inv_def schema_ok_def)
  ultimately obtain t ts where "idx_build ?s = Some (True, ?s\<lparr>pk_tree := t, uk_tree := ts\<rparr>)"
    "tab_inv (?s\<lparr>pk_tree := t, uk_tree := ts\<rparr>)"
    using idx_build_tab_inv [of ?s] by auto
  then show ?thesis by (simp add: tab_clone_def tab_mem_def)
qed

end
