(* ===== verification/Table_Write.thy ===== *)
theory Table_Write
  imports Table_Index
begin

text \<open>
  INSERT, UPDATE and DELETE keep the invariant of a table: on a table whose indexes agree with
  its rows they never leave its memory, and leave rows and indexes that agree again.
\<close>

subsection \<open>Looking for duplicates\<close>

lemma index_from_Some:
  "index_from j P xs = Some i \<Longrightarrow> j \<le> i \<and> i < j + length xs \<and> P (xs ! (i - j))"
proof (induction xs arbitrary: j)
  case (Cons x xs)
  show ?case
  proof (cases "P x")
    case False
    with Cons.IH [of "Suc j"] Cons.prems have "Suc j \<le> i" "i < Suc j + length xs" "P (xs ! (i - Suc j))"
      by auto
    then show ?thesis by (simp add: nth_Cons' Suc_diff_Suc less_eq_Suc_le)
  qed (use Cons in auto)
qed simp

lemma index_from_None: "index_from j P xs = None \<longleftrightarrow> (\<forall>x\<in>set xs. \<not> P x)"
  by (induction xs arbitrary: j) auto

lemma col_idx_Some: "col_idx tab name = Some i \<Longrightarrow> i < length (cols tab) \<and> col_name (cols tab ! i) = name"
  using index_from_Some [of 0 _ "cols tab" i] by (auto simp: col_idx_def strcmp_eq)

lemma uk_slot_Some: "uk_slot tab u = Some j \<Longrightarrow> j < length (uk_idx tab) \<and> uk_idx tab ! j = u"
  using index_from_Some [of 0 _ "uk_idx tab" j] by (auto simp: uk_slot_def)

lemma uk_slot_None: "uk_slot tab u = None \<longleftrightarrow> u \<notin> set (uk_idx tab)"
  by (auto simp: uk_slot_def index_from_None)

lemma uks_ok_slot:
  "uks_ok (uk_idx tab) rs ts \<Longrightarrow> uk_slot tab u = Some j \<Longrightarrow> uk_ok rs u (ts ! j)"
  using uk_slot_Some [of tab u j] by (auto simp: uks_ok_def list_all2_conv_all_nth)

lemma chk_dup_pk_ok:
  assumes "pk_ok (pk_idx tab) rs (pk_tree tab)" "pk_idx tab = Some p"
  shows "chk_dup_pk tab k = Some (k \<in> key_set (pk_key p) rs)"
proof -
  have "tree_inv (pk_tree tab)" "set (pairs (root (pk_tree tab))) = index_set (pk_key p) rs"
    using assms by (auto simp: pk_ok_def)
  note s = pk.search_indexed [OF this, of k]
  show ?thesis using s(2,3) assms(2) by (cases "bptree_search (pk_tree tab) k") (auto simp: chk_dup_pk_def)
qed

lemma chk_dup_uk_ok:
  assumes "uks_ok (uk_idx tab) rs (uk_tree tab)" "u \<in> set (uk_idx tab)"
  shows "chk_dup_uk tab u v skip =
    Some (\<exists>i<length rs. int i \<noteq> skip \<and> val_key v \<noteq> None \<and> uk_key u (rs ! i) = val_key v)"
proof -
  obtain j where j: "uk_slot tab u = Some j" using assms(2) uk_slot_None [of tab u] by auto
  have t: "tree_inv (uk_tree tab ! j)" "set (pairs (root (uk_tree tab ! j))) = index_set (uk_key u) rs"
    and un: "unique (uk_key u) rs"
    using uks_ok_slot [OF assms(1) j] by (auto simp: uk_ok_def)
  note s = uk.search_indexed [OF t, of "norm v"]
  have nonempty: "[] \<notin> key_set (uk_key u) rs"
    by (auto simp: key_set_def uk_key_def val_key_def split: if_splits)
  show ?thesis
  proof (cases "norm v = []")
    case True
    then have "bptree_string_search (uk_tree tab ! j) (norm v) = Absent" using s(2) nonempty by simp
    then show ?thesis using True j by (simp add: chk_dup_uk_def val_key_def)
  next
    case False
    then have v: "v \<noteq> []" "val_key v = Some (norm v)"
      by (auto simp: val_key_def norm_v_def strbuf_def trim_uq_def trim_def)
    show ?thesis
    proof (cases "bptree_string_search (uk_tree tab ! j) (norm v)")
      case Absent
      then have "uk_key u (rs ! i) \<noteq> val_key v" if "i < length rs" for i
        using s(2) v(2) that nth_mem [OF that] by (auto simp: key_set_def)
      then show ?thesis using Absent j v by (auto simp: chk_dup_uk_def)
    next
      case (Found r)
      then obtain i where i: "i < length rs" "r = int i" "uk_key u (rs ! i) = Some (norm v)" using s(1) by auto
      then have "(\<exists>i'<length rs. int i' \<noteq> skip \<and> uk_key u (rs ! i') = Some (norm v)) \<longleftrightarrow> r \<noteq> skip"
        using unique_nth [OF un] by blast
      then show ?thesis using Found j v by (simp add: chk_dup_uk_def)
    qed (use s(3) in simp)
  qed
qed

lemma uk_check_row_ok:
  assumes "uks_ok (uk_idx tab) rs (uk_tree tab)"
  shows "set us \<subseteq> set (uk_idx tab) \<Longrightarrow>
    uk_check_row tab row us = Some (\<exists>u\<in>set us. \<exists>k. uk_key u row = Some k \<and> k \<in> key_set (uk_key u) rs)"
proof (induction us)
  case (Cons u us)
  have "(\<exists>i<length rs. val_key (row ! u) \<noteq> None \<and> uk_key u (rs ! i) = val_key (row ! u)) \<longleftrightarrow>
      (\<exists>k. uk_key u row = Some k \<and> k \<in> key_set (uk_key u) rs)"
    by (auto simp: uk_key_def key_set_def Bex_def in_set_conv_nth) metis
  with chk_dup_uk_ok [OF assms, of u "row ! u" "- 1"] Cons show ?case
    by (auto split: bool.splits)
qed simp

lemma unique_check:
  "uks_ok us rs ts \<Longrightarrow> uks_unique us (rs @ [row]) \<longleftrightarrow>
     \<not> (\<exists>u\<in>set us. \<exists>k. uk_key u row = Some k \<and> k \<in> key_set (uk_key u) rs)"
  by (auto simp: uks_unique_def unique_snoc uks_ok_def uk_ok_def list_all2_conv_all_nth in_set_conv_nth)

subsection \<open>Capacity\<close>

lemma grow_cap_ok:
  "0 < cap \<Longrightarrow> need \<le> INT_MAX div 2 \<Longrightarrow> \<exists>c. grow_cap cap need = Some c \<and> need \<le> c \<and> cap \<le> c"
proof (induction cap need rule: grow_cap.induct)
  case (1 cap need)
  show ?case
  proof (cases "cap < need")
    case True
    with 1 obtain c where "grow_cap (cap * 2) need = Some c" "need \<le> c" "cap * 2 \<le> c"
      by auto
    then show ?thesis using True 1 by (subst grow_cap.simps) auto
  next
    case False
    then show ?thesis using 1 by (subst grow_cap.simps) auto
  qed
qed

lemma ensure_row_cap_ok:
  assumes "tab_mem tab" "length (rows tab) < MAX_RECORDS"
  shows "\<exists>c a. ensure_row_cap tab (length (rows tab) + 1) = Some (tab\<lparr>row_cap := c, rows_alloc := a\<rparr>) \<and>
    length (rows tab) < c \<and> c \<le> a"
proof (cases "length (rows tab) + 1 \<le> row_cap tab")
  case True
  then have "ensure_row_cap tab (length (rows tab) + 1) =
      Some (tab\<lparr>row_cap := row_cap tab, rows_alloc := rows_alloc tab\<rparr>)" by (simp add: ensure_row_cap_def)
  with True assms show ?thesis unfolding tab_mem_def by (metis Suc_eq_plus1 Suc_le_eq)
next
  case False
  have "length (rows tab) + 1 \<le> INT_MAX div 2" using assms(2) by (simp add: MAX_RECORDS_def INT_MAX_def)
  moreover have "0 < (if row_cap tab > 0 then row_cap tab else 16)" by simp
  ultimately obtain c where "grow_cap (if row_cap tab > 0 then row_cap tab else 16) (length (rows tab) + 1) = Some c"
    "length (rows tab) + 1 \<le> c" using grow_cap_ok by blast
  with False show ?thesis
    by (intro exI [of _ c]) (auto simp: ensure_row_cap_def)
qed

subsection \<open>INSERT\<close>

lemma last_takeWhile_all: "dropWhile P u = [] \<Longrightarrow> u \<noteq> [] \<Longrightarrow> P (last u)"
  by (metis dropWhile_eq_Nil_conv last_in_set)

text \<open>A value that \<open>strtol\<close> reads to its end: blanks, then a sign or a digit, a digit at its end.\<close>

lemma strtol_full:
  assumes "strtol t = (v, e, [])" "t \<noteq> []"
  shows "strtol (skip_space t) = (v, e, [])" "skip_space t \<noteq> []"
    "isdigit (last t)" "hd (skip_space t) \<noteq> QUOTE"
proof -
  define w where "w = skip_space t"
  define u where "u = (if w \<noteq> [] \<and> (hd w = CHR ''-'' \<or> hd w = CHR ''+'') then tl w else w)"
  have ds: "takeWhile isdigit u \<noteq> []" and rest: "dropWhile isdigit u = []"
    using assms by (auto simp: strtol_def Let_def u_def w_def split: if_splits)
  then have u: "u \<noteq> []" by auto
  then show ne: "skip_space t \<noteq> []" by (auto simp: u_def w_def split: if_splits)
  have "isdigit (last u)" using last_takeWhile_all [OF rest u] .
  then have "isdigit (last w)" using u by (auto simp: u_def last_tl split: if_splits)
  moreover have "last w = last t" using ne unfolding w_def by (induction t) (auto split: if_splits)
  ultimately show "isdigit (last t)" by simp
  have "isdigit (hd u)" using ds by (cases u) (auto split: if_splits)
  then show "hd (skip_space t) \<noteq> QUOTE"
    using ne digit_not_quote by (auto simp: u_def w_def QUOTE_def split: if_splits)
  show "strtol (skip_space t) = (v, e, [])"
    using assms ne
    by (cases "hd (skip_space t) = CHR ''-''"; cases "hd (skip_space t) = CHR ''+''")
      (auto simp: strtol_def Let_def split: if_splits)
qed

lemma parse_l_trim_uq:
  assumes "parse_l s = Some k" "length s < 256"
  shows "parse_l (trim_uq s) = Some k"
proof -
  define t where "t = trim_uq s"
  have t: "t \<noteq> []" "strtol t = (k, False, [])"
    using assms by (auto simp: parse_l_def Let_def norm_v_def strbuf_id t_def split: prod.splits if_splits)
  note f = strtol_full [OF t(2,1)]
  have sp: "\<not> isspace (hd (skip_space t))" using hd_skip_space [OF f(2)] .
  have "last (skip_space t) = last t" using f(2) by (induction t) (auto split: if_splits)
  then have ls: "isdigit (last (skip_space t))" using f(3) by simp
  have "trim t = skip_space t"
    using f(2) ls isdigit_not_space by (auto simp: trim_def skip_space_id hd_rev)
  then have "trim_uq t = skip_space t" using f(4) by (simp add: trim_uq_def Let_def)
  moreover have "length t < 256" using length_trim_uq [of s] assms(2) by (simp add: t_def)
  ultimately show ?thesis using f(1,2) by (simp add: parse_l_def norm_v_def strbuf_id t_def [symmetric])
qed

lemma row_new_key:
  assumes "row_new tab vals = (Some row, new_id, next)" "pk_idx tab = Some p" "p < length (cols tab)"
    and "LONG_MIN \<le> next_id tab" "next_id tab \<le> LONG_MAX"
    and "\<forall>v\<in>set vals. length v < 256"
  shows "pk_key p row = Some new_id" "length row = length (cols tab)"
    "LONG_MIN \<le> next" "next \<le> LONG_MAX"
proof -
  let ?miss = "length vals \<noteq> length (cols tab)"
  let ?auto = "?miss \<or> vals ! p = [] \<or> cmp_v (vals ! p) ''NULL''"
  let ?cells = "row_cells tab vals ?miss"
  have guard: "\<not> (?miss \<and> \<not> (p = 0 \<and> length vals + 1 = length (cols tab)))"
    using assms(1,2) by (intro notI) (simp add: row_new_def Let_def)
  consider (a) "row = ?cells (Some (show_long (next_id tab)))"
      "new_id = next_id tab" "next = wrap64 (next_id tab + 1)"
    | (b) "\<not> ?miss" "parse_l (vals ! p) = Some new_id" "row = ?cells None"
      "next = (if new_id \<ge> next_id tab then wrap64 (new_id + 1) else next_id tab)"
  proof (cases ?auto)
    case True
    have "row_new tab vals = (if nn_ok tab (?cells (Some (show_long (next_id tab))))
        then Some (?cells (Some (show_long (next_id tab)))) else None,
        next_id tab, wrap64 (next_id tab + 1))"
      unfolding row_new_def Let_def assms(2) using guard True by auto
    then show ?thesis using assms(1) that(1) by (simp split: if_splits)
  next
    case False
    have "row_new tab vals = (case parse_l (vals ! p) of None \<Rightarrow> (None, 0, next_id tab)
      | Some key \<Rightarrow> (if nn_ok tab (?cells None) then Some (?cells None) else None, key,
          if key \<ge> next_id tab then wrap64 (key + 1) else next_id tab))"
      unfolding row_new_def Let_def assms(2) using guard False by (simp split: option.splits)
    then show ?thesis using assms(1) that(2) False by (simp split: option.splits if_splits)
  qed
  then have "pk_key p row = Some new_id \<and> LONG_MIN \<le> next \<and> next \<le> LONG_MAX"
  proof cases
    case a
    have "row ! p = show_long (next_id tab)"
      using a(1) assms(2,3) by (simp add: row_cells_def trim_uq_plain plain_show_long)
    then show ?thesis
      using a(2,3) parse_l_show_long assms(4,5) wrap64_range by (simp add: pk_key_def)
  next
    case b
    have p: "p < length vals" using b(1) assms(3) by simp
    have "row ! p = trim_uq (vals ! p)" using b(1,3) assms(3) p by (simp add: row_cells_def)
    moreover have "parse_l (trim_uq (vals ! p)) = Some new_id"
      using parse_l_trim_uq [OF b(2)] assms(6) p by simp
    ultimately show ?thesis using b(4) assms(4,5) wrap64_range by (simp add: pk_key_def)
  qed
  then show "pk_key p row = Some new_id" "LONG_MIN \<le> next" "next \<le> LONG_MAX" by auto
  show "length row = length (cols tab)"
    using assms(1) by (auto simp: row_new_def row_cells_def Let_def split: if_splits option.splits)
qed

lemma row_new_next:
  assumes "row_new tab vals = (r, new_id, next)" "LONG_MIN \<le> next_id tab" "next_id tab \<le> LONG_MAX"
  shows "LONG_MIN \<le> next \<and> next \<le> LONG_MAX"
  using assms wrap64_range
  by (auto simp: row_new_def Let_def split: if_splits option.splits)

text \<open>The statement was refused and the result only carries the error.\<close>

definition refused :: "dbres \<Rightarrow> dbres \<Rightarrow> bool" where
  "refused res res' \<longleftrightarrow> (\<exists>msg. res' = res_err res ''BAD_SQL'' msg \<or> res' = res_err res ''BAD_REQ'' msg)"

lemma refusedI [intro, simp]: "refused res (res_err res ''BAD_SQL'' msg)" "refused res (res_err res ''BAD_REQ'' msg)"
  by (auto simp: refused_def)

text \<open>When an INSERT must succeed: there is room, the values make a row, and its keys are new.\<close>

definition insertable :: "tabver \<Rightarrow> string list \<Rightarrow> bool" where
  "insertable tab vals \<longleftrightarrow> length (rows tab) < MAX_RECORDS \<and>
     (case row_new tab vals of (None, _, _) \<Rightarrow> False
      | (Some row, _, _) \<Rightarrow> keys_unique (tab\<lparr>rows := rows tab @ [row]\<rparr>))"

text \<open>Every outcome of an INSERT into a table with a primary key.\<close>

lemma ins_do_outcome:
  assumes inv: "tab_inv tab" and mem: "tab_mem tab" and pk: "pk_idx tab = Some p"
    and short: "\<forall>v\<in>set (split_csv (row_data st) MAX_COLS RECORD_SIZE). length v < 256"
  shows "\<exists>ok tab' res'. ins_do tab st res = Some (ok, tab', res') \<and> tab_inv tab' \<and> tab_mem tab' \<and>
    cols tab' = cols tab \<and> pk_idx tab' = pk_idx tab \<and> uk_idx tab' = uk_idx tab \<and>
    (ok \<longleftrightarrow> insertable tab (split_csv (row_data st) MAX_COLS RECORD_SIZE)) \<and>
    (if ok then \<exists>row. rows tab' = rows tab @ [row] \<and> pk_key p row = Some (last_id res') \<and>
       row_new tab (split_csv (row_data st) MAX_COLS RECORD_SIZE) =
         (Some row, last_id res', next_id tab') \<and>
       last_id res' \<notin> key_set (pk_key p) (rows tab) \<and>
       res' = res\<lparr>res_count := 1, last_id := last_id res'\<rparr>
     else rows tab' = rows tab \<and> refused res res')"
proof (cases "length (rows tab) \<ge> MAX_RECORDS")
  case True
  then show ?thesis using inv mem by (auto simp: ins_do_def insertable_def)
next
  case False
  let ?vals = "split_csv (row_data st) MAX_COLS RECORD_SIZE"
  obtain c a where cap: "ensure_row_cap tab (length (rows tab) + 1) = Some (tab\<lparr>row_cap := c, rows_alloc := a\<rparr>)"
    "length (rows tab) < c" "c \<le> a"
    using ensure_row_cap_ok [OF mem] False by auto
  let ?tab1 = "tab\<lparr>row_cap := c, rows_alloc := a\<rparr>"
  have rn: "row_new ?tab1 ?vals = row_new tab ?vals"
    by (simp add: row_new_def row_cells_def nn_ok_def Let_def cong: option.case_cong if_cong)
  obtain r new_id "next" where new: "row_new tab ?vals = (r, new_id, next)" by (metis prod_cases3)
  have nx: "LONG_MIN \<le> next" "next \<le> LONG_MAX"
    using row_new_next [OF new] inv by (auto simp: tab_inv_def)
  let ?tab2 = "tab\<lparr>row_cap := c, rows_alloc := a, next_id := next\<rparr>"
  have inv2: "tab_inv ?tab2" "tab_mem ?tab2"
    using inv nx cap by (auto simp: tab_inv_def schema_ok_def tab_mem_def)
  have pko: "pk_ok (pk_idx ?tab2) (rows tab) (pk_tree ?tab2)"
    and uko: "uks_ok (uk_idx ?tab2) (rows tab) (uk_tree ?tab2)" using inv by (auto simp: tab_inv_def)
  show ?thesis
  proof (cases r)
    case None
    then show ?thesis using False cap new rn inv2 by (auto simp: ins_do_def insertable_def)
  next
    case (Some row)
    have p: "p < length (cols tab)" using inv pk by (auto simp: tab_inv_def schema_ok_def)
    have key: "pk_key p row = Some new_id" "length row = length (cols tab)"
      using row_new_key [OF new [unfolded Some] pk p _ _ short] inv by (auto simp: tab_inv_def)
    have dup: "chk_dup_pk ?tab2 new_id = Some (new_id \<in> key_set (pk_key p) (rows tab))"
      using chk_dup_pk_ok [OF pko] pk by simp
    have ukdup: "uk_check_row ?tab2 row (uk_idx tab) = Some (\<not> uks_unique (uk_idx tab) (rows tab @ [row]))"
      using uk_check_row_ok [OF uko, of "uk_idx tab" row] unique_check [OF uko, of row] by simp
    have able: "insertable tab ?vals \<longleftrightarrow>
        new_id \<notin> key_set (pk_key p) (rows tab) \<and> uks_unique (uk_idx tab) (rows tab @ [row])"
      using False new Some key(1) pko pk
      by (auto simp: insertable_def keys_unique_def pk_unique_def pk_ok_def unique_snoc)
    show ?thesis
    proof (cases "new_id \<in> key_set (pk_key p) (rows tab) \<or> \<not> uks_unique (uk_idx tab) (rows tab @ [row])")
      case True
      then obtain msg where "ins_do tab st res = Some (False, ?tab2, res_err res ''BAD_SQL'' msg)"
        using False cap new Some rn dup ukdup
        by (cases "new_id \<in> key_set (pk_key p) (rows tab)") (auto simp: ins_do_def Let_def)
      then show ?thesis using inv2 able True by auto
    next
      case ok: False
      have t: "tree_inv (pk_tree tab)" "set (pairs (root (pk_tree tab))) = index_set (pk_key p) (rows tab)"
        using pko pk by (auto simp: pk_ok_def)
      obtain t' where t': "tree_inv t'" "bptree_insert (pk_tree tab) new_id (int (length (rows tab))) = Some (1, t')"
        "set (pairs (root t')) = index_set (pk_key p) (rows tab @ [row])"
        using pk.insert_indexed [OF t key(1)] ok by auto
      obtain ts where ts: "uk_insert_row row (int (length (rows tab))) (uk_idx tab) (uk_tree tab) = Some (True, ts)"
        "uks_ok (uk_idx tab) (rows tab @ [row]) ts"
        using uk_insert_row_ok [OF uko, of row] ok by auto
      have "pk_unique (pk_idx tab) (rows tab @ [row])"
        using pko pk key(1) ok by (auto simp: pk_ok_def pk_unique_def unique_snoc)
      then have "pk_ok (pk_idx tab) (rows tab @ [row]) t'" using t' pk by (simp add: pk_ok_def)
      then have inv3: "tab_inv (?tab2\<lparr>rows := rows tab @ [row], pk_tree := t', uk_tree := ts\<rparr>)"
        using inv ts(2) key(2) nx by (auto simp: tab_inv_def schema_ok_def)
      have "ins_do tab st res = Some (True, ?tab2\<lparr>rows := rows tab @ [row], pk_tree := t', uk_tree := ts\<rparr>,
          res\<lparr>res_count := 1, last_id := new_id\<rparr>)"
        using False cap new Some rn dup ukdup ok t'(2) ts(1) by (simp add: ins_do_def Let_def)
      then show ?thesis using inv3 cap(2,3) key(1) ok able new Some by (auto simp: tab_mem_def)
    qed
  qed
qed

subsection \<open>UPDATE\<close>

definition upd_rows :: "tabver \<Rightarrow> statement \<Rightarrow> nat \<Rightarrow> row list" where
  "upd_rows tab st c =
     map (\<lambda>row. if row_match tab st row then row[c := norm_v 256 (set_val st)] else row) (rows tab)"

lemma upd_check_ok:
  assumes "uks_ok (uk_idx tab) all_rows (uk_tree tab)" "col_type (cols tab ! c) = COL_UK \<longrightarrow> c \<in> set (uk_idx tab)"
  shows "\<exists>b. upd_check tab st c v rs i = Some b \<and> (b \<longrightarrow> (\<exists>j<length rs. row_match tab st (rs ! j) \<and>
    col_type (cols tab ! c) = COL_UK \<and> (\<exists>m<length all_rows. int m \<noteq> i + int j \<and> val_key v \<noteq> None \<and>
      uk_key c (all_rows ! m) = val_key v)))"
proof (induction rs arbitrary: i)
  case (Cons row rs)
  obtain b where b: "upd_check tab st c v rs (i + 1) = Some b"
    and bI: "b \<Longrightarrow> \<exists>j<length rs. row_match tab st (rs ! j) \<and> col_type (cols tab ! c) = COL_UK \<and>
      (\<exists>m<length all_rows. int m \<noteq> i + 1 + int j \<and> val_key v \<noteq> None \<and> uk_key c (all_rows ! m) = val_key v)"
    using Cons [of "i + 1"] by blast
  let ?P = "\<lambda>j. row_match tab st ((row # rs) ! j) \<and> col_type (cols tab ! c) = COL_UK \<and>
    (\<exists>m<length all_rows. int m \<noteq> i + int j \<and> val_key v \<noteq> None \<and> uk_key c (all_rows ! m) = val_key v)"
  have later: "\<exists>j<length (row # rs). ?P j" if hb: b
  proof -
    obtain j where j: "j < length rs" "?P (Suc j)" using bI [OF hb] by (auto simp: algebra_simps)
    then have "Suc j < length (row # rs)" by simp
    with j(2) show ?thesis by blast
  qed
  show ?case
  proof (cases "row_match tab st row \<and> col_type (cols tab ! c) = COL_UK")
    case False
    then have "upd_check tab st c v (row # rs) i = Some b" using b by auto
    with later show ?thesis by blast
  next
    case True
    let ?d = "\<exists>m<length all_rows. int m \<noteq> i \<and> val_key v \<noteq> None \<and> uk_key c (all_rows ! m) = val_key v"
    have d: "chk_dup_uk tab c v i = Some ?d" using chk_dup_uk_ok [OF assms(1), of c v i] assms(2) True by blast
    show ?thesis
    proof (cases ?d)
      case dup: True
      then have "?P 0" using True by simp
      then have "\<exists>j<length (row # rs). ?P j" by (metis length_greater_0_conv list.distinct(1))
      moreover have "upd_check tab st c v (row # rs) i = Some True" using d dup True by simp
      ultimately show ?thesis by blast
    next
      case nodup: False
      then have "chk_dup_uk tab c v i = Some False" using d by simp
      then have "upd_check tab st c v (row # rs) i = Some b" using b True by simp
      with later show ?thesis by blast
    qed
  qed
qed auto

lemma upd_rows_dup:
  assumes "i < length (rows tab)" "row_match tab st (rows tab ! i)" "m < length (rows tab)" "m \<noteq> i"
    and "val_key (norm_v 256 (set_val st)) \<noteq> None"
    and "uk_key c (rows tab ! m) = val_key (norm_v 256 (set_val st))"
    and "\<forall>r\<in>set (rows tab). length r = length (cols tab)" "c < length (cols tab)"
  shows "\<not> unique (uk_key c) (upd_rows tab st c)"
proof
  assume u: "unique (uk_key c) (upd_rows tab st c)"
  obtain k where k: "val_key (norm_v 256 (set_val st)) = Some k" using assms(5) by auto
  have len: "length (rows tab ! x) = length (cols tab)" if "x < length (rows tab)" for x
    using assms(7) that by simp
  have i: "uk_key c (upd_rows tab st c ! i) = Some k"
    using assms(1,2,8) len k by (simp add: upd_rows_def uk_key_def)
  have m: "uk_key c (upd_rows tab st c ! m) = Some k"
    using assms(3,6,8) len k by (simp add: upd_rows_def uk_key_def)
  have "length (upd_rows tab st c) = length (rows tab)" by (simp add: upd_rows_def)
  with unique_nth [OF u _ _ i m] assms(1,3,4) show False by simp
qed

text \<open>Every outcome of an UPDATE that passes the checks on its columns.\<close>

lemma upd_do_outcome:
  assumes inv: "tab_inv tab" and cnt: "0 \<le> res_count res" and wh: "where_conditions st \<noteq> []"
    and c: "col_idx tab (set_col st) = Some c" "pk_idx tab \<noteq> Some c"
    and nn: "\<not> (col_type (cols tab ! c) = COL_NN \<and> norm_v 256 (set_val st) = [])"
  shows "\<exists>ok tab' res'. upd_do tab st res = Some (ok, tab', res') \<and>
    (ok \<longleftrightarrow> keys_unique (tab\<lparr>rows := upd_rows tab st c\<rparr>)) \<and>
    (ok \<longrightarrow> tab_inv tab' \<and> rows tab' = upd_rows tab st c \<and>
       res' = res\<lparr>res_count := res_count res + int (length (filter (row_match tab st) (rows tab)))\<rparr>) \<and>
    (\<not> ok \<longrightarrow> res' \<in> {res_err res ''BAD_SQL'' ''duplicate UK'',
       res_err (res\<lparr>res_count := res_count res + int (length (filter (row_match tab st) (rows tab)))\<rparr>)
         ''INT_ERR'' ''index rebuild failed''})"
proof -
  let ?v = "norm_v 256 (set_val st)"
  let ?hits = "length (filter (row_match tab st) (rows tab))"
  let ?tab1 = "tab\<lparr>rows := upd_rows tab st c\<rparr>"
  let ?res1 = "res\<lparr>res_count := res_count res + int ?hits\<rparr>"
  have cl: "c < length (cols tab)" using col_idx_Some [OF c(1)] by simp
  have sch: "schema_ok tab" and lens: "\<forall>r\<in>set (rows tab). length r = length (cols tab)"
    and uko: "uks_ok (uk_idx tab) (rows tab) (uk_tree tab)"
    and nx: "LONG_MIN \<le> next_id tab" "next_id tab \<le> LONG_MAX" using inv by (auto simp: tab_inv_def)
  have uk: "col_type (cols tab ! c) = COL_UK \<longleftrightarrow> c \<in> set (uk_idx tab)"
    using sch cl by (simp add: schema_ok_def)
  obtain b where b: "upd_check tab st c ?v (rows tab) 0 = Some b"
    and bI: "b \<Longrightarrow> \<exists>j<length (rows tab). row_match tab st (rows tab ! j) \<and> col_type (cols tab ! c) = COL_UK \<and>
      (\<exists>m<length (rows tab). int m \<noteq> 0 + int j \<and> val_key ?v \<noteq> None \<and> uk_key c (rows tab ! m) = val_key ?v)"
    using upd_check_ok [OF uko, of c st ?v "rows tab" 0] uk by blast
  have lens1: "\<forall>r\<in>set (rows ?tab1). length r = length (cols ?tab1)"
    using lens by (auto simp: upd_rows_def)
  have sch1: "schema_ok ?tab1" using sch by (simp add: schema_ok_def)
  have nhit: "upd_rows tab st c = rows tab" if "?hits = 0"
    using that by (auto simp: upd_rows_def filter_empty_conv intro: map_idI)
  show ?thesis
  proof (cases b)
    case True
    then obtain j m where "j < length (rows tab)" "row_match tab st (rows tab ! j)"
      "m < length (rows tab)" "m \<noteq> j" "val_key ?v \<noteq> None" "uk_key c (rows tab ! m) = val_key ?v"
      "c \<in> set (uk_idx tab)" using bI uk by auto
    then have "\<not> keys_unique ?tab1"
      using upd_rows_dup [of j tab st m c] lens cl by (auto simp: keys_unique_def uks_unique_def)
    moreover have "upd_do tab st res = Some (False, tab, res_err res ''BAD_SQL'' ''duplicate UK'')"
      using True b c wh nn by (auto simp: upd_do_def Let_def)
    ultimately show ?thesis by auto
  next
    case False
    show ?thesis
    proof (cases "res_count res + int ?hits = 0")
      case True
      then have "?hits = 0" "res_count res = 0" using cnt by linarith+
      moreover from this have "upd_do tab st res = Some (True, ?tab1, ?res1)"
        using False b c wh nn by (auto simp: upd_do_def Let_def upd_rows_def)
      ultimately show ?thesis
        using inv tab_inv_keys_unique [OF inv] nhit by auto
    next
      case hit: False
      then have "upd_do tab st res = rebuild ?tab1 ?res1"
        using False b c wh nn by (auto simp: upd_do_def Let_def upd_rows_def)
      moreover obtain t ts where "idx_build ?tab1 = Some (keys_unique ?tab1, ?tab1\<lparr>pk_tree := t, uk_tree := ts\<rparr>)"
        "keys_unique ?tab1 \<longrightarrow> tab_inv (?tab1\<lparr>pk_tree := t, uk_tree := ts\<rparr>)"
        using idx_build_tab_inv [OF sch1 lens1] nx by auto
      ultimately show ?thesis by (cases "keys_unique ?tab1") (auto simp: rebuild_def)
    qed
  qed
qed

subsection \<open>DELETE\<close>

lemma keys_unique_filter: "keys_unique tab \<Longrightarrow> keys_unique (tab\<lparr>rows := filter P (rows tab), rows_alloc := a\<rparr>)"
  by (auto simp: keys_unique_def pk_unique_def uks_unique_def intro: unique_filter split: option.splits)

lemma del_do_outcome:
  assumes inv: "tab_inv tab" and wh: "where_conditions st \<noteq> []"
  shows "\<exists>tab'. del_do tab st res = Some (True, tab',
      res\<lparr>res_count := res_count res + int (length (filter (row_match tab st) (rows tab)))\<rparr>) \<and>
    tab_inv tab' \<and> rows tab' = filter (\<lambda>row. \<not> row_match tab st row) (rows tab) \<and>
    row_cap tab' = row_cap tab \<and> rows_alloc tab' = length (rows tab)"
proof -
  let ?tab1 = "tab\<lparr>rows := filter (\<lambda>row. \<not> row_match tab st row) (rows tab), rows_alloc := length (rows tab)\<rparr>"
  have ku: "keys_unique ?tab1" by (rule keys_unique_filter [OF tab_inv_keys_unique [OF inv]])
  have "schema_ok ?tab1" "\<forall>r\<in>set (rows ?tab1). length r = length (cols ?tab1)"
    "LONG_MIN \<le> next_id ?tab1" "next_id ?tab1 \<le> LONG_MAX"
    using inv by (auto simp: tab_inv_def schema_ok_def)
  from idx_build_tab_inv [OF this] ku obtain t ts where
    "idx_build ?tab1 = Some (True, ?tab1\<lparr>pk_tree := t, uk_tree := ts\<rparr>)"
    "tab_inv (?tab1\<lparr>pk_tree := t, uk_tree := ts\<rparr>)" by auto
  then show ?thesis using wh by (simp add: del_do_def rebuild_def Let_def)
qed

end
