(* ===== verification/Table_Select.thy ===== *)
theory Table_Select
  imports Table_Write "HOL-Library.Multiset"
begin

text \<open>
  SELECT through an index gives what a scan of the table gives: the same rows, as a multiset
  (a range is visited in key order, a scan in row order).
\<close>

definition add_all :: "tabver \<Rightarrow> nat list \<Rightarrow> dbres \<Rightarrow> row list \<Rightarrow> dbres" where
  "add_all tab sel res rs = foldl (\<lambda>r row. res_add r tab row sel) res rs"

lemma add_all_Nil [simp]: "add_all tab sel res [] = res"
  by (simp add: add_all_def)

lemma add_all_Cons [simp]: "add_all tab sel res (r # rs) = add_all tab sel (res_add res tab r sel) rs"
  by (simp add: add_all_def)

lemma add_all_rows: "res_rows (add_all tab sel res rs) = res_rows res @ map (project tab sel) rs"
  by (induction rs arbitrary: res) (auto simp: res_add_def)

lemma add_all_count:
  "res_count res = int (length (res_rows res)) \<Longrightarrow>
   res_count (add_all tab sel res rs) = int (length (res_rows res) + length rs)"
  by (induction rs arbitrary: res) (auto simp: res_add_def)

lemma add_all_err [simp]: "err_code (add_all tab sel res rs) = err_code res"
  "last_id (add_all tab sel res rs) = last_id res" "snap_id (add_all tab sel res rs) = snap_id res"
  by (induction rs arbitrary: res) (auto simp: res_add_def)

lemma sel_scan_add_all:
  "sel_scan tab st sel rs res = add_all tab sel res (filter (row_match tab st) rs)"
  by (induction rs arbitrary: res) auto

definition row_at :: "tabver \<Rightarrow> int \<Rightarrow> row" where
  "row_at tab i = rows tab ! nat i"

lemma visit_sel_vis:
  "\<forall>e\<in>set es. 0 \<le> snd e \<and> snd e < int (length (rows tab)) \<Longrightarrow>
   visit_all (sel_vis tab st sel) es res =
     (True, add_all tab sel res (filter (row_match tab st) (map (\<lambda>e. row_at tab (snd e)) es)))"
  by (induction es arbitrary: res) (auto simp: sel_vis_def row_at_def Let_def)

subsection \<open>Rows found through a list of row numbers\<close>

lemma mset_rows_via:
  assumes "distinct is" "set is \<subseteq> {..<length rs}" "\<And>i. i < length rs \<Longrightarrow> P (rs ! i) \<Longrightarrow> i \<in> set is"
  shows "mset (filter P (map (\<lambda>i. rs ! i) is)) = mset (filter P rs)"
proof -
  have "set (filter (\<lambda>i. P (rs ! i)) is) = set (filter (\<lambda>i. P (rs ! i)) [0..<length rs])"
    using assms(2,3) by auto
  then have m: "mset (filter (\<lambda>i. P (rs ! i)) is) = mset (filter (\<lambda>i. P (rs ! i)) [0..<length rs])"
    using assms(1) by (subst set_eq_iff_mset_eq_distinct [symmetric]) auto
  have "filter P rs = filter P (map (\<lambda>i. rs ! i) [0..<length rs])" by (simp add: map_nth)
  also have "\<dots> = map (\<lambda>i. rs ! i) (filter (\<lambda>i. P (rs ! i)) [0..<length rs])"
    by (simp add: filter_map o_def)
  finally show ?thesis using arg_cong [OF m, of "image_mset (\<lambda>i. rs ! i)"]
    by (simp add: filter_map o_def)
qed

context ordered_index
begin

lemma range_rows:
  assumes "inv t" "set (entries t) = index_set key rs"
    and "\<And>i k. i < length rs \<Longrightarrow> P (rs ! i) \<Longrightarrow> \<exists>k. key (rs ! i) = Some k \<and> lo \<le> k \<and> k \<le> hi"
  defines "es \<equiv> filter (\<lambda>e. lo \<le> fst e \<and> fst e \<le> hi) (entries t)"
  shows "mset (filter P (map (\<lambda>e. rs ! nat (snd e)) es)) = mset (filter P rs)"
    and "\<forall>e\<in>set es. 0 \<le> snd e \<and> snd e < int (length rs)"
proof -
  have mem: "\<exists>i<length rs. snd e = int i \<and> key (rs ! i) = Some (fst e)" if "e \<in> set es" for e
    using that assms(2) in_index_set [of "fst e" "snd e" key rs] by (auto simp: es_def)
  then show "\<forall>e\<in>set es. 0 \<le> snd e \<and> snd e < int (length rs)" by fastforce
  have "distinct (map (\<lambda>e. nat (snd e)) es)"
  proof (subst distinct_map, intro conjI inj_onI)
    show "distinct es"
      using sorted_distinct_fst [OF entries_sorted [OF assms(1)]] by (simp add: es_def distinct_map)
    fix x y assume "x \<in> set es" "y \<in> set es" "nat (snd x) = nat (snd y)"
    then show "x = y" using mem [of x] mem [of y] by (metis nat_int option.inject prod_eqI)
  qed
  moreover have "set (map (\<lambda>e. nat (snd e)) es) \<subseteq> {..<length rs}" using mem by fastforce
  moreover have "i \<in> set (map (\<lambda>e. nat (snd e)) es)" if "i < length rs" "P (rs ! i)" for i
  proof -
    obtain k where "key (rs ! i) = Some k" "lo \<le> k" "k \<le> hi" using assms(3) [OF \<open>i < length rs\<close> \<open>P (rs ! i)\<close>] by blast
    then have "(k, int i) \<in> set es" using that assms(2) by (auto simp: es_def in_index_set)
    then show ?thesis by force
  qed
  ultimately show "mset (filter P (map (\<lambda>e. rs ! nat (snd e)) es)) = mset (filter P rs)"
    using mset_rows_via [of "map (\<lambda>e. nat (snd e)) es" rs P] by (simp add: o_def)
qed

lemma point_rows:
  assumes "inv t" "set (entries t) = index_set key rs" "unique key rs"
    and "\<And>i. i < length rs \<Longrightarrow> P (rs ! i) \<Longrightarrow> key (rs ! i) = Some k"
  shows "case search t k of Wild \<Rightarrow> False
    | Absent \<Rightarrow> filter P rs = []
    | Found r \<Rightarrow> 0 \<le> r \<and> r < int (length rs) \<and> mset (filter P [rs ! nat r]) = mset (filter P rs)"
proof (cases "search t k")
  case Absent
  then have "k \<notin> key_set key rs" using search_indexed(2) [OF assms(1,2)] by simp
  then have "\<not> P r" if "r \<in> set rs" for r
    using that assms(4) by (auto simp: key_set_def in_set_conv_nth Bex_def)
  then show ?thesis using Absent by (auto simp: filter_empty_conv)
next
  case (Found r)
  then obtain i where i: "i < length rs" "r = int i" "key (rs ! i) = Some k"
    using search_indexed(1) [OF assms(1,2)] by auto
  have "mset (filter P (map (\<lambda>i. rs ! i) [i])) = mset (filter P rs)"
    using i assms(4) unique_nth [OF assms(3)] by (intro mset_rows_via) auto
  then show ?thesis using Found i by simp
qed (use search_indexed(3) [OF assms(1,2)] in simp)

end

subsection \<open>The chosen condition\<close>

lemma pick_loop_Some:
  "pick_loop tab cs i s best = Some (ci, col) \<Longrightarrow> best = Some (ci, col) \<or>
   (i \<le> ci \<and> ci < i + length cs \<and> col_idx tab (cond_col (cs ! (ci - i))) = Some col \<and>
    0 < index_score tab (cs ! (ci - i)) col)"
proof (induction cs arbitrary: i s best)
  case (Cons c cs)
  have step: "?case" if "pick_loop tab cs (Suc i) s' best' = Some (ci, col)"
      "best' = best \<or> best' = Some (i, col') \<and> col_idx tab (cond_col c) = Some col' \<and> 0 < index_score tab c col'"
    for s' best' col'
    using Cons.IH [OF that(1)] that(2) by (auto simp: nth_Cons' Suc_diff_Suc less_eq_Suc_le)
  show ?case
    using Cons.prems step [of s best] step [of "index_score tab c (the (col_idx tab (cond_col c)))"
        "Some (i, the (col_idx tab (cond_col c)))" "the (col_idx tab (cond_col c))"]
    by (auto simp: Let_def split: option.splits if_splits)
qed simp

lemma pick_idx_Some:
  "pick_idx tab st = Some (ci, col) \<Longrightarrow> ci < length (where_conditions st) \<and>
   col_idx tab (cond_col (where_conditions st ! ci)) = Some col \<and>
   0 < index_score tab (where_conditions st ! ci) col"
  using pick_loop_Some [of tab "where_conditions st" 0 0 None] by (auto simp: pick_idx_def)

lemma row_match_cond:
  "row_match tab st row \<Longrightarrow> ci < length (where_conditions st) \<Longrightarrow> cond_match tab row (where_conditions st ! ci)"
  by (simp add: row_match_def list_all_length)

text \<open>
  The index condition can be answered by the index: a key that parses, or a value that is
  not blank (blank values are not in the index of a unique column).
\<close>

definition index_usable :: "tabver \<Rightarrow> where_condition \<Rightarrow> nat \<Rightarrow> bool" where
  "index_usable tab c col \<longleftrightarrow>
     (if pk_idx tab = Some col
      then parse_l (cond_val c) \<noteq> None \<and> (cond_type c = WHERE_BETWEEN \<longrightarrow> parse_l (cond_end_val c) \<noteq> None)
      else norm (cond_val c) \<noteq> [])"

definition select_usable :: "tabver \<Rightarrow> statement \<Rightarrow> bool" where
  "select_usable tab st \<longleftrightarrow> (case pick_idx tab st of None \<Rightarrow> True
     | Some (ci, col) \<Rightarrow> index_usable tab (where_conditions st ! ci) col)"

definition select_columns :: "tabver \<Rightarrow> statement \<Rightarrow> nat list option" where
  "select_columns tab st =
     (if select_all st then Some [0..<length (cols tab)] else sel_columns tab (select_cols st))"

text \<open>What a SELECT means.\<close>

definition select_spec :: "tabver \<Rightarrow> statement \<Rightarrow> nat list \<Rightarrow> (string \<times> string) list list" where
  "select_spec tab st sel = map (project tab sel) (filter (row_match tab st) (rows tab))"

subsection \<open>Index access agrees with the scan\<close>

lemma cond_match_pk:
  assumes "cond_match tab row c" "col_idx tab (cond_col c) = Some p" "pk_idx tab = Some p"
  shows "cond_type c = WHERE_EQ \<Longrightarrow> norm (row ! p) = norm (cond_val c)"
    and "cond_type c = WHERE_BETWEEN \<Longrightarrow> parse_l (cond_val c) = Some a0 \<Longrightarrow> parse_l (cond_end_val c) = Some a1 \<Longrightarrow>
      \<exists>k. pk_key p row = Some k \<and> a0 \<le> k \<and> k \<le> a1"
  using assms by (auto simp: cond_match_def cmp_v_iff pk_key_def split: option.splits)

lemma cond_match_uk:
  assumes "cond_match tab row c" "col_idx tab (cond_col c) = Some u" "pk_idx tab \<noteq> Some u"
    "norm (cond_val c) \<noteq> []"
  shows "cond_type c = WHERE_EQ \<Longrightarrow> uk_key u row = Some (norm (cond_val c))"
    and "cond_type c = WHERE_BETWEEN \<Longrightarrow>
      \<exists>k. uk_key u row = Some k \<and> norm (cond_val c) \<le> k \<and> k \<le> norm (cond_end_val c)"
  using assms by (auto simp: cond_match_def cmp_v_iff cmp_rng_iff uk_key_def val_key_def)

text \<open>Equal values have equal keys; both are read from the first 255 bytes.\<close>

definition key_text :: "tabver \<Rightarrow> bool" where
  "key_text tab \<longleftrightarrow> (\<forall>p row. pk_idx tab = Some p \<longrightarrow> row \<in> set (rows tab) \<longrightarrow> length (row ! p) < 256)"

lemma parse_l_norm: "length a < 256 \<Longrightarrow> length b < 256 \<Longrightarrow> norm a = norm b \<Longrightarrow> parse_l a = parse_l b"
  by (simp add: parse_l_def norm_v_def strbuf_id RECORD_SIZE_def)

lemma sel_search_ok:
  assumes "case r of Wild \<Rightarrow> False | Absent \<Rightarrow> filter (row_match tab st) (rows tab) = []
    | Found i \<Rightarrow> 0 \<le> i \<and> i < int (length (rows tab)) \<and>
        mset (filter (row_match tab st) [rows tab ! nat i]) = mset (filter (row_match tab st) (rows tab))"
  shows "\<exists>hits. sel_search tab st sel res r = Some (True, add_all tab sel res hits) \<and>
    mset hits = mset (filter (row_match tab st) (rows tab))"
proof (cases r)
  case Absent
  then show ?thesis using assms by (intro exI [of _ "[]"]) (simp add: sel_search_def)
next
  case (Found i)
  then show ?thesis using assms
    by (intro exI [of _ "filter (row_match tab st) [rows tab ! nat i]"])
      (auto simp: sel_search_def sel_vis_def Let_def)
qed (use assms in simp)

lemma sel_do_hits:
  assumes inv: "tab_inv tab" and sel: "select_columns tab st = Some sel" and us: "select_usable tab st"
    and txts: "key_text tab" "\<forall>c\<in>set (where_conditions st). length (cond_val c) < 256"
  shows "\<exists>hits. sel_do tab st res = Some (True, add_all tab sel res hits) \<and>
    mset hits = mset (filter (row_match tab st) (rows tab))"
proof (cases "pick_idx tab st")
  case None
  then show ?thesis using sel by (auto simp: sel_do_def select_columns_def sel_scan_add_all)
next
  case (Some pr)
  then obtain ci col where pick: "pick_idx tab st = Some (ci, col)" by (cases pr) auto
  let ?c = "where_conditions st ! ci"
  let ?m = "row_match tab st"
  note pki = pick_idx_Some [OF pick]
  have cm: "cond_match tab (rows tab ! i) ?c" if "?m (rows tab ! i)" for i
    using row_match_cond that pki by blast
  have usb: "index_usable tab ?c col" using us pick by (simp add: select_usable_def)
  have sel': "(if select_all st then Some [0..<length (cols tab)] else sel_columns tab (select_cols st)) = Some sel"
    using sel by (simp add: select_columns_def)
  show ?thesis
  proof (cases "pk_idx tab = Some col")
    case True
    have t: "tree_inv (pk_tree tab)" "set (pairs (root (pk_tree tab))) = index_set (pk_key col) (rows tab)"
      "unique (pk_key col) (rows tab)"
      using inv True by (auto simp: tab_inv_def pk_ok_def pk_unique_def)
    obtain a0 where a0: "parse_l (cond_val ?c) = Some a0" using usb True by (auto simp: index_usable_def)
    consider "cond_type ?c = WHERE_EQ" | "cond_type ?c = WHERE_BETWEEN"
      using pki by (auto simp: index_score_def split: if_splits)
    then show ?thesis
    proof cases
      case 1
      have "pk_key col (rows tab ! i) = Some a0" if "i < length (rows tab)" "?m (rows tab ! i)" for i
        using cond_match_pk(1) [OF cm [OF that(2)] _ True 1] pki a0 txts that(1) True
          parse_l_norm [of "rows tab ! i ! col" "cond_val ?c"]
        by (simp add: pk_key_def key_text_def)
      from sel_search_ok [OF pk.point_rows [OF t this]] show ?thesis
        using pick sel' True 1 a0 by (simp add: sel_do_def Let_def)
    next
      case 2
      obtain a1 where a1: "parse_l (cond_end_val ?c) = Some a1" using usb True 2 by (auto simp: index_usable_def)
      have k: "\<exists>k. pk_key col (rows tab ! i) = Some k \<and> a0 \<le> k \<and> k \<le> a1"
        if "i < length (rows tab)" "?m (rows tab ! i)" for i
        using cond_match_pk(2) [OF cm [OF that(2)] _ True 2 a0 a1] pki by blast
      note r = pk.range_rows [OF t(1,2), of ?m a0 a1, OF k]
      have "bptree_range_search (pk_tree tab) a0 a1 (sel_vis tab st sel) res =
          Some (True, add_all tab sel res (filter ?m (map (\<lambda>e. row_at tab (snd e))
            (filter (\<lambda>e. a0 \<le> fst e \<and> fst e \<le> a1) (pairs (root (pk_tree tab)))))))"
        using visit_sel_vis [OF r(2)] by (simp add: pk.range_spec [OF t(1)])
      then show ?thesis using pick sel' True 2 a0 a1 r(1) by (auto simp: sel_do_def Let_def row_at_def)
    qed
  next
    case False
    have ne: "norm (cond_val ?c) \<noteq> []" using usb False by (auto simp: index_usable_def)
    obtain j where j: "uk_slot tab col = Some j" using pki False by (auto simp: index_score_def split: if_splits)
    have t: "tree_inv (uk_tree tab ! j)" "set (pairs (root (uk_tree tab ! j))) = index_set (uk_key col) (rows tab)"
      "unique (uk_key col) (rows tab)"
      using uks_ok_slot [OF _ j, of "rows tab" "uk_tree tab"] inv by (auto simp: tab_inv_def uk_ok_def)
    consider "cond_type ?c = WHERE_EQ" | "cond_type ?c = WHERE_BETWEEN"
      using pki by (auto simp: index_score_def split: if_splits)
    then show ?thesis
    proof cases
      case 1
      have "uk_key col (rows tab ! i) = Some (norm (cond_val ?c))"
        if "i < length (rows tab)" "?m (rows tab ! i)" for i
        using cond_match_uk(1) [OF cm [OF that(2)] _ False ne 1] pki by blast
      from sel_search_ok [OF uk.point_rows [OF t this]] show ?thesis
        using pick sel' False 1 j by (simp add: sel_do_def Let_def)
    next
      case 2
      let ?lo = "norm (cond_val ?c)" and ?hi = "norm (cond_end_val ?c)"
      have k: "\<exists>k. uk_key col (rows tab ! i) = Some k \<and> ?lo \<le> k \<and> k \<le> ?hi"
        if "i < length (rows tab)" "?m (rows tab ! i)" for i
        using cond_match_uk(2) [OF cm [OF that(2)] _ False ne 2] pki by blast
      note r = uk.range_rows [OF t(1,2), of ?m ?lo ?hi, OF k]
      have "bptree_string_range_search (uk_tree tab ! j) ?lo ?hi (sel_vis tab st sel) res =
          Some (True, add_all tab sel res (filter ?m (map (\<lambda>e. row_at tab (snd e))
            (filter (\<lambda>e. ?lo \<le> fst e \<and> fst e \<le> ?hi) (pairs (root (uk_tree tab ! j)))))))"
        using visit_sel_vis [OF r(2)] by (simp add: uk.range_spec [OF t(1)])
      then show ?thesis using pick sel' False 2 j r(1) by (auto simp: sel_do_def Let_def row_at_def)
    qed
  qed
qed

lemma sel_do_spec:
  assumes "tab_inv tab" "select_columns tab st = Some sel" "select_usable tab st"
    and "key_text tab" "\<forall>c\<in>set (where_conditions st). length (cond_val c) < 256"
  shows "\<exists>res'. sel_do tab st res_clr = Some (True, res') \<and> err_code res' = [] \<and>
    mset (res_rows res') = mset (select_spec tab st sel) \<and>
    res_count res' = int (length (select_spec tab st sel))"
proof -
  obtain hits where h: "sel_do tab st res_clr = Some (True, add_all tab sel res_clr hits)"
    "mset hits = mset (filter (row_match tab st) (rows tab))"
    using sel_do_hits [OF assms] by blast
  have "mset (map (project tab sel) hits) = mset (select_spec tab st sel)"
    using h(2) by (simp add: select_spec_def)
  moreover have "length hits = length (select_spec tab st sel)"
    using mset_eq_length [OF h(2)] by (simp add: select_spec_def)
  ultimately show ?thesis
    using h(1) by (simp add: add_all_rows add_all_count res_clr_def)
qed

end
