(* ===== verification/Table_Props.thy ===== *)
theory Table_Props
  imports Table_Select
begin

text \<open>
  The properties of one table: building its indexes, INSERT, UPDATE, DELETE and SELECT, the automatic
  keys, and two sequences of statements on which the row array and the key index go wrong.
\<close>

subsection \<open>A small table\<close>

definition demo_cols :: "column list" where
  "demo_cols = [\<lparr>col_name = ''id'', col_type = COL_PK\<rparr>, \<lparr>col_name = ''name'', col_type = COL_UK\<rparr>,
     \<lparr>col_name = ''age'', col_type = COL_NN\<rparr>]"

definition demo_with :: "row list \<Rightarrow> tabver" where
  "demo_with rs = \<lparr>tab_name = ''users'', cols = demo_cols, pk_idx = Some 0, uk_idx = [1], rows = rs,
     row_cap = length rs, rows_alloc = length rs, next_id = 3, ver_id = 1, pk_tree = bptree_create,
     uk_tree = [bptree_string_create], prev = None\<rparr>"

definition demo_rows :: "row list" where
  "demo_rows = [[''1'', ''ann'', ''30''], [''2'', ''bob'', ''25'']]"

definition demo_tab :: tabver where
  "demo_tab = snd (the (idx_build (demo_with demo_rows)))"

definition demo_sql :: "string \<Rightarrow> statement" where
  "demo_sql s = the (parse_statement s)"

lemma demo_schema: "schema_ok (demo_with rs)"
  by (auto simp: schema_ok_def demo_with_def demo_cols_def less_Suc_eq_0_disj nth_Cons')

lemma demo_build:
  "\<exists>t ts. idx_build (demo_with demo_rows) = Some (True, (demo_with demo_rows)\<lparr>pk_tree := t, uk_tree := ts\<rparr>) \<and>
     tab_inv ((demo_with demo_rows)\<lparr>pk_tree := t, uk_tree := ts\<rparr>)"
proof -
  have ku: "keys_unique (demo_with demo_rows)" by code_simp
  have "\<forall>r\<in>set (rows (demo_with demo_rows)). length r = length (cols (demo_with demo_rows))"
    "LONG_MIN \<le> next_id (demo_with demo_rows)" "next_id (demo_with demo_rows) \<le> LONG_MAX"
    by (simp_all add: demo_with_def demo_rows_def demo_cols_def LONG_MIN_def LONG_MAX_def)
  from idx_build_tab_inv [OF demo_schema this] ku show ?thesis by simp
qed

lemma demo_tab: "tab_inv demo_tab" "tab_mem demo_tab" "rows demo_tab = demo_rows" "cols demo_tab = demo_cols"
  "pk_idx demo_tab = Some 0" "next_id demo_tab = 3"
  using demo_build by (auto simp: demo_tab_def demo_with_def tab_mem_def)

subsection \<open>The indexes\<close>

text \<open>
  Building the indexes of a table never leaves its trees, succeeds exactly when the keys parse and
  are unique, and then the indexes agree with the rows; only the trees change.
\<close>

theorem idx_build_iff_unique:
  assumes "schema_ok tab" "\<forall>r\<in>set (rows tab). length r = length (cols tab)"
    and "LONG_MIN \<le> next_id tab" "next_id tab \<le> LONG_MAX"
  shows "\<exists>ok tab'. idx_build tab = Some (ok, tab') \<and> (ok \<longleftrightarrow> keys_unique tab) \<and> (ok \<longrightarrow> tab_inv tab') \<and>
    tab' = tab\<lparr>pk_tree := pk_tree tab', uk_tree := uk_tree tab'\<rparr>"
  using idx_build_tab_inv [OF assms] by auto

theorem idx_build_iff_unique_witness:
  "\<exists>tab'. idx_build (demo_with [[''1'', ''ann'', ''30''], [''2'', ''ann'', ''4'']]) = Some (False, tab')"
proof -
  let ?t = "demo_with [[''1'', ''ann'', ''30''], [''2'', ''ann'', ''4'']]"
  have "\<not> keys_unique ?t" by code_simp
  moreover have "\<forall>r\<in>set (rows ?t). length r = length (cols ?t)" "LONG_MIN \<le> next_id ?t" "next_id ?t \<le> LONG_MAX"
    by (simp_all add: demo_with_def demo_cols_def LONG_MIN_def LONG_MAX_def)
  ultimately show ?thesis using idx_build_iff_unique [OF demo_schema, of "[[''1'', ''ann'', ''30''], [''2'', ''ann'', ''4'']]"]
    by auto
qed

subsection \<open>INSERT\<close>

text \<open>
  C6. INSERT into a table with a primary key, with values that fit the key buffer, succeeds exactly when
  there is room, the values make a row and its keys are new. Then exactly that row is added at the end and its key is
  reported; otherwise the rows stay and an error is reported. The indexes agree with the rows in either case.
\<close>

theorem ins_do_correct:
  assumes "tab_inv tab" "tab_mem tab" "pk_idx tab = Some p"
    and "\<forall>v\<in>set (split_csv (row_data st) MAX_COLS RECORD_SIZE). length v < 256"
  shows "\<exists>ok tab' res'. ins_do tab st res = Some (ok, tab', res') \<and> tab_inv tab' \<and> tab_mem tab' \<and>
    (ok \<longleftrightarrow> insertable tab (split_csv (row_data st) MAX_COLS RECORD_SIZE)) \<and>
    (if ok then \<exists>row. rows tab' = rows tab @ [row] \<and> pk_key p row = Some (last_id res') \<and>
       row_new tab (split_csv (row_data st) MAX_COLS RECORD_SIZE) = (Some row, last_id res', next_id tab') \<and>
       res' = res\<lparr>res_count := 1, last_id := last_id res'\<rparr>
     else rows tab' = rows tab \<and> refused res res')"
  using ins_do_outcome [OF assms, of res] by (elim exE conjE, intro exI conjI) (auto split: if_splits)

definition demo_insert :: statement where
  "demo_insert = demo_sql ''INSERT INTO users VALUES (NULL, eve, 41)''"

lemma demo_insert_short:
  "\<forall>v\<in>set (split_csv (row_data demo_insert) MAX_COLS RECORD_SIZE). length v < 256"
  by code_simp

theorem ins_do_correct_witness:
  "\<exists>tab' res'. ins_do demo_tab demo_insert res_clr = Some (True, tab', res') \<and> tab_inv tab' \<and>
     length (rows tab') = 3 \<and> res_count res' = 1"
proof -
  have "case row_new demo_tab (split_csv (row_data demo_insert) MAX_COLS RECORD_SIZE) of (None, _, _) \<Rightarrow> False
      | (Some row, _, _) \<Rightarrow> keys_unique (demo_tab\<lparr>rows := rows demo_tab @ [row]\<rparr>)" by code_simp
  then have able: "insertable demo_tab (split_csv (row_data demo_insert) MAX_COLS RECORD_SIZE)"
    by (simp add: insertable_def demo_tab(3) demo_rows_def MAX_RECORDS_def)
  obtain ok tab' res' where o: "ins_do demo_tab demo_insert res_clr = Some (ok, tab', res')" "tab_inv tab'" "ok"
    and r: "\<exists>row. rows tab' = rows demo_tab @ [row] \<and> res' = res_clr\<lparr>res_count := 1, last_id := last_id res'\<rparr>"
    using ins_do_correct [OF demo_tab(1,2,5) demo_insert_short, of res_clr] able by metis
  from r have "length (rows tab') = 3" by (auto simp: demo_tab(3) demo_rows_def)
  moreover from r have "res_count res' = 1" by (metis (no_types) dbres.select_convs(2) dbres.surjective dbres.update_convs(2,3))
  ultimately show ?thesis using o by auto
qed

text \<open>Every key is below the next automatic key.\<close>

definition next_fresh :: "tabver \<Rightarrow> bool" where
  "next_fresh tab \<longleftrightarrow> (\<forall>p. pk_idx tab = Some p \<longrightarrow> (\<forall>k\<in>key_set (pk_key p) (rows tab). k < next_id tab))"

definition wants_auto_key :: "tabver \<Rightarrow> nat \<Rightarrow> string list \<Rightarrow> bool" where
  "wants_auto_key tab p vals \<longleftrightarrow>
     length vals \<noteq> length (cols tab) \<or> vals ! p = [] \<or> cmp_v (vals ! p) ''NULL''"

lemma row_new_auto:
  assumes "row_new tab vals = (Some row, new_id, next)" "pk_idx tab = Some p" "wants_auto_key tab p vals"
  shows "new_id = next_id tab"
  using assms unfolding row_new_def Let_def wants_auto_key_def
  by (auto split: if_splits option.splits)

lemma row_new_above:
  assumes "row_new tab vals = (Some row, new_id, next)" "pk_idx tab = Some p"
    and "LONG_MIN \<le> next_id tab" "LONG_MIN \<le> new_id" "next_id tab < LONG_MAX" "new_id < LONG_MAX"
  shows "next_id tab \<le> next \<and> new_id < next"
  using assms wrap64_id [of "next_id tab + 1"] wrap64_id [of "new_id + 1"] unfolding row_new_def Let_def
  by (auto split: if_splits option.splits)

text \<open>
  C17. Automatic keys never collide: while every key is below \<open>next_id\<close>, an INSERT that leaves its key to
  the table gets the key \<open>next_id\<close>, and is accepted whenever there is room, its values make a row and its unique columns are new;
  and every accepted INSERT, with its own key or not, keeps the keys below \<open>next_id\<close>, short of \<open>LONG_MAX\<close>.
\<close>

theorem ins_do_auto_key:
  assumes "tab_inv tab" "tab_mem tab" "pk_idx tab = Some p"
    and "\<forall>v\<in>set (split_csv (row_data st) MAX_COLS RECORD_SIZE). length v < 256"
    and "next_fresh tab" "next_id tab < LONG_MAX"
    and "row_new tab (split_csv (row_data st) MAX_COLS RECORD_SIZE) = (Some row, new_id, next)"
    and "uks_unique (uk_idx tab) (rows tab @ [row])" "length (rows tab) < MAX_RECORDS" "new_id < LONG_MAX"
  shows "\<exists>ok tab' res'. ins_do tab st res = Some (ok, tab', res') \<and> (ok \<longrightarrow> next_fresh tab') \<and>
    (wants_auto_key tab p (split_csv (row_data st) MAX_COLS RECORD_SIZE) \<longrightarrow> ok \<and> last_id res' = next_id tab)"
proof -
  let ?vals = "split_csv (row_data st) MAX_COLS RECORD_SIZE"
  have p: "p < length (cols tab)" "LONG_MIN \<le> next_id tab" "next_id tab \<le> LONG_MAX"
    and pku: "pk_unique (Some p) (rows tab)"
    using assms(1,3) by (auto simp: tab_inv_def schema_ok_def pk_ok_def)
  have key: "pk_key p row = Some new_id" by (rule row_new_key(1) [OF assms(7,3) p assms(4)])
  then have "LONG_MIN \<le> new_id" using parse_l_range by (auto simp: pk_key_def)
  then have above: "next_id tab \<le> next" "new_id < next"
    using row_new_above [OF assms(7,3)] p(2) assms(6,10) by auto
  obtain ok tab' res' where o: "ins_do tab st res = Some (ok, tab', res')" "ok \<longleftrightarrow> insertable tab ?vals"
    "pk_idx tab' = pk_idx tab"
    and r: "ok \<Longrightarrow> rows tab' = rows tab @ [row] \<and> last_id res' = new_id \<and> next_id tab' = next"
    using ins_do_outcome [OF assms(1-4), of res] assms(7) by (elim exE conjE) (auto split: if_splits)
  have "next_fresh tab'" if ok
    using assms(3,5) r [OF that] o(3) key above by (fastforce simp: next_fresh_def key_set_def)
  moreover have "ok \<and> last_id res' = next_id tab" if auto: "wants_auto_key tab p ?vals"
  proof -
    have id: "new_id = next_id tab" by (rule row_new_auto [OF assms(7,3) auto])
    then have "new_id \<notin> key_set (pk_key p) (rows tab)" using assms(3,5) by (auto simp: next_fresh_def)
    then have "insertable tab ?vals"
      using assms(3,7-9) key pku by (auto simp: insertable_def keys_unique_def pk_unique_def unique_snoc)
    then show ?thesis using o(2) r id by simp
  qed
  ultimately show ?thesis using o(1) by blast
qed

theorem ins_do_auto_key_witness:
  "\<exists>tab' res'. ins_do demo_tab demo_insert res_clr = Some (True, tab', res') \<and> last_id res' = 3 \<and> next_fresh tab'"
proof -
  let ?vals = "split_csv (row_data demo_insert) MAX_COLS RECORD_SIZE"
  have new: "row_new demo_tab ?vals = (Some [''3'', ''eve'', ''41''], 3, 4)" by code_simp
  have "next_fresh demo_tab"
  proof -
    have "\<forall>r\<in>set demo_rows. case pk_key 0 r of None \<Rightarrow> True | Some k \<Rightarrow> k < 3" by code_simp
    then show ?thesis by (auto simp: next_fresh_def key_set_def demo_tab)
  qed
  moreover have "uks_unique (uk_idx demo_tab) (rows demo_tab @ [[''3'', ''eve'', ''41'']])" by code_simp
  moreover have "wants_auto_key demo_tab 0 ?vals" by code_simp
  moreover have "length (rows demo_tab) < MAX_RECORDS" by (simp add: demo_tab demo_rows_def MAX_RECORDS_def)
  ultimately show ?thesis
    using ins_do_auto_key [OF demo_tab(1,2,5) demo_insert_short _ _ new, of res_clr] demo_tab(6)
    by (auto simp: LONG_MAX_def)
qed

subsection \<open>UPDATE and DELETE\<close>

text \<open>
  C8. An UPDATE that passes the checks on its column succeeds exactly when the keys of the updated rows
  are unique. Then the matching rows, and only they, have the new value, the indexes agree with them,
  and the number of matching rows is reported; otherwise a duplicate is reported.
\<close>

theorem upd_do_correct:
  assumes "tab_inv tab" "0 \<le> res_count res" "where_conditions st \<noteq> []"
    and "col_idx tab (set_col st) = Some c" "pk_idx tab \<noteq> Some c"
    and "\<not> (col_type (cols tab ! c) = COL_NN \<and> norm_v 256 (set_val st) = [])"
  shows "\<exists>ok tab' res'. upd_do tab st res = Some (ok, tab', res') \<and>
    (ok \<longleftrightarrow> keys_unique (tab\<lparr>rows := upd_rows tab st c\<rparr>)) \<and>
    (if ok then tab_inv tab' \<and> rows tab' = upd_rows tab st c \<and>
       res' = res\<lparr>res_count := res_count res + int (length (filter (row_match tab st) (rows tab)))\<rparr>
     else err_code res' \<in> {''BAD_SQL'', ''INT_ERR''})"
proof -
  have e: "err_code (res_err r ''BAD_SQL'' m) = ''BAD_SQL''" "err_code (res_err r ''INT_ERR'' m) = ''INT_ERR''" for r m
    by (simp_all add: res_err_def strbuf_def)
  obtain ok tab' res' where o: "upd_do tab st res = Some (ok, tab', res')"
    "ok \<longleftrightarrow> keys_unique (tab\<lparr>rows := upd_rows tab st c\<rparr>)"
    "ok \<longrightarrow> tab_inv tab' \<and> rows tab' = upd_rows tab st c \<and>
       res' = res\<lparr>res_count := res_count res + int (length (filter (row_match tab st) (rows tab)))\<rparr>"
    "\<not> ok \<longrightarrow> res' \<in> {res_err res ''BAD_SQL'' ''duplicate UK'',
       res_err (res\<lparr>res_count := res_count res + int (length (filter (row_match tab st) (rows tab)))\<rparr>)
         ''INT_ERR'' ''index rebuild failed''}"
    using upd_do_outcome [OF assms] by blast
  have "err_code res' \<in> {''BAD_SQL'', ''INT_ERR''}" if "\<not> ok" using o(4) that by (auto simp: e)
  then show ?thesis using o(1-3) by (intro exI [of _ ok] exI [of _ tab'] exI [of _ res']) simp
qed

definition demo_update :: statement where
  "demo_update = demo_sql ''UPDATE users SET age = 26 WHERE name = bob''"

theorem upd_do_correct_witness:
  "\<exists>tab' res'. upd_do demo_tab demo_update res_clr = Some (True, tab', res') \<and>
     rows tab' = [[''1'', ''ann'', ''30''], [''2'', ''bob'', ''26'']]"
proof -
  have c: "col_idx demo_tab (set_col demo_update) = Some 2" by code_simp
  have "keys_unique (demo_tab\<lparr>rows := upd_rows demo_tab demo_update 2\<rparr>)" by code_simp
  moreover have "upd_rows demo_tab demo_update 2 = [[''1'', ''ann'', ''30''], [''2'', ''bob'', ''26'']]" by code_simp
  moreover have "where_conditions demo_update \<noteq> []" by code_simp
  moreover have "\<not> (col_type (cols demo_tab ! 2) = COL_NN \<and> norm_v 256 (set_val demo_update) = [])" by code_simp
  ultimately show ?thesis
    using upd_do_correct [OF demo_tab(1) _ _ c, of res_clr] by (auto simp: demo_tab(5) res_clr_def)
qed

text \<open>
  C9. DELETE with a condition always succeeds on a well-formed table: it keeps exactly the rows that
  do not match, in their order, the indexes agree with them, and it reports how many rows it removed.
\<close>

theorem del_do_correct:
  assumes "tab_inv tab" "where_conditions st \<noteq> []"
  shows "\<exists>tab'. del_do tab st res = Some (True, tab',
      res\<lparr>res_count := res_count res + int (length (filter (row_match tab st) (rows tab)))\<rparr>) \<and>
    tab_inv tab' \<and> rows tab' = filter (\<lambda>row. \<not> row_match tab st row) (rows tab)"
  using del_do_outcome [OF assms, of res] by blast

definition demo_remove :: statement where
  "demo_remove = demo_sql ''DELETE FROM users WHERE id BETWEEN 2 AND 9''"

theorem del_do_correct_witness:
  "\<exists>tab' res'. del_do demo_tab demo_remove res_clr = Some (True, tab', res') \<and> rows tab' = [[''1'', ''ann'', ''30'']]"
proof -
  have "filter (\<lambda>row. \<not> row_match demo_tab demo_remove row) (rows demo_tab) = [[''1'', ''ann'', ''30'']]" by code_simp
  moreover have "where_conditions demo_remove \<noteq> []" by code_simp
  ultimately show ?thesis using del_do_correct [OF demo_tab(1), of demo_remove res_clr] by auto
qed

subsection \<open>SELECT\<close>


definition demo_select :: statement where
  "demo_select = demo_sql ''SELECT age FROM users WHERE name = bob''"


subsection \<open>Two sequences that go wrong\<close>

text \<open>The statements of one transaction, one after the other, on one working copy.\<close>

fun run_stmts :: "tabver \<Rightarrow> statement list \<Rightarrow> outcome" where
  "run_stmts tab [] = Some (True, tab, res_clr)"
| "run_stmts tab (st # sts) =
     (case exec_stmt tab st res_clr of
        None \<Rightarrow> None
      | Some (ok, tab', res') \<Rightarrow> if ok \<and> sts \<noteq> [] then run_stmts tab' sts else Some (ok, tab', res'))"

text \<open>
  DELETE gives the table a row array for the rows it had, but leaves \<open>row_cap\<close> as it was: on an empty
  table, INSERT, DELETE and two more INSERTs in one transaction store a row past the end of that array, although the
  first three succeed.
\<close>

theorem delete_keeps_stale_capacity:
  "tab_mem (demo_with []) \<and>
   (\<exists>tab' res'. run_stmts (demo_with []) [demo_insert, demo_sql ''DELETE FROM users WHERE name = eve'', demo_insert] =
      Some (True, tab', res')) \<and>
   run_stmts (demo_with []) [demo_insert, demo_sql ''DELETE FROM users WHERE name = eve'', demo_insert,
      demo_sql ''INSERT INTO users VALUES (NULL, dan, 50)''] = None"
proof (intro conjI)
  show "tab_mem (demo_with [])" by (simp add: tab_mem_def demo_with_def)
  have "case run_stmts (demo_with []) [demo_insert, demo_sql ''DELETE FROM users WHERE name = eve'', demo_insert] of
      None \<Rightarrow> False | Some (ok, _) \<Rightarrow> ok" by code_simp
  then show "\<exists>tab' res'. run_stmts (demo_with []) [demo_insert, demo_sql ''DELETE FROM users WHERE name = eve'', demo_insert] =
      Some (True, tab', res')" by (auto split: option.splits)
  show "run_stmts (demo_with []) [demo_insert, demo_sql ''DELETE FROM users WHERE name = eve'', demo_insert,
      demo_sql ''INSERT INTO users VALUES (NULL, dan, 50)''] = None" by code_simp
qed

text \<open>
  A table without a primary key takes one INSERT per working copy: every row is indexed under the
  key 0, so the second INSERT fails with an internal error after its row was added.
\<close>

definition keyless :: tabver where
  "keyless = (demo_with [])\<lparr>cols := [\<lparr>col_name = ''a'', col_type = COL_NORMAL\<rparr>], pk_idx := None,
     uk_idx := [], uk_tree := []\<rparr>"

theorem insert_without_key_fails:
  "case run_stmts keyless [demo_sql ''INSERT INTO t VALUES (x)'', demo_sql ''INSERT INTO t VALUES (y)''] of
     None \<Rightarrow> False
   | Some (ok, tab, res) \<Rightarrow> \<not> ok \<and> err_code res = ''INT_ERR'' \<and> rows tab = [[''x''], [''y'']]"
  by code_simp

end
