(* ===== verification/Csv_Correct.thy ===== *)
theory Csv_Correct
  imports Csv
begin

text \<open>
  Loaded tables satisfy the invariant of tables, and loading what was saved gives the
  schema and the rows back.
\<close>

subsection \<open>Headers\<close>

definition add_col :: "nat \<Rightarrow> column \<Rightarrow> header \<Rightarrow> header option" where
  "add_col i c h =
     (case col_type c of
        COL_PK \<Rightarrow> Some (h\<lparr>hdr_cols := hdr_cols h @ [c], hdr_pk := Some i\<rparr>)
      | COL_UK \<Rightarrow> if length (hdr_uks h) \<ge> MAX_UKS then None
                  else Some (h\<lparr>hdr_cols := hdr_cols h @ [c], hdr_uks := hdr_uks h @ [i]\<rparr>)
      | _ \<Rightarrow> Some (h\<lparr>hdr_cols := hdr_cols h @ [c]\<rparr>))"

fun add_cols :: "nat \<Rightarrow> column list \<Rightarrow> header \<Rightarrow> header option" where
  "add_cols i [] h = Some h"
| "add_cols i (c # cs) h = (case add_col i c h of None \<Rightarrow> None | Some h' \<Rightarrow> add_cols (Suc i) cs h')"

abbreviation no_header :: header where
  "no_header \<equiv> \<lparr>hdr_cols = [], hdr_pk = None, hdr_uks = []\<rparr>"

text \<open>A table whose key columns are those that its column types say.\<close>

definition canonical :: "tabver \<Rightarrow> bool" where
  "canonical tab \<longleftrightarrow> add_cols 0 (cols tab) no_header =
     Some \<lparr>hdr_cols = cols tab, hdr_pk = pk_idx tab, hdr_uks = uk_idx tab\<rparr>"

definition header_ok :: "nat \<Rightarrow> header \<Rightarrow> bool" where
  "header_ok i h \<longleftrightarrow> length (hdr_cols h) = i \<and> distinct (hdr_uks h) \<and>
     (\<forall>p. hdr_pk h = Some p \<longrightarrow> p < i \<and> p \<notin> set (hdr_uks h)) \<and>
     (\<forall>j<i. col_type (hdr_cols h ! j) = COL_UK \<longleftrightarrow> j \<in> set (hdr_uks h)) \<and>
     (\<forall>u\<in>set (hdr_uks h). u < i) \<and> length (hdr_uks h) \<le> MAX_UKS"

lemma load_col_add: "\<exists>c. load_col i raw h = add_col i c h"
proof (cases "strchr (trim_uq raw) (CHR ''('')")
  case None
  then show ?thesis
    by (intro exI [of _ "\<lparr>col_name = strbuf 50 (trim_uq raw), col_type = COL_NORMAL\<rparr>"])
      (simp add: load_col_def add_col_def)
next
  case (Some tag)
  let ?n = "strbuf 50 (take (length (trim_uq raw) - length tag) (trim_uq raw))"
  let ?ty = "if strstr tag ''(PK)'' \<noteq> None then COL_PK else if strstr tag ''(UK)'' \<noteq> None then COL_UK
    else if strstr tag ''(NN)'' \<noteq> None then COL_NN else COL_NORMAL"
  show ?thesis using Some
    by (intro exI [of _ "\<lparr>col_name = ?n, col_type = ?ty\<rparr>"]) (simp add: load_col_def add_col_def Let_def)
qed

lemma load_cols_add: "load_cols i vs h = Some h' \<Longrightarrow> \<exists>cs. length cs = length vs \<and> add_cols i cs h = Some h'"
proof (induction vs arbitrary: i h)
  case (Cons v vs)
  then obtain h1 where h1: "load_col i v h = Some h1" "load_cols (Suc i) vs h1 = Some h'"
    by (auto split: option.splits)
  obtain c where "add_col i c h = Some h1" using load_col_add h1(1) by metis
  moreover obtain cs where "length cs = length vs" "add_cols (Suc i) cs h1 = Some h'"
    using Cons.IH [OF h1(2)] by blast
  ultimately show ?case by (intro exI [of _ "c # cs"]) simp
qed simp

lemma add_col_ok: "add_col i c h = Some h' \<Longrightarrow> header_ok i h \<Longrightarrow> header_ok (Suc i) h' \<and> hdr_cols h' = hdr_cols h @ [c]"
  by (auto simp: add_col_def header_ok_def nth_append less_Suc_eq split: column_type.splits if_splits)

lemma add_cols_ok:
  "add_cols i cs h = Some h' \<Longrightarrow> header_ok i h \<Longrightarrow>
   header_ok (i + length cs) h' \<and> hdr_cols h' = hdr_cols h @ cs"
proof (induction cs arbitrary: i h)
  case (Cons c cs)
  then obtain h1 where h1: "add_col i c h = Some h1" "add_cols (Suc i) cs h1 = Some h'"
    by (auto split: option.splits)
  with Cons.IH [OF h1(2)] add_col_ok [OF h1(1) Cons.prems(2)] show ?case by auto
qed simp

lemma header_ok_empty [simp]: "header_ok 0 no_header"
  by (simp add: header_ok_def)

lemma load_hdr_ok:
  assumes "load_hdr line = Some h"
  shows "header_ok (length (hdr_cols h)) h" "add_cols 0 (hdr_cols h) no_header = Some h"
    "length (hdr_cols h) \<le> MAX_COLS"
proof -
  obtain cs where cs: "length cs = length (split_csv line MAX_COLS RECORD_SIZE)"
    "add_cols 0 cs no_header = Some h"
    using load_cols_add assms unfolding load_hdr_def by blast
  have c: "hdr_cols h = cs" "header_ok (length cs) h" using add_cols_ok [OF cs(2)] by auto
  then show "header_ok (length (hdr_cols h)) h" "add_cols 0 (hdr_cols h) no_header = Some h"
    using cs(2) by auto
  show "length (hdr_cols h) \<le> MAX_COLS"
    using c(1) cs(1) length_split_csv [of MAX_COLS line RECORD_SIZE] by (simp add: MAX_COLS_def)
qed

subsection \<open>A loaded table satisfies the invariant\<close>

text \<open>What holds of a table while its rows are read.\<close>

definition loading :: "tabver \<Rightarrow> bool" where
  "loading tab \<longleftrightarrow> schema_ok tab \<and> (\<forall>r\<in>set (rows tab). length r = length (cols tab)) \<and>
     LONG_MIN \<le> next_id tab \<and> next_id tab \<le> LONG_MAX \<and> tab_mem tab"

lemma grow_cap_ge: "grow_cap cap need = Some c \<Longrightarrow> need \<le> c"
proof (induction cap need rule: grow_cap.induct)
  case (1 cap need)
  then show ?case by (subst (asm) (2) grow_cap.simps) (auto split: if_splits)
qed

lemma ensure_row_cap_Some:
  assumes "ensure_row_cap tab n = Some tab'"
  shows "\<exists>c a. tab' = tab\<lparr>row_cap := c, rows_alloc := a\<rparr> \<and> (tab_mem tab \<longrightarrow> n \<le> c \<and> c \<le> a \<and> length (rows tab) \<le> c)"
proof (cases "n \<le> row_cap tab")
  case True
  then have "tab' = tab\<lparr>row_cap := row_cap tab, rows_alloc := rows_alloc tab\<rparr>"
    using assms by (simp add: ensure_row_cap_def)
  with True show ?thesis
    by (intro exI [of _ "row_cap tab"] exI [of _ "rows_alloc tab"]) (auto simp: tab_mem_def)
next
  case False
  then obtain c where c: "grow_cap (if row_cap tab > 0 then row_cap tab else 16) n = Some c"
    "tab' = tab\<lparr>row_cap := c, rows_alloc := c\<rparr>"
    using assms by (auto simp: ensure_row_cap_def split: option.splits)
  from grow_cap_ge [OF c(1)] False have "tab_mem tab \<longrightarrow> n \<le> c \<and> length (rows tab) \<le> c" by (auto simp: tab_mem_def)
  with c(2) show ?thesis by blast
qed

lemma load_row_ok:
  assumes "load_row tab line = Some tab'" "loading tab"
  shows "loading tab'" "cols tab' = cols tab" "pk_idx tab' = pk_idx tab" "uk_idx tab' = uk_idx tab"
    "tab_name tab' = tab_name tab" "prev tab' = prev tab"
proof -
  let ?row = "map trim_uq (split_csv line MAX_COLS RECORD_SIZE)"
  obtain tab1 nx where 1: "length ?row = length (cols tab)"
    "ensure_row_cap tab (length (rows tab) + 1) = Some tab1"
    "tab' = tab1\<lparr>rows := rows tab1 @ [?row], next_id := nx\<rparr>" "LONG_MIN \<le> nx" "nx \<le> LONG_MAX"
  proof -
    obtain tab1 where t1: "length ?row = length (cols tab)"
      "ensure_row_cap tab (length (rows tab) + 1) = Some tab1"
      using assms(1) by (auto simp: load_row_def Let_def split: if_splits option.splits)
    obtain c a where t2: "tab1 = tab\<lparr>row_cap := c, rows_alloc := a\<rparr>" using ensure_row_cap_Some [OF t1(2)] by blast
    have nx: "LONG_MIN \<le> next_id tab1" "next_id tab1 \<le> LONG_MAX" using assms(2) t2 by (auto simp: loading_def)
    show ?thesis
    proof (cases "pk_idx tab1")
      case None
      then have "tab' = tab1\<lparr>rows := rows tab1 @ [?row], next_id := next_id tab1\<rparr>"
        using assms(1) t1 by (auto simp: load_row_def Let_def)
      then show ?thesis using that t1 nx by blast
    next
      case (Some p)
      then obtain key where "tab' = tab1\<lparr>rows := rows tab1 @ [?row],
          next_id := (if key \<ge> next_id tab1 then wrap64 (key + 1) else next_id tab1)\<rparr>"
        using assms(1) t1 by (auto simp: load_row_def Let_def split: option.splits)
      moreover have "LONG_MIN \<le> (if key \<ge> next_id tab1 then wrap64 (key + 1) else next_id tab1)"
        "(if key \<ge> next_id tab1 then wrap64 (key + 1) else next_id tab1) \<le> LONG_MAX"
        using nx wrap64_range by auto
      ultimately show ?thesis using that t1 by blast
    qed
  qed
  obtain c a where 2: "tab1 = tab\<lparr>row_cap := c, rows_alloc := a\<rparr>" "length (rows tab) + 1 \<le> c" "c \<le> a"
    using ensure_row_cap_Some [OF 1(2)] assms(2) by (auto simp: loading_def)
  show "cols tab' = cols tab" "pk_idx tab' = pk_idx tab" "uk_idx tab' = uk_idx tab" "tab_name tab' = tab_name tab"
    "prev tab' = prev tab"
    using 1(3) 2(1) by auto
  show "loading tab'"
    using assms(2) 1 2 by (auto simp: loading_def schema_ok_def tab_mem_def)
qed

lemma load_rows_ok:
  "load_rows tab s = Some tab' \<Longrightarrow> loading tab \<Longrightarrow>
   loading tab' \<and> cols tab' = cols tab \<and> pk_idx tab' = pk_idx tab \<and> uk_idx tab' = uk_idx tab \<and>
   tab_name tab' = tab_name tab \<and> prev tab' = prev tab"
proof (induction tab s rule: load_rows.induct)
  case (1 tab s)
  show ?case
  proof (cases "s = []")
    case True
    then show ?thesis using "1.prems" by (simp add: load_rows.simps [of tab])
  next
    case False
    obtain raw rest where f: "fgets (RECORD_SIZE - 1) s = (raw, rest)" by fastforce
    let ?line = "takeWhile (\<lambda>c. c \<noteq> CR \<and> c \<noteq> NL) raw"
    show ?thesis
    proof (cases "?line = []")
      case True
      then show ?thesis
        using "1.prems" "1.IH"(1) [OF False f [symmetric] refl refl True] False f
        by (simp add: load_rows.simps [of tab])
    next
      case l: False
      then obtain tab1 where t1: "load_row tab ?line = Some tab1" "load_rows tab1 rest = Some tab'"
        using "1.prems"(1) False f by (auto simp: load_rows.simps [of tab] Let_def split: option.splits)
      show ?thesis
        using "1.IH"(2) [OF False f [symmetric] refl refl l t1(1) t1(2)] load_row_ok [OF t1(1) "1.prems"(2)]
        by simp
    qed
  qed
qed

lemma tab_load_ok:
  assumes "tab_load dir d name = Some (Some tab)"
  shows "tab_inv tab \<and> tab_mem tab \<and> canonical tab \<and> tab_name tab = name \<and> ver_id tab = 1 \<and>
    prev tab = None"
proof -
  obtain content line rest h tab1 tab2 where
    "d (path_csv dir name) = Some content" "fgets (RECORD_SIZE - 1) content = (line, rest)"
    and h: "load_hdr line = Some h" "load_rows (new_tab name h) rest = Some tab1"
    and b: "idx_build tab1 = Some (True, tab2)" "tab = tab2\<lparr>ver_id := 1\<rparr>"
    using assms by (auto simp: tab_load_def Let_def split: option.splits prod.splits if_splits bool.splits)
  note hd = load_hdr_ok [OF h(1)]
  have "loading (new_tab name h)"
    using hd(1) by (auto simp: loading_def new_tab_def schema_ok_def header_ok_def tab_mem_def LONG_MIN_def LONG_MAX_def)
  note l = load_rows_ok [OF h(2) this]
  obtain t ts where t: "keys_unique tab1" "tab2 = tab1\<lparr>pk_tree := t, uk_tree := ts\<rparr>" "tab_inv tab2"
    using idx_build_tab_inv [of tab1] b(1) l by (auto simp: loading_def)
  have "canonical tab2"
    using t(2) l hd(2) by (simp add: canonical_def new_tab_def)
  then show ?thesis
    using t l b(2) by (auto simp: loading_def tab_inv_def schema_ok_def tab_mem_def canonical_def new_tab_def)
qed

subsection \<open>Saving and loading again\<close>

text \<open>Texts that survive a line of the file.\<close>

definition inline :: "string \<Rightarrow> bool" where
  "inline v \<longleftrightarrow> NL \<notin> set v \<and> CR \<notin> set v \<and> QUOTE \<notin> set v \<and> plain v"

definition col_ok :: "column \<Rightarrow> bool" where
  "col_ok c \<longleftrightarrow> inline (col_name c) \<and> length (col_name c) < 50 \<and> CHR '','' \<notin> set (col_name c) \<and>
     CHR ''('' \<notin> set (col_name c)"

definition line_fits :: "string list \<Rightarrow> bool" where
  "line_fits fs \<longleftrightarrow> length (join_csv fs) < RECORD_SIZE - 2"

definition saveable :: "tabver \<Rightarrow> bool" where
  "saveable tab \<longleftrightarrow> cols tab \<noteq> [] \<and> length (cols tab) \<le> MAX_COLS \<and> list_all col_ok (cols tab) \<and>
     line_fits (map col_text (cols tab)) \<and> length (rows tab) \<le> MAX_RECORDS \<and>
     (\<forall>row\<in>set (rows tab). list_all inline row \<and> line_fits (map cell_text row) \<and> row \<noteq> [[]])"

lemma csv_line_join: "fs \<noteq> [] \<Longrightarrow> csv_line fs = join_csv fs @ [NL]"
  by (induction fs rule: csv_line.induct) auto

lemma fgets_line: "NL \<notin> set l \<Longrightarrow> length l < n \<Longrightarrow> fgets n (l @ NL # rest) = (l @ [NL], rest)"
proof (induction l arbitrary: n)
  case Nil
  then show ?case by (cases n) auto
next
  case (Cons c l)
  then show ?case by (cases n) auto
qed

lemma field_no_comma: "QUOTE \<notin> set v \<Longrightarrow> CHR '','' \<notin> set v \<Longrightarrow> field False v"
  by (induction v) auto

lemma field_in_quote: "QUOTE \<notin> set v \<Longrightarrow> field True (v @ [QUOTE])"
  by (induction v) auto

lemma field_cell: "inline v \<Longrightarrow> field False (cell_text v)"
  using field_in_quote [of v] field_no_comma [of v]
  by (auto simp: cell_text_def inline_def strchr_None_iff)

lemma trim_uq_cell: "inline v \<Longrightarrow> trim_uq (cell_text v) = v"
  by (auto simp: cell_text_def inline_def trim_uq_quoted trim_uq_plain)

lemma set_join_csv: "set (join_csv fs) \<subseteq> insert (CHR '','') (\<Union> (set ` set fs))"
  by (induction fs rule: join_csv.induct) auto

lemma set_cell_text: "set (cell_text v) \<subseteq> insert QUOTE (set v)"
  by (auto simp: cell_text_def)

lemma inline_line:
  assumes "list_all inline row"
  shows "NL \<notin> set (join_csv (map cell_text row))" "CR \<notin> set (join_csv (map cell_text row))"
proof -
  have "set (join_csv (map cell_text row)) \<subseteq> insert (CHR '','') (insert QUOTE (\<Union> (set ` set row)))"
    using set_join_csv [of "map cell_text row"] set_cell_text by fastforce
  moreover have "NL \<notin> set v" "CR \<notin> set v" if "v \<in> set row" for v
    using assms that by (auto simp: inline_def list_all_iff)
  ultimately show "NL \<notin> set (join_csv (map cell_text row))" "CR \<notin> set (join_csv (map cell_text row))"
    by (auto simp: NL_def CR_def QUOTE_def)
qed

lemma split_cells:
  assumes "list_all inline row" "row \<noteq> []" "length row \<le> MAX_COLS" "line_fits (map cell_text row)"
  shows "map trim_uq (split_csv (join_csv (map cell_text row)) MAX_COLS RECORD_SIZE) = row"
proof -
  have "\<forall>f\<in>set (map cell_text row). field False f" using assms(1) field_cell by (auto simp: list_all_iff)
  then have "split_csv (join_csv (map cell_text row)) MAX_COLS RECORD_SIZE = map cell_text row"
    using assms(2-4) by (intro split_csv_join) (auto simp: line_fits_def)
  then show ?thesis using assms(1) trim_uq_cell by (auto simp: list_all_iff intro: map_idI)
qed

lemma join_csv_empty: "fs \<noteq> [] \<Longrightarrow> join_csv fs = [] \<longleftrightarrow> fs = [[]]"
  by (cases fs rule: join_csv.cases) auto

lemma cell_text_empty: "cell_text v = [] \<longleftrightarrow> v = []"
  by (cases v) (simp_all add: cell_text_def)

lemma load_rows_line:
  assumes "list_all inline row" "line_fits (map cell_text row)" "row \<noteq> [[]]" "row \<noteq> []"
    and "load_row tab (join_csv (map cell_text row)) = Some tab'"
  shows "load_rows tab (csv_line (map cell_text row) @ rest) = load_rows tab' rest"
proof -
  let ?l = "join_csv (map cell_text row)"
  have g: "fgets (RECORD_SIZE - 1) (csv_line (map cell_text row) @ rest) = (?l @ [NL], rest)"
    using fgets_line [of ?l "RECORD_SIZE - 1" rest] inline_line [OF assms(1)] assms(2,4)
    by (simp add: csv_line_join line_fits_def)
  have tw: "takeWhile (\<lambda>c. c \<noteq> CR \<and> c \<noteq> NL) (?l @ [NL]) = ?l"
    using inline_line [OF assms(1)] by (subst takeWhile_append2) auto
  have ne: "?l \<noteq> []" using join_csv_empty [of "map cell_text row"] assms(3,4) cell_text_empty by auto
  have "csv_line (map cell_text row) @ rest \<noteq> []" using assms(4) by (simp add: csv_line_join)
  then show ?thesis using g tw ne assms(5) by (subst load_rows.simps) (auto simp: Let_def)
qed

lemma load_rows_text:
  "loading tab \<Longrightarrow> \<forall>row\<in>set rs. list_all inline row \<and> line_fits (map cell_text row) \<and> row \<noteq> [[]] \<and>
     length row = length (cols tab) \<and> (\<forall>p. pk_idx tab = Some p \<longrightarrow> pk_key p row \<noteq> None) \<Longrightarrow>
   cols tab \<noteq> [] \<Longrightarrow> length (cols tab) \<le> MAX_COLS \<Longrightarrow> length (rows tab) + length rs \<le> MAX_RECORDS \<Longrightarrow>
   \<exists>tab'. load_rows tab (concat (map (\<lambda>row. csv_line (map cell_text row)) rs)) = Some tab' \<and>
     rows tab' = rows tab @ rs"
proof (induction rs arbitrary: tab)
  case Nil
  then show ?case by (simp add: load_rows.simps [of tab "[]"])
next
  case (Cons row rs)
  let ?l = "join_csv (map cell_text row)"
  have row: "list_all inline row" "line_fits (map cell_text row)" "row \<noteq> [[]]" "length row = length (cols tab)"
    "row \<noteq> []" and key: "\<And>p. pk_idx tab = Some p \<Longrightarrow> pk_key p row \<noteq> None"
    using Cons.prems(2,3) by auto
  have split: "map trim_uq (split_csv ?l MAX_COLS RECORD_SIZE) = row"
    using split_cells row Cons.prems(4) by simp
  then have len: "length (split_csv ?l MAX_COLS RECORD_SIZE) = length (cols tab)" using row(4) by (metis length_map)
  obtain c a where cap: "ensure_row_cap tab (length (rows tab) + 1) = Some (tab\<lparr>row_cap := c, rows_alloc := a\<rparr>)"
    using ensure_row_cap_ok [of tab] Cons.prems(1,5) by (auto simp: loading_def)
  obtain tab1 where t1: "load_row tab ?l = Some tab1" "rows tab1 = rows tab @ [row]"
  proof (cases "pk_idx tab")
    case None
    then show ?thesis using that len cap split by (simp add: load_row_def Let_def)
  next
    case (Some p)
    then obtain k where "parse_l (row ! p) = Some k" using key by (auto simp: pk_key_def)
    then show ?thesis using that len cap split Some by (simp add: load_row_def Let_def)
  qed
  note l = load_row_ok [OF t1(1) Cons.prems(1)]
  have "\<exists>tab'. load_rows tab1 (concat (map (\<lambda>row. csv_line (map cell_text row)) rs)) = Some tab' \<and>
      rows tab' = rows tab1 @ rs"
    using Cons.prems l t1(2) by (intro Cons.IH) auto
  then show ?case using load_rows_line [OF row(1,2,3,5) t1(1)] t1(2) by auto
qed

lemma trim_snoc_space: "isspace c \<Longrightarrow> trim (v @ [c]) = trim v"
proof -
  assume c: "isspace c"
  have "skip_space (v @ [c]) = (if \<forall>x\<in>set v. isspace x then [] else skip_space v @ [c])"
    using c by (induction v) auto
  moreover have "skip_space v = []" if "\<forall>x\<in>set v. isspace x" using that by (induction v) auto
  ultimately show ?thesis using c by (auto simp: trim_def)
qed

lemma col_text_plain: "col_ok c \<Longrightarrow> plain (col_text c)"
proof -
  assume "col_ok c"
  then have p: "plain (col_name c)" and q: "QUOTE \<notin> set (col_name c)" by (auto simp: col_ok_def inline_def)
  have h: "\<not> isspace (CHR ''('')" "\<not> isspace (CHR '')'')" "CHR ''('' \<noteq> QUOTE"
    by (simp_all add: isspace_def byte_def QUOTE_def)
  show ?thesis
    using p q h by (cases "col_name c"; cases "col_type c") (auto simp: col_text_def plain_def)
qed

lemma trim_uq_col: "col_ok c \<Longrightarrow> sfx \<in> {[], [NL]} \<Longrightarrow> trim_uq (col_text c @ sfx) = col_text c"
  using trim_uq_plain [OF col_text_plain [of c]] trim_snoc_space [of NL "col_text c"]
  by (auto simp: trim_uq_def Let_def NL_def isspace_def byte_def)

lemma strchr_append: "c \<notin> set a \<Longrightarrow> strchr (a @ b) c = strchr b c"
  by (induction a) auto

lemma load_col_text:
  assumes "col_ok c" "sfx \<in> {[], [NL]}"
  shows "load_col i (col_text c @ sfx) h = add_col i c h"
proof -
  have n: "CHR ''('' \<notin> set (col_name c)" "strbuf 50 (col_name c) = col_name c"
    using assms(1) by (auto simp: col_ok_def strbuf_id)
  obtain nm ty where c: "c = \<lparr>col_name = nm, col_type = ty\<rparr>" by (cases c) auto
  show ?thesis
    unfolding load_col_def trim_uq_col [OF assms]
    using n strchr_None_iff [of nm "CHR ''(''"]
    by (cases ty) (simp_all add: add_col_def c col_text_def strchr_append Let_def)
qed

fun with_nl :: "string list \<Rightarrow> string list" where
  "with_nl [] = []"
| "with_nl [f] = [f @ [NL]]"
| "with_nl (f # fs) = f # with_nl fs"

lemma join_with_nl: "fs \<noteq> [] \<Longrightarrow> join_csv (with_nl fs) = join_csv fs @ [NL]"
proof (induction fs rule: with_nl.induct)
  case (3 f g gs)
  then show ?case by (cases gs) auto
qed auto

lemma length_with_nl [simp]: "length (with_nl fs) = length fs"
  by (induction fs rule: with_nl.induct) auto

lemma load_cols_text:
  "list_all col_ok cs \<Longrightarrow> load_cols i (with_nl (map col_text cs)) h = add_cols i cs h"
proof (induction cs arbitrary: i h)
  case (Cons c cs)
  show ?case
  proof (cases cs)
    case Nil
    then show ?thesis using Cons.prems load_col_text [of c "[NL]"] by (simp cong: option.case_cong)
  next
    case (Cons d ds)
    then show ?thesis using Cons.IH Cons.prems load_col_text [of c "[]"] by (simp cong: option.case_cong)
  qed
qed simp

lemma field_col: "col_ok c \<Longrightarrow> field False (col_text c)" "col_ok c \<Longrightarrow> field False (col_text c @ [NL])"
proof -
  assume c: "col_ok c"
  have "QUOTE \<notin> set (col_text c @ [NL])" "CHR '','' \<notin> set (col_text c @ [NL])"
    using c by (cases "col_type c"; auto simp: col_text_def col_ok_def inline_def QUOTE_def NL_def)+
  then show "field False (col_text c)" "field False (col_text c @ [NL])" by (auto intro: field_no_comma)
qed

lemma field_with_nl: "list_all col_ok cs \<Longrightarrow> \<forall>f\<in>set (with_nl (map col_text cs)). field False f"
proof (induction cs)
  case (Cons c cs)
  then show ?case using field_col [of c] by (cases cs) auto
qed simp

lemma load_hdr_text:
  assumes "list_all col_ok (cols tab)" "cols tab \<noteq> []" "length (cols tab) \<le> MAX_COLS"
    "line_fits (map col_text (cols tab))" "canonical tab"
  shows "load_hdr (csv_line (map col_text (cols tab))) =
    Some \<lparr>hdr_cols = cols tab, hdr_pk = pk_idx tab, hdr_uks = uk_idx tab\<rparr>"
proof -
  let ?fs = "map col_text (cols tab)"
  have "split_csv (csv_line ?fs) MAX_COLS RECORD_SIZE = with_nl ?fs"
    using split_csv_join [OF field_with_nl [OF assms(1)], of MAX_COLS RECORD_SIZE] assms(2-4)
      join_with_nl [of ?fs] csv_line_join [of ?fs]
    by (auto simp: line_fits_def RECORD_SIZE_def) (metis length_0_conv length_map length_with_nl)
  then show ?thesis using load_cols_text [OF assms(1)] assms(5) by (simp add: load_hdr_def canonical_def)
qed

lemma path_not_side:
  assumes "length (dir @ ''/'' @ name @ ''.delta'') < PATH_MAX"
  shows "path_csv dir name \<noteq> strbuf PATH_MAX (dir @ ''/'' @ name @ ''.delta'')"
    "path_csv dir name \<noteq> strbuf PATH_MAX (dir @ ''/'' @ name @ ''.idx'')"
  using assms by (simp_all add: path_csv_def strbuf_id)

lemma load_saved:
  assumes inv: "tab_inv tab" and can: "canonical tab" and sv: "saveable tab"
    and path: "length (dir @ ''/'' @ tab_name tab @ ''.delta'') < PATH_MAX"
  shows "\<exists>d' tab'. tab_save dir Io_ok tab d = (True, d') \<and>
    tab_load dir d' (tab_name tab) = Some (Some tab') \<and> rows tab' = rows tab \<and> cols tab' = cols tab \<and>
    pk_idx tab' = pk_idx tab \<and> uk_idx tab' = uk_idx tab"
proof -
  let ?h = "\<lparr>hdr_cols = cols tab, hdr_pk = pk_idx tab, hdr_uks = uk_idx tab\<rparr>"
  let ?fs = "map col_text (cols tab)"
  let ?body = "concat (map (\<lambda>row. csv_line (map cell_text row)) (rows tab))"
  have cl: "cols tab \<noteq> []" "length (cols tab) \<le> MAX_COLS" "list_all col_ok (cols tab)" "line_fits ?fs"
    using sv by (auto simp: saveable_def)
  have lens: "\<forall>r\<in>set (rows tab). length r = length (cols tab)" using inv by (simp add: tab_inv_def)
  then have "map (\<lambda>row. csv_line (map cell_text (take (length (cols tab)) row))) (rows tab) =
      map (\<lambda>row. csv_line (map cell_text row)) (rows tab)" by simp
  then have tx: "tab_text tab = csv_line ?fs @ ?body" unfolding tab_text_def by (rule arg_cong)
  have nl: "NL \<notin> set (join_csv ?fs)"
  proof -
    have "NL \<notin> set (col_text c)" if "col_ok c" for c
      using that by (cases "col_type c") (auto simp: col_text_def col_ok_def inline_def NL_def)
    then show ?thesis using set_join_csv [of ?fs] cl(3) by (auto simp: list_all_iff NL_def)
  qed
  have g: "fgets (RECORD_SIZE - 1) (tab_text tab) = (csv_line ?fs, ?body)"
    using fgets_line [OF nl, of "RECORD_SIZE - 1" ?body] cl(1,4) tx
    by (simp add: csv_line_join line_fits_def)
  have hdr: "load_hdr (csv_line ?fs) = Some ?h" using load_hdr_text cl can by simp
  let ?new = "new_tab (tab_name tab) ?h"
  have ld: "loading ?new"
    using inv by (auto simp: loading_def new_tab_def tab_inv_def schema_ok_def tab_mem_def LONG_MIN_def LONG_MAX_def)
  have "\<forall>p. pk_idx tab = Some p \<longrightarrow> (\<forall>row\<in>set (rows tab). pk_key p row \<noteq> None)"
    using inv by (auto simp: tab_inv_def pk_ok_def pk_unique_def)
  then obtain tab1 where t1: "load_rows ?new ?body = Some tab1" "rows tab1 = rows tab"
    using load_rows_text [OF ld, of "rows tab"] sv lens by (auto simp: new_tab_def saveable_def)
  note l = load_rows_ok [OF t1(1) ld]
  have "keys_unique tab1" using tab_inv_keys_unique [OF inv] t1(2) l by (simp add: keys_unique_def new_tab_def)
  then obtain t ts where b: "idx_build tab1 = Some (True, tab1\<lparr>pk_tree := t, uk_tree := ts\<rparr>)"
    using idx_build_ok [of tab1] by auto
  let ?d = "snd (tab_save dir Io_ok tab d)"
  have "?d (path_csv dir (tab_name tab)) = Some (tab_text tab)"
    using path_not_side [OF path] by (simp add: tab_save_def rm_side_def Let_def)
  moreover have "tab_text tab \<noteq> []" using tx cl(1) by (simp add: csv_line_join)
  ultimately have "tab_load dir ?d (tab_name tab) = Some (Some (tab1\<lparr>pk_tree := t, uk_tree := ts, ver_id := 1\<rparr>))"
    using g hdr t1(1) b cl(1) by (simp add: tab_load_def)
  moreover have "tab_save dir Io_ok tab d = (True, ?d)" by (simp add: tab_save_def Let_def)
  ultimately show ?thesis using t1(2) l by (auto simp: new_tab_def)
qed

end
