(* ===== verification/Csv_Props.thy ===== *)
theory Csv_Props
  imports Csv_Correct
begin

text \<open>The properties of loading and saving tables.\<close>

definition demo_file :: string where
  "demo_file = ''id(PK),name(UK),age(NN)'' @ [NL] @ ''1,ann,30'' @ [NL] @ ''2,bob,25'' @ [NL]"

definition demo_disk :: disk where
  "demo_disk = (\<lambda>p. if p = ''d/users.csv'' then Some demo_file else None)"

text \<open>
  C18. A table that loads is well-formed: its indexes agree with its rows, its keys are unique, its row
  array has room for its rows; whatever the file holds.
\<close>

theorem tab_load_well_formed:
  assumes "tab_load dir d name = Some (Some tab)"
  shows "tab_inv tab \<and> tab_mem tab \<and> keys_unique tab \<and> tab_name tab = name \<and> ver_id tab = 1 \<and> prev tab = None"
  using tab_load_ok [OF assms] tab_inv_keys_unique [of tab] by blast

lemma demo_load: "\<exists>tab. tab_load ''d'' demo_disk ''users'' = Some (Some tab) \<and> rows tab = [[''1'', ''ann'', ''30''], [''2'', ''bob'', ''25'']]"
proof -
  have "case tab_load ''d'' demo_disk ''users'' of Some (Some tab) \<Rightarrow> rows tab = [[''1'', ''ann'', ''30''], [''2'', ''bob'', ''25'']]
      | _ \<Rightarrow> False" by code_simp
  then show ?thesis by (auto split: option.splits)
qed

theorem tab_load_well_formed_witness:
  "\<exists>tab. tab_load ''d'' demo_disk ''users'' = Some (Some tab) \<and> tab_inv tab \<and> length (rows tab) = 2"
  using demo_load tab_load_well_formed [of "''d''" demo_disk "''users''"] by force

text \<open>
  C11. Loading what was saved gives the table back: the same columns with their constraints and the same
  rows in the same order, for values without quotes, line breaks and outer blanks that fit a record.
\<close>

theorem tab_save_load:
  assumes "tab_inv tab" "canonical tab" "saveable tab"
    and "length (dir @ ''/'' @ tab_name tab @ ''.delta'') < PATH_MAX"
  shows "\<exists>d' tab'. tab_save dir Io_ok tab d = (True, d') \<and> tab_load dir d' (tab_name tab) = Some (Some tab') \<and>
    rows tab' = rows tab \<and> cols tab' = cols tab \<and> pk_idx tab' = pk_idx tab \<and> uk_idx tab' = uk_idx tab"
  by (rule load_saved [OF assms])

theorem tab_save_load_witness:
  "\<exists>tab d' tab'. tab_load ''d'' demo_disk ''users'' = Some (Some tab) \<and> tab_save ''e'' Io_ok tab demo_disk = (True, d') \<and>
     tab_load ''e'' d' ''users'' = Some (Some tab') \<and> rows tab' = [[''1'', ''ann'', ''30''], [''2'', ''bob'', ''25'']]"
proof -
  obtain tab where t: "tab_load ''d'' demo_disk ''users'' = Some (Some tab)"
    "rows tab = [[''1'', ''ann'', ''30''], [''2'', ''bob'', ''25'']]" using demo_load by blast
  have "case tab_load ''d'' demo_disk ''users'' of Some (Some tab) \<Rightarrow>
      cols tab = [\<lparr>col_name = ''id'', col_type = COL_PK\<rparr>, \<lparr>col_name = ''name'', col_type = COL_UK\<rparr>, \<lparr>col_name = ''age'', col_type = COL_NN\<rparr>]
      | _ \<Rightarrow> False" by code_simp
  then have c: "cols tab = [\<lparr>col_name = ''id'', col_type = COL_PK\<rparr>, \<lparr>col_name = ''name'', col_type = COL_UK\<rparr>,
      \<lparr>col_name = ''age'', col_type = COL_NN\<rparr>]" using t(1) by simp
  note ok = tab_load_ok [OF t(1)]
  have "saveable tab"
    unfolding saveable_def t(2) c
    by (simp add: MAX_COLS_def MAX_RECORDS_def col_ok_def line_fits_def col_text_def RECORD_SIZE_def inline_def cell_text_def
        plain_def isspace_def byte_def QUOTE_def NL_def CR_def)
  then show ?thesis using tab_save_load [of tab "''e''" demo_disk] ok t by (auto simp: PATH_MAX_def)
qed



text \<open>
  A header with six unique columns, one more than \<open>uk_idx\<close> has room for, is stored past the end of that array,
  although it is within the 15 columns that a table may have.
\<close>

theorem six_unique_columns_overflow:
  "load_hdr ''id(PK),a(UK),b(UK),c(UK),d(UK),e(UK)'' \<noteq> None \<and>
   load_hdr ''id(PK),a(UK),b(UK),c(UK),d(UK),e(UK),f(UK)'' = None"
  by code_simp

end
