(* ===== verification/Mvcc.thy ===== *)
theory Mvcc
  imports Prelude "HOL-Library.Multiset"
begin

text \<open>
  The version clock, \<open>src/db/mvcc.c\<close>: the current version and the list of the snapshots that
  are live. Every operation holds the mutex for its whole body, so an operation is one atomic
  step and the interleavings of the threads are the sequences of steps of \<open>mv_run\<close>. Versions
  are \<open>unsigned long\<close>, kept at their width: \<open>mv_bump\<close> wraps.

  The lemmas show that the list of snapshots is exactly the multiset of the snapshots taken and
  not yet released, so the \<open>snap_min\<close> of \<open>mv_stat\<close>, which bounds garbage collection, is never
  above a live snapshot.
\<close>

record mvcc =
  cur_ver :: ulong
  snaps :: "ulong list"
  snap_cap :: nat

record mv_stats =
  tx_live :: ulong
  snap_min_of :: ulong
  ver_now :: ulong
  gc_wait :: ulong

fun snap_min_loop :: "ulong list \<Rightarrow> ulong \<Rightarrow> ulong" where
  "snap_min_loop [] out = out"
| "snap_min_loop (s # ss) out = snap_min_loop ss (if s < out then s else out)"

definition snap_min :: "mvcc \<Rightarrow> ulong" where
  "snap_min mv = (case snaps mv of [] \<Rightarrow> cur_ver mv | s # ss \<Rightarrow> snap_min_loop ss s)"

definition mv_new :: mvcc where
  "mv_new = \<lparr>cur_ver = 1, snaps = [], snap_cap = 0\<rparr>"

definition mv_snap :: "mvcc \<Rightarrow> ulong \<times> mvcc" where
  "mv_snap mv =
     (let cap = (if length (snaps mv) = snap_cap mv
                 then (if snap_cap mv = 0 then 8 else snap_cap mv * 2) else snap_cap mv)
      in (cur_ver mv, mv\<lparr>snaps := snaps mv @ [cur_ver mv], snap_cap := cap\<rparr>))"

definition mv_bump :: "mvcc \<Rightarrow> ulong \<times> mvcc" where
  "mv_bump mv = (cur_ver mv + 1, mv\<lparr>cur_ver := cur_ver mv + 1\<rparr>)"

definition mv_gc :: "mvcc \<Rightarrow> ulong \<Rightarrow> mvcc" where
  "mv_gc mv snap = (if snap = 0 then mv else mv\<lparr>snaps := remove1 snap (snaps mv)\<rparr>)"

definition mv_stat :: "mvcc \<Rightarrow> mv_stats" where
  "mv_stat mv =
     \<lparr>tx_live = of_nat (length (snaps mv)), snap_min_of = snap_min mv, ver_now = cur_ver mv,
      gc_wait = (if snaps mv \<noteq> [] then cur_ver mv - snap_min mv else 0)\<rparr>"

subsection \<open>The invariant\<close>

definition mv_inv :: "mvcc \<Rightarrow> bool" where
  "mv_inv mv \<longleftrightarrow> 1 \<le> cur_ver mv \<and> (\<forall>s\<in>set (snaps mv). 1 \<le> s \<and> s \<le> cur_ver mv) \<and>
     length (snaps mv) \<le> snap_cap mv"

lemma snap_min_loop_Min: "snap_min_loop ss out = Min (set (out # ss))"
proof (induction ss arbitrary: out)
  case (Cons s ss)
  have "Min (set (out # s # ss)) = min (min out s) (if ss = [] then min out s else Min (set ss))"
    by (cases ss) (auto simp: min.assoc)
  then show ?case using Cons by (cases ss) (auto simp: min_def)
qed simp

lemma snap_min_Min: "snaps mv \<noteq> [] \<Longrightarrow> snap_min mv = Min (set (snaps mv))"
  by (cases "snaps mv") (simp_all add: snap_min_def snap_min_loop_Min)

lemma snap_min_le: "s \<in> set (snaps mv) \<Longrightarrow> snap_min mv \<le> s"
  by (metis List.finite_set Min_le empty_iff empty_set snap_min_Min)

lemma snap_min_le_cur: "mv_inv mv \<Longrightarrow> snap_min mv \<le> cur_ver mv"
proof (cases "snaps mv = []")
  case False
  then have "snap_min mv \<in> set (snaps mv)" by (simp add: snap_min_Min)
  then show "mv_inv mv \<Longrightarrow> ?thesis" by (simp add: mv_inv_def)
qed (simp add: snap_min_def)

lemma mv_inv_new: "mv_inv mv_new"
  by (simp add: mv_inv_def mv_new_def)

lemma mv_inv_snap: "mv_inv mv \<Longrightarrow> mv_inv (snd (mv_snap mv))"
  by (auto simp: mv_inv_def mv_snap_def Let_def)

lemma mv_inv_gc: "mv_inv mv \<Longrightarrow> mv_inv (mv_gc mv s)"
  by (auto simp: mv_inv_def mv_gc_def length_remove1 dest: notin_set_remove1 [THEN contrapos_pp])

lemma less_Suc_word: "v \<noteq> - 1 \<Longrightarrow> v < v + (1 :: ulong)"
proof -
  assume "v \<noteq> - 1"
  then have "unat v \<noteq> unat (- 1 :: ulong)" by (simp add: word_unat_eq_iff)
  then have "unat v \<noteq> 2 ^ 64 - 1" by (simp add: unsigned_minus_1_eq_mask mask_eq_exp_minus_1)
  moreover have "unat v < 2 ^ LENGTH(64)" by (rule unsigned_less)
  ultimately have "unat (v + 1) = unat v + 1" by (simp add: unat_plus_if')
  then show ?thesis by (simp add: word_less_nat_alt)
qed

lemma inc_le: "s \<le> v \<Longrightarrow> v \<noteq> - 1 \<Longrightarrow> s \<le> v + (1 :: ulong)"
  by (meson less_Suc_word order_less_imp_le order_trans)

lemma mv_inv_bump: "mv_inv mv \<Longrightarrow> cur_ver mv \<noteq> - 1 \<Longrightarrow> mv_inv (snd (mv_bump mv))"
  by (auto simp: mv_inv_def mv_bump_def intro: inc_le)

lemma mset_mv_gc: "s \<noteq> 0 \<Longrightarrow> mset (snaps (mv_gc mv s)) = mset (snaps mv) - {#s#}"
  by (simp add: mv_gc_def)

lemma mset_mv_snap: "mset (snaps (snd (mv_snap mv))) = add_mset (cur_ver mv) (mset (snaps mv))"
  by (simp add: mv_snap_def Let_def)

subsection \<open>Runs\<close>

text \<open>
  \<open>mv_run mv held\<close>: some interleaving of operations led to \<open>mv\<close> while the threads hold the
  snapshots \<open>held\<close>. A thread releases only what it holds, and there are fewer than
  \<open>2 ^ 64 - 1\<close> commits.
\<close>

inductive mv_run :: "mvcc \<Rightarrow> ulong multiset \<Rightarrow> bool" where
  start: "mv_run mv_new {#}"
| take_snap: "mv_run mv held \<Longrightarrow> mv_snap mv = (s, mv') \<Longrightarrow> mv_run mv' (add_mset s held)"
| bump: "mv_run mv held \<Longrightarrow> cur_ver mv \<noteq> - 1 \<Longrightarrow> mv_run (snd (mv_bump mv)) held"
| release: "mv_run mv held \<Longrightarrow> s \<in># held \<Longrightarrow> mv_run (mv_gc mv s) (held - {#s#})"

lemma mv_run_inv: "mv_run mv held \<Longrightarrow> mv_inv mv \<and> mset (snaps mv) = held"
proof (induction rule: mv_run.induct)
  case start
  then show ?case by (simp add: mv_inv_new) (simp add: mv_new_def)
next
  case (take_snap mv held s mv')
  then show ?case using mv_inv_snap [of mv] mset_mv_snap [of mv] by (auto simp: mv_snap_def Let_def)
next
  case (bump mv held)
  then show ?case by (simp add: mv_inv_bump) (simp add: mv_bump_def)
next
  case (release mv held s)
  then have "s \<in> set (snaps mv)" by (metis set_mset_mset)
  with release have "s \<noteq> 0" by (auto simp: mv_inv_def)
  with release show ?case by (simp add: mv_inv_gc mset_mv_gc)
qed

text \<open>
  C16. In every interleaving of snapshots, commits and releases, the clock counts exactly the
  snapshots still held, and the oldest snapshot it reports, below which versions are collected, is
  not above any of them nor above the current version.
\<close>

theorem mv_stat_protects:
  assumes "mv_run mv held" "s \<in># held"
  shows "snap_min_of (mv_stat mv) \<le> s \<and> s \<le> ver_now (mv_stat mv) \<and>
    tx_live (mv_stat mv) = of_nat (size held) \<and> gc_wait (mv_stat mv) = ver_now (mv_stat mv) - snap_min_of (mv_stat mv)"
proof -
  have inv: "mv_inv mv" and held: "mset (snaps mv) = held" using mv_run_inv [OF assms(1)] by auto
  have s: "s \<in> set (snaps mv)" using assms(2) held by (metis set_mset_mset)
  then have ne: "snaps mv \<noteq> []" by auto
  have "size held = length (snaps mv)" using held by (metis size_mset)
  then show ?thesis using snap_min_le [OF s] inv s ne by (simp add: mv_stat_def mv_inv_def)
qed

theorem mv_stat_protects_witness:
  "snap_min_of (mv_stat (snd (mv_bump (snd (mv_snap mv_new))))) \<le> 1 \<and>
   ver_now (mv_stat (snd (mv_bump (snd (mv_snap mv_new))))) = 2"
proof -
  have 1: "mv_run (snd (mv_snap mv_new)) (add_mset (fst (mv_snap mv_new)) {#})"
    by (rule mv_run.take_snap [OF mv_run.start]) simp
  have "cur_ver (snd (mv_snap mv_new)) \<noteq> - 1" by (simp add: mv_snap_def mv_new_def Let_def)
  from mv_stat_protects [OF mv_run.bump [OF 1 this], of 1] show ?thesis
    by (simp add: mv_snap_def mv_new_def mv_bump_def mv_stat_def Let_def)
qed

end
