(* ===== verification/Db.thy ===== *)
theory Db
  imports Csv_Correct Table_Select Mvcc "HOL-Library.Monad_Syntax"
begin

text \<open>
  The database, \<open>src/db/dbapi.c\<close> lines 44--75, 281--305 and 881--1524: table entries, versions of
  tables, snapshots, transactions, garbage collection, and execution with retries.

  \<^item> \<open>TabVer\<close> objects live in a heap from addresses to versions, so that the comparison of
    pointers in \<open>db_commit\<close>, \<open>free\<close> and a use after \<open>free\<close> can be told apart. A function returns
    \<^const>\<open>None\<close> when it dereferences a freed version or frees it twice, or through a malformed
    tree or row array (\<open>Table\<close>).
  \<^item> \<open>TxTab.ent\<close> points into the array \<open>db->tabs\<close>, which \<open>add_ent\<close> moves when it grows. An entry
    pointer is an index with the generation of the array; using it in a later generation is
    the use of a dangling pointer.
  \<^item> A function that holds \<open>db->mu\<close> for its whole body is one step. \<open>gc_tabs\<close> reads the clock
    before it takes the lock, so it is two steps (\<open>gc_keep_id\<close>, \<open>gc_prune\<close>).
  \<^item> The disk is a field of the database, and the answers of the operating system to
    \<open>tab_save\<close> are arguments.
\<close>

type_synonym addr = nat
type_synonym heap = "addr \<Rightarrow> tabver option"

record db =
  heap_of :: heap
  next_free :: addr
  tabs :: "(string \<times> addr) list"
  tab_cap :: nat
  tabs_gen :: nat
  mv :: mvcc
  root_dir :: string
  max_sql :: int
  max_qry :: int
  disk_of :: disk

record txtab =
  tx_ent :: nat
  tx_gen :: nat
  tx_base :: addr
  tx_work :: "addr option"
  tx_dirty :: bool

record dbtx =
  tx_snap :: ulong
  tx_tabs :: "txtab list"
  tx_done :: bool

subsection \<open>The heap of versions\<close>

definition alloc :: "tabver \<Rightarrow> db \<Rightarrow> addr \<times> db" where
  "alloc tab db = (next_free db, db\<lparr>heap_of := (heap_of db)(next_free db \<mapsto> tab), next_free := next_free db + 1\<rparr>)"

definition free_tab :: "heap \<Rightarrow> addr option \<Rightarrow> heap option" where
  "free_tab h p =
     (case p of None \<Rightarrow> Some h
      | Some a \<Rightarrow> if h a = None then None else Some (h(a := None)))"

text \<open>
  Walks along \<open>prev\<close>. The fuel is the number of addresses ever allocated; a walk that does not
  revisit an address never exhausts it.
\<close>

fun free_chain :: "nat \<Rightarrow> heap \<Rightarrow> addr option \<Rightarrow> heap option" where
  "free_chain fuel h None = Some h"
| "free_chain 0 h (Some a) = None"
| "free_chain (Suc n) h (Some a) =
     (case h a of None \<Rightarrow> None | Some t \<Rightarrow> free_chain n (h(a := None)) (prev t))"

fun tab_vis_loop :: "nat \<Rightarrow> heap \<Rightarrow> ulong \<Rightarrow> addr option \<Rightarrow> addr option option" where
  "tab_vis_loop fuel h snap None = Some None"
| "tab_vis_loop 0 h snap (Some a) = None"
| "tab_vis_loop (Suc n) h snap (Some a) =
     (case h a of None \<Rightarrow> None
      | Some t \<Rightarrow> if ver_id t > snap then tab_vis_loop n h snap (prev t) else Some (Some a))"

definition tab_vis :: "db \<Rightarrow> addr \<Rightarrow> ulong \<Rightarrow> addr option option" where
  "tab_vis db head snap = tab_vis_loop (Suc (next_free db)) (heap_of db) snap (Some head)"

subsection \<open>Table entries\<close>

definition get_ent :: "db \<Rightarrow> string \<Rightarrow> nat option" where
  "get_ent db name = index_from 0 (\<lambda>e. strcmp (fst e) name = 0) (tabs db)"

definition add_ent :: "db \<Rightarrow> string \<Rightarrow> addr \<Rightarrow> nat \<times> db" where
  "add_ent db name a =
     (let grow = (length (tabs db) = tab_cap db) in
      (length (tabs db),
       db\<lparr>tabs := tabs db @ [(name, a)],
          tab_cap := (if grow then (if tab_cap db = 0 then 8 else tab_cap db * 2) else tab_cap db),
          tabs_gen := (if grow then tabs_gen db + 1 else tabs_gen db)\<rparr>))"

definition need_ent :: "db \<Rightarrow> string \<Rightarrow> (nat option \<times> db) option" where
  "need_ent db name =
     (case get_ent db name of
        Some i \<Rightarrow> Some (Some i, db)
      | None \<Rightarrow>
        (case tab_load (root_dir db) (disk_of db) name of
           None \<Rightarrow> None
         | Some None \<Rightarrow> Some (None, db)
         | Some (Some tab) \<Rightarrow>
             let (a, db1) = alloc tab db; (i, db2) = add_ent db1 name a in Some (Some i, db2)))"

definition deref_ent :: "db \<Rightarrow> nat \<Rightarrow> nat \<Rightarrow> (string \<times> addr) option" where
  "deref_ent db i gen = (if gen = tabs_gen db \<and> i < length (tabs db) then Some (tabs db ! i) else None)"

subsection \<open>Transactions\<close>

fun tx_tab_loop :: "db \<Rightarrow> string \<Rightarrow> nat \<Rightarrow> txtab list \<Rightarrow> nat option option" where
  "tx_tab_loop db name i [] = Some None"
| "tx_tab_loop db name i (it # its) =
     (case deref_ent db (tx_ent it) (tx_gen it) of
        None \<Rightarrow> None
      | Some e \<Rightarrow> if strcmp (fst e) name = 0 then Some (Some i) else tx_tab_loop db name (Suc i) its)"

definition tx_tab :: "db \<Rightarrow> dbtx \<Rightarrow> string \<Rightarrow> nat option option" where
  "tx_tab db tx name = tx_tab_loop db name 0 (tx_tabs tx)"

definition tx_view :: "db \<Rightarrow> dbtx \<Rightarrow> string \<Rightarrow> (nat option \<times> dbtx \<times> db) option" where
  "tx_view db tx name =
     do {
       item \<leftarrow> tx_tab db tx name;
       case item of
         Some i \<Rightarrow> Some (Some i, tx, db)
       | None \<Rightarrow> do {
           (ent, db1) \<leftarrow> need_ent db name;
           case ent of
             None \<Rightarrow> Some (None, tx, db1)
           | Some e \<Rightarrow> do {
               base \<leftarrow> tab_vis db1 (snd (tabs db1 ! e)) (tx_snap tx);
               case base of
                 None \<Rightarrow> Some (None, tx, db1)
               | Some b \<Rightarrow>
                   Some (Some (length (tx_tabs tx)),
                         tx\<lparr>tx_tabs := tx_tabs tx @
                           [\<lparr>tx_ent = e, tx_gen = tabs_gen db1, tx_base = b, tx_work = None,
                             tx_dirty = False\<rparr>]\<rparr>,
                         db1)
             }
         }
     }"

text \<open>The result says whether there is a working copy.\<close>

definition tx_make_work :: "db \<Rightarrow> dbtx \<Rightarrow> nat \<Rightarrow> (bool \<times> dbtx \<times> db) option" where
  "tx_make_work db tx i =
     (let it = tx_tabs tx ! i in
      case tx_work it of
        Some w \<Rightarrow> Some (True, tx\<lparr>tx_tabs := (tx_tabs tx)[i := it\<lparr>tx_dirty := True\<rparr>]\<rparr>, db)
      | None \<Rightarrow>
        do {
          src \<leftarrow> heap_of db (tx_base it);
          copy \<leftarrow> tab_clone src;
          case copy of
            None \<Rightarrow> Some (False, tx, db)
          | Some tab \<Rightarrow>
              let (a, db1) = alloc tab db in
              Some (True, tx\<lparr>tx_tabs := (tx_tabs tx)[i := it\<lparr>tx_work := Some a, tx_dirty := True\<rparr>]\<rparr>, db1)
        })"

definition tx_touch :: "db \<Rightarrow> dbtx \<Rightarrow> string \<Rightarrow> (nat option \<times> dbtx \<times> db) option" where
  "tx_touch db tx name =
     do {
       (item, tx1, db1) \<leftarrow> tx_view db tx name;
       case item of
         None \<Rightarrow> Some (None, tx1, db1)
       | Some i \<Rightarrow> do {
           (ok, tx2, db2) \<leftarrow> tx_make_work db1 tx1 i;
           Some (if ok then Some i else None, tx2, db2)
         }
     }"

subsection \<open>Garbage collection\<close>

definition cut_after :: "nat \<Rightarrow> heap \<Rightarrow> addr \<Rightarrow> heap option" where
  "cut_after fuel h keep =
     (case h keep of None \<Rightarrow> None
      | Some t \<Rightarrow>
        (case prev t of None \<Rightarrow> Some h
         | Some p \<Rightarrow> map_option (\<lambda>h'. h'(keep \<mapsto> t\<lparr>prev := None\<rparr>)) (free_chain fuel h (Some p))))"

definition prune_tab :: "nat \<Rightarrow> heap \<Rightarrow> addr \<Rightarrow> ulong \<Rightarrow> heap option" where
  "prune_tab fuel h head keep_id =
     (if keep_id = 0 then cut_after fuel h head
      else case tab_vis_loop (Suc fuel) h keep_id (Some head) of
        None \<Rightarrow> None
      | Some None \<Rightarrow> Some h
      | Some (Some keep) \<Rightarrow> cut_after fuel h keep)"

fun prune_all :: "nat \<Rightarrow> heap \<Rightarrow> (string \<times> addr) list \<Rightarrow> ulong \<Rightarrow> heap option" where
  "prune_all fuel h [] keep_id = Some h"
| "prune_all fuel h (e # es) keep_id =
     (case prune_tab fuel h (snd e) keep_id of None \<Rightarrow> None | Some h' \<Rightarrow> prune_all fuel h' es keep_id)"

definition gc_keep_id :: "db \<Rightarrow> ulong" where
  "gc_keep_id db = (let mst = mv_stat (mv db) in if tx_live mst > 0 then snap_min_of mst else 0)"

definition gc_prune :: "db \<Rightarrow> ulong \<Rightarrow> db option" where
  "gc_prune db keep_id =
     map_option (\<lambda>h. db\<lparr>heap_of := h\<rparr>) (prune_all (next_free db) (heap_of db) (tabs db) keep_id)"

definition gc_tabs :: "db \<Rightarrow> db option" where
  "gc_tabs db = gc_prune db (gc_keep_id db)"

subsection \<open>Opening, snapshots\<close>

definition db_open :: "string \<Rightarrow> int \<Rightarrow> int \<Rightarrow> disk \<Rightarrow> db" where
  "db_open dir msql mqry d =
     \<lparr>heap_of = Map.empty, next_free = 0, tabs = [], tab_cap = 0, tabs_gen = 0, mv = mv_new,
      root_dir = strbuf PATH_MAX dir, max_sql = msql, max_qry = mqry, disk_of = d\<rparr>"

definition db_snap :: "db \<Rightarrow> ulong \<times> db" where
  "db_snap db = (let (s, m) = mv_snap (mv db) in (s, db\<lparr>mv := m\<rparr>))"

definition db_done :: "db \<Rightarrow> ulong \<Rightarrow> db option" where
  "db_done db snap = gc_tabs (db\<lparr>mv := mv_gc (mv db) snap\<rparr>)"

definition db_begin :: "db \<Rightarrow> dbtx \<times> db" where
  "db_begin db =
     (let (s, m) = mv_snap (mv db) in (\<lparr>tx_snap = s, tx_tabs = [], tx_done = False\<rparr>, db\<lparr>mv := m\<rparr>))"

subsection \<open>Commit and abort\<close>

text \<open>The check of \<open>db_commit\<close>: is every dirty table still at its base version?\<close>

fun commit_check :: "db \<Rightarrow> txtab list \<Rightarrow> bool option" where
  "commit_check db [] = Some True"
| "commit_check db (it # its) =
     (if \<not> tx_dirty it then commit_check db its
      else case deref_ent db (tx_ent it) (tx_gen it) of
        None \<Rightarrow> None
      | Some e \<Rightarrow> if snd e \<noteq> tx_base it then Some False else commit_check db its)"

text \<open>
  The loop that publishes the working copies. On a failed save the function returns at once,
  with the failed working copy already published and still owned by the transaction.
\<close>

fun commit_publish :: "db \<Rightarrow> ulong \<Rightarrow> (nat \<Rightarrow> io_result) \<Rightarrow> nat \<Rightarrow> txtab list
    \<Rightarrow> (bool \<times> txtab list \<times> db) option" where
  "commit_publish db ver io i [] = Some (True, [], db)"
| "commit_publish db ver io i (it # its) =
     (if \<not> tx_dirty it
      then map_option (\<lambda>(ok, its', db'). (ok, it # its', db')) (commit_publish db ver io (Suc i) its)
      else case tx_work it of
        None \<Rightarrow> None
      | Some w \<Rightarrow>
        do {
          e \<leftarrow> deref_ent db (tx_ent it) (tx_gen it);
          t \<leftarrow> heap_of db w;
          let t' = t\<lparr>ver_id := ver, prev := Some (snd e)\<rparr>;
              (saved, d) = tab_save (root_dir db) (io i) t' (disk_of db);
              db1 = db\<lparr>heap_of := (heap_of db)(w \<mapsto> t'), tabs := (tabs db)[tx_ent it := (fst e, w)],
                       disk_of := d\<rparr>
          in if \<not> saved then Some (False, it # its, db1)
             else map_option (\<lambda>(ok, its', db'). (ok, it\<lparr>tx_work := None\<rparr> # its', db'))
                    (commit_publish db1 ver io (Suc i) its)
        })"

definition db_commit :: "db \<Rightarrow> dbtx \<Rightarrow> (nat \<Rightarrow> io_result) \<Rightarrow> (bool \<times> dbtx \<times> db) option" where
  "db_commit db tx io =
     (if tx_done tx then Some (False, tx, db)
      else do {
        ok \<leftarrow> commit_check db (tx_tabs tx);
        if \<not> ok then Some (False, tx, db)
        else let (ver, m) = mv_bump (mv db) in do {
          (saved, its, db1) \<leftarrow> commit_publish (db\<lparr>mv := m\<rparr>) ver io 0 (tx_tabs tx);
          if \<not> saved then Some (False, tx\<lparr>tx_tabs := its\<rparr>, db1)
          else do {
            db2 \<leftarrow> gc_tabs (db1\<lparr>mv := mv_gc (mv db1) (tx_snap tx)\<rparr>);
            Some (True, tx\<lparr>tx_tabs := [], tx_done := True\<rparr>, db2)
          }
        }
      })"

fun free_works :: "heap \<Rightarrow> txtab list \<Rightarrow> heap option" where
  "free_works h [] = Some h"
| "free_works h (it # its) = (case free_tab h (tx_work it) of None \<Rightarrow> None | Some h' \<Rightarrow> free_works h' its)"

definition db_abort :: "db \<Rightarrow> dbtx \<Rightarrow> (bool \<times> dbtx \<times> db) option" where
  "db_abort db tx =
     (if tx_done tx then Some (False, tx, db)
      else do {
        h \<leftarrow> free_works (heap_of db) (tx_tabs tx);
        db2 \<leftarrow> gc_tabs (db\<lparr>heap_of := h, mv := mv_gc (mv db) (tx_snap tx)\<rparr>);
        Some (True, tx\<lparr>tx_tabs := [], tx_done := True\<rparr>, db2)
      })"

subsection \<open>Statements\<close>

definition parse_ok :: "db \<Rightarrow> string \<Rightarrow> dbres \<Rightarrow> dbres + statement" where
  "parse_ok db s res =
     (if max_sql db > 0 \<and> int (length s) > max_sql db then Inl (res_err res ''TOO_BIG'' ''SQL too long'')
      else case parse_statement s of
        None \<Rightarrow> Inl (res_err res ''BAD_SQL'' ''parse failed'')
      | Some st \<Rightarrow> Inr st)"

definition do_read :: "db \<Rightarrow> ulong \<Rightarrow> string \<Rightarrow> (bool \<times> dbres \<times> db) option" where
  "do_read db snap s =
     (case parse_ok db s res_clr of
        Inl res \<Rightarrow> Some (False, res, db)
      | Inr st \<Rightarrow>
        if stmt_type st \<noteq> STMT_SELECT
        then Some (False, res_err res_clr ''BAD_SQL'' ''read path accepts SELECT only'', db)
        else do {
          (ent, db1) \<leftarrow> need_ent db (table_name st);
          tab \<leftarrow> (case ent of None \<Rightarrow> Some None | Some e \<Rightarrow> tab_vis db1 (snd (tabs db1 ! e)) snap);
          case tab of
            None \<Rightarrow> Some (False, res_err res_clr ''BAD_SQL'' ''unknown table'', db1)
          | Some a \<Rightarrow> do {
              t \<leftarrow> heap_of db1 a;
              (ok, _, res) \<leftarrow> exec_stmt t st (res_clr\<lparr>snap_id := snap\<rparr>);
              Some (ok, res, db1)
            }
        })"

definition db_read :: "db \<Rightarrow> ulong \<Rightarrow> string \<Rightarrow> (bool \<times> dbres \<times> db) option" where
  "db_read db snap s = do_read db snap s"

definition db_tab_ver :: "db \<Rightarrow> string \<Rightarrow> (ulong \<times> db) option" where
  "db_tab_ver db table =
     (if table = [] then Some (0, db)
      else do {
        (ent, db1) \<leftarrow> need_ent db table;
        case ent of
          None \<Rightarrow> Some (0, db1)
        | Some e \<Rightarrow> do { t \<leftarrow> heap_of db1 (snd (tabs db1 ! e)); Some (ver_id t, db1) }
      })"

definition db_mst :: "db \<Rightarrow> mv_stats" where
  "db_mst db = mv_stat (mv db)"

text \<open>Run a statement on the working copy, or on the base version, of an item of a transaction.\<close>

definition exec_item :: "db \<Rightarrow> txtab \<Rightarrow> statement \<Rightarrow> dbres \<Rightarrow> (bool \<times> dbres \<times> db) option" where
  "exec_item db it st res =
     (let a = (case tx_work it of Some w \<Rightarrow> w | None \<Rightarrow> tx_base it) in
      do {
        t \<leftarrow> heap_of db a;
        (ok, t', res') \<leftarrow> exec_stmt t st res;
        Some (ok, res', db\<lparr>heap_of := (heap_of db)(a \<mapsto> t')\<rparr>)
      })"

definition db_txdo :: "db \<Rightarrow> dbtx \<Rightarrow> string \<Rightarrow> dbres \<Rightarrow> (bool \<times> dbres \<times> dbtx \<times> db) option" where
  "db_txdo db tx s old =
     (if tx_done tx then Some (False, old, tx, db)
      else case parse_ok db s res_clr of
        Inl res \<Rightarrow> Some (False, res, tx, db)
      | Inr st \<Rightarrow>
        do {
          (item, tx1, db1) \<leftarrow> tx_view db tx (table_name st);
          (ready, tx2, db2) \<leftarrow>
            (if \<not> stmt_is_wr st then Some (True, tx1, db1)
             else case item of None \<Rightarrow> Some (False, tx1, db1) | Some i \<Rightarrow> tx_make_work db1 tx1 i);
          if \<not> ready then Some (False, res_err res_clr ''OOM'' ''out of memory'', tx2, db2)
          else case item of
            None \<Rightarrow> Some (False, res_err res_clr ''BAD_SQL'' ''unknown table'', tx2, db2)
          | Some i \<Rightarrow> do {
              (ok, res, db3) \<leftarrow> exec_item db2 (tx_tabs tx2 ! i) st (res_clr\<lparr>snap_id := tx_snap tx2\<rparr>);
              Some (ok, res, tx2, db3)
            }
        })"

text \<open>
  The retry loop of \<open>db_exec\<close>. \<open>env n\<close> is what the other threads do to the database while attempt
  \<open>n\<close> has its working copy and before it commits, \<open>io n\<close> the answers of the operating system.
  \<open>n\<close> counts the attempts left.
\<close>

fun exec_loop :: "(nat \<Rightarrow> db \<Rightarrow> db) \<Rightarrow> (nat \<Rightarrow> nat \<Rightarrow> io_result) \<Rightarrow> statement \<Rightarrow> nat \<Rightarrow> db \<Rightarrow> dbres
    \<Rightarrow> (bool \<times> dbres \<times> db) option" where
  "exec_loop env io st 0 db res =
     Some (False, res_err res ''TX_ABORT'' ''write conflict after retries'', db)"
| "exec_loop env io st (Suc n) db res =
     (let attempt = WRITE_RETRY_MAX - n; (tx, db1) = db_begin db in
      do {
        (item, tx1, db2) \<leftarrow> tx_view db1 tx (table_name st);
        case item of
          None \<Rightarrow> do {
            (_, _, db3) \<leftarrow> db_abort db2 tx1;
            Some (False, res_err res ''BAD_SQL'' ''unknown table'', db3)
          }
        | Some i \<Rightarrow> do {
            (ready, tx2, db3) \<leftarrow> tx_make_work db2 tx1 i;
            if \<not> ready then do {
              (_, _, db4) \<leftarrow> db_abort db3 tx2;
              Some (False, res_err res ''OOM'' ''out of memory'', db4)
            } else do {
              (ok, res1, db4) \<leftarrow> exec_item db3 (tx_tabs tx2 ! i) st res;
              (committed, tx3, db5) \<leftarrow>
                (if ok then db_commit (env attempt db4) tx2 (io attempt) else Some (False, tx2, env attempt db4));
              if committed then Some (True, res1, db5)
              else do {
                (_, _, db6) \<leftarrow> db_abort db5 tx3;
                if err_code res1 \<noteq> [] then Some (False, res1, db6)
                else if attempt < WRITE_RETRY_MAX then exec_loop env io st n db6 res1
                else Some (False, res_err res1 ''TX_ABORT'' ''write conflict after retries'', db6)
              }
            }
          }
      })"

definition db_exec :: "(nat \<Rightarrow> db \<Rightarrow> db) \<Rightarrow> (nat \<Rightarrow> nat \<Rightarrow> io_result) \<Rightarrow> db \<Rightarrow> string
    \<Rightarrow> (bool \<times> dbres \<times> db) option" where
  "db_exec env io db s =
     (case parse_ok db s res_clr of
        Inl res \<Rightarrow> Some (False, res, db)
      | Inr st \<Rightarrow>
        if stmt_type st = STMT_SELECT then
          (let (snap, db1) = db_snap db in
           do {
             (ok, res, db2) \<leftarrow> db_read db1 snap s;
             db3 \<leftarrow> db_done db2 snap;
             Some (ok, res, db3)
           })
        else exec_loop env io st (WRITE_RETRY_MAX + 1) db res_clr)"

subsection \<open>Batches\<close>

text \<open>The statements of a transactional batch up to the first that fails, with their results.\<close>

fun batch_tx_loop :: "db \<Rightarrow> dbtx \<Rightarrow> string list \<Rightarrow> (bool \<times> dbres list \<times> dbtx \<times> db) option" where
  "batch_tx_loop db tx [] = Some (True, [], tx, db)"
| "batch_tx_loop db tx (s # ss) =
     do {
       (ok, res, tx1, db1) \<leftarrow> db_txdo db tx s res_clr;
       if \<not> ok then Some (False, [res_err res ''TX_ABORT'' (strbuf 256 (err_msg res))], tx1, db1)
       else do {
         (ok', rest, tx2, db2) \<leftarrow> batch_tx_loop db1 tx1 ss;
         Some (ok', res # rest, tx2, db2)
       }
     }"

fun batch_plain :: "(nat \<Rightarrow> nat \<Rightarrow> db \<Rightarrow> db) \<Rightarrow> (nat \<Rightarrow> nat \<Rightarrow> nat \<Rightarrow> io_result) \<Rightarrow> nat \<Rightarrow> db \<Rightarrow> string list
    \<Rightarrow> (dbres list \<times> db) option" where
  "batch_plain env io i db [] = Some ([], db)"
| "batch_plain env io i db (s # ss) =
     do {
       (ok, res, db1) \<leftarrow> db_exec (env i) (io i) db s;
       let res' = (if \<not> ok \<and> err_code res = [] then res_err res ''BAD_SQL'' ''query failed'' else res);
       (rest, db2) \<leftarrow> batch_plain env io (Suc i) db1 ss;
       Some (res' # rest, db2)
     }"

definition pad_results :: "nat \<Rightarrow> dbres list \<Rightarrow> dbres list" where
  "pad_results n rs = rs @ replicate (n - length rs) res_clr"

definition db_batch :: "(nat \<Rightarrow> nat \<Rightarrow> db \<Rightarrow> db) \<Rightarrow> (nat \<Rightarrow> nat \<Rightarrow> nat \<Rightarrow> io_result) \<Rightarrow> db \<Rightarrow> string list \<Rightarrow> bool
    \<Rightarrow> (bool \<times> dbres list \<times> db) option" where
  "db_batch env io db sqlv tx =
     (let n = length sqlv in
      if n = 0 then Some (True, [], db)
      else if int n > max_qry db then Some (False, [], db)
      else if tx then
        (let (t, db1) = db_begin db in
         do {
           (ok, rs, t1, db2) \<leftarrow> batch_tx_loop db1 t sqlv;
           if \<not> ok then do {
             (_, _, db3) \<leftarrow> db_abort db2 t1;
             Some (False, pad_results n rs, db3)
           } else do {
             (committed, t2, db3) \<leftarrow> db_commit (env 0 0 db2) t1 (io 0 0);
             if committed then Some (True, rs, db3)
             else do {
               (_, _, db4) \<leftarrow> db_abort db3 t2;
               Some (False, rs[n - 1 := res_err (rs ! (n - 1)) ''TX_ABORT'' ''commit failed''], db4)
             }
           }
         })
      else do {
        (rs, db1) \<leftarrow> batch_plain env io 0 db sqlv;
        Some (True, rs, db1)
      })"

end
