(* ===== verification/Db_Versions.thy ===== *)
theory Db_Versions
  imports Db
begin

text \<open>
  Version chains: the versions of a table, newest first, linked by \<open>prev\<close>. The lemmas say what
  the walks over a chain compute, and that garbage collection keeps every version that a
  snapshot at or above the collection bound can see.
\<close>

fun chain :: "heap \<Rightarrow> addr option \<Rightarrow> addr list \<Rightarrow> bool" where
  "chain h p [] = (p = None)"
| "chain h p (a # as) = (p = Some a \<and> (\<exists>t. h a = Some t \<and> chain h (prev t) as))"

definition sees :: "heap \<Rightarrow> ulong \<Rightarrow> addr \<Rightarrow> bool" where
  "sees h s a \<longleftrightarrow> ver_id (the (h a)) \<le> s"

lemma chain_heap: "chain h p as \<Longrightarrow> a \<in> set as \<Longrightarrow> h a \<noteq> None"
  by (induction h p as rule: chain.induct) auto

lemma chain_cong: "chain h p as \<Longrightarrow> \<forall>a\<in>set as. h' a = h a \<Longrightarrow> chain h' p as"
  by (induction h p as rule: chain.induct) auto

lemma tab_vis_loop_chain:
  "chain h p as \<Longrightarrow> length as \<le> fuel \<Longrightarrow> tab_vis_loop fuel h s p = Some (List.find (sees h s) as)"
proof (induction as arbitrary: p fuel)
  case (Cons a as)
  then obtain t n where "p = Some a" "h a = Some t" "chain h (prev t) as" "fuel = Suc n"
    by (cases fuel) auto
  with Cons show ?case by (auto simp: sees_def not_less)
qed simp

lemma free_chain_chain:
  "chain h p as \<Longrightarrow> distinct as \<Longrightarrow> length as \<le> fuel \<Longrightarrow>
   free_chain fuel h p = Some (\<lambda>x. if x \<in> set as then None else h x)"
proof (induction as arbitrary: h p fuel)
  case (Cons a as)
  then obtain t n where t: "p = Some a" "h a = Some t" "chain h (prev t) as" "fuel = Suc n"
    by (cases fuel) auto
  have "chain (h(a := None)) (prev t) as" 
    by (rule chain_cong [OF t(3)]) (use Cons.prems(2) in auto)
  then have f: "free_chain n (h(a := None)) (prev t) =
      Some (\<lambda>x. if x \<in> set as then None else (h(a := None)) x)"
    by (rule Cons.IH) (use Cons.prems(2,3) t(4) in auto)
  have "(\<lambda>x. if x \<in> set as then None else (h(a := None)) x) =
      (\<lambda>x. if x \<in> set (a # as) then None else h x)" by (rule ext) simp
  with f show ?case unfolding t(1,4) by (simp only: free_chain.simps t(2) option.case)
qed simp

text \<open>
  Two heaps agree on an address up to \<open>prev\<close>, the only field that collection changes in a
  version it keeps.
\<close>

definition same_but_prev :: "tabver option \<Rightarrow> tabver option \<Rightarrow> bool" where
  "same_but_prev x y \<longleftrightarrow> map_option (\<lambda>t. t\<lparr>prev := None\<rparr>) x = map_option (\<lambda>t. t\<lparr>prev := None\<rparr>) y"

lemma same_but_prev_refl [simp]: "same_but_prev x x"
  by (simp add: same_but_prev_def)

lemma same_but_prev_trans: "same_but_prev x y \<Longrightarrow> same_but_prev y z \<Longrightarrow> same_but_prev x z"
  by (simp add: same_but_prev_def)

lemma same_but_prev_upd: "same_but_prev (Some (t\<lparr>prev := p\<rparr>)) (Some t)"
  by (simp add: same_but_prev_def)

lemma same_but_prev_ver: "same_but_prev x y \<Longrightarrow> x \<noteq> None \<Longrightarrow> ver_id (the x) = ver_id (the y)"
  by (cases x; cases y) (auto simp: same_but_prev_def dest: arg_cong [of _ _ ver_id])

lemma same_but_prev_None: "same_but_prev x y \<Longrightarrow> x = None \<longleftrightarrow> y = None"
  by (auto simp: same_but_prev_def)

text \<open>Cutting a chain after one of its versions.\<close>

lemma chain_split:
  "chain h p (xs @ a # ys) \<Longrightarrow> \<exists>t. h a = Some t \<and> chain h (Some a) (a # ys) \<and> chain h (prev t) ys"
  by (induction xs arbitrary: p) auto

lemma chain_cut:
  "chain h p (xs @ a # ys) \<Longrightarrow> distinct (xs @ a # ys) \<Longrightarrow> h a = Some t \<Longrightarrow>
   \<forall>x\<in>set xs. h' x = h x \<Longrightarrow> h' a = Some (t\<lparr>prev := None\<rparr>) \<Longrightarrow> chain h' p (xs @ [a])"
  by (induction xs arbitrary: p) auto

definition cut_heap :: "heap \<Rightarrow> addr \<Rightarrow> addr list \<Rightarrow> heap" where
  "cut_heap h a ys = (\<lambda>x. if x \<in> set ys then None
     else if x = a then map_option (\<lambda>t. t\<lparr>prev := None\<rparr>) (h a) else h x)"

lemma cut_after_chain:
  assumes "chain h (Some a) (a # ys)" "distinct (a # ys)" "length ys \<le> fuel"
  shows "cut_after fuel h a = Some (cut_heap h a ys)"
proof -
  obtain t where t: "h a = Some t" "chain h (prev t) ys" using assms(1) by auto
  show ?thesis
  proof (cases ys)
    case Nil
    then have pn: "prev t = None" using t(2) by simp
    then have "t\<lparr>prev := None\<rparr> = t" by simp
    then have "cut_heap h a ys = h" using Nil t(1) by (auto simp: cut_heap_def fun_eq_iff)
    then show ?thesis using t(1) pn by (simp add: cut_after_def)
  next
    case (Cons y zs)
    then have p: "prev t = Some y" using t(2) by simp
    have f: "free_chain fuel h (Some y) = Some (\<lambda>x. if x \<in> set ys then None else h x)"
      using free_chain_chain [OF t(2) _ assms(3)] assms(2) p by simp
    have "(\<lambda>x. if x \<in> set ys then None else h x)(a \<mapsto> t\<lparr>prev := None\<rparr>) = cut_heap h a ys"
      using assms(2) t(1) by (auto simp: cut_heap_def fun_eq_iff)
    then show ?thesis using t(1) p f by (simp add: cut_after_def)
  qed
qed

subsection \<open>Pruning one table\<close>

text \<open>The versions that pruning keeps.\<close>

definition kept :: "heap \<Rightarrow> ulong \<Rightarrow> addr list \<Rightarrow> addr list" where
  "kept h k as = (if k = 0 then take 1 as
     else case dropWhile (\<lambda>a. \<not> sees h k a) as of [] \<Rightarrow> as | b # _ \<Rightarrow> takeWhile (\<lambda>a. \<not> sees h k a) as @ [b])"

lemma kept_prefix: "\<exists>ys. as = kept h k as @ ys"
proof (cases "k = 0")
  case True
  then show ?thesis by (metis append_take_drop_id kept_def)
next
  case False
  show ?thesis
  proof (cases "dropWhile (\<lambda>a. \<not> sees h k a) as")
    case Nil
    then have "as = kept h k as @ []" using False by (simp add: kept_def del: dropWhile_eq_Nil_conv)
    then show ?thesis by blast
  next
    case (Cons b bs)
    then have "as = kept h k as @ bs"
      using False takeWhile_dropWhile_id [of "\<lambda>a. \<not> sees h k a" as] by (simp add: kept_def)
    then show ?thesis by blast
  qed
qed

lemma kept_nonempty: "as \<noteq> [] \<Longrightarrow> kept h k as \<noteq> []"
  by (cases as) (auto simp: kept_def split: list.splits)

lemma find_append: "List.find P (xs @ ys) = (case List.find P xs of None \<Rightarrow> List.find P ys | Some x \<Rightarrow> Some x)"
  by (induction xs) auto

lemma find_takeWhile_None: "List.find P (takeWhile (\<lambda>a. \<not> P a) as) = None"
  by (auto simp: find_None_iff dest: set_takeWhileD)

lemma find_dropWhile: "List.find P as = (case dropWhile (\<lambda>a. \<not> P a) as of [] \<Rightarrow> None | b # _ \<Rightarrow> Some b)"
  by (induction as) auto

text \<open>A snapshot at or above the bound sees the same version in what is kept.\<close>

lemma find_kept:
  assumes "k \<noteq> 0" "k \<le> s"
  shows "List.find (sees h s) (kept h k as) = List.find (sees h s) as"
proof (cases "dropWhile (\<lambda>a. \<not> sees h k a) as")
  case (Cons b bs)
  then have as: "as = (takeWhile (\<lambda>a. \<not> sees h k a) as @ [b]) @ bs"
    by (metis append.assoc append_Cons append_Nil takeWhile_dropWhile_id)
  have "sees h k b" using Cons by (metis dropWhile_eq_Cons_conv)
  then have "sees h s b" using assms(2) by (auto simp: sees_def)
  then have "List.find (sees h s) (takeWhile (\<lambda>a. \<not> sees h k a) as @ [b]) \<noteq> None"
    by (auto simp: find_None_iff)
  moreover have "kept h k as = takeWhile (\<lambda>a. \<not> sees h k a) as @ [b]" using Cons assms(1) by (simp add: kept_def)
  ultimately show ?thesis by (subst (2) as) (auto simp: find_append split: option.splits)
qed (simp add: kept_def assms(1) del: dropWhile_eq_Nil_conv)

lemma prune_tab_chain:
  assumes ch: "chain h (Some a) as" and d: "distinct as" and len: "length as \<le> fuel"
  shows "\<exists>h'. prune_tab fuel h a k = Some h' \<and> chain h' (Some a) (kept h k as) \<and>
    (\<forall>x. x \<notin> set as \<longrightarrow> h' x = h x) \<and> (\<forall>x\<in>set (kept h k as). same_but_prev (h' x) (h x))"
proof -
  have cut: ?thesis if keep: "prune_tab fuel h a k = cut_after fuel h b" "kept h k as = xs @ [b]" "as = xs @ b # ys"
    for b xs ys
  proof -
    have c: "chain h (Some b) (b # ys)" "\<exists>t. h b = Some t" using chain_split ch keep(3) by blast+
    have db: "distinct (b # ys)" "length ys \<le> fuel" using d len keep(3) by auto
    obtain t where t: "h b = Some t" using c(2) by blast
    have xs: "x \<notin> set ys" "x \<noteq> b" if "x \<in> set xs" for x using that d keep(3) by auto
    have hb: "cut_heap h b ys b = Some (t\<lparr>prev := None\<rparr>)" using db t by (simp add: cut_heap_def)
    have "chain (cut_heap h b ys) (Some a) (xs @ [b])"
      using chain_cut [of h "Some a" xs b ys t "cut_heap h b ys"] ch d keep(3) t hb xs by (auto simp: cut_heap_def)
    moreover have "same_but_prev (cut_heap h b ys x) (h x)" if "x \<in> set (xs @ [b])" for x
      using that xs db t hb same_but_prev_upd by (auto simp: cut_heap_def)
    ultimately show ?thesis
      using cut_after_chain [OF c(1) db] keep by (auto simp: cut_heap_def)
  qed
  obtain as' where as: "as = a # as'" using ch by (cases as) auto
  show ?thesis
  proof (cases "k = 0")
    case True
    then show ?thesis using cut [of a "[]" as'] as by (simp add: prune_tab_def kept_def)
  next
    case False
    have v: "tab_vis_loop (Suc fuel) h k (Some a) = Some (List.find (sees h k) as)"
      using len by (intro tab_vis_loop_chain [OF ch]) simp
    show ?thesis
    proof (cases "dropWhile (\<lambda>a. \<not> sees h k a) as")
      case Nil
      then have "List.find (sees h k) as = None" by (simp add: find_dropWhile del: dropWhile_eq_Nil_conv)
      then have "prune_tab fuel h a k = Some h" using False v by (simp add: prune_tab_def)
      moreover have "kept h k as = as" using False Nil by (simp add: kept_def del: dropWhile_eq_Nil_conv)
      ultimately show ?thesis using ch by auto
    next
      case (Cons b ys)
      then have "List.find (sees h k) as = Some b" by (simp add: find_dropWhile)
      then have "prune_tab fuel h a k = cut_after fuel h b" using False v by (simp add: prune_tab_def)
      moreover have "kept h k as = takeWhile (\<lambda>a. \<not> sees h k a) as @ [b]" using False Cons by (simp add: kept_def)
      moreover have "as = takeWhile (\<lambda>a. \<not> sees h k a) as @ b # ys" using Cons by (metis takeWhile_dropWhile_id)
      ultimately show ?thesis using cut by blast
    qed
  qed
qed

end
