(* ===== verification/Db_Correct.thy ===== *)
theory Db_Correct
  imports Db_Versions
begin

text \<open>
  The invariant of the database and what commit, abort and garbage collection do to it. The
  versions of every table form a chain, the chains do not share versions, every version
  satisfies the invariant of tables, and every live snapshot sees a version of every table.
\<close>

subsection \<open>The invariant\<close>

definition chains_ok :: "heap \<Rightarrow> (string \<times> addr) list \<Rightarrow> addr list list \<Rightarrow> bool" where
  "chains_ok h es cs \<longleftrightarrow> list_all2 (\<lambda>e as. chain h (Some (snd e)) as) es cs \<and> distinct (concat cs)"

definition versions_ok :: "heap \<Rightarrow> ulong \<Rightarrow> addr list list \<Rightarrow> bool" where
  "versions_ok h v cs \<longleftrightarrow> (\<forall>a\<in>set (concat cs). tab_inv (the (h a)) \<and> ver_id (the (h a)) \<le> v)"

definition covered :: "heap \<Rightarrow> ulong set \<Rightarrow> addr list list \<Rightarrow> bool" where
  "covered h S cs \<longleftrightarrow> (\<forall>as\<in>set cs. \<forall>s\<in>S. \<exists>a\<in>set as. sees h s a)"

definition db_inv :: "db \<Rightarrow> addr list list \<Rightarrow> bool" where
  "db_inv db cs \<longleftrightarrow> chains_ok (heap_of db) (tabs db) cs \<and>
     (\<forall>a\<in>set (concat cs). a < next_free db) \<and> (\<forall>a\<ge>next_free db. heap_of db a = None) \<and>
     mv_inv (mv db) \<and> length (snaps (mv db)) < 2 ^ 64 \<and>
     versions_ok (heap_of db) (cur_ver (mv db)) cs \<and>
     covered (heap_of db) (set (snaps (mv db))) cs"

lemma db_inv_length: "db_inv db cs \<Longrightarrow> length cs = length (tabs db)"
  by (auto simp: db_inv_def chains_ok_def dest: list_all2_lengthD)

lemma db_inv_chain:
  "db_inv db cs \<Longrightarrow> i < length (tabs db) \<Longrightarrow> chain (heap_of db) (Some (snd (tabs db ! i))) (cs ! i)"
  by (auto simp: db_inv_def chains_ok_def list_all2_conv_all_nth)

lemma in_concat_nth: "i < length cs \<Longrightarrow> a \<in> set (cs ! i) \<Longrightarrow> a \<in> set (concat cs)"
  by (auto intro: nth_mem)

lemma chain_fuel:
  assumes "distinct (concat cs)" "\<forall>a\<in>set (concat cs). a < n" "as \<in> set cs"
  shows "length as \<le> n" "distinct as"
proof -
  show d: "distinct as" using assms(1,3) by (simp add: distinct_concat_iff)
  have "set as \<subseteq> {..<n}" using assms(2,3) by auto
  then have "card (set as) \<le> n" by (metis card_lessThan card_mono finite_lessThan)
  then show "length as \<le> n" using d by (simp add: distinct_card)
qed

lemma db_inv_fuel:
  assumes "db_inv db cs" "as \<in> set cs" shows "length as \<le> next_free db" "distinct as"
  using chain_fuel [of cs "next_free db" as] assms by (auto simp: db_inv_def chains_ok_def)

text \<open>What a snapshot sees of a table.\<close>

lemma tab_vis_db:
  assumes "db_inv db cs" "i < length (tabs db)"
  shows "tab_vis db (snd (tabs db ! i)) s = Some (List.find (sees (heap_of db) s) (cs ! i))"
proof -
  have "cs ! i \<in> set cs" using assms db_inv_length [OF assms(1)] by simp
  then have "length (cs ! i) \<le> Suc (next_free db)" using db_inv_fuel(1) [OF assms(1)] by fastforce
  then show ?thesis unfolding tab_vis_def by (rule tab_vis_loop_chain [OF db_inv_chain [OF assms]])
qed

lemma visible_exists:
  assumes "db_inv db cs" "i < length (tabs db)" "s \<in> set (snaps (mv db))"
  shows "\<exists>a. List.find (sees (heap_of db) s) (cs ! i) = Some a \<and> a \<in> set (cs ! i)"
proof -
  have "cs ! i \<in> set cs" using assms(1,2) db_inv_length [OF assms(1)] by simp
  then have "\<exists>a\<in>set (cs ! i). sees (heap_of db) s a"
    using assms(1,3) unfolding db_inv_def covered_def by blast
  then have "List.find (sees (heap_of db) s) (cs ! i) \<noteq> None" by (auto simp: find_None_iff)
  then show ?thesis by (auto simp: find_Some_iff)
qed

subsection \<open>Garbage collection\<close>

lemma kept_cong: "\<forall>a\<in>set as. h' a = h a \<Longrightarrow> kept h' k as = kept h k as"
proof -
  assume "\<forall>a\<in>set as. h' a = h a"
  then have "\<forall>a\<in>set as. sees h' k a = sees h k a" by (simp add: sees_def)
  then have "takeWhile (\<lambda>a. \<not> sees h' k a) as = takeWhile (\<lambda>a. \<not> sees h k a) as"
    "dropWhile (\<lambda>a. \<not> sees h' k a) as = dropWhile (\<lambda>a. \<not> sees h k a) as"
    by (auto intro!: takeWhile_cong dropWhile_cong)
  then show ?thesis unfolding kept_def by (simp only:)
qed

lemma set_kept: "set (kept h k as) \<subseteq> set as"
  using kept_prefix [of as h k] by (metis Un_upper1 set_append)

lemma prune_all_chains:
  "chains_ok h es cs \<Longrightarrow> \<forall>as\<in>set cs. length as \<le> fuel \<Longrightarrow>
   \<exists>h'. prune_all fuel h es k = Some h' \<and>
     list_all2 (\<lambda>e as. chain h' (Some (snd e)) (kept h k as)) es cs \<and>
     (\<forall>x. x \<notin> set (concat cs) \<longrightarrow> h' x = h x) \<and>
     (\<forall>as\<in>set cs. \<forall>x\<in>set (kept h k as). same_but_prev (h' x) (h x))"
proof (induction es arbitrary: h cs)
  case Nil
  then show ?case by (simp add: chains_ok_def)
next
  case (Cons e es)
  then obtain as cs0 where cs: "cs = as # cs0" "chain h (Some (snd e)) as" "distinct as"
    "list_all2 (\<lambda>e as. chain h (Some (snd e)) as) es cs0" "distinct (concat cs0)"
    "set as \<inter> set (concat cs0) = {}"
    by (auto simp: chains_ok_def list_all2_Cons1)
  from prune_tab_chain [OF cs(2,3)] Cons.prems(2) cs(1) obtain h1 where
    h1: "prune_tab fuel h (snd e) k = Some h1" "chain h1 (Some (snd e)) (kept h k as)"
      "\<And>x. x \<notin> set as \<Longrightarrow> h1 x = h x" "\<And>x. x \<in> set (kept h k as) \<Longrightarrow> same_but_prev (h1 x) (h x)" by force
  have same: "h1 x = h x" if "bs \<in> set cs0" "x \<in> set bs" for bs x
    using h1(3) cs(6) that by auto
  have "chains_ok h1 es cs0"
    using cs(4,5) same unfolding chains_ok_def list_all2_conv_all_nth
    by (metis (no_types, lifting) chain_cong nth_mem)
  from Cons.IH [OF this] Cons.prems(2) cs(1) obtain h2 where
    h2: "prune_all fuel h1 es k = Some h2"
      "list_all2 (\<lambda>e as. chain h2 (Some (snd e)) (kept h1 k as)) es cs0"
      "\<And>x. x \<notin> set (concat cs0) \<Longrightarrow> h2 x = h1 x"
      "\<And>bs x. bs \<in> set cs0 \<Longrightarrow> x \<in> set (kept h1 k bs) \<Longrightarrow> same_but_prev (h2 x) (h1 x)" by auto
  have kc: "kept h1 k bs = kept h k bs" if "bs \<in> set cs0" for bs
    by (rule kept_cong) (use same that in blast)
  have a2: "h2 x = h1 x" if "x \<in> set as" for x using h2(3) cs(6) that by blast
  have "chain h2 (Some (snd e)) (kept h k as)"
    using chain_cong [OF h1(2), of h2] a2 set_kept [of h k as] by auto
  moreover have "list_all2 (\<lambda>e as. chain h2 (Some (snd e)) (kept h k as)) es cs0"
    using h2(2) kc by (auto simp: list_all2_conv_all_nth)
  moreover have "same_but_prev (h2 x) (h x)" if "x \<in> set (kept h k as)" for x
    using h1(4) [OF that] a2 set_kept [of h k as] that by auto
  moreover have "same_but_prev (h2 x) (h x)" if "bs \<in> set cs0" "x \<in> set (kept h k bs)" for bs x
  proof -
    have "x \<in> set bs" using set_kept that(2) by blast
    then show ?thesis using h2(4) [OF that(1)] kc [OF that(1)] same [OF that(1)] that(2) by metis
  qed
  ultimately show ?case using h1(1,3) h2(1,3) cs(1) by auto
qed

lemma gc_keep_le:
  assumes "db_inv db cs" "s \<in> set (snaps (mv db))"
  shows "gc_keep_id db \<noteq> 0 \<and> gc_keep_id db \<le> s"
proof -
  have ne: "snaps (mv db) \<noteq> []" and inv: "mv_inv (mv db)" and len: "length (snaps (mv db)) < 2 ^ 64"
    using assms by (auto simp: db_inv_def)
  have "(of_nat (length (snaps (mv db))) :: ulong) \<noteq> 0"
    using ne len by (simp add: word_of_nat_eq_0_iff) (auto dest: dvd_imp_le)
  then have k: "gc_keep_id db = snap_min (mv db)"
    by (simp add: gc_keep_id_def mv_stat_def Let_def word_greater_zero_iff)
  have "snap_min (mv db) \<in> set (snaps (mv db))" using ne by (simp add: snap_min_Min)
  then have "snap_min (mv db) \<noteq> 0" using inv by (auto simp: mv_inv_def)
  then show ?thesis using k snap_min_le [OF assms(2)] by simp
qed

lemma tab_inv_prev: "tab_inv (t\<lparr>prev := p\<rparr>) = tab_inv t"
  by (simp add: tab_inv_def schema_ok_def)

lemma same_but_prev_inv:
  assumes "same_but_prev x y" "x \<noteq> None" shows "tab_inv (the x) = tab_inv (the y)"
proof -
  have "(the x)\<lparr>prev := None\<rparr> = (the y)\<lparr>prev := None\<rparr>"
    using assms by (cases x; cases y) (auto simp: same_but_prev_def)
  then show ?thesis by (metis tab_inv_prev)
qed

lemma sees_same: "same_but_prev (h' a) (h a) \<Longrightarrow> h a \<noteq> None \<Longrightarrow> sees h' s a = sees h s a"
  using same_but_prev_ver [of "h' a" "h a"] same_but_prev_None [of "h' a" "h a"] by (simp add: sees_def)

lemma find_cong_set: "(\<And>a. a \<in> set as \<Longrightarrow> P a = Q a) \<Longrightarrow> List.find P as = List.find Q as"
  by (induction as) auto

lemma distinct_concat_kept: "distinct (concat cs) \<Longrightarrow> distinct (concat (map (kept h k) cs))"
proof (induction cs)
  case (Cons as cs)
  have "distinct (kept h k as)" using Cons.prems kept_prefix [of as h k]
    by (metis concat.simps(2) distinct_append)
  moreover have "set (concat (map (kept h k) cs)) \<subseteq> set (concat cs)" using set_kept by fastforce
  then have "set (kept h k as) \<inter> set (concat (map (kept h k) cs)) = {}"
    using Cons.prems set_kept [of h k as] by auto
  ultimately show ?case using Cons by auto
qed simp

text \<open>
  Pruning at a bound that no live snapshot is below keeps the invariant, keeps what every
  live snapshot sees, and does not touch the working copies of transactions.
\<close>

lemma gc_prune_ok:
  assumes inv: "db_inv db cs" and k: "\<And>s. s \<in> set (snaps (mv db)) \<Longrightarrow> k \<noteq> 0 \<and> k \<le> s"
  shows "\<exists>h'. gc_prune db k = Some (db\<lparr>heap_of := h'\<rparr>) \<and>
    db_inv (db\<lparr>heap_of := h'\<rparr>) (map (kept (heap_of db) k) cs) \<and>
    (\<forall>x. x \<notin> set (concat cs) \<longrightarrow> h' x = heap_of db x) \<and>
    (\<forall>as\<in>set cs. \<forall>x\<in>set (kept (heap_of db) k as). same_but_prev (h' x) (heap_of db x)) \<and>
    (\<forall>s\<in>set (snaps (mv db)). \<forall>as\<in>set cs.
       List.find (sees h' s) (kept (heap_of db) k as) = List.find (sees (heap_of db) s) as)"
proof -
  let ?h = "heap_of db"
  have co: "chains_ok ?h (tabs db) cs" "\<forall>as\<in>set cs. length as \<le> next_free db"
    using inv db_inv_fuel(1) [OF inv] by (auto simp: db_inv_def)
  obtain h' where h': "prune_all (next_free db) ?h (tabs db) k = Some h'"
    "list_all2 (\<lambda>e as. chain h' (Some (snd e)) (kept ?h k as)) (tabs db) cs"
    "\<And>x. x \<notin> set (concat cs) \<Longrightarrow> h' x = ?h x"
    "\<And>as x. as \<in> set cs \<Longrightarrow> x \<in> set (kept ?h k as) \<Longrightarrow> same_but_prev (h' x) (?h x)"
    using prune_all_chains [OF co, of k] by blast
  have old: "?h x \<noteq> None" if ac: "as \<in> set cs" and xa: "x \<in> set as" for as x
  proof -
    obtain i where "i < length cs" "as = cs ! i" using ac unfolding in_set_conv_nth by blast
    moreover from this have "chain ?h (Some (snd (tabs db ! i))) (cs ! i)"
      using db_inv_chain [OF inv, of i] db_inv_length [OF inv] by simp
    ultimately show ?thesis using chain_heap xa by metis
  qed
  have sub: "set (concat (map (kept ?h k) cs)) \<subseteq> set (concat cs)" using set_kept by fastforce
  have new: "h' x \<noteq> None" if "as \<in> set cs" "x \<in> set (kept ?h k as)" for as x
    using same_but_prev_None [OF h'(4) [OF that]] old [OF that(1)] set_kept that(2) by blast
  have find: "List.find (sees h' s) (kept ?h k as) = List.find (sees ?h s) as"
    if "s \<in> set (snaps (mv db))" "as \<in> set cs" for s as
  proof -
    have "List.find (sees h' s) (kept ?h k as) = List.find (sees ?h s) (kept ?h k as)"
      by (rule find_cong_set) (use h'(4) [OF that(2)] old [OF that(2)] set_kept [of ?h k as] sees_same in blast)
    also have "\<dots> = List.find (sees ?h s) as" using find_kept k [OF that(1)] by blast
    finally show ?thesis .
  qed
  have "chains_ok h' (tabs db) (map (kept ?h k) cs)"
    using h'(2) distinct_concat_kept [of cs ?h k] co(1) by (simp add: chains_ok_def list_all2_map2)
  moreover have "versions_ok h' (cur_ver (mv db)) (map (kept ?h k) cs)"
  proof -
    have "tab_inv (the (h' x)) \<and> ver_id (the (h' x)) \<le> cur_ver (mv db)"
      if "as \<in> set cs" "x \<in> set (kept ?h k as)" for as x
    proof -
      have "tab_inv (the (?h x)) \<and> ver_id (the (?h x)) \<le> cur_ver (mv db)"
        using inv that set_kept by (fastforce simp: db_inv_def versions_ok_def)
      then show ?thesis
        using same_but_prev_inv [OF h'(4) [OF that] new [OF that]]
          same_but_prev_ver [OF h'(4) [OF that] new [OF that]] by simp
    qed
    then show ?thesis by (auto simp: versions_ok_def)
  qed
  moreover have "covered h' (set (snaps (mv db))) (map (kept ?h k) cs)"
  proof -
    have "\<exists>a\<in>set (kept ?h k as). sees h' s a" if "as \<in> set cs" "s \<in> set (snaps (mv db))" for as s
    proof -
      have "\<exists>a\<in>set as. sees ?h s a" using inv that unfolding db_inv_def covered_def by blast
      then have "List.find (sees ?h s) as \<noteq> None" by (auto simp: find_None_iff)
      then have "List.find (sees h' s) (kept ?h k as) \<noteq> None" using find [OF that(2,1)] by simp
      then show ?thesis by (auto simp: find_None_iff)
    qed
    then show ?thesis by (auto simp: covered_def)
  qed
  moreover have "\<forall>a\<ge>next_free db. h' a = None"
    using h'(3) inv by (metis db_inv_def leD)
  ultimately have "db_inv (db\<lparr>heap_of := h'\<rparr>) (map (kept ?h k) cs)"
    using inv sub by (auto simp: db_inv_def)
  then show ?thesis using h' find by (auto simp: gc_prune_def)
qed

lemmas gc_tabs_ok = gc_prune_ok [OF _ gc_keep_le]

end
