(* ===== verification/Db_Commit.thy ===== *)
theory Db_Commit
  imports Db_Correct
begin

text \<open>
  Transactions: a commit is refused exactly when a table it wrote has moved on, a commit that
  succeeds puts its working copies at the head of their tables under the new version, and
  neither a commit nor an abort changes what a live snapshot sees.
\<close>

subsection \<open>Transactions that fit the database\<close>

definition works :: "txtab list \<Rightarrow> addr list" where
  "works its = concat (map (\<lambda>it. case tx_work it of None \<Rightarrow> [] | Some w \<Rightarrow> [w]) its)"

definition items_ok :: "db \<Rightarrow> addr list list \<Rightarrow> txtab list \<Rightarrow> bool" where
  "items_ok db cs its \<longleftrightarrow>
     (\<forall>it\<in>set its. tx_gen it = tabs_gen db \<and> tx_ent it < length (tabs db) \<and>
        (tx_dirty it \<longrightarrow> tx_work it \<noteq> None)) \<and>
     distinct (map tx_ent its) \<and> distinct (works its) \<and>
     (\<forall>w\<in>set (works its). w \<notin> set (concat cs) \<and> w < next_free db \<and>
        (\<exists>t. heap_of db w = Some t \<and> tab_inv t))"

text \<open>Its tables are where its snapshot sees them.\<close>

definition tx_ok :: "db \<Rightarrow> addr list list \<Rightarrow> dbtx \<Rightarrow> bool" where
  "tx_ok db cs tx \<longleftrightarrow> \<not> tx_done tx \<and> tx_snap tx \<in> set (snaps (mv db)) \<and> items_ok db cs (tx_tabs tx) \<and>
     (\<forall>it\<in>set (tx_tabs tx). List.find (sees (heap_of db) (tx_snap tx)) (cs ! tx_ent it) = Some (tx_base it))"

lemma works_simps [simp]:
  "works [] = []" "works (it # its) = (case tx_work it of None \<Rightarrow> [] | Some w \<Rightarrow> [w]) @ works its"
  by (simp_all add: works_def)

subsection \<open>Refused commits\<close>

definition moved :: "db \<Rightarrow> txtab list \<Rightarrow> bool" where
  "moved db its \<longleftrightarrow> (\<exists>it\<in>set its. tx_dirty it \<and> snd (tabs db ! tx_ent it) \<noteq> tx_base it)"

lemma commit_check_moved: "items_ok db cs its \<Longrightarrow> commit_check db its = Some (\<not> moved db its)"
proof (induction its)
  case (Cons it its)
  have "items_ok db cs its" using Cons.prems by (auto simp: items_ok_def)
  with Cons show ?case by (auto simp: items_ok_def deref_ent_def moved_def)
qed (simp add: moved_def)

lemma commit_check_stale:
  assumes "\<forall>it\<in>set its. tx_gen it = tabs_gen db \<and> tx_ent it < length (tabs db)"
    and "it \<in> set its" "tx_dirty it" "snd (tabs db ! tx_ent it) \<noteq> tx_base it"
  shows "commit_check db its = Some False"
  using assms by (induction its) (auto simp: deref_ent_def)

lemma commit_refused:
  assumes "tx_ok db cs tx" "moved db (tx_tabs tx)"
  shows "db_commit db tx io = Some (False, tx, db)"
  using commit_check_moved [of db cs "tx_tabs tx"] assms by (simp add: db_commit_def tx_ok_def)

subsection \<open>Publishing the working copies\<close>

text \<open>The database after a list of items is published at version \<open>v\<close>.\<close>

definition published :: "db \<Rightarrow> addr list list \<Rightarrow> ulong \<Rightarrow> txtab list \<Rightarrow> db \<Rightarrow> addr list list \<Rightarrow> bool" where
  "published db cs v its db' cs' \<longleftrightarrow>
     db_inv db' cs' \<and> mv db' = mv db \<and> length (tabs db') = length (tabs db) \<and> map fst (tabs db') = map fst (tabs db) \<and>
     tabs_gen db' = tabs_gen db \<and> next_free db' = next_free db \<and> root_dir db' = root_dir db \<and>
     max_sql db' = max_sql db \<and>
     (\<forall>x. x \<notin> set (works its) \<longrightarrow> heap_of db' x = heap_of db x) \<and>
     set (concat cs') \<subseteq> set (concat cs) \<union> set (works its) \<and>
     (\<forall>j<length (tabs db). \<forall>s<v. List.find (sees (heap_of db') s) (cs' ! j) = List.find (sees (heap_of db) s) (cs ! j)) \<and>
     (\<forall>it\<in>set its. tx_dirty it \<longrightarrow> (\<exists>w t. tx_work it = Some w \<and> heap_of db w = Some t \<and>
        snd (tabs db' ! tx_ent it) = w \<and> (\<exists>p. heap_of db' w = Some (t\<lparr>ver_id := v, prev := p\<rparr>)))) \<and>
     (\<forall>j<length (tabs db). (\<forall>it\<in>set its. tx_dirty it \<longrightarrow> tx_ent it \<noteq> j) \<longrightarrow> tabs db' ! j = tabs db ! j)"

lemma chain_extend:
  assumes "chain h (Some a) as" "w \<notin> set as"
  shows "chain (h(w \<mapsto> t\<lparr>ver_id := v, prev := Some a\<rparr>)) (Some w) (w # as)"
  using chain_cong [OF assms(1), of "h(w \<mapsto> t\<lparr>ver_id := v, prev := Some a\<rparr>)"] assms(2) by auto

lemma concat_update_subset: "i < length cs \<Longrightarrow> set (concat (cs[i := w # cs ! i])) = insert w (set (concat cs))"
proof -
  assume i: "i < length cs"
  have "cs = take i cs @ cs ! i # drop (Suc i) cs" using i by (rule id_take_nth_drop)
  moreover have "cs[i := w # cs ! i] = take i cs @ (w # cs ! i) # drop (Suc i) cs" using i by (rule upd_conv_take_nth_drop)
  ultimately show ?thesis by (metis (no_types, lifting) Un_insert_left Un_insert_right append_Cons concat.simps(2) concat_append list.simps(15) set_append)
qed

lemma distinct_concat_update:
  "i < length cs \<Longrightarrow> distinct (concat cs) \<Longrightarrow> w \<notin> set (concat cs) \<Longrightarrow> distinct (concat (cs[i := w # cs ! i]))"
proof -
  assume i: "i < length cs" and d: "distinct (concat cs)" and w: "w \<notin> set (concat cs)"
  have e: "cs = take i cs @ cs ! i # drop (Suc i) cs" using i by (rule id_take_nth_drop)
  have "concat cs = concat (take i cs) @ cs ! i @ concat (drop (Suc i) cs)" by (subst e) simp
  moreover have "concat (cs[i := w # cs ! i]) = concat (take i cs) @ (w # cs ! i) @ concat (drop (Suc i) cs)"
    using i by (simp add: upd_conv_take_nth_drop)
  ultimately show ?thesis using d w by auto
qed

lemma publish_one:
  fixes d :: disk
  assumes inv: "db_inv db cs" and i: "i < length (tabs db)" and w: "w \<notin> set (concat cs)" "w < next_free db"
    and t: "heap_of db w = Some t" "tab_inv t"
    and v: "v = cur_ver (mv db)" "\<And>s. s \<in> set (snaps (mv db)) \<Longrightarrow> s < v"
  defines "h' \<equiv> (heap_of db)(w \<mapsto> t\<lparr>ver_id := v, prev := Some (snd (tabs db ! i))\<rparr>)"
  defines "db' \<equiv> db\<lparr>heap_of := h', tabs := (tabs db)[i := (fst (tabs db ! i), w)], disk_of := d\<rparr>"
  shows "db_inv db' (cs[i := w # cs ! i])"
    and "\<forall>j<length (tabs db). \<forall>s<v. List.find (sees h' s) (cs[i := w # cs ! i] ! j) = List.find (sees (heap_of db) s) (cs ! j)"
proof -
  let ?h = "heap_of db" and ?cs = "cs[i := w # cs ! i]"
  have len: "length cs = length (tabs db)" by (rule db_inv_length [OF inv])
  have ic: "i < length cs" using i len by simp
  have wj: "w \<notin> set (cs ! j)" if "j < length cs" for j using in_concat_nth [OF that] w(1) by blast
  have same: "h' x = ?h x" if "x \<in> set (concat cs)" for x using that w(1) by (auto simp: h'_def)
  have ch: "chain h' (Some (snd (tabs db' ! j))) (?cs ! j)" if j: "j < length (tabs db)" for j
  proof (cases "j = i")
    case True
    then show ?thesis using chain_extend [OF db_inv_chain [OF inv i] wj [OF ic]] i ic by (simp add: db'_def h'_def)
  next
    case False
    have "chain h' (Some (snd (tabs db ! j))) (cs ! j)"
      by (rule chain_cong [OF db_inv_chain [OF inv j]]) (use same in_concat_nth j len in metis)
    then show ?thesis using False j len by (simp add: db'_def)
  qed
  have sees': "sees h' s x = sees ?h s x" if "x \<in> set (concat cs)" for s x using same [OF that] by (simp add: sees_def)
  have "chains_ok h' (tabs db') ?cs"
    using ch len distinct_concat_update [OF ic _ w(1)] inv
    by (auto simp: chains_ok_def list_all2_conv_all_nth db'_def db_inv_def)
  moreover have "versions_ok h' (cur_ver (mv db)) ?cs"
  proof -
    have "tab_inv (t\<lparr>ver_id := v, prev := p\<rparr>)" for p using t(2) by (simp add: tab_inv_def schema_ok_def)
    then show ?thesis
      using inv same v(1) w(1) unfolding versions_ok_def concat_update_subset [OF ic] db_inv_def
      by (auto simp: h'_def)
  qed
  moreover have "covered h' (set (snaps (mv db))) ?cs"
  proof -
    have "\<exists>a\<in>set (?cs ! j). sees h' s a" if j: "j < length cs" and s: "s \<in> set (snaps (mv db))" for j s
    proof -
      have "cs ! j \<in> set cs" using j by simp
      then obtain a where "a \<in> set (cs ! j)" "sees ?h s a" using inv s unfolding db_inv_def covered_def by blast
      moreover from this have "sees h' s a" using sees' in_concat_nth [OF j] by blast
      ultimately show ?thesis using j by (cases "j = i") auto
    qed
    then show ?thesis unfolding covered_def by (metis in_set_conv_nth length_list_update)
  qed
  moreover have "\<forall>a\<ge>next_free db. h' a = None" using inv w(2) by (auto simp: db_inv_def h'_def)
  ultimately show "db_inv db' ?cs"
    using inv w(2) concat_update_subset [OF ic, of w] by (auto simp: db_inv_def db'_def)
  show "\<forall>j<length (tabs db). \<forall>s<v. List.find (sees h' s) (?cs ! j) = List.find (sees ?h s) (cs ! j)"
  proof (intro allI impI)
    fix j s assume j: "j < length (tabs db)" and s: "s < v"
    have f: "List.find (sees h' s) (cs ! j) = List.find (sees ?h s) (cs ! j)"
      by (rule find_cong_set) (use sees' in_concat_nth j len in metis)
    have "\<not> sees h' s w" using s by (simp add: sees_def h'_def)
    then show "List.find (sees h' s) (?cs ! j) = List.find (sees ?h s) (cs ! j)"
      using f ic by (cases "j = i") auto
  qed
qed

lemma published_refl: "db_inv db cs \<Longrightarrow> published db cs v [] db cs"
  by (simp add: published_def)

lemma published_clean:
  assumes "published db cs v its db' cs'" "\<not> tx_dirty it"
  shows "published db cs v (it # its) db' cs'"
  using assms by (auto simp: published_def split: option.splits)

lemma tab_save_ok: "fst (tab_save dir Io_ok tab d)"
  by (simp add: tab_save_def Let_def)

lemma commit_publish_ok:
  assumes "\<And>j. io j = Io_ok"
  shows "db_inv db cs \<Longrightarrow> items_ok db cs its \<Longrightarrow> v = cur_ver (mv db) \<Longrightarrow> \<forall>s\<in>set (snaps (mv db)). s < v \<Longrightarrow>
    \<exists>its' db' cs'. commit_publish db v io i its = Some (True, its', db') \<and> published db cs v its db' cs'"
proof (induction its arbitrary: db cs i)
  case Nil
  then show ?case using published_refl [OF Nil(1)] by auto
next
  case (Cons it its)
  have io: "items_ok db cs its" using Cons.prems(2) by (auto simp: items_ok_def)
  show ?case
  proof (cases "tx_dirty it")
    case False
    obtain its' db' cs' where "commit_publish db v io (Suc i) its = Some (True, its', db')"
      "published db cs v its db' cs'"
      using Cons.IH [OF Cons.prems(1) io Cons.prems(3,4)] by blast
    then show ?thesis using False published_clean by (auto intro!: exI)
  next
    case True
    then obtain w t where w: "tx_work it = Some w" "w \<notin> set (concat cs)" "w < next_free db"
      "heap_of db w = Some t" "tab_inv t" and e: "tx_gen it = tabs_gen db" "tx_ent it < length (tabs db)"
      using Cons.prems(2) by (fastforce simp: items_ok_def)
    have dist: "tx_ent it \<notin> set (map tx_ent its)" "w \<notin> set (works its)"
      using Cons.prems(2) w(1) by (auto simp: items_ok_def)
    let ?e = "tabs db ! tx_ent it"
    let ?t = "t\<lparr>ver_id := v, prev := Some (snd ?e)\<rparr>"
    let ?d = "snd (tab_save (root_dir db) Io_ok ?t (disk_of db))"
    let ?db1 = "db\<lparr>heap_of := (heap_of db)(w \<mapsto> ?t), tabs := (tabs db)[tx_ent it := (fst ?e, w)], disk_of := ?d\<rparr>"
    let ?cs1 = "cs[tx_ent it := w # cs ! tx_ent it]"
    note one = publish_one(1) [OF Cons.prems(1) e(2) w(2-5) Cons.prems(3) bspec [OF Cons.prems(4)], where d = ?d]
      publish_one(2) [OF Cons.prems(1) e(2) w(2-5) Cons.prems(3) bspec [OF Cons.prems(4)]]
    have ec: "tx_ent it < length cs" using e(2) db_inv_length [OF Cons.prems(1)] by simp
    have io1: "items_ok ?db1 ?cs1 its"
      using io dist(2) unfolding items_ok_def concat_update_subset [OF ec] by auto
    obtain its' db' cs' where rec: "commit_publish ?db1 v io (Suc i) its = Some (True, its', db')"
      and pub: "published ?db1 ?cs1 v its db' cs'"
      using Cons.IH [OF one(1) io1, of "Suc i"] Cons.prems(3,4) by auto
    have "commit_publish db v io i (it # its) = Some (True, it\<lparr>tx_work := None\<rparr> # its', db')"
      using True w(1,4) e rec assms tab_save_ok [of "root_dir db" ?t "disk_of db"]
      by (simp add: deref_ent_def Let_def case_prod_beta)
    moreover have "published db cs v (it # its) db' cs'"
      unfolding published_def
    proof (intro conjI)
      note p = pub [unfolded published_def]
      show "db_inv db' cs'" "mv db' = mv db" "length (tabs db') = length (tabs db)" "tabs_gen db' = tabs_gen db"
        "next_free db' = next_free db" "root_dir db' = root_dir db" "max_sql db' = max_sql db" using p by simp_all
      show "map fst (tabs db') = map fst (tabs db)" 
        using p e(2) list_update_id [of "map fst (tabs db)" "tx_ent it"] by (simp add: map_update)
      show "\<forall>x. x \<notin> set (works (it # its)) \<longrightarrow> heap_of db' x = heap_of db x" using p w(1) by auto
      show "set (concat cs') \<subseteq> set (concat cs) \<union> set (works (it # its))"
        using p w(1) concat_update_subset [OF ec, of w] by auto
      show "\<forall>j<length (tabs db). \<forall>s<v. List.find (sees (heap_of db') s) (cs' ! j) =
          List.find (sees (heap_of db) s) (cs ! j)" using p one(2) by simp
      have rest: "\<forall>j<length (tabs db). (\<forall>x\<in>set its. tx_dirty x \<longrightarrow> tx_ent x \<noteq> j) \<longrightarrow>
          tabs db' ! j = (tabs db)[tx_ent it := (fst ?e, w)] ! j" using p by simp
      have "\<forall>x\<in>set its. tx_ent x \<noteq> tx_ent it" using dist(1) by (force simp: image_iff)
      with rest e(2) have "tabs db' ! tx_ent it = (tabs db)[tx_ent it := (fst ?e, w)] ! tx_ent it" by blast
      then have "snd (tabs db' ! tx_ent it) = w" using e(2) by simp
      moreover have "heap_of db' w = Some ?t" using p dist(2) by simp
      moreover have "\<exists>w' t'. tx_work x = Some w' \<and> heap_of db w' = Some t' \<and> snd (tabs db' ! tx_ent x) = w' \<and>
          (\<exists>p. heap_of db' w' = Some (t'\<lparr>ver_id := v, prev := p\<rparr>))" if "x \<in> set its" "tx_dirty x" for x
      proof -
        obtain w' t' where x: "tx_work x = Some w'" "heap_of ?db1 w' = Some t'" "snd (tabs db' ! tx_ent x) = w'"
          "\<exists>p. heap_of db' w' = Some (t'\<lparr>ver_id := v, prev := p\<rparr>)" using p \<open>x \<in> set its\<close> \<open>tx_dirty x\<close> by blast
        have "w' \<in> set (works its)" using \<open>x \<in> set its\<close> x(1) by (force simp: works_def)
        then have "w' \<noteq> w" using dist(2) by auto
        then show ?thesis using x by auto
      qed
      ultimately show "\<forall>x\<in>set (it # its). tx_dirty x \<longrightarrow> (\<exists>w t. tx_work x = Some w \<and> heap_of db w = Some t \<and>
          snd (tabs db' ! tx_ent x) = w \<and> (\<exists>p. heap_of db' w = Some (t\<lparr>ver_id := v, prev := p\<rparr>)))"
        using w(1,4) by auto
      show "\<forall>j<length (tabs db). (\<forall>x\<in>set (it # its). tx_dirty x \<longrightarrow> tx_ent x \<noteq> j) \<longrightarrow> tabs db' ! j = tabs db ! j"
        using rest True by auto
    qed
    ultimately show ?thesis by blast
  qed
qed

subsection \<open>Successful commits\<close>

definition sees_same_version :: "db \<Rightarrow> db \<Rightarrow> nat \<Rightarrow> ulong \<Rightarrow> bool" where
  "sees_same_version db db' j s \<longleftrightarrow> (\<exists>a. tab_vis db (snd (tabs db ! j)) s = Some (Some a) \<and>
     tab_vis db' (snd (tabs db' ! j)) s = Some (Some a) \<and> same_but_prev (heap_of db' a) (heap_of db a))"

lemma db_inv_mv:
  assumes "db_inv db cs" "mv_inv m" "set (snaps m) \<subseteq> set (snaps (mv db))" "length (snaps m) \<le> length (snaps (mv db))"
    and "cur_ver (mv db) \<le> cur_ver m"
  shows "db_inv (db\<lparr>mv := m\<rparr>) cs"
  using assms by (auto simp: db_inv_def versions_ok_def covered_def intro: order_trans [OF _ assms(5)])

lemma db_inv_mv_gc: "db_inv db cs \<Longrightarrow> db_inv (db\<lparr>mv := mv_gc (mv db) s\<rparr>) cs"
proof -
  assume inv: "db_inv db cs"
  have "set (snaps (mv_gc (mv db) s)) \<subseteq> set (snaps (mv db))" by (simp add: mv_gc_def set_remove1_subset)
  moreover have "length (snaps (mv_gc (mv db) s)) \<le> length (snaps (mv db))" by (simp add: mv_gc_def length_remove1)
  moreover have "cur_ver (mv_gc (mv db) s) = cur_ver (mv db)" by (simp add: mv_gc_def)
  moreover have "mv_inv (mv_gc (mv db) s)" using inv mv_inv_gc by (simp add: db_inv_def)
  ultimately show ?thesis using db_inv_mv [OF inv] by simp
qed

lemma chain_head: "chain h (Some a) as \<Longrightarrow> \<exists>bs. as = a # bs"
  by (cases as) auto

lemma hd_kept: "as \<noteq> [] \<Longrightarrow> hd (kept h k as) = hd as"
  using kept_prefix [of as h k] kept_nonempty [of as h k] by (metis hd_append2)

lemma head_in_chain:
  assumes "db_inv db cs" "j < length (tabs db)"
  shows "snd (tabs db ! j) \<in> set (concat cs)"
proof -
  obtain bs where "cs ! j = snd (tabs db ! j) # bs" using chain_head [OF db_inv_chain [OF assms]] by blast
  then have "snd (tabs db ! j) \<in> set (cs ! j)" by simp
  then show ?thesis using in_concat_nth assms db_inv_length [OF assms(1)] by metis
qed

text \<open>Collection after the release of a snapshot.\<close>

lemma release_ok:
  assumes inv: "db_inv db cs"
  shows "\<exists>db' cs'. gc_tabs (db\<lparr>mv := mv_gc (mv db) s0\<rparr>) = Some db' \<and> db_inv db' cs' \<and>
    mv db' = mv_gc (mv db) s0 \<and> tabs db' = tabs db \<and> max_sql db' = max_sql db \<and>
    next_free db' = next_free db \<and> tabs_gen db' = tabs_gen db \<and> disk_of db' = disk_of db \<and>
    (\<forall>x. x \<notin> set (concat cs) \<longrightarrow> heap_of db' x = heap_of db x) \<and>
    (\<forall>j<length (tabs db). same_but_prev (heap_of db' (snd (tabs db ! j))) (heap_of db (snd (tabs db ! j)))) \<and>
    (\<forall>s\<in>set (snaps (mv db')). \<forall>j<length (tabs db). sees_same_version db db' j s)"
proof -
  let ?db0 = "db\<lparr>mv := mv_gc (mv db) s0\<rparr>" and ?h = "heap_of db"
  have inv0: "db_inv ?db0 cs" by (rule db_inv_mv_gc [OF inv])
  let ?k = "gc_keep_id ?db0"
  let ?cs' = "map (kept ?h ?k) cs"
  obtain h' where g: "gc_tabs ?db0 = Some (?db0\<lparr>heap_of := h'\<rparr>)" "db_inv (?db0\<lparr>heap_of := h'\<rparr>) ?cs'"
    "\<And>x. x \<notin> set (concat cs) \<Longrightarrow> h' x = ?h x"
    "\<And>as x. as \<in> set cs \<Longrightarrow> x \<in> set (kept ?h ?k as) \<Longrightarrow> same_but_prev (h' x) (?h x)"
    "\<And>s as. s \<in> set (snaps (mv_gc (mv db) s0)) \<Longrightarrow> as \<in> set cs \<Longrightarrow>
       List.find (sees h' s) (kept ?h ?k as) = List.find (sees ?h s) as"
    using gc_tabs_ok [OF inv0 inv0] unfolding gc_tabs_def by auto
  let ?db' = "?db0\<lparr>heap_of := h'\<rparr>"
  have len: "length cs = length (tabs db)" by (rule db_inv_length [OF inv])
  have hd: "same_but_prev (h' (snd (tabs db ! j))) (?h (snd (tabs db ! j)))" if j: "j < length (tabs db)" for j
  proof -
    obtain bs where bs: "cs ! j = snd (tabs db ! j) # bs" using chain_head [OF db_inv_chain [OF inv j]] by blast
    then have "hd (kept ?h ?k (cs ! j)) = snd (tabs db ! j)" "kept ?h ?k (cs ! j) \<noteq> []"
      using hd_kept [of "cs ! j"] kept_nonempty [of "cs ! j"] by simp_all
    then have "snd (tabs db ! j) \<in> set (kept ?h ?k (cs ! j))" by (metis list.set_sel(1))
    then show ?thesis using g(4) [of "cs ! j"] j len by simp
  qed
  have vis: "sees_same_version db ?db' j s"
    if s: "s \<in> set (snaps (mv_gc (mv db) s0))" and j: "j < length (tabs db)" for s j
  proof -
    have cj: "cs ! j \<in> set cs" using j len by simp
    have s1: "s \<in> set (snaps (mv ?db0))" using s by simp
    obtain a where a: "List.find (sees ?h s) (cs ! j) = Some a"
      using visible_exists [OF inv0, of j s] j s1 by auto
    have f: "List.find (sees h' s) (?cs' ! j) = Some a" using g(5) [OF s cj] a j len by simp
    then have "a \<in> set (kept ?h ?k (cs ! j))" using j len by (auto simp: find_Some_iff)
    moreover have "tab_vis db (snd (tabs db ! j)) s = Some (Some a)" using tab_vis_db [OF inv j] a by simp
    moreover have "tab_vis ?db' (snd (tabs db ! j)) s = Some (Some a)" using tab_vis_db [OF g(2), of j s] f j by simp
    ultimately show ?thesis using g(4) [OF cj] by (auto simp: sees_same_version_def)
  qed
  show ?thesis
    by (rule exI [of _ ?db'], rule exI [of _ ?cs']) (use g(1,2,3) hd vis in simp)
qed

lemma commit_ok:
  assumes inv: "db_inv db cs" and tx: "tx_ok db cs tx" and nm: "\<not> moved db (tx_tabs tx)"
    and io: "\<And>j. io j = Io_ok" and nw: "cur_ver (mv db) \<noteq> - 1"
  shows "\<exists>tx' db' cs'. db_commit db tx io = Some (True, tx', db') \<and> db_inv db' cs' \<and>
    cur_ver (mv db') = cur_ver (mv db) + 1 \<and> snaps (mv db') = snaps (mv_gc (mv db) (tx_snap tx)) \<and>
    map fst (tabs db') = map fst (tabs db) \<and> max_sql db' = max_sql db \<and> tabs_gen db' = tabs_gen db \<and>
    (\<forall>s\<in>set (snaps (mv db')). \<forall>j<length (tabs db). sees_same_version db db' j s) \<and>
    (\<forall>it\<in>set (tx_tabs tx). tx_dirty it \<longrightarrow> (\<exists>w t t'. tx_work it = Some w \<and> heap_of db w = Some t \<and>
       snd (tabs db' ! tx_ent it) = w \<and> heap_of db' w = Some t' \<and>
       t' = t\<lparr>ver_id := cur_ver (mv db) + 1, prev := prev t'\<rparr>)) \<and>
    (\<forall>j<length (tabs db). (\<forall>it\<in>set (tx_tabs tx). tx_dirty it \<longrightarrow> tx_ent it \<noteq> j) \<longrightarrow> tabs db' ! j = tabs db ! j \<and>
       same_but_prev (heap_of db' (snd (tabs db ! j))) (heap_of db (snd (tabs db ! j))))"
proof -
  define m where "m = snd (mv_bump (mv db))"
  define v where "v = cur_ver (mv db) + 1"
  have bump: "mv_bump (mv db) = (v, m)" and m: "cur_ver m = v" "snaps m = snaps (mv db)"
    by (auto simp: m_def v_def mv_bump_def)
  have mi: "mv_inv (mv db)" using inv by (simp add: db_inv_def)
  have vlt: "s < v" if "s \<in> set (snaps (mv db))" for s
    using mi that less_Suc_word [OF nw] by (auto simp: mv_inv_def v_def intro: order_le_less_trans)
  have cur: "cur_ver (mv db) \<le> cur_ver m" using less_Suc_word [OF nw] m(1) by (simp add: v_def order_less_imp_le)
  have inv0: "db_inv (db\<lparr>mv := m\<rparr>) cs"
    using db_inv_mv [OF inv _ _ _ cur] mv_inv_bump [OF mi nw] m by (simp add: m_def [symmetric])
  have it0: "items_ok (db\<lparr>mv := m\<rparr>) cs (tx_tabs tx)" using tx by (simp add: tx_ok_def items_ok_def)
  obtain its' db1 cs1 where p: "commit_publish (db\<lparr>mv := m\<rparr>) v io 0 (tx_tabs tx) = Some (True, its', db1)"
    and pub: "published (db\<lparr>mv := m\<rparr>) cs v (tx_tabs tx) db1 cs1"
    using commit_publish_ok [of io "db\<lparr>mv := m\<rparr>" cs "tx_tabs tx" v 0] io inv0 it0 m vlt by auto
  have inv1: "db_inv db1 cs1" and mv1: "mv db1 = m" and len: "length (tabs db1) = length (tabs db)"
    and cfg: "map fst (tabs db1) = map fst (tabs db)" "max_sql db1 = max_sql db" "tabs_gen db1 = tabs_gen db"
    using pub by (auto simp: published_def)
  obtain db2 cs2 where g: "gc_tabs (db1\<lparr>mv := mv_gc (mv db1) (tx_snap tx)\<rparr>) = Some db2" "db_inv db2 cs2"
    "mv db2 = mv_gc (mv db1) (tx_snap tx)" "tabs db2 = tabs db1" "max_sql db2 = max_sql db1"
    and gen: "tabs_gen db2 = tabs_gen db1" and g6: "\<And>j. j < length (tabs db1) \<Longrightarrow> same_but_prev (heap_of db2 (snd (tabs db1 ! j))) (heap_of db1 (snd (tabs db1 ! j)))"
    and g7: "\<And>s j. s \<in> set (snaps (mv db2)) \<Longrightarrow> j < length (tabs db1) \<Longrightarrow> sees_same_version db1 db2 j s"
    using release_ok [OF inv1] by blast
  have com: "db_commit db tx io = Some (True, tx\<lparr>tx_tabs := [], tx_done := True\<rparr>, db2)"
    using tx commit_check_moved [of db cs "tx_tabs tx"] nm bump p g(1)
    by (simp add: db_commit_def tx_ok_def)
  have snaps2: "snaps (mv db2) = snaps (mv_gc (mv db) (tx_snap tx))" using g(3) mv1 m(2) by (simp add: mv_gc_def)
  have vis: "sees_same_version db db2 j s" if s: "s \<in> set (snaps (mv db2))" and j: "j < length (tabs db)" for s j
  proof -
    have sin: "s \<in> set (snaps (mv db))" using s snaps2 set_remove1_subset [of "tx_snap tx" "snaps (mv db)"]
      by (auto simp: mv_gc_def split: if_splits)
    obtain a where a: "List.find (sees (heap_of db) s) (cs ! j) = Some a" "a \<in> set (cs ! j)"
      using visible_exists [OF inv j sin] by blast
    have "a \<in> set (concat cs)" using in_concat_nth a(2) j db_inv_length [OF inv] by metis
    then have "a \<notin> set (works (tx_tabs tx))" using tx by (auto simp: tx_ok_def items_ok_def)
    then have ha: "heap_of db1 a = heap_of db a" using pub by (simp add: published_def)
    have f1: "List.find (sees (heap_of db1) s) (cs1 ! j) = Some a"
      using pub j a(1) vlt [OF sin] by (simp add: published_def)
    have "tab_vis db1 (snd (tabs db1 ! j)) s = Some (Some a)" using tab_vis_db [OF inv1, of j s] f1 j len by simp
    moreover have "tab_vis db (snd (tabs db ! j)) s = Some (Some a)" using tab_vis_db [OF inv j] a(1) by simp
    ultimately show ?thesis using g7 [OF s, of j] j len ha by (auto simp: sees_same_version_def)
  qed
  have wr: "\<exists>w t t'. tx_work it = Some w \<and> heap_of db w = Some t \<and> snd (tabs db2 ! tx_ent it) = w \<and>
      heap_of db2 w = Some t' \<and> t' = t\<lparr>ver_id := v, prev := prev t'\<rparr>"
    if it: "it \<in> set (tx_tabs tx)" "tx_dirty it" for it
  proof -
    obtain w t q where w: "tx_work it = Some w" "heap_of db w = Some t" "snd (tabs db1 ! tx_ent it) = w"
      "heap_of db1 w = Some (t\<lparr>ver_id := v, prev := q\<rparr>)" using pub it by (auto simp: published_def)
    have "tx_ent it < length (tabs db1)" using tx it(1) len by (auto simp: tx_ok_def items_ok_def)
    then have "same_but_prev (heap_of db2 w) (Some (t\<lparr>ver_id := v, prev := q\<rparr>))" using g6 w(3,4) by metis
    then obtain t' where t': "heap_of db2 w = Some t'" "t'\<lparr>prev := None\<rparr> = t\<lparr>ver_id := v, prev := None\<rparr>"
      by (auto simp: same_but_prev_def)
    have "t' = (t'\<lparr>prev := None\<rparr>)\<lparr>prev := prev t'\<rparr>" by simp
    also have "\<dots> = t\<lparr>ver_id := v, prev := prev t'\<rparr>" unfolding t'(2) by simp
    finally show ?thesis using w t'(1) g(4) by auto
  qed
  have rest: "tabs db2 ! j = tabs db ! j \<and>
      same_but_prev (heap_of db2 (snd (tabs db ! j))) (heap_of db (snd (tabs db ! j)))"
    if j: "j < length (tabs db)" "\<forall>it\<in>set (tx_tabs tx). tx_dirty it \<longrightarrow> tx_ent it \<noteq> j" for j
  proof -
    have same: "tabs db1 ! j = tabs db ! j" using pub j by (simp add: published_def)
    have "snd (tabs db ! j) \<notin> set (works (tx_tabs tx))"
      using head_in_chain [OF inv j(1)] tx by (auto simp: tx_ok_def items_ok_def)
    then have "heap_of db1 (snd (tabs db ! j)) = heap_of db (snd (tabs db ! j))" using pub by (simp add: published_def)
    then show ?thesis using g(4) g6 [of j] j(1) len same by simp
  qed
  have cv: "cur_ver (mv db2) = cur_ver (mv db) + 1" using g(3) mv1 m(1) by (simp add: mv_gc_def v_def)
  show ?thesis
    by (rule exI [of _ "tx\<lparr>tx_tabs := [], tx_done := True\<rparr>"], rule exI [of _ db2], rule exI [of _ cs2])
      (use com g(2,4,5) gen cfg cv snaps2 vis wr rest len in \<open>simp add: v_def\<close>)
qed

subsection \<open>Abort\<close>

lemma free_works_ok:
  "distinct (works its) \<Longrightarrow> \<forall>w\<in>set (works its). h w \<noteq> None \<Longrightarrow>
   free_works h its = Some (\<lambda>x. if x \<in> set (works its) then None else h x)"
proof (induction its arbitrary: h)
  case (Cons it its)
  show ?case
  proof (cases "tx_work it")
    case None
    then show ?thesis using Cons by (simp add: free_tab_def)
  next
    case (Some w)
    then have w: "w \<notin> set (works its)" "h w \<noteq> None" "distinct (works its)" "\<forall>x\<in>set (works its). (h(w := None)) x \<noteq> None"
      using Cons.prems by auto
    have "free_works (h(w := None)) its = Some (\<lambda>x. if x \<in> set (works its) then None else (h(w := None)) x)"
      by (rule Cons.IH [OF w(3,4)])
    moreover have "(\<lambda>x. if x \<in> set (works its) then None else (h(w := None)) x) =
        (\<lambda>x. if x \<in> set (works (it # its)) then None else h x)" using Some by (intro ext) auto
    ultimately show ?thesis using Some w(2) unfolding free_works.simps free_tab_def by simp
  qed
qed simp

lemma db_inv_heap:
  assumes "db_inv db cs" "\<And>x. x \<in> set (concat cs) \<Longrightarrow> h' x = heap_of db x" "\<And>x. x \<ge> next_free db \<Longrightarrow> h' x = None"
  shows "db_inv (db\<lparr>heap_of := h'\<rparr>) cs"
proof -
  let ?h = "heap_of db"
  have len: "length cs = length (tabs db)" by (rule db_inv_length [OF assms(1)])
  have "chain h' (Some (snd (tabs db ! i))) (cs ! i)" if i: "i < length (tabs db)" for i
    by (rule chain_cong [OF db_inv_chain [OF assms(1) i]]) (use assms(2) in_concat_nth len i in metis)
  then have "chains_ok h' (tabs db) cs" using assms(1) len by (auto simp: chains_ok_def db_inv_def list_all2_conv_all_nth)
  moreover have "versions_ok h' (cur_ver (mv db)) cs" using assms(1,2) by (auto simp: versions_ok_def db_inv_def)
  moreover have "covered h' (set (snaps (mv db))) cs"
  proof -
    have "sees h' s a = sees ?h s a" if "a \<in> set as" "as \<in> set cs" for s a as
    proof -
      have "a \<in> set (concat cs)" using that by auto
      then show ?thesis using assms(2) by (simp add: sees_def)
    qed
    then show ?thesis using assms(1) unfolding covered_def db_inv_def by blast
  qed
  ultimately show ?thesis using assms(1,3) by (auto simp: db_inv_def)
qed

lemma tab_vis_heap:
  assumes "db_inv db cs" "\<And>x. x \<in> set (concat cs) \<Longrightarrow> h' x = heap_of db x" "db_inv (db\<lparr>heap_of := h'\<rparr>) cs"
    "i < length (tabs db)"
  shows "tab_vis (db\<lparr>heap_of := h'\<rparr>) (snd (tabs db ! i)) s = tab_vis db (snd (tabs db ! i)) s"
proof -
  have "List.find (sees h' s) (cs ! i) = List.find (sees (heap_of db) s) (cs ! i)"
    by (rule find_cong_set) (use assms(2,4) in_concat_nth db_inv_length [OF assms(1)] in \<open>metis sees_def\<close>)
  then show ?thesis using tab_vis_db [OF assms(1,4)] tab_vis_db [OF assms(3), of i s] assms(4) by simp
qed

lemma abort_ok:
  assumes inv: "db_inv db cs" and tx: "tx_ok db cs tx"
  shows "\<exists>tx' db' cs'. db_abort db tx = Some (True, tx', db') \<and> db_inv db' cs' \<and>
    tabs db' = tabs db \<and> disk_of db' = disk_of db \<and> mv db' = mv_gc (mv db) (tx_snap tx) \<and>
    (\<forall>w\<in>set (works (tx_tabs tx)). heap_of db' w = None) \<and> max_sql db' = max_sql db \<and>
    (\<forall>j<length (tabs db). same_but_prev (heap_of db' (snd (tabs db ! j))) (heap_of db (snd (tabs db ! j)))) \<and>
    (\<forall>s\<in>set (snaps (mv db')). \<forall>j<length (tabs db). sees_same_version db db' j s)"
proof -
  let ?W = "set (works (tx_tabs tx))"
  define h where "h = (\<lambda>x. if x \<in> ?W then None else heap_of db x)"
  have io: "items_ok db cs (tx_tabs tx)" using tx by (simp add: tx_ok_def)
  then have fw: "free_works (heap_of db) (tx_tabs tx) = Some h"
    unfolding h_def by (intro free_works_ok) (auto simp: items_ok_def)
  have out: "x \<notin> ?W" if "x \<in> set (concat cs)" for x using io that by (auto simp: items_ok_def)
  then have same: "h x = heap_of db x" if "x \<in> set (concat cs)" for x using that by (simp add: h_def)
  let ?db1 = "db\<lparr>heap_of := h\<rparr>"
  have inv1: "db_inv ?db1 cs"
    by (rule db_inv_heap [OF inv same]) (use inv in \<open>auto simp: db_inv_def h_def\<close>)
  obtain db2 cs2 where g: "gc_tabs (?db1\<lparr>mv := mv_gc (mv ?db1) (tx_snap tx)\<rparr>) = Some db2" "db_inv db2 cs2"
    "mv db2 = mv_gc (mv db) (tx_snap tx)" "tabs db2 = tabs db" "disk_of db2 = disk_of db" "max_sql db2 = max_sql db"
    "\<forall>j<length (tabs db). same_but_prev (heap_of db2 (snd (tabs db ! j))) (h (snd (tabs db ! j)))"
    "\<And>x. x \<notin> set (concat cs) \<Longrightarrow> heap_of db2 x = h x"
    "\<And>s j. s \<in> set (snaps (mv db2)) \<Longrightarrow> j < length (tabs db) \<Longrightarrow> sees_same_version ?db1 db2 j s"
    using release_ok [OF inv1, of "tx_snap tx"] by auto
  have ab: "db_abort db tx = Some (True, tx\<lparr>tx_tabs := [], tx_done := True\<rparr>, db2)"
    using tx fw g(1) by (simp add: db_abort_def tx_ok_def)
  have vis: "sees_same_version db db2 j s" if s: "s \<in> set (snaps (mv db2))" and j: "j < length (tabs db)" for s j
  proof -
    obtain a where a: "tab_vis ?db1 (snd (tabs db ! j)) s = Some (Some a)"
      "tab_vis db2 (snd (tabs db2 ! j)) s = Some (Some a)" "same_but_prev (heap_of db2 a) (h a)"
      using g(9) [OF s j] by (auto simp: sees_same_version_def)
    have v: "tab_vis db (snd (tabs db ! j)) s = Some (Some a)" using tab_vis_heap [OF inv same inv1 j] a(1) by simp
    then have "List.find (sees (heap_of db) s) (cs ! j) = Some a" using tab_vis_db [OF inv j] by simp
    then have "a \<in> set (cs ! j)" by (auto simp: find_Some_iff)
    then have "h a = heap_of db a" using same in_concat_nth j db_inv_length [OF inv] by metis
    then show ?thesis using a v by (auto simp: sees_same_version_def)
  qed
  have freed: "heap_of db2 w = None" if "w \<in> ?W" for w
    using g(8) [of w] out that by (auto simp: h_def)
  have heads: "\<forall>j<length (tabs db). same_but_prev (heap_of db2 (snd (tabs db ! j))) (heap_of db (snd (tabs db ! j)))"
    using g(7) same head_in_chain [OF inv] by simp
  show ?thesis
    by (rule exI [of _ "tx\<lparr>tx_tabs := [], tx_done := True\<rparr>"], rule exI [of _ db2], rule exI [of _ cs2])
      (use ab g(2-6) vis freed heads in simp)
qed

end
