(* ===== verification/Db_Tx.thy ===== *)
theory Db_Tx
  imports Db_Commit
begin

text \<open>
  The life of a transaction: beginning it, looking at tables, making working copies, and reads
  at a snapshot. Loading a table and making a working copy keep the invariant; a read at a live
  snapshot returns the same answer before and after any commit or abort.
\<close>

subsection \<open>Beginning\<close>

lemma db_inv_snap:
  assumes "db_inv db cs" "length (snaps (mv db)) + 1 < 2 ^ 64"
  shows "db_inv (db\<lparr>mv := snd (mv_snap (mv db))\<rparr>) cs"
proof -
  have "\<exists>a\<in>set as. sees (heap_of db) (cur_ver (mv db)) a" if as: "as \<in> set cs" for as
  proof -
    obtain i where i: "i < length cs" "as = cs ! i" using as unfolding in_set_conv_nth by blast
    then obtain bs where "as = snd (tabs db ! i) # bs"
      using chain_head [OF db_inv_chain [OF assms(1)]] db_inv_length [OF assms(1)] by metis
    then have "snd (tabs db ! i) \<in> set as" by simp
    moreover from this have "sees (heap_of db) (cur_ver (mv db)) (snd (tabs db ! i))"
      using assms(1) as unfolding db_inv_def versions_ok_def sees_def by auto
    ultimately show ?thesis by blast
  qed
  then show ?thesis
    using assms mv_inv_snap [of "mv db"] by (auto simp: db_inv_def covered_def mv_snap_def Let_def)
qed

lemma begin_ok:
  assumes "db_inv db cs" "length (snaps (mv db)) + 1 < 2 ^ 64" "db_begin db = (tx, db')"
  shows "db_inv db' cs \<and> tx_ok db' cs tx \<and> tx_snap tx = cur_ver (mv db)"
proof -
  have "db' = db\<lparr>mv := snd (mv_snap (mv db))\<rparr>" "tx = \<lparr>tx_snap = cur_ver (mv db), tx_tabs = [], tx_done = False\<rparr>"
    using assms(3) by (auto simp: db_begin_def mv_snap_def Let_def)
  then show ?thesis
    using db_inv_snap [OF assms(1,2)] by (simp add: tx_ok_def items_ok_def mv_snap_def Let_def)
qed

subsection \<open>Reads\<close>

lemma sel_do_prev: "sel_do (t\<lparr>prev := p\<rparr>) st res = sel_do t st res"
proof -
  let ?u = "t\<lparr>prev := p\<rparr>"
  have sel: "pk_idx ?u = pk_idx t" "rows ?u = rows t" "cols ?u = cols t" "pk_tree ?u = pk_tree t"
    "uk_tree ?u = uk_tree t" by simp_all
  have col: "col_idx ?u = col_idx t" "uk_slot ?u = uk_slot t" by (auto simp: col_idx_def uk_slot_def fun_eq_iff)
  have cm: "cond_match ?u row c = cond_match t row c" for row c unfolding cond_match_def col sel ..
  have rm: "row_match ?u st row = row_match t st row" for row unfolding row_match_def cm ..
  have ra: "res_add r ?u row l = res_add r t row l" for r row l unfolding res_add_def project_def sel ..
  have sv: "sel_vis ?u st l k i r = sel_vis t st l k i r" for l i r and k :: 'k unfolding sel_vis_def rm ra sel ..
  have sc: "index_score ?u c i = index_score t c i" for c i unfolding index_score_def col sel ..
  have pl: "pick_loop ?u cs i s b = pick_loop t cs i s b" for cs i s b
    by (induction cs arbitrary: i s b) (auto simp: col sc Let_def split: option.splits)
  have cols: "sel_columns ?u cs = sel_columns t cs" for cs by (induction cs) (auto simp: col split: option.splits)
  have ss: "sel_scan ?u st l rs r = sel_scan t st l rs r" for l rs r
    by (induction rs arbitrary: r) (auto simp: rm ra)
  have sr: "sel_search ?u st l r x = sel_search t st l r x" for l r x unfolding sel_search_def sv ..
  have sv': "sel_vis ?u st l = (sel_vis t st l :: 'k \<Rightarrow> _)" for l by (intro ext) (rule sv)
  show ?thesis unfolding sel_do_def pick_idx_def cols pl ss sr sv' col sel ..
qed

lemma sel_do_same:
  assumes "same_but_prev (Some t') (Some t)" shows "sel_do t' st res = sel_do t st res"
proof -
  have "t'\<lparr>prev := None\<rparr> = t\<lparr>prev := None\<rparr>" using assms by (simp add: same_but_prev_def)
  then show ?thesis by (metis sel_do_prev)
qed

lemma index_from_map: "index_from i (\<lambda>e. P (f e)) xs = index_from i P (map f xs)"
  by (induction xs arbitrary: i) auto

lemma get_ent_names: "map fst (tabs db') = map fst (tabs db) \<Longrightarrow> get_ent db' name = get_ent db name"
  by (simp add: get_ent_def index_from_map [of 0 "\<lambda>n. strcmp n name = 0" fst])

lemma get_ent_Some: "get_ent db name = Some j \<Longrightarrow> j < length (tabs db) \<and> fst (tabs db ! j) = name"
  using index_from_Some [of 0 _ "tabs db" j] by (auto simp: get_ent_def strcmp_eq)

text \<open>The result of a read depends only on the version that the snapshot sees.\<close>

lemma do_read_loaded:
  assumes "parse_ok db s res_clr = Inr st" "stmt_type st = STMT_SELECT" "get_ent db (table_name st) = Some j"
    and "tab_vis db (snd (tabs db ! j)) snap = Some (Some a)" "heap_of db a = Some t"
  shows "do_read db snap s = map_option (\<lambda>(ok, res). (ok, res, db)) (sel_do t st (res_clr\<lparr>snap_id := snap\<rparr>))"
  using assms
  by (cases "sel_do t st (res_clr\<lparr>snap_id := snap\<rparr>)") (auto simp: do_read_def need_ent_def exec_stmt_def)

text \<open>What a read answers, without the database it leaves.\<close>

definition answer :: "(bool \<times> dbres \<times> db) option \<Rightarrow> (bool \<times> dbres) option" where
  "answer r = map_option (\<lambda>(ok, res, _). (ok, res)) r"

lemma do_read_same:
  assumes same: "sees_same_version db db' j snap" and cfg: "max_sql db' = max_sql db" "map fst (tabs db') = map fst (tabs db)"
    and st: "parse_ok db s res_clr = Inr st" "stmt_type st = STMT_SELECT" "get_ent db (table_name st) = Some j"
    and h: "\<And>a. tab_vis db (snd (tabs db ! j)) snap = Some (Some a) \<Longrightarrow> heap_of db a \<noteq> None"
  shows "answer (do_read db' snap s) = answer (do_read db snap s)"
proof -
  obtain a where a: "tab_vis db (snd (tabs db ! j)) snap = Some (Some a)"
    "tab_vis db' (snd (tabs db' ! j)) snap = Some (Some a)" "same_but_prev (heap_of db' a) (heap_of db a)"
    using same by (auto simp: sees_same_version_def)
  obtain t where t: "heap_of db a = Some t" using h [OF a(1)] by blast
  then obtain t' where t': "heap_of db' a = Some t'" using a(3) by (auto simp: same_but_prev_def)
  have st': "parse_ok db' s res_clr = Inr st" "get_ent db' (table_name st) = Some j"
    using st(1,3) cfg(1) get_ent_names [OF cfg(2)] by (simp_all add: parse_ok_def)
  have "same_but_prev (Some t') (Some t)" using a(3) t t' by simp
  then have "sel_do t' st r = sel_do t st r" for r by (rule sel_do_same)
  then show ?thesis
    using do_read_loaded [OF st a(1) t] do_read_loaded [OF st'(1) st(2) st'(2) a(2) t']
    by (simp add: answer_def option.map_comp o_def case_prod_beta)
qed

subsection \<open>Loading tables\<close>

text \<open>The database after a table may have been added at its end.\<close>

definition extends :: "db \<Rightarrow> addr list list \<Rightarrow> db \<Rightarrow> addr list list \<Rightarrow> bool" where
  "extends db cs db' cs' \<longleftrightarrow> db_inv db' cs' \<and> (\<exists>ext. cs' = cs @ ext \<and> (\<forall>a\<in>set (concat ext). next_free db \<le> a)) \<and>
     (\<exists>ext. tabs db' = tabs db @ ext) \<and> (\<forall>x<next_free db. heap_of db' x = heap_of db x) \<and>
     next_free db \<le> next_free db' \<and> mv db' = mv db \<and> disk_of db' = disk_of db \<and> root_dir db' = root_dir db \<and>
     max_sql db' = max_sql db"

lemma extends_refl: "db_inv db cs \<Longrightarrow> extends db cs db cs"
  by (simp add: extends_def)

lemma add_table:
  assumes inv: "db_inv db cs" and t: "tab_inv tab" "ver_id tab = 1" "prev tab = None"
  defines "a \<equiv> next_free db"
  defines "db1 \<equiv> db\<lparr>heap_of := (heap_of db)(a \<mapsto> tab), next_free := a + 1\<rparr>"
  shows "extends db cs (snd (add_ent db1 name a)) (cs @ [[a]])"
proof -
  let ?db2 = "snd (add_ent db1 name a)"
  let ?h = "(heap_of db)(a \<mapsto> tab)"
  have fresh: "x \<noteq> a" if "x \<in> set (concat cs)" for x
    using inv that by (auto simp: db_inv_def a_def)
  have len: "length cs = length (tabs db)" by (rule db_inv_length [OF inv])
  have ch: "chain ?h (Some (snd (tabs db ! i))) (cs ! i)" if i: "i < length (tabs db)" for i
    by (rule chain_cong [OF db_inv_chain [OF inv i]]) (use fresh in_concat_nth i len in \<open>metis fun_upd_other\<close>)
  have "chain ?h (Some a) [a]" using t(3) by simp
  then have "chains_ok ?h (tabs db @ [(name, a)]) (cs @ [[a]])"
    using inv ch len fresh by (auto simp: chains_ok_def db_inv_def list_all2_conv_all_nth nth_append less_Suc_eq)
  moreover have "versions_ok ?h (cur_ver (mv db)) (cs @ [[a]])"
    using inv t fresh by (auto simp: versions_ok_def db_inv_def mv_inv_def)
  moreover have "covered ?h (set (snaps (mv db))) (cs @ [[a]])"
  proof -
    have "\<exists>x\<in>set as. sees ?h s x" if as: "as \<in> set cs" and s: "s \<in> set (snaps (mv db))" for as s
    proof -
      obtain x where x: "x \<in> set as" "sees (heap_of db) s x" using inv as s unfolding db_inv_def covered_def by blast
      then have "x \<noteq> a" using fresh as by auto
      then show ?thesis using x by (auto simp: sees_def)
    qed
    moreover have "sees ?h s a" if "s \<in> set (snaps (mv db))" for s
      using inv that t(2) by (auto simp: sees_def db_inv_def mv_inv_def)
    ultimately show ?thesis by (auto simp: covered_def)
  qed
  moreover have "\<forall>x\<ge>a + 1. ?h x = None" using inv by (auto simp: db_inv_def a_def)
  moreover have "\<forall>x\<in>set (concat (cs @ [[a]])). x < a + 1" using inv by (auto simp: db_inv_def a_def less_Suc_eq)
  ultimately have "db_inv ?db2 (cs @ [[a]])"
    using inv unfolding db_inv_def by (simp add: add_ent_def db1_def Let_def)
  then show ?thesis by (auto simp: extends_def add_ent_def db1_def a_def Let_def)
qed

lemma need_ent_ok:
  assumes inv: "db_inv db cs" and r: "need_ent db name = Some (r, db')"
  shows "\<exists>cs'. extends db cs db' cs' \<and> (\<forall>e. r = Some e \<longrightarrow> e < length (tabs db') \<and> fst (tabs db' ! e) = name)"
proof (cases "get_ent db name")
  case (Some i)
  then show ?thesis using r extends_refl [OF inv] get_ent_Some [OF Some] by (auto simp: need_ent_def)
next
  case None
  then obtain x where x: "tab_load (root_dir db) (disk_of db) name = Some x"
    using r by (cases "tab_load (root_dir db) (disk_of db) name") (auto simp: need_ent_def)
  show ?thesis
  proof (cases x)
    case None': None
    then show ?thesis using r None x extends_refl [OF inv] by (auto simp: need_ent_def)
  next
    case (Some tab)
    have t: "tab_inv tab" "ver_id tab = 1" "prev tab = None" using tab_load_ok x Some by auto
    have e: "db' = snd (add_ent (db\<lparr>heap_of := (heap_of db)(next_free db \<mapsto> tab), next_free := next_free db + 1\<rparr>) name (next_free db))"
      "r = Some (length (tabs db))"
      using r None x Some by (auto simp: need_ent_def alloc_def add_ent_def Let_def)
    have "fst (tabs db' ! length (tabs db)) = name" "length (tabs db) < length (tabs db')"
      using e(1) by (auto simp: add_ent_def Let_def)
    then show ?thesis using add_table [OF inv t, of name] e by auto
  qed
qed

text \<open>An extension keeps transactions, as long as the array of tables is not moved.\<close>

lemma find_heap_cong:
  "(\<And>x. x \<in> set as \<Longrightarrow> h' x = h x) \<Longrightarrow> List.find (sees h' s) as = List.find (sees h s) as"
  by (rule find_cong_set) (simp add: sees_def)

lemma extends_tx_ok:
  assumes inv: "db_inv db cs" and ext: "extends db cs db' cs'" and gen: "tabs_gen db' = tabs_gen db \<or> tx_tabs tx = []"
    and tx: "tx_ok db cs tx"
  shows "tx_ok db' cs' tx"
proof -
  obtain e1 e2 where e: "cs' = cs @ e1" "\<forall>a\<in>set (concat e1). next_free db \<le> a" "tabs db' = tabs db @ e2"
    "\<forall>x<next_free db. heap_of db' x = heap_of db x" "next_free db \<le> next_free db'" "mv db' = mv db"
    using ext by (auto simp: extends_def)
  have io: "items_ok db' cs' (tx_tabs tx)"
  proof (cases "tx_tabs tx = []")
    case False
    then show ?thesis using tx e gen by (fastforce simp: tx_ok_def items_ok_def)
  qed (simp add: items_ok_def)
  have "List.find (sees (heap_of db') s) (cs' ! tx_ent it) = List.find (sees (heap_of db) s) (cs ! tx_ent it)"
    if it: "it \<in> set (tx_tabs tx)" for it s
  proof -
    have lt: "tx_ent it < length cs" using tx it db_inv_length [OF inv] by (auto simp: tx_ok_def items_ok_def)
    have "x < next_free db" if "x \<in> set (cs ! tx_ent it)" for x
      using inv in_concat_nth [OF lt that] by (auto simp: db_inv_def)
    then show ?thesis using e(4) lt e(1) by (auto simp: nth_append intro: find_heap_cong)
  qed
  then show ?thesis using tx io e(6) by (auto simp: tx_ok_def)
qed

subsection \<open>Looking at a table\<close>

lemma tx_tab_None:
  assumes "items_ok db cs its" "tx_tab_loop db name i its = Some None" "it \<in> set its"
  shows "fst (tabs db ! tx_ent it) \<noteq> name"
  using assms
proof (induction its arbitrary: i)
  case (Cons x its)
  have "items_ok db cs its" using Cons.prems(1) by (auto simp: items_ok_def)
  with Cons show ?case by (auto simp: items_ok_def deref_ent_def strcmp_eq split: if_splits)
qed simp

lemma tx_view_ok:
  assumes inv: "db_inv db cs" and tx: "tx_ok db cs tx" and r: "tx_view db tx name = Some (r, tx', db')"
    and gen: "tabs_gen db' = tabs_gen db \<or> tx_tabs tx = []"
  shows "\<exists>cs'. extends db cs db' cs' \<and> tx_ok db' cs' tx' \<and> (\<forall>i. r = Some i \<longrightarrow> i < length (tx_tabs tx')) \<and>
    tx_snap tx' = tx_snap tx"
proof -
  obtain it where it: "tx_tab db tx name = Some it" using r by (cases "tx_tab db tx name") (auto simp: tx_view_def)
  show ?thesis
  proof (cases it)
    case (Some i)
    have idx: "j \<le> i \<and> i < j + length its" if "tx_tab_loop db name j its = Some (Some i)" for j its
      using that by (induction its arbitrary: j) (fastforce split: option.splits if_splits)+
    have "i < length (tx_tabs tx)" using idx [of 0] it Some by (simp add: tx_tab_def)
    then show ?thesis using r it Some extends_refl [OF inv] tx by (auto simp: tx_view_def)
  next
    case None
    obtain ent db1 where ne: "need_ent db name = Some (ent, db1)"
      using r it None by (cases "need_ent db name") (auto simp: tx_view_def)
    obtain cs1 where cs1: "extends db cs db1 cs1"
      "\<And>e. ent = Some e \<Longrightarrow> e < length (tabs db1) \<and> fst (tabs db1 ! e) = name"
      using need_ent_ok [OF inv ne] by blast
    have db1: "db' = db1" using r it None ne
      by (auto simp: tx_view_def split: option.splits) (auto simp: bind_eq_Some_conv split: option.splits)
    have tx1: "tx_ok db1 cs1 tx" using extends_tx_ok [OF inv cs1(1) _ tx] gen db1 by simp
    have inv1: "db_inv db1 cs1" using cs1(1) by (simp add: extends_def)
    show ?thesis
    proof (cases ent)
      case ent: None
      then show ?thesis using r it None ne cs1(1) tx1 db1 by (auto simp: tx_view_def)
    next
      case (Some e)
      note e = cs1(2) [OF Some]
      have vis: "tab_vis db1 (snd (tabs db1 ! e)) (tx_snap tx) = Some (List.find (sees (heap_of db1) (tx_snap tx)) (cs1 ! e))"
        using tab_vis_db [OF inv1] e by blast
      obtain b where b: "List.find (sees (heap_of db1) (tx_snap tx)) (cs1 ! e) = Some b"
        using visible_exists [OF inv1, of e "tx_snap tx"] e tx1 by (auto simp: tx_ok_def)
      let ?it = "\<lparr>tx_ent = e, tx_gen = tabs_gen db1, tx_base = b, tx_work = None, tx_dirty = False\<rparr>"
      have rr: "r = Some (length (tx_tabs tx))" "tx' = tx\<lparr>tx_tabs := tx_tabs tx @ [?it]\<rparr>"
        using r it None ne Some vis b by (auto simp: tx_view_def)
      have "tx_ent x \<noteq> e" if x: "x \<in> set (tx_tabs tx)" for x
      proof -
        have "fst (tabs db ! tx_ent x) \<noteq> name"
          using tx_tab_None [of db cs "tx_tabs tx" name 0 x] tx it None x by (auto simp: tx_ok_def tx_tab_def)
        moreover have "tx_ent x < length (tabs db)" using tx x by (auto simp: tx_ok_def items_ok_def)
        moreover obtain ext where "tabs db1 = tabs db @ ext" using cs1(1) by (auto simp: extends_def)
        ultimately show ?thesis using e by (auto simp: nth_append)
      qed
      moreover have "works (tx_tabs tx @ [?it]) = works (tx_tabs tx)" by (simp add: works_def)
      ultimately have "tx_ok db1 cs1 tx'"
        using tx1 e b rr(2) by (auto simp: tx_ok_def items_ok_def)
      then show ?thesis using rr cs1(1) db1 by auto
    qed
  qed
qed

subsection \<open>Working copies\<close>

lemma works_update_None:
  "i < length its \<Longrightarrow> tx_work (its ! i) = None \<Longrightarrow> w \<notin> set (works its) \<Longrightarrow> distinct (works its) \<Longrightarrow>
   distinct (works (its[i := (its ! i)\<lparr>tx_work := Some w, tx_dirty := True\<rparr>])) \<and>
   set (works (its[i := (its ! i)\<lparr>tx_work := Some w, tx_dirty := True\<rparr>])) = insert w (set (works its))"
proof (induction its arbitrary: i)
  case (Cons x its)
  show ?case
  proof (cases i)
    case 0
    then show ?thesis using Cons.prems by auto
  next
    case (Suc j)
    then have "j < length its" "tx_work (its ! j) = None" "w \<notin> set (works its)" "distinct (works its)"
      using Cons.prems by (auto split: option.splits)
    from Cons.IH [OF this] show ?thesis using Suc Cons.prems by (auto split: option.splits)
  qed
qed simp

lemma works_update_dirty:
  "i < length its \<Longrightarrow> works (its[i := (its ! i)\<lparr>tx_dirty := True\<rparr>]) = works its"
proof (induction its arbitrary: i)
  case (Cons x its)
  then show ?case by (cases i) auto
qed simp

lemma db_inv_alloc:
  assumes "db_inv db cs"
  shows "db_inv (db\<lparr>heap_of := (heap_of db)(next_free db \<mapsto> t), next_free := next_free db + 1\<rparr>) cs"
proof -
  have f: "x < next_free db" if "x \<in> set (concat cs)" for x using assms that by (auto simp: db_inv_def)
  have "chain ((heap_of db)(next_free db \<mapsto> t)) (Some (snd (tabs db ! i))) (cs ! i)" if i: "i < length (tabs db)" for i
    by (rule chain_cong [OF db_inv_chain [OF assms i]])
      (use f in_concat_nth i db_inv_length [OF assms] in \<open>metis fun_upd_other less_irrefl\<close>)
  then have "chains_ok ((heap_of db)(next_free db \<mapsto> t)) (tabs db) cs"
    using assms db_inv_length [OF assms] by (auto simp: chains_ok_def db_inv_def list_all2_conv_all_nth)
  moreover have "versions_ok ((heap_of db)(next_free db \<mapsto> t)) (cur_ver (mv db)) cs"
    using assms f unfolding versions_ok_def db_inv_def by (metis fun_upd_other less_irrefl)
  moreover have "covered ((heap_of db)(next_free db \<mapsto> t)) (set (snaps (mv db))) cs"
  proof -
    have "sees ((heap_of db)(next_free db \<mapsto> t)) s a = sees (heap_of db) s a" if "as \<in> set cs" "a \<in> set as" for as a s
    proof -
      have "a \<noteq> next_free db" using f that by auto
      then show ?thesis by (simp add: sees_def)
    qed
    then show ?thesis using assms unfolding covered_def db_inv_def by blast
  qed
  ultimately show ?thesis using assms by (auto simp: db_inv_def less_Suc_eq)
qed

lemma find_upd_fresh:
  "w \<notin> set as \<Longrightarrow> List.find (sees (h(w := t)) s) as = List.find (sees h s) as"
  by (rule find_heap_cong) auto

lemma ball_update: "\<forall>x\<in>set xs. P x \<Longrightarrow> P y \<Longrightarrow> \<forall>x\<in>set (xs[i := y]). P x"
  using set_update_subset_insert [of xs i y] by blast

lemma tx_make_work_ok:
  assumes inv: "db_inv db cs" and tx: "tx_ok db cs tx" and i: "i < length (tx_tabs tx)"
  shows "\<exists>tx' db' w t. tx_make_work db tx i = Some (True, tx', db') \<and> db_inv db' cs \<and> tx_ok db' cs tx' \<and>
    tx_work (tx_tabs tx' ! i) = Some w \<and> heap_of db' w = Some t \<and> tx_dirty (tx_tabs tx' ! i) \<and>
    tabs db' = tabs db \<and> (tx_work (tx_tabs tx ! i) = None \<longrightarrow> rows t = rows (the (heap_of db (tx_base (tx_tabs tx ! i)))))"
proof -
  let ?it = "tx_tabs tx ! i"
  have it: "?it \<in> set (tx_tabs tx)" using i by simp
  have io: "items_ok db cs (tx_tabs tx)" using tx by (simp add: tx_ok_def)
  show ?thesis
  proof (cases "tx_work ?it")
    case (Some w)
    have "w \<in> set (works (tx_tabs tx))" using it Some by (force simp: works_def)
    then obtain t where t: "heap_of db w = Some t" using io by (auto simp: items_ok_def)
    let ?its = "(tx_tabs tx)[i := ?it\<lparr>tx_dirty := True\<rparr>]"
    have "map tx_ent ?its = map tx_ent (tx_tabs tx)"
      using i list_update_id [of "map tx_ent (tx_tabs tx)" i] by (simp add: map_update)
    moreover have "\<forall>x\<in>set ?its. tx_gen x = tabs_gen db \<and> tx_ent x < length (tabs db) \<and> (tx_dirty x \<longrightarrow> tx_work x \<noteq> None)"
      by (rule ball_update) (use io it Some in \<open>auto simp: items_ok_def\<close>)
    moreover have "\<forall>x\<in>set ?its. List.find (sees (heap_of db) (tx_snap tx)) (cs ! tx_ent x) = Some (tx_base x)"
      by (rule ball_update) (use tx it in \<open>auto simp: tx_ok_def\<close>)
    ultimately have "tx_ok db cs (tx\<lparr>tx_tabs := ?its\<rparr>)"
      using tx works_update_dirty [OF i] by (simp add: tx_ok_def items_ok_def)
    moreover have "tx_make_work db tx i = Some (True, tx\<lparr>tx_tabs := ?its\<rparr>, db)"
      using Some by (simp add: tx_make_work_def Let_def)
    ultimately show ?thesis using inv i Some t by auto
  next
    case None
    have lt: "tx_ent ?it < length (tabs db)" using io it by (auto simp: items_ok_def)
    have b: "tx_base ?it \<in> set (cs ! tx_ent ?it)" using tx it by (auto simp: tx_ok_def find_Some_iff)
    then have bc: "tx_base ?it \<in> set (concat cs)" using in_concat_nth lt db_inv_length [OF inv] by metis
    obtain src where src: "heap_of db (tx_base ?it) = Some src"
      using chain_heap [OF db_inv_chain [OF inv lt] b] by blast
    have "tab_inv src" using inv bc src by (force simp: db_inv_def versions_ok_def)
    then obtain dst where dst: "tab_clone src = Some (Some dst)" "tab_inv dst" "rows dst = rows src"
      using tab_clone_ok by blast
    let ?w = "next_free db"
    let ?db' = "db\<lparr>heap_of := (heap_of db)(?w \<mapsto> dst), next_free := ?w + 1\<rparr>"
    let ?its = "(tx_tabs tx)[i := ?it\<lparr>tx_work := Some ?w, tx_dirty := True\<rparr>]"
    have mk: "tx_make_work db tx i = Some (True, tx\<lparr>tx_tabs := ?its\<rparr>, ?db')"
      using None src dst(1) by (simp add: tx_make_work_def alloc_def Let_def)
    have fresh: "?w \<notin> set (works (tx_tabs tx))" "?w \<notin> set (concat cs)"
      using io inv by (auto simp: items_ok_def db_inv_def)
    have W: "distinct (works ?its)" "set (works ?its) = insert ?w (set (works (tx_tabs tx)))"
      using works_update_None [OF i None fresh(1)] io by (auto simp: items_ok_def)
    have ents: "map tx_ent ?its = map tx_ent (tx_tabs tx)"
      using i list_update_id [of "map tx_ent (tx_tabs tx)" i] by (simp add: map_update)
    have heap: "\<exists>t. heap_of ?db' w = Some t \<and> tab_inv t" if "w \<in> set (works ?its)" for w
      using that W(2) dst(2) io fresh(1) by (auto simp: items_ok_def)
    have "items_ok ?db' cs ?its"
      unfolding items_ok_def
    proof (intro conjI)
      show "\<forall>it\<in>set ?its. tx_gen it = tabs_gen ?db' \<and> tx_ent it < length (tabs ?db') \<and> (tx_dirty it \<longrightarrow> tx_work it \<noteq> None)"
        by (rule ball_update) (use io it in \<open>auto simp: items_ok_def\<close>)
      show "distinct (map tx_ent ?its)" using ents io by (simp add: items_ok_def)
      show "distinct (works ?its)" by (rule W(1))
      show "\<forall>w\<in>set (works ?its). w \<notin> set (concat cs) \<and> w < next_free ?db' \<and> (\<exists>t. heap_of ?db' w = Some t \<and> tab_inv t)"
        using heap W(2) io fresh(2) by (auto simp: items_ok_def)
    qed
    moreover have fnd: "List.find (sees (heap_of ?db') s) (cs ! tx_ent x) = List.find (sees (heap_of db) s) (cs ! tx_ent x)"
      if "x \<in> set (tx_tabs tx)" for x s
    proof -
      have "tx_ent x < length cs" using io that db_inv_length [OF inv] by (auto simp: items_ok_def)
      from in_concat_nth [OF this] have "?w \<notin> set (cs ! tx_ent x)" using fresh(2) by metis
      then show ?thesis using find_upd_fresh by simp
    qed
    moreover have "\<forall>x\<in>set ?its. List.find (sees (heap_of ?db') (tx_snap tx)) (cs ! tx_ent x) = Some (tx_base x)"
    proof (rule ball_update)
      show "\<forall>x\<in>set (tx_tabs tx). List.find (sees (heap_of ?db') (tx_snap tx)) (cs ! tx_ent x) = Some (tx_base x)"
        using tx fnd by (simp add: tx_ok_def)
      then show "List.find (sees (heap_of ?db') (tx_snap tx)) (cs ! tx_ent (?it\<lparr>tx_work := Some ?w, tx_dirty := True\<rparr>)) =
          Some (tx_base (?it\<lparr>tx_work := Some ?w, tx_dirty := True\<rparr>))" using it by simp
    qed
    ultimately have "tx_ok ?db' cs (tx\<lparr>tx_tabs := ?its\<rparr>)" using tx by (simp add: tx_ok_def)
    then show ?thesis using mk db_inv_alloc [OF inv] i dst(3) src None
      by (intro exI [of _ "tx\<lparr>tx_tabs := ?its\<rparr>"] exI [of _ ?db'] exI [of _ ?w] exI [of _ dst]) simp
  qed
qed

end
