(* ===== verification/Table_Spec.thy ===== *)
theory Table_Spec
  imports Table_Select
begin

text \<open>
  The writing statements as a specification on rows, and that \<open>exec_stmt\<close> implements it. \<open>stmt_spec\<close> looks at the rows, the columns
  and the next key of a table only, not at its indexes.
\<close>

definition upd_spec :: "tabver \<Rightarrow> statement \<Rightarrow> row list option" where
  "upd_spec tab st =
     (case col_idx tab (set_col st) of
        None \<Rightarrow> None
      | Some c \<Rightarrow>
        if where_conditions st = [] \<or> pk_idx tab = Some c \<or> (col_type (cols tab ! c) = COL_NN \<and> norm_v 256 (set_val st) = []) \<or>
          \<not> keys_unique (tab\<lparr>rows := upd_rows tab st c\<rparr>)
        then None else Some (upd_rows tab st c))"

definition stmt_spec :: "tabver \<Rightarrow> statement \<Rightarrow> row list option" where
  "stmt_spec tab st =
     (case stmt_type st of
        STMT_INSERT \<Rightarrow>
          let vals = split_csv (row_data st) MAX_COLS RECORD_SIZE in
          if insertable tab vals then Some (rows tab @ [the (fst (row_new tab vals))]) else None
      | STMT_UPDATE \<Rightarrow> upd_spec tab st
      | STMT_DELETE \<Rightarrow> if where_conditions st = [] then None else Some (filter (\<lambda>row. \<not> row_match tab st row) (rows tab))
      | _ \<Rightarrow> None)"

text \<open>The statements it speaks about: a table that is written by INSERT has a primary key, and the values fit the key buffer.\<close>

definition in_scope :: "tabver \<Rightarrow> statement \<Rightarrow> bool" where
  "in_scope tab st \<longleftrightarrow> stmt_type st \<noteq> STMT_SELECT \<and>
     (stmt_type st = STMT_INSERT \<longrightarrow> pk_idx tab \<noteq> None \<and> (\<forall>v\<in>set (split_csv (row_data st) MAX_COLS RECORD_SIZE). length v < 256))"

lemma err_code_res_err: "err_code (res_err res c msg) = strbuf 16 c"
  by (simp add: res_err_def)

lemma refused_code: "refused res res' \<Longrightarrow> err_code res' \<noteq> []"
  by (auto simp: refused_def err_code_res_err strbuf_def)

lemma upd_do_spec:
  assumes "tab_inv tab" "0 \<le> res_count res"
  shows "\<exists>ok tab' res'. upd_do tab st res = Some (ok, tab', res') \<and> (ok \<longleftrightarrow> upd_spec tab st \<noteq> None) \<and>
    (ok \<longrightarrow> tab_inv tab' \<and> Some (rows tab') = upd_spec tab st) \<and> (\<not> ok \<longrightarrow> err_code res' \<noteq> [])"
proof (cases "\<exists>c. where_conditions st \<noteq> [] \<and> col_idx tab (set_col st) = Some c \<and> pk_idx tab \<noteq> Some c \<and>
    \<not> (col_type (cols tab ! c) = COL_NN \<and> norm_v 256 (set_val st) = [])")
  case True
  then obtain c where c: "where_conditions st \<noteq> []" "col_idx tab (set_col st) = Some c" "pk_idx tab \<noteq> Some c"
    "\<not> (col_type (cols tab ! c) = COL_NN \<and> norm_v 256 (set_val st) = [])" by blast
  have sp: "upd_spec tab st = (if keys_unique (tab\<lparr>rows := upd_rows tab st c\<rparr>) then Some (upd_rows tab st c) else None)"
    using c by (auto simp: upd_spec_def)
  obtain ok tab' res' where o: "upd_do tab st res = Some (ok, tab', res')" "ok \<longleftrightarrow> keys_unique (tab\<lparr>rows := upd_rows tab st c\<rparr>)"
    "ok \<Longrightarrow> tab_inv tab' \<and> rows tab' = upd_rows tab st c"
    "\<not> ok \<Longrightarrow> res' \<in> {res_err res ''BAD_SQL'' ''duplicate UK'',
       res_err (res\<lparr>res_count := res_count res + int (length (filter (row_match tab st) (rows tab)))\<rparr>) ''INT_ERR'' ''index rebuild failed''}"
    using upd_do_outcome [OF assms c] by blast
  have "err_code res' \<noteq> []" if "\<not> ok" using o(4) [OF that] by (auto simp: err_code_res_err strbuf_def)
  then show ?thesis using o(1-3) sp by (intro exI [of _ ok] exI [of _ tab'] exI [of _ res']) simp
next
  case False
  then have "upd_spec tab st = None" by (auto simp: upd_spec_def split: option.splits)
  moreover from False have "\<exists>msg. upd_do tab st res = Some (False, tab, res_err res ''BAD_SQL'' msg)"
    by (auto simp: upd_do_def Let_def split: option.splits)
  ultimately show ?thesis by (auto simp: err_code_res_err strbuf_def)
qed

lemma exec_stmt_spec:
  assumes inv: "tab_inv tab" "tab_mem tab" and sc: "in_scope tab st" and res: "0 \<le> res_count res"
  shows "\<exists>ok tab' res'. exec_stmt tab st res = Some (ok, tab', res') \<and> (ok \<longleftrightarrow> stmt_spec tab st \<noteq> None) \<and>
    (ok \<longrightarrow> tab_inv tab' \<and> Some (rows tab') = stmt_spec tab st) \<and> (\<not> ok \<longrightarrow> err_code res' \<noteq> [])"
proof (cases "stmt_type st")
  case STMT_INSERT
  let ?vals = "split_csv (row_data st) MAX_COLS RECORD_SIZE"
  obtain p where p: "pk_idx tab = Some p" "\<forall>v\<in>set ?vals. length v < 256" using sc STMT_INSERT by (auto simp: in_scope_def)
  obtain ok tab' res' where o: "ins_do tab st res = Some (ok, tab', res')" "tab_inv tab'" "ok \<longleftrightarrow> insertable tab ?vals"
    and r: "if ok then \<exists>row. rows tab' = rows tab @ [row] \<and> row_new tab ?vals = (Some row, last_id res', next_id tab')
      else refused res res'"
    using ins_do_outcome [OF inv p, of res] by (elim exE conjE) (auto split: if_splits)
  then show ?thesis using STMT_INSERT refused_code [of res res']
    by (intro exI [of _ ok] exI [of _ tab'] exI [of _ res']) (auto simp: exec_stmt_def stmt_spec_def split: if_splits)
next
  case STMT_UPDATE
  then show ?thesis using upd_do_spec [OF inv(1) res, of st] by (simp add: exec_stmt_def stmt_spec_def)
next
  case STMT_DELETE
  show ?thesis
  proof (cases "where_conditions st = []")
    case True
    then show ?thesis using STMT_DELETE by (auto simp: exec_stmt_def stmt_spec_def del_do_def err_code_res_err strbuf_def)
  next
    case False
    then show ?thesis using STMT_DELETE del_do_outcome [OF inv(1) False, of res] by (auto simp: exec_stmt_def stmt_spec_def)
  qed
next
  case STMT_SELECT
  then show ?thesis using sc by (simp add: in_scope_def)
next
  case STMT_UNRECOGNIZED
  then show ?thesis by (auto simp: exec_stmt_def stmt_spec_def err_code_res_err strbuf_def)
qed

text \<open>Only the content of a table matters.\<close>

definition same_content :: "tabver \<Rightarrow> tabver \<Rightarrow> bool" where
  "same_content t u \<longleftrightarrow> rows t = rows u \<and> cols t = cols u \<and> pk_idx t = pk_idx u \<and> uk_idx t = uk_idx u \<and> next_id t = next_id u"

lemma stmt_spec_content:
  assumes "same_content t u" shows "stmt_spec t st = stmt_spec u st" "in_scope t st = in_scope u st"
proof -
  have eq: "rows t = rows u" "cols t = cols u" "pk_idx t = pk_idx u" "uk_idx t = uk_idx u" "next_id t = next_id u"
    using assms by (simp_all add: same_content_def)
  have col: "col_idx t = col_idx u" using eq by (simp add: col_idx_def fun_eq_iff)
  have rm: "row_match t = row_match u"
    unfolding row_match_def cond_match_def fun_eq_iff eq col by simp
  have cells: "row_cells t = row_cells u" "nn_ok t = nn_ok u" unfolding row_cells_def nn_ok_def fun_eq_iff eq by simp_all
  have rn: "row_new t = row_new u" unfolding row_new_def fun_eq_iff eq cells by simp
  have ku: "keys_unique (t\<lparr>rows := rs\<rparr>) = keys_unique (u\<lparr>rows := rs\<rparr>)" for rs using eq by (simp add: keys_unique_def)
  have ins: "insertable t vals = insertable u vals" for vals unfolding insertable_def rn ku eq ..
  have ur: "upd_rows t st c = upd_rows u st c" for c using eq rm by (simp add: upd_rows_def)
  have up: "upd_spec t st = upd_spec u st" unfolding upd_spec_def col ur ku eq by simp
  show "stmt_spec t st = stmt_spec u st" unfolding stmt_spec_def ins rn up rm eq by simp
  show "in_scope t st = in_scope u st" using eq by (simp add: in_scope_def)
qed

end
