(* ===== verification/Table_Snap.thy ===== *)
theory Table_Snap
  imports Table_Select
begin

text \<open>
  The number of the snapshot only labels the result of a SELECT: rows, count and errors do not depend on it. The lemmas go along
  the searches through the B+ trees, for any change of the state that commutes with the visitor.
\<close>

lemma scan_leaf_hom:
  assumes "\<And>k v s. vis k v (h s) = apsnd h (vis k v s)"
  shows "scan_leaf cmp a b vis es (h s) = map_sum h (apsnd h) (scan_leaf cmp a b vis es s)"
proof (induction es arbitrary: s)
  case (Cons e es)
  obtain k v where e: "e = (k, v)" by (cases e)
  obtain ok s' where "vis k v s = (ok, s')" by (cases "vis k v s")
  then show ?case using Cons assms by (cases ok) (simp_all add: e)
qed simp

lemma walk_leaves_hom:
  assumes "\<And>es s. scan es (h s) = map_sum h (apsnd h) (scan es s)"
  shows "walk_leaves n scan fuel l (h s) = map_option (apsnd h) (walk_leaves n scan fuel l s)"
proof (induction fuel arbitrary: l s)
  case (Suc fuel)
  obtain a es nx where l: "l = (a, es, nx)" by (cases l)
  show ?case
  proof (cases "scan es s")
    case (Inl s')
    then show ?thesis using Suc assms by (auto simp: l split: option.splits)
  next
    case (Inr r)
    then show ?thesis using assms by (simp add: l)
  qed
qed simp

lemma tree_range_search_hom:
  assumes "\<And>k v s. vis k v (h s) = apsnd h (vis k v s)"
  shows "tree_range_search cmp t a b vis (h s) = map_option (apsnd h) (tree_range_search cmp t a b vis s)"
proof -
  note w = walk_leaves_hom [of "scan_leaf cmp a b vis" h, OF scan_leaf_hom [of vis h, OF assms]]
  show ?thesis by (simp add: tree_range_search_def w split: option.split)
qed

definition label :: "ulong \<Rightarrow> dbres \<Rightarrow> dbres" where
  "label v res = res\<lparr>snap_id := v\<rparr>"

lemma label_simps [simp]:
  "res_rows (label v res) = res_rows res" "res_count (label v res) = res_count res" "last_id (label v res) = last_id res"
  "err_code (label v res) = err_code res" "res_err (label v res) c m = label v (res_err res c m)"
  "res_add (label v res) tab row sel = label v (res_add res tab row sel)"
  by (simp_all add: label_def res_err_def res_add_def)

lemma sel_vis_label: "sel_vis tab st sel k i (label v res) = apsnd (label v) (sel_vis tab st sel k i res)"
  by (simp add: sel_vis_def Let_def)

lemma sel_scan_label: "sel_scan tab st sel rs (label v res) = label v (sel_scan tab st sel rs res)"
  by (induction rs arbitrary: res) simp_all

lemma sel_search_label: "sel_search tab st sel (label v res) r = map_option (apsnd (label v)) (sel_search tab st sel res r)"
  by (simp add: sel_search_def sel_vis_label split: lookup_result.split prod.split bool.split)

lemmas range_label = tree_range_search_hom [of "sel_vis tab st sel" "label v" for tab st sel v, OF sel_vis_label]

lemma range_result_label:
  "(case map_option (apsnd (label v)) r of None \<Rightarrow> None | Some (True, res') \<Rightarrow> Some (True, res') | Some (False, res') \<Rightarrow> Some (f res')) =
   map_option (apsnd (label v)) (case r of None \<Rightarrow> None | Some (True, res') \<Rightarrow> Some (True, res') | Some (False, res') \<Rightarrow> Some (f' res'))"
  if "\<And>res. f (label v res) = apsnd (label v) (f' res)"
proof (cases r)
  case (Some x)
  then show ?thesis using that by (cases x; cases "fst x") auto
qed simp

lemma sel_do_label: "sel_do tab st (label v res) = map_option (apsnd (label v)) (sel_do tab st res)"
proof (cases "if select_all st then Some [0..<length (cols tab)] else sel_columns tab (select_cols st)")
  case None
  then show ?thesis by (simp only: sel_do_def option.case label_simps) simp
next
  case (Some sel)
  note sel = Some
  show ?thesis
  proof (cases "pick_idx tab st")
    case None
    then show ?thesis by (simp only: sel_do_def sel option.case sel_scan_label) simp
  next
    case (Some p)
    obtain ci i where p: "p = (ci, i)" by (cases p)
    define c where "c = where_conditions st ! ci"
    note unf = sel_do_def sel Some p option.case prod.case Let_def c_def [symmetric] bptree_range_search_def bptree_string_range_search_def
      sel_scan_label sel_search_label range_label
    consider "cond_type c = WHERE_EQ \<and> pk_idx tab = Some i"
      | "\<not> (cond_type c = WHERE_EQ \<and> pk_idx tab = Some i)" "cond_type c = WHERE_EQ \<and> uk_slot tab i \<noteq> None"
      | "\<not> (cond_type c = WHERE_EQ \<and> pk_idx tab = Some i)" "\<not> (cond_type c = WHERE_EQ \<and> uk_slot tab i \<noteq> None)"
        "cond_type c = WHERE_BETWEEN \<and> pk_idx tab = Some i"
      | "\<not> (cond_type c = WHERE_EQ \<and> pk_idx tab = Some i)" "\<not> (cond_type c = WHERE_EQ \<and> uk_slot tab i \<noteq> None)"
        "\<not> (cond_type c = WHERE_BETWEEN \<and> pk_idx tab = Some i)" "cond_type c = WHERE_BETWEEN \<and> uk_slot tab i \<noteq> None"
      | "\<not> (cond_type c = WHERE_EQ \<and> pk_idx tab = Some i)" "\<not> (cond_type c = WHERE_EQ \<and> uk_slot tab i \<noteq> None)"
        "\<not> (cond_type c = WHERE_BETWEEN \<and> pk_idx tab = Some i)" "\<not> (cond_type c = WHERE_BETWEEN \<and> uk_slot tab i \<noteq> None)"
      by blast
    then show ?thesis
    proof cases
      case 1
      show ?thesis unfolding unf if_P [OF 1] by (cases "parse_l (cond_val c)") simp_all
    next
      case 2
      show ?thesis unfolding unf if_not_P [OF 2(1)] if_P [OF 2(2)] ..
    next
      case 3
      show ?thesis
      proof (cases "parse_l (cond_val c)"; cases "parse_l (cond_end_val c)")
        fix a b
        assume ab: "parse_l (cond_val c) = Some a" "parse_l (cond_end_val c) = Some b"
        show ?thesis unfolding unf if_not_P [OF 3(1)] if_not_P [OF 3(2)] if_P [OF 3(3)] ab by (rule range_result_label) simp
      qed (simp_all add: unf 3)
    next
      case 4
      show ?thesis unfolding unf if_not_P [OF 4(1)] if_not_P [OF 4(2)] if_not_P [OF 4(3)] if_P [OF 4(4)]
        by (rule range_result_label) simp
    next
      case 5
      show ?thesis unfolding unf if_not_P [OF 5(1)] if_not_P [OF 5(2)] if_not_P [OF 5(3)] if_not_P [OF 5(4)] by simp
    qed
  qed
qed

end
