(* ===== verification/Db_Exec.thy ===== *)
theory Db_Exec
  imports Db_Tx Table_Spec Table_Snap
begin

text \<open>
  \<open>db_exec\<close> and \<open>db_tab_ver\<close> on a well-formed database: a SELECT reads the newest version of its table and leaves all newest
  versions as they are.
\<close>

lemma head_visible:
  assumes inv: "db_inv db cs" and j: "j < length (tabs db)"
  obtains t where "heap_of db (snd (tabs db ! j)) = Some t" "tab_inv t"
    "tab_vis db (snd (tabs db ! j)) (cur_ver (mv db)) = Some (Some (snd (tabs db ! j)))"
proof -
  let ?a = "snd (tabs db ! j)"
  obtain bs where bs: "cs ! j = ?a # bs" using chain_head [OF db_inv_chain [OF inv j]] by blast
  have c: "?a \<in> set (concat cs)" by (rule head_in_chain [OF inv j])
  have v: "tab_inv (the (heap_of db ?a)) \<and> ver_id (the (heap_of db ?a)) \<le> cur_ver (mv db)"
    using inv c unfolding db_inv_def versions_ok_def by blast
  have "heap_of db ?a \<noteq> None" using chain_heap [OF db_inv_chain [OF inv j], of ?a] bs by simp
  then obtain t where t: "heap_of db ?a = Some t" by blast
  have "tab_vis db ?a (cur_ver (mv db)) = Some (Some ?a)" using tab_vis_db [OF inv j] bs v by (simp add: sees_def)
  then show thesis using that t v by simp
qed

lemma head_old: "db_inv db cs \<Longrightarrow> i < length (tabs db) \<Longrightarrow> snd (tabs db ! i) < next_free db"
  using head_in_chain [of db cs i] unfolding db_inv_def by blast

text \<open>The newest versions of the tables of two databases are the same.\<close>

definition same_heads :: "db \<Rightarrow> db \<Rightarrow> bool" where
  "same_heads db db' \<longleftrightarrow> tabs db' = tabs db \<and>
     (\<forall>i<length (tabs db). same_but_prev (heap_of db' (snd (tabs db ! i))) (heap_of db (snd (tabs db ! i))))"

lemma tab_ver_loaded:
  assumes "get_ent db name = Some j" "heap_of db (snd (tabs db ! j)) = Some t" "name \<noteq> []"
  shows "db_tab_ver db name = Some (ver_id t, db)"
  using assms by (simp add: db_tab_ver_def need_ent_def)

lemma index_from_append_None:
  "\<forall>x\<in>set xs. \<not> P x \<Longrightarrow> index_from i P (xs @ ys) = index_from (i + length xs) P ys"
  by (induction xs arbitrary: i) auto

lemma index_from_append_Some: "index_from i P xs = Some j \<Longrightarrow> index_from i P (xs @ ys) = Some j"
  by (induction xs arbitrary: i) (auto split: if_splits)

text \<open>After \<open>need_ent\<close> or \<open>db_tab_ver\<close> found the table, it is loaded.\<close>

lemma need_ent_loaded:
  assumes "need_ent db name = Some (Some j, db')"
  shows "get_ent db' name = Some j" "\<exists>new. tabs db' = tabs db @ new"
proof -
  have "get_ent db' name = Some j \<and> (\<exists>new. tabs db' = tabs db @ new)"
  proof (cases "get_ent db name")
    case (Some i)
    then show ?thesis using assms by (auto simp: need_ent_def)
  next
    case None
    then have none: "\<forall>y\<in>set (tabs db). fst y \<noteq> name"
      using index_from_None [of 0 "\<lambda>e. strcmp (fst e) name = 0" "tabs db"] by (auto simp: get_ent_def strcmp_eq)
    have "\<exists>a. tabs db' = tabs db @ [(name, a)] \<and> j = length (tabs db)"
      using assms None by (auto simp: need_ent_def add_ent_def alloc_def Let_def split: option.splits)
    then show ?thesis using none index_from_append_None [of "tabs db" "\<lambda>e. strcmp (fst e) name = 0" 0]
      by (auto simp: get_ent_def strcmp_eq)
  qed
  then show "get_ent db' name = Some j" "\<exists>new. tabs db' = tabs db @ new" by blast+
qed

lemma need_ent_mv: "need_ent (db\<lparr>mv := m\<rparr>) name = map_option (\<lambda>(r, d). (r, d\<lparr>mv := m\<rparr>)) (need_ent db name)"
  by (simp add: need_ent_def get_ent_def alloc_def add_ent_def Let_def split: option.split)

lemma tab_ver_need:
  assumes r: "db_tab_ver db name = Some (v, db')" and v: "0 < v"
  obtains j t where "need_ent db name = Some (Some j, db')" "heap_of db' (snd (tabs db' ! j)) = Some t" "ver_id t = v" "name \<noteq> []"
proof -
  have nm: "name \<noteq> []" using r v by (auto simp: db_tab_ver_def)
  obtain ent where n: "need_ent db name = Some (ent, db')" using r nm by (auto simp: db_tab_ver_def bind_eq_Some_conv split: option.splits)
  then obtain e t where "ent = Some e" "heap_of db' (snd (tabs db' ! e)) = Some t" "ver_id t = v"
    using r nm v by (auto simp: db_tab_ver_def bind_eq_Some_conv split: option.splits)
  then show thesis using that n nm by blast
qed

lemma tab_ver_ok:
  assumes inv: "db_inv db cs" and r: "db_tab_ver db name = Some (v, db')" and v: "0 < v"
  obtains cs' j t where "db_inv db' cs'" "get_ent db' name = Some j" "heap_of db' (snd (tabs db' ! j)) = Some t" "ver_id t = v"
    "mv db' = mv db" "max_sql db' = max_sql db"
proof -
  obtain j t where n: "need_ent db name = Some (Some j, db')" "heap_of db' (snd (tabs db' ! j)) = Some t" "ver_id t = v"
    using tab_ver_need [OF r v] .
  obtain cs' where "extends db cs db' cs'" using need_ent_ok [OF inv n(1)] by blast
  then show thesis using that n need_ent_loaded(1) [OF n(1)] by (auto simp: extends_def)
qed

lemma select_ok:
  assumes inv: "db_inv db cs" and small: "length (snaps (mv db)) + 1 < 2 ^ 64"
    and st: "parse_ok db s res_clr = Inr st" "stmt_type st = STMT_SELECT" "need_ent db (table_name st) = Some (Some j, db0)"
  obtains t db' cs' where "heap_of db0 (snd (tabs db0 ! j)) = Some t"
    "\<forall>env io. db_exec env io db s = map_option (\<lambda>(ok, res). (ok, res, db')) (sel_do t st (res_clr\<lparr>snap_id := cur_ver (mv db)\<rparr>))"
    "db_inv db' cs'" "same_heads db0 db'" "max_sql db' = max_sql db0" "cur_ver (mv db') = cur_ver (mv db)"
    "length (snaps (mv db')) = length (snaps (mv db))"
proof -
  define m where "m = snd (mv_snap (mv db))"
  define db1 where "db1 = db0\<lparr>mv := m\<rparr>"
  have snap: "db_snap db = (cur_ver (mv db), db\<lparr>mv := m\<rparr>)" by (simp add: db_snap_def m_def mv_snap_def Let_def)
  have inv': "db_inv (db\<lparr>mv := m\<rparr>) cs" unfolding m_def by (rule db_inv_snap [OF inv small])
  have ent: "need_ent (db\<lparr>mv := m\<rparr>) (table_name st) = Some (Some j, db1)" using st(3) by (simp add: need_ent_mv db1_def)
  obtain cs1 where "extends (db\<lparr>mv := m\<rparr>) cs db1 cs1" "j < length (tabs db1)" using need_ent_ok [OF inv' ent] by blast
  then have inv1: "db_inv db1 cs1" and jl: "j < length (tabs db1)" by (auto simp: extends_def)
  have cv: "cur_ver (mv db1) = cur_ver (mv db)" "snaps (mv db1) = snaps (mv db) @ [cur_ver (mv db)]"
    by (simp_all add: db1_def m_def mv_snap_def Let_def)
  have cfg: "tabs db1 = tabs db0" "heap_of db1 = heap_of db0" "max_sql db1 = max_sql db0" by (simp_all add: db1_def)
  obtain t where t: "heap_of db0 (snd (tabs db0 ! j)) = Some t"
    "tab_vis db1 (snd (tabs db0 ! j)) (cur_ver (mv db)) = Some (Some (snd (tabs db0 ! j)))"
    using head_visible [OF inv1, of j] jl unfolding cfg cv by blast
  have "parse_ok (db\<lparr>mv := m\<rparr>) s res_clr = Inr st" using st(1) by (simp add: parse_ok_def)
  then have rd: "do_read (db\<lparr>mv := m\<rparr>) (cur_ver (mv db)) s =
      map_option (\<lambda>(ok, res). (ok, res, db1)) (sel_do t st (res_clr\<lparr>snap_id := cur_ver (mv db)\<rparr>))"
    using st(2) ent t cfg by (cases "sel_do t st (res_clr\<lparr>snap_id := cur_ver (mv db)\<rparr>)") (auto simp: do_read_def exec_stmt_def)
  obtain db' cs' where d: "db_done db1 (cur_ver (mv db)) = Some db'" "db_inv db' cs'" "tabs db' = tabs db1" "max_sql db' = max_sql db1"
    "mv db' = mv_gc (mv db1) (cur_ver (mv db))"
    "\<forall>i<length (tabs db1). same_but_prev (heap_of db' (snd (tabs db1 ! i))) (heap_of db1 (snd (tabs db1 ! i)))"
    using release_ok [OF inv1, of "cur_ver (mv db)"] unfolding db_done_def by blast
  have "cur_ver (mv db) \<noteq> 0" using inv by (auto simp: db_inv_def mv_inv_def)
  then have len: "length (snaps (mv db')) = length (snaps (mv db))" "cur_ver (mv db') = cur_ver (mv db)"
    using d(5) cv by (simp_all add: mv_gc_def length_remove1)
  have ex: "db_exec env io db s = map_option (\<lambda>(ok, res). (ok, res, db')) (sel_do t st (res_clr\<lparr>snap_id := cur_ver (mv db)\<rparr>))" for env io
    using st(1,2) snap rd d(1)
    by (cases "sel_do t st (res_clr\<lparr>snap_id := cur_ver (mv db)\<rparr>)") (auto simp: db_exec_def db_read_def)
  have "same_heads db0 db'" using d(3,6) cfg by (simp add: same_heads_def)
  then show thesis using that [OF t(1) _ d(2)] ex d(4) cfg(3) len by simp
qed

subsection \<open>Writing statements\<close>

text \<open>What a transaction did to its working copies does not matter to \<open>db_abort\<close>.\<close>

lemma abort_work_heap:
  assumes "tx_ok db cs tx" "w \<in> set (works (tx_tabs tx))"
  shows "db_abort (db\<lparr>heap_of := (heap_of db)(w \<mapsto> t)\<rparr>) tx = db_abort db tx"
proof -
  have io: "distinct (works (tx_tabs tx))" "\<forall>x\<in>set (works (tx_tabs tx)). heap_of db x \<noteq> None"
    using assms(1) by (auto simp: tx_ok_def items_ok_def)
  have "free_works ((heap_of db)(w \<mapsto> t)) (tx_tabs tx) = free_works (heap_of db) (tx_tabs tx)"
    using free_works_ok [OF io] free_works_ok [OF io(1), of "(heap_of db)(w \<mapsto> t)"] io(2) assms(2) by (auto simp: fun_eq_iff)
  then show ?thesis using assms(1) by (simp add: db_abort_def tx_ok_def)
qed

lemma work_heap_ok:
  assumes inv: "db_inv db cs" and tx: "tx_ok db cs tx" and w: "w \<in> set (works (tx_tabs tx))" and t: "tab_inv t"
  shows "db_inv (db\<lparr>heap_of := (heap_of db)(w \<mapsto> t)\<rparr>) cs" "tx_ok (db\<lparr>heap_of := (heap_of db)(w \<mapsto> t)\<rparr>) cs tx"
proof -
  have wo: "w \<notin> set (concat cs)" "w < next_free db" using tx w by (auto simp: tx_ok_def items_ok_def)
  show "db_inv (db\<lparr>heap_of := (heap_of db)(w \<mapsto> t)\<rparr>) cs"
    by (rule db_inv_heap [OF inv]) (use wo inv in \<open>auto simp: db_inv_def\<close>)
  have "w \<notin> set (cs ! tx_ent x)" if "x \<in> set (tx_tabs tx)" for x
  proof -
    have "tx_ent x < length cs" using tx that db_inv_length [OF inv] by (auto simp: tx_ok_def items_ok_def)
    then show ?thesis using in_concat_nth wo(1) by metis
  qed
  then have "\<forall>x\<in>set (tx_tabs tx). List.find (sees ((heap_of db)(w \<mapsto> t)) (tx_snap tx)) (cs ! tx_ent x) = Some (tx_base x)"
    using tx find_upd_fresh by (simp add: tx_ok_def)
  then show "tx_ok (db\<lparr>heap_of := (heap_of db)(w \<mapsto> t)\<rparr>) cs tx"
    using tx t by (auto simp: tx_ok_def items_ok_def)
qed

text \<open>The first part of an attempt: a transaction with a working copy of the newest version of the table.\<close>

lemma attempt_ok:
  assumes inv: "db_inv db cs" and small: "length (snaps (mv db)) + 1 < 2 ^ 64" and n: "need_ent db name = Some (Some j, db0)"
    and t: "heap_of db0 (snd (tabs db0 ! j)) = Some t"
  obtains tx db1 tx1 tx2 db2 db3 cs' c where "db_begin db = (tx, db1)" "tx_view db1 tx name = Some (Some 0, tx1, db2)"
    "tx_make_work db2 tx1 0 = Some (True, tx2, db3)" "db_inv db3 cs'" "tx_ok db3 cs' tx2" "tx_snap tx2 = cur_ver (mv db)"
    "tx_tabs tx2 = [\<lparr>tx_ent = j, tx_gen = tabs_gen db3, tx_base = snd (tabs db0 ! j), tx_work = Some (next_free db0), tx_dirty = True\<rparr>]"
    "heap_of db3 = (heap_of db0)(next_free db0 \<mapsto> c)" "tabs db3 = tabs db0" "mv db3 = snd (mv_snap (mv db))" "max_sql db3 = max_sql db0"
    "tab_inv c" "tab_mem c" "same_content c t"
proof -
  let ?a = "snd (tabs db0 ! j)" and ?m = "snd (mv_snap (mv db))"
  obtain tx db1 where b: "db_begin db = (tx, db1)" by (cases "db_begin db")
  have b1: "db1 = db\<lparr>mv := ?m\<rparr>" "tx = \<lparr>tx_snap = cur_ver (mv db), tx_tabs = [], tx_done = False\<rparr>"
    using b by (auto simp: db_begin_def mv_snap_def Let_def)
  have ok1: "db_inv db1 cs" "tx_ok db1 cs tx" using begin_ok [OF inv small b] by blast+
  define db2 where "db2 = db0\<lparr>mv := ?m\<rparr>"
  have ent: "need_ent db1 name = Some (Some j, db2)" using n by (simp add: need_ent_mv b1 db2_def)
  obtain cs2 where "extends db1 cs db2 cs2" "j < length (tabs db2)" using need_ent_ok [OF ok1(1) ent] by blast
  then have inv2: "db_inv db2 cs2" and jl: "j < length (tabs db0)" by (auto simp: extends_def db2_def)
  have cv: "cur_ver (mv db2) = cur_ver (mv db)" by (simp add: db2_def mv_snap_def Let_def)
  have vis: "tab_vis db2 ?a (cur_ver (mv db)) = Some (Some ?a)" and ti: "tab_inv t"
    using head_visible [OF inv2, of j] jl t cv by (auto simp: db2_def)
  define it where "it = \<lparr>tx_ent = j, tx_gen = tabs_gen db0, tx_base = ?a, tx_work = None, tx_dirty = False\<rparr>"
  have tabs2: "tabs db2 = tabs db0" "tabs_gen db2 = tabs_gen db0" by (simp_all add: db2_def)
  have v: "tx_view db1 tx name = Some (Some 0, tx\<lparr>tx_tabs := [it]\<rparr>, db2)"
    unfolding tx_view_def tx_tab_def using ent vis by (simp add: b1(2) it_def tabs2)
  obtain cs' where x: "db_inv db2 cs'" "tx_ok db2 cs' (tx\<lparr>tx_tabs := [it]\<rparr>)"
    using tx_view_ok [OF ok1 v] by (auto simp: b1(2) extends_def)
  obtain c where c: "tab_clone t = Some (Some c)" "tab_inv c" "tab_mem c" "same_content c t"
    using tab_clone_ok [OF ti] by (auto simp: same_content_def)
  define db3 where "db3 = db2\<lparr>heap_of := (heap_of db2)(next_free db2 \<mapsto> c), next_free := next_free db2 + 1\<rparr>"
  define it2 where "it2 = it\<lparr>tx_work := Some (next_free db2), tx_dirty := True\<rparr>"
  have mk: "tx_make_work db2 (tx\<lparr>tx_tabs := [it]\<rparr>) 0 = Some (True, tx\<lparr>tx_tabs := [it2]\<rparr>, db3)"
    using t c(1) by (simp add: tx_make_work_def alloc_def Let_def db3_def it2_def it_def db2_def)
  have ok2: "db_inv db3 cs'" "tx_ok db3 cs' (tx\<lparr>tx_tabs := [it2]\<rparr>)"
    using tx_make_work_ok [OF x, of 0] mk by auto
  show thesis
    by (rule that [of tx db1 _ _ _ db3 cs' c, OF b v mk ok2]) (use c in \<open>simp_all add: b1(2) it2_def it_def db3_def db2_def\<close>)
qed

text \<open>
  An attempt without interference: the statement runs on the working copy; if it succeeds the copy is published, otherwise
  the transaction is aborted.
\<close>

lemma exec_write_ok:
  assumes inv: "db_inv db cs" and small: "length (snaps (mv db)) + 1 < 2 ^ 64"
    and st: "parse_ok db s res_clr = Inr st" "need_ent db (table_name st) = Some (Some j, db0)" "heap_of db0 (snd (tabs db0 ! j)) = Some t"
    and sc: "in_scope t st" and alone: "\<And>n d. env n d = d" "\<And>n k. io n k = Io_ok" and nw: "cur_ver (mv db) \<noteq> - 1"
  shows "\<exists>ok res db' cs'. db_exec env io db s = Some (ok, res, db') \<and> db_inv db' cs' \<and> (ok \<longleftrightarrow> stmt_spec t st \<noteq> None) \<and>
    map fst (tabs db') = map fst (tabs db0) \<and> max_sql db' = max_sql db0 \<and> length (snaps (mv db')) = length (snaps (mv db)) \<and>
    (ok \<longrightarrow> cur_ver (mv db') = cur_ver (mv db) + 1 \<and>
       (\<exists>t'. heap_of db' (snd (tabs db' ! j)) = Some t' \<and> Some (rows t') = stmt_spec t st \<and> ver_id t' = cur_ver (mv db) + 1) \<and>
       (\<forall>i<length (tabs db0). i \<noteq> j \<longrightarrow> tabs db' ! i = tabs db0 ! i \<and>
          same_but_prev (heap_of db' (snd (tabs db0 ! i))) (heap_of db0 (snd (tabs db0 ! i))))) \<and>
    (\<not> ok \<longrightarrow> err_code res \<noteq> [] \<and> same_heads db0 db' \<and> cur_ver (mv db') = cur_ver (mv db))"
proof -
  obtain tx db1 tx1 tx2 db1' db2 cs2 c where b: "db_begin db = (tx, db1)"
    and v: "tx_view db1 tx (table_name st) = Some (Some 0, tx1, db1')"
    and mk: "tx_make_work db1' tx1 0 = Some (True, tx2, db2)" and inv2: "db_inv db2 cs2" and tx2: "tx_ok db2 cs2 tx2"
    and sn: "tx_snap tx2 = cur_ver (mv db)"
    and tt: "tx_tabs tx2 = [\<lparr>tx_ent = j, tx_gen = tabs_gen db2, tx_base = snd (tabs db0 ! j), tx_work = Some (next_free db0), tx_dirty = True\<rparr>]"
    and h2: "heap_of db2 = (heap_of db0)(next_free db0 \<mapsto> c)" "tabs db2 = tabs db0" "mv db2 = snd (mv_snap (mv db))" "max_sql db2 = max_sql db0"
    and c: "tab_inv c" "tab_mem c" "same_content c t"
    using attempt_ok [OF inv small st(2,3)] .
  let ?w = "next_free db0"
  have wm: "?w \<in> set (works (tx_tabs tx2))" by (simp add: tt)
  obtain cs0 where "extends db cs db0 cs0" using need_ent_ok [OF inv st(2)] by blast
  then have inv0: "db_inv db0 cs0" by (simp add: extends_def)
  have cv2: "cur_ver (mv db2) = cur_ver (mv db)" "snaps (mv db2) = snaps (mv db) @ [cur_ver (mv db)]"
    by (simp_all add: h2 mv_snap_def Let_def)
  have one: "cur_ver (mv db) \<noteq> 0" using inv by (auto simp: db_inv_def mv_inv_def)
  have wh: "snd (tabs db0 ! i) \<noteq> ?w" if "i < length (tabs db0)" for i using head_old [OF inv0 that] by simp
  have heads2: "heap_of db2 (snd (tabs db0 ! i)) = heap_of db0 (snd (tabs db0 ! i))" if "i < length (tabs db0)" for i
    using wh [OF that] h2(1) by simp
  obtain ok c' res where e: "exec_stmt c st res_clr = Some (ok, c', res)" "ok \<longleftrightarrow> stmt_spec t st \<noteq> None"
    "ok \<Longrightarrow> tab_inv c' \<and> Some (rows c') = stmt_spec t st" "\<not> ok \<Longrightarrow> err_code res \<noteq> []"
    using exec_stmt_spec [OF c(1,2), of st res_clr] stmt_spec_content [OF c(3), of st] sc by (auto simp: res_clr_def)
  define db3 where "db3 = db2\<lparr>heap_of := (heap_of db2)(?w \<mapsto> c')\<rparr>"
  have item: "exec_item db2 (tx_tabs tx2 ! 0) st res_clr = Some (ok, res, db3)"
    using e(1) by (simp add: exec_item_def tt h2(1) db3_def)
  have nsel: "stmt_type st \<noteq> STMT_SELECT" using sc by (simp add: in_scope_def)
  have pos: "0 < WRITE_RETRY_MAX" by (simp add: WRITE_RETRY_MAX_def)
  have loop: "db_exec env io db s = (if ok then do { (committed, tx3, db5) \<leftarrow> db_commit db3 tx2 (io 0);
        if committed then Some (True, res, db5)
        else do { (_, _, db6) \<leftarrow> db_abort db5 tx3;
          if err_code res \<noteq> [] then Some (False, res, db6) else exec_loop env io st WRITE_RETRY_MAX db6 res } }
      else do { (_, _, db6) \<leftarrow> db_abort db3 tx2;
          if err_code res \<noteq> [] then Some (False, res, db6) else exec_loop env io st WRITE_RETRY_MAX db6 res })"
    using st(1) nsel b v mk item by (simp add: db_exec_def Let_def alone pos cong: if_cong)
  show ?thesis
  proof (cases ok)
    case True
    have ok3: "db_inv db3 cs2" "tx_ok db3 cs2 tx2" unfolding db3_def by (rule work_heap_ok [OF inv2 tx2 wm], use e(3) True in blast)+
    have nm: "\<not> moved db3 (tx_tabs tx2)" by (simp add: moved_def tt db3_def h2)
    have nw3: "cur_ver (mv db3) \<noteq> - 1" using nw cv2 by (simp add: db3_def)
    obtain tx' db' cs' where k: "db_commit db3 tx2 (io 0) = Some (True, tx', db')" "db_inv db' cs'"
      "cur_ver (mv db') = cur_ver (mv db3) + 1" "snaps (mv db') = snaps (mv_gc (mv db3) (tx_snap tx2))"
      "map fst (tabs db') = map fst (tabs db3)" "max_sql db' = max_sql db3"
      and wr: "\<forall>it\<in>set (tx_tabs tx2). tx_dirty it \<longrightarrow> (\<exists>w u u'. tx_work it = Some w \<and> heap_of db3 w = Some u \<and>
         snd (tabs db' ! tx_ent it) = w \<and> heap_of db' w = Some u' \<and> u' = u\<lparr>ver_id := cur_ver (mv db3) + 1, prev := prev u'\<rparr>)"
      and un: "\<forall>i<length (tabs db3). (\<forall>it\<in>set (tx_tabs tx2). tx_dirty it \<longrightarrow> tx_ent it \<noteq> i) \<longrightarrow> tabs db' ! i = tabs db3 ! i \<and>
         same_but_prev (heap_of db' (snd (tabs db3 ! i))) (heap_of db3 (snd (tabs db3 ! i)))"
      using commit_ok [OF ok3 nm _ nw3, of "io 0"] alone(2) by blast
    obtain u' where u: "snd (tabs db' ! j) = ?w" "heap_of db' ?w = Some u'" "u' = c'\<lparr>ver_id := cur_ver (mv db) + 1, prev := prev u'\<rparr>"
      using wr cv2 by (auto simp: tt db3_def)
    have ru: "rows u' = rows c'" "ver_id u' = cur_ver (mv db) + 1" by (subst u(3), simp)+
    have "tabs db' ! i = tabs db0 ! i \<and> same_but_prev (heap_of db' (snd (tabs db0 ! i))) (heap_of db0 (snd (tabs db0 ! i)))"
      if i: "i < length (tabs db0)" "i \<noteq> j" for i
      using un i heads2 [OF i(1)] wh [OF i(1)] by (auto simp: tt db3_def h2)
    moreover have "db_exec env io db s = Some (True, res, db')" using loop True k(1) by simp
    moreover have "length (snaps (mv db')) = length (snaps (mv db))"
      using k(4) cv2 sn one by (simp add: db3_def mv_gc_def length_remove1)
    ultimately show ?thesis using k(2,3,5,6) u(1,2) ru e(2,3) True cv2 h2
      by (intro exI [of _ True] exI [of _ res] exI [of _ db'] exI [of _ cs']) (simp add: db3_def)
  next
    case False
    obtain tx' db' cs' where a: "db_abort db2 tx2 = Some (True, tx', db')" "db_inv db' cs'" "tabs db' = tabs db2"
      "mv db' = mv_gc (mv db2) (tx_snap tx2)" "max_sql db' = max_sql db2"
      "\<forall>i<length (tabs db2). same_but_prev (heap_of db' (snd (tabs db2 ! i))) (heap_of db2 (snd (tabs db2 ! i)))"
      using abort_ok [OF inv2 tx2] by blast
    have "db_abort db3 tx2 = Some (True, tx', db')" unfolding db3_def using abort_work_heap [OF tx2 wm] a(1) by simp
    then have "db_exec env io db s = Some (False, res, db')" using loop False e(4) by simp
    moreover have "length (snaps (mv db')) = length (snaps (mv db))" "cur_ver (mv db') = cur_ver (mv db)"
      using a(4) cv2 sn one by (simp_all add: mv_gc_def length_remove1)
    moreover have "same_heads db0 db'" using a(3,6) h2 heads2 by (simp add: same_heads_def)
    ultimately show ?thesis using a(2,3,5) e(2,4) False h2
      by (intro exI [of _ False] exI [of _ res] exI [of _ db'] exI [of _ cs']) simp
  qed
qed

subsection \<open>How the database evolves\<close>

text \<open>
  What any sequence of statements does to a database: it stays well formed, tables keep their places, the clock does not run
  backwards, and the newest version of a table is the old one or has a new number.
\<close>

definition evolves :: "db \<Rightarrow> db \<Rightarrow> bool" where
  "evolves db db' \<longleftrightarrow> (\<exists>cs. db_inv db' cs) \<and> length (snaps (mv db')) + 1 < 2 ^ 64 \<and> max_sql db' = max_sql db \<and>
     cur_ver (mv db) \<le> cur_ver (mv db') \<and> (\<forall>name j. get_ent db name = Some j \<longrightarrow> get_ent db' name = Some j) \<and>
     (\<forall>j<length (tabs db). same_but_prev (heap_of db' (snd (tabs db' ! j))) (heap_of db (snd (tabs db ! j))) \<or>
        cur_ver (mv db) < ver_id (the (heap_of db' (snd (tabs db' ! j)))))  \<and> length (tabs db) \<le> length (tabs db')"

lemma evolves_trans:
  assumes "evolves a b" "evolves b c" shows "evolves a c"
proof -
  have "same_but_prev (heap_of c (snd (tabs c ! j))) (heap_of a (snd (tabs a ! j))) \<or>
      cur_ver (mv a) < ver_id (the (heap_of c (snd (tabs c ! j))))" if j: "j < length (tabs a)" for j
  proof -
    have jb: "j < length (tabs b)" using assms(1) j by (auto simp: evolves_def)
    consider "cur_ver (mv b) < ver_id (the (heap_of c (snd (tabs c ! j))))"
      | "same_but_prev (heap_of c (snd (tabs c ! j))) (heap_of b (snd (tabs b ! j)))"
      using assms(2) jb unfolding evolves_def by blast
    then show ?thesis
    proof cases
      case 1
      moreover have "cur_ver (mv a) \<le> cur_ver (mv b)" using assms(1) by (simp add: evolves_def)
      ultimately show ?thesis using order.strict_trans1 by blast
    next
      case 2
      obtain cs where inv: "db_inv b cs" using assms(1) by (auto simp: evolves_def)
      have "heap_of b (snd (tabs b ! j)) \<noteq> None" by (rule head_visible [OF inv jb]) simp
      then have "heap_of c (snd (tabs c ! j)) \<noteq> None" using same_but_prev_None [OF 2] by simp
      then have v: "ver_id (the (heap_of c (snd (tabs c ! j)))) = ver_id (the (heap_of b (snd (tabs b ! j))))"
        by (rule same_but_prev_ver [OF 2])
      consider "same_but_prev (heap_of b (snd (tabs b ! j))) (heap_of a (snd (tabs a ! j)))"
        | "cur_ver (mv a) < ver_id (the (heap_of b (snd (tabs b ! j))))" using assms(1) j unfolding evolves_def by blast
      then show ?thesis by cases (use same_but_prev_trans [OF 2] v in simp_all)
    qed
  qed
  moreover have "max_sql c = max_sql a" "cur_ver (mv a) \<le> cur_ver (mv c)" "length (tabs a) \<le> length (tabs c)"
  proof -
    have "max_sql b = max_sql a" "max_sql c = max_sql b" "cur_ver (mv a) \<le> cur_ver (mv b)" "cur_ver (mv b) \<le> cur_ver (mv c)"
      "length (tabs a) \<le> length (tabs b)" "length (tabs b) \<le> length (tabs c)"
      using assms unfolding evolves_def by blast+
    then show "max_sql c = max_sql a" "cur_ver (mv a) \<le> cur_ver (mv c)" "length (tabs a) \<le> length (tabs c)" by simp_all
  qed
  moreover have "\<forall>name j. get_ent a name = Some j \<longrightarrow> get_ent c name = Some j" using assms unfolding evolves_def by blast
  ultimately show ?thesis using assms(2) unfolding evolves_def by blast
qed

lemma evolves_extends:
  assumes inv: "db_inv db cs" and ext: "extends db cs db' cs'" and small: "length (snaps (mv db)) + 1 < 2 ^ 64"
  shows "evolves db db'"
proof -
  obtain new where new: "tabs db' = tabs db @ new" using ext by (auto simp: extends_def)
  have "get_ent db' name = Some j" if "get_ent db name = Some j" for name j
    using that new index_from_append_Some [of 0 _ "tabs db"] by (simp add: get_ent_def)
  moreover have "heap_of db' (snd (tabs db ! j)) = heap_of db (snd (tabs db ! j))" if "j < length (tabs db)" for j
    using ext head_old [OF inv that] by (auto simp: extends_def)
  moreover have "db_inv db' cs'" "mv db' = mv db" "max_sql db' = max_sql db" using ext by (auto simp: extends_def)
  ultimately show ?thesis using new small by (auto simp: evolves_def nth_append)
qed

lemma evolves_heads:
  assumes "db_inv db' cs" "same_heads db db'" "max_sql db' = max_sql db" "cur_ver (mv db') = cur_ver (mv db)"
    and "length (snaps (mv db')) + 1 < 2 ^ 64"
  shows "evolves db db'"
  using assms by (auto simp: evolves_def same_heads_def get_ent_def)

lemma evolves_write:
  assumes inv': "db_inv db' cs" and names: "map fst (tabs db') = map fst (tabs db)" "max_sql db' = max_sql db"
    and small: "length (snaps (mv db')) + 1 < 2 ^ 64"
    and t: "heap_of db' (snd (tabs db' ! j)) = Some t'" "cur_ver (mv db) < ver_id t'" "cur_ver (mv db) \<le> cur_ver (mv db')"
    and others: "\<forall>i<length (tabs db). i \<noteq> j \<longrightarrow> tabs db' ! i = tabs db ! i \<and>
      same_but_prev (heap_of db' (snd (tabs db ! i))) (heap_of db (snd (tabs db ! i)))"
  shows "evolves db db'"
proof -
  have "same_but_prev (heap_of db' (snd (tabs db' ! i))) (heap_of db (snd (tabs db ! i))) \<or>
      cur_ver (mv db) < ver_id (the (heap_of db' (snd (tabs db' ! i))))" if "i < length (tabs db)" for i
    using others t(1,2) that by (cases "i = j") auto
  moreover have "length (tabs db') = length (tabs db)" using arg_cong [OF names(1), of length] by simp
  ultimately show ?thesis using inv' names(2) get_ent_names [OF names(1)] small t(3) by (auto simp: evolves_def)
qed

text \<open>Statements on unknown tables.\<close>

lemma need_ent_None: "need_ent db name = Some (None, db0) \<Longrightarrow> db0 = db"
  by (auto simp: need_ent_def alloc_def add_ent_def Let_def split: option.splits)

lemma select_unknown:
  assumes inv: "db_inv db cs" and small: "length (snaps (mv db)) + 1 < 2 ^ 64"
    and st: "parse_ok db s res_clr = Inr st" "stmt_type st = STMT_SELECT" "need_ent db (table_name st) = Some (None, db0)"
  shows "\<exists>res db'. db_exec env io db s = Some (False, res, db') \<and> evolves db db'"
proof -
  define m where "m = snd (mv_snap (mv db))"
  have snap: "db_snap db = (cur_ver (mv db), db\<lparr>mv := m\<rparr>)" by (simp add: db_snap_def m_def mv_snap_def Let_def)
  have inv': "db_inv (db\<lparr>mv := m\<rparr>) cs" unfolding m_def by (rule db_inv_snap [OF inv small])
  have ent: "need_ent (db\<lparr>mv := m\<rparr>) (table_name st) = Some (None, db\<lparr>mv := m\<rparr>)"
    using st(3) need_ent_None [OF st(3)] by (simp add: need_ent_mv)
  have p: "parse_ok (db\<lparr>mv := m\<rparr>) s res_clr = Inr st" using st(1) by (simp add: parse_ok_def)
  obtain db' cs' where d: "db_done (db\<lparr>mv := m\<rparr>) (cur_ver (mv db)) = Some db'" "db_inv db' cs'" "tabs db' = tabs db" "max_sql db' = max_sql db"
    "mv db' = mv_gc m (cur_ver (mv db))"
    "\<forall>i<length (tabs db). same_but_prev (heap_of db' (snd (tabs db ! i))) (heap_of db (snd (tabs db ! i)))"
    using release_ok [OF inv', of "cur_ver (mv db)"] unfolding db_done_def by auto
  have one: "cur_ver (mv db) \<noteq> 0" using inv by (auto simp: db_inv_def mv_inv_def)
  have "db_exec env io db s = Some (False, res_err res_clr ''BAD_SQL'' ''unknown table'', db')"
    using st(1,2) snap p ent d(1) by (simp add: db_exec_def db_read_def do_read_def)
  moreover have "evolves db db'"
    by (rule evolves_heads [OF d(2)])
      (use d(3-6) one small in \<open>simp_all add: same_heads_def mv_gc_def m_def mv_snap_def Let_def length_remove1\<close>)
  ultimately show ?thesis by blast
qed

lemma write_unknown:
  assumes inv: "db_inv db cs" and small: "length (snaps (mv db)) + 1 < 2 ^ 64"
    and st: "parse_ok db s res_clr = Inr st" "stmt_type st \<noteq> STMT_SELECT" "need_ent db (table_name st) = Some (None, db0)"
  shows "\<exists>res db'. db_exec env io db s = Some (False, res, db') \<and> evolves db db'"
proof -
  obtain tx db1 where b: "db_begin db = (tx, db1)" by (cases "db_begin db")
  have b1: "db1 = db\<lparr>mv := snd (mv_snap (mv db))\<rparr>" "tx = \<lparr>tx_snap = cur_ver (mv db), tx_tabs = [], tx_done = False\<rparr>"
    using b by (auto simp: db_begin_def mv_snap_def Let_def)
  have ok1: "db_inv db1 cs" "tx_ok db1 cs tx" using begin_ok [OF inv small b] by blast+
  have ent: "need_ent db1 (table_name st) = Some (None, db1)" using st(3) need_ent_None [OF st(3)] by (simp add: b1 need_ent_mv)
  then have v: "tx_view db1 tx (table_name st) = Some (None, tx, db1)" by (simp add: tx_view_def tx_tab_def b1(2))
  obtain tx' db' cs' where a: "db_abort db1 tx = Some (True, tx', db')" "db_inv db' cs'" "tabs db' = tabs db1"
    "mv db' = mv_gc (mv db1) (tx_snap tx)" "max_sql db' = max_sql db1"
    "\<forall>i<length (tabs db1). same_but_prev (heap_of db' (snd (tabs db1 ! i))) (heap_of db1 (snd (tabs db1 ! i)))"
    using abort_ok [OF ok1] by blast
  have one: "cur_ver (mv db) \<noteq> 0" using inv by (auto simp: db_inv_def mv_inv_def)
  have "db_exec env io db s = Some (False, res_err res_clr ''BAD_SQL'' ''unknown table'', db')"
    using st(1,2) b v a(1) by (simp add: db_exec_def Let_def)
  moreover have "evolves db db'"
    by (rule evolves_heads [OF a(2)])
      (use a(3-6) one small in \<open>simp_all add: b1 same_heads_def mv_gc_def mv_snap_def Let_def length_remove1\<close>)
  ultimately show ?thesis by blast
qed

text \<open>A statement whose effect the specification of the writing statements describes, before the clock wraps around.\<close>

definition admissible :: "db \<Rightarrow> string \<Rightarrow> bool" where
  "admissible db s \<longleftrightarrow> (\<forall>st j db0 t. parse_ok db s res_clr = Inr st \<longrightarrow> stmt_type st \<noteq> STMT_SELECT \<longrightarrow>
     need_ent db (table_name st) = Some (Some j, db0) \<longrightarrow> heap_of db0 (snd (tabs db0 ! j)) = Some t \<longrightarrow>
     in_scope t st \<and> cur_ver (mv db) \<noteq> - 1)"

lemma db_exec_evolves:
  assumes inv: "db_inv db cs" and small: "length (snaps (mv db)) + 1 < 2 ^ 64"
    and alone: "\<And>n d. env n d = d" "\<And>n k. io n k = Io_ok" and ad: "admissible db s"
    and r: "db_exec env io db s = Some (ok, res, db')"
  shows "evolves db db'"
proof (cases "parse_ok db s res_clr")
  case (Inl e)
  then have "db' = db" using r by (simp add: db_exec_def)
  then show ?thesis using evolves_heads [OF inv, of db] small by (simp add: same_heads_def)
next
  case (Inr st)
  have sel: "need_ent db (table_name st) \<noteq> None"
  proof
    assume none: "need_ent db (table_name st) = None"
    then have n1: "need_ent (db\<lparr>mv := m\<rparr>) (table_name st) = None" for m by (simp add: need_ent_mv)
    have "db_exec env io db s = None"
    proof (cases "stmt_type st = STMT_SELECT")
      case True
      have "parse_ok (db\<lparr>mv := m\<rparr>) s res_clr = Inr st" for m using Inr by (simp add: parse_ok_def)
      then show ?thesis using True Inr n1 by (simp add: db_exec_def db_snap_def mv_snap_def Let_def db_read_def do_read_def)
    next
      case False
      then show ?thesis using Inr n1 by (simp add: db_exec_def db_begin_def mv_snap_def Let_def tx_view_def tx_tab_def)
    qed
    then show False using r by simp
  qed
  then obtain e db0 where n: "need_ent db (table_name st) = Some (e, db0)" by auto
  show ?thesis
  proof (cases e)
    case None
    have "\<exists>res db'. db_exec env io db s = Some (False, res, db') \<and> evolves db db'"
      using select_unknown [OF inv small Inr _ n [unfolded None]] write_unknown [OF inv small Inr _ n [unfolded None]]
      by (cases "stmt_type st = STMT_SELECT") blast+
    then show ?thesis using r by auto
  next
    case (Some j)
    obtain cs0 where x: "extends db cs db0 cs0" "j < length (tabs db0)" using need_ent_ok [OF inv n] Some by blast
    have e0: "evolves db db0" by (rule evolves_extends [OF inv x(1) small])
    have inv0: "db_inv db0 cs0" and mv0: "mv db0 = mv db" using x(1) by (auto simp: extends_def)
    have "evolves db0 db'"
    proof (cases "stmt_type st = STMT_SELECT")
      case True
      obtain t db2 cs2 where "heap_of db0 (snd (tabs db0 ! j)) = Some t" and s: "\<forall>env io. db_exec env io db s = map_option (\<lambda>(ok, res). (ok, res, db2)) (sel_do t st (res_clr\<lparr>snap_id := cur_ver (mv db)\<rparr>))"
        "db_inv db2 cs2" "same_heads db0 db2" "max_sql db2 = max_sql db0" "cur_ver (mv db2) = cur_ver (mv db)"
        "length (snaps (mv db2)) = length (snaps (mv db))"
        using select_ok [OF inv small Inr True n [unfolded Some]] .
      have "db' = db2" using r s(1) by auto
      then show ?thesis using evolves_heads [OF s(2,3,4)] s(5,6) mv0 small by simp
    next
      case False
      obtain t where t: "heap_of db0 (snd (tabs db0 ! j)) = Some t" using head_visible [OF inv0 x(2)] by blast
      have sc: "in_scope t st" and nw: "cur_ver (mv db) \<noteq> - 1" using ad Inr False n Some t unfolding admissible_def by blast+
      obtain ok' res' db2 cs2 where w: "db_exec env io db s = Some (ok', res', db2)" "db_inv db2 cs2"
        "map fst (tabs db2) = map fst (tabs db0)" "max_sql db2 = max_sql db0" "length (snaps (mv db2)) = length (snaps (mv db))"
        and yes: "ok' \<Longrightarrow> cur_ver (mv db2) = cur_ver (mv db) + 1 \<and>
          (\<exists>t'. heap_of db2 (snd (tabs db2 ! j)) = Some t' \<and> ver_id t' = cur_ver (mv db) + 1) \<and>
          (\<forall>i<length (tabs db0). i \<noteq> j \<longrightarrow> tabs db2 ! i = tabs db0 ! i \<and>
             same_but_prev (heap_of db2 (snd (tabs db0 ! i))) (heap_of db0 (snd (tabs db0 ! i))))"
        and no: "\<not> ok' \<Longrightarrow> same_heads db0 db2 \<and> cur_ver (mv db2) = cur_ver (mv db)"
        using exec_write_ok [OF inv small Inr n [unfolded Some] t sc, of env io] alone nw by blast
      have db2: "db2 = db'" using r w(1) by simp
      have lt: "cur_ver (mv db0) < cur_ver (mv db) + 1" using less_Suc_word [OF nw] mv0 by simp
      have sm: "length (snaps (mv db2)) + 1 < 2 ^ 64" using w(5) small by simp
      show ?thesis
      proof (cases ok')
        case True
        from yes [OF this] obtain t' where y: "cur_ver (mv db2) = cur_ver (mv db) + 1"
          "heap_of db2 (snd (tabs db2 ! j)) = Some t'" "ver_id t' = cur_ver (mv db) + 1"
          "\<forall>i<length (tabs db0). i \<noteq> j \<longrightarrow> tabs db2 ! i = tabs db0 ! i \<and>
             same_but_prev (heap_of db2 (snd (tabs db0 ! i))) (heap_of db0 (snd (tabs db0 ! i)))" by blast
        have "evolves db0 db2"
          by (rule evolves_write [OF w(2-4) sm y(2) _ _ y(4)]) (use y(1,3) lt in simp_all)
        then show ?thesis by (simp only: db2)
      next
        case False
        with no have "same_heads db0 db2" "cur_ver (mv db2) = cur_ver (mv db0)" using mv0 by simp_all
        from evolves_heads [OF w(2) this(1) w(4) this(2) sm] show ?thesis by (simp only: db2)
      qed
    qed
    then show ?thesis by (rule evolves_trans [OF e0])
  qed
qed

lemma tab_ver_evolves:
  assumes inv: "db_inv db cs" and small: "length (snaps (mv db)) + 1 < 2 ^ 64" and r: "db_tab_ver db name = Some (v, db')"
  shows "evolves db db'"
proof (cases "name = []")
  case True
  then show ?thesis using r evolves_heads [OF inv, of db] small by (simp add: db_tab_ver_def same_heads_def)
next
  case False
  then obtain e where n: "need_ent db name = Some (e, db')" using r by (auto simp: db_tab_ver_def bind_eq_Some_conv split: option.splits)
  obtain cs' where "extends db cs db' cs'" using need_ent_ok [OF inv n] by blast
  then show ?thesis by (rule evolves_extends [OF inv _ small])
qed

subsection \<open>Reading again\<close>

text \<open>A successful SELECT that is run again gives the same result.\<close>

lemma select_again:
  assumes inv: "db_inv db cs" and small: "length (snaps (mv db)) + 1 < 2 ^ 64"
    and st: "parse_statement s = Some st" "stmt_type st = STMT_SELECT" and r: "db_exec env io db s = Some (True, res, db')"
  obtains j t where "parse_ok db' s res_clr = Inr st" "get_ent db' (table_name st) = Some j" "heap_of db' (snd (tabs db' ! j)) = Some t"
    "sel_do t st (label (cur_ver (mv db')) res_clr) = Some (True, res)" "\<forall>env io. \<exists>d. db_exec env io db' s = Some (True, res, d)"
proof -
  have p: "parse_ok db s res_clr = Inr st"
    using r st(1) by (auto simp: db_exec_def parse_ok_def split: if_splits)
  obtain e db0 where n: "need_ent db (table_name st) = Some (e, db0)"
  proof (cases "need_ent db (table_name st)")
    case None
    have "parse_ok (db\<lparr>mv := m\<rparr>) s res_clr = Inr st" for m using p by (simp add: parse_ok_def)
    then show ?thesis using r p st(2) None
      by (simp add: db_exec_def db_snap_def mv_snap_def Let_def db_read_def do_read_def need_ent_mv)
  qed auto
  then obtain j where j: "e = Some j" using select_unknown [OF inv small p st(2), of db0 env io] r by (cases e) auto
  obtain t db2 cs2 where t: "heap_of db0 (snd (tabs db0 ! j)) = Some t"
    and ex: "\<forall>env io. db_exec env io db s = map_option (\<lambda>(ok, res). (ok, res, db2)) (sel_do t st (res_clr\<lparr>snap_id := cur_ver (mv db)\<rparr>))"
    and d: "db_inv db2 cs2" "same_heads db0 db2" "max_sql db2 = max_sql db0" "cur_ver (mv db2) = cur_ver (mv db)"
      "length (snaps (mv db2)) = length (snaps (mv db))"
    using select_ok [OF inv small p st(2) n [unfolded j]] .
  have db2: "db2 = db'" and sel: "sel_do t st (label (cur_ver (mv db)) res_clr) = Some (True, res)" using r ex by (auto simp: label_def)
  note n' = need_ent_loaded [OF n [unfolded j]]
  have g: "get_ent db' (table_name st) = Some j" using n'(1) d(2) unfolding db2 by (simp add: get_ent_def same_heads_def)
  have jl: "j < length (tabs db0)" using get_ent_Some [OF n'(1)] by blast
  have sb: "same_but_prev (heap_of db' (snd (tabs db' ! j))) (Some t)" using d(2) jl t unfolding db2 same_heads_def by metis
  then obtain t' where t': "heap_of db' (snd (tabs db' ! j)) = Some t'" by (auto simp: same_but_prev_def)
  have sel': "sel_do t' st (label (cur_ver (mv db')) res_clr) = Some (True, res)"
    using sel_do_same [OF sb [unfolded t']] sel d(4) db2 by simp
  have "max_sql db0 = max_sql db" using need_ent_ok [OF inv n] by (auto simp: extends_def)
  then have p': "parse_ok db' s res_clr = Inr st" using p d(3) db2 by (simp add: parse_ok_def)
  have inv': "db_inv db' cs2" and sm': "length (snaps (mv db')) + 1 < 2 ^ 64" using d(1,5) small db2 by simp_all
  have need': "need_ent db' (table_name st) = Some (Some j, db')" using g by (simp add: need_ent_def)
  obtain u db3 where u: "heap_of db' (snd (tabs db' ! j)) = Some u"
    "\<forall>env io. db_exec env io db' s = map_option (\<lambda>(ok, res). (ok, res, db3)) (sel_do u st (res_clr\<lparr>snap_id := cur_ver (mv db')\<rparr>))"
    using select_ok [OF inv' sm' p' st(2) need'] by metis
  have "\<forall>env io. \<exists>d. db_exec env io db' s = Some (True, res, d)" using u sel' t' by (simp add: label_def)
  then show thesis using that [OF p' g t' sel'] by blast
qed

end
