(* ===== verification/Db_Props.thy ===== *)
theory Db_Props
  imports Db_Tx Csv_Props
begin

text \<open>
  The properties of the database: snapshot isolation, atomic commits, refused commits, aborts and
  garbage collection; and three runs in which a version or a table entry is used after it is gone.
\<close>

subsection \<open>A small database\<close>

definition demo_db :: db where
  "demo_db = db_open ''d'' 4096 16 demo_disk"

lemma db_inv_open: "db_inv (db_open dir a b d) []"
  by (simp add: db_inv_def db_open_def chains_ok_def versions_ok_def covered_def mv_inv_new) (simp add: mv_new_def)

text \<open>A transaction with a working copy of the table, while another snapshot is live.\<close>

definition demo_begin :: "dbtx \<times> db" where
  "demo_begin = db_begin (snd (db_snap demo_db))"

definition demo_view :: "dbtx \<times> db" where
  "demo_view = snd (the (tx_view (snd demo_begin) (fst demo_begin) ''users''))"

definition demo_work :: "dbtx \<times> db" where
  "demo_work = snd (the (tx_make_work (snd demo_view) (fst demo_view) 0))"

lemma demo_work_ok:
  "\<exists>cs. db_inv (snd demo_work) cs \<and> tx_ok (snd demo_work) cs (fst demo_work)"
proof -
  have small: "length (snaps (mv demo_db)) + 1 < 2 ^ 64" "length (snaps (mv (snd (db_snap demo_db)))) + 1 < 2 ^ 64"
    by (simp_all add: demo_db_def db_open_def db_snap_def mv_snap_def mv_new_def Let_def)
  have 1: "db_inv (snd (db_snap demo_db)) []"
    using db_inv_snap [OF db_inv_open, of "''d''" 4096 16 demo_disk] small(1) by (simp add: demo_db_def db_snap_def case_prod_beta)
  have 2: "db_inv (snd demo_begin) [] \<and> tx_ok (snd demo_begin) [] (fst demo_begin)"
    using begin_ok [OF 1 small(2), of "fst demo_begin" "snd demo_begin"] by (simp add: demo_begin_def)
  have "case tx_view (snd demo_begin) (fst demo_begin) ''users'' of Some (Some i, _, _) \<Rightarrow> i = 0 | _ \<Rightarrow> False" by code_simp
  then have v: "tx_view (snd demo_begin) (fst demo_begin) ''users'' = Some (Some 0, fst demo_view, snd demo_view)"
    by (auto simp: demo_view_def split: option.splits)
  moreover have "tx_tabs (fst demo_begin) = []" by code_simp
  ultimately obtain cs where 3: "db_inv (snd demo_view) cs" "tx_ok (snd demo_view) cs (fst demo_view)" "0 < length (tx_tabs (fst demo_view))"
    using tx_view_ok [OF conjunct1 [OF 2] conjunct2 [OF 2] v] by (auto simp: extends_def)
  from tx_make_work_ok [OF this] show ?thesis by (auto simp: demo_work_def)
qed

text \<open>What the properties need of the transaction, read off one evaluation of it.\<close>

lemma demo_work_state:
  "\<not> moved (snd demo_work) (tx_tabs (fst demo_work)) \<and> cur_ver (mv (snd demo_work)) = 1 \<and> tx_snap (fst demo_work) = 1 \<and>
   snaps (mv (snd demo_work)) = [1, 1] \<and> map fst (tabs (snd demo_work)) = [''users''] \<and> max_sql (snd demo_work) = 4096 \<and>
   (\<exists>it. tx_tabs (fst demo_work) = [it] \<and> tx_dirty it \<and> tx_ent it = 0 \<and> tx_work it = Some 1)"
proof -
  have "case demo_work of (tx, db) \<Rightarrow> \<not> moved db (tx_tabs tx) \<and> cur_ver (mv db) = 1 \<and> tx_snap tx = 1 \<and> snaps (mv db) = [1, 1] \<and>
      map fst (tabs db) = [''users''] \<and> max_sql db = 4096 \<and>
      map (\<lambda>it. (tx_dirty it, tx_ent it, tx_work it)) (tx_tabs tx) = [(True, 0, Some 1)]" by code_simp
  then show ?thesis by (auto simp: case_prod_beta map_eq_Cons_conv)
qed

lemma demo_work_tables: "length (tabs (snd demo_work)) = 1"
  using demo_work_state by (metis length_map list.size(3,4) One_nat_def add_0)

lemma demo_work_items:
  obtains it where "tx_tabs (fst demo_work) = [it]" "tx_dirty it" "tx_ent it = 0" "tx_work it = Some 1"
  using demo_work_state by blast

text \<open>The table that a read can reach is still there.\<close>

lemma visible_allocated:
  assumes "db_inv db cs" "j < length (tabs db)" "tab_vis db (snd (tabs db ! j)) s = Some (Some a)"
  shows "heap_of db a \<noteq> None"
proof -
  have "List.find (sees (heap_of db) s) (cs ! j) = Some a" using tab_vis_db [OF assms(1,2)] assms(3) by simp
  then have "a \<in> set (cs ! j)" by (auto simp: find_Some_iff)
  then show ?thesis using chain_heap [OF db_inv_chain [OF assms(1,2)]] by simp
qed

lemma read_same:
  assumes inv: "db_inv db cs" and same: "\<forall>j<length (tabs db). sees_same_version db db' j s"
    and cfg: "max_sql db' = max_sql db" "map fst (tabs db') = map fst (tabs db)"
    and st: "parse_ok db q res_clr = Inr st" "stmt_type st = STMT_SELECT" "get_ent db (table_name st) \<noteq> None"
  shows "answer (db_read db' s q) = answer (db_read db s q)"
proof -
  obtain j where j: "get_ent db (table_name st) = Some j" using st(3) by blast
  have jl: "j < length (tabs db)" using get_ent_Some [OF j] by simp
  show ?thesis unfolding db_read_def
    by (rule do_read_same [OF _ cfg st(1,2) j]) (use same jl visible_allocated [OF inv jl] in auto)
qed

lemma same_but_prev_rows: "same_but_prev x y \<Longrightarrow> y \<noteq> None \<Longrightarrow> rows (the x) = rows (the y)"
  by (cases x; cases y) (auto simp: same_but_prev_def dest: arg_cong [of _ _ rows])

subsection \<open>Snapshot isolation\<close>

text \<open>
  C1. Snapshot isolation: a successful commit, with the garbage collection it does, does not change what
  any other live snapshot reads. A SELECT on a loaded table returns the same rows after it as before.
\<close>

theorem commit_keeps_reads:
  assumes "db_inv db cs" "tx_ok db cs tx" "\<not> moved db (tx_tabs tx)" "\<forall>j. io j = Io_ok" "cur_ver (mv db) \<noteq> - 1"
    and "s \<in> set (remove1 (tx_snap tx) (snaps (mv db)))"
    and "parse_ok db q res_clr = Inr st" "stmt_type st = STMT_SELECT" "get_ent db (table_name st) \<noteq> None"
  shows "\<exists>tx' db'. db_commit db tx io = Some (True, tx', db') \<and> answer (db_read db' s q) = answer (db_read db s q)"
proof -
  have nz: "tx_snap tx \<noteq> 0"
    using assms(1,2) by (auto simp: tx_ok_def db_inv_def mv_inv_def)
  obtain tx' db' cs' where c: "db_commit db tx io = Some (True, tx', db')" "snaps (mv db') = snaps (mv_gc (mv db) (tx_snap tx))"
    "map fst (tabs db') = map fst (tabs db)" "max_sql db' = max_sql db"
    "\<forall>s\<in>set (snaps (mv db')). \<forall>j<length (tabs db). sees_same_version db db' j s"
    using commit_ok [OF assms(1-3) _ assms(5), of io] assms(4) by blast
  have "s \<in> set (snaps (mv db'))" using assms(6) c(2) nz by (simp add: mv_gc_def)
  then show ?thesis using read_same [OF assms(1) _ c(4,3) assms(7-9)] c(1,5) by blast
qed

subsection \<open>Atomic commits\<close>

text \<open>The abstract state: the rows that the newest version of every table has.\<close>

definition head_rows :: "db \<Rightarrow> nat \<Rightarrow> row list" where
  "head_rows db j = rows (the (heap_of db (snd (tabs db ! j))))"

definition work_of :: "txtab list \<Rightarrow> nat \<Rightarrow> addr option" where
  "work_of its j = (case List.find (\<lambda>it. tx_dirty it \<and> tx_ent it = j) its of None \<Rightarrow> None | Some it \<Rightarrow> tx_work it)"

text \<open>
  C2. Commit refines one atomic update of all tables: afterwards every table that the transaction wrote has
  the rows of its working copy, every other table has the rows it had, the version clock has moved by one,
  and the invariant holds; the versions of the written tables carry the new version.
\<close>

theorem commit_refines_update:
  assumes "db_inv db cs" "tx_ok db cs tx" "\<not> moved db (tx_tabs tx)" "\<forall>j. io j = Io_ok" "cur_ver (mv db) \<noteq> - 1"
  shows "\<exists>tx' db' cs'. db_commit db tx io = Some (True, tx', db') \<and> db_inv db' cs' \<and>
    cur_ver (mv db') = cur_ver (mv db) + 1 \<and> length (tabs db') = length (tabs db) \<and>
    (\<forall>j<length (tabs db). head_rows db' j =
       (case work_of (tx_tabs tx) j of None \<Rightarrow> head_rows db j | Some w \<Rightarrow> rows (the (heap_of db w))))"
proof -
  obtain tx' db' cs' where c: "db_commit db tx io = Some (True, tx', db')" "db_inv db' cs'"
    "cur_ver (mv db') = cur_ver (mv db) + 1" "map fst (tabs db') = map fst (tabs db)"
    and wr: "\<forall>it\<in>set (tx_tabs tx). tx_dirty it \<longrightarrow> (\<exists>w t t'. tx_work it = Some w \<and> heap_of db w = Some t \<and>
       snd (tabs db' ! tx_ent it) = w \<and> heap_of db' w = Some t' \<and>
       t' = t\<lparr>ver_id := cur_ver (mv db) + 1, prev := prev t'\<rparr>)"
    and rest: "\<forall>j<length (tabs db). (\<forall>it\<in>set (tx_tabs tx). tx_dirty it \<longrightarrow> tx_ent it \<noteq> j) \<longrightarrow> tabs db' ! j = tabs db ! j \<and>
       same_but_prev (heap_of db' (snd (tabs db ! j))) (heap_of db (snd (tabs db ! j)))"
    using commit_ok [OF assms(1-3) _ assms(5), of io] assms(4) by blast
  have "head_rows db' j = (case work_of (tx_tabs tx) j of None \<Rightarrow> head_rows db j | Some w \<Rightarrow> rows (the (heap_of db w)))"
    if j: "j < length (tabs db)" for j
  proof (cases "List.find (\<lambda>it. tx_dirty it \<and> tx_ent it = j) (tx_tabs tx)")
    case None
    then have u: "\<forall>it\<in>set (tx_tabs tx). tx_dirty it \<longrightarrow> tx_ent it \<noteq> j" by (auto simp: find_None_iff)
    then have t: "tabs db' ! j = tabs db ! j" "same_but_prev (heap_of db' (snd (tabs db ! j))) (heap_of db (snd (tabs db ! j)))"
      using rest j by blast+
    have "heap_of db (snd (tabs db ! j)) \<noteq> None" using chain_heap [OF db_inv_chain [OF assms(1) j]]
        chain_head [OF db_inv_chain [OF assms(1) j]] by fastforce
    then show ?thesis using t None by (simp add: head_rows_def work_of_def same_but_prev_rows)
  next
    case (Some it)
    then have it: "it \<in> set (tx_tabs tx)" "tx_dirty it" "tx_ent it = j" by (auto simp: find_Some_iff)
    then obtain w t t' where w: "tx_work it = Some w" "heap_of db w = Some t" "snd (tabs db' ! j) = w"
      "heap_of db' w = Some t'" "t' = t\<lparr>ver_id := cur_ver (mv db) + 1, prev := prev t'\<rparr>" using wr by metis
    have "rows t' = rows t" by (subst w(5)) simp
    then show ?thesis using w(1-4) Some by (simp add: head_rows_def work_of_def)
  qed
  moreover have "length (tabs db') = length (tabs db)" using c(4) by (metis length_map)
  ultimately show ?thesis using c(1-3) by blast
qed

lemma demo_commit_conditions:
  "\<not> moved (snd demo_work) (tx_tabs (fst demo_work))" "cur_ver (mv (snd demo_work)) \<noteq> - 1"
  "1 \<in> set (remove1 (tx_snap (fst demo_work)) (snaps (mv (snd demo_work))))"
  using demo_work_state by simp_all

theorem commit_keeps_reads_witness:
  "\<exists>tx' db'. db_commit (snd demo_work) (fst demo_work) (\<lambda>_. Io_ok) = Some (True, tx', db') \<and>
     answer (db_read db' 1 ''SELECT * FROM users'') = answer (db_read (snd demo_work) 1 ''SELECT * FROM users'')"
proof -
  obtain cs where cs: "db_inv (snd demo_work) cs" "tx_ok (snd demo_work) cs (fst demo_work)" using demo_work_ok by blast
  have "case demo_work of (tx, db) \<Rightarrow> (case parse_ok db ''SELECT * FROM users'' res_clr of Inl _ \<Rightarrow> False
      | Inr st \<Rightarrow> stmt_type st = STMT_SELECT \<and> get_ent db (table_name st) \<noteq> None)" by code_simp
  then have "case parse_ok (snd demo_work) ''SELECT * FROM users'' res_clr of Inl _ \<Rightarrow> False
      | Inr st \<Rightarrow> stmt_type st = STMT_SELECT \<and> get_ent (snd demo_work) (table_name st) \<noteq> None" by (simp add: case_prod_beta)
  then obtain st where "parse_ok (snd demo_work) ''SELECT * FROM users'' res_clr = Inr st" "stmt_type st = STMT_SELECT"
    "get_ent (snd demo_work) (table_name st) \<noteq> None" by (auto split: sum.splits)
  then show ?thesis
    using commit_keeps_reads [OF cs demo_commit_conditions(1) _ demo_commit_conditions(2,3), of "\<lambda>_. Io_ok"] by simp
qed

theorem commit_refines_update_witness:
  "\<exists>tx' db'. db_commit (snd demo_work) (fst demo_work) (\<lambda>_. Io_ok) = Some (True, tx', db') \<and>
     head_rows db' 0 = rows (the (heap_of (snd demo_work) 1))"
proof -
  obtain cs where cs: "db_inv (snd demo_work) cs" "tx_ok (snd demo_work) cs (fst demo_work)" using demo_work_ok by blast
  have "work_of (tx_tabs (fst demo_work)) 0 = Some 1" "0 < length (tabs (snd demo_work))"
    using demo_work_tables by (auto intro: demo_work_items simp: work_of_def)
  then show ?thesis
    using commit_refines_update [OF cs demo_commit_conditions(1) _ demo_commit_conditions(2), of "\<lambda>_. Io_ok"] by fastforce
qed

subsection \<open>Refused commits\<close>

text \<open>
  First committer wins: when two transactions wrote the same table and one of them commits, the other's
  commit is refused and changes nothing, whatever the operating system would answer. No update is lost.
\<close>

theorem second_writer_refused:
  assumes "db_inv db cs" "tx_ok db cs tx1" "tx_ok db cs tx2" "\<not> moved db (tx_tabs tx1)" "\<forall>j. io j = Io_ok"
    and "cur_ver (mv db) \<noteq> - 1"
    and "it1 \<in> set (tx_tabs tx1)" "tx_dirty it1" "it2 \<in> set (tx_tabs tx2)" "tx_dirty it2" "tx_ent it1 = tx_ent it2"
  shows "\<exists>tx' db'. db_commit db tx1 io = Some (True, tx', db') \<and> db_commit db' tx2 io2 = Some (False, tx2, db')"
proof -
  obtain tx' db' where c: "db_commit db tx1 io = Some (True, tx', db')" "map fst (tabs db') = map fst (tabs db)"
    "tabs_gen db' = tabs_gen db"
    and w: "\<exists>w. tx_work it1 = Some w \<and> snd (tabs db' ! tx_ent it1) = w"
    using commit_ok [OF assms(1,2,4) _ assms(6), of io] assms(5,7,8) by blast
  have len: "length (tabs db') = length (tabs db)" using c(2) by (metis length_map)
  obtain w where w: "tx_work it1 = Some w" "snd (tabs db' ! tx_ent it2) = w" using w assms(11) by auto
  have "w \<in> set (works (tx_tabs tx1))" using w(1) assms(7) by (force simp: works_def)
  then have out: "w \<notin> set (concat cs)" using assms(2) by (auto simp: tx_ok_def items_ok_def)
  have e2: "tx_ent it2 < length cs" using assms(3,9) db_inv_length [OF assms(1)] by (auto simp: tx_ok_def items_ok_def)
  have "List.find (sees (heap_of db) (tx_snap tx2)) (cs ! tx_ent it2) = Some (tx_base it2)" using assms(3,9) by (simp add: tx_ok_def)
  then have "tx_base it2 \<in> set (cs ! tx_ent it2)" by (auto simp: find_Some_iff)
  then have "tx_base it2 \<noteq> w" using out in_concat_nth [OF e2] by blast
  then have "commit_check db' (tx_tabs tx2) = Some False"
    using commit_check_stale [of "tx_tabs tx2" db' it2] assms(3,9,10) c(3) len w(2)
    by (auto simp: tx_ok_def items_ok_def)
  then have "db_commit db' tx2 io2 = Some (False, tx2, db')"
    using assms(3) by (simp add: db_commit_def tx_ok_def)
  then show ?thesis using c(1) by blast
qed

subsection \<open>Aborts and collection\<close>

text \<open>
  C14. Abort undoes a transaction: its working copies are freed, the tables and the files are those from
  before, and no other live snapshot reads anything else than before.
\<close>

theorem abort_undoes:
  assumes "db_inv db cs" "tx_ok db cs tx"
  shows "\<exists>tx' db' cs'. db_abort db tx = Some (True, tx', db') \<and> db_inv db' cs' \<and> tx_done tx' \<and>
    tabs db' = tabs db \<and> disk_of db' = disk_of db \<and> (\<forall>w\<in>set (works (tx_tabs tx)). heap_of db' w = None) \<and>
    (\<forall>s\<in>set (snaps (mv db')). \<forall>j<length (tabs db). sees_same_version db db' j s)"
proof -
  obtain tx' db' cs' where a: "db_abort db tx = Some (True, tx', db')" "db_inv db' cs'" "tabs db' = tabs db" "disk_of db' = disk_of db"
    "\<forall>w\<in>set (works (tx_tabs tx)). heap_of db' w = None"
    "\<forall>s\<in>set (snaps (mv db')). \<forall>j<length (tabs db). sees_same_version db db' j s"
    using abort_ok [OF assms] by blast
  moreover have "tx_done tx'" using a(1) assms(2) by (auto simp: db_abort_def tx_ok_def bind_eq_Some_conv)
  ultimately show ?thesis by blast
qed

theorem abort_undoes_witness:
  "\<exists>tx' db'. db_abort (snd demo_work) (fst demo_work) = Some (True, tx', db') \<and> heap_of db' 1 = None \<and>
     tabs db' = tabs (snd demo_work)"
proof -
  obtain cs where cs: "db_inv (snd demo_work) cs" "tx_ok (snd demo_work) cs (fst demo_work)" using demo_work_ok by blast
  have "works (tx_tabs (fst demo_work)) = [1]" by (rule demo_work_items) (simp add: works_def)
  then show ?thesis using abort_undoes [OF cs] by fastforce
qed



subsection \<open>Runs that go wrong\<close>

lemma free_chain_None: "free_chain n h p = Some h' \<Longrightarrow> h w = None \<Longrightarrow> h' w = None"
  by (induction n h p rule: free_chain.induct) (auto split: option.splits if_splits)

lemma cut_after_None: "cut_after n h keep = Some h' \<Longrightarrow> h w = None \<Longrightarrow> h' w = None"
  by (auto simp: cut_after_def split: option.splits dest: free_chain_None)

lemma prune_tab_None: "prune_tab n h a k = Some h' \<Longrightarrow> h w = None \<Longrightarrow> h' w = None"
  by (auto simp: prune_tab_def split: option.splits if_splits dest: cut_after_None)

lemma prune_all_freed_head: "h a = None \<Longrightarrow> a \<in> snd ` set es \<Longrightarrow> prune_all n h es k = None"
proof (induction es arbitrary: h)
  case (Cons e es)
  show ?case
  proof (cases "prune_tab n h (snd e) k")
    case (Some h')
    have "snd e \<noteq> a" using Some Cons.prems(1) by (auto simp: prune_tab_def cut_after_def split: if_splits)
    then show ?thesis using Cons.IH [of h'] prune_tab_None [OF Some, of a] Cons.prems Some by auto
  qed simp
qed simp

text \<open>
  C22. A commit whose save fails has already published its working copy, which the transaction still owns: the abort
  that follows in \<open>db_exec\<close> and \<open>db_batch\<close> frees the newest version of the table and then uses it.
\<close>

theorem failed_save_abort_uses_freed:
  assumes "db_inv db cs" "tx_ok db cs tx" "\<not> moved db (tx_tabs tx)" "tx_tabs tx = [it]" "tx_dirty it" "io 0 \<noteq> Io_ok"
  shows "\<exists>tx' db'. db_commit db tx io = Some (False, tx', db') \<and> db_abort db' tx' = None"
proof -
  obtain w t where w: "tx_work it = Some w" "heap_of db w = Some t" "tx_gen it = tabs_gen db" "tx_ent it < length (tabs db)"
    using assms(2,4,5) by (fastforce simp: tx_ok_def items_ok_def)
  define db1 where "db1 = db\<lparr>mv := snd (mv_bump (mv db))\<rparr>"
  define t' where "t' = t\<lparr>ver_id := fst (mv_bump (mv db)), prev := Some (snd (tabs db ! tx_ent it))\<rparr>"
  define db2 where "db2 = db1\<lparr>heap_of := (heap_of db)(w \<mapsto> t'), tabs := (tabs db)[tx_ent it := (fst (tabs db ! tx_ent it), w)],
    disk_of := snd (tab_save (root_dir db) (io 0) t' (disk_of db))\<rparr>"
  have "\<not> fst (tab_save (root_dir db) (io 0) t' (disk_of db))"
    using assms(6) by (cases "io 0") (simp_all add: tab_save_def Let_def)
  then have "commit_publish db1 (fst (mv_bump (mv db))) io 0 [it] = Some (False, [it], db2)"
    using assms(5) w by (simp add: deref_ent_def db1_def db2_def t'_def case_prod_beta Let_def)
  then have c: "db_commit db tx io = Some (False, tx, db2)"
    using commit_check_moved [of db cs "[it]"] assms(2-4)
    by (simp add: db_commit_def tx_ok_def db1_def case_prod_beta Let_def)
  have "(fst (tabs db ! tx_ent it), w) \<in> set (tabs db2)" using w(4) by (simp add: db2_def set_update_memI)
  then have "w \<in> snd ` set (tabs db2)" by force
  then have "prune_all n ((heap_of db2)(w := None)) (tabs db2) k = None" for n k by (intro prune_all_freed_head) simp_all
  then have "db_abort db2 tx = None"
    using assms(2,4) w(1) by (simp add: db_abort_def tx_ok_def free_tab_def gc_tabs_def gc_prune_def db2_def)
  then show ?thesis using c by blast
qed

theorem failed_save_abort_uses_freed_witness:
  "\<exists>tx' db'. db_commit (snd demo_work) (fst demo_work) (\<lambda>_. Rename_fails) = Some (False, tx', db') \<and> db_abort db' tx' = None"
proof -
  obtain cs where cs: "db_inv (snd demo_work) cs" "tx_ok (snd demo_work) cs (fst demo_work)" using demo_work_ok by blast
  obtain it where "tx_tabs (fst demo_work) = [it]" "tx_dirty it" by (rule demo_work_items)
  then show ?thesis using failed_save_abort_uses_freed [OF cs demo_commit_conditions(1), of it "\<lambda>_. Rename_fails"] by simp
qed

text \<open>
  C23. \<open>gc_tabs\<close> reads the clock before it takes the lock. When it read that no snapshot is live, and a reader took its
  snapshot and a writer committed before it goes on, it frees the version that the reader needs: the reader, who could see the table,
  is then told that the table does not exist.
\<close>

theorem stale_collection_loses_version:
  assumes "snaps (mv db0) = []" "db_inv db cs" "s \<in> set (snaps (mv db))" "j < length (tabs db)"
    and "s < ver_id (the (heap_of db (snd (tabs db ! j))))"
  shows "(\<exists>a. tab_vis db (snd (tabs db ! j)) s = Some (Some a)) \<and>
    (\<exists>db'. gc_prune db (gc_keep_id db0) = Some db' \<and> tabs db' = tabs db \<and> tab_vis db' (snd (tabs db ! j)) s = Some None)"
proof
  let ?a = "snd (tabs db ! j)"
  show "\<exists>a. tab_vis db ?a s = Some (Some a)"
    using visible_exists [OF assms(2,4,3)] tab_vis_db [OF assms(2,4)] by auto
  have k: "gc_keep_id db0 = 0" by (simp add: gc_keep_id_def mv_stat_def assms(1) Let_def)
  have co: "chains_ok (heap_of db) (tabs db) cs" "\<forall>as\<in>set cs. length as \<le> next_free db"
    using assms(2) db_inv_fuel(1) [OF assms(2)] by (auto simp: db_inv_def)
  have cj: "cs ! j \<in> set cs" using assms(4) db_inv_length [OF assms(2)] by simp
  obtain bs where bs: "cs ! j = ?a # bs" using chain_head [OF db_inv_chain [OF assms(2,4)]] by blast
  obtain h' where h': "prune_all (next_free db) (heap_of db) (tabs db) 0 = Some h'"
    "list_all2 (\<lambda>e as. chain h' (Some (snd e)) (kept (heap_of db) 0 as)) (tabs db) cs"
    "\<forall>as\<in>set cs. \<forall>x\<in>set (kept (heap_of db) 0 as). same_but_prev (h' x) (heap_of db x)"
    using prune_all_chains [OF co, of 0] by blast
  have ch: "chain h' (Some ?a) [?a]" using list_all2_nthD [OF h'(2) assms(4)] bs by (simp add: kept_def)
  have "same_but_prev (h' ?a) (heap_of db ?a)" using h'(3) cj bs by (force simp: kept_def)
  then have "ver_id (the (h' ?a)) = ver_id (the (heap_of db ?a))" using same_but_prev_ver chain_heap [OF ch] by simp
  then have "\<not> sees h' s ?a" using assms(5) by (simp add: sees_def)
  then have "tab_vis (db\<lparr>heap_of := h'\<rparr>) ?a s = Some None"
    using tab_vis_loop_chain [OF ch, of "Suc (next_free db)" s] by (simp add: tab_vis_def)
  then show "\<exists>db'. gc_prune db (gc_keep_id db0) = Some db' \<and> tabs db' = tabs db \<and> tab_vis db' ?a s = Some None"
    using h'(1) k by (simp add: gc_prune_def)
qed

definition demo_after :: db where
  "demo_after = snd (snd (the (db_commit (snd demo_work) (fst demo_work) (\<lambda>_. Io_ok))))"

theorem stale_collection_loses_version_witness:
  "\<exists>db'. gc_prune demo_after (gc_keep_id demo_db) = Some db' \<and> tab_vis db' (snd (tabs demo_after ! 0)) 1 = Some None"
proof -
  obtain cs where cs: "db_inv (snd demo_work) cs" "tx_ok (snd demo_work) cs (fst demo_work)" using demo_work_ok by blast
  obtain it where it: "it \<in> set (tx_tabs (fst demo_work))" "tx_dirty it" "tx_ent it = 0" by (rule demo_work_items) auto
  have sn: "snaps (mv_gc (mv (snd demo_work)) (tx_snap (fst demo_work))) = [1]" "cur_ver (mv (snd demo_work)) = 1"
    "length (tabs (snd demo_work)) = 1" using demo_work_state demo_work_tables by (simp_all add: mv_gc_def)
  obtain tx' db' cs' where c: "db_commit (snd demo_work) (fst demo_work) (\<lambda>_. Io_ok) = Some (True, tx', db')" "db_inv db' cs'"
    "snaps (mv db') = [1]" "map fst (tabs db') = map fst (tabs (snd demo_work))"
    and wr: "\<exists>w t t'. tx_work it = Some w \<and> heap_of (snd demo_work) w = Some t \<and> snd (tabs db' ! tx_ent it) = w \<and>
      heap_of db' w = Some t' \<and> t' = t\<lparr>ver_id := cur_ver (mv (snd demo_work)) + 1, prev := prev t'\<rparr>"
    using commit_ok [OF cs demo_commit_conditions(1) _ demo_commit_conditions(2), of "\<lambda>_. Io_ok"] it(1,2) sn(1) by metis
  have after: "demo_after = db'" using c(1) by (simp add: demo_after_def)
  obtain t t' where inv: "db_inv demo_after cs'" "snaps (mv demo_after) = [1]" "length (tabs demo_after) = 1"
    "heap_of demo_after (snd (tabs demo_after ! 0)) = Some t'" "t' = t\<lparr>ver_id := 2, prev := prev t'\<rparr>"
    using wr it(3) sn(2,3) c(2,3) arg_cong [OF c(4), of length] unfolding after by auto
  have "ver_id t' = 2" by (subst inv(5)) simp
  moreover have "snaps (mv demo_db) = []" by (simp add: demo_db_def db_open_def mv_new_def)
  ultimately show ?thesis using stale_collection_loses_version [OF _ inv(1), of demo_db 1 0] inv(2-4) by auto
qed

text \<open>
  A transaction keeps pointers into the array of tables. When another table is loaded while that array is
  full, the array moves, and the commit follows a dangling pointer.
\<close>

theorem moved_table_array_dangles:
  assumes "tx_ok db cs tx" "it \<in> set (tx_tabs tx)" "tx_dirty it" "length (tabs db) = tab_cap db"
  shows "db_commit (snd (add_ent db name a)) tx io = None"
proof -
  let ?db = "snd (add_ent db name a)"
  have "commit_check ?db its = None" if "\<forall>x\<in>set its. tx_gen x = tabs_gen db" "it \<in> set its" for its
    using that assms(3,4) by (induction its) (auto simp: deref_ent_def add_ent_def Let_def)
  then have "commit_check ?db (tx_tabs tx) = None" using assms(1,2) by (auto simp: tx_ok_def items_ok_def)
  then show ?thesis using assms(1) by (simp add: db_commit_def tx_ok_def)
qed

theorem moved_table_array_dangles_witness:
  "db_commit (snd (add_ent ((snd demo_work)\<lparr>tab_cap := 1\<rparr>) ''orders'' 7)) (fst demo_work) (\<lambda>_. Io_ok) = None"
proof -
  obtain cs where cs: "tx_ok (snd demo_work) cs (fst demo_work)" using demo_work_ok by blast
  then have ok: "tx_ok ((snd demo_work)\<lparr>tab_cap := 1\<rparr>) cs (fst demo_work)" by (simp add: tx_ok_def items_ok_def)
  obtain it where it: "tx_tabs (fst demo_work) = [it]" "tx_dirty it" by (rule demo_work_items)
  then show ?thesis using moved_table_array_dangles [OF ok, of it] demo_work_tables by simp
qed

end
