(* ===== verification/Db_Exec_Props.thy ===== *)
theory Db_Exec_Props
  imports Db_Exec Db_Props Table_Props
begin

text \<open>
  The properties of \<open>db_exec\<close>: a writing statement implements the specification \<open>stmt_spec\<close> on the newest rows of its table.
\<close>

lemma head_rows_same:
  "same_but_prev (heap_of db' (snd (tabs db ! i))) (heap_of db (snd (tabs db ! i))) \<Longrightarrow> tabs db' ! i = tabs db ! i \<Longrightarrow>
   heap_of db (snd (tabs db ! i)) \<noteq> None \<Longrightarrow> head_rows db' i = head_rows db i"
  by (simp add: head_rows_def same_but_prev_rows)

text \<open>
  C3. A writing statement, run by \<open>db_exec\<close> while no other thread interferes and the file system works, refines the
  specification on rows: it succeeds exactly when the specification does, then the newest rows of its table are the specified
  ones and the clock moves by one; otherwise nothing moves and an error is reported. The newest rows of all other tables stay
  the same, and the database stays well formed.
\<close>

theorem db_exec_refines:
  assumes inv: "db_inv db cs" and small: "length (snaps (mv db)) + 1 < 2 ^ 64"
    and st: "parse_ok db s res_clr = Inr st" "get_ent db (table_name st) = Some j" "heap_of db (snd (tabs db ! j)) = Some t"
    and sc: "in_scope t st" and alone: "\<forall>n d. env n d = d" "\<forall>n k. io n k = Io_ok" and nw: "cur_ver (mv db) \<noteq> - 1"
  shows "\<exists>ok res db' cs'. db_exec env io db s = Some (ok, res, db') \<and> db_inv db' cs' \<and> (ok \<longleftrightarrow> stmt_spec t st \<noteq> None) \<and>
    (\<forall>i<length (tabs db). head_rows db' i = (if i = j \<and> ok then the (stmt_spec t st) else head_rows db i)) \<and>
    cur_ver (mv db') = (if ok then cur_ver (mv db) + 1 else cur_ver (mv db)) \<and> (\<not> ok \<longrightarrow> err_code res \<noteq> [])"
proof -
  have need: "need_ent db (table_name st) = Some (Some j, db)" using st(2) by (simp add: need_ent_def)
  obtain ok res db' cs' where e: "db_exec env io db s = Some (ok, res, db')" "db_inv db' cs'" "ok \<longleftrightarrow> stmt_spec t st \<noteq> None"
    and yes: "ok \<Longrightarrow> cur_ver (mv db') = cur_ver (mv db) + 1 \<and>
       (\<exists>t'. heap_of db' (snd (tabs db' ! j)) = Some t' \<and> Some (rows t') = stmt_spec t st) \<and>
       (\<forall>i<length (tabs db). i \<noteq> j \<longrightarrow> tabs db' ! i = tabs db ! i \<and>
          same_but_prev (heap_of db' (snd (tabs db ! i))) (heap_of db (snd (tabs db ! i))))"
    and no: "\<not> ok \<Longrightarrow> err_code res \<noteq> [] \<and> same_heads db db' \<and> cur_ver (mv db') = cur_ver (mv db)"
    using exec_write_ok [OF inv small st(1) need st(3) sc, of env io] alone nw by blast
  have h: "heap_of db (snd (tabs db ! i)) \<noteq> None" if "i < length (tabs db)" for i
    by (rule head_visible [OF inv that]) simp
  have rs: "head_rows db' i = (if i = j \<and> ok then the (stmt_spec t st) else head_rows db i)" if i: "i < length (tabs db)" for i
  proof (cases ok)
    case True
    show ?thesis
    proof (cases "i = j")
      case True
      obtain t' where "heap_of db' (snd (tabs db' ! j)) = Some t'" "Some (rows t') = stmt_spec t st" using yes [OF \<open>ok\<close>] by blast
      then show ?thesis using True \<open>ok\<close> by (simp add: head_rows_def) (metis option.sel)
    next
      case False
      then have "tabs db' ! i = tabs db ! i" "same_but_prev (heap_of db' (snd (tabs db ! i))) (heap_of db (snd (tabs db ! i)))"
        using yes [OF \<open>ok\<close>] i by blast+
      from head_rows_same [OF this(2,1) h [OF i]] show ?thesis using False by simp
    qed
  next
    case False
    then have "tabs db' ! i = tabs db ! i" "same_but_prev (heap_of db' (snd (tabs db ! i))) (heap_of db (snd (tabs db ! i)))"
      using no i by (auto simp: same_heads_def)
    from head_rows_same [OF this(2,1) h [OF i]] show ?thesis using False by simp
  qed
  have cv: "cur_ver (mv db') = (if ok then cur_ver (mv db) + 1 else cur_ver (mv db))"
  proof (cases ok)
    case True
    from yes [OF this] have "cur_ver (mv db') = cur_ver (mv db) + 1" by (rule conjunct1)
    with True show ?thesis by simp
  next
    case False
    from no [OF this] have "cur_ver (mv db') = cur_ver (mv db)" by blast
    with False show ?thesis by simp
  qed
  have er: "\<not> ok \<longrightarrow> err_code res \<noteq> []" using no by blast
  show ?thesis by (rule exI [of _ ok], rule exI [of _ res], rule exI [of _ db'], rule exI [of _ cs'])
      (intro conjI allI impI; (rule e cv er [rule_format] rs | assumption))
qed

text \<open>A database with one table loaded.\<close>

definition demo_loaded :: db where
  "demo_loaded = snd (the (db_tab_ver demo_db ''users''))"

lemma demo_loaded_ver: "db_tab_ver demo_db ''users'' = Some (1, demo_loaded)"
proof -
  have "case db_tab_ver demo_db ''users'' of None \<Rightarrow> False | Some (v, d) \<Rightarrow> v = 1" by code_simp
  then show ?thesis by (auto simp: demo_loaded_def split: option.splits)
qed

lemma demo_loaded_ok: "\<exists>cs. db_inv demo_loaded cs" "length (snaps (mv demo_loaded)) + 1 < 2 ^ 64" "cur_ver (mv demo_loaded) \<noteq> - 1"
proof -
  have inv: "db_inv demo_db []" unfolding demo_db_def by (rule db_inv_open)
  show "\<exists>cs. db_inv demo_loaded cs" by (rule tab_ver_ok [OF inv demo_loaded_ver]) auto
  have "mv demo_loaded = mv demo_db" by (rule tab_ver_ok [OF inv demo_loaded_ver]) auto
  then show "length (snaps (mv demo_loaded)) + 1 < 2 ^ 64" "cur_ver (mv demo_loaded) \<noteq> - 1"
    by (simp_all add: demo_db_def db_open_def mv_new_def)
qed

theorem db_exec_refines_witness:
  "\<exists>res db'. db_exec (\<lambda>n d. d) (\<lambda>n k. Io_ok) demo_loaded ''DELETE FROM users WHERE id = 2'' = Some (True, res, db') \<and>
     head_rows db' 0 = [[''1'', ''ann'', ''30'']] \<and> cur_ver (mv db') = 2"
proof -
  let ?s = "''DELETE FROM users WHERE id = 2''"
  define st where "st = the (parse_statement ?s)"
  define t where "t = the (heap_of demo_loaded 0)"
  have p: "parse_ok demo_loaded ?s res_clr = Inr st"
  proof -
    have "case parse_ok demo_loaded ?s res_clr of Inl _ \<Rightarrow> False | Inr _ \<Rightarrow> True" by code_simp
    then show ?thesis by (auto simp: st_def parse_ok_def split: sum.splits option.splits if_splits)
  qed
  have g: "get_ent demo_loaded (table_name st) = Some 0" unfolding st_def by code_simp
  have "case heap_of demo_loaded (snd (tabs demo_loaded ! 0)) of None \<Rightarrow> False | Some _ \<Rightarrow> True" "snd (tabs demo_loaded ! 0) = 0"
    "length (tabs demo_loaded) = 1" "cur_ver (mv demo_loaded) = 1" by code_simp+
  then have h: "heap_of demo_loaded (snd (tabs demo_loaded ! 0)) = Some t" "length (tabs demo_loaded) = 1" "cur_ver (mv demo_loaded) = 1"
    by (auto simp: t_def split: option.splits)
  have sc: "in_scope t st" unfolding st_def t_def in_scope_def by code_simp
  have sp: "stmt_spec t st = Some [[''1'', ''ann'', ''30'']]" unfolding st_def t_def by code_simp
  obtain cs where cs: "db_inv demo_loaded cs" using demo_loaded_ok(1) by blast
  show ?thesis
    using db_exec_refines [OF cs demo_loaded_ok(2) p g h(1) sc _ _ demo_loaded_ok(3), of "\<lambda>n d. d" "\<lambda>n k. Io_ok"] sp h(2,3) by auto
qed

end
