(* ===== verification/Pool.thy ===== *)
theory Pool
  imports Prelude "HOL-Library.Multiset"
begin

text \<open>
  The thread pool, \<open>src/thr/pool.c\<close>: a bounded queue of jobs and the workers that run them.

  \<^item> The jobs are a linked list with a head and a tail pointer; a node is an address in a store. A node
    belongs to the list until a worker takes it, and then to that worker, who frees it: the store
    drops it when it is taken. Following a pointer to a node that is not there is \<^const>\<open>None\<close>.
  \<^item> Every access to the pool is made with its mutex held, so the steps of the threads are the locked
    regions: \<open>pool_add\<close>, \<open>pool_stop\<close>, \<open>pool_stat\<close>, and of a worker taking a job (\<open>wrk_take\<close>), being
    done with it (\<open>wrk_done\<close>) and leaving (\<open>wrk_exit\<close>). Waiting on the condition variable is not being able to take a step.
  \<^item> \<open>job\<close> stands for the function and the argument of a job.

  The queue is proved against the contract \<open>fifo\<close>; the lemmas on the pool use only that contract.
  They show that the counters are what they say, that the queue stays within its bound, that every accepted job is
  started exactly once and in order, and that no accepted job is left behind when the pool stops.
\<close>

subsection \<open>The queue of jobs\<close>

record 'j node =
  job :: 'j
  next_job :: "nat option"

record 'j jobq =
  head :: "nat option"
  tail :: "nat option"
  nodes :: "nat \<Rightarrow> 'j node option"
  fresh :: nat

definition jobq_empty :: "'j jobq" where
  "jobq_empty = \<lparr>head = None, tail = None, nodes = Map.empty, fresh = 0\<rparr>"

definition enqueue :: "'j jobq \<Rightarrow> 'j \<Rightarrow> 'j jobq option" where
  "enqueue q j =
     (let n = fresh q; s = (nodes q)(n \<mapsto> \<lparr>job = j, next_job = None\<rparr>) in
      case tail q of
        None \<Rightarrow> Some (q\<lparr>head := Some n, tail := Some n, nodes := s, fresh := n + 1\<rparr>)
      | Some t \<Rightarrow>
        (case s t of None \<Rightarrow> None
         | Some nd \<Rightarrow> Some (q\<lparr>tail := Some n, nodes := s(t \<mapsto> nd\<lparr>next_job := Some n\<rparr>), fresh := n + 1\<rparr>)))"

text \<open>\<^term>\<open>Some None\<close>: the list is empty.\<close>

definition dequeue :: "'j jobq \<Rightarrow> ('j \<times> 'j jobq) option option" where
  "dequeue q =
     (case head q of
        None \<Rightarrow> Some None
      | Some n \<Rightarrow>
        (case nodes q n of None \<Rightarrow> None
         | Some nd \<Rightarrow>
           Some (Some (job nd, q\<lparr>head := next_job nd, tail := (if next_job nd = None then None else tail q),
                                 nodes := (nodes q)(n := None)\<rparr>))))"

text \<open>The nodes from a pointer on, and the queue they make.\<close>

fun node_chain :: "(nat \<Rightarrow> 'j node option) \<Rightarrow> nat option \<Rightarrow> nat list \<Rightarrow> bool" where
  "node_chain s p [] = (p = None)"
| "node_chain s p (a # as) = (p = Some a \<and> (\<exists>nd. s a = Some nd \<and> node_chain s (next_job nd) as))"

definition jobq_is :: "'j jobq \<Rightarrow> nat list \<Rightarrow> 'j list \<Rightarrow> bool" where
  "jobq_is q as js \<longleftrightarrow> node_chain (nodes q) (head q) as \<and> distinct as \<and> (\<forall>a\<in>set as. a < fresh q) \<and>
     tail q = (if as = [] then None else Some (last as)) \<and> js = map (\<lambda>a. job (the (nodes q a))) as"

definition jobq_rel :: "'j jobq \<Rightarrow> 'j list \<Rightarrow> bool" where
  "jobq_rel q js \<longleftrightarrow> (\<exists>as. jobq_is q as js)"

lemma node_chain_cong: "node_chain s p as \<Longrightarrow> \<forall>a\<in>set as. s' a = s a \<Longrightarrow> node_chain s' p as"
  by (induction s p as rule: node_chain.induct) auto

lemma node_chain_node: "node_chain s p as \<Longrightarrow> a \<in> set as \<Longrightarrow> s a \<noteq> None"
  by (induction s p as rule: node_chain.induct) auto

text \<open>Hanging a new node behind the last one.\<close>

lemma node_chain_append:
  "node_chain s p (as @ [t]) \<Longrightarrow> distinct (as @ [t]) \<Longrightarrow> n \<notin> set (as @ [t]) \<Longrightarrow> s t = Some nd \<Longrightarrow>
   s' = s(n \<mapsto> \<lparr>job = j, next_job = None\<rparr>, t \<mapsto> nd\<lparr>next_job := Some n\<rparr>) \<Longrightarrow> node_chain s' p (as @ [t, n])"
  by (induction s p as rule: node_chain.induct) auto

subsection \<open>The contract of a queue\<close>

locale fifo =
  fixes empty :: "'q"
    and enq :: "'q \<Rightarrow> 'j \<Rightarrow> 'q option"
    and deq :: "'q \<Rightarrow> ('j \<times> 'q) option option"
    and rel :: "'q \<Rightarrow> 'j list \<Rightarrow> bool"
  assumes rel_empty: "rel empty []"
    and rel_enq: "rel q js \<Longrightarrow> \<exists>q'. enq q j = Some q' \<and> rel q' (js @ [j])"
    and rel_deq_Nil: "rel q [] \<Longrightarrow> deq q = Some None"
    and rel_deq_Cons: "rel q (j # js) \<Longrightarrow> \<exists>q'. deq q = Some (Some (j, q')) \<and> rel q' js"
begin

lemma enq_Some: "rel q js \<Longrightarrow> enq q j = Some q' \<Longrightarrow> rel q' (js @ [j])"
  using rel_enq [of q js j] by auto

lemma deq_cases:
  assumes "rel q js"
  obtains (empty) "js = []" "deq q = Some None"
  | (job) j js' q' where "js = j # js'" "deq q = Some (Some (j, q'))" "rel q' js'"
proof (cases js)
  case Nil
  then show ?thesis using assms rel_deq_Nil empty by blast
next
  case (Cons j js')
  then show ?thesis using assms rel_deq_Cons [of q j js'] job by blast
qed

end

interpretation jq: fifo jobq_empty enqueue dequeue jobq_rel
proof unfold_locales
  show "jobq_rel jobq_empty []" by (simp add: jobq_rel_def jobq_is_def jobq_empty_def)
next
  fix q :: "'j jobq" and js j
  assume "jobq_rel q js"
  then obtain as where qi: "jobq_is q as js" by (auto simp: jobq_rel_def)
  let ?n = "fresh q"
  have n: "?n \<notin> set as" using qi by (auto simp: jobq_is_def)
  show "\<exists>q'. enqueue q j = Some q' \<and> jobq_rel q' (js @ [j])"
  proof (cases as rule: rev_cases)
    case Nil
    then show ?thesis using qi by (auto simp: enqueue_def jobq_is_def jobq_rel_def Let_def intro!: exI [of _ "[?n]"])
  next
    case (snoc bs t)
    obtain nd where nd: "nodes q t = Some nd" using qi snoc node_chain_node [of "nodes q" "head q" as t] by (auto simp: jobq_is_def)
    let ?s = "(nodes q)(?n \<mapsto> \<lparr>job = j, next_job = None\<rparr>, t \<mapsto> nd\<lparr>next_job := Some ?n\<rparr>)"
    let ?q = "q\<lparr>tail := Some ?n, nodes := ?s, fresh := ?n + 1\<rparr>"
    have tn: "t \<noteq> ?n" using n snoc by auto
    then have e: "enqueue q j = Some ?q" using qi snoc nd by (simp add: enqueue_def jobq_is_def Let_def)
    have "node_chain ?s (head q) (bs @ [t, ?n])"
      using node_chain_append [of "nodes q" "head q" bs t ?n nd ?s j] qi snoc n nd by (simp add: jobq_is_def)
    moreover have "map (\<lambda>a. job (the (?s a))) as = map (\<lambda>a. job (the (nodes q a))) as"
      using n nd by (auto simp: fun_upd_def)
    ultimately have "jobq_is ?q (as @ [?n]) (js @ [j])"
      using qi snoc n tn by (auto simp: jobq_is_def)
    then show ?thesis using e by (auto simp: jobq_rel_def)
  qed
next
  fix q :: "'j jobq"
  assume "jobq_rel q []"
  then show "dequeue q = Some None" by (auto simp: jobq_rel_def jobq_is_def dequeue_def)
next
  fix q :: "'j jobq" and j js
  assume "jobq_rel q (j # js)"
  then obtain a as where qi: "jobq_is q (a # as) (j # js)" by (auto simp: jobq_rel_def jobq_is_def)
  then obtain nd where nd: "nodes q a = Some nd" "node_chain (nodes q) (next_job nd) as" "a \<notin> set as" "job nd = j"
    by (auto simp: jobq_is_def)
  let ?q = "q\<lparr>head := next_job nd, tail := (if next_job nd = None then None else tail q), nodes := (nodes q)(a := None)\<rparr>"
  have "next_job nd = None \<longleftrightarrow> as = []" using nd(2) by (cases as) auto
  moreover have "node_chain ((nodes q)(a := None)) (next_job nd) as"
    using node_chain_cong [OF nd(2), of "(nodes q)(a := None)"] nd(3) by auto
  ultimately have "jobq_is ?q as js" using qi nd(3) by (auto simp: jobq_is_def)
  then show "\<exists>q'. dequeue q = Some (Some (j, q')) \<and> jobq_rel q' js"
    using qi nd by (auto simp: dequeue_def jobq_rel_def jobq_is_def)
qed

subsection \<open>The pool\<close>

record 'j pool =
  nthr :: int
  qmax :: int
  stop :: bool
  queued :: int
  active :: int
  jobs_done :: ulong
  queue :: "'j jobq"

record pool_st =
  st_size :: int
  st_active :: int
  st_queued :: int
  st_done :: ulong

text \<open>\<open>created\<close> is the number of threads that \<open>pthread_create\<close> gave before it failed, if it did.\<close>

definition pool_new :: "int \<Rightarrow> int \<Rightarrow> int \<Rightarrow> 'j pool option" where
  "pool_new n q created =
     (if n \<le> 0 \<or> q \<le> 0 then None
      else if created < n then None
      else Some \<lparr>nthr = n, qmax = q, stop = False, queued = 0, active = 0, jobs_done = 0, queue = jobq_empty\<rparr>)"

definition pool_add :: "'j pool \<Rightarrow> 'j \<Rightarrow> (int \<times> 'j pool) option" where
  "pool_add p j =
     (if stop p then Some (- 2, p)
      else if queued p \<ge> qmax p then Some (- 1, p)
      else case enqueue (queue p) j of
        None \<Rightarrow> None
      | Some q \<Rightarrow> Some (0, p\<lparr>queue := q, queued := queued p + 1\<rparr>))"

definition pool_stop :: "'j pool \<Rightarrow> 'j pool" where
  "pool_stop p = p\<lparr>stop := True\<rparr>"

definition pool_stat :: "'j pool \<Rightarrow> pool_st" where
  "pool_stat p = \<lparr>st_size = nthr p, st_active = active p, st_queued = queued p, st_done = jobs_done p\<rparr>"

text \<open>The locked regions of \<open>wrk_run\<close>; \<^term>\<open>Some None\<close> means that there is no job to take.\<close>

definition wrk_take :: "'j pool \<Rightarrow> ('j \<times> 'j pool) option option" where
  "wrk_take p =
     (case dequeue (queue p) of
        None \<Rightarrow> None
      | Some None \<Rightarrow> Some None
      | Some (Some (j, q)) \<Rightarrow> Some (Some (j, p\<lparr>queue := q, queued := queued p - 1, active := active p + 1\<rparr>)))"

definition wrk_done :: "'j pool \<Rightarrow> 'j pool" where
  "wrk_done p = p\<lparr>active := active p - 1, jobs_done := jobs_done p + 1\<rparr>"

definition wrk_exits :: "'j pool \<Rightarrow> bool" where
  "wrk_exits p \<longleftrightarrow> stop p \<and> head (queue p) = None"

text \<open>
  The thread number that a worker stores for \<open>pool_tid\<close>: its place in \<open>thr\<close> plus one, or \<open>nthr + 1\<close> when it is
  not there yet; other threads have 0.
\<close>

fun wrk_tid :: "'t list \<Rightarrow> 't \<Rightarrow> nat" where
  "wrk_tid [] self = 0"
| "wrk_tid (t # ts) self = (if t = self then 0 else Suc (wrk_tid ts self))"

definition pool_tid :: "'t list \<Rightarrow> 't \<Rightarrow> bool \<Rightarrow> nat" where
  "pool_tid thr self is_worker = (if is_worker then wrk_tid thr self + 1 else 0)"

text \<open>
  \<open>pool_del\<close> after the workers are joined: the nodes that are left are freed one by one; the fuel is the
  number of nodes ever made.
\<close>

fun free_jobs :: "nat \<Rightarrow> 'j jobq \<Rightarrow> 'j jobq option" where
  "free_jobs 0 q = (if head q = None then Some q else None)"
| "free_jobs (Suc n) q =
     (case dequeue q of None \<Rightarrow> None | Some None \<Rightarrow> Some q | Some (Some (j, q')) \<Rightarrow> free_jobs n q')"

definition pool_del :: "'j pool \<Rightarrow> 'j jobq option" where
  "pool_del p = free_jobs (fresh (queue p)) (queue (pool_stop p))"

lemma free_jobs_empty: "jobq_rel q js \<Longrightarrow> length js \<le> n \<Longrightarrow> \<exists>q'. free_jobs n q = Some q' \<and> jobq_rel q' []"
proof (induction n arbitrary: q js)
  case 0
  then show ?case by (auto simp: jobq_rel_def jobq_is_def)
next
  case (Suc n)
  from Suc.prems(1) show ?case
    by (cases rule: jq.deq_cases) (use Suc in auto)
qed

subsection \<open>Runs of the pool\<close>

datatype 'j worker = Idle | Running 'j | Exited

record 'j system =
  the_pool :: "'j pool"
  workers :: "'j worker list"
  accepted :: "'j list"
  started :: "'j list"
  finished :: "'j list"

definition boot :: "'j pool \<Rightarrow> 'j system" where
  "boot p = \<lparr>the_pool = p, workers = replicate (nat (nthr p)) Idle, accepted = [], started = [], finished = []\<rparr>"

inductive pool_step :: "'j system \<Rightarrow> 'j system \<Rightarrow> bool" where
  add: "pool_add (the_pool s) j = Some (r, p) \<Longrightarrow>
    pool_step s (s\<lparr>the_pool := p, accepted := (if r = 0 then accepted s @ [j] else accepted s)\<rparr>)"
| take_job: "i < length (workers s) \<Longrightarrow> workers s ! i = Idle \<Longrightarrow> wrk_take (the_pool s) = Some (Some (j, p)) \<Longrightarrow>
    pool_step s (s\<lparr>the_pool := p, workers := (workers s)[i := Running j], started := started s @ [j]\<rparr>)"
| job_done: "i < length (workers s) \<Longrightarrow> workers s ! i = Running j \<Longrightarrow>
    pool_step s (s\<lparr>the_pool := wrk_done (the_pool s), workers := (workers s)[i := Idle], finished := finished s @ [j]\<rparr>)"
| leave: "i < length (workers s) \<Longrightarrow> workers s ! i = Idle \<Longrightarrow> wrk_exits (the_pool s) \<Longrightarrow>
    pool_step s (s\<lparr>workers := (workers s)[i := Exited]\<rparr>)"
| shut: "pool_step s (s\<lparr>the_pool := pool_stop (the_pool s)\<rparr>)"

inductive pool_reach :: "'j system \<Rightarrow> bool" where
  start: "pool_new n q created = Some p \<Longrightarrow> pool_reach (boot p)"
| step: "pool_reach s \<Longrightarrow> pool_step s s' \<Longrightarrow> pool_reach s'"

fun job_of :: "'j worker \<Rightarrow> 'j list" where
  "job_of (Running j) = [j]"
| "job_of _ = []"

definition running :: "'j worker list \<Rightarrow> 'j list" where
  "running ws = concat (map job_of ws)"

definition pool_inv :: "'j system \<Rightarrow> 'j list \<Rightarrow> bool" where
  "pool_inv s js \<longleftrightarrow> jobq_rel (queue (the_pool s)) js \<and> queued (the_pool s) = int (length js) \<and>
     queued (the_pool s) \<le> qmax (the_pool s) \<and> active (the_pool s) = int (length (running (workers s))) \<and>
     length (workers s) = nat (nthr (the_pool s)) \<and> 0 < nthr (the_pool s) \<and> accepted s = started s @ js \<and>
     mset (started s) = mset (finished s) + mset (running (workers s)) \<and>
     jobs_done (the_pool s) = of_nat (length (finished s)) \<and>
     (Exited \<in> set (workers s) \<longrightarrow> stop (the_pool s) \<and> js = [])"

lemma running_Cons [simp]: "running (w # ws) = job_of w @ running ws" "running [] = []"
  by (simp_all add: running_def)

lemma running_update:
  "i < length ws \<Longrightarrow> mset (running (ws[i := w])) + mset (job_of (ws ! i)) = mset (running ws) + mset (job_of w)"
  by (induction ws arbitrary: i) (auto simp: nth_Cons' ac_simps split: nat.splits)

lemma running_take:
  "i < length ws \<Longrightarrow> ws ! i = Idle \<Longrightarrow> mset (running (ws[i := Running j])) = add_mset j (mset (running ws))"
  using running_update [of i ws "Running j"] by simp

lemma running_done:
  "i < length ws \<Longrightarrow> ws ! i = Running j \<Longrightarrow> mset (running ws) = add_mset j (mset (running (ws[i := Idle])))"
  using running_update [of i ws Idle] by simp

lemma running_leave:
  "i < length ws \<Longrightarrow> ws ! i = Idle \<Longrightarrow> mset (running (ws[i := Exited])) = mset (running ws)"
  using running_update [of i ws Exited] by simp

lemma set_update_exited: "Exited \<in> set (ws[i := w]) \<Longrightarrow> w \<noteq> Exited \<Longrightarrow> Exited \<in> set ws"
  using set_update_subset_insert [of ws i w] by auto

lemma pool_inv_step:
  assumes inv: "pool_inv s js" and step: "pool_step s s'"
  shows "\<exists>js'. pool_inv s' js'"
  using step
proof (cases rule: pool_step.cases)
  case (add j r p)
  show ?thesis
  proof (cases "r = 0")
    case True
    then obtain q where q: "enqueue (queue (the_pool s)) j = Some q" "p = (the_pool s)\<lparr>queue := q, queued := queued (the_pool s) + 1\<rparr>"
      "\<not> stop (the_pool s)" "queued (the_pool s) < qmax (the_pool s)"
      using add(2) by (auto simp: pool_add_def split: if_splits option.splits)
    have "jobq_rel q (js @ [j])" using jq.enq_Some [OF _ q(1)] inv by (simp add: pool_inv_def)
    then have "pool_inv s' (js @ [j])" using inv q True add(1) by (auto simp: pool_inv_def)
    then show ?thesis ..
  next
    case False
    then have "p = the_pool s" using add(2) by (auto simp: pool_add_def split: if_splits option.splits)
    then show ?thesis using inv False add(1) by auto
  qed
next
  case (take_job i j p)
  from inv have rel: "jobq_rel (queue (the_pool s)) js" by (simp add: pool_inv_def)
  then show ?thesis
  proof (cases rule: jq.deq_cases)
    case empty
    then show ?thesis using take_job(4) by (simp add: wrk_take_def)
  next
    case (job j' js' q')
    then have p: "j' = j" "p = (the_pool s)\<lparr>queue := q', queued := queued (the_pool s) - 1, active := active (the_pool s) + 1\<rparr>"
      using take_job(4) by (auto simp: wrk_take_def)
    have r: "mset (running ((workers s)[i := Running j])) = add_mset j (mset (running (workers s)))"
      by (rule running_take [OF take_job(2,3)])
    have len: "length (running ((workers s)[i := Running j])) = Suc (length (running (workers s)))"
      using arg_cong [OF r, of size] by simp
    have "Exited \<notin> set (workers s)" using inv job(1) by (auto simp: pool_inv_def)
    then have ex: "Exited \<notin> set ((workers s)[i := Running j])" using set_update_exited [of "workers s" i "Running j"] by auto
    have "accepted s = (started s @ [j]) @ js'" "mset (started s) = mset (finished s) + mset (running (workers s))"
      "queued (the_pool s) = int (length js') + 1" "active (the_pool s) = int (length (running (workers s)))"
      using inv job(1) p(1) by (auto simp: pool_inv_def)
    then have "pool_inv s' js'" using inv job(3) p(2) r len ex unfolding take_job(1) by (simp add: pool_inv_def)
    then show ?thesis ..
  qed
next
  case (job_done i j)
  have r: "mset (running (workers s)) = add_mset j (mset (running ((workers s)[i := Idle])))"
    by (rule running_done [OF job_done(2,3)])
  have len: "length (running (workers s)) = Suc (length (running ((workers s)[i := Idle])))"
    using arg_cong [OF r, of size] by simp
  have "Exited \<in> set ((workers s)[i := Idle]) \<longrightarrow> stop (the_pool s) \<and> js = []"
    using set_update_exited [of "workers s" i Idle] inv by (auto simp: pool_inv_def)
  then have "pool_inv s' js" using inv r len job_done(1) by (auto simp: pool_inv_def wrk_done_def)
  then show ?thesis ..
next
  case (leave i)
  have "jobq_rel (queue (the_pool s)) js" using inv by (simp add: pool_inv_def)
  then have js: "js = []"
    by (cases rule: jq.deq_cases) (use leave(4) in \<open>auto simp: wrk_exits_def dequeue_def\<close>)
  have r: "mset (running ((workers s)[i := Exited])) = mset (running (workers s))" by (rule running_leave [OF leave(2,3)])
  have len: "length (running ((workers s)[i := Exited])) = length (running (workers s))" using arg_cong [OF r, of size] by simp
  have "pool_inv s' js" using inv r len js leave(1,4) by (auto simp: pool_inv_def wrk_exits_def)
  then show ?thesis ..
next
  case shut
  then have "pool_inv s' js" using inv by (auto simp: pool_inv_def pool_stop_def)
  then show ?thesis ..
qed

lemma pool_inv_boot: "pool_new n q created = Some p \<Longrightarrow> pool_inv (boot p) []"
  using jq.rel_empty by (auto simp: pool_inv_def boot_def pool_new_def running_def split: if_splits)

lemma pool_reach_inv: "pool_reach s \<Longrightarrow> \<exists>js. pool_inv s js"
  by (induction rule: pool_reach.induct) (use pool_inv_boot pool_inv_step in blast)+

subsection \<open>Properties of the pool\<close>

text \<open>
  C31. In every run of the pool, however adding, taking, finishing and stopping interleave: the jobs are
  started in the order in which they were accepted, each once; the jobs that wait are the rest, and never
  more than \<open>qmax\<close>; the counters \<open>queued\<close>, \<open>active\<close> and \<open>done\<close> are the numbers of jobs that wait, run and are finished, and
  no more jobs run than there are threads.
\<close>

theorem pool_fifo_bounded:
  assumes "pool_reach s"
  shows "\<exists>waiting. accepted s = started s @ waiting \<and> mset (started s) = mset (finished s) + mset (running (workers s)) \<and>
    st_queued (pool_stat (the_pool s)) = int (length waiting) \<and> st_queued (pool_stat (the_pool s)) \<le> qmax (the_pool s) \<and>
    st_active (pool_stat (the_pool s)) = int (length (running (workers s))) \<and>
    st_active (pool_stat (the_pool s)) \<le> st_size (pool_stat (the_pool s)) \<and>
    st_done (pool_stat (the_pool s)) = of_nat (length (finished s))"
proof -
  obtain js where js: "pool_inv s js" using pool_reach_inv [OF assms] by blast
  have "length (running ws) \<le> length ws" for ws :: "'a worker list"
  proof (induction ws)
    case (Cons w ws)
    then show ?case by (cases w) auto
  qed simp
  from this [of "workers s"] have "int (length (running (workers s))) \<le> nthr (the_pool s)"
    using js unfolding pool_inv_def by linarith
  then show ?thesis using js by (auto simp: pool_inv_def pool_stat_def)
qed

definition demo_pool :: "nat system" where
  "demo_pool = boot (the (pool_new 2 8 2))"

lemma demo_pool_reach: "pool_reach demo_pool"
  unfolding demo_pool_def by (rule pool_reach.start [of 2 8 2]) (simp add: pool_new_def)

definition demo_added :: "nat system" where
  "demo_added = demo_pool\<lparr>the_pool := snd (the (pool_add (the_pool demo_pool) 7)), accepted := [7]\<rparr>"

lemma demo_added_reach: "pool_reach demo_added"
proof -
  have "fst (the (pool_add (the_pool demo_pool) 7)) = 0 \<and> pool_add (the_pool demo_pool) 7 \<noteq> None"
    by (simp add: demo_pool_def boot_def pool_new_def pool_add_def enqueue_def jobq_empty_def Let_def)
  then have "pool_add (the_pool demo_pool) 7 = Some (0, snd (the (pool_add (the_pool demo_pool) 7)))" by (auto simp: prod_eq_iff)
  from pool_step.add [OF this] show ?thesis
    using pool_reach.step [OF demo_pool_reach] by (simp add: demo_added_def) (simp add: demo_pool_def boot_def)
qed

theorem pool_fifo_bounded_witness:
  "st_queued (pool_stat (the_pool demo_added)) = 1 \<and> accepted demo_added = [7]"
proof -
  have "started demo_added = []" "accepted demo_added = [7]" by (simp_all add: demo_added_def demo_pool_def boot_def)
  then show ?thesis using pool_fifo_bounded [OF demo_added_reach] by auto
qed

text \<open>
  C32. No accepted job is lost: once the pool was told to stop and every worker has left, every job that was ever
  accepted has been run to its end.
\<close>

theorem pool_stop_drains:
  assumes "pool_reach s" "\<forall>w\<in>set (workers s). w = Exited"
  shows "mset (finished s) = mset (accepted s) \<and> started s = accepted s \<and> stop (the_pool s)"
proof -
  obtain js where js: "pool_inv s js" using pool_reach_inv [OF assms(1)] by blast
  have "workers s \<noteq> []" using js by (auto simp: pool_inv_def)
  then have "Exited \<in> set (workers s)" using assms(2) by (cases "workers s") auto
  moreover have "running (workers s) = []" using assms(2) by (auto simp: running_def)
  ultimately show ?thesis using js by (auto simp: pool_inv_def)
qed

lemma demo_drain:
  "\<exists>s :: nat system. pool_reach s \<and> workers s = [Exited] \<and> accepted s = []"
proof -
  let ?p = "the (pool_new 1 8 1) :: nat pool"
  have 1: "pool_reach (boot ?p)" by (rule pool_reach.start [of 1 8 1]) (simp add: pool_new_def)
  let ?s = "(boot ?p)\<lparr>the_pool := pool_stop (the_pool (boot ?p))\<rparr>"
  have 2: "pool_reach ?s" by (rule pool_reach.step [OF 1 pool_step.shut])
  have w: "workers ?s = [Idle]" by (simp add: boot_def pool_new_def)
  have "pool_step ?s (?s\<lparr>workers := (workers ?s)[0 := Exited]\<rparr>)"
    by (rule pool_step.leave) (simp_all add: boot_def pool_new_def pool_stop_def wrk_exits_def jobq_empty_def)
  from pool_reach.step [OF 2 this] w show ?thesis by (auto simp: boot_def)
qed

theorem pool_stop_drains_witness: "\<exists>s :: nat system. workers s = [Exited] \<and> mset (finished s) = mset (accepted s)"
proof -
  obtain s :: "nat system" where "pool_reach s" "workers s = [Exited]" using demo_drain by blast
  then show ?thesis using pool_stop_drains [of s] by auto
qed

definition work_left :: "'j system \<Rightarrow> int" where
  "work_left s = 2 * queued (the_pool s) + active (the_pool s)"

text \<open>
  The workers never get stuck: while a job waits or runs, some worker can make a step, and every such step
  brings the pool closer to having no work, so that without new jobs it finishes all of them.
\<close>

theorem pool_progress:
  assumes "pool_reach s" "0 < work_left s"
  shows "\<exists>s'. pool_step s s' \<and> work_left s' < work_left s \<and> 0 \<le> work_left s' \<and> accepted s' = accepted s"
proof -
  obtain js where js: "pool_inv s js" using pool_reach_inv [OF assms(1)] by blast
  show ?thesis
  proof (cases "running (workers s) = []")
    case False
    then obtain i j where i: "i < length (workers s)" "workers s ! i = Running j"
    proof -
      obtain w where w: "w \<in> set (workers s)" "job_of w \<noteq> []" using False by (auto simp: running_def)
      then obtain i where "i < length (workers s)" "workers s ! i = w" unfolding in_set_conv_nth by blast
      with w(2) that show ?thesis by (cases w) auto
    qed
    have "0 < active (the_pool s)" "0 \<le> queued (the_pool s)" using js False by (auto simp: pool_inv_def)
    then show ?thesis using pool_step.job_done [OF i] by (force simp: work_left_def wrk_done_def)
  next
    case True
    then have ne: "js \<noteq> []" using js assms(2) by (auto simp: pool_inv_def work_left_def)
    then obtain w ws where ws: "workers s = w # ws" "w \<noteq> Exited" using js by (cases "workers s") (auto simp: pool_inv_def)
    then have i: "0 < length (workers s)" "workers s ! 0 = Idle" using True by (cases w; simp)+
    have "jobq_rel (queue (the_pool s)) js" using js by (simp add: pool_inv_def)
    then obtain j js' q' where q: "dequeue (queue (the_pool s)) = Some (Some (j, q'))"
      by (cases rule: jq.deq_cases) (use ne in auto)
    let ?p = "(the_pool s)\<lparr>queue := q', queued := queued (the_pool s) - 1, active := active (the_pool s) + 1\<rparr>"
    have t: "wrk_take (the_pool s) = Some (Some (j, ?p))" using q by (simp add: wrk_take_def)
    have "0 < queued (the_pool s)" "0 \<le> active (the_pool s)" using js ne by (auto simp: pool_inv_def)
    then show ?thesis using pool_step.take_job [OF i t] by (force simp: work_left_def)
  qed
qed

theorem pool_progress_witness: "\<exists>s'. pool_step demo_added s' \<and> accepted s' = [7] \<and> work_left s' < 2"
proof -
  have "work_left demo_added = 2" "accepted demo_added = [7]"
    by (simp_all add: work_left_def demo_added_def demo_pool_def boot_def pool_new_def pool_add_def enqueue_def jobq_empty_def Let_def)
  then show ?thesis using pool_progress [OF demo_added_reach] by auto
qed

end
