(* ===== verification/Query_Cache.thy ===== *)
theory Query_Cache
  imports Values
begin

text \<open>
  The query cache, \<open>src/api/cache/query_cache.c\<close>: a hash table of buckets over a fixed array of entries, an LRU list
  threaded through the entries, expiry, and versions of tables.

  \<^item> The global variables are the fields of \<open>qcache\<close>. Indices are \<^typ>\<open>int\<close>, with \<open>-1\<close> for none, as in the
    code. The sizes of the two arrays are the lengths of the lists: \<open>query_cache_init\<close> makes them
    \<open>QUERY_CACHE_MAX_ENTRIES\<close> and \<open>QUERY_CACHE_BUCKETS\<close>.
  \<^item> Every operation holds the mutex for its body, so it is one step. The time is an argument.
  \<^item> The walks along \<open>next_hash\<close> have fuel for the number of entries; running out of it, or leaving the array, is \<^const>\<open>None\<close>.
\<close>

record entry =
  in_use :: bool
  hash :: ulong
  ekey :: string
  body :: string
  table_version :: ulong
  expire_at_ns :: ulong
  next_hash :: int
  prev_lru :: int
  next_lru :: int

record qcache =
  initialized :: bool
  bucket_heads :: "int list"
  entries :: "entry list"
  lru_head :: int
  lru_tail :: int
  entry_count :: int
  ttl_ns :: ulong

datatype miss_reason = MISS_NONE | MISS_NO_ENTRY | MISS_TTL_EXPIRED | MISS_VERSION_CHANGED

definition QUERY_CACHE_BUCKETS :: nat where "QUERY_CACHE_BUCKETS = 2048"
definition QUERY_CACHE_MAX_ENTRIES :: nat where "QUERY_CACHE_MAX_ENTRIES = 1024"
definition QUERY_CACHE_DEFAULT_TTL_NS :: ulong where "QUERY_CACHE_DEFAULT_TTL_NS = 5000000000"
definition QUERY_CACHE_MIN_TTL_NS :: ulong where "QUERY_CACHE_MIN_TTL_NS = 1000000"
definition QUERY_CACHE_MAX_TTL_NS :: ulong where "QUERY_CACHE_MAX_TTL_NS = 60000000000"
definition QUERY_CACHE_MAX_BODY_BYTES :: int where "QUERY_CACHE_MAX_BODY_BYTES = 262144"

text \<open>\<open>strtoull\<close> in base 10: the value, which saturates, and the rest of the string.\<close>

definition strtoull :: "string \<Rightarrow> ulong \<times> string" where
  "strtoull s =
     (let t = skip_space s; neg = (t \<noteq> [] \<and> hd t = CHR ''-'');
          u = (if t \<noteq> [] \<and> (hd t = CHR ''-'' \<or> hd t = CHR ''+'') then tl t else t);
          ds = takeWhile isdigit u; v = digits_val 0 ds
      in if ds = [] then (0, s)
         else (if v > 18446744073709551615 then - 1 else if neg then - word_of_int v else word_of_int v, dropWhile isdigit u))"

text \<open>\<open>raw\<close> is the value of the environment variable \<open>QUERY_CACHE_TTL_MS\<close>.\<close>

definition resolve_ttl_ns :: "string option \<Rightarrow> ulong" where
  "resolve_ttl_ns raw =
     (case raw of None \<Rightarrow> QUERY_CACHE_DEFAULT_TTL_NS
      | Some txt \<Rightarrow>
        if txt = [] then QUERY_CACHE_DEFAULT_TTL_NS
        else let (ttl_ms, rest) = strtoull txt in
          if rest \<noteq> [] \<or> ttl_ms = 0 then QUERY_CACHE_DEFAULT_TTL_NS
          else if ttl_ms > QUERY_CACHE_MAX_TTL_NS div 1000000 then QUERY_CACHE_MAX_TTL_NS
          else if ttl_ms < QUERY_CACHE_MIN_TTL_NS div 1000000 then QUERY_CACHE_MIN_TTL_NS
          else ttl_ms * 1000000)"

definition hash_key :: "string \<Rightarrow> ulong" where
  "hash_key src = fnv1a_mix 1469598103934665603 src"

definition free_entry :: entry where
  "free_entry = \<lparr>in_use = False, hash = 0, ekey = [], body = [], table_version = 0, expire_at_ns = 0,
     next_hash = - 1, prev_lru = - 1, next_lru = - 1\<rparr>"

definition upd_entry :: "qcache \<Rightarrow> int \<Rightarrow> (entry \<Rightarrow> entry) \<Rightarrow> qcache" where
  "upd_entry c i f = c\<lparr>entries := (entries c)[nat i := f (entries c ! nat i)]\<rparr>"

definition used_index :: "qcache \<Rightarrow> int \<Rightarrow> bool" where
  "used_index c i \<longleftrightarrow> 0 \<le> i \<and> i < int (length (entries c)) \<and> in_use (entries c ! nat i)"

definition bucket_of :: "qcache \<Rightarrow> ulong \<Rightarrow> nat" where
  "bucket_of c h = unat (h mod of_nat (length (bucket_heads c)))"

text \<open>The walk of \<open>unlink_from_bucket\<close>: \<open>cur\<close> is the node looked at and \<open>prv\<close> the one before it.\<close>

fun unlink_walk :: "nat \<Rightarrow> qcache \<Rightarrow> nat \<Rightarrow> int \<Rightarrow> int \<Rightarrow> int \<Rightarrow> qcache option" where
  "unlink_walk fuel c b idx prv cur =
     (if cur = - 1 then Some c
      else if cur < 0 \<or> int (length (entries c)) \<le> cur then None
      else if cur = idx then
        let nx = next_hash (entries c ! nat cur);
            c1 = (if prv = - 1 then c\<lparr>bucket_heads := (bucket_heads c)[b := nx]\<rparr>
                  else upd_entry c prv (\<lambda>e. e\<lparr>next_hash := nx\<rparr>))
        in Some (upd_entry c1 cur (\<lambda>e. e\<lparr>next_hash := - 1\<rparr>))
      else case fuel of 0 \<Rightarrow> None | Suc n \<Rightarrow> unlink_walk n c b idx cur (next_hash (entries c ! nat cur)))"

definition unlink_from_bucket :: "qcache \<Rightarrow> int \<Rightarrow> qcache option" where
  "unlink_from_bucket c idx =
     (if \<not> used_index c idx then Some c
      else let b = bucket_of c (hash (entries c ! nat idx))
           in unlink_walk (length (entries c)) c b idx (- 1) (bucket_heads c ! b))"

definition unlink_from_lru :: "qcache \<Rightarrow> int \<Rightarrow> qcache" where
  "unlink_from_lru c idx =
     (if \<not> used_index c idx then c
      else let p = prev_lru (entries c ! nat idx); n = next_lru (entries c ! nat idx);
               c1 = (if p \<noteq> - 1 then upd_entry c p (\<lambda>e. e\<lparr>next_lru := n\<rparr>) else c\<lparr>lru_head := n\<rparr>);
               c2 = (if n \<noteq> - 1 then upd_entry c1 n (\<lambda>e. e\<lparr>prev_lru := p\<rparr>) else c1\<lparr>lru_tail := p\<rparr>)
           in upd_entry c2 idx (\<lambda>e. e\<lparr>prev_lru := - 1, next_lru := - 1\<rparr>))"

definition touch_lru_head :: "qcache \<Rightarrow> int \<Rightarrow> qcache" where
  "touch_lru_head c idx =
     (if \<not> used_index c idx then c
      else let c1 = unlink_from_lru c idx;
               c2 = upd_entry c1 idx (\<lambda>e. e\<lparr>prev_lru := - 1, next_lru := lru_head c1\<rparr>);
               c3 = (if lru_head c2 \<noteq> - 1 then upd_entry c2 (lru_head c2) (\<lambda>e. e\<lparr>prev_lru := idx\<rparr>) else c2);
               c4 = c3\<lparr>lru_head := idx\<rparr>
           in if lru_tail c4 = - 1 then c4\<lparr>lru_tail := idx\<rparr> else c4)"

definition remove_entry :: "qcache \<Rightarrow> int \<Rightarrow> qcache option" where
  "remove_entry c idx =
     (if \<not> used_index c idx then Some c
      else case unlink_from_bucket c idx of
        None \<Rightarrow> None
      | Some c1 \<Rightarrow>
        let c2 = upd_entry (unlink_from_lru c1 idx) idx (\<lambda>_. free_entry)
        in Some (if entry_count c2 > 0 then c2\<lparr>entry_count := entry_count c2 - 1\<rparr> else c2))"

text \<open>The first entry that is not in use, or \<open>-1\<close>.\<close>

fun first_free :: "nat \<Rightarrow> entry list \<Rightarrow> int" where
  "first_free i [] = - 1"
| "first_free i (e # es) = (if \<not> in_use e then int i else first_free (Suc i) es)"

definition allocate_entry_index :: "qcache \<Rightarrow> (int \<times> qcache) option" where
  "allocate_entry_index c =
     (let f = (if entry_count c < int (length (entries c)) then first_free 0 (entries c) else - 1) in
      if f \<noteq> - 1 then Some (f, c)
      else if lru_tail c \<noteq> - 1 then
        map_option (\<lambda>c1. (first_free 0 (entries c1), c1)) (remove_entry c (lru_tail c))
      else Some (- 1, c))"

fun find_walk :: "nat \<Rightarrow> entry list \<Rightarrow> string \<Rightarrow> ulong \<Rightarrow> int \<Rightarrow> int option" where
  "find_walk fuel es key h cur =
     (if cur = - 1 then Some (- 1)
      else if cur < 0 \<or> int (length es) \<le> cur then None
      else let e = es ! nat cur in
        if in_use e \<and> hash e = h \<and> strcmp (ekey e) key = 0 then Some cur
        else case fuel of 0 \<Rightarrow> None | Suc n \<Rightarrow> find_walk n es key h (next_hash e))"

definition find_entry_index :: "qcache \<Rightarrow> string \<Rightarrow> ulong \<Rightarrow> int option" where
  "find_entry_index c key h = find_walk (length (entries c)) (entries c) key h (bucket_heads c ! bucket_of c h)"

definition query_cache_clear :: "qcache \<Rightarrow> qcache" where
  "query_cache_clear c =
     c\<lparr>entries := map (\<lambda>e. if in_use e then free_entry else e) (entries c),
       bucket_heads := map (\<lambda>_. - 1) (bucket_heads c), lru_head := - 1, lru_tail := - 1, entry_count := 0\<rparr>"

text \<open>The zeroed global variables, and the first call of \<open>query_cache_init\<close>.\<close>

definition zero_entry :: entry where
  "zero_entry = free_entry\<lparr>next_hash := 0, prev_lru := 0, next_lru := 0\<rparr>"

definition query_cache_zero :: "nat \<Rightarrow> nat \<Rightarrow> qcache" where
  "query_cache_zero n b = \<lparr>initialized = False, bucket_heads = replicate b 0, entries = replicate n zero_entry,
     lru_head = - 1, lru_tail = - 1, entry_count = 0, ttl_ns = QUERY_CACHE_DEFAULT_TTL_NS\<rparr>"

definition query_cache_init :: "ulong \<Rightarrow> qcache \<Rightarrow> qcache" where
  "query_cache_init ttl c =
     (if initialized c then c
      else c\<lparr>bucket_heads := map (\<lambda>_. - 1) (bucket_heads c),
             entries := map (\<lambda>e. e\<lparr>prev_lru := - 1, next_lru := - 1, next_hash := - 1\<rparr>) (entries c),
             lru_head := - 1, lru_tail := - 1, entry_count := 0, ttl_ns := ttl, initialized := True\<rparr>)"

definition query_cache_destroy :: "qcache \<Rightarrow> qcache" where
  "query_cache_destroy c = (query_cache_clear c)\<lparr>initialized := False\<rparr>"

text \<open>The body, if there is a hit, and the reason of a miss.\<close>

definition query_cache_lookup :: "ulong \<Rightarrow> ulong \<Rightarrow> qcache \<Rightarrow> string \<Rightarrow> ulong \<Rightarrow> (string option \<times> miss_reason \<times> qcache) option" where
  "query_cache_lookup ttl now c0 key version =
     (if key = [] then Some (None, MISS_NONE, c0)
      else let c = query_cache_init ttl c0 in
        case find_entry_index c key (hash_key key) of
          None \<Rightarrow> None
        | Some idx \<Rightarrow>
          if idx = - 1 then Some (None, MISS_NO_ENTRY, c)
          else let e = entries c ! nat idx in
            if expire_at_ns e \<le> now then map_option (\<lambda>c1. (None, MISS_TTL_EXPIRED, c1)) (remove_entry c idx)
            else if table_version e \<noteq> version then map_option (\<lambda>c1. (None, MISS_VERSION_CHANGED, c1)) (remove_entry c idx)
            else Some (Some (body e), MISS_NONE, touch_lru_head c idx))"

definition fill_entry :: "ulong \<Rightarrow> string \<Rightarrow> ulong \<Rightarrow> qcache \<Rightarrow> int \<Rightarrow> qcache" where
  "fill_entry now bdy version c idx =
     touch_lru_head (upd_entry c idx (\<lambda>e. e\<lparr>body := bdy, table_version := version, expire_at_ns := now + ttl_ns c\<rparr>)) idx"

definition link_entry :: "string \<Rightarrow> qcache \<Rightarrow> int \<Rightarrow> qcache" where
  "link_entry key c idx =
     (let h = hash_key key; b = bucket_of c h;
          c1 = upd_entry c idx (\<lambda>e. e\<lparr>in_use := True, hash := h, ekey := key, next_hash := bucket_heads c ! b\<rparr>)
      in c1\<lparr>bucket_heads := (bucket_heads c1)[b := idx], entry_count := entry_count c1 + 1\<rparr>)"

definition query_cache_store :: "ulong \<Rightarrow> ulong \<Rightarrow> qcache \<Rightarrow> string \<Rightarrow> ulong \<Rightarrow> string \<Rightarrow> qcache option" where
  "query_cache_store ttl now c0 key version bdy =
     (if key = [] then Some c0
      else if int (length bdy) > QUERY_CACHE_MAX_BODY_BYTES then Some c0
      else let c = query_cache_init ttl c0 in
        case find_entry_index c key (hash_key key) of
          None \<Rightarrow> None
        | Some idx \<Rightarrow>
          if idx \<noteq> - 1 then Some (fill_entry now bdy version c idx)
          else (case allocate_entry_index c of
              None \<Rightarrow> None
            | Some (i, c1) \<Rightarrow>
              if i = - 1 then Some c1
              else Some (fill_entry now bdy version (link_entry key c1 i) i)))"

end
