(* ===== verification/Query_Cache_Correct.thy ===== *)
theory Query_Cache_Correct
  imports Query_Cache "HOL-Library.Multiset"
begin

text \<open>
  The cache refines a map from keys to bodies with a version and an expiry. The chains of the buckets partition the
  entries in use; the LRU list turns out to have at most one element, so that the entry evicted from a full cache is the
  one that was used last.
\<close>

subsection \<open>The invariant\<close>

fun bucket_chain :: "entry list \<Rightarrow> int \<Rightarrow> nat list \<Rightarrow> bool" where
  "bucket_chain es p [] = (p = - 1)"
| "bucket_chain es p (i # is) = (p = int i \<and> i < length es \<and> bucket_chain es (next_hash (es ! i)) is)"

definition used :: "qcache \<Rightarrow> nat set" where
  "used c = {i. i < length (entries c) \<and> in_use (entries c ! i)}"

definition chains_are :: "qcache \<Rightarrow> nat list list \<Rightarrow> bool" where
  "chains_are c chs \<longleftrightarrow> length chs = length (bucket_heads c) \<and>
     (\<forall>b<length chs. bucket_chain (entries c) (bucket_heads c ! b) (chs ! b)) \<and>
     distinct (concat chs) \<and> set (concat chs) = used c"

definition keys_ok :: "qcache \<Rightarrow> nat list list \<Rightarrow> bool" where
  "keys_ok c chs \<longleftrightarrow>
     (\<forall>b<length chs. \<forall>i\<in>set (chs ! b). hash (entries c ! i) = hash_key (ekey (entries c ! i)) \<and>
        bucket_of c (hash (entries c ! i)) = b) \<and>
     inj_on (\<lambda>i. ekey (entries c ! i)) (used c)"

definition lru_ok :: "qcache \<Rightarrow> bool" where
  "lru_ok c \<longleftrightarrow> lru_head c = lru_tail c \<and> (\<forall>e\<in>set (entries c). prev_lru e = - 1 \<and> next_lru e = - 1) \<and>
     (lru_tail c = - 1 \<or> used_index c (lru_tail c)) \<and>
     (entry_count c = int (length (entries c)) \<longrightarrow> lru_tail c \<noteq> - 1)"

definition cache_inv :: "qcache \<Rightarrow> nat list list \<Rightarrow> bool" where
  "cache_inv c chs \<longleftrightarrow> initialized c \<and> 0 < length (bucket_heads c) \<and> length (bucket_heads c) < 2 ^ 64 \<and>
     0 < length (entries c) \<and> chains_are c chs \<and> keys_ok c chs \<and> lru_ok c \<and> entry_count c = int (length (concat chs))"

text \<open>What the cache holds under a key.\<close>

definition cached :: "qcache \<Rightarrow> string \<Rightarrow> (string \<times> ulong \<times> ulong) option" where
  "cached c k = map_option (\<lambda>e. (body e, table_version e, expire_at_ns e))
     (List.find (\<lambda>e. in_use e \<and> ekey e = k) (entries c))"

lemma used_index_used: "used_index c (int i) \<longleftrightarrow> i \<in> used c"
  by (auto simp: used_index_def used_def)

lemma used_index_int: "used_index c i \<Longrightarrow> \<exists>n. i = int n \<and> n \<in> used c"
  by (auto simp: used_index_def used_def intro!: exI [of _ "nat i"])

lemma bucket_of_less: "0 < length (bucket_heads c) \<Longrightarrow> length (bucket_heads c) < 2 ^ 64 \<Longrightarrow> bucket_of c h < length (bucket_heads c)"
proof -
  assume a: "0 < length (bucket_heads c)" "length (bucket_heads c) < 2 ^ 64"
  have "unat (of_nat (length (bucket_heads c)) :: ulong) = length (bucket_heads c)"
    using a(2) by (simp add: unsigned_of_nat take_bit_nat_eq_self)
  then show ?thesis using a(1) by (simp add: bucket_of_def unat_mod)
qed

lemma cached_Some:
  assumes "inj_on (\<lambda>i. ekey (entries c ! i)) (used c)" "i \<in> used c" "ekey (entries c ! i) = k"
  shows "cached c k = Some (body (entries c ! i), table_version (entries c ! i), expire_at_ns (entries c ! i))"
proof -
  have "List.find (\<lambda>e. in_use e \<and> ekey e = k) (entries c) \<noteq> None"
    using assms(2,3) by (auto simp: find_None_iff used_def)
  then obtain e where e: "List.find (\<lambda>e. in_use e \<and> ekey e = k) (entries c) = Some e" by blast
  then obtain j where j: "j < length (entries c)" "in_use (entries c ! j)" "ekey (entries c ! j) = k" "e = entries c ! j"
    by (auto simp: find_Some_iff)
  then have "j = i" using assms by (auto simp: inj_on_def used_def)
  then show ?thesis using e j(4) by (simp add: cached_def)
qed

lemma cached_None: "(\<And>i. i \<in> used c \<Longrightarrow> ekey (entries c ! i) \<noteq> k) \<Longrightarrow> cached c k = None"
  by (auto simp: cached_def find_None_iff used_def in_set_conv_nth)

subsection \<open>Walks along a bucket\<close>

lemma bucket_chain_cong:
  "bucket_chain es p is \<Longrightarrow> length es' = length es \<Longrightarrow> \<forall>i\<in>set is. next_hash (es' ! i) = next_hash (es ! i) \<Longrightarrow>
   bucket_chain es' p is"
  by (induction es p "is" rule: bucket_chain.induct) auto

lemma find_walk_chain:
  "bucket_chain es p is \<Longrightarrow> length is \<le> fuel \<Longrightarrow>
   find_walk fuel es key h p = Some (case List.find (\<lambda>i. in_use (es ! i) \<and> hash (es ! i) = h \<and> ekey (es ! i) = key) is of
     None \<Rightarrow> - 1 | Some i \<Rightarrow> int i)"
proof (induction "is" arbitrary: p fuel)
  case Nil
  then show ?case by (subst find_walk.simps) simp
next
  case (Cons i "is")
  then obtain n where n: "fuel = Suc n" by (cases fuel) auto
  have IH: "find_walk n es key h (next_hash (es ! i)) =
      Some (case List.find (\<lambda>i. in_use (es ! i) \<and> hash (es ! i) = h \<and> ekey (es ! i) = key) is of None \<Rightarrow> - 1 | Some i \<Rightarrow> int i)"
    using Cons n by auto
  show ?case using Cons.prems n IH by (subst find_walk.simps) (auto simp: strcmp_eq Let_def)
qed

text \<open>Removing a node from its chain.\<close>

definition cut_node :: "qcache \<Rightarrow> nat \<Rightarrow> int \<Rightarrow> nat \<Rightarrow> qcache" where
  "cut_node c b prv i =
     upd_entry (if prv = - 1 then c\<lparr>bucket_heads := (bucket_heads c)[b := next_hash (entries c ! i)]\<rparr>
       else upd_entry c prv (\<lambda>e. e\<lparr>next_hash := next_hash (entries c ! i)\<rparr>)) (int i) (\<lambda>e. e\<lparr>next_hash := - 1\<rparr>)"

lemma unlink_walk_chain:
  "bucket_chain (entries c) cur (xs @ i # ys) \<Longrightarrow> i \<notin> set xs \<Longrightarrow> length xs \<le> fuel \<Longrightarrow>
   unlink_walk fuel c b (int i) prv cur = Some (cut_node c b (if xs = [] then prv else int (last xs)) i)"
proof (induction xs arbitrary: cur prv fuel)
  case Nil
  then show ?case by (subst unlink_walk.simps) (simp add: cut_node_def Let_def)
next
  case (Cons x xs)
  then obtain n where n: "fuel = Suc n" by (cases fuel) auto
  have "unlink_walk n c b (int i) (int x) (next_hash (entries c ! x)) =
      Some (cut_node c b (if xs = [] then int x else int (last xs)) i)"
    using Cons n by auto
  then show ?case using Cons.prems n by (subst unlink_walk.simps) auto
qed

lemma bucket_chain_nth: "bucket_chain es p is \<Longrightarrow> i \<in> set is \<Longrightarrow> i < length es"
  by (induction es p "is" rule: bucket_chain.induct) auto

lemma bucket_chain_skip:
  "bucket_chain es p (xs @ i # ys) \<Longrightarrow> distinct (xs @ i # ys) \<Longrightarrow> xs \<noteq> [] \<Longrightarrow> length es' = length es \<Longrightarrow>
   next_hash (es' ! last xs) = next_hash (es ! i) \<Longrightarrow>
   \<forall>j\<in>set (butlast xs) \<union> set ys. next_hash (es' ! j) = next_hash (es ! j) \<Longrightarrow> bucket_chain es' p (xs @ ys)"
proof (induction xs arbitrary: p)
  case (Cons x xs)
  show ?case
  proof (cases "xs = []")
    case True
    then have "bucket_chain es (next_hash (es ! i)) ys" using Cons.prems by simp
    then have "bucket_chain es' (next_hash (es ! i)) ys" using bucket_chain_cong Cons.prems(4,6) by auto
    then show ?thesis using True Cons.prems by simp
  next
    case False
    then show ?thesis using Cons by auto
  qed
qed simp

subsection \<open>Chains and their update\<close>

lemma mset_concat_update:
  "b < length chs \<Longrightarrow> mset (concat (chs[b := zs])) + mset (chs ! b) = mset (concat chs) + mset zs"
  by (induction chs arbitrary: b) (auto simp: nth_Cons' ac_simps split: nat.splits)

lemma nth_mem_update: "i < length xs \<Longrightarrow> i \<noteq> j \<Longrightarrow> xs ! i \<in> set (xs[j := x])"
  by (metis length_list_update nth_list_update_neq nth_mem)

lemma distinct_add_mset:
  assumes "mset xs = add_mset i (mset ys)"
  shows "distinct xs \<longleftrightarrow> i \<notin> set ys \<and> distinct ys" "set xs = insert i (set ys)" "length xs = Suc (length ys)"
proof -
  have m: "mset xs = mset (i # ys)" using assms by simp
  show "distinct xs \<longleftrightarrow> i \<notin> set ys \<and> distinct ys" using mset_eq_imp_distinct_iff [OF m] by simp
  show "set xs = insert i (set ys)" using mset_eq_setD [OF m] by simp
  show "length xs = Suc (length ys)" using mset_eq_length [OF m] by simp
qed

definition payload :: "entry \<Rightarrow> bool \<times> ulong \<times> string \<times> string \<times> ulong \<times> ulong" where
  "payload e = (in_use e, hash e, ekey e, body e, table_version e, expire_at_ns e)"

lemma upd_entry_simps [simp]:
  "length (entries (upd_entry c i f)) = length (entries c)" "bucket_heads (upd_entry c i f) = bucket_heads c"
  "lru_head (upd_entry c i f) = lru_head c" "lru_tail (upd_entry c i f) = lru_tail c"
  "entry_count (upd_entry c i f) = entry_count c" "initialized (upd_entry c i f) = initialized c" "ttl_ns (upd_entry c i f) = ttl_ns c"
  by (simp_all add: upd_entry_def)

lemma upd_entry_nth:
  "j < length (entries c) \<Longrightarrow> 0 \<le> i \<Longrightarrow> entries (upd_entry c i f) ! j = (if int j = i then f (entries c ! j) else entries c ! j)"
  by (auto simp: upd_entry_def nth_list_update)

lemma upd_entry_id: "f (entries c ! nat i) = entries c ! nat i \<Longrightarrow> upd_entry c i f = c"
  by (cases c) (simp add: upd_entry_def)

lemma bucket_of_cong: "length (bucket_heads c') = length (bucket_heads c) \<Longrightarrow> bucket_of c' h = bucket_of c h"
  by (simp add: bucket_of_def)

text \<open>The LRU list never links two entries.\<close>

lemma unlink_from_lru_ok:
  assumes "\<forall>e\<in>set (entries c). prev_lru e = - 1 \<and> next_lru e = - 1" "used_index c idx"
  shows "unlink_from_lru c idx = c\<lparr>lru_head := - 1, lru_tail := - 1\<rparr>"
proof -
  have i: "nat idx < length (entries c)" using assms(2) by (auto simp: used_index_def)
  have e: "prev_lru (entries c ! nat idx) = - 1" "next_lru (entries c ! nat idx) = - 1" using assms(1) nth_mem [OF i] by auto
  have "upd_entry (c\<lparr>lru_head := - 1, lru_tail := - 1\<rparr>) idx (\<lambda>e. e\<lparr>prev_lru := - 1, next_lru := - 1\<rparr>) =
      c\<lparr>lru_head := - 1, lru_tail := - 1\<rparr>"
    by (rule upd_entry_id) (use e in \<open>cases "entries c ! nat idx"; simp\<close>)
  then show ?thesis using assms(2) e by (simp add: unlink_from_lru_def Let_def)
qed

lemma touch_lru_head_ok:
  assumes "\<forall>e\<in>set (entries c). prev_lru e = - 1 \<and> next_lru e = - 1" "used_index c idx"
  shows "touch_lru_head c idx = c\<lparr>lru_head := idx, lru_tail := idx\<rparr>"
proof -
  have i: "nat idx < length (entries c)" using assms(2) by (auto simp: used_index_def)
  have e: "prev_lru (entries c ! nat idx) = - 1" "next_lru (entries c ! nat idx) = - 1" using assms(1) nth_mem [OF i] by auto
  have "upd_entry (c\<lparr>lru_head := - 1, lru_tail := - 1\<rparr>) idx (\<lambda>e. e\<lparr>prev_lru := - 1, next_lru := - 1\<rparr>) =
      c\<lparr>lru_head := - 1, lru_tail := - 1\<rparr>"
    by (rule upd_entry_id) (use e in \<open>cases "entries c ! nat idx"; simp\<close>)
  then show ?thesis using assms(2) unlink_from_lru_ok [OF assms] by (simp add: touch_lru_head_def Let_def)
qed

subsection \<open>Removing an entry\<close>

lemma used_in_bucket:
  assumes "cache_inv c chs" "i \<in> used c"
  shows "bucket_of c (hash (entries c ! i)) < length chs" "i \<in> set (chs ! bucket_of c (hash (entries c ! i)))"
proof -
  have "i \<in> set (concat chs)" using assms by (simp add: cache_inv_def chains_are_def)
  then obtain as where "as \<in> set chs" "i \<in> set as" by auto
  then obtain b where b: "b < length chs" "i \<in> set (chs ! b)" by (metis in_set_conv_nth)
  have "\<forall>b<length chs. \<forall>i\<in>set (chs ! b). bucket_of c (hash (entries c ! i)) = b"
    using assms(1) unfolding cache_inv_def keys_ok_def by blast
  then have "bucket_of c (hash (entries c ! i)) = b" using b by blast
  then show "bucket_of c (hash (entries c ! i)) < length chs" "i \<in> set (chs ! bucket_of c (hash (entries c ! i)))" using b by auto
qed

lemma bucket_disjoint:
  assumes "distinct (concat chs)" "b < length chs" "b' < length chs" "b \<noteq> b'" "j \<in> set (chs ! b)"
  shows "j \<notin> set (chs ! b')"
proof
  assume "j \<in> set (chs ! b')"
  then have "mset (chs ! b) + mset (concat (chs[b := []])) = mset (concat chs)" "j \<in> set (concat (chs[b := []]))"
    using mset_concat_update [OF assms(2), of "[]"] assms(3,4) by (auto simp: add.commute intro!: bexI [of _ "chs ! b'"] nth_mem_update)
  then have "distinct (chs ! b @ concat (chs[b := []]))" using assms(1) by (metis mset_append mset_eq_imp_distinct_iff)
  then show False using assms(5) \<open>j \<in> set (concat (chs[b := []]))\<close> by auto
qed

text \<open>What the links look like after \<open>cut_node\<close>.\<close>

lemma cut_node_nth:
  assumes "prv = - 1 \<or> 0 \<le> prv" "j < length (entries c)" "j \<noteq> i"
  shows "entries (cut_node c b prv i) ! j =
    (if int j = prv then (entries c ! j)\<lparr>next_hash := next_hash (entries c ! i)\<rparr> else entries c ! j)"
proof (cases "prv = - 1")
  case True
  then show ?thesis using assms by (simp add: cut_node_def upd_entry_nth)
next
  case False
  then show ?thesis using assms by (simp add: cut_node_def upd_entry_nth)
qed

lemma cut_node_links:
  assumes "prv = - 1 \<or> 0 \<le> prv" "j < length (entries c)" "j \<noteq> i"
  shows "next_hash (entries (cut_node c b prv i) ! j) = (if int j = prv then next_hash (entries c ! i) else next_hash (entries c ! j))"
    "payload (entries (cut_node c b prv i) ! j) = payload (entries c ! j)"
    "prev_lru (entries (cut_node c b prv i) ! j) = prev_lru (entries c ! j)"
    "next_lru (entries (cut_node c b prv i) ! j) = next_lru (entries c ! j)"
  unfolding cut_node_nth [OF assms] by (simp_all add: payload_def)

lemma cut_node_self:
  assumes "i < length (entries c)" "prv = - 1 \<or> 0 \<le> prv \<and> prv \<noteq> int i"
  shows "entries (cut_node c b prv i) ! i = (entries c ! i)\<lparr>next_hash := - 1\<rparr>"
proof (cases "prv = - 1")
  case True
  then show ?thesis using assms by (simp add: cut_node_def upd_entry_nth)
next
  case False
  then show ?thesis using assms by (simp add: cut_node_def upd_entry_nth)
qed

lemma cut_node_fields [simp]:
  "length (entries (cut_node c b prv i)) = length (entries c)"
  "bucket_heads (cut_node c b prv i) = (if prv = - 1 then (bucket_heads c)[b := next_hash (entries c ! i)] else bucket_heads c)"
  "lru_head (cut_node c b prv i) = lru_head c" "lru_tail (cut_node c b prv i) = lru_tail c"
  "entry_count (cut_node c b prv i) = entry_count c" "initialized (cut_node c b prv i) = initialized c"
  "ttl_ns (cut_node c b prv i) = ttl_ns c"
  by (simp_all add: cut_node_def)

lemma cut_node_chains:
  assumes ch: "\<forall>b<length chs. bucket_chain (entries c) (bucket_heads c ! b) (chs ! b)" and d: "distinct (concat chs)"
    and len: "length chs = length (bucket_heads c)" and b: "b < length chs" "chs ! b = xs @ i # ys"
  defines "c' \<equiv> cut_node c b (if xs = [] then - 1 else int (last xs)) i"
  shows "\<forall>b'<length chs. bucket_chain (entries c') (bucket_heads c' ! b') (chs[b := xs @ ys] ! b')"
proof (intro allI impI)
  fix b' assume b': "b' < length chs"
  let ?prv = "if xs = [] then - 1 else int (last xs)"
  have chb: "bucket_chain (entries c) (bucket_heads c ! b) (xs @ i # ys)" using ch b by metis
  have db: "distinct (xs @ i # ys)" using d b nth_mem [OF b(1)] by (metis distinct_concat_iff)
  have il: "i < length (entries c)" using bucket_chain_nth [OF chb] by simp
  have prv: "?prv = - 1 \<or> 0 \<le> ?prv" by simp
  note links = cut_node_links(1) [OF prv, of _ c i b]
  have lt: "j < length (entries c)" if "j \<in> set (chs ! x)" "x < length chs" for j x
    using bucket_chain_nth ch that by blast
  show "bucket_chain (entries c') (bucket_heads c' ! b') (chs[b := xs @ ys] ! b')"
  proof (cases "b' = b")
    case True
    have ln: "j < length (entries c) \<and> j \<noteq> i" if "j \<in> set (xs @ ys)" for j using that db lt [of j b] b by auto
    have bl: "b < length (bucket_heads c)" using b(1) len by simp
    show ?thesis
    proof (cases "xs = []")
      case xs: True
      have "bucket_chain (entries c) (next_hash (entries c ! i)) ys" using chb xs by simp
      then have "bucket_chain (entries c') (next_hash (entries c ! i)) ys"
        by (rule bucket_chain_cong) (use links ln xs in \<open>auto simp: c'_def\<close>)
      then show ?thesis using True xs b(1) bl by (simp add: c'_def)
    next
      case False
      have nl: "j \<noteq> last xs" if "j \<in> set (butlast xs) \<union> set ys" for j
        using that db False by (metis UnE Un_iff append_butlast_last_id disjoint_iff distinct_append last_in_set not_distinct_conv_prefix set_append set_ConsD list.set_intros(2))
      have "bucket_chain (entries c') (bucket_heads c ! b) (xs @ ys)"
      proof (rule bucket_chain_skip [OF chb db False])
        show "length (entries c') = length (entries c)" by (simp add: c'_def)
        show "next_hash (entries c' ! last xs) = next_hash (entries c ! i)"
          using links [of "last xs"] ln [of "last xs"] False by (simp add: c'_def)
        show "\<forall>j\<in>set (butlast xs) \<union> set ys. next_hash (entries c' ! j) = next_hash (entries c ! j)"
          using links ln nl False in_set_butlastD [of _ xs] by (auto simp: c'_def)
      qed
      then show ?thesis using True False b(1) by (simp add: c'_def)
    qed
  next
    case False
    have out: "j \<notin> set (chs ! b)" if "j \<in> set (chs ! b')" for j
      using bucket_disjoint [OF d b' b(1) False that] .
    have "bucket_chain (entries c') (bucket_heads c ! b') (chs ! b')"
    proof (rule bucket_chain_cong)
      show "bucket_chain (entries c) (bucket_heads c ! b') (chs ! b')" using ch b' by blast
      show "length (entries c') = length (entries c)" by (simp add: c'_def)
      show "\<forall>j\<in>set (chs ! b'). next_hash (entries c' ! j) = next_hash (entries c ! j)"
      proof
        fix j assume j: "j \<in> set (chs ! b')"
        then have "j \<noteq> i" "xs \<noteq> [] \<longrightarrow> j \<noteq> last xs" using out [OF j] b(2) last_in_set [of xs] by auto
        then show "next_hash (entries c' ! j) = next_hash (entries c ! j)"
          using links [OF lt [OF j b']] unfolding c'_def by auto
      qed
    qed
    moreover have "bucket_heads c' ! b' = bucket_heads c ! b'" using False by (simp add: c'_def)
    ultimately show ?thesis using False by simp
  qed
qed


subsection \<open>The map of a cache\<close>

lemma cached_remove:
  assumes "inj_on (\<lambda>i. ekey (entries c ! i)) (used c)" "i \<in> used c" "used c' = used c - {i}"
    and p: "\<And>j. j \<in> used c' \<Longrightarrow> payload (entries c' ! j) = payload (entries c ! j)"
  shows "inj_on (\<lambda>i. ekey (entries c' ! i)) (used c')" "cached c' = (cached c)(ekey (entries c ! i) := None)"
proof -
  have k: "ekey (entries c' ! j) = ekey (entries c ! j)" if "j \<in> used c'" for j using p [OF that] by (simp add: payload_def)
  show inj: "inj_on (\<lambda>i. ekey (entries c' ! i)) (used c')"
    using assms(1,3) k by (auto simp: inj_on_def)
  show "cached c' = (cached c)(ekey (entries c ! i) := None)"
  proof
    fix key
    show "cached c' key = ((cached c)(ekey (entries c ! i) := None)) key"
    proof (cases "\<exists>j\<in>used c'. ekey (entries c' ! j) = key")
      case True
      then obtain j where j: "j \<in> used c'" "ekey (entries c' ! j) = key" by blast
      have "j \<in> used c" "j \<noteq> i" "ekey (entries c ! j) = key" using j k assms(3) by auto
      then have "cached c key = Some (body (entries c ! j), table_version (entries c ! j), expire_at_ns (entries c ! j))"
        "key \<noteq> ekey (entries c ! i)"
        using cached_Some [OF assms(1)] assms(1,2) by (auto simp: inj_on_def)
      then show ?thesis using cached_Some [OF inj j] p [OF j(1)] by (simp add: payload_def)
    next
      case False
      then have "cached c' key = None" using cached_None by blast
      moreover have "cached c key = None" if "key \<noteq> ekey (entries c ! i)"
      proof (rule cached_None)
        fix j assume "j \<in> used c"
        then show "ekey (entries c ! j) \<noteq> key" using False that k assms(3) by (cases "j = i") auto
      qed
      ultimately show ?thesis by simp
    qed
  qed
qed

lemma cached_put:
  assumes "inj_on (\<lambda>i. ekey (entries c ! i)) (used c)" "used c' = insert i (used c)" "ekey (entries c' ! i) = k"
    and p: "\<And>j. j \<in> used c \<Longrightarrow> j \<noteq> i \<Longrightarrow> payload (entries c' ! j) = payload (entries c ! j)"
    and n: "\<And>j. j \<in> used c \<Longrightarrow> j \<noteq> i \<Longrightarrow> ekey (entries c ! j) \<noteq> k" "i \<in> used c \<Longrightarrow> ekey (entries c ! i) = k"
  shows "inj_on (\<lambda>i. ekey (entries c' ! i)) (used c')"
    "cached c' = (cached c)(k \<mapsto> (body (entries c' ! i), table_version (entries c' ! i), expire_at_ns (entries c' ! i)))"
proof -
  have k: "ekey (entries c' ! j) = ekey (entries c ! j)" if "j \<in> used c" "j \<noteq> i" for j using p [OF that] by (simp add: payload_def)
  show inj: "inj_on (\<lambda>i. ekey (entries c' ! i)) (used c')"
  proof (rule inj_onI)
    fix x y assume xy: "x \<in> used c'" "y \<in> used c'" "ekey (entries c' ! x) = ekey (entries c' ! y)"
    then show "x = y" using assms(1-3) k n(1) by (cases "x = i"; cases "y = i") (auto simp: inj_on_def)
  qed
  show "cached c' = (cached c)(k \<mapsto> (body (entries c' ! i), table_version (entries c' ! i), expire_at_ns (entries c' ! i)))"
  proof
    fix key
    show "cached c' key =
      ((cached c)(k \<mapsto> (body (entries c' ! i), table_version (entries c' ! i), expire_at_ns (entries c' ! i)))) key"
    proof (cases "key = k")
      case True
      then show ?thesis using cached_Some [OF inj, of i key] assms(2,3) by simp
    next
      case False
      show ?thesis
      proof (cases "\<exists>j\<in>used c. ekey (entries c ! j) = key")
        case True
        then obtain j where j: "j \<in> used c" "ekey (entries c ! j) = key" by blast
        then have ji: "j \<noteq> i" using n(2) False by auto
        then have "j \<in> used c'" "ekey (entries c' ! j) = key" using j k assms(2) by auto
        then show ?thesis using cached_Some [OF inj] cached_Some [OF assms(1) j] p [OF j(1) ji] False by (simp add: payload_def)
      next
        case none: False
        have "cached c' key = None"
        proof (rule cached_None)
          fix j assume "j \<in> used c'"
          then show "ekey (entries c' ! j) \<noteq> key" using none False k assms(2,3) by (cases "j = i") auto
        qed
        then show ?thesis using cached_None [of c key] none False by auto
      qed
    qed
  qed
qed

subsection \<open>The operations\<close>

lemma cache_inv_facts:
  assumes "cache_inv c chs"
  shows "length chs = length (bucket_heads c)" "0 < length (bucket_heads c)" "length (bucket_heads c) < 2 ^ 64"
    "\<forall>b<length chs. bucket_chain (entries c) (bucket_heads c ! b) (chs ! b)" "distinct (concat chs)" "set (concat chs) = used c"
    "\<forall>b<length chs. \<forall>i\<in>set (chs ! b). hash (entries c ! i) = hash_key (ekey (entries c ! i)) \<and> bucket_of c (hash (entries c ! i)) = b"
    "inj_on (\<lambda>i. ekey (entries c ! i)) (used c)" "lru_head c = lru_tail c" "\<forall>e\<in>set (entries c). prev_lru e = - 1 \<and> next_lru e = - 1"
    "lru_tail c = - 1 \<or> used_index c (lru_tail c)" "entry_count c = int (length (entries c)) \<longrightarrow> lru_tail c \<noteq> - 1"
    "initialized c" "0 < length (entries c)" "entry_count c = int (length (concat chs))"
  using assms unfolding cache_inv_def chains_are_def keys_ok_def lru_ok_def by blast+

lemma used_finite: "finite (used c)" "card (used c) \<le> length (entries c)"
proof -
  have "used c \<subseteq> {..<length (entries c)}" by (auto simp: used_def)
  then show "finite (used c)" "card (used c) \<le> length (entries c)"
    using finite_subset card_mono [of "{..<length (entries c)}" "used c"] by auto
qed

lemma entry_count_card: "cache_inv c chs \<Longrightarrow> entry_count c = int (card (used c))"
  using cache_inv_facts(5,6,15) distinct_card by metis

lemma hash_of_used:
  assumes "cache_inv c chs" "i \<in> used c"
  shows "hash (entries c ! i) = hash_key (ekey (entries c ! i))"
  using used_in_bucket [OF assms] cache_inv_facts(7) [OF assms(1)] by blast

lemma find_entry_index_ok:
  assumes inv: "cache_inv c chs"
  shows "i \<in> used c \<Longrightarrow> ekey (entries c ! i) = key \<Longrightarrow> find_entry_index c key (hash_key key) = Some (int i)"
    "\<forall>i\<in>used c. ekey (entries c ! i) \<noteq> key \<Longrightarrow> find_entry_index c key (hash_key key) = Some (- 1)"
proof -
  note f = cache_inv_facts [OF inv]
  let ?b = "bucket_of c (hash_key key)"
  let ?P = "\<lambda>i. in_use (entries c ! i) \<and> hash (entries c ! i) = hash_key key \<and> ekey (entries c ! i) = key"
  have b: "?b < length chs" using bucket_of_less f(1-3) by simp
  have sub: "set (chs ! ?b) \<subseteq> used c" using f(6) b by auto
  have "distinct (chs ! ?b)" using f(5) b by (metis distinct_concat_iff nth_mem)
  then have "length (chs ! ?b) \<le> length (entries c)"
    using distinct_card [of "chs ! ?b"] card_mono [OF used_finite(1) sub] used_finite(2) [of c] by linarith
  then have walk: "find_entry_index c key (hash_key key) =
      Some (case List.find ?P (chs ! ?b) of None \<Rightarrow> - 1 | Some i \<Rightarrow> int i)"
    unfolding find_entry_index_def using find_walk_chain f(4) b by blast
  {
    assume i: "i \<in> used c" "ekey (entries c ! i) = key"
    have "i \<in> set (chs ! ?b)" "?P i" using used_in_bucket(2) [OF inv i(1)] hash_of_used [OF inv i(1)] i by (auto simp: used_def)
    then obtain j where j: "List.find ?P (chs ! ?b) = Some j" by (metis (mono_tags, lifting) find_None_iff not_None_eq)
    then have "j \<in> set (chs ! ?b)" "ekey (entries c ! j) = key" by (auto simp: find_Some_iff)
    then have "j = i" using f(8) i sub by (auto simp: inj_on_def)
    then show "find_entry_index c key (hash_key key) = Some (int i)" using walk j by simp
  }
  {
    assume "\<forall>i\<in>used c. ekey (entries c ! i) \<noteq> key"
    then have "List.find ?P (chs ! ?b) = None" using sub by (auto simp: find_None_iff)
    then show "find_entry_index c key (hash_key key) = Some (- 1)" using walk by simp
  }
qed


lemma used_cong:
  "length (entries c') = length (entries c) \<Longrightarrow> (\<And>j. j < length (entries c) \<Longrightarrow> in_use (entries c' ! j) = in_use (entries c ! j)) \<Longrightarrow>
   used c' = used c"
  by (auto simp: used_def)

lemma payload_fields:
  "payload e = payload e' \<Longrightarrow> in_use e = in_use e' \<and> hash e = hash e' \<and> ekey e = ekey e'"
  by (simp add: payload_def)

text \<open>The result of \<open>remove_entry\<close> on an entry in use.\<close>

definition removed :: "qcache \<Rightarrow> nat \<Rightarrow> int \<Rightarrow> nat \<Rightarrow> qcache" where
  "removed c b prv i = (upd_entry (cut_node c b prv i) (int i) (\<lambda>_. free_entry))
     \<lparr>lru_head := - 1, lru_tail := - 1, entry_count := entry_count c - 1\<rparr>"

lemma remove_entry_eq:
  assumes inv: "cache_inv c chs" and i: "i \<in> used c"
  defines "b \<equiv> bucket_of c (hash (entries c ! i))"
  assumes split: "chs ! b = xs @ i # ys"
  shows "remove_entry c (int i) = Some (removed c b (if xs = [] then - 1 else int (last xs)) i)"
proof -
  note f = cache_inv_facts [OF inv]
  let ?prv = "if xs = [] then - 1 else int (last xs)" and ?c1 = "cut_node c b (if xs = [] then - 1 else int (last xs)) i"
  have b: "b < length chs" using used_in_bucket(1) [OF inv i] by (simp add: b_def)
  have db: "distinct (xs @ i # ys)" using f(5) b split by (metis distinct_concat_iff nth_mem)
  have il: "i < length (entries c)" using i by (simp add: used_def)
  have "set (chs ! b) \<subseteq> used c" using f(6) b by auto
  then have xl: "length xs \<le> length (entries c)"
    using card_mono [OF used_finite(1)] distinct_card [OF db] used_finite(2) [of c] split
    by (metis (no_types, lifting) add_leD1 le_trans length_append)
  have "bucket_chain (entries c) (bucket_heads c ! b) (xs @ i # ys)" using f(4) b split by metis
  then have "unlink_walk (length (entries c)) c b (int i) (- 1) (bucket_heads c ! b) = Some ?c1"
    using unlink_walk_chain [of c "bucket_heads c ! b" xs i ys "length (entries c)" b "- 1"] db xl by simp
  then have u: "unlink_from_bucket c (int i) = Some ?c1"
    using i used_index_used by (simp add: unlink_from_bucket_def b_def Let_def)
  have prv: "?prv = - 1 \<or> 0 \<le> ?prv \<and> ?prv \<noteq> int i" using db by (cases xs rule: rev_cases) auto
  then have prv': "?prv = - 1 \<or> 0 \<le> ?prv" by blast
  note self = cut_node_self [OF il prv, of b]
  have "\<forall>e\<in>set (entries ?c1). prev_lru e = - 1 \<and> next_lru e = - 1"
  proof
    fix e assume "e \<in> set (entries ?c1)"
    then obtain j where j: "j < length (entries c)" "e = entries ?c1 ! j" by (auto simp: in_set_conv_nth)
    have "prev_lru (entries c ! j) = - 1 \<and> next_lru (entries c ! j) = - 1" using f(10) nth_mem [OF j(1)] by blast
    then show "prev_lru e = - 1 \<and> next_lru e = - 1"
      using cut_node_links(3,4) [OF prv' j(1), of i b] self j(2) by (cases "j = i") auto
  qed
  moreover have "used_index ?c1 (int i)"
    using i self by (simp add: used_index_def used_def)
  ultimately have l: "unlink_from_lru ?c1 (int i) = ?c1\<lparr>lru_head := - 1, lru_tail := - 1\<rparr>" by (rule unlink_from_lru_ok)
  have "0 < entry_count c" using entry_count_card [OF inv] i used_finite(1) by (simp add: card_gt_0_iff) blast
  then show ?thesis using u l i used_index_used [of c i]
    by (simp add: remove_entry_def Let_def removed_def upd_entry_def del: cut_node_fields) (simp add: cut_node_fields)
qed

lemma remove_entry_ok:
  assumes inv: "cache_inv c chs" and i: "i \<in> used c"
  obtains c' chs' where "remove_entry c (int i) = Some c'" "cache_inv c' chs'" "used c' = used c - {i}"
    "cached c' = (cached c)(ekey (entries c ! i) := None)" "entry_count c' = entry_count c - 1"
    "length (entries c') = length (entries c)" "length (bucket_heads c') = length (bucket_heads c)" "ttl_ns c' = ttl_ns c"
proof -
  note f = cache_inv_facts [OF inv]
  define b where "b = bucket_of c (hash (entries c ! i))"
  have b: "b < length chs" "i \<in> set (chs ! b)" using used_in_bucket [OF inv i] by (auto simp: b_def)
  obtain xs ys where split: "chs ! b = xs @ i # ys" using split_list [OF b(2)] by blast
  define prv where "prv = (if xs = [] then - 1 else int (last xs))"
  define c1 where "c1 = cut_node c b prv i"
  define c' where "c' = removed c b prv i"
  let ?chs = "chs[b := xs @ ys]"
  have r: "remove_entry c (int i) = Some c'"
    using remove_entry_eq [OF inv i] split by (simp add: b_def c'_def prv_def)
  have il: "i < length (entries c)" using i by (simp add: used_def)
  have prv: "prv = - 1 \<or> 0 \<le> prv" by (simp add: prv_def)
  have len: "length (entries c') = length (entries c)" "length (bucket_heads c') = length (bucket_heads c)"
    by (auto simp: c'_def removed_def)
  have bh: "bucket_heads c' = bucket_heads c1" by (simp add: c'_def removed_def c1_def)
  have at: "entries c' ! j = (if j = i then free_entry else entries c1 ! j)" if "j < length (entries c)" for j
    using that by (simp add: c'_def removed_def c1_def upd_entry_nth)
  have pl: "payload (entries c' ! j) = payload (entries c ! j)" if "j < length (entries c)" "j \<noteq> i" for j
    using at that cut_node_links(2) [OF prv that, of b] by (simp add: c1_def)
  have u: "used c' = used c - {i}"
  proof (intro set_eqI)
    fix j show "j \<in> used c' \<longleftrightarrow> j \<in> used c - {i}"
      using at [of j] pl [of j] len payload_fields [of "entries c' ! j" "entries c ! j"]
      by (cases "j = i") (auto simp: used_def free_entry_def)
  qed
  have pu: "payload (entries c' ! j) = payload (entries c ! j)" if "j \<in> used c'" for j using that u pl by (auto simp: used_def)
  note cr = cached_remove [OF f(8) i u pu]
  have m: "mset (concat chs) = add_mset i (mset (concat ?chs))"
    using mset_concat_update [OF b(1), of "xs @ ys"] split by simp
  note dm = distinct_add_mset [OF m]
  have ni: "i \<notin> set (concat ?chs)" and dc: "distinct (concat ?chs)" using dm(1) f(5) by auto
  have sc: "set (concat ?chs) = used c'" using dm(2) ni f(6) u by auto
  have "\<forall>x<length chs. bucket_chain (entries c1) (bucket_heads c1 ! x) (?chs ! x)"
    unfolding c1_def prv_def by (rule cut_node_chains [OF f(4,5,1) b(1) split])
  then have chains: "\<forall>x<length ?chs. bucket_chain (entries c') (bucket_heads c' ! x) (?chs ! x)"
  proof (intro allI impI)
    fix x assume a: "\<forall>x<length chs. bucket_chain (entries c1) (bucket_heads c1 ! x) (?chs ! x)" and x: "x < length ?chs"
    have "i \<notin> set (?chs ! x)" using ni x by auto
    moreover have "j < length (entries c)" if "j \<in> set (?chs ! x)" for j
    proof -
      have "j \<in> set (concat ?chs)" using that x by auto
      then show ?thesis using sc u by (auto simp: used_def)
    qed
    ultimately have "\<forall>j\<in>set (?chs ! x). next_hash (entries c' ! j) = next_hash (entries c1 ! j)" using at by metis
    then show "bucket_chain (entries c') (bucket_heads c' ! x) (?chs ! x)"
      unfolding bh using bucket_chain_cong [of "entries c1"] a x len by (simp add: c1_def)
  qed
  have hk: "hash (entries c' ! j) = hash_key (ekey (entries c' ! j)) \<and> bucket_of c' (hash (entries c' ! j)) = x"
    if x: "x < length ?chs" "j \<in> set (?chs ! x)" for x j
  proof -
    have "j \<in> used c'" using x sc by auto
    then have p: "payload (entries c' ! j) = payload (entries c ! j)" by (rule pu)
    have "j \<in> set (chs ! x)" using x split by (cases "x = b") auto
    then have "hash (entries c ! j) = hash_key (ekey (entries c ! j)) \<and> bucket_of c (hash (entries c ! j)) = x"
      using f(7) x(1) unfolding length_list_update by blast
    then show ?thesis using payload_fields [OF p] bucket_of_cong [OF len(2)] by metis
  qed
  then have hks: "\<forall>x<length ?chs. \<forall>j\<in>set (?chs ! x). hash (entries c' ! j) = hash_key (ekey (entries c' ! j)) \<and>
      bucket_of c' (hash (entries c' ! j)) = x"
    by blast
  have cnt: "entry_count c' = int (length (concat ?chs))" using f(15) dm(3) by (simp add: c'_def removed_def)
  have lru: "\<forall>e\<in>set (entries c'). prev_lru e = - 1 \<and> next_lru e = - 1"
  proof
    fix e assume "e \<in> set (entries c')"
    then obtain j where j: "j < length (entries c)" "e = entries c' ! j" using len by (auto simp: in_set_conv_nth)
    have "prev_lru (entries c ! j) = - 1 \<and> next_lru (entries c ! j) = - 1" using f(10) nth_mem [OF j(1)] by blast
    then show "prev_lru e = - 1 \<and> next_lru e = - 1"
      using at [OF j(1)] cut_node_links(3,4) [OF prv j(1), of i b] j(2) by (auto simp: c1_def free_entry_def)
  qed
  have "entry_count c \<le> int (length (entries c))" using entry_count_card [OF inv] used_finite(2) [of c] by simp
  then have ln: "entry_count c' \<noteq> int (length (entries c'))" using len by (simp add: c'_def removed_def)
  have "cache_inv c' ?chs"
    unfolding cache_inv_def chains_are_def keys_ok_def lru_ok_def
    using f(1-3,13,14) chains dc sc hks cr(1) lru ln cnt len
    by (intro conjI; (assumption | simp add: c'_def removed_def))
  then show thesis
    by (rule that [OF r _ u cr(2)]) (simp_all add: c'_def removed_def)
qed

text \<open>The entry that \<open>query_cache_store\<close> writes at the index \<open>i\<close>.\<close>

definition stored_entry :: "ulong \<Rightarrow> string \<Rightarrow> ulong \<Rightarrow> string \<Rightarrow> qcache \<Rightarrow> nat \<Rightarrow> entry" where
  "stored_entry now key version bdy c i = (entries c ! i)\<lparr>in_use := True, hash := hash_key key, ekey := key, body := bdy,
     table_version := version, expire_at_ns := now + ttl_ns c\<rparr>"

lemma fill_entry_eq:
  assumes lru: "\<forall>e\<in>set (entries c). prev_lru e = - 1 \<and> next_lru e = - 1" and i: "i \<in> used c"
    "ekey (entries c ! i) = key" "hash (entries c ! i) = hash_key key"
  shows "fill_entry now bdy version c (int i) =
    c\<lparr>entries := (entries c)[i := stored_entry now key version bdy c i], lru_head := int i, lru_tail := int i\<rparr>"
proof -
  let ?c = "c\<lparr>entries := (entries c)[i := stored_entry now key version bdy c i]\<rparr>"
  have il: "i < length (entries c)" "in_use (entries c ! i)" using i by (auto simp: used_def)
  have "upd_entry c (int i) (\<lambda>e. e\<lparr>body := bdy, table_version := version, expire_at_ns := now + ttl_ns c\<rparr>) = ?c"
    using i(2,3) il by (cases "entries c ! i") (simp add: upd_entry_def stored_entry_def)
  moreover have "\<forall>e\<in>set (entries ?c). prev_lru e = - 1 \<and> next_lru e = - 1"
    using lru il by (auto simp: stored_entry_def dest!: set_update_subset_insert [THEN subsetD])
  moreover have "used_index ?c (int i)" using il by (simp add: used_index_def stored_entry_def)
  ultimately show ?thesis using touch_lru_head_ok [of ?c "int i"] by (simp add: fill_entry_def)
qed

lemma fill_entry_ok:
  assumes inv: "cache_inv c chs" and i: "i \<in> used c" "ekey (entries c ! i) = key"
    and c'_def: "c' = fill_entry now bdy version c (int i)"
  shows "cache_inv c' chs" "cached c' = (cached c)(key \<mapsto> (bdy, version, now + ttl_ns c))" "lru_tail c' = int i"
    "entry_count c' = entry_count c" "length (entries c') = length (entries c)" "length (bucket_heads c') = length (bucket_heads c)"
    "ttl_ns c' = ttl_ns c"
proof -
  note f = cache_inv_facts [OF inv]
  let ?E = "stored_entry now key version bdy c i"
  have il: "i < length (entries c)" "in_use (entries c ! i)" using i by (auto simp: used_def)
  have c': "c' = c\<lparr>entries := (entries c)[i := ?E], lru_head := int i, lru_tail := int i\<rparr>"
    unfolding c'_def by (rule fill_entry_eq [OF f(10) i]) (use hash_of_used [OF inv i(1)] i(2) in simp)
  show fields: "lru_tail c' = int i" "entry_count c' = entry_count c" "length (entries c') = length (entries c)"
    "length (bucket_heads c') = length (bucket_heads c)" "ttl_ns c' = ttl_ns c"
    by (simp_all add: c')
  have at: "entries c' ! j = (if j = i then ?E else entries c ! j)" for j using il by (simp add: c' nth_list_update)
  have u: "used c' = insert i (used c)" using i(1) il at by (auto simp: used_def stored_entry_def fields(3))
  have k: "ekey (entries c ! j) \<noteq> key" if "j \<in> used c" "j \<noteq> i" for j using f(8) i that by (auto simp: inj_on_def)
  have Ei: "ekey (entries c' ! i) = key" by (simp add: at stored_entry_def)
  have pj: "payload (entries c' ! j) = payload (entries c ! j)" if "j \<in> used c" "j \<noteq> i" for j using that at by simp
  have put: "inj_on (\<lambda>i. ekey (entries c' ! i)) (used c')"
    "cached c' = (cached c)(key \<mapsto> (body (entries c' ! i), table_version (entries c' ! i), expire_at_ns (entries c' ! i)))"
    using cached_put [OF f(8) u Ei pj k] i(2) by auto
  show "cached c' = (cached c)(key \<mapsto> (bdy, version, now + ttl_ns c))" using put(2) by (simp add: at stored_entry_def)
  have hk: "hash (entries c' ! j) = hash (entries c ! j)" "ekey (entries c' ! j) = ekey (entries c ! j)"
    "next_hash (entries c' ! j) = next_hash (entries c ! j)" for j
    using i hash_of_used [OF inv i(1)] by (auto simp: at stored_entry_def)
  have "\<forall>b<length chs. bucket_chain (entries c') (bucket_heads c' ! b) (chs ! b)"
    using f(4) bucket_chain_cong [of "entries c"] hk(3) by (simp add: c')
  moreover have "\<forall>b<length chs. \<forall>i\<in>set (chs ! b). hash (entries c' ! i) = hash_key (ekey (entries c' ! i)) \<and> bucket_of c' (hash (entries c' ! i)) = b"
    unfolding hk bucket_of_cong [OF fields(4)] by (rule f(7))
  moreover have "\<forall>e\<in>set (entries c'). prev_lru e = - 1 \<and> next_lru e = - 1"
    using f(10) il by (auto simp: c' stored_entry_def dest!: set_update_subset_insert [THEN subsetD])
  moreover have "used c' = used c" using u i by auto
  moreover have "used_index c' (int i)" using il by (simp add: used_index_def at fields(3) stored_entry_def)
  ultimately show "cache_inv c' chs"
    unfolding cache_inv_def chains_are_def keys_ok_def lru_ok_def
    using f(1-3,5,6,13-15) put(1) fields by (intro conjI; (assumption | simp add: c'))
qed

text \<open>A new entry is linked in front of its chain.\<close>

lemma link_entry_at:
  assumes "i < length (entries c)"
  shows "entries (link_entry key c (int i)) ! j =
    (if j = i then (entries c ! i)\<lparr>in_use := True, hash := hash_key key, ekey := key,
        next_hash := bucket_heads c ! bucket_of c (hash_key key)\<rparr> else entries c ! j)"
  using assms by (simp add: link_entry_def Let_def upd_entry_def nth_list_update)

lemma link_entry_fields [simp]:
  "length (entries (link_entry key c i)) = length (entries c)"
  "bucket_heads (link_entry key c i) = (bucket_heads c)[bucket_of c (hash_key key) := i]"
  "entry_count (link_entry key c i) = entry_count c + 1" "lru_head (link_entry key c i) = lru_head c"
  "lru_tail (link_entry key c i) = lru_tail c" "initialized (link_entry key c i) = initialized c" "ttl_ns (link_entry key c i) = ttl_ns c"
  by (simp_all add: link_entry_def Let_def)

lemma link_entry_ok:
  assumes inv: "cache_inv c chs" and i: "i < length (entries c)" "i \<notin> used c" and new: "\<forall>j\<in>used c. ekey (entries c ! j) \<noteq> key"
    and c'_def: "c' = (link_entry key c (int i))\<lparr>lru_head := int i, lru_tail := int i\<rparr>"
  obtains chs' where "cache_inv c' chs'" "i \<in> used c'" "ekey (entries c' ! i) = key" "\<And>k. k \<noteq> key \<Longrightarrow> cached c' k = cached c k"
proof -
  note f = cache_inv_facts [OF inv]
  define b where "b = bucket_of c (hash_key key)"
  let ?chs = "chs[b := i # chs ! b]"
  have b: "b < length chs" unfolding b_def using bucket_of_less f(1-3) by simp
  have len: "length (entries c') = length (entries c)" "length (bucket_heads c') = length (bucket_heads c)" by (simp_all add: c'_def)
  have at: "entries c' ! j = (if j = i then (entries c ! i)\<lparr>in_use := True, hash := hash_key key, ekey := key,
        next_hash := bucket_heads c ! b\<rparr> else entries c ! j)" for j
    using link_entry_at [OF i(1)] by (simp add: c'_def b_def)
  have bh: "bucket_heads c' = (bucket_heads c)[b := int i]" by (simp add: c'_def b_def)
  have u: "used c' = insert i (used c)" using i(1) by (auto simp: used_def len at)
  have Ei: "ekey (entries c' ! i) = key" by (simp add: at)
  have pj: "payload (entries c' ! j) = payload (entries c ! j)" if "j \<in> used c" "j \<noteq> i" for j using that at by simp
  have nk: "ekey (entries c ! j) \<noteq> key" if "j \<in> used c" "j \<noteq> i" for j using new that(1) by blast
  have put: "inj_on (\<lambda>i. ekey (entries c' ! i)) (used c')"
    "cached c' = (cached c)(key \<mapsto> (body (entries c' ! i), table_version (entries c' ! i), expire_at_ns (entries c' ! i)))"
    using cached_put [OF f(8) u Ei pj nk] i(2) by auto
  have m: "mset (concat ?chs) = add_mset i (mset (concat chs))"
    using mset_concat_update [OF b, of "i # chs ! b"] by simp
  note dm = distinct_add_mset [OF m]
  have dc: "distinct (concat ?chs)" using dm(1) f(5,6) i(2) by blast
  have sc: "set (concat ?chs) = used c'" using dm(2) f(6) u by simp
  have old: "bucket_chain (entries c') (bucket_heads c ! x) (chs ! x)" if x: "x < length chs" for x
  proof (rule bucket_chain_cong)
    show "bucket_chain (entries c) (bucket_heads c ! x) (chs ! x)" using f(4) x by blast
    have "i \<notin> set (chs ! x)" using f(6) i(2) x by auto
    then show "\<forall>j\<in>set (chs ! x). next_hash (entries c' ! j) = next_hash (entries c ! j)" using at by auto
  qed (rule len)
  have chains: "\<forall>x<length ?chs. bucket_chain (entries c') (bucket_heads c' ! x) (?chs ! x)"
  proof (intro allI impI)
    fix x assume "x < length ?chs"
    then show "bucket_chain (entries c') (bucket_heads c' ! x) (?chs ! x)"
      using old [of x] at [of i] b f(1) i(1) len by (cases "x = b") (simp_all add: bh)
  qed
  have hk: "hash (entries c' ! j) = hash_key (ekey (entries c' ! j)) \<and> bucket_of c' (hash (entries c' ! j)) = x"
    if x: "x < length ?chs" "j \<in> set (?chs ! x)" for x j
  proof (cases "j = i")
    case True
    then have "x = b" using x f(6) i(2) by (cases "x = b") auto
    then show ?thesis using True at [of i] bucket_of_cong [OF len(2)] by (simp add: b_def)
  next
    case False
    then have "j \<in> set (chs ! x)" using x b by (cases "x = b") auto
    then have "hash (entries c ! j) = hash_key (ekey (entries c ! j)) \<and> bucket_of c (hash (entries c ! j)) = x"
      using f(7) x(1) unfolding length_list_update by blast
    moreover have "entries c' ! j = entries c ! j" using False at [of j] by simp
    ultimately show ?thesis using bucket_of_cong [OF len(2)] by metis
  qed
  then have hks: "\<forall>x<length ?chs. \<forall>j\<in>set (?chs ! x). hash (entries c' ! j) = hash_key (ekey (entries c' ! j)) \<and>
      bucket_of c' (hash (entries c' ! j)) = x"
    by blast
  have lru: "\<forall>e\<in>set (entries c'). prev_lru e = - 1 \<and> next_lru e = - 1"
  proof
    fix e assume "e \<in> set (entries c')"
    then obtain j where j: "j < length (entries c)" "e = entries c' ! j" using len by (auto simp: in_set_conv_nth)
    have "prev_lru (entries c ! j) = - 1 \<and> next_lru (entries c ! j) = - 1" using f(10) nth_mem [OF j(1)] by blast
    then show "prev_lru e = - 1 \<and> next_lru e = - 1" using at [of j] j(2) by auto
  qed
  have cnt: "entry_count c' = int (length (concat ?chs))" using f(15) dm(3) by (simp add: c'_def)
  have "used_index c' (int i)" using u used_index_used by blast
  then have "cache_inv c' ?chs"
    unfolding cache_inv_def chains_are_def keys_ok_def lru_ok_def
    using f(1-3,13,14) chains dc sc hks put(1) lru cnt len
    by (intro conjI; (assumption | simp add: c'_def))
  then show thesis by (rule that) (use u Ei put(2) in auto)
qed

lemma store_new_ok:
  assumes inv: "cache_inv c chs" and i: "i < length (entries c)" "i \<notin> used c" and new: "\<forall>j\<in>used c. ekey (entries c ! j) \<noteq> key"
    and c'_def: "c' = fill_entry now bdy version (link_entry key c (int i)) (int i)"
  obtains chs' where "cache_inv c' chs'" "cached c' = (cached c)(key \<mapsto> (bdy, version, now + ttl_ns c))" "lru_tail c' = int i"
    "entry_count c' = entry_count c + 1" "length (entries c') = length (entries c)" "length (bucket_heads c') = length (bucket_heads c)"
    "ttl_ns c' = ttl_ns c"
proof -
  define c1 where "c1 = link_entry key c (int i)"
  define c2 where "c2 = c1\<lparr>lru_head := int i, lru_tail := int i\<rparr>"
  obtain chs' where ok: "cache_inv c2 chs'" "i \<in> used c2" "ekey (entries c2 ! i) = key" "\<And>k. k \<noteq> key \<Longrightarrow> cached c2 k = cached c k"
    using link_entry_ok [OF inv i new] unfolding c2_def c1_def by blast
  note g = cache_inv_facts [OF ok(1)]
  have h: "hash (entries c2 ! i) = hash_key key" using hash_of_used [OF ok(1,2)] ok(3) by simp
  have e: "entries c2 = entries c1" "used c2 = used c1" "ttl_ns c2 = ttl_ns c1" by (auto simp: c2_def used_def)
  have f1: "fill_entry now bdy version c1 (int i) =
      c1\<lparr>entries := (entries c1)[i := stored_entry now key version bdy c1 i], lru_head := int i, lru_tail := int i\<rparr>"
    by (rule fill_entry_eq) (use g(10) ok h e in auto)
  have "fill_entry now bdy version c2 (int i) =
      c2\<lparr>entries := (entries c2)[i := stored_entry now key version bdy c2 i], lru_head := int i, lru_tail := int i\<rparr>"
    by (rule fill_entry_eq [OF g(10) ok(2,3) h])
  then have eq: "c' = fill_entry now bdy version c2 (int i)" using f1 c'_def by (simp add: c2_def c1_def stored_entry_def)
  note r = fill_entry_ok [OF ok(1-3) eq]
  have t: "ttl_ns c2 = ttl_ns c" by (simp add: c2_def c1_def)
  have "(cached c2)(key \<mapsto> v) = (cached c)(key \<mapsto> v)" for v using ok(4) by auto
  then show thesis using that [OF r(1)] r(2-) t by (simp add: c2_def c1_def)
qed

end
