(* ===== verification/Query_Cache_Props.thy ===== *)
theory Query_Cache_Props
  imports Query_Cache_Correct
begin

text \<open>
  The properties of the query cache over all its runs: lookups and stores refine a map with versions and expiry, a hit
  returns what was stored, and the entry a full cache evicts.
\<close>

subsection \<open>Finding room\<close>

lemma first_free_cases:
  "(first_free k es = - 1 \<and> (\<forall>e\<in>set es. in_use e)) \<or> (\<exists>i<length es. first_free k es = int (k + i) \<and> \<not> in_use (es ! i))"
proof (induction es arbitrary: k)
  case (Cons e es)
  show ?case
  proof (cases "in_use e")
    case True
    consider "first_free (Suc k) es = - 1" "\<forall>e\<in>set es. in_use e"
      | i where "i < length es" "first_free (Suc k) es = int (Suc k + i)" "\<not> in_use (es ! i)"
      using Cons.IH [of "Suc k"] by blast
    then show ?thesis
    proof cases
      case 2
      then show ?thesis using True by (intro disjI2 exI [of _ "Suc i"]) simp
    qed (use True in simp)
  qed (auto intro!: exI [of _ 0])
qed simp

lemma first_free_ok:
  assumes "card (used c) < length (entries c)"
  obtains i where "first_free 0 (entries c) = int i" "i < length (entries c)" "i \<notin> used c"
proof -
  have "\<not> (\<forall>e\<in>set (entries c). in_use e)"
  proof
    assume "\<forall>e\<in>set (entries c). in_use e"
    then have "used c = {..<length (entries c)}" by (auto simp: used_def)
    then show False using assms by simp
  qed
  then obtain i where "i < length (entries c)" "first_free 0 (entries c) = int i" "\<not> in_use (entries c ! i)"
    using first_free_cases [of 0 "entries c"] by auto
  then show thesis using that by (auto simp: used_def)
qed

lemma allocate_room:
  assumes "cache_inv c chs" "card (used c) < length (entries c)"
  obtains i where "allocate_entry_index c = Some (int i, c)" "i < length (entries c)" "i \<notin> used c"
proof -
  obtain i where i: "first_free 0 (entries c) = int i" "i < length (entries c)" "i \<notin> used c"
    using first_free_ok [OF assms(2)] .
  then have "allocate_entry_index c = Some (int i, c)"
    using entry_count_card [OF assms(1)] assms(2) by (simp add: allocate_entry_index_def)
  then show thesis using that i by blast
qed

lemma allocate_full:
  assumes inv: "cache_inv c chs" and full: "card (used c) = length (entries c)"
  obtains t i c' chs' where "lru_tail c = int t" "t \<in> used c" "allocate_entry_index c = Some (int i, c')" "cache_inv c' chs'"
    "i < length (entries c')" "i \<notin> used c'" "used c' = used c - {t}" "cached c' = (cached c)(ekey (entries c ! t) := None)"
    "length (entries c') = length (entries c)" "length (bucket_heads c') = length (bucket_heads c)" "ttl_ns c' = ttl_ns c"
    "\<And>j. j \<in> used c' \<Longrightarrow> ekey (entries c' ! j) \<in> dom (cached c')"
proof -
  note f = cache_inv_facts [OF inv]
  have cnt: "entry_count c = int (length (entries c))" using entry_count_card [OF inv] full by simp
  then obtain t where t: "lru_tail c = int t" "t \<in> used c" using f(11,12) used_index_int by blast
  obtain c' chs' where r: "remove_entry c (int t) = Some c'" "cache_inv c' chs'" "used c' = used c - {t}"
    "cached c' = (cached c)(ekey (entries c ! t) := None)" "entry_count c' = entry_count c - 1"
    "length (entries c') = length (entries c)" "length (bucket_heads c') = length (bucket_heads c)" "ttl_ns c' = ttl_ns c"
    using remove_entry_ok [OF inv t(2)] .
  have "card (used c') < length (entries c')" using entry_count_card [OF r(2)] r(5,6) cnt by simp
  then obtain i where i: "first_free 0 (entries c') = int i" "i < length (entries c')" "i \<notin> used c'" by (rule first_free_ok)
  have a: "allocate_entry_index c = Some (int i, c')" using cnt t r(1) i(1) by (simp add: allocate_entry_index_def)
  have "ekey (entries c' ! j) \<in> dom (cached c')" if "j \<in> used c'" for j
    using cached_Some [OF cache_inv_facts(8) [OF r(2)] that] by blast
  then show thesis using that [OF t a r(2) i(2,3) r(3,4,6-8)] by blast
qed

subsection \<open>The specification\<close>

text \<open>The abstract cache: a map from keys to a body, a version and the time it expires.\<close>

type_synonym cache_map = "string \<rightharpoonup> string \<times> ulong \<times> ulong"

definition lookup_spec :: "ulong \<Rightarrow> cache_map \<Rightarrow> string \<Rightarrow> ulong \<Rightarrow> string option \<times> miss_reason \<times> cache_map" where
  "lookup_spec now m key version =
     (case m key of
        None \<Rightarrow> (None, MISS_NO_ENTRY, m)
      | Some (b, v, e) \<Rightarrow>
        if e \<le> now then (None, MISS_TTL_EXPIRED, m(key := None))
        else if v \<noteq> version then (None, MISS_VERSION_CHANGED, m(key := None))
        else (Some b, MISS_NONE, m))"

lemma dom_cached: "inj_on (\<lambda>i. ekey (entries c ! i)) (used c) \<Longrightarrow> dom (cached c) = (\<lambda>i. ekey (entries c ! i)) ` used c"
proof (intro set_eqI iffI)
  fix k assume "k \<in> dom (cached c)"
  then show "k \<in> (\<lambda>i. ekey (entries c ! i)) ` used c" using cached_None [of c k] by (metis (mono_tags, lifting) domIff image_eqI)
next
  fix k assume a: "inj_on (\<lambda>i. ekey (entries c ! i)) (used c)" and "k \<in> (\<lambda>i. ekey (entries c ! i)) ` used c"
  then obtain i where "i \<in> used c" "ekey (entries c ! i) = k" by blast
  then show "k \<in> dom (cached c)" using cached_Some [OF a] by blast
qed

lemma card_dom_cached: "cache_inv c chs \<Longrightarrow> card (dom (cached c)) = card (used c)"
  using dom_cached cache_inv_facts(8) card_image by metis

lemma cached_None_iff: "cache_inv c chs \<Longrightarrow> cached c key = None \<longleftrightarrow> (\<forall>i\<in>used c. ekey (entries c ! i) \<noteq> key)"
  using dom_cached [OF cache_inv_facts(8)] by (metis (mono_tags, lifting) domIff imageE image_eqI)

lemma lookup_ok:
  assumes inv: "cache_inv c chs" and key: "key \<noteq> []"
  obtains r why c' chs' where "query_cache_lookup ttl now c key version = Some (r, why, c')" "cache_inv c' chs'"
    "(r, why, cached c') = lookup_spec now (cached c) key version"
    "length (entries c') = length (entries c)" "length (bucket_heads c') = length (bucket_heads c)" "ttl_ns c' = ttl_ns c"
    "r \<noteq> None \<Longrightarrow> used_index c' (lru_tail c') \<and> ekey (entries c' ! nat (lru_tail c')) = key"
proof (cases "cached c key")
  case None
  then have "find_entry_index c key (hash_key key) = Some (- 1)" using cached_None_iff [OF inv] find_entry_index_ok(2) [OF inv] by blast
  then show thesis using that [of None MISS_NO_ENTRY c chs] inv key None cache_inv_facts(13) [OF inv]
    by (simp add: query_cache_lookup_def query_cache_init_def lookup_spec_def)
next
  case (Some x)
  then obtain i where i: "i \<in> used c" "ekey (entries c ! i) = key" using cached_None_iff [OF inv, of key] by auto
  note f = cache_inv_facts [OF inv]
  have x: "cached c key = Some (body (entries c ! i), table_version (entries c ! i), expire_at_ns (entries c ! i))"
    using cached_Some [OF f(8) i] .
  have fi: "find_entry_index c key (hash_key key) = Some (int i)" using find_entry_index_ok(1) [OF inv i] .
  obtain c' chs' where r: "remove_entry c (int i) = Some c'" "cache_inv c' chs'" "cached c' = (cached c)(key := None)"
    "length (entries c') = length (entries c)" "length (bucket_heads c') = length (bucket_heads c)" "ttl_ns c' = ttl_ns c"
    using remove_entry_ok [OF inv i(1)] i(2) by metis
  consider "expire_at_ns (entries c ! i) \<le> now"
    | "\<not> expire_at_ns (entries c ! i) \<le> now" "table_version (entries c ! i) \<noteq> version"
    | "\<not> expire_at_ns (entries c ! i) \<le> now" "table_version (entries c ! i) = version" by blast
  then show thesis
  proof cases
    case 1
    then show thesis using that [of None MISS_TTL_EXPIRED c' chs'] r x fi key f(13)
      by (simp add: query_cache_lookup_def query_cache_init_def lookup_spec_def)
  next
    case 2
    then show thesis using that [of None MISS_VERSION_CHANGED c' chs'] r x fi key f(13)
      by (simp add: query_cache_lookup_def query_cache_init_def lookup_spec_def)
  next
    case 3
    let ?c = "c\<lparr>lru_head := int i, lru_tail := int i\<rparr>"
    have u: "used_index c (int i)" using i(1) used_index_used by blast
    have t: "touch_lru_head c (int i) = ?c" using touch_lru_head_ok [OF f(10) u] .
    have us: "used ?c = used c" "used_index ?c (int i)" "bucket_of ?c = bucket_of c" "cached ?c = cached c"
      using u by (auto simp: used_def used_index_def bucket_of_def cached_def fun_eq_iff)
    have "chains_are ?c chs = chains_are c chs" "keys_ok ?c chs = keys_ok c chs"
      by (simp_all only: chains_are_def keys_ok_def us) simp_all
    then have "cache_inv ?c chs" using inv us(2) by (simp add: cache_inv_def lru_ok_def)
    then show thesis using that [of "Some (body (entries c ! i))" MISS_NONE ?c chs] 3 x fi key f(13) t us i
      by (simp add: query_cache_lookup_def query_cache_init_def lookup_spec_def)
  qed
qed

lemma store_old_ok:
  assumes inv: "cache_inv c chs" and key: "key \<noteq> []" "key \<in> dom (cached c)" and len: "int (length bdy) \<le> QUERY_CACHE_MAX_BODY_BYTES"
  obtains c' chs' where "query_cache_store ttl now c key version bdy = Some c'" "cache_inv c' chs'"
    "cached c' = (cached c)(key \<mapsto> (bdy, version, now + ttl_ns c))"
    "length (entries c') = length (entries c)" "length (bucket_heads c') = length (bucket_heads c)" "ttl_ns c' = ttl_ns c"
proof -
  obtain i where i: "i \<in> used c" "ekey (entries c ! i) = key" using cached_None_iff [OF inv, of key] key(2) by auto
  have "find_entry_index c key (hash_key key) = Some (int i)" using find_entry_index_ok(1) [OF inv i] .
  then have s: "query_cache_store ttl now c key version bdy = Some (fill_entry now bdy version c (int i))"
    using key(1) len cache_inv_facts(13) [OF inv] by (simp add: query_cache_store_def query_cache_init_def)
  show thesis using that [OF s] fill_entry_ok [OF inv i refl, of now bdy version] by blast
qed

lemma store_room_ok:
  assumes inv: "cache_inv c chs" and key: "key \<noteq> []" "cached c key = None" and len: "int (length bdy) \<le> QUERY_CACHE_MAX_BODY_BYTES"
    and room: "card (used c) < length (entries c)"
  obtains c' chs' where "query_cache_store ttl now c key version bdy = Some c'" "cache_inv c' chs'"
    "cached c' = (cached c)(key \<mapsto> (bdy, version, now + ttl_ns c))"
    "length (entries c') = length (entries c)" "length (bucket_heads c') = length (bucket_heads c)" "ttl_ns c' = ttl_ns c"
proof -
  have new: "\<forall>j\<in>used c. ekey (entries c ! j) \<noteq> key" using cached_None_iff [OF inv] key(2) by blast
  have f: "find_entry_index c key (hash_key key) = Some (- 1)" using find_entry_index_ok(2) [OF inv new] .
  obtain i where i: "allocate_entry_index c = Some (int i, c)" "i < length (entries c)" "i \<notin> used c"
    using allocate_room [OF inv room] .
  have s: "query_cache_store ttl now c key version bdy = Some (fill_entry now bdy version (link_entry key c (int i)) (int i))"
    using key(1) len f i(1) cache_inv_facts(13) [OF inv] by (simp add: query_cache_store_def query_cache_init_def)
  show thesis using that [OF s] store_new_ok [OF inv i(2,3) new refl, of now bdy version] by metis
qed

lemma store_full_ok:
  assumes inv: "cache_inv c chs" and key: "key \<noteq> []" "cached c key = None" and len: "int (length bdy) \<le> QUERY_CACHE_MAX_BODY_BYTES"
    and full: "card (used c) = length (entries c)"
  obtains t c' chs' where "lru_tail c = int t" "t \<in> used c" "query_cache_store ttl now c key version bdy = Some c'" "cache_inv c' chs'"
    "cached c' = (cached c)(ekey (entries c ! t) := None, key \<mapsto> (bdy, version, now + ttl_ns c))"
    "length (entries c') = length (entries c)" "length (bucket_heads c') = length (bucket_heads c)" "ttl_ns c' = ttl_ns c"
proof -
  have new: "\<forall>j\<in>used c. ekey (entries c ! j) \<noteq> key" using cached_None_iff [OF inv] key(2) by blast
  have f: "find_entry_index c key (hash_key key) = Some (- 1)" using find_entry_index_ok(2) [OF inv new] .
  obtain t i c1 chs1 where a: "lru_tail c = int t" "t \<in> used c" "allocate_entry_index c = Some (int i, c1)" "cache_inv c1 chs1"
    "i < length (entries c1)" "i \<notin> used c1" "cached c1 = (cached c)(ekey (entries c ! t) := None)"
    "length (entries c1) = length (entries c)" "length (bucket_heads c1) = length (bucket_heads c)" "ttl_ns c1 = ttl_ns c"
    using allocate_full [OF inv full] by metis
  have "cached c1 key = None" using a(7) key(2) by simp
  then have new1: "\<forall>j\<in>used c1. ekey (entries c1 ! j) \<noteq> key" using cached_None_iff [OF a(4)] by blast
  have s: "query_cache_store ttl now c key version bdy = Some (fill_entry now bdy version (link_entry key c1 (int i)) (int i))"
    using key(1) len f a(3) cache_inv_facts(13) [OF inv] by (simp add: query_cache_store_def query_cache_init_def)
  obtain chs2 where r: "cache_inv (fill_entry now bdy version (link_entry key c1 (int i)) (int i)) chs2"
    "cached (fill_entry now bdy version (link_entry key c1 (int i)) (int i)) = (cached c1)(key \<mapsto> (bdy, version, now + ttl_ns c1))"
    "length (entries (fill_entry now bdy version (link_entry key c1 (int i)) (int i))) = length (entries c1)"
    "length (bucket_heads (fill_entry now bdy version (link_entry key c1 (int i)) (int i))) = length (bucket_heads c1)"
    "ttl_ns (fill_entry now bdy version (link_entry key c1 (int i)) (int i)) = ttl_ns c1"
    by (rule store_new_ok [OF a(4-6) new1 refl, of now bdy version]) blast
  show thesis by (rule that [OF a(1,2) s r(1)]) (use r(2-) a(7-) in simp_all)
qed

subsection \<open>Runs\<close>

text \<open>What can happen to a cache with \<open>n\<close> entries and \<open>m\<close> buckets. The list holds what was stored: key, version, body and time.\<close>

inductive cache_run :: "nat \<Rightarrow> nat \<Rightarrow> ulong \<Rightarrow> (string \<times> ulong \<times> string \<times> ulong) list \<Rightarrow> qcache \<Rightarrow> bool" for n m ttl where
  init: "cache_run n m ttl [] (query_cache_init ttl (query_cache_zero n m))"
| lookup: "cache_run n m ttl l c \<Longrightarrow> query_cache_lookup ttl now c key version = Some (r, why, c') \<Longrightarrow> cache_run n m ttl l c'"
| store: "cache_run n m ttl l c \<Longrightarrow> query_cache_store ttl now c key version bdy = Some c' \<Longrightarrow>
    cache_run n m ttl ((key, version, bdy, now) # l) c'"
| clear: "cache_run n m ttl l c \<Longrightarrow> cache_run n m ttl l (query_cache_clear c)"

definition cache_ok :: "nat \<Rightarrow> nat \<Rightarrow> ulong \<Rightarrow> qcache \<Rightarrow> bool" where
  "cache_ok n m ttl c \<longleftrightarrow> (\<exists>chs. cache_inv c chs) \<and> length (entries c) = n \<and> length (bucket_heads c) = m \<and> ttl_ns c = ttl"

lemma empty_cache_ok:
  assumes "initialized c" "0 < length (bucket_heads c)" "length (bucket_heads c) < 2 ^ 64" "0 < length (entries c)"
    "\<forall>p\<in>set (bucket_heads c). p = - 1" "\<forall>e\<in>set (entries c). \<not> in_use e \<and> prev_lru e = - 1 \<and> next_lru e = - 1"
    "lru_head c = - 1" "lru_tail c = - 1" "entry_count c = 0"
  shows "cache_inv c (replicate (length (bucket_heads c)) [])" "cached c = Map.empty"
proof -
  have u: "used c = {}" using assms(6) by (auto simp: used_def)
  have "concat (replicate (length (bucket_heads c)) []) = []" by (simp add: concat_eq_Nil_conv)
  then show "cache_inv c (replicate (length (bucket_heads c)) [])"
    using assms u by (auto simp: cache_inv_def chains_are_def keys_ok_def lru_ok_def)
  show "cached c = Map.empty" using cached_None [of c] u by auto
qed

lemma store_ok:
  assumes ok: "cache_ok n m ttl c" and key: "key \<noteq> []" and len: "int (length bdy) \<le> QUERY_CACHE_MAX_BODY_BYTES"
  obtains c' m' where "query_cache_store t now c key version bdy = Some c'" "cache_ok n m ttl c'"
    "cached c' = m'(key \<mapsto> (bdy, version, now + ttl))"
    "m' = (if key \<in> dom (cached c) \<or> card (dom (cached c)) < n then cached c
      else (cached c)(ekey (entries c ! nat (lru_tail c)) := None))"
    "key \<in> dom (cached c) \<or> card (dom (cached c)) < n \<or> used_index c (lru_tail c)"
proof -
  obtain chs where inv: "cache_inv c chs" and sz: "length (entries c) = n" "length (bucket_heads c) = m" "ttl_ns c = ttl"
    using ok unfolding cache_ok_def by blast
  have cd: "card (dom (cached c)) = card (used c)" using card_dom_cached [OF inv] .
  consider "key \<in> dom (cached c)" | "cached c key = None" "card (used c) < n" | "cached c key = None" "card (used c) = n"
    using used_finite(2) [of c] sz(1) by (metis domIff le_neq_implies_less)
  then show thesis
  proof cases
    case 1
    obtain c' chs' where r: "query_cache_store t now c key version bdy = Some c'" "cache_inv c' chs'"
      "cached c' = (cached c)(key \<mapsto> (bdy, version, now + ttl_ns c))"
      "length (entries c') = length (entries c)" "length (bucket_heads c') = length (bucket_heads c)" "ttl_ns c' = ttl_ns c"
      by (rule store_old_ok [OF inv key 1 len])
    show thesis by (rule that [OF r(1), of "cached c"]) (use r sz 1 in \<open>auto simp: cache_ok_def\<close>)
  next
    case 2
    obtain c' chs' where r: "query_cache_store t now c key version bdy = Some c'" "cache_inv c' chs'"
      "cached c' = (cached c)(key \<mapsto> (bdy, version, now + ttl_ns c))"
      "length (entries c') = length (entries c)" "length (bucket_heads c') = length (bucket_heads c)" "ttl_ns c' = ttl_ns c"
      by (rule store_room_ok [OF inv key 2(1) len]) (use 2 sz in auto)
    show thesis by (rule that [OF r(1), of "cached c"]) (use r sz 2 cd in \<open>auto simp: cache_ok_def\<close>)
  next
    case 3
    obtain x c' chs' where r: "lru_tail c = int x" "x \<in> used c" "query_cache_store t now c key version bdy = Some c'" "cache_inv c' chs'"
      "cached c' = (cached c)(ekey (entries c ! x) := None, key \<mapsto> (bdy, version, now + ttl_ns c))"
      "length (entries c') = length (entries c)" "length (bucket_heads c') = length (bucket_heads c)" "ttl_ns c' = ttl_ns c"
      by (rule store_full_ok [OF inv key 3(1) len]) (use 3 sz in auto)
    show thesis
      by (rule that [OF r(3), of "(cached c)(ekey (entries c ! x) := None)"])
        (use r sz 3 cd used_index_used [of c x] in \<open>auto simp: cache_ok_def\<close>)
  qed
qed

lemma lookup_cache_ok:
  assumes "cache_ok n m ttl c" "key \<noteq> []"
  obtains r why c' where "query_cache_lookup t now c key version = Some (r, why, c')" "cache_ok n m ttl c'"
    "(r, why, cached c') = lookup_spec now (cached c) key version"
    "r \<noteq> None \<Longrightarrow> used_index c' (lru_tail c') \<and> ekey (entries c' ! nat (lru_tail c')) = key"
proof -
  obtain chs where inv: "cache_inv c chs" using assms unfolding cache_ok_def by blast
  show thesis
    by (rule lookup_ok [OF inv assms(2), of t now version], rule that, assumption)
      (use assms(1) in \<open>auto simp: cache_ok_def\<close>)
qed

lemma init_ok:
  assumes "0 < n" "0 < m" "m < 2 ^ 64"
  shows "cache_ok n m ttl (query_cache_init ttl (query_cache_zero n m))" "cached (query_cache_init ttl (query_cache_zero n m)) = Map.empty"
proof -
  let ?c = "query_cache_init ttl (query_cache_zero n m)"
  have e: "initialized ?c" "0 < length (bucket_heads ?c)" "length (bucket_heads ?c) < 2 ^ 64" "0 < length (entries ?c)"
    "\<forall>p\<in>set (bucket_heads ?c). p = - 1" "\<forall>e\<in>set (entries ?c). \<not> in_use e \<and> prev_lru e = - 1 \<and> next_lru e = - 1"
    "lru_head ?c = - 1" "lru_tail ?c = - 1" "entry_count ?c = 0" "length (entries ?c) = n" "length (bucket_heads ?c) = m" "ttl_ns ?c = ttl"
    using assms by (simp_all add: query_cache_init_def query_cache_zero_def zero_entry_def free_entry_def)
  show "cached ?c = Map.empty" by (rule empty_cache_ok(2) [OF e(1-9)])
  show "cache_ok n m ttl ?c" unfolding cache_ok_def using empty_cache_ok(1) [OF e(1-9)] e(10-12) by blast
qed

lemma clear_ok:
  assumes "cache_ok n m ttl c"
  shows "cache_ok n m ttl (query_cache_clear c)" "cached (query_cache_clear c) = Map.empty"
proof -
  obtain chs where inv: "cache_inv c chs" and sz: "length (entries c) = n" "length (bucket_heads c) = m" "ttl_ns c = ttl"
    using assms unfolding cache_ok_def by blast
  note f = cache_inv_facts [OF inv]
  have e: "\<forall>e\<in>set (entries (query_cache_clear c)). \<not> in_use e \<and> prev_lru e = - 1 \<and> next_lru e = - 1"
    using f(10) by (auto simp: query_cache_clear_def free_entry_def)
  let ?c = "query_cache_clear c"
  have d: "initialized ?c" "0 < length (bucket_heads ?c)" "length (bucket_heads ?c) < 2 ^ 64" "0 < length (entries ?c)"
    "\<forall>p\<in>set (bucket_heads ?c). p = - 1" "lru_head ?c = - 1" "lru_tail ?c = - 1" "entry_count ?c = 0"
    "length (entries ?c) = n" "length (bucket_heads ?c) = m" "ttl_ns ?c = ttl"
    using f(2,3,13,14) sz by (simp_all add: query_cache_clear_def)
  show "cached ?c = Map.empty" by (rule empty_cache_ok(2) [OF d(1-5) e d(6-8)])
  show "cache_ok n m ttl ?c" unfolding cache_ok_def using empty_cache_ok(1) [OF d(1-5) e d(6-8)] d(9-11) by blast
qed

lemma lookup_empty_key: "query_cache_lookup t now c [] version = Some (None, MISS_NONE, c)"
  by (simp add: query_cache_lookup_def)

lemma store_refused: "key = [] \<or> int (length bdy) > QUERY_CACHE_MAX_BODY_BYTES \<Longrightarrow> query_cache_store t now c key version bdy = Some c"
  by (auto simp: query_cache_store_def)

lemma map_le_Some: "m \<subseteq>\<^sub>m m' \<Longrightarrow> m x = Some y \<Longrightarrow> m' x = Some y"
  unfolding map_le_def by force

lemma lookup_spec_le: "snd (snd (lookup_spec now m key version)) \<subseteq>\<^sub>m m"
  by (auto simp: lookup_spec_def map_le_def split: option.splits)

text \<open>The stores that were not refused, and the last one under each key.\<close>

definition accepted :: "string \<times> ulong \<times> string \<times> ulong \<Rightarrow> bool" where
  "accepted x = (case x of (key, version, bdy, t) \<Rightarrow> key \<noteq> [] \<and> int (length bdy) \<le> QUERY_CACHE_MAX_BODY_BYTES)"

definition last_store :: "(string \<times> ulong \<times> string \<times> ulong) list \<Rightarrow> string \<Rightarrow> (ulong \<times> string \<times> ulong) option" where
  "last_store l = map_of (filter accepted l)"

text \<open>Every state of a run is well formed, and all that it holds is what was stored last under its key.\<close>

lemma cache_run_ok:
  assumes "cache_run n m ttl l c" "0 < n" "0 < m" "m < 2 ^ 64"
  shows "cache_ok n m ttl c \<and> (\<forall>key b v e. cached c key = Some (b, v, e) \<longrightarrow> (\<exists>t. last_store l key = Some (v, b, t) \<and> e = t + ttl))"
  using assms
proof (induction rule: cache_run.induct)
  case init
  then show ?case using init_ok by simp
next
  case (lookup l c now key version r why c')
  show ?case
  proof (cases "key = []")
    case True
    then show ?thesis using lookup lookup_empty_key by simp
  next
    case False
    have ok: "cache_ok n m ttl c" using lookup.IH lookup.prems by blast
    obtain r' why' c'' where k: "query_cache_lookup ttl now c key version = Some (r', why', c'')" "cache_ok n m ttl c''"
      "(r', why', cached c'') = lookup_spec now (cached c) key version"
      by (rule lookup_cache_ok [OF ok False])
    have "cached c'' \<subseteq>\<^sub>m cached c" using lookup_spec_le [of now "cached c" key version] unfolding k(3) [symmetric] by simp
    then have "cached c x = Some y" if "cached c'' x = Some y" for x y using map_le_Some that by fast
    moreover have "c'' = c'" using k(1) lookup.hyps(2) by simp
    ultimately show ?thesis using k(2) lookup.IH lookup.prems by blast
  qed
next
  case (store l c now key version bdy c')
  show ?case
  proof (cases "key = [] \<or> int (length bdy) > QUERY_CACHE_MAX_BODY_BYTES")
    case True
    then have "c' = c" "last_store ((key, version, bdy, now) # l) = last_store l"
      using store.hyps(2) store_refused by (auto simp: last_store_def accepted_def)
    then show ?thesis using store.IH store.prems by simp
  next
    case False
    then have key: "key \<noteq> []" and len: "int (length bdy) \<le> QUERY_CACHE_MAX_BODY_BYTES" by auto
    have ok: "cache_ok n m ttl c" using store.IH store.prems by blast
    obtain c'' m' where k: "query_cache_store ttl now c key version bdy = Some c''" "cache_ok n m ttl c''"
      "cached c'' = m'(key \<mapsto> (bdy, version, now + ttl))"
      "m' = (if key \<in> dom (cached c) \<or> card (dom (cached c)) < n then cached c
        else (cached c)(ekey (entries c ! nat (lru_tail c)) := None))"
      by (rule store_ok [OF ok key len])
    have "c'' = c'" using k(1) store.hyps(2) by simp
    moreover have "m' \<subseteq>\<^sub>m cached c" using k(4) by (auto simp: map_le_def)
    then have "cached c x = Some y" if "m' x = Some y" for x y using map_le_Some that by fast
    moreover have "last_store ((key, version, bdy, now) # l) = (last_store l)(key \<mapsto> (version, bdy, now))"
      using key len by (simp add: last_store_def accepted_def)
    ultimately show ?thesis using k(2,3) store.IH store.prems by (auto split: if_splits)
  qed
next
  case (clear l c)
  then show ?case using clear_ok [of n m ttl c] by simp
qed

subsection \<open>The contract of a response cache\<close>

text \<open>
  What the server relies on: the state is a map, a lookup answers from it and at most forgets the key it looked up, a
  store adds the key and at most forgets another one.
\<close>

locale response_cache =
  fixes ok :: "'c \<Rightarrow> bool" and view :: "'c \<Rightarrow> cache_map" and ttl :: ulong
    and lookup :: "ulong \<Rightarrow> 'c \<Rightarrow> string \<Rightarrow> ulong \<Rightarrow> (string option \<times> miss_reason \<times> 'c) option"
    and store :: "ulong \<Rightarrow> 'c \<Rightarrow> string \<Rightarrow> ulong \<Rightarrow> string \<Rightarrow> 'c option"
  assumes lookup_law: "ok c \<Longrightarrow> key \<noteq> [] \<Longrightarrow>
      \<exists>r why c'. lookup now c key v = Some (r, why, c') \<and> ok c' \<and> (r, why, view c') = lookup_spec now (view c) key v"
    and store_law: "ok c \<Longrightarrow> key \<noteq> [] \<Longrightarrow> int (length b) \<le> QUERY_CACHE_MAX_BODY_BYTES \<Longrightarrow>
      \<exists>c' m. store now c key v b = Some c' \<and> ok c' \<and> view c' = m(key \<mapsto> (b, v, now + ttl)) \<and> m \<subseteq>\<^sub>m view c"
begin

lemma store_lookup:
  assumes "ok c" "key \<noteq> []" "int (length b) \<le> QUERY_CACHE_MAX_BODY_BYTES"
  shows "\<exists>c'. store now c key v b = Some c' \<and> ok c' \<and>
    (\<forall>later w. \<exists>r why c''. lookup later c' key w = Some (r, why, c'') \<and> ok c'' \<and>
       r = (if now + ttl \<le> later \<or> w \<noteq> v then None else Some b) \<and>
       why = (if now + ttl \<le> later then MISS_TTL_EXPIRED else if w \<noteq> v then MISS_VERSION_CHANGED else MISS_NONE) \<and>
       view c'' = (if r = None then (view c')(key := None) else view c'))"
proof -
  obtain c' m where s: "store now c key v b = Some c'" "ok c'" "view c' = m(key \<mapsto> (b, v, now + ttl))"
    using store_law [OF assms] by metis
  have "\<exists>r why c''. lookup later c' key w = Some (r, why, c'') \<and> ok c'' \<and>
       r = (if now + ttl \<le> later \<or> w \<noteq> v then None else Some b) \<and>
       why = (if now + ttl \<le> later then MISS_TTL_EXPIRED else if w \<noteq> v then MISS_VERSION_CHANGED else MISS_NONE) \<and>
       view c'' = (if r = None then (view c')(key := None) else view c')" for later w
  proof -
    obtain r why c'' where l: "lookup later c' key w = Some (r, why, c'')" "ok c''" "(r, why, view c'') = lookup_spec later (view c') key w"
      using lookup_law [OF s(2) assms(2)] by metis
    then show ?thesis using s(3) by (auto simp: lookup_spec_def split: if_splits)
  qed
  then show ?thesis using s by blast
qed

lemma hit_is_cached:
  assumes "ok c" "key \<noteq> []" "lookup now c key v = Some (Some b, why, c')"
  obtains e where "view c key = Some (b, v, e)" "now < e"
proof -
  have "(Some b, why, view c') = lookup_spec now (view c) key v" using lookup_law [OF assms(1,2), of now v] assms(3) by auto
  then show thesis using that by (auto simp: lookup_spec_def not_le split: option.splits if_splits)
qed

end

interpretation qc: response_cache "cache_ok n m ttl" cached ttl "query_cache_lookup ttl" "query_cache_store ttl"
proof
  fix c now v and key :: string
  assume "cache_ok n m ttl c" "key \<noteq> []"
  then show "\<exists>r why c'. query_cache_lookup ttl now c key v = Some (r, why, c') \<and> cache_ok n m ttl c' \<and>
      (r, why, cached c') = lookup_spec now (cached c) key v"
    by (rule lookup_cache_ok [of n m ttl c key ttl now v]) blast
next
  fix c now v and key b :: string
  assume a: "cache_ok n m ttl c" "key \<noteq> []" "int (length b) \<le> QUERY_CACHE_MAX_BODY_BYTES"
  obtain c' m' where k: "query_cache_store ttl now c key v b = Some c'" "cache_ok n m ttl c'" "cached c' = m'(key \<mapsto> (b, v, now + ttl))"
    "m' = (if key \<in> dom (cached c) \<or> card (dom (cached c)) < n then cached c
      else (cached c)(ekey (entries c ! nat (lru_tail c)) := None))"
    by (rule store_ok [OF a])
  have "m' \<subseteq>\<^sub>m cached c" using k(4) by (auto simp: map_le_def)
  then show "\<exists>c' m'. query_cache_store ttl now c key v b = Some c' \<and> cache_ok n m ttl c' \<and>
      cached c' = m'(key \<mapsto> (b, v, now + ttl)) \<and> m' \<subseteq>\<^sub>m cached c"
    using k(1-3) by blast
qed

subsection \<open>Properties\<close>

definition demo_cache1 :: qcache where
  "demo_cache1 = the (query_cache_store 5 10 (query_cache_init 5 (query_cache_zero 2 2)) ''a'' 1 ''x'')"

definition demo_cache2 :: qcache where
  "demo_cache2 = the (query_cache_store 5 10 demo_cache1 ''b'' 1 ''y'')"

definition demo_cache3 :: qcache where
  "demo_cache3 = snd (snd (the (query_cache_lookup 5 12 demo_cache2 ''a'' 1)))"

lemma demo_cache_steps:
  "query_cache_store 5 10 (query_cache_init 5 (query_cache_zero 2 2)) ''a'' 1 ''x'' = Some demo_cache1"
  "query_cache_store 5 10 demo_cache1 ''b'' 1 ''y'' = Some demo_cache2"
  "query_cache_lookup 5 12 demo_cache2 ''a'' 1 = Some (Some ''x'', MISS_NONE, demo_cache3)"
  by code_simp+

lemma demo_cache_full: "card (dom (cached demo_cache2)) = 2" "cached demo_cache2 ''c'' = None"
proof -
  have m: "entries demo_cache2 = [entries demo_cache2 ! 0, entries demo_cache2 ! 1]"
    "in_use (entries demo_cache2 ! 0)" "ekey (entries demo_cache2 ! 0) = ''a''"
    "in_use (entries demo_cache2 ! 1)" "ekey (entries demo_cache2 ! 1) = ''b''"
    by code_simp+
  have f: "List.find P (entries demo_cache2) = List.find P [entries demo_cache2 ! 0, entries demo_cache2 ! 1]" for P
    using m(1) by metis
  have d: "dom (cached demo_cache2) = {''a'', ''b''}"
    by (auto simp: cached_def f m(2-5) m(4,5) [simplified] split: if_splits)
  show "card (dom (cached demo_cache2)) = 2" unfolding d by simp
  have "''c'' \<notin> dom (cached demo_cache2)" unfolding d by simp
  then show "cached demo_cache2 ''c'' = None" unfolding domIff by blast
qed

lemma demo_cache_run: "cache_run 2 2 5 [(''b'', 1, ''y'', 10), (''a'', 1, ''x'', 10)] demo_cache2"
  by (rule cache_run.store [OF cache_run.store [OF cache_run.init demo_cache_steps(1)] demo_cache_steps(2)])

text \<open>
  In every run of the cache, a lookup with a key that is not empty returns and answers as the abstract map with
  versions and expiry does, with the same reason for a miss; an expired entry or one of another version is forgotten, and
  nothing else changes.
\<close>

theorem cache_lookup_refines:
  assumes "cache_run n m ttl l c" "0 < n" "0 < m" "m < 2 ^ 64" "key \<noteq> []"
  shows "\<exists>r why c'. query_cache_lookup ttl now c key version = Some (r, why, c') \<and> cache_run n m ttl l c' \<and>
    (r, why, cached c') = lookup_spec now (cached c) key version"
proof -
  have ok: "cache_ok n m ttl c" using cache_run_ok [OF assms(1-4)] by blast
  show ?thesis using qc.lookup_law [OF ok assms(5), of now version] cache_run.lookup [OF assms(1)] by blast
qed

theorem cache_lookup_refines_witness:
  "\<exists>r why c'. query_cache_lookup 5 20 demo_cache2 ''a'' 1 = Some (r, why, c') \<and>
     cache_run 2 2 5 [(''b'', 1, ''y'', 10), (''a'', 1, ''x'', 10)] c' \<and> (r, why, cached c') = lookup_spec 20 (cached demo_cache2) ''a'' 1"
  by (rule cache_lookup_refines [OF demo_cache_run]) simp_all

text \<open>
  C25. In every run of the cache, a store of a body that is small enough returns and puts the body, its version and its
  expiry under the key. Other keys keep what they had, except that when the key is new and every entry is in use the key
  of the entry at the tail of the LRU list is forgotten. The cache never holds more keys than it has entries, and it
  counts them right.
\<close>

theorem cache_store_refines:
  assumes "cache_run n m ttl l c" "0 < n" "0 < m" "m < 2 ^ 64" "key \<noteq> []" "int (length bdy) \<le> QUERY_CACHE_MAX_BODY_BYTES"
  shows "\<exists>c'. query_cache_store ttl now c key version bdy = Some c' \<and>
    cached c' = (if key \<in> dom (cached c) \<or> card (dom (cached c)) < n then cached c
      else (cached c)(ekey (entries c ! nat (lru_tail c)) := None))(key \<mapsto> (bdy, version, now + ttl)) \<and>
    (key \<in> dom (cached c) \<or> card (dom (cached c)) < n \<or> ekey (entries c ! nat (lru_tail c)) \<in> dom (cached c)) \<and>
    entry_count c' = int (card (dom (cached c'))) \<and> card (dom (cached c')) \<le> n"
proof -
  have ok: "cache_ok n m ttl c" using cache_run_ok [OF assms(1-4)] by blast
  obtain c' m' where k: "query_cache_store ttl now c key version bdy = Some c'" "cache_ok n m ttl c'"
    "cached c' = m'(key \<mapsto> (bdy, version, now + ttl))"
    "m' = (if key \<in> dom (cached c) \<or> card (dom (cached c)) < n then cached c
      else (cached c)(ekey (entries c ! nat (lru_tail c)) := None))"
    "key \<in> dom (cached c) \<or> card (dom (cached c)) < n \<or> used_index c (lru_tail c)"
    by (rule store_ok [OF ok assms(5,6)])
  have tail: "ekey (entries c ! nat (lru_tail c)) \<in> dom (cached c)" if "used_index c (lru_tail c)"
    using that ok cached_Some [OF cache_inv_facts(8)] used_index_int [OF that] unfolding cache_ok_def by fastforce
  have cnt: "entry_count c' = int (card (dom (cached c')))" "card (dom (cached c')) \<le> n"
    using k(2) entry_count_card [of c'] card_dom_cached [of c'] used_finite(2) [of c'] unfolding cache_ok_def by auto
  show ?thesis using k(1) cnt k(3,5) tail unfolding k(4) by blast
qed

theorem cache_store_refines_witness:
  "\<exists>c'. query_cache_store 5 12 demo_cache2 ''c'' 1 ''z'' = Some c' \<and>
    cached c' = (if ''c'' \<in> dom (cached demo_cache2) \<or> card (dom (cached demo_cache2)) < 2 then cached demo_cache2
      else (cached demo_cache2)(ekey (entries demo_cache2 ! nat (lru_tail demo_cache2)) := None))(''c'' \<mapsto> (''z'', 1, 12 + 5)) \<and>
    (''c'' \<in> dom (cached demo_cache2) \<or> card (dom (cached demo_cache2)) < 2 \<or>
     ekey (entries demo_cache2 ! nat (lru_tail demo_cache2)) \<in> dom (cached demo_cache2)) \<and>
    entry_count c' = int (card (dom (cached c'))) \<and> card (dom (cached c')) \<le> 2"
  by (rule cache_store_refines [OF demo_cache_run]) (simp_all add: QUERY_CACHE_MAX_BODY_BYTES_def)

text \<open>
  C24. In every run of the cache, whatever was looked up, evicted or cleared before, a hit returns the body that the last
  accepted store put under that key, that store carried the version asked for, and it was made less than the time to live
  ago.
\<close>

theorem cache_hit_was_stored:
  assumes "cache_run n m ttl l c" "0 < n" "0 < m" "m < 2 ^ 64" "query_cache_lookup ttl now c key version = Some (Some b, why, c')"
  shows "\<exists>t. last_store l key = Some (version, b, t) \<and> now < t + ttl"
proof -
  have ok: "cache_ok n m ttl c" using cache_run_ok [OF assms(1-4)] by blast
  have "key \<noteq> []" using assms(5) lookup_empty_key by auto
  then obtain e where "cached c key = Some (b, version, e)" "now < e" using qc.hit_is_cached [OF ok _ assms(5)] by blast
  then show ?thesis using cache_run_ok [OF assms(1-4)] by blast
qed

theorem cache_hit_was_stored_witness:
  "\<exists>t. last_store [(''b'', 1, ''y'', 10), (''a'', 1, ''x'', 10)] ''a'' = Some (1, ''x'', t) \<and> 12 < t + 5"
  by (rule cache_hit_was_stored [OF demo_cache_run _ _ _ demo_cache_steps(3)]) simp_all

text \<open>
  The entry a full cache evicts is the one used last, not the one used least recently: after a hit on a key, storing a
  new key forgets exactly the key that was just hit. \<open>touch_lru_head\<close> unlinks the entry first, and unlinking an entry
  with no neighbours empties the list, so the list never holds more than one entry.
\<close>

theorem full_cache_evicts_latest:
  assumes "cache_run n m ttl l c" "0 < n" "0 < m" "m < 2 ^ 64" "query_cache_lookup ttl now c key version = Some (Some b, why, c1)"
    "card (dom (cached c)) = n" "new \<noteq> []" "cached c new = None" "int (length bdy) \<le> QUERY_CACHE_MAX_BODY_BYTES"
  shows "\<exists>c'. query_cache_store ttl now c1 new v bdy = Some c' \<and> cached c' = (cached c)(key := None, new \<mapsto> (bdy, v, now + ttl))"
proof -
  have ok: "cache_ok n m ttl c" using cache_run_ok [OF assms(1-4)] by blast
  have key: "key \<noteq> []" using assms(5) lookup_empty_key by auto
  obtain r why' c1' where l: "query_cache_lookup ttl now c key version = Some (r, why', c1')" "cache_ok n m ttl c1'"
    "(r, why', cached c1') = lookup_spec now (cached c) key version"
    "r \<noteq> None \<Longrightarrow> used_index c1' (lru_tail c1') \<and> ekey (entries c1' ! nat (lru_tail c1')) = key"
    by (rule lookup_cache_ok [OF ok key, of ttl now version]) blast
  have c1: "c1' = c1" "r = Some b" using l(1) assms(5) by auto
  have same: "cached c1 = cached c" using l(3) c1 by (auto simp: lookup_spec_def split: option.splits if_splits)
  obtain c' m' where s: "query_cache_store ttl now c1 new v bdy = Some c'" "cached c' = m'(new \<mapsto> (bdy, v, now + ttl))"
    "m' = (if new \<in> dom (cached c1) \<or> card (dom (cached c1)) < n then cached c1
      else (cached c1)(ekey (entries c1 ! nat (lru_tail c1)) := None))"
    using store_ok [OF _ assms(7,9)] l(2) c1(1) by blast
  have "m' = (cached c)(key := None)" using s(3) same assms(6,8) l(4) c1 by (simp add: domIff)
  then show ?thesis using s(1,2) by blast
qed

theorem full_cache_evicts_latest_witness:
  "\<exists>c'. query_cache_store 5 12 demo_cache3 ''c'' 1 ''z'' = Some c' \<and>
     cached c' = (cached demo_cache2)(''a'' := None, ''c'' \<mapsto> (''z'', 1, 12 + 5))"
  by (rule full_cache_evicts_latest [OF demo_cache_run _ _ _ demo_cache_steps(3)])
    (simp_all add: demo_cache_full QUERY_CACHE_MAX_BODY_BYTES_def)

end
