(* ===== verification/Resp.thy ===== *)
theory Resp
  imports Prelude "HOL-Library.Monad_Syntax"
begin

text \<open>
  Response buffers and responses, \<open>src/api/resp.c\<close>.

  \<^item> A \<open>buf\<close> holds the bytes before the NUL and the capacity of its array; \<open>buf->len\<close> is the number of these bytes.
  \<^item> \<open>mem\<close> is the answer of \<open>realloc\<close> for a size. \<^const>\<open>None\<close> is the result 0 of the C functions.
  \<^item> \<open>buf_fmt\<close> takes the formatted text: \<open>vsnprintf\<close> is called once for its length and once to write it.

  The lemmas show that a buffer that succeeds has appended exactly the text, with its NUL inside the array, and that it
  succeeds if there is memory.
\<close>

record buf =
  contents :: string
  buf_cap :: nat

definition buf_init :: buf where
  "buf_init = \<lparr>contents = [], buf_cap = 0\<rparr>"

text \<open>The doubling of the capacity; it starts at a capacity that is not 0.\<close>

function double_cap :: "nat \<Rightarrow> nat \<Rightarrow> nat" where
  "double_cap want c = (if want \<le> c \<or> c = 0 then c else double_cap want (c * 2))"
  by pat_completeness auto
termination
  by (relation "measure (\<lambda>(want, c). want - c)") auto

declare double_cap.simps [simp del]

definition buf_grow :: "(nat \<Rightarrow> bool) \<Rightarrow> buf \<Rightarrow> nat \<Rightarrow> buf option" where
  "buf_grow mem b need =
     (if length (contents b) + need + 1 \<le> buf_cap b then Some b
      else let c = double_cap (length (contents b) + need + 1) (if buf_cap b = 0 then 256 else buf_cap b)
           in if mem c then Some (b\<lparr>buf_cap := c\<rparr>) else None)"

definition buf_chr :: "(nat \<Rightarrow> bool) \<Rightarrow> char \<Rightarrow> buf \<Rightarrow> buf option" where
  "buf_chr mem ch b = do { b1 \<leftarrow> buf_grow mem b 1; Some (b1\<lparr>contents := contents b1 @ [ch]\<rparr>) }"

definition buf_put :: "(nat \<Rightarrow> bool) \<Rightarrow> string \<Rightarrow> buf \<Rightarrow> buf option" where
  "buf_put mem s b = do { b1 \<leftarrow> buf_grow mem b (length s); Some (b1\<lparr>contents := contents b1 @ s\<rparr>) }"

definition buf_fmt :: "(nat \<Rightarrow> bool) \<Rightarrow> string \<Rightarrow> buf \<Rightarrow> buf option" where
  "buf_fmt mem s b = do { b1 \<leftarrow> buf_grow mem b (length s); Some (b1\<lparr>contents := contents b1 @ s\<rparr>) }"

text \<open>A byte as \<open>\u%04x\<close>.\<close>

definition hex_digit :: "nat \<Rightarrow> char" where
  "hex_digit n = (if n < 10 then char_of (48 + n) else char_of (87 + n))"

definition u_escape :: "char \<Rightarrow> string" where
  "u_escape c = CHR 0x5C # ''u00'' @ [hex_digit (byte c div 16), hex_digit (byte c mod 16)]"

definition jsn_char :: "(nat \<Rightarrow> bool) \<Rightarrow> char \<Rightarrow> buf \<Rightarrow> buf option" where
  "jsn_char mem c b =
     (if c = CHR 0x22 \<or> c = CHR 0x5C then do { b1 \<leftarrow> buf_chr mem (CHR 0x5C) b; buf_chr mem c b1 }
      else if c = CHR 0x0A then buf_put mem [CHR 0x5C, CHR ''n''] b
      else if c = CHR 0x0D then buf_put mem [CHR 0x5C, CHR ''r''] b
      else if c = CHR 0x09 then buf_put mem [CHR 0x5C, CHR ''t''] b
      else if byte c < 32 then buf_fmt mem (u_escape c) b
      else buf_chr mem c b)"

fun jsn_loop :: "(nat \<Rightarrow> bool) \<Rightarrow> string \<Rightarrow> buf \<Rightarrow> buf option" where
  "jsn_loop mem [] b = Some b"
| "jsn_loop mem (c # cs) b = do { b1 \<leftarrow> jsn_char mem c b; jsn_loop mem cs b1 }"

definition buf_jsn :: "(nat \<Rightarrow> bool) \<Rightarrow> string \<Rightarrow> buf \<Rightarrow> buf option" where
  "buf_jsn mem s b = do { b1 \<leftarrow> buf_chr mem (CHR 0x22) b; b2 \<leftarrow> jsn_loop mem s b1; buf_chr mem (CHR 0x22) b2 }"

text \<open>Responses. The body is \<open>NULL\<close> before anything was written to the buffer.\<close>

record http_res =
  code :: int
  res_body :: string
  content_type :: string

definition res_zero :: http_res where
  "res_zero = \<lparr>code = 0, res_body = [], content_type = []\<rparr>"

definition res_set_ct :: "int \<Rightarrow> buf \<Rightarrow> string \<Rightarrow> http_res" where
  "res_set_ct c b ct = \<lparr>code = c, res_body = contents b, content_type = (if ct \<noteq> [] then ct else ''application/json'')\<rparr>"

definition res_set :: "int \<Rightarrow> buf \<Rightarrow> http_res" where
  "res_set c b = res_set_ct c b ''application/json''"

subsection \<open>What the buffer operations do\<close>

definition buf_ok :: "buf \<Rightarrow> bool" where
  "buf_ok b \<longleftrightarrow> (contents b = [] \<and> buf_cap b = 0) \<or> length (contents b) < buf_cap b"

text \<open>An operation on a buffer that appends \<open>s\<close>, or fails for lack of memory.\<close>

definition appends :: "((nat \<Rightarrow> bool) \<Rightarrow> buf \<Rightarrow> buf option) \<Rightarrow> string \<Rightarrow> bool" where
  "appends f s \<longleftrightarrow>
     (\<forall>mem b b'. buf_ok b \<longrightarrow> f mem b = Some b' \<longrightarrow> buf_ok b' \<and> contents b' = contents b @ s) \<and>
     (\<forall>b. buf_ok b \<longrightarrow> f (\<lambda>_. True) b \<noteq> None)"

lemma double_cap_ge: "0 < c \<Longrightarrow> want \<le> double_cap want c"
  by (induction want c rule: double_cap.induct) (subst double_cap.simps, auto)

lemma double_cap_mono: "c \<le> double_cap want c"
proof (induction want c rule: double_cap.induct)
  case (1 want c)
  then show ?case by (subst double_cap.simps) auto
qed

lemma buf_grow_ok:
  assumes "buf_grow mem b need = Some b'"
  shows "contents b' = contents b" "length (contents b) + need < buf_cap b'"
  using assms double_cap_ge [of "if buf_cap b = 0 then 256 else buf_cap b" "length (contents b) + need + 1"]
  by (auto simp: buf_grow_def Let_def split: if_splits)

lemma buf_grow_mem: "buf_grow (\<lambda>_. True) b need \<noteq> None"
  by (simp add: buf_grow_def Let_def)

lemma appendsD:
  assumes "appends f s" "buf_ok b" "f mem b = Some b'"
  shows "buf_ok b'" "contents b' = contents b @ s"
  using assms unfolding appends_def by blast+

lemma appends_mem: "appends f s \<Longrightarrow> buf_ok b \<Longrightarrow> \<exists>b'. f (\<lambda>_. True) b = Some b'"
  unfolding appends_def by blast

named_theorems appends_intros \<open>what the operations on buffers append\<close>

lemma appends_chr [appends_intros]: "appends (\<lambda>mem. buf_chr mem c) [c]"
  unfolding appends_def buf_chr_def
  using buf_grow_ok buf_grow_mem by (fastforce simp: buf_ok_def bind_eq_Some_conv)

lemma appends_put [appends_intros]: "appends (\<lambda>mem. buf_put mem s) s"
  unfolding appends_def buf_put_def
  using buf_grow_ok buf_grow_mem by (fastforce simp: buf_ok_def bind_eq_Some_conv)

lemma appends_fmt [appends_intros]: "appends (\<lambda>mem. buf_fmt mem s) s"
  unfolding appends_def buf_fmt_def
  using buf_grow_ok buf_grow_mem by (fastforce simp: buf_ok_def bind_eq_Some_conv)

lemma appends_bind [appends_intros]:
  assumes "appends f s" "appends g t"
  shows "appends (\<lambda>mem b. do { b1 \<leftarrow> f mem b; g mem b1 }) (s @ t)"
  unfolding appends_def
proof (intro conjI allI impI)
  fix mem b b'
  assume b: "buf_ok b" "do { b1 \<leftarrow> f mem b; g mem b1 } = Some b'"
  then obtain b1 where b1: "f mem b = Some b1" "g mem b1 = Some b'" by (auto simp: bind_eq_Some_conv)
  note d1 = appendsD [OF assms(1) b(1) b1(1)]
  note d2 = appendsD [OF assms(2) d1(1) b1(2)]
  show "buf_ok b'" by (rule d2)
  show "contents b' = contents b @ s @ t" using d1(2) d2(2) by simp
next
  fix b assume b: "buf_ok b"
  obtain b1 where b1: "f (\<lambda>_. True) b = Some b1" using appends_mem [OF assms(1) b] by blast
  have "\<exists>b'. g (\<lambda>_. True) b1 = Some b'" by (rule appends_mem [OF assms(2) appendsD(1) [OF assms(1) b b1]])
  then show "do { b1 \<leftarrow> f (\<lambda>_. True) b; g (\<lambda>_. True) b1 } \<noteq> None" using b1 by auto
qed

lemma appends_Nil [appends_intros]: "appends (\<lambda>mem b. Some b) []"
  by (simp add: appends_def)

lemma appends_cong: "appends f s \<Longrightarrow> s = t \<Longrightarrow> appends f t"
  by simp

subsection \<open>The JSON form of a string\<close>

definition jsn_escape :: "char \<Rightarrow> string" where
  "jsn_escape c =
     (if c = CHR 0x22 \<or> c = CHR 0x5C then [CHR 0x5C, c]
      else if c = CHR 0x0A then [CHR 0x5C, CHR ''n'']
      else if c = CHR 0x0D then [CHR 0x5C, CHR ''r'']
      else if c = CHR 0x09 then [CHR 0x5C, CHR ''t'']
      else if byte c < 32 then u_escape c
      else [c])"

definition json_of :: "string \<Rightarrow> string" where
  "json_of s = CHR 0x22 # concat (map jsn_escape s) @ [CHR 0x22]"

lemma appends_jsn_char [appends_intros]: "appends (\<lambda>mem. jsn_char mem c) (jsn_escape c)"
proof -
  have two: "appends (\<lambda>mem b. do { b1 \<leftarrow> buf_chr mem (CHR 0x5C) b; buf_chr mem c b1 }) [CHR 0x5C, c]"
    using appends_bind [OF appends_chr appends_chr, of "CHR 0x5C" c] by simp
  show ?thesis
    unfolding jsn_char_def jsn_escape_def
    using two appends_put appends_fmt appends_chr by simp
qed

lemma appends_jsn_loop: "appends (\<lambda>mem. jsn_loop mem s) (concat (map jsn_escape s))"
proof (induction s)
  case Nil
  then show ?case using appends_Nil by simp
next
  case (Cons c s)
  then show ?case using appends_bind [OF appends_jsn_char Cons.IH, of c] by simp
qed

lemma appends_jsn [appends_intros]: "appends (\<lambda>mem. buf_jsn mem s) (json_of s)"
  unfolding buf_jsn_def json_of_def
  using appends_bind [OF appends_chr appends_bind [OF appends_jsn_loop appends_chr], of "CHR 0x22" s "CHR 0x22"] by simp

end
