(* ===== verification/Http.thy ===== *)
theory Http
  imports Query_Cache Resp
begin

text \<open>
  The HTTP side of \<open>src/api/srv.c\<close>: the buffer of a connection, reading and parsing of requests, and the header of a
  response.

  \<^item> A connection holds the bytes that were received and not yet used (\<open>conn->used\<close> is their number), the capacity of the
    array and its bound.
  \<^item> The socket is the list of the answers of \<open>recv\<close>: bytes that arrive together, of which \<open>recv\<close> takes as many as there
    is room for, the end of the stream, an interruption or an error. When the list ends the thread waits for ever, which is \<^const>\<open>None\<close>.
  \<^item> Allocation succeeds.

  The lemmas show that a request is read back however its bytes are split over the packets, that the bytes after it are
  kept for the next one, and that the buffer keeps within its bound.
\<close>

datatype recv_ev = Data string | Eof | Interrupted | Failed

record http_conn =
  cbuf :: string
  ccap :: int
  max_total :: int

record http_req =
  meth :: string
  path :: string
  qry :: string
  rq_body :: string
  req_id :: string

abbreviation conn_used :: "http_conn \<Rightarrow> int" where
  "conn_used c \<equiv> int (length (cbuf c))"

definition CONN_BUF_INIT :: int where "CONN_BUF_INIT = 32768"
definition MAX_HDR_BYTES :: int where "MAX_HDR_BYTES = 8192"

definition conn_init :: "int \<Rightarrow> http_conn" where
  "conn_init max_body =
     (let hard = (if max_body > 0 then max_body else 1048576) + MAX_HDR_BYTES + 4
      in \<lparr>cbuf = [], ccap = (if hard < CONN_BUF_INIT then hard else CONN_BUF_INIT), max_total = hard\<rparr>)"

text \<open>The offset of the first empty line.\<close>

fun find_hdr_end :: "string \<Rightarrow> nat option" where
  "find_hdr_end [] = None"
| "find_hdr_end (c # cs) =
     (if is_prefix [CHR 0x0D, CHR 0x0A, CHR 0x0D, CHR 0x0A] (c # cs) then Some 0 else map_option Suc (find_hdr_end cs))"

definition hdr_space :: "char \<Rightarrow> bool" where
  "hdr_space c \<longleftrightarrow> c = CHR '' '' \<or> c = CHR 0x09 \<or> c = CHR 0x0D \<or> c = CHR 0x0A"

definition hdr_trim :: "string \<Rightarrow> string" where
  "hdr_trim s = rev (dropWhile hdr_space (rev (dropWhile hdr_space s)))"

text \<open>The new capacity in \<open>ensure_buffered\<close>; it starts at a capacity that is not 0.\<close>

function conn_cap :: "int \<Rightarrow> int \<Rightarrow> int \<Rightarrow> int" where
  "conn_cap ncap target mx =
     (if ncap < target \<and> 0 < ncap then (if ncap > mx div 2 then mx else conn_cap (ncap * 2) target mx) else ncap)"
  by pat_completeness auto
termination
  by (relation "measure (\<lambda>(ncap, target, mx). nat (target - ncap))") auto

declare conn_cap.simps [simp del]

definition conn_grow :: "http_conn \<Rightarrow> int \<Rightarrow> int" where
  "conn_grow c target =
     (if ccap c < target
      then let n = conn_cap (if ccap c > 0 then ccap c else CONN_BUF_INIT) target (max_total c)
           in if n > max_total c then max_total c else n
      else ccap c)"

fun ev_size :: "recv_ev \<Rightarrow> nat" where
  "ev_size (Data bs) = Suc (length bs)"
| "ev_size _ = 1"

text \<open>The returned code, the connection and the rest of the socket.\<close>

function ensure_buffered :: "http_conn \<Rightarrow> recv_ev list \<Rightarrow> int \<Rightarrow> (int \<times> http_conn \<times> recv_ev list) option" where
  "ensure_buffered c sock target =
     (if target \<le> conn_used c then Some (200, c, sock)
      else if target > max_total c then Some (413, c, sock)
      else if conn_grow c target < target then Some (413, c, sock)
      else let c1 = c\<lparr>ccap := conn_grow c target\<rparr> in
        case sock of
          [] \<Rightarrow> None
        | Interrupted # s \<Rightarrow> ensure_buffered c1 s target
        | Failed # s \<Rightarrow> Some (400, c1, s)
        | Eof # s \<Rightarrow> Some (if conn_used c1 = 0 then 0 else 400, c1, sock)
        | Data bs # s \<Rightarrow>
          (if bs = [] then Some (if conn_used c1 = 0 then 0 else 400, c1, sock)
           else let room = nat (ccap c1 - conn_used c1) in
             ensure_buffered (c1\<lparr>cbuf := cbuf c1 @ take room bs\<rparr>)
               (if drop room bs = [] then s else Data (drop room bs) # s) target))"
  by pat_completeness auto
termination
  by (relation "measure (\<lambda>(c, sock, target). sum_list (map ev_size sock))") auto

declare ensure_buffered.simps [simp del]

subsection \<open>Bytes that arrive\<close>

text \<open>The bytes that the socket delivers before it ends or fails.\<close>

fun pending :: "recv_ev list \<Rightarrow> string" where
  "pending (Data bs # s) = (if bs = [] then [] else bs @ pending s)"
| "pending (Interrupted # s) = pending s"
| "pending _ = []"

definition conn_ok :: "http_conn \<Rightarrow> bool" where
  "conn_ok c \<longleftrightarrow> conn_used c \<le> ccap c \<and> 0 < ccap c \<and> ccap c \<le> max_total c"

lemma conn_init_ok: "conn_ok (conn_init max_body)"
  by (simp add: conn_ok_def conn_init_def Let_def CONN_BUF_INIT_def MAX_HDR_BYTES_def)

lemma conn_cap_bounds:
  "0 < ncap \<Longrightarrow> ncap \<le> mx \<Longrightarrow> target \<le> mx \<Longrightarrow> ncap \<le> conn_cap ncap target mx \<and> target \<le> conn_cap ncap target mx \<and> conn_cap ncap target mx \<le> mx"
proof (induction ncap target mx rule: conn_cap.induct)
  case (1 ncap target mx)
  show ?case
  proof (cases "ncap < target \<and> \<not> ncap > mx div 2")
    case True
    then have "ncap * 2 \<le> mx" by linarith
    then show ?thesis using True 1 by (subst (1 2 3) conn_cap.simps) auto
  next
    case False
    then show ?thesis using "1.prems" by (subst (1 2 3) conn_cap.simps) auto
  qed
qed

lemma conn_grow_ok: "conn_ok c \<Longrightarrow> target \<le> max_total c \<Longrightarrow> ccap c \<le> conn_grow c target \<and> target \<le> conn_grow c target \<and> conn_grow c target \<le> max_total c"
  using conn_cap_bounds [of "ccap c" "max_total c" target] by (auto simp: conn_grow_def conn_ok_def Let_def)

lemma ensure_buffered_inv:
  "conn_ok c \<Longrightarrow> ensure_buffered c sock target = Some (rc, c', sock') \<Longrightarrow>
   conn_ok c' \<and> max_total c' = max_total c \<and> (rc = 200 \<longrightarrow> target \<le> conn_used c') \<and> rc \<in> {0, 200, 400, 413}"
proof (induction c sock target arbitrary: rc c' sock' rule: ensure_buffered.induct)
  case (1 c sock target)
  show ?case
  proof (cases "target \<le> conn_used c \<or> target > max_total c")
    case True
    then show ?thesis using "1.prems" by (subst (asm) ensure_buffered.simps) (auto split: if_splits)
  next
    case False
    let ?c1 = "c\<lparr>ccap := conn_grow c target\<rparr>"
    have g: "ccap c \<le> conn_grow c target" "target \<le> conn_grow c target" "conn_grow c target \<le> max_total c"
      using conn_grow_ok [OF "1.prems"(1), of target] False by auto
    have ok1: "conn_ok ?c1" using "1.prems"(1) g by (auto simp: conn_ok_def)
    have e: "\<not> conn_grow c target < target" "\<not> target \<le> conn_used c" "\<not> target > max_total c" using g False by auto
    note step = "1.prems"(2) [unfolded ensure_buffered.simps [of c sock target] Let_def, simplified e if_False]
    show ?thesis
    proof (cases sock)
      case Nil
      then show ?thesis using step by simp
    next
      case (Cons ev s)
      show ?thesis
      proof (cases ev)
        case (Data bs)
        show ?thesis
        proof (cases "bs = []")
          case True
          then show ?thesis using step Cons Data ok1 by (auto split: if_splits)
        next
          case ne: False
          let ?room = "nat (ccap ?c1 - conn_used ?c1)"
          let ?c2 = "?c1\<lparr>cbuf := cbuf ?c1 @ take ?room bs\<rparr>"
          have "conn_ok ?c2" using ok1 by (auto simp: conn_ok_def min_def)
          then show ?thesis using "1.IH"(1) [OF e(2,3,1) refl Cons Data ne refl] step Cons Data ne by simp
        qed
      next
        case Interrupted
        then show ?thesis using "1.IH"(2) [OF e(2,3,1) refl Cons Interrupted ok1] step Cons by simp
      qed (use step Cons ok1 in \<open>auto split: if_splits\<close>)
    qed
  qed
qed

lemma ensure_buffered_arrives:
  "conn_ok c \<Longrightarrow> target \<le> max_total c \<Longrightarrow> target \<le> conn_used c + int (length (pending sock)) \<Longrightarrow>
   \<exists>c' sock'. ensure_buffered c sock target = Some (200, c', sock') \<and> cbuf c' @ pending sock' = cbuf c @ pending sock"
proof (induction c sock target rule: ensure_buffered.induct)
  case (1 c sock target)
  show ?case
  proof (cases "target \<le> conn_used c")
    case True
    then show ?thesis by (subst ensure_buffered.simps) auto
  next
    case False
    let ?c1 = "c\<lparr>ccap := conn_grow c target\<rparr>"
    have g: "ccap c \<le> conn_grow c target" "target \<le> conn_grow c target" "conn_grow c target \<le> max_total c"
      using conn_grow_ok [OF "1.prems"(1,2)] by auto
    have ok1: "conn_ok ?c1" using "1.prems"(1) g by (auto simp: conn_ok_def)
    have e: "\<not> conn_grow c target < target" "\<not> target \<le> conn_used c" "\<not> target > max_total c" using g False "1.prems"(2) by auto
    have ne: "pending sock \<noteq> []" using False "1.prems"(3) by auto
    then obtain ev s where Cons: "sock = ev # s" by (cases sock) auto
    show ?thesis
    proof (cases ev)
      case (Data bs)
      then have bs: "bs \<noteq> []" using ne Cons by auto
      let ?room = "nat (ccap ?c1 - conn_used ?c1)"
      let ?c2 = "?c1\<lparr>cbuf := cbuf ?c1 @ take ?room bs\<rparr>"
      let ?s = "if drop ?room bs = [] then s else Data (drop ?room bs) # s"
      have ok2: "conn_ok ?c2" using ok1 by (auto simp: conn_ok_def min_def)
      have p: "cbuf ?c2 @ pending ?s = cbuf c @ pending sock"
        using Cons Data bs by simp
      have len: "conn_used ?c2 + int (length (pending ?s)) = conn_used c + int (length (pending sock))"
        using arg_cong [OF p, of length] by simp
      have "\<exists>c' sock'. ensure_buffered ?c2 ?s target = Some (200, c', sock') \<and> cbuf c' @ pending sock' = cbuf ?c2 @ pending ?s"
        by (rule "1.IH"(1) [OF e(2,3,1) refl Cons Data bs refl ok2]) (use "1.prems"(2,3) len in simp_all)
      moreover have "ensure_buffered c sock target = ensure_buffered ?c2 ?s target"
        using e Cons Data bs by (subst ensure_buffered.simps) (simp add: Let_def)
      ultimately show ?thesis using p by metis
    next
      case Interrupted
      have "\<exists>c' sock'. ensure_buffered ?c1 s target = Some (200, c', sock') \<and> cbuf c' @ pending sock' = cbuf ?c1 @ pending s"
        by (rule "1.IH"(2) [OF e(2,3,1) refl Cons Interrupted ok1]) (use "1.prems"(2,3) Cons Interrupted in simp_all)
      moreover have "ensure_buffered c sock target = ensure_buffered ?c1 s target"
        using e Cons Interrupted by (subst ensure_buffered.simps) (simp add: Let_def)
      ultimately show ?thesis using Cons Interrupted by simp
    qed (use ne Cons in simp_all)
  qed
qed

subsection \<open>Parsing a request\<close>

text \<open>Reading on until the buffer holds an empty line: its offset, or the code to return.\<close>

function hdr_loop :: "http_conn \<Rightarrow> recv_ev list \<Rightarrow> ((int + nat) \<times> http_conn \<times> recv_ev list) option" where
  "hdr_loop c sock =
     (case find_hdr_end (cbuf c) of
        Some n \<Rightarrow> Some (Inr n, c, sock)
      | None \<Rightarrow>
        if conn_used c \<ge> MAX_HDR_BYTES then Some (Inl 413, c, sock)
        else case ensure_buffered c sock (conn_used c + 1) of
            None \<Rightarrow> None
          | Some (rc, c1, s1) \<Rightarrow>
            if rc \<noteq> 200 then Some (Inl rc, c1, s1) else hdr_loop c1 s1)"
  by pat_completeness auto

lemma ensure_buffered_200: "ensure_buffered c sock target = Some (200, c', sock') \<Longrightarrow> target \<le> conn_used c'"
proof (induction c sock target rule: ensure_buffered.induct)
  case (1 c sock target)
  then show ?case
    by (subst (asm) (3) ensure_buffered.simps) (auto simp: Let_def split: if_splits list.splits recv_ev.splits)
qed

termination hdr_loop
proof (relation "measure (\<lambda>(c, sock). nat (MAX_HDR_BYTES - conn_used c))", goal_cases)
  case (2 c sock x rc y c1 s1)
  then have "conn_used c + 1 \<le> conn_used c1" using ensure_buffered_200 by metis
  then show ?case using 2 by auto
qed simp

declare hdr_loop.simps [simp del]

text \<open>\<open>strtok_r\<close> with the separators CR and LF: the lines that are not empty.\<close>

definition line_sep :: "char \<Rightarrow> bool" where
  "line_sep c \<longleftrightarrow> c = CHR 0x0D \<or> c = CHR 0x0A"

function tok_lines :: "string \<Rightarrow> string list" where
  "tok_lines s =
     (let t = dropWhile line_sep s in
      if t = [] then [] else takeWhile (\<lambda>c. \<not> line_sep c) t # tok_lines (dropWhile (\<lambda>c. \<not> line_sep c) t))"
  by pat_completeness auto
termination
proof (relation "measure length", goal_cases)
  case (2 s t)
  obtain c cs where t: "t = c # cs" using 2(2) by (meson neq_Nil_conv)
  then have "\<not> line_sep c" using 2 hd_dropWhile [of line_sep s] by simp
  then have "length (dropWhile (\<lambda>c. \<not> line_sep c) t) < length t" using t length_dropWhile_le [of "\<lambda>c. \<not> line_sep c" cs] by simp
  moreover have "length t \<le> length s" using 2 length_dropWhile_le by simp
  ultimately show ?case by simp
qed simp

declare tok_lines.simps [simp del]

text \<open>One \<open>%ns\<close> of \<open>sscanf\<close>: the word and the rest.\<close>

definition scan_word :: "nat \<Rightarrow> string \<Rightarrow> (string \<times> string) option" where
  "scan_word n s =
     (let t = skip_space s; w = take n (takeWhile (\<lambda>c. \<not> isspace c) t)
      in if w = [] then None else Some (w, drop (length w) t))"

definition scan_request_line :: "string \<Rightarrow> (string \<times> string \<times> string) option" where
  "scan_request_line s =
     (case scan_word 7 s of None \<Rightarrow> None | Some (m, s1) \<Rightarrow>
      (case scan_word 255 s1 of None \<Rightarrow> None | Some (p, s2) \<Rightarrow>
       (case scan_word 15 s2 of None \<Rightarrow> None | Some (v, s3) \<Rightarrow> Some (m, p, v))))"

definition starts_icase :: "string \<Rightarrow> string \<Rightarrow> bool" where
  "starts_icase s name \<longleftrightarrow> map tolower (take (length name) s) = map tolower name"

text \<open>The header lines: the length of the body and whether to close; \<^const>\<open>None\<close> is \<open>return 400\<close>.\<close>

fun hdr_lines :: "string list \<Rightarrow> ulong \<Rightarrow> bool \<Rightarrow> (ulong \<times> bool) option" where
  "hdr_lines [] blen cls = Some (blen, cls)"
| "hdr_lines (line # ls) blen cls =
     (case strchr line (CHR '':'') of
        None \<Rightarrow> hdr_lines ls blen cls
      | Some colon \<Rightarrow>
        let name = hdr_trim (take (length line - length colon) line); val = hdr_trim (tl colon) in
        if starts_icase name ''Content-Length'' then
          (let (v, rest) = strtoull val in if rest \<noteq> [] then None else hdr_lines ls v cls)
        else if starts_icase name ''Connection'' then hdr_lines ls blen (cls \<or> starts_icase val ''close'')
        else if starts_icase name ''Transfer-Encoding'' then None
        else hdr_lines ls blen cls)"

definition req_zero :: http_req where
  "req_zero = \<lparr>meth = [], path = [], qry = [], rq_body = [], req_id = []\<rparr>"

text \<open>The part of \<open>parse_req\<close> on the copy of the header: the request without its body, its length and the flag.\<close>

definition parse_hdr :: "string \<Rightarrow> (http_req \<times> ulong \<times> bool) option" where
  "parse_hdr hdr_copy =
     (case tok_lines hdr_copy of
        [] \<Rightarrow> None
      | line # ls \<Rightarrow>
        (case scan_request_line line of
          None \<Rightarrow> None
        | Some (m, p, v) \<Rightarrow>
          if strcmp v ''HTTP/1.1'' \<noteq> 0 then None
          else map_option (\<lambda>(blen, cls). (req_zero\<lparr>meth := m, path := p\<rparr>, blen, cls)) (hdr_lines ls 0 False)))"

definition split_query :: "http_req \<Rightarrow> http_req" where
  "split_query r =
     (case strchr (path r) (CHR ''?'') of
        None \<Rightarrow> r
      | Some q \<Rightarrow> r\<lparr>qry := take 511 (tl q), path := take (length (path r) - length q) (path r)\<rparr>)"

text \<open>
  The code, the request and whether to close the connection. When the code is not 200 the caller does not look at the
  request, which is empty here.
\<close>

definition parse_req :: "http_conn \<Rightarrow> recv_ev list \<Rightarrow> int \<Rightarrow> (int \<times> http_req \<times> bool \<times> http_conn \<times> recv_ev list) option" where
  "parse_req c0 sock0 max_body =
     (case hdr_loop c0 sock0 of
        None \<Rightarrow> None
      | Some (Inl rc, c, sock) \<Rightarrow> Some (rc, req_zero, False, c, sock)
      | Some (Inr hdr_len, c, sock) \<Rightarrow>
        if int hdr_len > MAX_HDR_BYTES then Some (413, req_zero, False, c, sock)
        else (case parse_hdr (takeWhile (\<lambda>ch. ch \<noteq> CHR 0x00) (take hdr_len (cbuf c))) of
          None \<Rightarrow> Some (400, req_zero, False, c, sock)
        | Some (r, body_len, cls) \<Rightarrow>
          if uint body_len > (if max_body > 0 then max_body else 0) then Some (413, req_zero, cls, c, sock)
          else let req_bytes = int hdr_len + 4 + uint body_len in
            if req_bytes > max_total c then Some (413, req_zero, cls, c, sock)
            else (case ensure_buffered c sock req_bytes of
              None \<Rightarrow> None
            | Some (rc, c1, sock1) \<Rightarrow>
              if rc \<noteq> 200 then Some (rc, req_zero, cls, c1, sock1)
              else Some (200, split_query (r\<lparr>rq_body := take (nat (uint body_len)) (drop (hdr_len + 4) (cbuf c1))\<rparr>), cls,
                c1\<lparr>cbuf := drop (nat req_bytes) (cbuf c1)\<rparr>, sock1))))"

definition reason_of :: "int \<Rightarrow> string" where
  "reason_of c =
     (if c = 200 then ''OK'' else if c = 201 then ''Created'' else if c = 400 then ''Bad Request'' else if c = 404 then ''Not Found''
      else if c = 405 then ''Method Not Allowed'' else if c = 413 then ''Payload Too Large'' else if c = 429 then ''Too Many Requests''
      else if c = 503 then ''Service Unavailable'' else ''Internal Server Error'')"

text \<open>
  What \<open>send_res\<close> writes, when the socket takes it: \<open>snprintf\<close> cuts the header after 255 characters, but the number of
  bytes written is the length of the whole header, so a longer one would send bytes behind the array.
\<close>

definition CRLF :: string where "CRLF = [CHR 0x0D, CHR 0x0A]"

definition res_head :: "http_res \<Rightarrow> bool \<Rightarrow> string" where
  "res_head r cls =
     ''HTTP/1.1 '' @ show_long (code r) @ '' '' @ reason_of (code r) @ CRLF @
     ''Content-Type: '' @ (if content_type r \<noteq> [] then content_type r else ''application/json'') @ CRLF @
     ''Content-Length: '' @ nat_digits (length (res_body r)) @ CRLF @
     ''Connection: '' @ (if cls then ''close'' else ''keep-alive'') @ CRLF @ CRLF"

definition send_res :: "http_res \<Rightarrow> bool \<Rightarrow> string option" where
  "send_res r cls = (if length (res_head r cls) < 256 then Some (res_head r cls @ res_body r) else None)"

end
