(* ===== verification/Http_Correct.thy ===== *)
theory Http_Correct
  imports Http
begin

text \<open>
  Requests are read back, whatever packets they arrive in, and the buffer of a connection keeps within its bound.
\<close>

subsection \<open>The end of the header\<close>

lemma find_hdr_end_bound: "find_hdr_end s = Some n \<Longrightarrow> n + 4 \<le> length s"
  by (induction s arbitrary: n) (auto simp: is_prefix_iff split: if_splits)

text \<open>A prefix of the stream either does not hold the empty line yet or gives the same offset.\<close>

lemma empty_line_take: "is_prefix [CHR 0x0D, CHR 0x0A, CHR 0x0D, CHR 0x0A] (take k s) \<longleftrightarrow>
    4 \<le> k \<and> is_prefix [CHR 0x0D, CHR 0x0A, CHR 0x0D, CHR 0x0A] s"
proof -
  consider "k = 0" | "k = 1" | "k = 2" | "k = 3" | m where "k = m + 4"
    by (metis One_nat_def Suc_1 add_2_eq_Suc' numeral_3_eq_3 numeral_Bit0 not0_implies_Suc add_Suc_right add.right_neutral)
  then show ?thesis
    by cases (cases s; cases "tl s"; cases "tl (tl s)"; cases "tl (tl (tl s))"; auto simp: numeral_eq_Suc take_Cons')+
qed

lemma find_hdr_end_take: "find_hdr_end s = Some n \<Longrightarrow> find_hdr_end (take k s) = (if n + 4 \<le> k then Some n else None)"
proof (induction s arbitrary: n k)
  case (Cons c cs)
  show ?case
  proof (cases k)
    case (Suc j)
    show ?thesis
    proof (cases "is_prefix [CHR 0x0D, CHR 0x0A, CHR 0x0D, CHR 0x0A] (c # cs)")
      case True
      then have "n = 0" using Cons.prems by (simp del: is_prefix.simps)
      moreover have "find_hdr_end (take j cs) = None \<or> 4 \<le> k" if "\<not> 4 \<le> k"
        using find_hdr_end_bound [of "take j cs"] that Suc by (cases "find_hdr_end (take j cs)") auto
      ultimately show ?thesis using empty_line_take [of k "c # cs"] True Suc by (auto simp del: is_prefix.simps)
    next
      case False
      then obtain n' where "find_hdr_end cs = Some n'" "n = Suc n'" using Cons.prems by (auto simp del: is_prefix.simps)
      then show ?thesis using empty_line_take [of k "c # cs"] False Suc Cons.IH [of n' j] by (simp del: is_prefix.simps)
    qed
  qed simp
qed simp

lemma find_hdr_end_skip:
  "CHR 0x0D \<notin> set xs \<Longrightarrow> find_hdr_end (xs @ ys) = map_option (\<lambda>n. length xs + n) (find_hdr_end ys)"
  by (induction xs; cases "find_hdr_end ys") auto

lemma hdr_loop_arrives:
  assumes "conn_ok c" "find_hdr_end (cbuf c @ pending sock) = Some n" "int n + 4 \<le> MAX_HDR_BYTES" "int n + 4 \<le> max_total c"
  shows "\<exists>c' sock'. hdr_loop c sock = Some (Inr n, c', sock') \<and> cbuf c' @ pending sock' = cbuf c @ pending sock \<and>
    conn_ok c' \<and> max_total c' = max_total c"
  using assms
proof (induction c sock rule: hdr_loop.induct)
  case (1 c sock)
  let ?S = "cbuf c @ pending sock"
  have t: "find_hdr_end (cbuf c) = (if n + 4 \<le> length (cbuf c) then Some n else None)"
    using find_hdr_end_take [OF "1.prems"(2), of "length (cbuf c)"] by simp
  show ?case
  proof (cases "n + 4 \<le> length (cbuf c)")
    case True
    then show ?thesis using t "1.prems"(1) by (subst hdr_loop.simps) simp
  next
    case False
    have len: "n + 4 \<le> length ?S" using find_hdr_end_bound [OF "1.prems"(2)] .
    have room: "conn_used c + 1 \<le> max_total c" "conn_used c + 1 \<le> conn_used c + int (length (pending sock))" "\<not> conn_used c \<ge> MAX_HDR_BYTES"
      using False len "1.prems"(3,4) by auto
    obtain c1 s1 where e: "ensure_buffered c sock (conn_used c + 1) = Some (200, c1, s1)" "cbuf c1 @ pending s1 = ?S"
      using ensure_buffered_arrives [OF "1.prems"(1) room(1,2)] by blast
    have ok: "conn_ok c1" "max_total c1 = max_total c" using ensure_buffered_inv [OF "1.prems"(1) e(1)] by auto
    have none: "find_hdr_end (cbuf c) = None" using t False by simp
    have step: "hdr_loop c sock = hdr_loop c1 s1" using none room(3) e(1) by (subst hdr_loop.simps) simp
    have "\<exists>c' sock'. hdr_loop c1 s1 = Some (Inr n, c', sock') \<and> cbuf c' @ pending sock' = cbuf c1 @ pending s1 \<and>
        conn_ok c' \<and> max_total c' = max_total c1"
      by (rule "1.IH" [OF none room(3) e(1) refl refl]) (use "1.prems" ok e(2) in auto)
    then show ?thesis using step e(2) ok(2) by simp
  qed
qed

subsection \<open>The lines of the header\<close>

lemma tok_lines_CRLF:
  assumes "xs \<noteq> []" "\<forall>c\<in>set xs. \<not> line_sep c"
  shows "tok_lines (xs @ CRLF @ rest) = xs # tok_lines rest" "tok_lines xs = [xs]"
proof -
  have d: "dropWhile line_sep (xs @ ys) = xs @ ys" for ys using assms by (cases xs) auto
  have crlf: "line_sep (CHR 0x0D)" "line_sep (CHR 0x0A)" by (simp_all add: line_sep_def)
  have e: "tok_lines (CRLF @ rest) = tok_lines rest"
    by (subst (1 2) tok_lines.simps) (simp add: CRLF_def crlf)
  show "tok_lines (xs @ CRLF @ rest) = xs # tok_lines rest"
    using assms d [of "CRLF @ rest"] e by (subst tok_lines.simps) (simp add: Let_def, simp add: CRLF_def crlf)
  have n: "tok_lines [] = []" by (subst tok_lines.simps) simp
  show "tok_lines xs = [xs]" using assms d [of "[]"] n by (subst tok_lines.simps) (simp add: Let_def takeWhile_all dropWhile_all)
qed

lemma scan_word_word:
  assumes "w \<noteq> []" "length w \<le> n" "\<forall>c\<in>set w. \<not> isspace c" "rest = [] \<or> isspace (hd rest)" "\<forall>c\<in>set sp. isspace c"
  shows "scan_word n (sp @ w @ rest) = Some (w, rest)"
proof -
  have s: "skip_space (sp @ w @ rest) = w @ rest"
    using assms by (cases w) (auto simp: skip_space_dropWhile dropWhile_append dropWhile_all)
  have t: "takeWhile (\<lambda>c. \<not> isspace c) (w @ rest) = w" using assms by (cases rest) auto
  show ?thesis using assms(1,2) unfolding scan_word_def s Let_def t by simp
qed

lemma strtoull_digits:
  assumes "n < 2 ^ 64"
  shows "strtoull (nat_digits n) = (of_nat n, [])"
proof -
  have dg: "takeWhile isdigit (nat_digits n) = nat_digits n" "dropWhile isdigit (nat_digits n) = []"
    using nat_digits_digits by (auto intro: takeWhile_all dropWhile_all)
  have h: "isdigit (hd (nat_digits n))" using nat_digits_digits [of n] by (simp add: list.set_sel(1))
  have sk: "skip_space (nat_digits n) = nat_digits n" using h isdigit_not_space by (intro skip_space_id) blast
  have sg: "hd (nat_digits n) \<noteq> CHR ''-''" "hd (nat_digits n) \<noteq> CHR ''+''" using isdigit_not_sign [OF h] by auto
  show ?thesis using assms unfolding strtoull_def sk Let_def by (simp add: dg sg digits_val_nat_digits)
qed

subsection \<open>Requests\<close>

text \<open>A request as a client writes it; \<open>tgt\<close> is the path with the query string.\<close>

definition req_head :: "string \<Rightarrow> string \<Rightarrow> bool \<Rightarrow> nat \<Rightarrow> string" where
  "req_head m tgt cls n = m @ '' '' @ tgt @ '' HTTP/1.1'' @ CRLF @ ''Content-Length: '' @ nat_digits n @
     (if cls then CRLF @ ''Connection: close'' else [])"

definition req_text :: "string \<Rightarrow> string \<Rightarrow> bool \<Rightarrow> string \<Rightarrow> string" where
  "req_text m tgt cls bdy = req_head m tgt cls (length bdy) @ CRLF @ CRLF @ bdy"

definition word_ok :: "nat \<Rightarrow> string \<Rightarrow> bool" where
  "word_ok n w \<longleftrightarrow> w \<noteq> [] \<and> length w \<le> n \<and> (\<forall>c\<in>set w. \<not> isspace c \<and> c \<noteq> CHR 0x00)"

lemma line_sep_space: "line_sep c \<Longrightarrow> isspace c"
  by (auto simp: line_sep_def isspace_def byte_def)

lemma word_okD: "word_ok n w \<Longrightarrow> CHR 0x0D \<notin> set w \<and> (\<forall>c\<in>set w. \<not> line_sep c)"
proof -
  assume "word_ok n w"
  then have "\<not> line_sep c" if "c \<in> set w" for c using that line_sep_space [of c] by (auto simp: word_ok_def)
  then show ?thesis by (auto simp: line_sep_def)
qed

lemma digits_plain: "c \<in> set (nat_digits n) \<Longrightarrow> \<not> hdr_space c \<and> \<not> line_sep c \<and> c \<noteq> CHR 0x0D \<and> c \<noteq> CHR 0x00"
proof -
  assume "c \<in> set (nat_digits n)"
  then have "48 \<le> byte c" using nat_digits_digits isdigit_def by blast
  then show ?thesis by (auto simp: hdr_space_def line_sep_def byte_def)
qed

lemma parse_hdr_req:
  assumes "word_ok 7 m" "word_ok 255 tgt" "n < 2 ^ 64"
  shows "parse_hdr (req_head m tgt cls n) = Some (req_zero\<lparr>meth := m, path := tgt\<rparr>, of_nat n, cls)"
proof -
  let ?line = "m @ '' '' @ tgt @ '' HTTP/1.1''" and ?cl = "''Content-Length: '' @ nat_digits n"
  have sep: "\<forall>c\<in>set ?line. \<not> line_sep c" "\<forall>c\<in>set ?cl. \<not> line_sep c" "\<forall>c\<in>set ''Connection: close''. \<not> line_sep c"
  proof -
    have "\<forall>c\<in>set m. \<not> line_sep c" "\<forall>c\<in>set tgt. \<not> line_sep c" "\<forall>c\<in>set (nat_digits n). \<not> line_sep c"
      using word_okD [OF assms(1)] word_okD [OF assms(2)] digits_plain by blast+
    moreover have "\<forall>c\<in>set '' HTTP/1.1Content-Length: Connection: close''. \<not> line_sep c" by (simp add: line_sep_def)
    ultimately show "\<forall>c\<in>set ?line. \<not> line_sep c" "\<forall>c\<in>set ?cl. \<not> line_sep c" "\<forall>c\<in>set ''Connection: close''. \<not> line_sep c"
      unfolding set_append ball_Un by (simp_all only: list.set ball_simps) simp_all
  qed
  have ne: "?line \<noteq> []" "?cl \<noteq> []" "''Connection: close'' \<noteq> []" by simp_all
  have lines: "tok_lines (req_head m tgt cls n) = ?line # ?cl # (if cls then [''Connection: close''] else [])"
  proof (cases cls)
    case True
    have h: "req_head m tgt cls n = ?line @ CRLF @ ?cl @ CRLF @ ''Connection: close''" using True by (simp add: req_head_def)
    show ?thesis
      unfolding h tok_lines_CRLF(1) [OF ne(1) sep(1)] tok_lines_CRLF(1) [OF ne(2) sep(2)] tok_lines_CRLF(2) [OF ne(3) sep(3)]
      using True by simp
  next
    case False
    have h: "req_head m tgt cls n = ?line @ CRLF @ ?cl" using False by (simp add: req_head_def)
    show ?thesis unfolding h tok_lines_CRLF(1) [OF ne(1) sep(1)] tok_lines_CRLF(2) [OF ne(2) sep(2)] using False by simp
  qed
  have sp: "isspace (CHR '' '')" by (simp add: isspace_def byte_def)
  have v: "word_ok 15 ''HTTP/1.1''" by (simp add: word_ok_def isspace_def byte_def)
  have w1: "scan_word 7 ?line = Some (m, '' '' @ tgt @ '' HTTP/1.1'')"
    using scan_word_word [of m 7 "'' '' @ tgt @ '' HTTP/1.1''" "[]"] assms(1) sp by (simp add: word_ok_def)
  have w2: "scan_word 255 ('' '' @ tgt @ '' HTTP/1.1'') = Some (tgt, '' HTTP/1.1'')"
    using scan_word_word [of tgt 255 "'' HTTP/1.1''" "'' ''"] assms(2) sp by (simp add: word_ok_def)
  have w3: "scan_word 15 '' HTTP/1.1'' = Some (''HTTP/1.1'', [])"
    using scan_word_word [of "''HTTP/1.1''" 15 "[]" "'' ''"] v sp by (simp add: word_ok_def)
  have rl: "scan_request_line ?line = Some (m, tgt, ''HTTP/1.1'')"
    unfolding scan_request_line_def w1 option.case prod.case w2 w3 ..
  have tr: "hdr_trim (CHR '' '' # nat_digits n) = nat_digits n"
  proof -
    obtain d ds where d: "nat_digits n = d # ds" by (cases "nat_digits n") auto
    obtain e es where e: "rev (nat_digits n) = e # es" by (cases "rev (nat_digits n)") auto
    have "\<not> hdr_space d" "\<not> hdr_space e"
      using digits_plain [of d n] digits_plain [of e n] d e set_rev [of "nat_digits n"] by auto
    then have "dropWhile hdr_space (CHR '' '' # nat_digits n) = nat_digits n" "dropWhile hdr_space (rev (nat_digits n)) = rev (nat_digits n)"
      using d e by (simp_all add: hdr_space_def)
    then show ?thesis by (simp add: hdr_trim_def)
  qed
  have nm: "hdr_trim ''Content-Length'' = ''Content-Length''" "hdr_trim ''Connection'' = ''Connection''" "hdr_trim '' close'' = ''close''"
    by code_simp+
  have ncl: "\<not> starts_icase ''Connection'' ''Content-Length''" by code_simp
  have hl: "hdr_lines (?cl # (if cls then [''Connection: close''] else [])) 0 False = Some (of_nat n, cls)"
    using tr nm ncl strtoull_digits [OF assms(3)] by (simp add: starts_icase_def Let_def)
  show ?thesis unfolding parse_hdr_def lines list.case rl option.case prod.case hl by simp
qed

lemma find_hdr_end_CRLF:
  "b \<noteq> CHR 0x0D \<Longrightarrow> find_hdr_end (CRLF @ b # ys) = map_option (\<lambda>n. 2 + n) (find_hdr_end (b # ys))"
  by (cases "find_hdr_end ys") (auto simp: CRLF_def)

lemma req_head_end:
  assumes "word_ok 7 m" "word_ok 255 tgt"
  shows "find_hdr_end (req_head m tgt cls n @ CRLF @ CRLF @ rest) = Some (length (req_head m tgt cls n))"
proof -
  let ?line = "m @ '' '' @ tgt @ '' HTTP/1.1''" and ?cl = "''Content-Length: '' @ nat_digits n"
  have cr: "CHR 0x0D \<notin> set ?line" "CHR 0x0D \<notin> set ?cl" "CHR 0x0D \<notin> set ''Connection: close''"
    using word_okD [OF assms(1)] word_okD [OF assms(2)] digits_plain [of "CHR 0x0D" n] by auto
  have z: "find_hdr_end (CRLF @ CRLF @ rest) = Some 0" by (simp add: CRLF_def)
  have c: "find_hdr_end (CRLF @ ?cl @ ys) = map_option (\<lambda>k. 2 + length ?cl + k) (find_hdr_end ys)" for ys
    using find_hdr_end_CRLF [of "CHR ''C''" "''ontent-Length: '' @ nat_digits n @ ys"] find_hdr_end_skip [OF cr(2), of ys]
    by (cases "find_hdr_end ys") simp_all
  have k: "find_hdr_end (CRLF @ ''Connection: close'' @ ys) = map_option (\<lambda>k. 2 + length ''Connection: close'' + k) (find_hdr_end ys)" for ys
    using find_hdr_end_CRLF [of "CHR ''C''" "''onnection: close'' @ ys"] find_hdr_end_skip [OF cr(3), of ys]
    by (cases "find_hdr_end ys") simp_all
  show ?thesis
  proof (cases cls)
    case True
    have h: "req_head m tgt cls n @ CRLF @ CRLF @ rest = ?line @ CRLF @ ?cl @ CRLF @ ''Connection: close'' @ CRLF @ CRLF @ rest"
      using True by (simp add: req_head_def)
    show ?thesis unfolding h find_hdr_end_skip [OF cr(1)] c k z using True by (simp add: req_head_def CRLF_def)
  next
    case False
    have h: "req_head m tgt cls n @ CRLF @ CRLF @ rest = ?line @ CRLF @ ?cl @ CRLF @ CRLF @ rest" using False by (simp add: req_head_def)
    show ?thesis unfolding h find_hdr_end_skip [OF cr(1)] c z using False by (simp add: req_head_def CRLF_def)
  qed
qed

lemma req_head_length:
  assumes "word_ok 7 m" "word_ok 255 tgt" "n < 10 ^ 20"
  shows "length (req_head m tgt cls n) \<le> 400"
  using assms length_nat_digits [of n 19] by (auto simp: req_head_def word_ok_def CRLF_def)

lemma req_head_no_nul:
  assumes "word_ok 7 m" "word_ok 255 tgt"
  shows "takeWhile (\<lambda>ch. ch \<noteq> CHR 0x00) (req_head m tgt cls n) = req_head m tgt cls n"
proof (rule takeWhile_all)
  have "CHR 0x00 \<notin> set m" "CHR 0x00 \<notin> set tgt" "CHR 0x00 \<notin> set (nat_digits n)"
    using assms digits_plain [of "CHR 0x00" n] by (auto simp: word_ok_def)
  then show "\<forall>ch\<in>set (req_head m tgt cls n). ch \<noteq> CHR 0x00" by (auto simp: req_head_def CRLF_def)
qed

lemma split_query_target:
  assumes "CHR ''?'' \<notin> set p" "case q of None \<Rightarrow> True | Some s \<Rightarrow> length s \<le> 511"
  shows "split_query \<lparr>meth = m, path = p @ (case q of None \<Rightarrow> [] | Some s \<Rightarrow> CHR ''?'' # s), qry = [], rq_body = bdy, req_id = []\<rparr> =
    \<lparr>meth = m, path = p, qry = (case q of None \<Rightarrow> [] | Some s \<Rightarrow> s), rq_body = bdy, req_id = []\<rparr>"
proof (cases q)
  case None
  then show ?thesis using assms(1) strchr_None_iff [of p "CHR ''?''"] by (simp add: split_query_def)
next
  case (Some s)
  have "strchr (p @ CHR ''?'' # s) (CHR ''?'') = Some (CHR ''?'' # s)" using assms(1) by (induction p) auto
  then show ?thesis using assms(2) Some by (simp add: split_query_def)
qed

lemma parse_req_text:
  assumes ok: "conn_ok c" "max_body + MAX_HDR_BYTES + 4 \<le> max_total c" and len: "int (length bdy) \<le> max_body" "max_body < 2 ^ 31"
    and w: "word_ok 7 m" "word_ok 255 tgt" and stream: "cbuf c @ pending sock = req_text m tgt cls bdy @ rest"
  shows "\<exists>c' sock'. parse_req c sock max_body =
      Some (200, split_query \<lparr>meth = m, path = tgt, qry = [], rq_body = bdy, req_id = []\<rparr>, cls, c', sock') \<and>
    cbuf c' @ pending sock' = rest \<and> conn_ok c' \<and> max_total c' = max_total c"
proof -
  let ?h = "req_head m tgt cls (length bdy)"
  have n64: "length bdy < 2 ^ 64" using len by simp
  have hl: "length ?h \<le> 400" by (rule req_head_length [OF w]) (use len in simp)
  have he: "find_hdr_end (cbuf c @ pending sock) = Some (length ?h)"
    unfolding stream req_text_def append_assoc by (rule req_head_end [OF w])
  have b1: "int (length ?h) + 4 \<le> MAX_HDR_BYTES" using hl by (simp add: MAX_HDR_BYTES_def)
  have b2: "int (length ?h) + 4 \<le> max_total c" using b1 ok(2) len by linarith
  obtain c1 s1 where l: "hdr_loop c sock = Some (Inr (length ?h), c1, s1)" "cbuf c1 @ pending s1 = cbuf c @ pending sock"
    "conn_ok c1" "max_total c1 = max_total c"
    using hdr_loop_arrives [OF ok(1) he b1 b2] by blast
  have le: "length ?h + 4 \<le> length (cbuf c1)"
  proof -
    have "find_hdr_end (cbuf c1) = Some (length ?h)"
      using l(1) by (induction c sock rule: hdr_loop.induct) (subst (asm) (2) hdr_loop.simps, auto split: option.splits if_splits)
    then show ?thesis by (rule find_hdr_end_bound)
  qed
  have S1: "cbuf c1 @ pending s1 = ?h @ CRLF @ CRLF @ bdy @ rest" using l(2) stream by (simp add: req_text_def)
  have tk: "take (length ?h) (cbuf c1) = ?h"
  proof -
    have "take (length ?h) (cbuf c1 @ pending s1) = ?h" unfolding S1 by simp
    then show ?thesis using le by simp
  qed
  have u: "uint (of_nat (length bdy) :: ulong) = int (length bdy)" using n64 by (simp add: unsigned_of_nat take_bit_nat_eq_self)
  let ?rb = "int (length ?h) + 4 + int (length bdy)"
  have rb: "?rb \<le> max_total c1" "?rb \<le> conn_used c1 + int (length (pending s1))"
    using b1 ok(2) len(1) l(4) arg_cong [OF S1, of length] by (simp_all add: CRLF_def)
  obtain c2 s2 where e: "ensure_buffered c1 s1 ?rb = Some (200, c2, s2)" "cbuf c2 @ pending s2 = cbuf c1 @ pending s1"
    using ensure_buffered_arrives [OF l(3) rb] by blast
  have ok2: "conn_ok c2" "max_total c2 = max_total c1" "?rb \<le> conn_used c2" using ensure_buffered_inv [OF l(3) e(1)] by auto
  have S2: "cbuf c2 @ pending s2 = ?h @ CRLF @ CRLF @ bdy @ rest" using e(2) S1 by simp
  have n: "nat ?rb = length (?h @ CRLF @ CRLF @ bdy)" by (simp add: CRLF_def)
  have nle: "length (?h @ CRLF @ CRLF @ bdy) \<le> length (cbuf c2)" using ok2(3) by (simp add: CRLF_def)
  have tk2: "take (nat ?rb) (cbuf c2) = ?h @ CRLF @ CRLF @ bdy" "drop (nat ?rb) (cbuf c2) @ pending s2 = rest"
  proof -
    have "take (nat ?rb) (cbuf c2 @ pending s2) = ?h @ CRLF @ CRLF @ bdy" "drop (nat ?rb) (cbuf c2 @ pending s2) = rest"
      unfolding S2 n by simp_all
    then show "take (nat ?rb) (cbuf c2) = ?h @ CRLF @ CRLF @ bdy" "drop (nat ?rb) (cbuf c2) @ pending s2 = rest"
      using nle unfolding n by simp_all
  qed
  have body: "take (length bdy) (drop (length ?h + 4) (cbuf c2)) = bdy"
  proof -
    have "take (length bdy) (drop (length ?h + 4) (cbuf c2)) = drop (length ?h + 4) (take (nat ?rb) (cbuf c2))"
      by (simp add: drop_take nat_add_distrib) 
    then show ?thesis unfolding tk2(1) by (simp add: CRLF_def)
  qed
  have cap: "\<not> int (length bdy) > (if max_body > 0 then max_body else 0)"
  proof (cases "0 < max_body")
    case False
    then have "length bdy = 0" using len(1) by linarith
    then show ?thesis by simp
  qed (use len(1) in simp)
  let ?c3 = "c2\<lparr>cbuf := drop (nat ?rb) (cbuf c2)\<rparr>"
  have "parse_req c sock max_body = Some (200, split_query \<lparr>meth = m, path = tgt, qry = [], rq_body = bdy, req_id = []\<rparr>, cls, ?c3, s2)"
    unfolding parse_req_def l(1) option.case prod.case sum.case tk req_head_no_nul [OF w] parse_hdr_req [OF w n64] u
    using b1 cap rb(1) body e(1) by (simp add: req_zero_def)
  moreover have "conn_ok ?c3" using ok2(1) by (auto simp: conn_ok_def)
  ultimately show ?thesis using tk2(2) ok2(2) l(4) by auto
qed

subsection \<open>Bounds\<close>

lemma hdr_loop_inv:
  "conn_ok c \<Longrightarrow> hdr_loop c sock = Some (r, c', sock') \<Longrightarrow>
   conn_ok c' \<and> max_total c' = max_total c \<and> (case r of Inl rc \<Rightarrow> rc \<in> {0, 400, 413} | Inr n \<Rightarrow> find_hdr_end (cbuf c') = Some n)"
proof (induction c sock rule: hdr_loop.induct)
  case (1 c sock)
  show ?case
  proof (cases "find_hdr_end (cbuf c)")
    case (Some n)
    then show ?thesis using "1.prems" by (subst (asm) hdr_loop.simps) auto
  next
    case None
    show ?thesis
    proof (cases "conn_used c \<ge> MAX_HDR_BYTES")
      case True
      then show ?thesis using "1.prems" None by (subst (asm) hdr_loop.simps) auto
    next
      case False
      obtain rc c1 s1 where e: "ensure_buffered c sock (conn_used c + 1) = Some (rc, c1, s1)"
        using "1.prems"(2) None False by (subst (asm) hdr_loop.simps) (auto split: option.splits)
      have i: "conn_ok c1 \<and> max_total c1 = max_total c \<and> rc \<in> {0, 200, 400, 413}" using ensure_buffered_inv [OF "1.prems"(1) e] by blast
      show ?thesis
      proof (cases "rc = 200")
        case True
        have "hdr_loop c1 s1 = Some (r, c', sock')"
          using "1.prems"(2) None False e True by (subst (asm) hdr_loop.simps) simp
        then show ?thesis using "1.IH" [OF None False e refl refl] i True by simp
      next
        case ne: False
        have "r = Inl rc" "c' = c1" using "1.prems"(2) None False e ne by (subst (asm) hdr_loop.simps; simp)+
        then show ?thesis using i ne by auto
      qed
    qed
  qed
qed

lemma int_length_take: "0 \<le> u \<Longrightarrow> int (length (take (nat u) xs)) \<le> u"
  by (simp add: min_def) linarith

lemma scan_word_length: "scan_word n s = Some (w, rest) \<Longrightarrow> length w \<le> n"
  by (auto simp: scan_word_def Let_def split: if_splits)

lemma parse_hdr_bounds:
  "parse_hdr h = Some (r, blen, cls) \<Longrightarrow> length (meth r) \<le> 7 \<and> length (path r) \<le> 255 \<and> qry r = []"
  by (auto simp: parse_hdr_def scan_request_line_def req_zero_def dest!: scan_word_length split: list.splits option.splits if_splits)

lemma split_query_bounds:
  "length (path r) \<le> 255 \<Longrightarrow> qry r = [] \<Longrightarrow>
   length (path (split_query r)) \<le> 255 \<and> length (qry (split_query r)) \<le> 511 \<and> meth (split_query r) = meth r \<and>
   rq_body (split_query r) = rq_body r"
  by (auto simp: split_query_def split: option.splits)

subsection \<open>Properties\<close>

text \<open>
  A request that a client writes is read back exactly, method, path, query string, body and the wish to close,
  however its bytes are split over packets and interruptions and whatever was left in the buffer before; the bytes behind it
  are all kept for the next request.
\<close>

theorem http_request_roundtrip:
  assumes "conn_ok c" "max_body + MAX_HDR_BYTES + 4 \<le> max_total c" "int (length bdy) \<le> max_body" "max_body < 2 ^ 31"
    "word_ok 7 m" "word_ok 255 (p @ (case q of None \<Rightarrow> [] | Some s \<Rightarrow> CHR ''?'' # s))" "CHR ''?'' \<notin> set p"
    "cbuf c @ pending sock = req_text m (p @ (case q of None \<Rightarrow> [] | Some s \<Rightarrow> CHR ''?'' # s)) cls bdy @ rest"
  shows "\<exists>c' sock'. parse_req c sock max_body =
      Some (200, \<lparr>meth = m, path = p, qry = (case q of None \<Rightarrow> [] | Some s \<Rightarrow> s), rq_body = bdy, req_id = []\<rparr>, cls, c', sock') \<and>
    cbuf c' @ pending sock' = rest \<and> conn_ok c' \<and> max_total c' = max_total c"
proof -
  have "case q of None \<Rightarrow> True | Some s \<Rightarrow> length s \<le> 511" using assms(6) by (auto simp: word_ok_def split: option.splits)
  then show ?thesis using parse_req_text [OF assms(1-6,8)] split_query_target [OF assms(7), of q m bdy] by simp
qed

theorem http_request_roundtrip_witness:
  "\<exists>c' sock'. parse_req (conn_init 100) [Data (take 20 (req_text ''POST'' ''/x?a=1'' True ''hello'' @ ''GET'')), Interrupted,
       Data (drop 20 (req_text ''POST'' ''/x?a=1'' True ''hello'' @ ''GET''))] 100 =
      Some (200, \<lparr>meth = ''POST'', path = ''/x'', qry = ''a=1'', rq_body = ''hello'', req_id = []\<rparr>, True, c', sock') \<and>
    cbuf c' @ pending sock' = ''GET'' \<and> conn_ok c' \<and> max_total c' = max_total (conn_init 100)"
proof -
  let ?t = "req_text ''POST'' ''/x?a=1'' True ''hello'' @ ''GET''"
  have len: "20 < length ?t" by (simp add: req_text_def req_head_def)
  have "\<exists>c' sock'. parse_req (conn_init 100) [Data (take 20 ?t), Interrupted, Data (drop 20 ?t)] 100 =
      Some (200, \<lparr>meth = ''POST'', path = ''/x'', qry = (case Some ''a=1'' of None \<Rightarrow> [] | Some s \<Rightarrow> s), rq_body = ''hello'', req_id = []\<rparr>, True, c', sock') \<and>
    cbuf c' @ pending sock' = ''GET'' \<and> conn_ok c' \<and> max_total c' = max_total (conn_init 100)"
  proof (rule http_request_roundtrip)
    show "conn_ok (conn_init 100)" by (rule conn_init_ok)
    show "cbuf (conn_init 100) @ pending [Data (take 20 ?t), Interrupted, Data (drop 20 ?t)] =
        req_text ''POST'' (''/x'' @ (case Some ''a=1'' of None \<Rightarrow> [] | Some s \<Rightarrow> CHR ''?'' # s)) True ''hello'' @ ''GET''"
      using len append_take_drop_id [of 20 ?t] by (simp add: conn_init_def Let_def del: append_take_drop_id)
  qed (simp_all add: conn_init_def Let_def MAX_HDR_BYTES_def word_ok_def isspace_def byte_def)
  then show ?thesis by simp
qed

text \<open>
  Whatever a client sends, reading a request keeps the buffer within its array and the array within the bound of the
  connection, returns 0 (closed), 200, 400 or 413, and a request that is accepted fits the arrays it is copied to, with a
  body within the limit.
\<close>

theorem http_request_bounded:
  assumes "conn_ok c" "parse_req c sock max_body = Some (rc, r, cls, c', sock')"
  shows "conn_ok c' \<and> max_total c' = max_total c \<and> rc \<in> {0, 200, 400, 413} \<and>
    length (meth r) < 8 \<and> length (path r) < 256 \<and> length (qry r) < 512 \<and> int (length (rq_body r)) \<le> max 0 max_body"
proof -
  obtain h c1 s1 where l: "hdr_loop c sock = Some (h, c1, s1)" using assms(2) by (auto simp: parse_req_def split: option.splits)
  note i = hdr_loop_inv [OF assms(1) l]
  show ?thesis
  proof (cases h)
    case (Inl rc')
    then show ?thesis using assms(2) l i by (auto simp: parse_req_def req_zero_def)
  next
    case (Inr n)
    show ?thesis
    proof (cases "int n > MAX_HDR_BYTES")
      case True
      then show ?thesis using assms(2) l i Inr by (auto simp: parse_req_def req_zero_def)
    next
      case small: False
      show ?thesis
      proof (cases "parse_hdr (takeWhile (\<lambda>ch. ch \<noteq> CHR 0x00) (take n (cbuf c1)))")
        case None
        then show ?thesis using assms(2) l i Inr small by (auto simp: parse_req_def req_zero_def)
      next
        case (Some x)
        obtain r0 blen cls0 where x: "x = (r0, blen, cls0)" by (cases x)
        note hb = parse_hdr_bounds [OF Some [unfolded x]]
        let ?cap = "if max_body > 0 then max_body else 0"
        let ?rb = "int n + 4 + uint blen"
        show ?thesis
        proof (cases "uint blen > ?cap \<or> ?rb > max_total c1")
          case True
          then show ?thesis using assms(2) l i Inr small Some x by (auto simp: parse_req_def req_zero_def Let_def split: if_splits)
        next
          case False
          obtain rc2 c2 s2 where e: "ensure_buffered c1 s1 ?rb = Some (rc2, c2, s2)"
            using assms(2) l Inr small Some x False by (auto simp: parse_req_def Let_def split: option.splits if_splits)
          have k: "conn_ok c2" "max_total c2 = max_total c1" "rc2 \<in> {0, 200, 400, 413}" using ensure_buffered_inv [OF _ e] i by auto
          show ?thesis
          proof (cases "rc2 = 200")
            case True
            let ?r = "r0\<lparr>rq_body := take (nat (uint blen)) (drop (n + 4) (cbuf c2))\<rparr>"
            have eq: "rc = 200" "r = split_query ?r" "c' = c2\<lparr>cbuf := drop (nat ?rb) (cbuf c2)\<rparr>"
              using assms(2) l Inr small Some x False e True by (auto simp: parse_req_def Let_def split: if_splits)
            have "int (length (take (nat (uint blen)) (drop (n + 4) (cbuf c2)))) \<le> uint blen" by (rule int_length_take) simp
            moreover have "uint blen \<le> max 0 max_body"
            proof (cases "0 < max_body")
              case True
              then have "uint blen \<le> max_body" using False by simp
              then show ?thesis by simp
            next
              case nb: False
              then have "\<not> 0 < uint blen" using False by simp
              then show ?thesis by linarith
            qed
            ultimately have "int (length (rq_body ?r)) \<le> max 0 max_body" by simp
            then show ?thesis using eq k i hb split_query_bounds [of ?r] by (auto simp: conn_ok_def)
          next
            case ne: False
            then have "rc = rc2" "r = req_zero" "c' = c2"
              using assms(2) l Inr small Some x False e by (auto simp: parse_req_def Let_def split: if_splits)
            then show ?thesis using k i by (auto simp: req_zero_def)
          qed
        qed
      qed
    qed
  qed
qed

theorem http_request_bounded_witness:
  "conn_ok (conn_init 100) \<and> parse_req (conn_init 100) [Data ''GET /'', Eof] 100 = Some (400, req_zero, False, (conn_init 100)\<lparr>cbuf := ''GET /''\<rparr>, [Eof]) \<and>
   conn_ok ((conn_init 100)\<lparr>cbuf := ''GET /''\<rparr>)"
proof -
  have p: "parse_req (conn_init 100) [Data ''GET /'', Eof] 100 = Some (400, req_zero, False, (conn_init 100)\<lparr>cbuf := ''GET /''\<rparr>, [Eof])"
    by code_simp
  show ?thesis using p http_request_bounded [OF conn_init_ok p] conn_init_ok by blast
qed

end
