(* ===== verification/Stats.thy ===== *)
theory Stats
  imports Prelude
begin

text \<open>
  The counters of \<open>src/api/stats/stats.c\<close>, at 64 bits. Each counter is changed by one atomic addition; the time is an
  argument. The lemma below holds in every sequence of the operations: requests are accounted for.
\<close>

record stats =
  started_ns :: ulong
  total_requests :: ulong
  inflight_requests :: ulong
  ok_responses :: ulong
  error_responses :: ulong
  status_503 :: ulong
  keep_alive_reuse :: ulong
  cache_hits :: ulong
  cache_misses :: ulong
  parse_ns :: ulong
  lock_wait_ns :: ulong
  engine_ns :: ulong
  json_ns :: ulong
  send_ns :: ulong

record stats_snapshot = stats +
  uptime_ms :: ulong

definition api_stats_init :: "ulong \<Rightarrow> stats" where
  "api_stats_init now = \<lparr>started_ns = now, total_requests = 0, inflight_requests = 0, ok_responses = 0, error_responses = 0,
     status_503 = 0, keep_alive_reuse = 0, cache_hits = 0, cache_misses = 0, parse_ns = 0, lock_wait_ns = 0, engine_ns = 0,
     json_ns = 0, send_ns = 0\<rparr>"

definition api_stats_note_request_started :: "stats \<Rightarrow> stats" where
  "api_stats_note_request_started s = s\<lparr>total_requests := total_requests s + 1, inflight_requests := inflight_requests s + 1\<rparr>"

definition api_stats_note_request_finished :: "int \<Rightarrow> stats \<Rightarrow> stats" where
  "api_stats_note_request_finished status_code s0 =
     (let s = s0\<lparr>inflight_requests := inflight_requests s0 - 1\<rparr> in
      if status_code \<ge> 200 \<and> status_code < 400 then s\<lparr>ok_responses := ok_responses s + 1\<rparr>
      else if status_code = 503 then s\<lparr>status_503 := status_503 s + 1\<rparr>
      else s\<lparr>error_responses := error_responses s + 1\<rparr>)"

definition api_stats_note_immediate_503 :: "stats \<Rightarrow> stats" where
  "api_stats_note_immediate_503 s = s\<lparr>total_requests := total_requests s + 1, status_503 := status_503 s + 1\<rparr>"

definition api_stats_note_keep_alive_reuse :: "stats \<Rightarrow> stats" where
  "api_stats_note_keep_alive_reuse s = s\<lparr>keep_alive_reuse := keep_alive_reuse s + 1\<rparr>"

definition api_stats_note_cache_hit :: "stats \<Rightarrow> stats" where
  "api_stats_note_cache_hit s = s\<lparr>cache_hits := cache_hits s + 1\<rparr>"

definition api_stats_note_cache_miss :: "stats \<Rightarrow> stats" where
  "api_stats_note_cache_miss s = s\<lparr>cache_misses := cache_misses s + 1\<rparr>"

definition api_stats_add_parse_ns :: "ulong \<Rightarrow> stats \<Rightarrow> stats" where
  "api_stats_add_parse_ns ns s = s\<lparr>parse_ns := parse_ns s + ns\<rparr>"

definition api_stats_add_lock_wait_ns :: "ulong \<Rightarrow> stats \<Rightarrow> stats" where
  "api_stats_add_lock_wait_ns ns s = s\<lparr>lock_wait_ns := lock_wait_ns s + ns\<rparr>"

definition api_stats_add_engine_ns :: "ulong \<Rightarrow> stats \<Rightarrow> stats" where
  "api_stats_add_engine_ns ns s = s\<lparr>engine_ns := engine_ns s + ns\<rparr>"

definition api_stats_add_json_ns :: "ulong \<Rightarrow> stats \<Rightarrow> stats" where
  "api_stats_add_json_ns ns s = s\<lparr>json_ns := json_ns s + ns\<rparr>"

definition api_stats_add_send_ns :: "ulong \<Rightarrow> stats \<Rightarrow> stats" where
  "api_stats_add_send_ns ns s = s\<lparr>send_ns := send_ns s + ns\<rparr>"

text \<open>The snapshot: the counters and the time since the start.\<close>

definition api_stats_snapshot :: "ulong \<Rightarrow> stats \<Rightarrow> stats_snapshot" where
  "api_stats_snapshot now s = stats.extend s
     \<lparr>uptime_ms = (if started_ns s > 0 \<and> now > started_ns s then (now - started_ns s) div 1000000 else 0)\<rparr>"

subsection \<open>Every request is accounted for\<close>

definition balanced :: "stats \<Rightarrow> bool" where
  "balanced s \<longleftrightarrow> total_requests s = inflight_requests s + ok_responses s + error_responses s + status_503 s"

inductive stats_run :: "stats \<Rightarrow> bool" where
  init: "stats_run (api_stats_init now)"
| started: "stats_run s \<Longrightarrow> stats_run (api_stats_note_request_started s)"
| finished: "stats_run s \<Longrightarrow> stats_run (api_stats_note_request_finished status_code s)"
| immediate_503: "stats_run s \<Longrightarrow> stats_run (api_stats_note_immediate_503 s)"
| keep_alive: "stats_run s \<Longrightarrow> stats_run (api_stats_note_keep_alive_reuse s)"
| cache_hit: "stats_run s \<Longrightarrow> stats_run (api_stats_note_cache_hit s)"
| cache_miss: "stats_run s \<Longrightarrow> stats_run (api_stats_note_cache_miss s)"
| parse: "stats_run s \<Longrightarrow> stats_run (api_stats_add_parse_ns ns s)"
| lock_wait: "stats_run s \<Longrightarrow> stats_run (api_stats_add_lock_wait_ns ns s)"
| engine: "stats_run s \<Longrightarrow> stats_run (api_stats_add_engine_ns ns s)"
| json: "stats_run s \<Longrightarrow> stats_run (api_stats_add_json_ns ns s)"
| send: "stats_run s \<Longrightarrow> stats_run (api_stats_add_send_ns ns s)"

lemmas stats_defs = api_stats_init_def api_stats_note_request_started_def api_stats_note_request_finished_def
  api_stats_note_immediate_503_def api_stats_note_keep_alive_reuse_def api_stats_note_cache_hit_def api_stats_note_cache_miss_def
  api_stats_add_parse_ns_def api_stats_add_lock_wait_ns_def api_stats_add_engine_ns_def api_stats_add_json_ns_def
  api_stats_add_send_ns_def

text \<open>
  In every run of the statistics the number of requests is, modulo \<open>2 ^ 64\<close>, the number of requests in flight and
  of the responses by kind.
\<close>

theorem stats_balanced:
  assumes "stats_run s"
  shows "balanced s"
  using assms by induction (auto simp: stats_defs balanced_def Let_def algebra_simps)

theorem stats_balanced_witness:
  "balanced (api_stats_note_request_finished 503 (api_stats_note_request_started (api_stats_note_immediate_503 (api_stats_init 7))))"
  by (rule stats_balanced) (intro stats_run.intros)

end
