(* ===== verification/Json.thy ===== *)
theory Json
  imports Resp
begin

text \<open>
  The request scanners of \<open>src/api/route.c\<close>: the small JSON reader (\<open>json_doc\<close>, \<open>find_key\<close>, \<open>scan_str\<close>, \<open>json_str\<close>,
  \<open>json_bool\<close>, \<open>json_arr\<close>) and the query string reader \<open>qry_get\<close>. A position in a text is the rest of the text from there.

  The lemmas show that the reader inverts the writer \<open>buf_jsn\<close> of \<open>Resp\<close> and reads request bodies back, and where it
  does not.
\<close>

definition skip_ws :: "string \<Rightarrow> string" where
  "skip_ws ptr = skip_space ptr"

definition json_doc :: "string \<Rightarrow> bool" where
  "json_doc body =
     (let ptr = skip_ws body in
      if ptr = [] \<or> hd ptr \<noteq> CHR ''{'' then False
      else let t = rev (dropWhile isspace (rev ptr)) in t \<noteq> [] \<and> last t = CHR ''}'')"

definition find_key :: "string \<Rightarrow> string \<Rightarrow> string option" where
  "find_key json key =
     (let pat = strbuf 64 (CHR 0x22 # key @ [CHR 0x22]) in
      case strstr json pat of
        None \<Rightarrow> None
      | Some ptr \<Rightarrow> map_option (\<lambda>p. skip_ws (tl p)) (strchr (drop (length pat) ptr) (CHR '':'')))"

text \<open>The offset of the closing quote; \<open>esc\<close> is set behind a backslash.\<close>

fun str_end :: "bool \<Rightarrow> string \<Rightarrow> nat option" where
  "str_end esc [] = None"
| "str_end esc (c # cs) =
     (if \<not> esc \<and> c = CHR 0x22 then Some 0 else map_option Suc (str_end (\<not> esc \<and> c = CHR 0x5C) cs))"

fun unescape :: "string \<Rightarrow> string" where
  "unescape [] = []"
| "unescape [c] = [c]"
| "unescape (c # d # cs) =
     (if c = CHR 0x5C
      then (if d = CHR ''n'' then CHR 0x0A else if d = CHR ''r'' then CHR 0x0D else if d = CHR ''t'' then CHR 0x09 else d) # unescape cs
      else c # unescape (d # cs))"

text \<open>The decoded string and the text behind it.\<close>

definition scan_str :: "string \<Rightarrow> (string \<times> string) option" where
  "scan_str ptr =
     (if ptr = [] \<or> hd ptr \<noteq> CHR 0x22 then None
      else case str_end False (tl ptr) of
          None \<Rightarrow> None
        | Some n \<Rightarrow> Some (unescape (take n (tl ptr)), drop (Suc n) (tl ptr)))"

definition json_str :: "string \<Rightarrow> string \<Rightarrow> string option" where
  "json_str json key = (case find_key json key of None \<Rightarrow> None | Some ptr \<Rightarrow> map_option fst (scan_str ptr))"

text \<open>\<^const>\<open>None\<close> is the result 0, which leaves \<open>*out\<close> alone.\<close>

definition json_bool :: "string \<Rightarrow> string \<Rightarrow> bool option" where
  "json_bool json key =
     (case find_key json key of
        None \<Rightarrow> None
      | Some ptr \<Rightarrow> if is_prefix ''true'' ptr then Some True else if is_prefix ''false'' ptr then Some False else None)"

lemma length_skip_ws: "length (skip_ws s) \<le> length s"
  by (simp add: skip_ws_def)

lemma str_end_bound: "str_end esc s = Some n \<Longrightarrow> n < length s"
  by (induction esc s arbitrary: n rule: str_end.induct) (auto split: if_splits)

lemma scan_str_shorter: "scan_str s = Some (v, rest) \<Longrightarrow> length rest < length s"
proof -
  assume a: "scan_str s = Some (v, rest)"
  then obtain n where n: "str_end False (tl s) = Some n" "rest = drop (Suc n) (tl s)" "s \<noteq> []"
    by (auto simp: scan_str_def split: if_splits option.splits)
  then show ?thesis using str_end_bound [OF n(1)] by (cases s) auto
qed

text \<open>The loop of \<open>json_arr\<close>; \<^const>\<open>None\<close> is \<open>goto fail\<close>.\<close>

function arr_loop :: "string \<Rightarrow> string list \<Rightarrow> string list option" where
  "arr_loop ptr vals =
     (if ptr = [] then Some vals
      else let p = skip_ws ptr in
        if p = [] \<or> hd p = CHR '']'' \<or> hd p \<noteq> CHR 0x22 then Some vals
        else case scan_str p of
            None \<Rightarrow> None
          | Some (item, rest) \<Rightarrow>
            let q = skip_ws rest in arr_loop (if q \<noteq> [] \<and> hd q = CHR '','' then tl q else q) (vals @ [item]))"
  by pat_completeness auto
termination
proof (relation "measure (\<lambda>(ptr, vals). length ptr)", goal_cases)
  case (2 ptr vals p ir item rest q)
  have "length rest < length p" using scan_str_shorter 2 by metis
  moreover have "length p \<le> length ptr" "length q \<le> length rest" using 2 length_skip_ws by auto
  ultimately show ?case by (simp add: less_Suc_eq_le) linarith
qed simp

declare arr_loop.simps [simp del]

text \<open>\<^term>\<open>Some None\<close> is the result 0, \<^const>\<open>None\<close> is -1.\<close>

definition json_arr :: "string \<Rightarrow> string \<Rightarrow> string list option option" where
  "json_arr json key =
     (case find_key json key of
        None \<Rightarrow> Some None
      | Some ptr \<Rightarrow> if ptr = [] \<or> hd ptr \<noteq> CHR ''['' then Some None else map_option Some (arr_loop (tl ptr) []))"

text \<open>
  The loop of \<open>qry_get\<close>, and the value it copies into \<open>out\<close>. The length of the value is a difference of pointers as a
  \<open>size_t\<close>.
\<close>

definition qry_value :: "string \<Rightarrow> string option \<Rightarrow> nat \<Rightarrow> string" where
  "qry_value val amp osz =
     (let vlen = (case amp of Some a \<Rightarrow> nat ((int (length val) - int (length a)) mod 2 ^ 64) | None \<Rightarrow> length val)
      in take (if vlen \<ge> osz then osz - 1 else vlen) val)"

function qry_loop :: "string \<Rightarrow> string \<Rightarrow> nat \<Rightarrow> string option" where
  "qry_loop ptr key osz =
     (if ptr = [] then None
      else case strchr ptr (CHR ''='') of
          None \<Rightarrow> None
        | Some eq \<Rightarrow>
          let amp = strchr ptr (CHR 0x26); len = length ptr - length eq in
          if len = length key \<and> take (length key) ptr = key then Some (qry_value (tl eq) amp osz)
          else (case amp of None \<Rightarrow> None | Some a \<Rightarrow> qry_loop (tl a) key osz))"
  by pat_completeness auto
termination
proof (relation "measure (\<lambda>(ptr, key, osz). length ptr)", goal_cases)
  case (2 ptr key osz eq amp len a)
  then obtain u where "ptr = u @ a" "a \<noteq> []" using strchr_SomeD by metis
  then show ?case by (cases a) auto
qed simp

declare qry_loop.simps [simp del]

text \<open>Whether the key was found, and \<open>out\<close>.\<close>

definition qry_get :: "string \<Rightarrow> string \<Rightarrow> nat \<Rightarrow> bool \<times> string" where
  "qry_get qry key osz = (case qry_loop qry key osz of None \<Rightarrow> (False, []) | Some v \<Rightarrow> (True, v))"

subsection \<open>Reading what was written\<close>

text \<open>The characters that survive: all but the control characters without a short escape.\<close>

definition jsn_safe :: "char \<Rightarrow> bool" where
  "jsn_safe c \<longleftrightarrow> byte c \<ge> 32 \<or> c = CHR 0x0A \<or> c = CHR 0x0D \<or> c = CHR 0x09"

lemma jsn_escape_cases:
  assumes "jsn_safe c"
  obtains (pair) d where "jsn_escape c = [CHR 0x5C, d]"
      "c = (if d = CHR ''n'' then CHR 0x0A else if d = CHR ''r'' then CHR 0x0D else if d = CHR ''t'' then CHR 0x09 else d)"
  | (single) "jsn_escape c = [c]" "c \<noteq> CHR 0x22" "c \<noteq> CHR 0x5C"
proof -
  consider "c = CHR 0x22" | "c = CHR 0x5C" | "c = CHR 0x0A" | "c = CHR 0x0D" | "c = CHR 0x09"
    | "byte c \<ge> 32" "c \<noteq> CHR 0x22" "c \<noteq> CHR 0x5C" "c \<noteq> CHR 0x0A" "c \<noteq> CHR 0x0D" "c \<noteq> CHR 0x09"
    using assms by (auto simp: jsn_safe_def)
  then show thesis
  proof cases
    case 1
    then show thesis by (intro pair [of "CHR 0x22"]) (simp_all add: jsn_escape_def)
  next
    case 2
    then show thesis by (intro pair [of "CHR 0x5C"]) (simp_all add: jsn_escape_def)
  next
    case 3
    then show thesis by (intro pair [of "CHR ''n''"]) (simp_all add: jsn_escape_def)
  next
    case 4
    then show thesis by (intro pair [of "CHR ''r''"]) (simp_all add: jsn_escape_def)
  next
    case 5
    then show thesis by (intro pair [of "CHR ''t''"]) (simp_all add: jsn_escape_def)
  next
    case 6
    then show thesis by (intro single) (simp_all add: jsn_escape_def)
  qed
qed

lemma str_end_escaped:
  "\<forall>c\<in>set s. jsn_safe c \<Longrightarrow> str_end False (concat (map jsn_escape s) @ CHR 0x22 # rest) = Some (length (concat (map jsn_escape s)))"
proof (induction s)
  case (Cons c s)
  then have c: "jsn_safe c" by simp
  then show ?case using Cons by (cases c rule: jsn_escape_cases) auto
qed simp

lemma unescape_single: "c \<noteq> CHR 0x5C \<Longrightarrow> unescape (c # cs) = c # unescape cs"
  by (cases cs) auto

lemma unescape_escaped: "\<forall>c\<in>set s. jsn_safe c \<Longrightarrow> unescape (concat (map jsn_escape s)) = s"
proof (induction s)
  case (Cons c s)
  then have c: "jsn_safe c" by simp
  then show ?case
  proof (cases c rule: jsn_escape_cases)
    case (pair d)
    have IH: "unescape (concat (map jsn_escape s)) = s" using Cons by simp
    have "unescape (concat (map jsn_escape (c # s))) =
        (if d = CHR ''n'' then CHR 0x0A else if d = CHR ''r'' then CHR 0x0D else if d = CHR ''t'' then CHR 0x09 else d) # s"
      unfolding list.map concat.simps pair(1) append_Cons append_Nil unescape.simps(3) IH by simp
    then show ?thesis unfolding pair(2) [symmetric] .
  next
    case single
    then show ?thesis using Cons unescape_single by simp
  qed
qed simp

lemma scan_str_json: "\<forall>c\<in>set s. jsn_safe c \<Longrightarrow> scan_str (json_of s @ rest) = Some (s, rest)"
  by (simp add: scan_str_def json_of_def str_end_escaped unescape_escaped)

text \<open>The list of queries of a batch request, as a client writes it.\<close>

fun json_items :: "string list \<Rightarrow> string" where
  "json_items [] = []"
| "json_items [s] = json_of s"
| "json_items (s # ss) = json_of s @ CHR '','' # json_items ss"

lemma json_of_hd: "json_of s \<noteq> []" "hd (json_of s @ t) = CHR 0x22" "skip_ws (json_of s @ t) = json_of s @ t"
  by (simp_all add: json_of_def skip_ws_def skip_space_id isspace_def byte_def)

lemma arr_loop_items:
  assumes "\<forall>s\<in>set ss. \<forall>c\<in>set s. jsn_safe c"
  shows "arr_loop (json_items ss @ CHR '']'' # rest) vals = Some (vals @ ss)"
  using assms
proof (induction ss arbitrary: vals rule: json_items.induct)
  case 1
  then show ?case by (subst arr_loop.simps) (simp add: skip_ws_def isspace_def byte_def)
next
  case (2 s)
  have "arr_loop (CHR '']'' # rest) (vals @ [s]) = Some (vals @ [s])"
    by (subst arr_loop.simps) (simp add: skip_ws_def isspace_def byte_def)
  then show ?case using 2 scan_str_json [of s "CHR '']'' # rest"] json_of_hd
    by (subst arr_loop.simps) (simp add: skip_ws_def isspace_def byte_def)
next
  case (3 s t ss)
  have IH: "arr_loop (json_items (t # ss) @ CHR '']'' # rest) (vals @ [s]) = Some ((vals @ [s]) @ t # ss)"
    by (rule "3.IH") (use "3.prems" in simp)
  have sc: "scan_str (json_of s @ CHR '','' # json_items (t # ss) @ CHR '']'' # rest) =
      Some (s, CHR '','' # json_items (t # ss) @ CHR '']'' # rest)"
    by (rule scan_str_json) (use "3.prems" in simp)
  show ?case using sc IH json_of_hd(1) [of s] json_of_hd(2,3) [of s "CHR '','' # json_items (t # ss) @ CHR '']'' # rest"]
    by (subst arr_loop.simps) (simp add: skip_ws_def isspace_def byte_def)
qed

text \<open>The bodies a client sends to \<open>/api/v1/sql\<close> and \<open>/api/v1/batch\<close>.\<close>

definition query_body :: "string \<Rightarrow> string" where
  "query_body q = ''{'' @ json_of ''query'' @ '':'' @ json_of q @ ''}''"

definition batch_body :: "bool \<Rightarrow> string list \<Rightarrow> string" where
  "batch_body tx qs = ''{'' @ json_of ''tx'' @ '':'' @ (if tx then ''true'' else ''false'') @ '','' @ json_of ''queries'' @ '':['' @
     json_items qs @ '']}''"

subsection \<open>Properties\<close>

text \<open>
  C30. What \<open>buf_jsn\<close> writes behind the text of a buffer, \<open>scan_str\<close> reads back, whatever follows it, for every string
  whose characters below the space are line feeds, carriage returns or tabs. The buffer keeps what it held, and its
  terminating NUL stays inside its array.
\<close>

theorem json_string_roundtrip:
  assumes "\<forall>c\<in>set s. jsn_safe c" "buf_ok b" "buf_jsn mem s b = Some b'"
  shows "take (length (contents b)) (contents b') = contents b \<and> length (contents b') < buf_cap b' \<and>
    scan_str (drop (length (contents b)) (contents b') @ rest) = Some (s, rest)"
proof -
  have b': "buf_ok b'" "contents b' = contents b @ json_of s" using appendsD [OF appends_jsn assms(2,3)] by auto
  then have "length (contents b') < buf_cap b'" by (auto simp: buf_ok_def json_of_def)
  then show ?thesis using b'(2) scan_str_json [OF assms(1)] by simp
qed

theorem json_string_roundtrip_witness:
  "\<exists>b'. buf_jsn (\<lambda>_. True) ''a b'' buf_init = Some b' \<and> length (contents b') < buf_cap b' \<and>
     scan_str (contents b' @ '', 1'') = Some (''a b'', '', 1'')"
proof -
  have ok: "buf_ok buf_init" by (simp add: buf_ok_def buf_init_def)
  then obtain b' where b': "buf_jsn (\<lambda>_. True) ''a b'' buf_init = Some b'" using appends_mem [OF appends_jsn] by blast
  have "\<forall>c\<in>set ''a b''. jsn_safe c" by (simp add: jsn_safe_def byte_def)
  then show ?thesis using json_string_roundtrip [OF _ ok b', of "'', 1''"] b' by (simp add: buf_init_def)
qed

text \<open>
  The bodies of the requests are read back: from the JSON object with a query the handler gets the query, and from the
  one with the flag \<open>tx\<close> and a list of queries it gets the flag and the list. (The characters of the queries as in the
  round trip of strings.)
\<close>

theorem json_request_roundtrip:
  assumes "\<forall>s\<in>set (q # qs). \<forall>c\<in>set s. jsn_safe c"
  shows "json_doc (query_body q) \<and> json_str (query_body q) ''query'' = Some q \<and>
    json_doc (batch_body tx qs) \<and> json_bool (batch_body tx qs) ''tx'' = Some tx \<and>
    json_arr (batch_body tx qs) ''queries'' = Some (Some qs)"
proof (intro conjI)
  have names: "json_of ''query'' = CHR 0x22 # ''query'' @ [CHR 0x22]" "json_of ''tx'' = CHR 0x22 # ''tx'' @ [CHR 0x22]"
    "json_of ''queries'' = CHR 0x22 # ''queries'' @ [CHR 0x22]"
    by code_simp+
  have nsp: "\<not> isspace (CHR ''{'')" "\<not> isspace (CHR ''}'')" "\<not> isspace (CHR ''['')" "\<not> isspace (CHR ''t'')" "\<not> isspace (CHR ''f'')"
    "\<not> isspace (CHR 0x22)"
    by (simp_all add: isspace_def byte_def)
  show "json_doc (query_body q)" "json_doc (batch_body tx qs)"
    by (simp_all add: json_doc_def query_body_def batch_body_def skip_ws_def nsp)
  have "find_key (query_body q) ''query'' = Some (json_of q @ ''}'')"
    using json_of_hd(3) [of q "''}''"] by (simp add: find_key_def query_body_def names strbuf_def)
  then show "json_str (query_body q) ''query'' = Some q" using scan_str_json [of q] assms(1) by (simp add: json_str_def)
  show "json_bool (batch_body tx qs) ''tx'' = Some tx"
    by (simp add: json_bool_def find_key_def batch_body_def names strbuf_def skip_ws_def nsp)
  have "find_key (batch_body tx qs) ''queries'' = Some (''['' @ json_items qs @ '']}'')"
    by (simp add: find_key_def batch_body_def names strbuf_def skip_ws_def nsp)
  then show "json_arr (batch_body tx qs) ''queries'' = Some (Some qs)"
    using arr_loop_items [of qs "''}''" "[]"] assms(1) by (simp add: json_arr_def)
qed

theorem json_request_roundtrip_witness:
  "json_str (query_body ''SELECT * FROM t'') ''query'' = Some ''SELECT * FROM t''"
proof -
  have "\<forall>s\<in>set [''SELECT * FROM t'']. \<forall>c\<in>set s. jsn_safe c" by (simp add: jsn_safe_def byte_def)
  then show ?thesis using json_request_roundtrip [of "''SELECT * FROM t''" "[]"] by blast
qed

text \<open>Two limits of the reader: other control characters do not survive, and a key is also found inside a nested object.\<close>

lemma control_character_lost: "scan_str (json_of [CHR 0x01]) = Some (''u0001'', [])"
  by code_simp

lemma nested_key_found:
  "json_str (''{'' @ json_of ''a'' @ '':{'' @ json_of ''query'' @ '':'' @ json_of ''x'' @ ''},'' @ json_of ''query'' @ '':'' @ json_of ''y'' @ ''}'')
     ''query'' = Some ''x''"
  by code_simp

end
