(* ===== verification/Route.thy ===== *)
theory Route
  imports Db Json Http Stats Pool
begin

text \<open>
  The routes of \<open>src/api/route.c\<close>: from a parsed request to a response, over the database, the query cache, the pools
  and the statistics.

  \<^item> Texts are built with the buffer operations of \<open>Resp\<close>; \<open>buf_seq\<close> is a chain of them that ends at the first that
    fails, as in the conditions of the C code. A response that could not be built is \<^const>\<open>None\<close>, the result 0, which
    leaves the response zeroed.
  \<^item> What happens outside is the record \<open>outside\<close>: memory, clocks, the number of the thread, what other threads do to the
    database, the answers of the operating system, of the pool of database workers and of the files.
  \<^item> The database jobs of a request run in the order \<open>sched\<close>, with steps of other threads between them.
\<close>

subsection \<open>Responses\<close>

fun buf_seq :: "(buf \<Rightarrow> buf option) list \<Rightarrow> buf \<Rightarrow> buf option" where
  "buf_seq [] b = Some b"
| "buf_seq (f # fs) b = do { b1 \<leftarrow> f b; buf_seq fs b1 }"

definition status_of :: "int \<Rightarrow> int" where
  "status_of c =
     (if c = 200 then 200 else if c = 201 then 201 else if c = 400 then 400 else if c = 404 then 404 else if c = 405 then 405
      else if c = 413 then 413 else if c = 429 then 429 else if c = 503 then 503 else 500)"

definition http_of :: "string \<Rightarrow> int" where
  "http_of c =
     (if c = [] then 500
      else if strcmp c ''NO_ROUTE'' = 0 then 404
      else if strcmp c ''BAD_METH'' = 0 then 405
      else if strcmp c ''TOO_BIG'' = 0 then 413
      else if strcmp c ''TOO_MANY'' = 0 then 429
      else if strcmp c ''Q_FULL'' = 0 then 503
      else if strcmp c ''INT_ERR'' = 0 then 500
      else if strcmp c ''OOM'' = 0 then 500
      else 400)"

definition err_res :: "(nat \<Rightarrow> bool) \<Rightarrow> int \<Rightarrow> string \<Rightarrow> string \<Rightarrow> string \<Rightarrow> http_res option" where
  "err_res mem http c msg rid =
     map_option (res_set (status_of http))
       (buf_seq [buf_put mem ''{\"ok\":false,\"err\":{\"code\":'', buf_jsn mem c, buf_put mem '',\"msg\":'', buf_jsn mem msg,
          buf_put mem ''},\"meta\":{\"req_id\":'', buf_jsn mem rid, buf_put mem ''}}''] buf_init)"

text \<open>Rows as JSON objects.\<close>

fun add_cells :: "(nat \<Rightarrow> bool) \<Rightarrow> bool \<Rightarrow> (string \<times> string) list \<Rightarrow> buf \<Rightarrow> buf option" where
  "add_cells mem first [] b = Some b"
| "add_cells mem first ((k, v) # cells) b = do {
     b1 \<leftarrow> (if first then Some b else buf_chr mem (CHR '','') b);
     b2 \<leftarrow> buf_seq [buf_jsn mem k, buf_chr mem (CHR '':''), buf_jsn mem v] b1;
     add_cells mem False cells b2 }"

definition add_obj :: "(nat \<Rightarrow> bool) \<Rightarrow> (string \<times> string) list \<Rightarrow> buf \<Rightarrow> buf option" where
  "add_obj mem cells = buf_seq [buf_chr mem (CHR ''{''), add_cells mem True cells, buf_chr mem (CHR ''}'')]"

fun add_objs :: "(nat \<Rightarrow> bool) \<Rightarrow> bool \<Rightarrow> (string \<times> string) list list \<Rightarrow> buf \<Rightarrow> buf option" where
  "add_objs mem first [] b = Some b"
| "add_objs mem first (r # rs) b = do {
     b1 \<leftarrow> (if first then Some b else buf_chr mem (CHR '','') b);
     b2 \<leftarrow> add_obj mem r b1;
     add_objs mem False rs b2 }"

definition add_rows :: "(nat \<Rightarrow> bool) \<Rightarrow> dbres \<Rightarrow> buf \<Rightarrow> buf option" where
  "add_rows mem res = buf_seq [buf_chr mem (CHR ''[''), add_objs mem True (res_rows res), buf_chr mem (CHR '']'')]"

definition add_one :: "(nat \<Rightarrow> bool) \<Rightarrow> dbres \<Rightarrow> buf \<Rightarrow> buf option" where
  "add_one mem res = (case res_rows res of [] \<Rightarrow> buf_put mem ''{}'' | r # rs \<Rightarrow> add_obj mem r)"

definition sql_data :: "(nat \<Rightarrow> bool) \<Rightarrow> dbres \<Rightarrow> buf \<Rightarrow> buf option" where
  "sql_data mem dres =
     buf_seq [buf_chr mem (CHR ''{''), buf_put mem ''\"rows\":'', add_rows mem dres,
       buf_fmt mem ('',\"count\":'' @ show_long (res_count dres)),
       (\<lambda>b. if last_id dres > 0 then buf_fmt mem ('',\"last_id\":'' @ show_long (last_id dres)) b else Some b),
       buf_chr mem (CHR ''}'')]"

definition sql_data_dump :: "(nat \<Rightarrow> bool) \<Rightarrow> dbres \<Rightarrow> string option" where
  "sql_data_dump mem dres = map_option contents (sql_data mem dres buf_init)"

definition sql_ok_data :: "(nat \<Rightarrow> bool) \<Rightarrow> string \<Rightarrow> string \<Rightarrow> int \<Rightarrow> int \<Rightarrow> int \<Rightarrow> string \<Rightarrow> string \<Rightarrow> http_res option" where
  "sql_ok_data mem rid data tid lat_ms lat_us cache_status cache_reason =
     map_option (res_set 200)
       (buf_seq [buf_put mem ''{\"ok\":true,\"data\":'', (\<lambda>b. if data = [] then Some b else buf_put mem data b),
          buf_put mem '',\"meta\":{\"req_id\":'', buf_jsn mem rid,
          buf_fmt mem ('',\"thr_id\":'' @ show_long tid @ '',\"lat_ms\":'' @ show_long lat_ms @ '',\"lat_us\":'' @ show_long lat_us @
            '',\"cache\":{\"status\":''),
          buf_jsn mem cache_status, buf_put mem '',\"reason\":'', buf_jsn mem cache_reason, buf_put mem ''}}}''] buf_init)"

definition sql_ok :: "(nat \<Rightarrow> bool) \<Rightarrow> string \<Rightarrow> dbres \<Rightarrow> int \<Rightarrow> int \<Rightarrow> int \<Rightarrow> string \<Rightarrow> string \<Rightarrow> http_res option" where
  "sql_ok mem rid dres tid lat_ms lat_us cache_status cache_reason =
     do { data \<leftarrow> sql_data_dump mem dres; sql_ok_data mem rid data tid lat_ms lat_us cache_status cache_reason }"

fun batch_items :: "(nat \<Rightarrow> bool) \<Rightarrow> bool \<Rightarrow> dbres list \<Rightarrow> buf \<Rightarrow> buf option" where
  "batch_items mem first [] b = Some b"
| "batch_items mem first (r # rs) b = do {
     b1 \<leftarrow> (if first then Some b else buf_chr mem (CHR '','') b);
     b2 \<leftarrow> buf_seq [buf_put mem ''{\"rows\":'', add_rows mem r, buf_fmt mem ('',\"count\":'' @ show_long (res_count r) @ ''}'')] b1;
     batch_items mem False rs b2 }"

definition batch_ok :: "(nat \<Rightarrow> bool) \<Rightarrow> string \<Rightarrow> dbres list \<Rightarrow> int \<Rightarrow> http_res option" where
  "batch_ok mem rid resv lat_ms =
     map_option (res_set 200)
       (buf_seq [buf_put mem ''{\"ok\":true,\"data\":{\"results\":['', batch_items mem True resv, buf_put mem '']'',
          buf_put mem ''},\"meta\":{\"req_id\":'', buf_jsn mem rid, buf_fmt mem ('',\"lat_ms\":'' @ show_long lat_ms @ ''}}'')] buf_init)"

text \<open>The number of results before the first error, and its place from 1 on, or 0.\<close>

definition tx_done_count :: "dbres list \<Rightarrow> nat" where
  "tx_done_count resv = length (takeWhile (\<lambda>r. err_code r = []) resv)"

definition tx_fail_at :: "dbres list \<Rightarrow> nat" where
  "tx_fail_at resv = (if tx_done_count resv < length resv then Suc (tx_done_count resv) else 0)"

definition tx_res :: "(nat \<Rightarrow> bool) \<Rightarrow> string \<Rightarrow> dbres list \<Rightarrow> int \<Rightarrow> bool \<Rightarrow> http_res option" where
  "tx_res mem rid resv lat_ms ok =
     (if ok then batch_ok mem rid resv lat_ms
      else map_option (res_set 400)
        (buf_seq [buf_put mem ''{\"ok\":false,\"err\":{\"code\":\"TX_ABORT\",\"msg\":\"query failed, rollback completed\"},\"data\":{'',
           buf_fmt mem (''\"done\":'' @ nat_digits (tx_done_count resv) @ '',\"fail_at\":'' @ nat_digits (tx_fail_at resv)),
           buf_put mem ''},\"meta\":{\"req_id\":'', buf_jsn mem rid, buf_fmt mem ('',\"lat_ms\":'' @ show_long lat_ms @ ''}}'')] buf_init))"

subsection \<open>The server\<close>

record srv =
  sdb :: db
  qcache_of :: qcache
  stats_of :: stats
  apip :: pool_st
  dbp :: pool_st
  srv_max_qry :: int

record outside =
  memory :: "nat \<Rightarrow> bool"
  clock :: "nat \<Rightarrow> ulong"
  clock_ms :: "nat \<Rightarrow> int"
  thr_id :: int
  cache_ttl :: ulong
  others :: "nat \<Rightarrow> nat \<Rightarrow> db \<Rightarrow> db"
  answers :: "nat \<Rightarrow> nat \<Rightarrow> nat \<Rightarrow> io_result"
  adds :: "nat \<Rightarrow> int"
  sched :: "nat list"
  asset :: "string \<Rightarrow> string option option"
  speedup_text :: "int \<Rightarrow> int \<Rightarrow> string"

definition reply :: "http_res option \<Rightarrow> http_res" where
  "reply r = (case r of None \<Rightarrow> res_zero | Some x \<Rightarrow> x)"

definition err :: "outside \<Rightarrow> http_req \<Rightarrow> int \<Rightarrow> string \<Rightarrow> string \<Rightarrow> http_res" where
  "err w req http c msg = reply (err_res (memory w) http c msg (req_id req))"

definition upd_stats :: "(stats \<Rightarrow> stats) \<Rightarrow> srv \<Rightarrow> srv" where
  "upd_stats f s = s\<lparr>stats_of := f (stats_of s)\<rparr>"

definition do_health :: "outside \<Rightarrow> http_req \<Rightarrow> http_res" where
  "do_health w req =
     reply (map_option (res_set 200)
       (buf_seq [buf_put (memory w) ''{\"ok\":true,\"data\":{\"status\":\"up\"},\"meta\":{\"req_id\":'',
          buf_jsn (memory w) (req_id req), buf_put (memory w) ''}}''] buf_init))"

text \<open>The file is not there or cannot be read (\<^term>\<open>Some None\<close>), there is no memory for it (\<^const>\<open>None\<close>), or its bytes.\<close>

definition do_asset :: "outside \<Rightarrow> http_req \<Rightarrow> string \<Rightarrow> string \<Rightarrow> http_res" where
  "do_asset w req file ct =
     (case asset w file of
        Some None \<Rightarrow> err w req 500 ''INT_ERR'' ''failed to load demo asset''
      | None \<Rightarrow> err w req 500 ''OOM'' ''memory error''
      | Some (Some raw) \<Rightarrow> res_set_ct 200 \<lparr>contents = raw, buf_cap = length raw + 1\<rparr> ct)"

definition cache_reason_of :: "miss_reason \<Rightarrow> string" where
  "cache_reason_of r =
     (case r of MISS_TTL_EXPIRED \<Rightarrow> ''ttl_expired'' | MISS_VERSION_CHANGED \<Rightarrow> ''version_changed'' | _ \<Rightarrow> ''no_entry'')"

definition sql_is_rd :: "string \<Rightarrow> bool" where
  "sql_is_rd s = (case parse_statement s of None \<Rightarrow> False | Some st \<Rightarrow> stmt_type st = STMT_SELECT)"

definition lat_us_of :: "ulong \<Rightarrow> int" where "lat_us_of ns = sint (ns div 1000)"
definition lat_ms_of :: "ulong \<Rightarrow> int" where "lat_ms_of ns = sint (ns div 1000000)"

subsection \<open>\<open>POST /api/v1/sql\<close>\<close>

text \<open>The clock is read in the order of the numbers. The result has no place to go only if the database reads freed memory.\<close>

definition sql_hit :: "outside \<Rightarrow> http_req \<Rightarrow> string \<Rightarrow> srv \<Rightarrow> http_res \<times> srv" where
  "sql_hit w req data s =
     (let elapsed = clock w 4 - clock w 0
      in (reply (sql_ok_data (memory w) (req_id req) data (thr_id w) (lat_ms_of elapsed) (lat_us_of elapsed) ''hit'' ''cache_hit''),
          upd_stats (api_stats_add_json_ns (clock w 6 - clock w 5)) (upd_stats api_stats_note_cache_hit s)))"

text \<open>
  The part after the cache: \<open>can_cache\<close>, the version of the table and the reason of the miss come from there. Other
  threads may have changed the database since the version was read.
\<close>

definition sql_miss :: "outside \<Rightarrow> http_req \<Rightarrow> string \<Rightarrow> bool \<Rightarrow> ulong \<Rightarrow> string \<Rightarrow> srv \<Rightarrow> (http_res \<times> srv) option" where
  "sql_miss w req s can_cache table_ver cache_reason sv =
     do {
       (ok, dres, db1) \<leftarrow> db_exec (others w 0) (answers w 0) (others w 1 0 (sdb sv)) s;
       let sv1 = upd_stats (api_stats_add_engine_ns (clock w 8 - clock w 7)) (sv\<lparr>sdb := db1\<rparr>);
       if \<not> ok then
         Some (err w req (http_of (err_code dres)) (if err_code dres \<noteq> [] then err_code dres else ''BAD_SQL'')
           (if err_code dres = [] \<and> err_msg dres = [] then ''query failed'' else err_msg dres), sv1)
       else
         (let data = sql_data_dump (memory w) dres; elapsed = clock w 10 - clock w 0;
              res = (case data of
                  Some d \<Rightarrow> reply (sql_ok_data (memory w) (req_id req) d (thr_id w) (lat_ms_of elapsed) (lat_us_of elapsed) ''miss'' cache_reason)
                | None \<Rightarrow> reply (sql_ok (memory w) (req_id req) dres (thr_id w) (lat_ms_of elapsed) (lat_us_of elapsed) ''miss'' cache_reason));
              sv2 = upd_stats (api_stats_add_json_ns (clock w 11 - clock w 9)) sv1
          in case data of
              Some d \<Rightarrow>
                if can_cache \<and> table_ver > 0
                then map_option (\<lambda>qc. (res, sv2\<lparr>qcache_of := qc\<rparr>)) (query_cache_store (cache_ttl w) (clock w 12) (qcache_of sv2) s table_ver d)
                else Some (res, sv2)
            | None \<Rightarrow> Some (res, sv2))
     }"

definition do_sql :: "outside \<Rightarrow> srv \<Rightarrow> http_req \<Rightarrow> (http_res \<times> srv) option" where
  "do_sql w sv req =
     (if skip_ws (rq_body req) = [] then Some (err w req 400 ''BAD_REQ'' ''empty body'', sv)
      else if \<not> json_doc (rq_body req) then Some (err w req 400 ''BAD_JSON'' ''invalid json body'', sv)
      else case json_str (rq_body req) ''query'' of
          None \<Rightarrow> Some (err w req 400 ''BAD_REQ'' ''missing query'', sv)
        | Some s \<Rightarrow>
          if s = [] then Some (err w req 400 ''BAD_REQ'' ''missing query'', sv)
          else case parse_statement s of
              Some st \<Rightarrow>
                if stmt_type st = STMT_SELECT \<and> table_name st \<noteq> [] then
                  do {
                    (table_ver, db1) \<leftarrow> db_tab_ver (sdb sv) (table_name st);
                    let sv1 = upd_stats (api_stats_add_lock_wait_ns (clock w 2 - clock w 1)) (sv\<lparr>sdb := db1\<rparr>);
                    if table_ver > 0 then
                      do {
                        (hit, why, qc) \<leftarrow> query_cache_lookup (cache_ttl w) (clock w 3) (qcache_of sv1) s table_ver;
                        let sv2 = sv1\<lparr>qcache_of := qc\<rparr>;
                        case hit of
                          Some data \<Rightarrow> Some (sql_hit w req data sv2)
                        | None \<Rightarrow> sql_miss w req s True table_ver (cache_reason_of why) (upd_stats api_stats_note_cache_miss sv2)
                      }
                    else sql_miss w req s True table_ver (cache_reason_of MISS_NO_ENTRY) (upd_stats api_stats_note_cache_miss sv1)
                  }
                else sql_miss w req s False 0 ''not_cacheable'' sv
            | None \<Rightarrow> sql_miss w req s False 0 ''not_cacheable'' sv)"

subsection \<open>Jobs on a snapshot\<close>

record qjob =
  job_sql :: string
  job_name :: string
  job_rc :: bool
  job_res :: dbres
  job_tid :: int
  job_start_ms :: int
  job_lat_ms :: int

definition qjob_init :: "string \<Rightarrow> string \<Rightarrow> qjob" where
  "qjob_init s name = \<lparr>job_sql = s, job_name = name, job_rc = False, job_res = res_clr, job_tid = 0, job_start_ms = 0, job_lat_ms = 0\<rparr>"

text \<open>Job number \<open>i\<close>; \<open>start\<close> and \<open>fin\<close> are the times at which it starts and ends.\<close>

definition qjob_run :: "ulong \<Rightarrow> int \<Rightarrow> int \<Rightarrow> int \<Rightarrow> int \<Rightarrow> qjob \<Rightarrow> db \<Rightarrow> (qjob \<times> db) option" where
  "qjob_run snap base start fin tid j d =
     do {
       (ok, res, d1) \<leftarrow> db_read d snap (job_sql j);
       Some (j\<lparr>job_tid := tid, job_start_ms := start - base, job_rc := ok, job_res := res, job_lat_ms := fin - start\<rparr>, d1)
     }"

text \<open>The jobs with the given numbers run one after the other, with a step of the other threads before each.\<close>

fun run_jobs :: "outside \<Rightarrow> ulong \<Rightarrow> int \<Rightarrow> nat list \<Rightarrow> qjob list \<Rightarrow> db \<Rightarrow> (qjob list \<times> db) option" where
  "run_jobs w snap base [] jobs d = Some (jobs, d)"
| "run_jobs w snap base (i # is) jobs d =
     do {
       (j, d1) \<leftarrow> qjob_run snap base (clock_ms w (2 * i + 2)) (clock_ms w (2 * i + 3)) (thr_id w) (jobs ! i) (others w (Suc i) 0 d);
       run_jobs w snap base is (jobs[i := j]) d1
     }"

subsection \<open>\<open>POST /api/v1/batch\<close> and \<open>/api/v1/tx\<close>\<close>

text \<open>The number of jobs the pool takes before it refuses one.\<close>

definition accepted_adds :: "outside \<Rightarrow> nat \<Rightarrow> nat" where
  "accepted_adds w n = length (takeWhile (\<lambda>i. adds w i = 0) [0..<n])"

definition batch_reads :: "outside \<Rightarrow> srv \<Rightarrow> http_req \<Rightarrow> string list \<Rightarrow> (http_res \<times> srv) option" where
  "batch_reads w sv req sqlv =
     (let n = length sqlv; (snap, d0) = db_snap (sdb sv); k = accepted_adds w n in
      do {
        (jobs, d1) \<leftarrow> run_jobs w snap (clock_ms w 1) (filter (\<lambda>i. i < k) (sched w)) (map (\<lambda>s. qjob_init s []) sqlv) d0;
        d2 \<leftarrow> db_done d1 snap;
        let sv1 = sv\<lparr>sdb := d2\<rparr>;
        if k < n then Some (err w req 503 ''Q_FULL'' ''db queue full'', sv1)
        else
          (let sv2 = upd_stats (api_stats_add_engine_ns (word_of_int (clock_ms w (2 * n + 2) - clock_ms w 0) * 1000000)) sv1
           in Some (reply (batch_ok (memory w) (req_id req) (map job_res jobs) (clock_ms w (2 * n + 3) - clock_ms w 0)),
                upd_stats (api_stats_add_json_ns (clock w 1 - clock w 0)) sv2))
      })"

definition batch_exec :: "outside \<Rightarrow> srv \<Rightarrow> http_req \<Rightarrow> string list \<Rightarrow> bool \<Rightarrow> (http_res \<times> srv) option" where
  "batch_exec w sv req sqlv tx =
     do {
       (ok, resv, d1) \<leftarrow> db_batch (others w) (answers w) (sdb sv) sqlv tx;
       let sv1 = upd_stats (api_stats_add_engine_ns (clock w 1 - clock w 0)) (sv\<lparr>sdb := d1\<rparr>);
       let lat = clock_ms w 1 - clock_ms w 0;
       let res = (if tx \<and> \<not> ok then tx_res (memory w) (req_id req) resv lat False else batch_ok (memory w) (req_id req) resv lat);
       Some (reply res, upd_stats (api_stats_add_json_ns (clock w 3 - clock w 2)) sv1)
     }"

definition do_batch :: "outside \<Rightarrow> srv \<Rightarrow> http_req \<Rightarrow> bool \<Rightarrow> (http_res \<times> srv) option" where
  "do_batch w sv req force_tx =
     (if skip_ws (rq_body req) = [] then Some (err w req 400 ''BAD_REQ'' ''empty body'', sv)
      else if \<not> json_doc (rq_body req) then Some (err w req 400 ''BAD_JSON'' ''invalid json body'', sv)
      else let tx = (if force_tx then True else case json_bool (rq_body req) ''tx'' of None \<Rightarrow> False | Some b \<Rightarrow> b) in
        case json_arr (rq_body req) ''queries'' of
          Some (Some sqlv) \<Rightarrow>
            if sqlv = [] then Some (err w req 400 ''BAD_REQ'' ''missing queries'', sv)
            else if int (length sqlv) > srv_max_qry sv then Some (err w req 429 ''TOO_MANY'' ''too many queries'', sv)
            else if \<not> tx \<and> list_all sql_is_rd sqlv \<and> length sqlv > 1 then batch_reads w sv req sqlv
            else batch_exec w sv req sqlv tx
        | _ \<Rightarrow> Some (err w req 400 ''BAD_REQ'' ''missing queries'', sv))"

subsection \<open>\<open>GET /api/v1/page\<close>\<close>

datatype page_mode = PAGE_MODE_PARALLEL | PAGE_MODE_SEQUENTIAL | PAGE_MODE_COMPARE

definition PAGE_QUERY_COUNT :: nat where "PAGE_QUERY_COUNT = 4"
definition PAGE_DELAY_MS_MAX :: int where "PAGE_DELAY_MS_MAX = 200"
definition PAGE_WORKERS_MIN :: int where "PAGE_WORKERS_MIN = 1"
definition PAGE_WORKERS_MAX :: int where "PAGE_WORKERS_MAX = 4"

definition page_mode_of :: "string \<Rightarrow> page_mode option" where
  "page_mode_of raw =
     (if raw = [] \<or> strcmp raw ''parallel'' = 0 then Some PAGE_MODE_PARALLEL
      else if strcmp raw ''sequential'' = 0 then Some PAGE_MODE_SEQUENTIAL
      else if strcmp raw ''compare'' = 0 then Some PAGE_MODE_COMPARE
      else None)"

definition page_delay_of :: "string \<Rightarrow> int option" where
  "page_delay_of raw =
     (if raw = [] then Some 0
      else let (val, ov, rest) = strtol raw in
        if rest \<noteq> [] \<or> val < 0 then None else Some (if val > PAGE_DELAY_MS_MAX then PAGE_DELAY_MS_MAX else val))"

definition page_workers_of :: "string \<Rightarrow> int option" where
  "page_workers_of raw =
     (if raw = [] then Some PAGE_WORKERS_MAX
      else let (val, ov, rest) = strtol raw in
        if rest \<noteq> [] then None else if val < PAGE_WORKERS_MIN \<or> val > PAGE_WORKERS_MAX then None else Some val)"

definition zone_of :: "string \<Rightarrow> string \<Rightarrow> string" where
  "zone_of lat lng = (if strcmp lat ''37.5'' = 0 \<and> strcmp lng ''127.0'' = 0 then ''seoul_east'' else ''default'')"

definition page_sqls :: "http_req \<Rightarrow> string list" where
  "page_sqls req =
     (let user0 = snd (qry_get (qry req) ''user_id'' 64); lat = snd (qry_get (qry req) ''lat'' 64); lng = snd (qry_get (qry req) ''lng'' 64);
          user = (if user0 = [] then ''1'' else user0)
      in [strbuf 256 (''SELECT * FROM restaurants WHERE zone = '' @ [CHR 0x27] @ zone_of lat lng @ [CHR 0x27]),
          strbuf 256 (''SELECT * FROM orders WHERE user_id = '' @ [CHR 0x27] @ user @ [CHR 0x27]),
          strbuf 256 (''SELECT * FROM coupons WHERE user_id = '' @ [CHR 0x27] @ user @ [CHR 0x27]),
          strbuf 256 (''SELECT * FROM cart WHERE user_id = '' @ [CHR 0x27] @ user @ [CHR 0x27])])"

definition page_names :: "string list" where
  "page_names = [''restaurants'', ''order'', ''coupons'', ''cart'']"

definition add_page_data :: "(nat \<Rightarrow> bool) \<Rightarrow> qjob list \<Rightarrow> buf \<Rightarrow> buf option" where
  "add_page_data mem jobs =
     buf_seq [buf_put mem ''{\"restaurants\":'', add_rows mem (job_res (jobs ! 0)), buf_put mem '',\"order\":'', add_one mem (job_res (jobs ! 1)),
       buf_put mem '',\"coupons\":'', add_rows mem (job_res (jobs ! 2)), buf_put mem '',\"cart\":'', add_one mem (job_res (jobs ! 3)),
       buf_chr mem (CHR ''}'')]"

fun trace_items :: "(nat \<Rightarrow> bool) \<Rightarrow> bool \<Rightarrow> qjob list \<Rightarrow> buf \<Rightarrow> buf option" where
  "trace_items mem first [] b = Some b"
| "trace_items mem first (j # js) b = do {
     b1 \<leftarrow> (if first then Some b else buf_chr mem (CHR '','') b);
     b2 \<leftarrow> buf_seq [buf_put mem ''{\"name\":'', buf_jsn mem (job_name j),
       buf_fmt mem ('',\"thr_id\":'' @ show_long (job_tid j) @ '',\"start_ms\":'' @ show_long (job_start_ms j) @ '',\"lat_ms\":'' @
         show_long (job_lat_ms j) @ '',\"ok\":'' @ (if job_rc j \<and> err_code (job_res j) = [] then ''true'' else ''false'') @ ''}'')] b1;
     trace_items mem False js b2 }"

definition add_page_trace :: "(nat \<Rightarrow> bool) \<Rightarrow> qjob list \<Rightarrow> buf \<Rightarrow> buf option" where
  "add_page_trace mem jobs = buf_seq [buf_chr mem (CHR ''[''), trace_items mem True jobs, buf_chr mem (CHR '']'')]"

definition page_sum_lat :: "qjob list \<Rightarrow> int" where
  "page_sum_lat jobs = sum_list (map job_lat_ms jobs)"

record page_metrics =
  total_ms :: int
  sum_lat_ms :: int

text \<open>
  The jobs are added in groups of \<open>nw\<close> (the number of workers), and a group is waited for before the next one. Which jobs are added before
  the pool refuses one; all jobs that were added have run when the function returns.
\<close>

definition page_order :: "outside \<Rightarrow> nat \<Rightarrow> nat \<Rightarrow> nat list" where
  "page_order w nw k = concat (map (\<lambda>g. filter (\<lambda>i. i div nw = g \<and> i < k) (sched w)) [0..<PAGE_QUERY_COUNT])"

definition page_run_parallel :: "outside \<Rightarrow> srv \<Rightarrow> string list \<Rightarrow> string list \<Rightarrow> int \<Rightarrow> (int \<times> qjob list \<times> page_metrics \<times> srv) option" where
  "page_run_parallel w sv sqlv namev nw =
     (let (snap, d0) = db_snap (sdb sv); base = clock_ms w 0; k = accepted_adds w PAGE_QUERY_COUNT in
      do {
        (jobs, d1) \<leftarrow> run_jobs w snap base (page_order w (nat nw) k) (map2 qjob_init sqlv namev) d0;
        d2 \<leftarrow> db_done d1 snap;
        Some (if k < PAGE_QUERY_COUNT then - 1 else 1, jobs,
          \<lparr>total_ms = clock_ms w (2 * PAGE_QUERY_COUNT + 2) - base, sum_lat_ms = page_sum_lat jobs\<rparr>, sv\<lparr>sdb := d2\<rparr>)
      })"

definition page_run_sequential :: "outside \<Rightarrow> srv \<Rightarrow> string list \<Rightarrow> string list \<Rightarrow> (int \<times> qjob list \<times> page_metrics \<times> srv) option" where
  "page_run_sequential w sv sqlv namev =
     (let (snap, d0) = db_snap (sdb sv); base = clock_ms w 0 in
      do {
        (jobs, d1) \<leftarrow> run_jobs w snap base [0..<PAGE_QUERY_COUNT] (map2 qjob_init sqlv namev) d0;
        d2 \<leftarrow> db_done d1 snap;
        Some (1, jobs, \<lparr>total_ms = clock_ms w (2 * PAGE_QUERY_COUNT + 2) - base, sum_lat_ms = page_sum_lat jobs\<rparr>, sv\<lparr>sdb := d2\<rparr>)
      })"

definition page_single_res :: "(nat \<Rightarrow> bool) \<Rightarrow> string \<Rightarrow> page_mode \<Rightarrow> int \<Rightarrow> int \<Rightarrow> qjob list \<Rightarrow> page_metrics \<Rightarrow> http_res option" where
  "page_single_res mem rid mode delay_ms nw jobs metrics =
     map_option (res_set 200)
       (buf_seq [buf_put mem ''{\"ok\":true,\"data\":'', add_page_data mem jobs, buf_put mem '',\"trace\":'', add_page_trace mem jobs,
          buf_put mem '',\"meta\":{\"req_id\":'', buf_jsn mem rid, buf_put mem '',\"mode\":'',
          buf_jsn mem (if mode = PAGE_MODE_SEQUENTIAL then ''sequential'' else ''parallel''),
          buf_fmt mem ('',\"delay_ms\":'' @ show_long delay_ms @ '',\"workers\":'' @ show_long nw @ '',\"sum_lat_ms\":'' @
            show_long (sum_lat_ms metrics) @ '',\"total_ms\":'' @ show_long (total_ms metrics) @ ''}}'')] buf_init)"

text \<open>\<open>sp\<close> is the quotient of the two total times, printed with one digit behind the point.\<close>

definition page_compare_res :: "(nat \<Rightarrow> bool) \<Rightarrow> string \<Rightarrow> int \<Rightarrow> int \<Rightarrow> qjob list \<Rightarrow> page_metrics \<Rightarrow> qjob list \<Rightarrow> page_metrics \<Rightarrow> string
    \<Rightarrow> http_res option" where
  "page_compare_res mem rid delay_ms nw sj sm pj pm sp =
     map_option (res_set 200)
       (buf_seq [buf_put mem ''{\"ok\":true,\"data\":{\"sequential\":{\"trace\":'', add_page_trace mem sj,
          buf_fmt mem ('',\"sum_lat_ms\":'' @ show_long (sum_lat_ms sm) @ '',\"total_ms\":'' @ show_long (total_ms sm) @ ''},''),
          buf_put mem ''\"parallel\":{\"trace\":'', add_page_trace mem pj,
          buf_fmt mem ('',\"sum_lat_ms\":'' @ show_long (sum_lat_ms pm) @ '',\"total_ms\":'' @ show_long (total_ms pm) @ ''},''),
          buf_fmt mem (''\"speedup\":'' @ sp @ ''},\"meta\":{\"req_id\":''), buf_jsn mem rid,
          buf_fmt mem ('',\"mode\":\"compare\",\"delay_ms\":'' @ show_long delay_ms @ '',\"workers\":'' @ show_long nw @ ''}}'')] buf_init)"

definition do_page :: "outside \<Rightarrow> srv \<Rightarrow> http_req \<Rightarrow> (http_res \<times> srv) option" where
  "do_page w sv req =
     (case page_mode_of (snd (qry_get (qry req) ''mode'' 32)) of
        None \<Rightarrow> Some (err w req 400 ''BAD_REQ'' ''invalid mode'', sv)
      | Some mode \<Rightarrow>
        (case page_delay_of (snd (qry_get (qry req) ''delay_ms'' 32)) of
          None \<Rightarrow> Some (err w req 400 ''BAD_REQ'' ''invalid delay_ms'', sv)
        | Some delay_ms \<Rightarrow>
          (case page_workers_of (snd (qry_get (qry req) ''workers'' 32)) of
            None \<Rightarrow> Some (err w req 400 ''BAD_REQ'' ''invalid workers'', sv)
          | Some nw \<Rightarrow>
            (let sqlv = page_sqls req; full = err w req 503 ''Q_FULL'' ''db queue full'' in
             case mode of
               PAGE_MODE_COMPARE \<Rightarrow> do {
                 (_, sj, sm, sv1) \<leftarrow> page_run_sequential w sv sqlv page_names;
                 (rc, pj, pm, sv2) \<leftarrow> page_run_parallel w sv1 sqlv page_names nw;
                 Some (if rc < 0 then full
                   else reply (page_compare_res (memory w) (req_id req) delay_ms nw sj sm pj pm (speedup_text w (total_ms sm) (total_ms pm))), sv2)
               }
             | PAGE_MODE_SEQUENTIAL \<Rightarrow> do {
                 (_, jobs, metrics, sv1) \<leftarrow> page_run_sequential w sv sqlv page_names;
                 Some (reply (page_single_res (memory w) (req_id req) PAGE_MODE_SEQUENTIAL delay_ms nw jobs metrics), sv1)
               }
             | PAGE_MODE_PARALLEL \<Rightarrow> do {
                 (rc, jobs, metrics, sv1) \<leftarrow> page_run_parallel w sv sqlv page_names nw;
                 Some (if rc < 0 then full
                   else reply (page_single_res (memory w) (req_id req) PAGE_MODE_PARALLEL delay_ms nw jobs metrics), sv1)
               }))))"

subsection \<open>\<open>GET /api/v1/metrics\<close> and the table of routes\<close>

definition show_ulong :: "ulong \<Rightarrow> string" where
  "show_ulong n = nat_digits (unat n)"

definition pool_text :: "pool_st \<Rightarrow> string" where
  "pool_text p = ''{\"size\":'' @ show_long (st_size p) @ '',\"active\":'' @ show_long (st_active p) @ '',\"queued\":'' @
     show_long (st_queued p) @ '',\"done\":'' @ show_ulong (st_done p) @ ''}''"

definition do_mst :: "outside \<Rightarrow> srv \<Rightarrow> http_req \<Rightarrow> http_res" where
  "do_mst w sv req =
     (let m = db_mst (sdb sv); st = api_stats_snapshot (clock w 0) (stats_of sv); mem = memory w in
      reply (map_option (res_set 200)
        (buf_seq [buf_fmt mem
           (''{\"ok\":true,\"data\":{\"api_pool\":'' @ pool_text (apip sv) @ '',\"db_pool\":'' @ pool_text (dbp sv) @
            '',\"mvcc\":{\"tx_live\":'' @ show_ulong (tx_live m) @ '',\"snap_min\":'' @ show_ulong (snap_min_of m) @
            '',\"ver_now\":'' @ show_ulong (ver_now m) @ '',\"gc_wait\":'' @ show_ulong (gc_wait m) @
            ''},\"http\":{\"uptime_ms\":'' @ show_ulong (uptime_ms st) @ '',\"total_requests\":'' @ show_ulong (total_requests st) @
            '',\"inflight_requests\":'' @ show_ulong (inflight_requests st) @ '',\"ok_responses\":'' @ show_ulong (ok_responses st) @
            '',\"error_responses\":'' @ show_ulong (error_responses st) @ '',\"status_503\":'' @ show_ulong (status_503 st) @
            '',\"keep_alive_reuse\":'' @ show_ulong (keep_alive_reuse st) @
            ''},\"cache\":{\"hits\":'' @ show_ulong (cache_hits st) @ '',\"misses\":'' @ show_ulong (cache_misses st) @
            ''},\"timing_ns\":{\"parse\":'' @ show_ulong (parse_ns st) @ '',\"lock_wait\":'' @ show_ulong (lock_wait_ns st) @
            '',\"engine\":'' @ show_ulong (engine_ns st) @ '',\"json\":'' @ show_ulong (json_ns st) @ '',\"send\":'' @ show_ulong (send_ns st) @
            ''}},\"meta\":{\"req_id\":''),
           buf_jsn mem (req_id req), buf_put mem ''}}''] buf_init)))"

definition only :: "outside \<Rightarrow> http_req \<Rightarrow> string \<Rightarrow> srv \<Rightarrow> (http_res \<times> srv) option \<Rightarrow> (http_res \<times> srv) option" where
  "only w req m sv r = (if strcmp (meth req) m \<noteq> 0 then Some (err w req 405 ''BAD_METH'' ''method not allowed'', sv) else r)"

definition route_do :: "outside \<Rightarrow> srv \<Rightarrow> http_req \<Rightarrow> (http_res \<times> srv) option" where
  "route_do w sv req =
     (let at = (\<lambda>p. strcmp (path req) p = 0) in
      if at ''/demo'' then only w req ''GET'' sv (Some (do_asset w req ''web/demo.html'' ''text/html; charset=utf-8'', sv))
      else if at ''/demo.css'' then only w req ''GET'' sv (Some (do_asset w req ''web/demo.css'' ''text/css; charset=utf-8'', sv))
      else if at ''/demo.js'' then only w req ''GET'' sv (Some (do_asset w req ''web/demo.js'' ''application/javascript; charset=utf-8'', sv))
      else if at ''/api/v1/health'' then only w req ''GET'' sv (Some (do_health w req, sv))
      else if at ''/api/v1/sql'' then only w req ''POST'' sv (do_sql w sv req)
      else if at ''/api/v1/batch'' then only w req ''POST'' sv (do_batch w sv req False)
      else if at ''/api/v1/tx'' then only w req ''POST'' sv (do_batch w sv req True)
      else if at ''/api/v1/page'' then only w req ''GET'' sv (do_page w sv req)
      else if at ''/api/v1/metrics'' then only w req ''GET'' sv (Some (do_mst w sv req, sv))
      else Some (err w req 404 ''NO_ROUTE'' ''route not found'', sv))"

end
