(* ===== verification/Server.thy ===== *)
theory Server
  imports Http Route Pool
begin

text \<open>
  The server process: \<open>src/api/srv.c\<close> from \<open>conn_run\<close> on, and \<open>src/dbsrv.c\<close>.

  \<^item> A connection is served by \<open>conn_run\<close>. What it depends on is its argument \<open>conn_env\<close>, by the number of the request on the
    connection: the outside of the handler, the value of the atomic counter \<open>req_seq\<close>, what the other threads do to the
    shared state before the request is handled, and the times that are measured.
  \<^item> The result lists the texts that are sent. A connection ends \<open>Closed\<close>, it is \<open>Waiting\<close> when the client sends nothing more
    without closing, and \<open>Undefined\<close> when the handler reads freed memory or the header of a response does not fit its array.
  \<^item> The accept loop adds connections to the pool; the worker threads and the signal handler act while \<open>accept\<close> waits.
  \<^item> Allocation in \<open>srv.c\<close> succeeds.
\<close>

subsection \<open>Connections\<close>

datatype conn_end = Closed | Waiting | Undefined

record conn_env =
  handler_out :: "nat \<Rightarrow> outside"
  req_seq :: "nat \<Rightarrow> ulong"
  between :: "nat \<Rightarrow> srv \<Rightarrow> srv"
  parse_time :: "nat \<Rightarrow> ulong"
  send_time :: "nat \<Rightarrow> ulong"

definition bad_errc :: "int \<Rightarrow> string" where
  "bad_errc c = (if c = 413 then ''TOO_BIG'' else if c = 500 then ''INT_ERR'' else ''BAD_REQ'')"

definition bad_msg :: "int \<Rightarrow> string" where
  "bad_msg c = (if c = 413 then ''request body too large'' else if c = 500 then ''internal server error'' else ''request parse failed'')"

definition bad_res :: "int \<Rightarrow> string \<Rightarrow> http_res" where
  "bad_res c rid =
     (let mem = (\<lambda>_. True) in
      reply (map_option (res_set c)
        (buf_seq [buf_put mem ''{\"ok\":false,\"err\":{\"code\":'', buf_jsn mem (bad_errc c), buf_put mem '',\"msg\":'',
           buf_jsn mem (bad_msg c), buf_put mem ''},\"meta\":{\"req_id\":'', buf_jsn mem rid, buf_put mem ''}}''] buf_init)))"

text \<open>The counters before the request is looked at; \<open>i\<close> is \<open>req_count\<close>.\<close>

definition note_started :: "nat \<Rightarrow> srv \<Rightarrow> srv" where
  "note_started i sv =
     upd_stats (\<lambda>s. let s1 = api_stats_note_request_started s in if i > 0 then api_stats_note_keep_alive_reuse s1 else s1) sv"

definition note_sent :: "ulong \<Rightarrow> int \<Rightarrow> srv \<Rightarrow> srv" where
  "note_sent ns c sv = upd_stats (\<lambda>s. api_stats_note_request_finished c (api_stats_add_send_ns ns s)) sv"

text \<open>A request as the handler sees it: with its number, and the body as a string that ends at its first NUL.\<close>

definition handed :: "conn_env \<Rightarrow> nat \<Rightarrow> http_req \<Rightarrow> http_req" where
  "handed e i r = r\<lparr>req_id := show_ulong (req_seq e i), rq_body := takeWhile (\<lambda>ch. ch \<noteq> CHR 0x00) (rq_body r)\<rparr>"

subsection \<open>The loop ends\<close>

definition sock_size :: "recv_ev list \<Rightarrow> nat" where
  "sock_size sock = sum_list (map ev_size sock)"

lemma sock_size_simps [simp]: "sock_size [] = 0" "sock_size (ev # s) = ev_size ev + sock_size s"
  by (simp_all add: sock_size_def)

lemma ensure_buffered_size:
  "ensure_buffered c sock target = Some (rc, c', sock') \<Longrightarrow>
   length (cbuf c') + sock_size sock' \<le> length (cbuf c) + sock_size sock"
proof (induction c sock target arbitrary: rc c' sock' rule: ensure_buffered.induct)
  case (1 c sock target)
  let ?c1 = "c\<lparr>ccap := conn_grow c target\<rparr>"
  show ?case
  proof (cases "target \<le> conn_used c \<or> target > max_total c \<or> conn_grow c target < target")
    case True
    then show ?thesis using "1.prems" by (subst (asm) ensure_buffered.simps) (auto split: if_splits)
  next
    case False
    then have e: "\<not> target \<le> conn_used c" "\<not> target > max_total c" "\<not> conn_grow c target < target" by auto
    note step = "1.prems" [unfolded ensure_buffered.simps [of c sock target] Let_def, simplified e if_False]
    show ?thesis
    proof (cases sock)
      case Nil
      then show ?thesis using step by simp
    next
      case (Cons ev s)
      show ?thesis
      proof (cases ev)
        case (Data bs)
        show ?thesis
        proof (cases "bs = []")
          case True
          then show ?thesis using step Cons Data by (auto split: if_splits)
        next
          case ne: False
          let ?room = "nat (ccap ?c1 - conn_used ?c1)"
          let ?c2 = "?c1\<lparr>cbuf := cbuf ?c1 @ take ?room bs\<rparr>"
          let ?s = "if drop ?room bs = [] then s else Data (drop ?room bs) # s"
          have "length (cbuf c') + sock_size sock' \<le> length (cbuf ?c2) + sock_size ?s"
            by (rule "1.IH"(1) [OF e refl Cons Data ne refl]) (use step Cons Data ne in simp)
          also have "\<dots> \<le> length (cbuf c) + sock_size sock" using Cons Data by (auto simp: min_def)
          finally show ?thesis .
        qed
      next
        case Interrupted
        then show ?thesis using "1.IH"(2) [OF e refl Cons Interrupted] step Cons by fastforce
      qed (use step Cons in \<open>auto split: if_splits\<close>)
    qed
  qed
qed

lemma hdr_loop_size:
  "hdr_loop c sock = Some (r, c', sock') \<Longrightarrow>
   length (cbuf c') + sock_size sock' \<le> length (cbuf c) + sock_size sock \<and> r \<noteq> Inl 200"
proof (induction c sock rule: hdr_loop.induct)
  case (1 c sock)
  show ?case
  proof (cases "find_hdr_end (cbuf c) = None \<and> conn_used c < MAX_HDR_BYTES")
    case False
    then show ?thesis using "1.prems" by (subst (asm) hdr_loop.simps) (auto split: option.splits)
  next
    case True
    then obtain rc c1 s1 where e: "ensure_buffered c sock (conn_used c + 1) = Some (rc, c1, s1)"
      using "1.prems" by (subst (asm) hdr_loop.simps) (auto split: option.splits)
    note z = ensure_buffered_size [OF e]
    show ?thesis
    proof (cases "rc = 200")
      case False
      then show ?thesis using "1.prems" True e z by (subst (asm) hdr_loop.simps) auto
    next
      case ok: True
      have "hdr_loop c1 s1 = Some (r, c', sock')" using "1.prems" True e ok by (subst (asm) hdr_loop.simps) auto
      then have "length (cbuf c') + sock_size sock' \<le> length (cbuf c1) + sock_size s1 \<and> r \<noteq> Inl 200"
        using "1.IH" [OF _ _ e refl refl] True ok by simp
      then show ?thesis using z by linarith
    qed
  qed
qed

text \<open>A request that is accepted uses at least its empty line.\<close>

lemma parse_req_uses:
  assumes "parse_req c sock max_body = Some (200, r, cls, c', sock')"
  shows "length (cbuf c') + sock_size sock' < length (cbuf c) + sock_size sock"
proof -
  obtain h c1 s1 where l: "hdr_loop c sock = Some (h, c1, s1)" using assms by (auto simp: parse_req_def split: option.splits)
  note z1 = hdr_loop_size [OF l]
  obtain n where h: "h = Inr n" using assms l z1 by (cases h) (auto simp: parse_req_def)
  obtain r0 blen c2 where e: "ensure_buffered c1 s1 (int n + 4 + uint (blen :: ulong)) = Some (200, c2, sock')"
    and c': "c' = c2\<lparr>cbuf := drop (nat (int n + 4 + uint blen)) (cbuf c2)\<rparr>" and r0: "r = split_query r0"
    using assms l h by (auto simp: parse_req_def Let_def split: option.splits if_splits)
  have "int n + 4 + uint blen \<le> conn_used c2" by (rule ensure_buffered_200 [OF e])
  then have "0 < nat (int n + 4 + uint blen)" "nat (int n + 4 + uint blen) \<le> length (cbuf c2)"
    using uint_ge_0 [of blen] by linarith+
  moreover have "length (cbuf (c2\<lparr>cbuf := drop k (cbuf c2)\<rparr>)) < length (cbuf c2)" if "0 < k" "k \<le> length (cbuf c2)" for k
    using that by simp
  ultimately have "length (cbuf c') < length (cbuf c2)" unfolding c' by blast
  then show ?thesis using ensure_buffered_size [OF e] z1 by linarith
qed

subsection \<open>Serving a connection\<close>

function conn_loop :: "conn_env \<Rightarrow> int \<Rightarrow> nat \<Rightarrow> http_conn \<Rightarrow> recv_ev list \<Rightarrow> srv \<Rightarrow> string list \<times> srv \<times> conn_end" where
  "conn_loop e max_body i c sock sv =
     (case parse_req c sock max_body of
        None \<Rightarrow> ([], sv, Waiting)
      | Some (rc, r, cls, c1, sock1) \<Rightarrow>
        let sv1 = upd_stats (api_stats_add_parse_ns (parse_time e i)) (between e i sv) in
        if rc = 0 then ([], sv1, Closed)
        else let sv2 = note_started i sv1 in
          if rc \<noteq> 200 then
            (case send_res (bad_res rc (show_ulong (req_seq e i))) True of
               None \<Rightarrow> ([], sv2, Undefined)
             | Some out \<Rightarrow> ([out], note_sent (send_time e i) rc sv2, Closed))
          else
            (case route_do (handler_out e i) sv2 (handed e i r) of
               None \<Rightarrow> ([], sv2, Undefined)
             | Some (res, sv3) \<Rightarrow>
               (case send_res res cls of
                  None \<Rightarrow> ([], sv3, Undefined)
                | Some out \<Rightarrow>
                  let sv4 = note_sent (send_time e i) (code res) sv3 in
                  if cls then ([out], sv4, Closed)
                  else let (outs, sv5, en) = conn_loop e max_body (Suc i) c1 sock1 sv4 in (out # outs, sv5, en))))"
  by pat_completeness auto
termination
proof (relation "measure (\<lambda>(e, max_body, i, c, sock, sv). length (cbuf c) + sock_size sock)", goal_cases)
  case (2 e max_body i c sock sv x rc y r z cls u c1 sock1)
  then show ?case using parse_req_uses [of c sock max_body r cls c1 sock1] by simp
qed simp

declare conn_loop.simps [simp del]

definition conn_run :: "conn_env \<Rightarrow> int \<Rightarrow> recv_ev list \<Rightarrow> srv \<Rightarrow> string list \<times> srv \<times> conn_end" where
  "conn_run e max_body sock sv = conn_loop e max_body 0 (conn_init max_body) sock sv"

subsection \<open>The process\<close>

record srv_cfg =
  cfg_db :: "db option"
  cfg_port :: int
  api_thr :: int
  db_thr :: int
  que_max :: int
  cfg_max_body :: int
  cfg_max_sql :: int
  cfg_max_qry :: int

text \<open>
  \<open>struct Srv\<close> with the global variables of the cache and of the statistics, which are in \<open>core\<close>. A job of the first pool is
  the descriptor of a connection, a job of the second the number of a query.
\<close>

record server =
  core :: srv
  api_pool :: "int pool"
  db_pool :: "nat pool"
  srv_port :: int
  srv_max_body :: int
  srv_max_sql :: int
  stopped :: bool
  lfd :: int

text \<open>The server as a handler sees it, with the statistics of the pools.\<close>

definition handler_view :: "server \<Rightarrow> srv" where
  "handler_view s = (core s)\<lparr>apip := pool_stat (api_pool s), dbp := pool_stat (db_pool s)\<rparr>"

text \<open>\<open>made1\<close> and \<open>made2\<close> are the numbers of threads that can be created for the two pools.\<close>

definition srv_new :: "srv_cfg \<Rightarrow> int \<Rightarrow> int \<Rightarrow> ulong \<Rightarrow> ulong \<Rightarrow> server option" where
  "srv_new cfg made1 made2 ttl now =
     (case cfg_db cfg of
        None \<Rightarrow> None
      | Some d \<Rightarrow>
        (case (pool_new (api_thr cfg) (que_max cfg) made1, pool_new (db_thr cfg) (que_max cfg) made2) of
          (Some ap, Some dp) \<Rightarrow>
            Some \<lparr>core = \<lparr>sdb = d, qcache_of = query_cache_init ttl (query_cache_zero QUERY_CACHE_MAX_ENTRIES QUERY_CACHE_BUCKETS),
                stats_of = api_stats_init now, apip = pool_stat ap, dbp = pool_stat dp, srv_max_qry = cfg_max_qry cfg\<rparr>,
              api_pool = ap, db_pool = dp, srv_port = cfg_port cfg, srv_max_body = cfg_max_body cfg, srv_max_sql = cfg_max_sql cfg,
              stopped = False, lfd = 0\<rparr>
        | _ \<Rightarrow> None))"

definition srv_stop :: "server \<Rightarrow> server" where
  "srv_stop s = s\<lparr>stopped := True, lfd := - 1, api_pool := pool_stop (api_pool s), db_pool := pool_stop (db_pool s)\<rparr>"

text \<open>The queues and the cache that are left, all empty; \<^const>\<open>None\<close> if a queue is not a list of nodes.\<close>

definition srv_del :: "server \<Rightarrow> (int jobq \<times> nat jobq \<times> qcache) option" where
  "srv_del s0 =
     (let s = srv_stop s0 in
      case pool_del (api_pool s) of
        None \<Rightarrow> None
      | Some q1 \<Rightarrow>
        (case pool_del (db_pool s) of
           None \<Rightarrow> None
         | Some q2 \<Rightarrow> Some (q1, q2, query_cache_destroy (qcache_of (core s)))))"

text \<open>An answer of \<open>accept\<close>: what the other threads did before it came, and the descriptor.\<close>

record accept_ev =
  meanwhile :: "server \<Rightarrow> server"
  cfd :: int

definition full_res :: http_res where
  "full_res = reply (map_option (res_set 503)
     (buf_seq [buf_put (\<lambda>_. True) ''{\"ok\":false,\"err\":{\"code\":\"Q_FULL\",\"msg\":\"api queue full\"}}''] buf_init))"

text \<open>
  The loop of \<open>srv_run\<close>: the server and the connections that were refused, with what was sent to them. Without a further
  answer of \<open>accept\<close> the loop goes on waiting, which the flag says. \<^const>\<open>None\<close> is a broken queue.
\<close>

fun accept_loop :: "accept_ev list \<Rightarrow> server \<Rightarrow> (server \<times> (int \<times> string) list \<times> bool) option" where
  "accept_loop [] s = Some (s, [], \<not> stopped s)"
| "accept_loop (a # as) s =
     (if stopped s then Some (s, [], False)
      else let s1 = meanwhile a s in
        if cfd a < 0 then if stopped s1 then Some (s1, [], False) else accept_loop as s1
        else case pool_add (api_pool s1) (cfd a) of
            None \<Rightarrow> None
          | Some (rc, p) \<Rightarrow>
            let s2 = s1\<lparr>api_pool := p\<rparr> in
            if rc = 0 then accept_loop as s2
            else case send_res full_res True of
                None \<Rightarrow> None
              | Some out \<Rightarrow>
                map_option (\<lambda>(s', outs, wait). (s', (cfd a, out) # outs, wait))
                  (accept_loop as (s2\<lparr>core := upd_stats api_stats_note_immediate_503 (core s2)\<rparr>)))"

text \<open>The result -1 of \<open>srv_run\<close> is \<^term>\<open>Inl (- 1)\<close>; \<open>fd\<close>, \<open>bound\<close> and \<open>listens\<close> are the answers of \<open>socket\<close>, \<open>bind\<close> and \<open>listen\<close>.\<close>

definition srv_run :: "int \<Rightarrow> int \<Rightarrow> int \<Rightarrow> accept_ev list \<Rightarrow> server \<Rightarrow> (int + (server \<times> (int \<times> string) list \<times> bool)) option" where
  "srv_run fd bound listens evs s =
     (if fd < 0 then Some (Inl (- 1))
      else if bound \<noteq> 0 \<or> listens \<noteq> 0 then Some (Inl (- 1))
      else map_option Inr (accept_loop evs (s\<lparr>lfd := fd\<rparr>)))"

subsection \<open>\<open>dbsrv.c\<close>\<close>

definition atoi :: "string \<Rightarrow> int" where
  "atoi s = sint (word_of_int (fst (strtol s)) :: 32 word)"

definition env_i :: "(string \<Rightarrow> string option) \<Rightarrow> string \<Rightarrow> int \<Rightarrow> int" where
  "env_i getenv key def = (case getenv key of None \<Rightarrow> def | Some val \<Rightarrow> if val \<noteq> [] then atoi val else def)"

definition auto_thr :: "int \<Rightarrow> int" where
  "auto_thr ncpu = (if ncpu \<le> 0 then 4 else (if ncpu > 256 then 256 else ncpu) * 2)"

text \<open>The configuration that \<open>main\<close> makes, with the database it opens.\<close>

definition main_root :: "(string \<Rightarrow> string option) \<Rightarrow> string" where
  "main_root getenv = (case getenv ''DB_ROOT'' of None \<Rightarrow> ''data'' | Some r \<Rightarrow> if r \<noteq> [] then r else ''data'')"

definition main_cfg :: "(string \<Rightarrow> string option) \<Rightarrow> int \<Rightarrow> db option \<Rightarrow> srv_cfg" where
  "main_cfg getenv ncpu d =
     (let api = env_i getenv ''API_THR'' 0; dbt = env_i getenv ''DB_THR'' 0 in
      \<lparr>cfg_db = d, cfg_port = env_i getenv ''DBSV_PORT'' 8080,
       api_thr = (if api \<le> 0 then auto_thr ncpu else api), db_thr = (if dbt \<le> 0 then auto_thr ncpu else dbt),
       que_max = env_i getenv ''QUE_MAX'' 128, cfg_max_body = env_i getenv ''MAX_BODY'' 1048576,
       cfg_max_sql = env_i getenv ''MAX_SQL'' 4096, cfg_max_qry = env_i getenv ''MAX_QRY'' 32\<rparr>)"

end
