(* ===== verification/Route_Text.thy ===== *)
theory Route_Text
  imports Route
begin

text \<open>
  What the writers of \<open>route.c\<close> write: every builder appends a fixed text, and with memory it succeeds. The rules are applied
  along the structure of the builders.
\<close>

subsection \<open>What the builders append\<close>

lemma appends_seq_Nil: "appends (\<lambda>mem. buf_seq []) []"
  by (simp add: appends_def)

lemma appends_seq_Cons:
  assumes "appends f s" "appends (\<lambda>mem. buf_seq (fs mem)) t"
  shows "appends (\<lambda>mem. buf_seq (f mem # fs mem)) (s @ t)"
  using appends_bind [OF assms] by (simp add: appends_def)

lemma appends_if: "appends f s \<Longrightarrow> appends g t \<Longrightarrow> appends (\<lambda>mem b. if P then f mem b else g mem b) (if P then s else t)"
  by (cases P) auto

lemma appends_first: "appends (\<lambda>mem b. if first then Some b else buf_chr mem c b) (if first then [] else [c])"
  by (cases first) (auto intro: appends_Nil appends_chr)

lemmas appends_all = appends_put appends_fmt appends_chr appends_jsn appends_seq_Cons appends_seq_Nil

fun obj_items :: "bool \<Rightarrow> (string \<times> string) list \<Rightarrow> string" where
  "obj_items first [] = []"
| "obj_items first ((k, v) # cells) = (if first then [] else '','') @ (json_of k @ '':'' @ json_of v @ []) @ obj_items False cells"

lemma appends_cells: "appends (\<lambda>mem. add_cells mem first cells) (obj_items first cells)"
proof (induction first cells rule: obj_items.induct)
  case (1 first)
  then show ?case by (simp add: appends_def)
next
  case (2 first k v cells)
  have "appends (\<lambda>mem. buf_seq [buf_jsn mem k, buf_chr mem (CHR '':''), buf_jsn mem v]) (json_of k @ '':'' @ json_of v @ [])"
    by (intro appends_all)
  from appends_bind [OF appends_first [of first "CHR '',''"] appends_bind [OF this 2]]
  show ?case by (simp only: add_cells.simps obj_items.simps)
qed

definition obj_text :: "(string \<times> string) list \<Rightarrow> string" where
  "obj_text cells = ''{'' @ obj_items True cells @ ''}'' @ []"

lemma appends_obj: "appends (\<lambda>mem. add_obj mem cells) (obj_text cells)"
  unfolding add_obj_def obj_text_def by (intro appends_all appends_cells)

fun objs_items :: "bool \<Rightarrow> (string \<times> string) list list \<Rightarrow> string" where
  "objs_items first [] = []"
| "objs_items first (r # rs) = (if first then [] else '','') @ obj_text r @ objs_items False rs"

lemma appends_objs: "appends (\<lambda>mem. add_objs mem first rs) (objs_items first rs)"
proof (induction first rs rule: objs_items.induct)
  case (1 first)
  then show ?case by (simp add: appends_def)
next
  case (2 first r rs)
  from appends_bind [OF appends_first [of first "CHR '',''"] appends_bind [OF appends_obj [of r] 2]]
  show ?case by (simp only: add_objs.simps objs_items.simps)
qed

definition rows_text :: "dbres \<Rightarrow> string" where
  "rows_text res = ''['' @ objs_items True (res_rows res) @ '']'' @ []"

lemma appends_rows: "appends (\<lambda>mem. add_rows mem res) (rows_text res)"
  unfolding add_rows_def rows_text_def by (intro appends_all appends_objs)

definition one_text :: "dbres \<Rightarrow> string" where
  "one_text res = (case res_rows res of [] \<Rightarrow> ''{}'' | r # rs \<Rightarrow> obj_text r)"

lemma appends_one: "appends (\<lambda>mem. add_one mem res) (one_text res)"
  by (cases "res_rows res") (auto simp: add_one_def one_text_def intro: appends_put appends_obj)

text \<open>The JSON text of a result.\<close>

definition data_text :: "dbres \<Rightarrow> string" where
  "data_text dres = ''{'' @ ''\"rows\":'' @ rows_text dres @ ('',\"count\":'' @ show_long (res_count dres)) @
     (if last_id dres > 0 then '',\"last_id\":'' @ show_long (last_id dres) else []) @ ''}'' @ []"

lemma appends_data: "appends (\<lambda>mem. sql_data mem dres) (data_text dres)"
  unfolding sql_data_def data_text_def by (intro appends_all appends_rows appends_if appends_Nil)

lemma data_dump: "sql_data_dump (\<lambda>_. True) dres = Some (data_text dres)"
proof -
  have ok: "buf_ok buf_init" by (simp add: buf_ok_def buf_init_def)
  obtain b where b: "sql_data (\<lambda>_. True) dres buf_init = Some b" using appends_mem [OF appends_data ok] by blast
  have "contents b = data_text dres" using appendsD(2) [OF appends_data ok b] by (simp add: buf_init_def)
  then show ?thesis using b by (simp add: sql_data_dump_def)
qed

text \<open>
  A response built from an empty buffer when there is memory: \<open>R\<close> is the builder as a function of the memory, so that the
  rules below apply to the definitions of the responses as they stand.
\<close>

abbreviation json_res :: "int \<Rightarrow> string \<Rightarrow> http_res" where
  "json_res c s \<equiv> \<lparr>code = c, res_body = s, content_type = ''application/json''\<rparr>"

definition builds :: "((nat \<Rightarrow> bool) \<Rightarrow> http_res option) \<Rightarrow> int \<Rightarrow> string \<Rightarrow> bool" where
  "builds R c s \<longleftrightarrow> R (\<lambda>_. True) = Some (json_res c s)"

lemma builds_seq:
  assumes "appends (\<lambda>mem. buf_seq (fs mem)) s"
  shows "builds (\<lambda>mem. map_option (res_set c) (buf_seq (fs mem) buf_init)) c s"
proof -
  have ok: "buf_ok buf_init" by (simp add: buf_ok_def buf_init_def)
  obtain b where b: "buf_seq (fs (\<lambda>_. True)) buf_init = Some b" using appends_mem [OF assms ok] by blast
  have "contents b = s" using appendsD(2) [OF assms ok b] by (simp add: buf_init_def)
  then show ?thesis using b by (simp add: builds_def res_set_def res_set_ct_def)
qed

lemma builds_reply: "builds R c s \<Longrightarrow> reply (R (\<lambda>_. True)) = json_res c s"
  by (simp add: builds_def reply_def)

text \<open>The same with the text left open.\<close>

definition writes :: "((nat \<Rightarrow> bool) \<Rightarrow> buf \<Rightarrow> buf option) \<Rightarrow> bool" where
  "writes f \<longleftrightarrow> (\<exists>s. appends f s)"

named_theorems writes_intros \<open>operations that write to a buffer\<close>

lemma writes_basic [writes_intros]:
  "writes (\<lambda>mem. buf_put mem s)" "writes (\<lambda>mem. buf_fmt mem s)" "writes (\<lambda>mem. buf_chr mem ch)" "writes (\<lambda>mem. buf_jsn mem s)"
  "writes (\<lambda>mem. add_rows mem res)" "writes (\<lambda>mem. add_one mem res)" "writes (\<lambda>mem. batch_items mem first [])"
  "writes (\<lambda>mem. trace_items mem first [])" "writes (\<lambda>mem. buf_seq [])"
  unfolding writes_def batch_items.simps trace_items.simps
  using appends_put appends_fmt appends_chr appends_jsn appends_rows appends_one appends_Nil appends_seq_Nil by fast+

lemma writes_seq_Cons [writes_intros]: "writes f \<Longrightarrow> writes (\<lambda>mem. buf_seq (fs mem)) \<Longrightarrow> writes (\<lambda>mem. buf_seq (f mem # fs mem))"
  unfolding writes_def using appends_seq_Cons by fast

lemma writes_bind: "writes f \<Longrightarrow> writes g \<Longrightarrow> writes (\<lambda>mem b. do { b1 \<leftarrow> f mem b; g mem b1 })"
  unfolding writes_def using appends_bind by fast

lemma writes_first: "writes (\<lambda>mem b. if first then Some b else buf_chr mem ch b)"
  unfolding writes_def using appends_first by fast

definition makes :: "((nat \<Rightarrow> bool) \<Rightarrow> http_res option) \<Rightarrow> int \<Rightarrow> bool" where
  "makes R c \<longleftrightarrow> (\<exists>s. builds R c s)"

lemma makes_seq: "writes (\<lambda>mem. buf_seq (fs mem)) \<Longrightarrow> makes (\<lambda>mem. map_option (res_set c) (buf_seq (fs mem) buf_init)) c"
  unfolding writes_def makes_def using builds_seq by fast

lemma makes_code: "makes R c \<Longrightarrow> code (reply (R (\<lambda>_. True))) = c"
  unfolding makes_def using builds_reply by fastforce

subsection \<open>The texts of the responses\<close>

definition err_text :: "string \<Rightarrow> string \<Rightarrow> string \<Rightarrow> string" where
  "err_text c msg rid = ''{\"ok\":false,\"err\":{\"code\":'' @ json_of c @ '',\"msg\":'' @ json_of msg @ ''},\"meta\":{\"req_id\":'' @ json_of rid @ ''}}'' @ []"

definition ok_text :: "string \<Rightarrow> string \<Rightarrow> int \<Rightarrow> int \<Rightarrow> int \<Rightarrow> string \<Rightarrow> string \<Rightarrow> string" where
  "ok_text rid data tid lat_ms lat_us cache_status cache_reason =
     ''{\"ok\":true,\"data\":'' @ (if data = [] then [] else data) @ '',\"meta\":{\"req_id\":'' @ json_of rid @
     ('',\"thr_id\":'' @ show_long tid @ '',\"lat_ms\":'' @ show_long lat_ms @ '',\"lat_us\":'' @ show_long lat_us @ '',\"cache\":{\"status\":'') @
     json_of cache_status @ '',\"reason\":'' @ json_of cache_reason @ ''}}}'' @ []"

lemma builds_err: "builds (\<lambda>mem. err_res mem http c msg rid) (status_of http) (err_text c msg rid)"
  unfolding err_res_def err_text_def by (rule builds_seq) (intro appends_all)

lemma err_eq: "memory w = (\<lambda>_. True) \<Longrightarrow> err w req http c msg = json_res (status_of http) (err_text c msg (req_id req))"
  unfolding err_def using builds_reply [OF builds_err] by simp

lemma builds_sql_ok_data: "builds (\<lambda>mem. sql_ok_data mem rid data tid lat_ms lat_us cs cr) 200 (ok_text rid data tid lat_ms lat_us cs cr)"
  unfolding sql_ok_data_def ok_text_def by (rule builds_seq) (intro appends_all appends_if appends_Nil)

lemma sql_ok_data_eq:
  "reply (sql_ok_data (\<lambda>_. True) rid data tid lat_ms lat_us cs cr) = json_res 200 (ok_text rid data tid lat_ms lat_us cs cr)"
  by (rule builds_reply [OF builds_sql_ok_data])

end
