(* ===== verification/Route_Codes.thy ===== *)
theory Route_Codes
  imports Route_Text
begin

text \<open>
  What all responses of the routes have in common: a documented code and a short content type, so that their header fits the
  array of \<open>send_res\<close>; and what no handler does: change the counters of requests and responses.
\<close>

subsection \<open>The codes of the responses\<close>

lemma writes_batch [writes_intros]: "writes (\<lambda>mem. batch_items mem first rs)"
proof (induction rs arbitrary: first)
  case (Cons r rs)
  show ?case unfolding batch_items.simps by (intro writes_bind writes_first writes_intros Cons)
qed (rule writes_basic)

lemma writes_trace_items [writes_intros]: "writes (\<lambda>mem. trace_items mem first js)"
proof (induction js arbitrary: first)
  case (Cons j js)
  show ?case unfolding trace_items.simps by (intro writes_bind writes_first writes_intros Cons)
qed (rule writes_basic)

lemma writes_page_data [writes_intros]: "writes (\<lambda>mem. add_page_data mem jobs)"
  unfolding add_page_data_def by (intro writes_intros)

lemma writes_page_trace [writes_intros]: "writes (\<lambda>mem. add_page_trace mem jobs)"
  unfolding add_page_trace_def by (intro writes_intros)

lemma makes_batch: "makes (\<lambda>mem. batch_ok mem rid resv lat) 200"
  unfolding batch_ok_def by (rule makes_seq) (intro writes_intros)

lemma makes_abort: "makes (\<lambda>mem. tx_res mem rid resv lat False) 400"
  unfolding tx_res_def if_False by (rule makes_seq) (intro writes_intros)

lemma makes_page_single: "makes (\<lambda>mem. page_single_res mem rid mode delay nw jobs metrics) 200"
  unfolding page_single_res_def by (rule makes_seq) (intro writes_intros)

lemma makes_page_compare: "makes (\<lambda>mem. page_compare_res mem rid delay nw sj sm pj pm sp) 200"
  unfolding page_compare_res_def by (rule makes_seq) (intro writes_intros)

lemma makes_health: "makes (\<lambda>mem. map_option (res_set 200)
       (buf_seq [buf_put mem ''{\"ok\":true,\"data\":{\"status\":\"up\"},\"meta\":{\"req_id\":'', buf_jsn mem rid, buf_put mem ''}}''] buf_init)) 200"
  by (rule makes_seq) (intro writes_intros)

lemma makes_formatted: "makes (\<lambda>mem. map_option (res_set 200) (buf_seq [buf_fmt mem s, buf_jsn mem rid, buf_put mem t] buf_init)) 200"
  by (rule makes_seq) (intro writes_intros)

definition response_codes :: "int set" where
  "response_codes = {200, 400, 404, 405, 413, 429, 500, 503}"

definition sendable :: "http_res \<Rightarrow> bool" where
  "sendable res \<longleftrightarrow> code res \<in> response_codes \<and> length (content_type res) \<le> 40"

lemma codes_in: "200 \<in> response_codes" "400 \<in> response_codes" "404 \<in> response_codes" "405 \<in> response_codes" "413 \<in> response_codes"
  "429 \<in> response_codes" "500 \<in> response_codes" "503 \<in> response_codes"
  by (simp_all add: response_codes_def)

lemma sendable_json: "c \<in> response_codes \<Longrightarrow> sendable (json_res c s)"
  by (simp add: sendable_def)

lemma makes_sendable: "makes R c \<Longrightarrow> c \<in> response_codes \<Longrightarrow> sendable (reply (R (\<lambda>_. True)))"
  unfolding makes_def using builds_reply sendable_json by metis

lemmas made = makes_sendable [OF makes_batch codes_in(1)] makes_sendable [OF makes_abort codes_in(2)]
  makes_sendable [OF makes_page_single codes_in(1)] makes_sendable [OF makes_page_compare codes_in(1)]
  makes_sendable [OF makes_health codes_in(1)] makes_sendable [OF makes_formatted codes_in(1)]

lemma err_sendable:
  assumes "memory w = (\<lambda>_. True)" "http \<in> response_codes"
  shows "sendable (err w req http c msg)"
  unfolding err_eq [OF assms(1)] by (rule sendable_json) (use assms(2) in \<open>auto simp: response_codes_def status_of_def\<close>)

lemma http_of_codes: "http_of c \<in> response_codes"
  by (simp add: http_of_def response_codes_def)


text \<open>A handler whose response, if it gives one, can be sent.\<close>

definition coded :: "(http_res \<times> srv) option \<Rightarrow> bool" where
  "coded r \<longleftrightarrow> (\<forall>res sv. r = Some (res, sv) \<longrightarrow> sendable res)"

lemma coded_Some: "sendable res \<Longrightarrow> coded (Some (res, sv))"
  by (simp add: coded_def)

lemma coded_err: "memory w = (\<lambda>_. True) \<Longrightarrow> http \<in> response_codes \<Longrightarrow> coded (Some (err w req http c msg, sv))"
  by (rule coded_Some) (rule err_sendable)

lemma coded_bind: "(\<And>x. coded (f x)) \<Longrightarrow> coded (m \<bind> f)"
  by (cases m) (auto simp: coded_def)

lemma coded_map: "sendable res \<Longrightarrow> coded (map_option (\<lambda>x. (res, f x)) m)"
  by (cases m) (auto simp: coded_def)

lemma coded_if: "coded a \<Longrightarrow> coded b \<Longrightarrow> coded (if P then a else b)"
  by simp

lemma coded_prod: "(\<And>x y. coded (f x y)) \<Longrightarrow> coded (case p of (x, y) \<Rightarrow> f x y)"
  by (cases p) simp

lemma coded_option: "coded a \<Longrightarrow> (\<And>x. coded (f x)) \<Longrightarrow> coded (case p of None \<Rightarrow> a | Some x \<Rightarrow> f x)"
  by (cases p) simp_all

lemmas coded_intros = coded_bind coded_map coded_if coded_prod coded_option

lemma code_if: "(P \<Longrightarrow> sendable a) \<Longrightarrow> (\<not> P \<Longrightarrow> sendable b) \<Longrightarrow> sendable (if P then a else b)"
  by simp

lemma code_sql_ok: "sendable (reply (sql_ok_data (\<lambda>_. True) rid d tid lm lu cs cr))"
  unfolding sql_ok_data_eq by (rule sendable_json) (rule codes_in)

lemma coded_sql_miss:
  assumes m: "memory w = (\<lambda>_. True)"
  shows "coded (sql_miss w req s cc v why sv)"
  unfolding sql_miss_def m data_dump Let_def option.case
  by (intro coded_intros coded_err [OF m http_of_codes] code_sql_ok coded_Some)

lemma coded_sql:
  assumes m: "memory w = (\<lambda>_. True)"
  shows "coded (do_sql w sv req)"
  unfolding do_sql_def sql_hit_def Let_def m
  by (intro coded_intros coded_sql_miss [OF m] code_sql_ok coded_Some; simp add: err_sendable [OF m] codes_in)

lemma coded_batch:
  assumes m: "memory w = (\<lambda>_. True)"
  shows "coded (do_batch w sv req force_tx)"
  unfolding do_batch_def batch_reads_def batch_exec_def Let_def m if_distrib [of reply]
  by (intro coded_intros coded_Some code_if; simp add: err_sendable [OF m] codes_in made)

lemma coded_page:
  assumes m: "memory w = (\<lambda>_. True)"
  shows "coded (do_page w sv req)"
proof -
  have mode: "coded (case md of PAGE_MODE_PARALLEL \<Rightarrow> a | PAGE_MODE_SEQUENTIAL \<Rightarrow> b | PAGE_MODE_COMPARE \<Rightarrow> c)"
    if "coded a" "coded b" "coded c" for md a b c
    using that by (cases md) simp_all
  show ?thesis unfolding do_page_def Let_def m
    by (intro coded_intros mode coded_Some code_if; simp add: err_sendable [OF m] codes_in made)
qed

lemma asset_sendable: "length ct \<le> 40 \<Longrightarrow> sendable (res_set_ct 200 b ct)"
  by (simp add: sendable_def res_set_ct_def codes_in)

lemma coded_asset: "length ct \<le> 40 \<Longrightarrow> memory w = (\<lambda>_. True) \<Longrightarrow> coded (Some (do_asset w req file ct, sv))"
  by (auto simp: do_asset_def err_sendable codes_in asset_sendable intro!: coded_Some split: option.splits)

lemma coded_health: "memory w = (\<lambda>_. True) \<Longrightarrow> coded (Some (do_health w req, sv))"
  unfolding do_health_def by (rule coded_Some) (simp only: made)

lemma coded_mst: "memory w = (\<lambda>_. True) \<Longrightarrow> coded (Some (do_mst w sv req, sv))"
  unfolding do_mst_def Let_def by (rule coded_Some) (simp only: made)

lemma coded_only: "memory w = (\<lambda>_. True) \<Longrightarrow> coded r \<Longrightarrow> coded (only w req m sv r)"
  unfolding only_def by (rule coded_if) (simp_all add: coded_err codes_in)

lemma route_sendable:
  assumes m: "memory w = (\<lambda>_. True)"
  shows "coded (route_do w sv req)"
proof -
  have asset: "coded (Some (do_asset w req name ct, sv))" if "length ct \<le> 40" for name ct by (rule coded_asset [OF that m])
  show ?thesis unfolding route_do_def Let_def
    by (intro coded_if coded_only m asset coded_health coded_sql coded_batch coded_page coded_mst coded_err codes_in) simp_all
qed

subsection \<open>The counters of requests\<close>

text \<open>Requests, requests in flight, responses by kind and reuses of a connection: \<open>conn_run\<close> alone changes these.\<close>

definition counts :: "stats \<Rightarrow> ulong \<times> ulong \<times> ulong \<times> ulong \<times> ulong \<times> ulong" where
  "counts s = (total_requests s, inflight_requests s, ok_responses s, error_responses s, status_503 s, keep_alive_reuse s)"

definition quiet :: "stats \<Rightarrow> (http_res \<times> srv) option \<Rightarrow> bool" where
  "quiet s r \<longleftrightarrow> (\<forall>res sv'. r = Some (res, sv') \<longrightarrow> counts (stats_of sv') = counts s)"

lemma counts_timers [simp]:
  "counts (api_stats_add_parse_ns ns s) = counts s" "counts (api_stats_add_lock_wait_ns ns s) = counts s"
  "counts (api_stats_add_engine_ns ns s) = counts s" "counts (api_stats_add_json_ns ns s) = counts s"
  "counts (api_stats_add_send_ns ns s) = counts s" "counts (api_stats_note_cache_hit s) = counts s"
  "counts (api_stats_note_cache_miss s) = counts s"
  by (simp_all add: counts_def stats_defs)

lemma stats_of_upd [simp]: "stats_of (upd_stats f sv) = f (stats_of sv)"
  by (simp add: upd_stats_def)

lemma quiet_Some: "counts (stats_of sv') = counts s \<Longrightarrow> quiet s (Some (res, sv'))"
  by (simp add: quiet_def)

lemma quiet_bind: "(\<And>x. quiet s (f x)) \<Longrightarrow> quiet s (m \<bind> f)"
  by (cases m) (auto simp: quiet_def)

lemma quiet_map: "(\<And>x. counts (stats_of (f x)) = counts s) \<Longrightarrow> quiet s (map_option (\<lambda>x. (res, f x)) m)"
  by (cases m) (auto simp: quiet_def)

lemma quiet_if: "quiet s a \<Longrightarrow> quiet s b \<Longrightarrow> quiet s (if P then a else b)"
  by simp

lemma quiet_prod: "(\<And>x y. quiet s (f x y)) \<Longrightarrow> quiet s (case p of (x, y) \<Rightarrow> f x y)"
  by (cases p) simp

lemma quiet_option: "quiet s a \<Longrightarrow> (\<And>x. quiet s (f x)) \<Longrightarrow> quiet s (case p of None \<Rightarrow> a | Some x \<Rightarrow> f x)"
  by (cases p) simp_all

lemmas quiet_intros = quiet_bind quiet_map quiet_if quiet_prod quiet_option

lemma quiet_sql_miss: "counts (stats_of sv) = counts s \<Longrightarrow> quiet s (sql_miss w req q cc v why sv)"
  unfolding sql_miss_def Let_def by (intro quiet_intros quiet_Some; simp)

lemma quiet_sql: "quiet (stats_of sv) (do_sql w sv req)"
  unfolding do_sql_def sql_hit_def Let_def by (intro quiet_intros quiet_sql_miss quiet_Some; simp)

lemma quiet_batch: "quiet (stats_of sv) (do_batch w sv req force_tx)"
  unfolding do_batch_def batch_reads_def batch_exec_def Let_def by (intro quiet_intros quiet_Some; simp)

lemma page_run_stats:
  "page_run_parallel w sv sqlv names nw = Some (rc, jobs, m, sv') \<Longrightarrow> counts (stats_of sv') = counts (stats_of sv)"
  "page_run_sequential w sv sqlv names = Some (rc, jobs, m, sv') \<Longrightarrow> counts (stats_of sv') = counts (stats_of sv)"
  by (auto simp: page_run_parallel_def page_run_sequential_def Let_def bind_eq_Some_conv split: prod.splits if_splits)

lemma quiet_page: "quiet (stats_of sv) (do_page w sv req)"
  unfolding quiet_def
proof (intro allI impI)
  fix res sv'
  assume "do_page w sv req = Some (res, sv')"
  then show "counts (stats_of sv') = counts (stats_of sv)"
    by (auto simp: do_page_def Let_def bind_eq_Some_conv split: option.splits page_mode.splits dest!: page_run_stats)
qed

lemma quiet_only: "quiet (stats_of sv) r \<Longrightarrow> quiet (stats_of sv) (only w req m sv r)"
  by (simp add: only_def quiet_def)

lemma route_quiet: "quiet (stats_of sv) (route_do w sv req)"
  unfolding route_do_def Let_def
  by (intro quiet_if quiet_only quiet_sql quiet_batch quiet_page) (simp_all add: quiet_def)

end
