(* ===== verification/Server_Correct.thy ===== *)
theory Server_Correct
  imports Server Http_Correct Route_Codes
begin

text \<open>
  Lemmas on connections: the transport is transparent (a connection answers the requests that were written to it one by one,
  however the bytes arrive), responses fit the header array of \<open>send_res\<close>, and what a connection does to the counters.
\<close>

subsection \<open>Sockets that are closed\<close>

fun closes :: "recv_ev list \<Rightarrow> bool" where
  "closes [] = False"
| "closes (Data bs # s) = (bs = [] \<or> closes s)"
| "closes (Interrupted # s) = closes s"
| "closes (Eof # s) = True"
| "closes (Failed # s) = False"

lemma ensure_buffered_closes:
  "ensure_buffered c sock target = Some (200, c', sock') \<Longrightarrow> closes sock' = closes sock"
proof (induction c sock target rule: ensure_buffered.induct)
  case (1 c sock target)
  show ?case
  proof (cases "target \<le> conn_used c \<or> target > max_total c \<or> conn_grow c target < target")
    case True
    then show ?thesis using "1.prems" by (subst (asm) ensure_buffered.simps) (auto split: if_splits)
  next
    case False
    then have e: "\<not> target \<le> conn_used c" "\<not> target > max_total c" "\<not> conn_grow c target < target" by auto
    note step = "1.prems" [unfolded ensure_buffered.simps [of c sock target] Let_def, simplified e if_False]
    show ?thesis
    proof (cases sock)
      case Nil
      then show ?thesis using step by simp
    next
      case (Cons ev s)
      show ?thesis
      proof (cases ev)
        case (Data bs)
        show ?thesis
        proof (cases "bs = []")
          case True
          then show ?thesis using step Cons Data by (auto split: if_splits)
        next
          case ne: False
          show ?thesis using "1.IH"(1) [OF e refl Cons Data ne refl] step Cons Data ne by (auto split: if_splits)
        qed
      next
        case Interrupted
        then show ?thesis using "1.IH"(2) [OF e refl Cons Interrupted] step Cons by simp
      qed (use step Cons in \<open>auto split: if_splits\<close>)
    qed
  qed
qed

lemma hdr_loop_closes: "hdr_loop c sock = Some (Inr n, c', sock') \<Longrightarrow> closes sock' = closes sock"
proof (induction c sock rule: hdr_loop.induct)
  case (1 c sock)
  show ?case
  proof (cases "find_hdr_end (cbuf c) = None \<and> conn_used c < MAX_HDR_BYTES")
    case False
    then show ?thesis using "1.prems" by (subst (asm) hdr_loop.simps) (auto split: option.splits)
  next
    case True
    then obtain rc c1 s1 where e: "ensure_buffered c sock (conn_used c + 1) = Some (rc, c1, s1)"
      using "1.prems" by (subst (asm) hdr_loop.simps) (auto split: option.splits)
    have r: "rc = 200" "hdr_loop c1 s1 = Some (Inr n, c', sock')"
      using "1.prems" True e by (subst (asm) hdr_loop.simps, auto split: if_splits)+
    then show ?thesis using "1.IH" [OF _ _ e refl refl] True ensure_buffered_closes e by simp
  qed
qed

lemma parse_req_closes:
  assumes "parse_req c sock max_body = Some (200, r, cls, c', sock')"
  shows "closes sock' = closes sock"
proof -
  obtain h c1 s1 where l: "hdr_loop c sock = Some (h, c1, s1)" using assms by (auto simp: parse_req_def split: option.splits)
  obtain n where h: "h = Inr n" using assms l hdr_loop_size [OF l] by (cases h) (auto simp: parse_req_def)
  obtain c2 t where e: "ensure_buffered c1 s1 t = Some (200, c2, sock')"
    using assms l h by (auto simp: parse_req_def Let_def split: option.splits if_splits)
  show ?thesis using ensure_buffered_closes [OF e] hdr_loop_closes [OF l [unfolded h]] by simp
qed

lemma ensure_buffered_end:
  "conn_ok c \<Longrightarrow> cbuf c = [] \<Longrightarrow> pending sock = [] \<Longrightarrow> closes sock \<Longrightarrow> \<exists>c' sock'. ensure_buffered c sock 1 = Some (0, c', sock')"
proof (induction sock arbitrary: c)
  case (Cons ev s)
  let ?c1 = "c\<lparr>ccap := conn_grow c 1\<rparr>"
  have g: "1 \<le> max_total c" "ccap c \<le> conn_grow c 1" "1 \<le> conn_grow c 1" "conn_grow c 1 \<le> max_total c"
    using conn_grow_ok [OF Cons.prems(1), of 1] Cons.prems(1) by (auto simp: conn_ok_def)
  have ok1: "conn_ok ?c1" using Cons.prems(1) g by (auto simp: conn_ok_def)
  show ?case
  proof (cases ev)
    case Interrupted
    then show ?thesis using Cons.IH [OF ok1] Cons.prems g by (subst ensure_buffered.simps) (simp add: Let_def)
  qed (use Cons.prems g in \<open>subst ensure_buffered.simps, auto simp: Let_def split: if_splits\<close>)+
qed simp

lemma parse_req_end:
  assumes "conn_ok c" "cbuf c = []" "pending sock = []" "closes sock"
  shows "\<exists>c' sock'. parse_req c sock max_body = Some (0, req_zero, False, c', sock')"
proof -
  obtain c' sock' where "ensure_buffered c sock 1 = Some (0, c', sock')" using ensure_buffered_end [OF assms] by blast
  then have "hdr_loop c sock = Some (Inl 0, c', sock')"
    using assms(2) by (subst hdr_loop.simps) (simp add: MAX_HDR_BYTES_def)
  then show ?thesis by (simp add: parse_req_def)
qed

subsection \<open>Requests one by one\<close>

text \<open>A request of a client: what it writes, what makes it well formed, and what the handler is given.\<close>

record client_req =
  c_meth :: string
  c_path :: string
  c_query :: "string option"
  c_close :: bool
  c_body :: string

definition target :: "client_req \<Rightarrow> string" where
  "target r = c_path r @ (case c_query r of None \<Rightarrow> [] | Some q \<Rightarrow> CHR ''?'' # q)"

definition written :: "client_req \<Rightarrow> string" where
  "written r = req_text (c_meth r) (target r) (c_close r) (c_body r)"

definition proper :: "int \<Rightarrow> client_req \<Rightarrow> bool" where
  "proper max_body r \<longleftrightarrow> word_ok 7 (c_meth r) \<and> word_ok 255 (target r) \<and> CHR ''?'' \<notin> set (c_path r) \<and> int (length (c_body r)) \<le> max_body"

definition understood :: "client_req \<Rightarrow> http_req" where
  "understood r = \<lparr>meth = c_meth r, path = c_path r, qry = (case c_query r of None \<Rightarrow> [] | Some q \<Rightarrow> q), rq_body = c_body r, req_id = []\<rparr>"

text \<open>The reference: the requests are handled in order, until one asks to close.\<close>

fun serve :: "conn_env \<Rightarrow> nat \<Rightarrow> client_req list \<Rightarrow> srv \<Rightarrow> string list \<times> srv \<times> conn_end" where
  "serve e i [] sv = ([], upd_stats (api_stats_add_parse_ns (parse_time e i)) (between e i sv), Closed)"
| "serve e i (r # rs) sv =
     (let sv2 = note_started i (upd_stats (api_stats_add_parse_ns (parse_time e i)) (between e i sv)) in
      case route_do (handler_out e i) sv2 (handed e i (understood r)) of
        None \<Rightarrow> ([], sv2, Undefined)
      | Some (res, sv3) \<Rightarrow>
        (case send_res res (c_close r) of
           None \<Rightarrow> ([], sv3, Undefined)
         | Some out \<Rightarrow>
           let sv4 = note_sent (send_time e i) (code res) sv3 in
           if c_close r then ([out], sv4, Closed)
           else let (outs, sv5, en) = serve e (Suc i) rs sv4 in (out # outs, sv5, en)))"

lemma parse_req_written:
  assumes "conn_ok c" "max_body + MAX_HDR_BYTES + 4 \<le> max_total c" "max_body < 2 ^ 31" "proper max_body r"
    "cbuf c @ pending sock = written r @ rest"
  shows "\<exists>c' sock'. parse_req c sock max_body = Some (200, understood r, c_close r, c', sock') \<and>
    cbuf c' @ pending sock' = rest \<and> conn_ok c' \<and> max_total c' = max_total c \<and> closes sock' = closes sock"
proof -
  have w: "word_ok 7 (c_meth r)" "word_ok 255 (target r)" "CHR ''?'' \<notin> set (c_path r)" "int (length (c_body r)) \<le> max_body"
    using assms(4) by (simp_all add: proper_def)
  have "case c_query r of None \<Rightarrow> True | Some s \<Rightarrow> length s \<le> 511" using w(2) by (auto simp: word_ok_def target_def split: option.splits)
  from split_query_target [OF w(3) this, of "c_meth r" "c_body r"]
  have u: "split_query \<lparr>meth = c_meth r, path = target r, qry = [], rq_body = c_body r, req_id = []\<rparr> = understood r"
    unfolding target_def understood_def .
  obtain c' sock' where p: "parse_req c sock max_body = Some (200, understood r, c_close r, c', sock')"
    "cbuf c' @ pending sock' = rest" "conn_ok c'" "max_total c' = max_total c"
    using parse_req_text [OF assms(1,2) w(4) assms(3) w(1,2) assms(5) [unfolded written_def]] unfolding u by blast
  from parse_req_closes [OF p(1)] p show ?thesis by blast
qed

lemma conn_loop_serves:
  assumes "conn_ok c" "max_body + MAX_HDR_BYTES + 4 \<le> max_total c" "max_body < 2 ^ 31" "\<forall>r\<in>set rs. proper max_body r"
    "cbuf c @ pending sock = concat (map written rs)" "closes sock"
  shows "conn_loop e max_body i c sock sv = serve e i rs sv"
  using assms
proof (induction rs arbitrary: i c sock sv)
  case Nil
  then obtain c' sock' where "parse_req c sock max_body = Some (0, req_zero, False, c', sock')" using parse_req_end [of c sock max_body] by auto
  then show ?case by (subst conn_loop.simps) (simp add: Let_def)
next
  case (Cons r rs)
  have "cbuf c @ pending sock = written r @ concat (map written rs)" using Cons.prems(5) by simp
  then obtain c' sock' where p: "parse_req c sock max_body = Some (200, understood r, c_close r, c', sock')"
    "cbuf c' @ pending sock' = concat (map written rs)" "conn_ok c'" "max_total c' = max_total c" "closes sock'"
    using parse_req_written [of c max_body r sock] Cons.prems by auto
  have eq: "conn_loop e max_body j c' sock' sv' = serve e j rs sv'" for j sv'
    by (rule Cons.IH) (use p Cons.prems in auto)
  show ?case unfolding conn_loop.simps [of e max_body i c sock sv] p(1) option.case prod.case eq serve.simps Let_def by simp
qed

subsection \<open>Headers fit\<close>

lemma reason_length: "c \<in> response_codes \<Longrightarrow> length (show_long c) = 3 \<and> length (reason_of c) \<le> 21"
  unfolding response_codes_def by (elim insertE emptyE; simp only:; code_simp)

lemma head_fits:
  assumes "sendable res" "length (res_body res) < 10 ^ 20"
  shows "length (res_head res cls) < 256"
proof -
  have "length (show_long (code res)) = 3 \<and> length (reason_of (code res)) \<le> 21" using assms(1) reason_length by (simp add: sendable_def)
  moreover have "length (nat_digits (length (res_body res))) \<le> 20" using length_nat_digits [of _ 19] assms(2) by simp
  moreover have "length (content_type res) \<le> 40" using assms(1) by (simp add: sendable_def)
  ultimately show ?thesis by (simp add: res_head_def CRLF_def)
qed

lemma send_fits: "sendable res \<Longrightarrow> length (res_body res) < 10 ^ 20 \<Longrightarrow> send_res res cls = Some (res_head res cls @ res_body res)"
  using head_fits by (simp add: send_res_def)

lemma bad_res_text: "bad_res c rid = json_res c (err_text (bad_errc c) (bad_msg c) rid)"
proof -
  have "builds (\<lambda>mem. map_option (res_set c)
        (buf_seq [buf_put mem ''{\"ok\":false,\"err\":{\"code\":'', buf_jsn mem (bad_errc c), buf_put mem '',\"msg\":'',
           buf_jsn mem (bad_msg c), buf_put mem ''},\"meta\":{\"req_id\":'', buf_jsn mem rid, buf_put mem ''}}''] buf_init))
      c (err_text (bad_errc c) (bad_msg c) rid)"
    unfolding err_text_def by (rule builds_seq) (intro appends_all)
  from builds_reply [OF this] show ?thesis by (simp only: bad_res_def Let_def)
qed

subsection \<open>The counters\<close>

text \<open>The counters after \<open>n\<close> requests that were answered, of which \<open>k\<close> reused the connection.\<close>

definition answered :: "stats \<Rightarrow> ulong" where
  "answered s = ok_responses s + error_responses s + status_503 s"

definition tally :: "stats \<Rightarrow> stats \<Rightarrow> nat \<Rightarrow> bool" where
  "tally s s' n \<longleftrightarrow> total_requests s' = total_requests s + of_nat n \<and> inflight_requests s' = inflight_requests s \<and>
     answered s' = answered s + of_nat n"

lemma tally_counts: "counts s' = counts s \<Longrightarrow> tally s s' 0"
  by (simp add: counts_def tally_def answered_def)

lemma tally_trans: "tally s1 s2 m \<Longrightarrow> tally s2 s3 n \<Longrightarrow> tally s1 s3 (m + n)"
  by (simp add: tally_def)

lemma tally_request:
  assumes "counts s2 = counts (stats_of (note_started i sv))"
  shows "tally (stats_of sv) (api_stats_note_request_finished c (api_stats_add_send_ns ns s2)) 1"
proof -
  have s: "counts (stats_of (note_started i sv)) = (total_requests (stats_of sv) + 1, inflight_requests (stats_of sv) + 1,
      ok_responses (stats_of sv), error_responses (stats_of sv), status_503 (stats_of sv),
      (if i > 0 then keep_alive_reuse (stats_of sv) + 1 else keep_alive_reuse (stats_of sv)))"
    by (simp add: counts_def note_started_def stats_defs Let_def)
  show ?thesis using assms [unfolded s] by (simp add: counts_def tally_def answered_def stats_defs Let_def)
qed

lemma conn_loop_tally:
  assumes "\<forall>i s. counts (stats_of (between e i s)) = counts (stats_of s)"
    and "conn_loop e max_body i c sock sv = (outs, sv', en)" "en \<noteq> Undefined"
  shows "tally (stats_of sv) (stats_of sv') (length outs)"
  using assms
proof (induction e max_body i c sock sv arbitrary: outs sv' en rule: conn_loop.induct)
  case (1 e max_body i c sock sv)
  let ?sv1 = "upd_stats (api_stats_add_parse_ns (parse_time e i)) (between e i sv)"
  let ?sv2 = "note_started i ?sv1"
  have t1: "tally (stats_of sv) (stats_of ?sv1) 0" by (rule tally_counts) (use "1.prems"(1) in simp)
  have step: "tally (stats_of sv) (stats_of (note_sent ns k sv3)) 1" if "counts (stats_of sv3) = counts (stats_of ?sv2)" for ns k sv3
    using tally_trans [OF t1 tally_request [OF that]] by (simp add: note_sent_def)
  note run = "1.prems"(2) [unfolded conn_loop.simps [of e max_body i c sock sv] Let_def]
  show ?case
  proof (cases "parse_req c sock max_body")
    case None
    then show ?thesis using run tally_counts by auto
  next
    case (Some x)
    obtain rc r cls c1 sock1 where x: "x = (rc, r, cls, c1, sock1)" by (cases x)
    note run1 = run [unfolded Some x option.case prod.case]
    consider "rc = 0" | "rc \<noteq> 0" "rc \<noteq> 200" | "rc = 200" by blast
    then show ?thesis
    proof cases
      case 1
      then show ?thesis using run1 t1 by auto
    next
      case 2
      then obtain out where "outs = [out]" "sv' = note_sent (send_time e i) rc ?sv2"
        using run1 "1.prems"(3) by (auto split: option.splits)
      then show ?thesis using step by simp
    next
      case 3
      obtain res sv3 out where h: "route_do (handler_out e i) ?sv2 (handed e i r) = Some (res, sv3)" "send_res res cls = Some out"
        using run1 3 "1.prems"(3) by (auto split: option.splits)
      let ?sv4 = "note_sent (send_time e i) (code res) sv3"
      have "counts (stats_of sv3) = counts (stats_of ?sv2)" using route_quiet [of ?sv2] h(1) unfolding quiet_def by blast
      note t4 = step [OF this]
      show ?thesis
      proof (cases cls)
        case True
        then show ?thesis using run1 3 h t4 by auto
      next
        case False
        obtain outs' where o: "outs = out # outs'" "conn_loop e max_body (Suc i) c1 sock1 ?sv4 = (outs', sv', en)"
          using run1 3 h False by (auto split: prod.splits)
        have "tally (stats_of ?sv4) (stats_of sv') (length outs')"
          using "1.IH" [OF Some x [symmetric] refl refl refl refl _ refl _ h(1) refl h(2) refl False "1.prems"(1) o(2) "1.prems"(3)] 3 by simp
        from tally_trans [OF t4 this] o(1) show ?thesis by simp
      qed
    qed
  qed
qed

end
