(* ===== verification/Route_Coherent.thy ===== *)
theory Route_Coherent
  imports Route_Text Query_Cache_Props Db_Exec
begin

text \<open>
  The database and the query cache together: what is served from the cache is what the database would answer now. The invariant
  says of every cached body that it is the text of the result of its query on the newest version of its table, if that version
  still has the number under which the body was stored.
\<close>

subsection \<open>The invariant\<close>

lemma data_text_label: "data_text (label v res) = data_text res"
  by (simp add: data_text_def rows_text_def)

definition entry_right :: "db \<Rightarrow> string \<Rightarrow> string \<Rightarrow> ulong \<Rightarrow> bool" where
  "entry_right db s b v \<longleftrightarrow> (\<exists>st j. parse_ok db s res_clr = Inr st \<and> stmt_type st = STMT_SELECT \<and> get_ent db (table_name st) = Some j \<and>
     v \<le> cur_ver (mv db) \<and> (\<forall>t. heap_of db (snd (tabs db ! j)) = Some t \<longrightarrow> ver_id t = v \<longrightarrow>
       (\<exists>res. sel_do t st res_clr = Some (True, res) \<and> b = data_text res)))"

lemma entry_right_evolves:
  assumes e: "entry_right db s b v" and ev: "evolves db db'"
  shows "entry_right db' s b v"
proof -
  obtain st j where st: "parse_ok db s res_clr = Inr st" "stmt_type st = STMT_SELECT" "get_ent db (table_name st) = Some j"
    "v \<le> cur_ver (mv db)"
    and b: "\<And>t. heap_of db (snd (tabs db ! j)) = Some t \<Longrightarrow> ver_id t = v \<Longrightarrow> \<exists>res. sel_do t st res_clr = Some (True, res) \<and> b = data_text res"
    using e unfolding entry_right_def by blast
  have j: "j < length (tabs db)" using get_ent_Some [OF st(3)] by blast
  have ms: "max_sql db' = max_sql db" and cv: "cur_ver (mv db) \<le> cur_ver (mv db')" and g: "get_ent db' (table_name st) = Some j"
    using ev st(3) unfolding evolves_def by blast+
  have p: "parse_ok db' s res_clr = Inr st" using st(1) ms by (simp add: parse_ok_def)
  have "\<exists>res. sel_do t' st res_clr = Some (True, res) \<and> b = data_text res"
    if t': "heap_of db' (snd (tabs db' ! j)) = Some t'" "ver_id t' = v" for t'
  proof -
    have "\<not> cur_ver (mv db) < ver_id (the (heap_of db' (snd (tabs db' ! j))))" using t' st(4) by simp
    then have sb: "same_but_prev (heap_of db' (snd (tabs db' ! j))) (heap_of db (snd (tabs db ! j)))"
      using ev j unfolding evolves_def by blast
    then obtain t where t: "heap_of db (snd (tabs db ! j)) = Some t" using t'(1)
      by (cases "heap_of db (snd (tabs db ! j))") (auto simp: same_but_prev_def)
    have "ver_id t = v" using same_but_prev_ver [OF sb] t t' by simp
    from b [OF t this] show ?thesis using sel_do_same [OF sb [unfolded t t'(1)]] by simp
  qed
  then show ?thesis using st(2,4) cv g p unfolding entry_right_def by (meson order_trans)
qed

text \<open>The server between two requests.\<close>

definition srv_ok :: "nat \<Rightarrow> nat \<Rightarrow> ulong \<Rightarrow> srv \<Rightarrow> bool" where
  "srv_ok n k ttl sv \<longleftrightarrow> (\<exists>cs. db_inv (sdb sv) cs) \<and> length (snaps (mv (sdb sv))) + 1 < 2 ^ 64 \<and> cache_ok n k ttl (qcache_of sv) \<and>
     (\<forall>s b v e. cached (qcache_of sv) s = Some (b, v, e) \<longrightarrow> entry_right (sdb sv) s b v)"

lemma srv_ok_step:
  assumes ok: "srv_ok n k ttl sv" and ev: "evolves (sdb sv) (sdb sv')" and c: "cache_ok n k ttl (qcache_of sv')"
    and new: "\<And>s b v e. cached (qcache_of sv') s = Some (b, v, e) \<Longrightarrow> cached (qcache_of sv) s = Some (b, v, e) \<or> entry_right (sdb sv') s b v"
  shows "srv_ok n k ttl sv'"
proof -
  have "entry_right (sdb sv') s b v" if "cached (qcache_of sv') s = Some (b, v, e)" for s b v e
    using new [OF that] ok entry_right_evolves [OF _ ev] unfolding srv_ok_def by blast
  then show ?thesis using ev c unfolding srv_ok_def evolves_def by blast
qed

text \<open>
  The other threads change the database between its two uses in \<open>do_sql\<close> as statements do, do not interfere while a statement
  is written, and memory and files work.
\<close>

definition fair :: "outside \<Rightarrow> bool" where
  "fair w \<longleftrightarrow> memory w = (\<lambda>_. True) \<and> (\<forall>n d. others w 0 n d = d) \<and> (\<forall>n k. answers w 0 n k = Io_ok) \<and>
     (\<forall>d cs. db_inv d cs \<longrightarrow> length (snaps (mv d)) + 1 < 2 ^ 64 \<longrightarrow> evolves d (others w 1 0 d))"

lemma upd_stats_fields [simp]: "sdb (upd_stats f sv) = sdb sv" "qcache_of (upd_stats f sv) = qcache_of sv"
  by (simp_all add: upd_stats_def)

subsection \<open>The part of \<open>do_sql\<close> behind the cache\<close>

lemma sql_miss_cases:
  assumes m: "memory w = (\<lambda>_. True)" and r: "sql_miss w req s cc v why sv = Some (res, sv')"
  obtains ok dres d where "db_exec (others w 0) (answers w 0) (others w 1 0 (sdb sv)) s = Some (ok, dres, d)" "sdb sv' = d"
    "\<not> ok \<longrightarrow> qcache_of sv' = qcache_of sv" "\<not> ok \<longrightarrow> code res \<noteq> 200"
    "ok \<longrightarrow> res = json_res 200 (ok_text (req_id req) (data_text dres) (thr_id w) (lat_ms_of (clock w 10 - clock w 0))
       (lat_us_of (clock w 10 - clock w 0)) ''miss'' why)"
    "ok \<longrightarrow> (if cc \<and> 0 < v then query_cache_store (cache_ttl w) (clock w 12) (qcache_of sv) s v (data_text dres) = Some (qcache_of sv')
       else qcache_of sv' = qcache_of sv)"
proof -
  obtain ok dres d where e: "db_exec (others w 0) (answers w 0) (others w 1 0 (sdb sv)) s = Some (ok, dres, d)"
    using r by (auto simp: sql_miss_def bind_eq_Some_conv)
  have nc: "code (err w req (http_of c) x y) \<noteq> 200" for c x y
    unfolding err_eq [OF m] by (simp add: http_of_def status_of_def)
  show thesis
  proof (cases ok)
    case False
    then have "res = err w req (http_of (err_code dres)) (if err_code dres \<noteq> [] then err_code dres else ''BAD_SQL'')
        (if err_code dres = [] \<and> err_msg dres = [] then ''query failed'' else err_msg dres)"
      "sv' = upd_stats (api_stats_add_engine_ns (clock w 8 - clock w 7)) (sv\<lparr>sdb := d\<rparr>)"
      using r e by (auto simp: sql_miss_def Let_def)
    then show ?thesis using that [OF e] False nc by simp
  next
    case True
    let ?sv = "upd_stats (api_stats_add_json_ns (clock w 11 - clock w 9)) (upd_stats (api_stats_add_engine_ns (clock w 8 - clock w 7)) (sv\<lparr>sdb := d\<rparr>))"
    let ?res = "json_res 200 (ok_text (req_id req) (data_text dres) (thr_id w) (lat_ms_of (clock w 10 - clock w 0))
       (lat_us_of (clock w 10 - clock w 0)) ''miss'' why)"
    have r': "(if cc \<and> 0 < v then map_option (\<lambda>qc. (?res, ?sv\<lparr>qcache_of := qc\<rparr>))
          (query_cache_store (cache_ttl w) (clock w 12) (qcache_of ?sv) s v (data_text dres)) else Some (?res, ?sv)) = Some (res, sv')"
      using r True unfolding sql_miss_def m data_dump Let_def sql_ok_data_eq option.case e by simp
    show ?thesis
    proof (cases "cc \<and> 0 < v")
      case True
      then show ?thesis using that [OF e] r' \<open>ok\<close> by auto
    next
      case False
      then show ?thesis using that [OF e] r' \<open>ok\<close> by auto
    qed
  qed
qed

lemma fair_others:
  assumes "fair w" "srv_ok n k ttl sv"
  obtains cs where "evolves (sdb sv) (others w 1 0 (sdb sv))" "db_inv (others w 1 0 (sdb sv)) cs"
    "length (snaps (mv (others w 1 0 (sdb sv)))) + 1 < 2 ^ 64" "cur_ver (mv (sdb sv)) \<le> cur_ver (mv (others w 1 0 (sdb sv)))"
proof -
  obtain cs where "db_inv (sdb sv) cs" "length (snaps (mv (sdb sv))) + 1 < 2 ^ 64" using assms(2) unfolding srv_ok_def by blast
  then have ev: "evolves (sdb sv) (others w 1 0 (sdb sv))" using assms(1) unfolding fair_def by blast
  then show thesis using that unfolding evolves_def by blast
qed

text \<open>The answer to a SELECT that was executed, and that it may be stored.\<close>

lemma sql_miss_select:
  assumes ok: "srv_ok n k ttl sv" and w: "fair w" and st: "parse_statement s = Some st" "stmt_type st = STMT_SELECT"
    and r: "sql_miss w req s cc v why sv = Some (res, sv')" and c: "code res = 200" and v: "v \<le> cur_ver (mv (sdb sv))"
  obtains dres lm lu where "res = json_res 200 (ok_text (req_id req) (data_text dres) (thr_id w) lm lu ''miss'' why)"
    "\<forall>env io. \<exists>d. db_exec env io (sdb sv') s = Some (True, dres, d)" "entry_right (sdb sv') s (data_text dres) v"
proof -
  have m: "memory w = (\<lambda>_. True)" using w by (simp add: fair_def)
  obtain cs where o: "db_inv (others w 1 0 (sdb sv)) cs" "length (snaps (mv (others w 1 0 (sdb sv)))) + 1 < 2 ^ 64"
    "cur_ver (mv (sdb sv)) \<le> cur_ver (mv (others w 1 0 (sdb sv)))" using fair_others [OF w ok] by blast
  obtain good dres d where x: "db_exec (others w 0) (answers w 0) (others w 1 0 (sdb sv)) s = Some (good, dres, d)" "sdb sv' = d"
    "\<not> good \<longrightarrow> code res \<noteq> 200"
    "good \<longrightarrow> res = json_res 200 (ok_text (req_id req) (data_text dres) (thr_id w) (lat_ms_of (clock w 10 - clock w 0))
       (lat_us_of (clock w 10 - clock w 0)) ''miss'' why)"
    by (rule sql_miss_cases [OF m r])
  have g: good using x(3) c by blast
  obtain j t where a: "parse_ok d s res_clr = Inr st" "get_ent d (table_name st) = Some j" "heap_of d (snd (tabs d ! j)) = Some t"
    "sel_do t st (label (cur_ver (mv d)) res_clr) = Some (True, dres)" "\<forall>env io. \<exists>d'. db_exec env io d s = Some (True, dres, d')"
    using select_again [OF o(1,2) st] x(1) g by metis
  obtain res0 where r0: "sel_do t st res_clr = Some (True, res0)" "dres = label (cur_ver (mv d)) res0"
    using a(4) unfolding sel_do_label by (auto simp: apsnd_def map_prod_def split: prod.splits)
  have "cur_ver (mv (others w 1 0 (sdb sv))) \<le> cur_ver (mv d)"
  proof -
    have "admissible (others w 1 0 (sdb sv)) s" unfolding admissible_def using st by (auto simp: parse_ok_def split: if_splits)
    then have "evolves (others w 1 0 (sdb sv)) d" using db_exec_evolves [OF o(1,2) _ _ _ x(1)] w unfolding fair_def by blast
    then show ?thesis by (simp add: evolves_def)
  qed
  then have vd: "v \<le> cur_ver (mv d)" using v o(3) by simp
  have "\<exists>res. sel_do t' st res_clr = Some (True, res) \<and> data_text dres = data_text res" if "heap_of d (snd (tabs d ! j)) = Some t'" for t'
    using that a(3) r0 data_text_label by simp
  then have "entry_right d s (data_text dres) v"
    unfolding entry_right_def using a(1,2) st(2) vd by (intro exI [of _ st] exI [of _ j]) blast
  then show thesis using that [OF x(4) [rule_format, OF g]] a(5) x(2) by simp
qed

lemma sql_miss_ok:
  assumes ok: "srv_ok n k ttl sv" and w: "fair w" and ad: "admissible (others w 1 0 (sdb sv)) s" and s: "s \<noteq> []"
    and r: "sql_miss w req s cc v why sv = Some (res, sv')"
    and cc: "cc \<Longrightarrow> (\<exists>st. parse_statement s = Some st \<and> stmt_type st = STMT_SELECT) \<and> v \<le> cur_ver (mv (sdb sv))"
  shows "srv_ok n k ttl sv'"
proof -
  have m: "memory w = (\<lambda>_. True)" using w by (simp add: fair_def)
  obtain cs where o: "evolves (sdb sv) (others w 1 0 (sdb sv))" "db_inv (others w 1 0 (sdb sv)) cs"
    "length (snaps (mv (others w 1 0 (sdb sv)))) + 1 < 2 ^ 64" using fair_others [OF w ok] .
  obtain good dres d where x: "db_exec (others w 0) (answers w 0) (others w 1 0 (sdb sv)) s = Some (good, dres, d)" "sdb sv' = d"
    "\<not> good \<longrightarrow> qcache_of sv' = qcache_of sv"
    "good \<longrightarrow> res = json_res 200 (ok_text (req_id req) (data_text dres) (thr_id w) (lat_ms_of (clock w 10 - clock w 0))
       (lat_us_of (clock w 10 - clock w 0)) ''miss'' why)"
    "good \<longrightarrow> (if cc \<and> 0 < v then query_cache_store (cache_ttl w) (clock w 12) (qcache_of sv) s v (data_text dres) = Some (qcache_of sv')
       else qcache_of sv' = qcache_of sv)"
    by (rule sql_miss_cases [OF m r])
  have "evolves (others w 1 0 (sdb sv)) d" using db_exec_evolves [OF o(2,3) _ _ ad x(1)] w unfolding fair_def by blast
  then have ev: "evolves (sdb sv) (sdb sv')" using evolves_trans [OF o(1)] x(2) by simp
  have co: "cache_ok n k ttl (qcache_of sv)" using ok by (simp add: srv_ok_def)
  show ?thesis
  proof (cases "good \<and> cc \<and> 0 < v \<and> int (length (data_text dres)) \<le> QUERY_CACHE_MAX_BODY_BYTES")
    case True
    then have st: "query_cache_store (cache_ttl w) (clock w 12) (qcache_of sv) s v (data_text dres) = Some (qcache_of sv')" using x(5) by simp
    obtain qc' m' where q: "query_cache_store (cache_ttl w) (clock w 12) (qcache_of sv) s v (data_text dres) = Some qc'" "cache_ok n k ttl qc'"
      "cached qc' = m'(s \<mapsto> (data_text dres, v, clock w 12 + ttl))"
      "m' = (if s \<in> dom (cached (qcache_of sv)) \<or> card (dom (cached (qcache_of sv))) < n then cached (qcache_of sv)
        else (cached (qcache_of sv))(ekey (entries (qcache_of sv) ! nat (lru_tail (qcache_of sv))) := None))"
      using store_ok [OF co s, of "data_text dres" "cache_ttl w" "clock w 12" v] True by metis
    have qc: "qcache_of sv' = qc'" using st q(1) by simp
    have c200: "code res = 200" using x(4) True by simp
    obtain st0 where s0: "parse_statement s = Some st0" "stmt_type st0 = STMT_SELECT" "v \<le> cur_ver (mv (sdb sv))" using cc True by blast
    obtain dres' lm lu where a: "res = json_res 200 (ok_text (req_id req) (data_text dres') (thr_id w) lm lu ''miss'' why)"
      "\<forall>env io. \<exists>d. db_exec env io (sdb sv') s = Some (True, dres', d)" "entry_right (sdb sv') s (data_text dres') v"
      using sql_miss_select [OF ok w s0(1,2) r c200 s0(3)] .
    obtain d2 where "db_exec (others w 0) (answers w 0) (sdb sv') s = Some (True, dres', d2)" using a(2) by blast
    have "dres' = dres"
    proof -
      have "\<forall>env io. \<exists>d'. db_exec env io d s = Some (True, dres, d')"
        using select_again [OF o(2,3) s0(1,2)] x(1) True by metis
      then show ?thesis using a(2) x(2) by (metis option.inject prod.inject)
    qed
    then have right: "entry_right (sdb sv') s (data_text dres) v" using a(3) by simp
    show ?thesis
      by (rule srv_ok_step [OF ok ev]) (use q(2-4) qc right in \<open>auto split: if_splits\<close>)
  next
    case False
    have "qcache_of sv' = qcache_of sv"
    proof (cases good)
      case True
      then show ?thesis using x(5) False store_refused [of s "data_text dres" "cache_ttl w" "clock w 12" "qcache_of sv" v]
        by (auto split: if_splits)
    qed (use x(3) in blast)
    then show ?thesis using srv_ok_step [OF ok ev] co by simp
  qed
qed

subsection \<open>The whole handler\<close>

text \<open>The request asks for a query of this text; the query is a SELECT.\<close>

definition asks :: "http_req \<Rightarrow> string \<Rightarrow> bool" where
  "asks req s \<longleftrightarrow> skip_ws (rq_body req) \<noteq> [] \<and> json_doc (rq_body req) \<and> json_str (rq_body req) ''query'' = Some s \<and> s \<noteq> []"

definition is_select :: "string \<Rightarrow> statement \<Rightarrow> bool" where
  "is_select s st \<longleftrightarrow> parse_statement s = Some st \<and> stmt_type st = STMT_SELECT \<and> table_name st \<noteq> []"

lemma err_400: "memory w = (\<lambda>_. True) \<Longrightarrow> code (err w req 400 c msg) \<noteq> 200"
  by (simp add: err_eq status_of_def)

lemma do_sql_refused:
  assumes "memory w = (\<lambda>_. True)" "\<not> (\<exists>s. asks req s)" "do_sql w sv req = Some (res, sv')"
  shows "sv' = sv \<and> code res \<noteq> 200"
  using assms err_400 [OF assms(1)] by (auto simp: do_sql_def asks_def split: if_splits option.splits)

lemma do_sql_plain:
  "asks req s \<Longrightarrow> \<not> (\<exists>st. is_select s st) \<Longrightarrow> do_sql w sv req = sql_miss w req s False 0 ''not_cacheable'' sv"
  by (auto simp: do_sql_def asks_def is_select_def split: option.split)

lemma do_sql_select:
  assumes "asks req s" "is_select s st" "do_sql w sv req = Some (res, sv')"
  obtains (hit) v db1 data why qc sv2 where "db_tab_ver (sdb sv) (table_name st) = Some (v, db1)" "0 < v"
      "query_cache_lookup (cache_ttl w) (clock w 3) (qcache_of sv) s v = Some (Some data, why, qc)"
      "sdb sv2 = db1" "qcache_of sv2 = qc" "sql_hit w req data sv2 = (res, sv')"
  | (miss) v db1 why why' qc sv2 where "db_tab_ver (sdb sv) (table_name st) = Some (v, db1)" "0 < v"
      "query_cache_lookup (cache_ttl w) (clock w 3) (qcache_of sv) s v = Some (None, why', qc)"
      "sdb sv2 = db1" "qcache_of sv2 = qc" "sql_miss w req s True v why sv2 = Some (res, sv')"
  | (unversioned) db1 why sv2 where "db_tab_ver (sdb sv) (table_name st) = Some (0, db1)"
      "sdb sv2 = db1" "qcache_of sv2 = qcache_of sv" "sql_miss w req s True 0 why sv2 = Some (res, sv')"
proof -
  have st: "parse_statement s = Some st" "stmt_type st = STMT_SELECT \<and> table_name st \<noteq> []" using assms(2) by (simp_all add: is_select_def)
  have body: "\<not> skip_ws (rq_body req) = []" "\<not> \<not> json_doc (rq_body req)" "json_str (rq_body req) ''query'' = Some s" "\<not> s = []"
    using assms(1) by (simp_all add: asks_def)
  note r = assms(3) [unfolded do_sql_def if_not_P [OF body(1)] if_not_P [OF body(2)] body(3) option.case if_not_P [OF body(4)] st(1) if_P [OF st(2)]]
  obtain v db1 where tv: "db_tab_ver (sdb sv) (table_name st) = Some (v, db1)" using r by (auto simp: bind_eq_Some_conv)
  define sv1 where "sv1 = upd_stats (api_stats_add_lock_wait_ns (clock w 2 - clock w 1)) (sv\<lparr>sdb := db1\<rparr>)"
  have sv1: "sdb sv1 = db1" "qcache_of sv1 = qcache_of sv" by (simp_all add: sv1_def)
  note r1 = r [unfolded tv Let_def Option.bind.simps(2) prod.case sv1_def [symmetric]]
  show thesis
  proof (cases "0 < v")
    case False
    then have v0: "v = 0" by (simp add: word_gt_0)
    show thesis by (rule unversioned [of db1 "upd_stats api_stats_note_cache_miss sv1" "cache_reason_of MISS_NO_ENTRY"])
        (use tv sv1 r1 v0 in simp_all)
  next
    case True
    note r2 = r1 [unfolded if_P [OF True]]
    obtain hit why qc where l: "query_cache_lookup (cache_ttl w) (clock w 3) (qcache_of sv) s v = Some (hit, why, qc)"
      using r2 sv1(2) by (auto simp: bind_eq_Some_conv)
    show thesis
    proof (cases hit)
      case None
      show thesis
        by (rule miss [OF tv True, of why qc "upd_stats api_stats_note_cache_miss (sv1\<lparr>qcache_of := qc\<rparr>)" "cache_reason_of why"])
          (use None l sv1 r2 in simp_all)
    next
      case (Some data)
      show thesis by (rule hit [OF tv True, of data why qc "sv1\<lparr>qcache_of := qc\<rparr>"]) (use Some l sv1 r2 in simp_all)
    qed
  qed
qed

lemma admissible_select: "is_select s st \<Longrightarrow> admissible d s"
  by (auto simp: admissible_def is_select_def parse_ok_def split: if_splits)

text \<open>Before the query runs: reading the version of the table and looking into the cache keep the invariant.\<close>

lemma tab_ver_srv_ok:
  assumes ok: "srv_ok n k ttl sv" and tv: "db_tab_ver (sdb sv) name = Some (v, db1)"
    and sv2: "sdb sv2 = db1" "cache_ok n k ttl (qcache_of sv2)" "cached (qcache_of sv2) \<subseteq>\<^sub>m cached (qcache_of sv)"
  shows "srv_ok n k ttl sv2" "v \<le> cur_ver (mv (sdb sv2))"
proof -
  obtain cs where cs: "db_inv (sdb sv) cs" "length (snaps (mv (sdb sv))) + 1 < 2 ^ 64" using ok unfolding srv_ok_def by blast
  have ev: "evolves (sdb sv) (sdb sv2)" using tab_ver_evolves [OF cs tv] sv2(1) by simp
  show "srv_ok n k ttl sv2" by (rule srv_ok_step [OF ok ev sv2(2)]) (use map_le_Some [OF sv2(3)] in blast)
  show "v \<le> cur_ver (mv (sdb sv2))"
  proof (cases "0 < v")
    case True
    obtain cs' j t where j: "db_inv db1 cs'" "get_ent db1 name = Some j" "heap_of db1 (snd (tabs db1 ! j)) = Some t" "ver_id t = v"
      using tab_ver_ok [OF cs(1) tv True] by metis
    have jl: "j < length (tabs db1)" using get_ent_Some [OF j(2)] by blast
    have "ver_id (the (heap_of db1 (snd (tabs db1 ! j)))) \<le> cur_ver (mv db1)"
      using j(1) head_in_chain [OF j(1) jl] unfolding db_inv_def versions_ok_def by blast
    then show ?thesis using j(3,4) sv2(1) by simp
  qed (simp add: word_gt_0)
qed

lemma lookup_le:
  assumes "cache_ok n k ttl c" "key \<noteq> []" "query_cache_lookup t now c key v = Some (r, why, c')"
  shows "cache_ok n k ttl c'" "cached c' \<subseteq>\<^sub>m cached c" "r = Some b \<Longrightarrow> \<exists>e. cached c key = Some (b, v, e)"
proof -
  have l: "cache_ok n k ttl c' \<and> (r, why, cached c') = lookup_spec now (cached c) key v"
    by (rule lookup_cache_ok [OF assms(1,2), of t now v]) (use assms(3) in auto)
  then show "cache_ok n k ttl c'" by blast
  show "cached c' \<subseteq>\<^sub>m cached c" using l lookup_spec_le [of now "cached c" key v] by (metis snd_conv)
  show "\<exists>e. cached c key = Some (b, v, e)" if "r = Some b"
    using l that by (auto simp: lookup_spec_def split: option.splits if_splits)
qed

lemma do_sql_ok:
  assumes ok: "srv_ok n k ttl sv" and w: "fair w" and r: "do_sql w sv req = Some (res, sv')"
    and ad: "\<forall>s. asks req s \<longrightarrow> admissible (others w 1 0 (sdb sv)) s"
  shows "srv_ok n k ttl sv'"
proof (cases "\<exists>s. asks req s")
  case False
  then show ?thesis using do_sql_refused [OF _ False r] w ok by (simp add: fair_def)
next
  case True
  then obtain s where s: "asks req s" by blast
  have ne: "s \<noteq> []" using s by (simp add: asks_def)
  have co: "cache_ok n k ttl (qcache_of sv)" using ok by (simp add: srv_ok_def)
  show ?thesis
  proof (cases "\<exists>st. is_select s st")
    case False
    have "sql_miss w req s False 0 ''not_cacheable'' sv = Some (res, sv')" using do_sql_plain [OF s False] r by simp
    moreover have "admissible (others w 1 0 (sdb sv)) s" using ad s by blast
    ultimately show ?thesis using sql_miss_ok [OF ok w _ ne] by blast
  next
    case True
    then obtain st where st: "is_select s st" by blast
    then have cc: "\<exists>st. parse_statement s = Some st \<and> stmt_type st = STMT_SELECT" by (auto simp: is_select_def)
    show ?thesis
    proof (rule do_sql_select [OF s st r], goal_cases hit miss unversioned)
      case (hit v db1 data why qc sv2)
      note l = lookup_le [OF co ne hit(3)]
      have "srv_ok n k ttl sv2" by (rule tab_ver_srv_ok [OF ok hit(1,4)]) (use l hit(5) in simp_all)
      moreover have "sdb sv' = sdb sv2" "qcache_of sv' = qcache_of sv2" using hit(6) by (auto simp: sql_hit_def Let_def)
      ultimately show ?thesis by (simp add: srv_ok_def)
    next
      case (miss v db1 why why' qc sv2)
      note l = lookup_le [OF co ne miss(3)]
      have "srv_ok n k ttl sv2" "v \<le> cur_ver (mv (sdb sv2))"
        by (rule tab_ver_srv_ok [OF ok miss(1,4)], use l miss(5) in simp_all)+
      then show ?thesis using sql_miss_ok [OF _ w admissible_select [OF st] ne miss(6)] cc by blast
    next
      case (unversioned db1 why sv2)
      have "srv_ok n k ttl sv2" "0 \<le> cur_ver (mv (sdb sv2))"
        by (rule tab_ver_srv_ok [OF ok unversioned(1,2)], use co unversioned(3) in simp_all)+
      then show ?thesis using sql_miss_ok [OF _ w admissible_select [OF st] ne unversioned(4)] cc by blast
    qed
  qed
qed

text \<open>A response with code 200 to a SELECT.\<close>

lemma do_sql_answer:
  assumes ok: "srv_ok n k ttl sv" and w: "fair w" and s: "asks req s" "is_select s st"
    and r: "do_sql w sv req = Some (res, sv')" and c: "code res = 200"
  obtains dres lm lu cst why where "res = json_res 200 (ok_text (req_id req) (data_text dres) (thr_id w) lm lu cst why)"
    "\<forall>env io. \<exists>d dres'. db_exec env io (sdb sv') s = Some (True, dres', d) \<and> data_text dres' = data_text dres"
proof -
  have ne: "s \<noteq> []" using s(1) by (simp add: asks_def)
  have co: "cache_ok n k ttl (qcache_of sv)" using ok by (simp add: srv_ok_def)
  have st: "parse_statement s = Some st" "stmt_type st = STMT_SELECT" using s(2) by (simp_all add: is_select_def)
  show thesis
  proof (rule do_sql_select [OF s r], goal_cases hit miss unversioned)
    case (hit v db1 data why qc sv2)
    note l = lookup_le [OF co ne hit(3)]
    have ok2: "srv_ok n k ttl sv2" by (rule tab_ver_srv_ok [OF ok hit(1,4)]) (use l hit(5) in simp_all)
    obtain e where "cached (qcache_of sv) s = Some (data, v, e)" using l(3) by blast
    then have right: "entry_right (sdb sv) s data v" using ok unfolding srv_ok_def by blast
    obtain cs where cs: "db_inv (sdb sv) cs" "length (snaps (mv (sdb sv))) + 1 < 2 ^ 64" using ok unfolding srv_ok_def by blast
    have "entry_right db1 s data v" by (rule entry_right_evolves [OF right tab_ver_evolves [OF cs hit(1)]])
    then obtain st' j where e1: "parse_ok db1 s res_clr = Inr st'" "get_ent db1 (table_name st') = Some j"
      and b: "\<And>t. heap_of db1 (snd (tabs db1 ! j)) = Some t \<Longrightarrow> ver_id t = v \<Longrightarrow> \<exists>res. sel_do t st' res_clr = Some (True, res) \<and> data = data_text res"
      unfolding entry_right_def by blast
    have st': "st' = st" using e1(1) st(1) by (auto simp: parse_ok_def split: if_splits)
    obtain cs1 j' t where t: "db_inv db1 cs1" "get_ent db1 (table_name st) = Some j'" "heap_of db1 (snd (tabs db1 ! j')) = Some t" "ver_id t = v"
      using tab_ver_ok [OF cs(1) hit(1,2)] by metis
    have j': "j' = j" using t(2) e1(2) st' by simp
    obtain res0 where r0: "sel_do t st res_clr = Some (True, res0)" "data = data_text res0" using b t(3,4) j' st' by blast
    have small1: "length (snaps (mv db1)) + 1 < 2 ^ 64" using ok2 hit(4) by (simp add: srv_ok_def)
    have need: "need_ent db1 (table_name st) = Some (Some j, db1)" using t(2) j' by (simp add: need_ent_def)
    obtain u d where u: "heap_of db1 (snd (tabs db1 ! j)) = Some u"
      "\<forall>env io. db_exec env io db1 s = map_option (\<lambda>(ok, res). (ok, res, d)) (sel_do u st (res_clr\<lparr>snap_id := cur_ver (mv db1)\<rparr>))"
      using select_ok [OF t(1) small1 e1(1) [unfolded st'] st(2) need] by metis
    have "u = t" using u(1) t(3) j' by simp
    then have ex: "db_exec env io db1 s = Some (True, label (cur_ver (mv db1)) res0, d)" for env io
      using u(2) r0(1) sel_do_label [of t st "cur_ver (mv db1)" res_clr] by (simp add: label_def)
    have m: "memory w = (\<lambda>_. True)" using w by (simp add: fair_def)
    have "res = json_res 200 (ok_text (req_id req) (data_text res0) (thr_id w) (lat_ms_of (clock w 4 - clock w 0))
        (lat_us_of (clock w 4 - clock w 0)) ''hit'' ''cache_hit'')" "sdb sv' = db1"
      using hit(4,6) r0(2) by (auto simp: sql_hit_def Let_def m sql_ok_data_eq)
    then show thesis using that [of res0] ex data_text_label by blast
  next
    case (miss v db1 why why' qc sv2)
    note l = lookup_le [OF co ne miss(3)]
    have ok2: "srv_ok n k ttl sv2" "v \<le> cur_ver (mv (sdb sv2))"
      by (rule tab_ver_srv_ok [OF ok miss(1,4)], use l miss(5) in simp_all)+
    show thesis using sql_miss_select [OF ok2(1) w st miss(6) c ok2(2)] that by metis
  next
    case (unversioned db1 why sv2)
    have ok2: "srv_ok n k ttl sv2" "0 \<le> cur_ver (mv (sdb sv2))"
      by (rule tab_ver_srv_ok [OF ok unversioned(1,2)], use co unversioned(3) in simp_all)+
    show thesis using sql_miss_select [OF ok2(1) w st unversioned(4) c ok2(2)] that by metis
  qed
qed

subsection \<open>Runs\<close>

text \<open>
  The states of a server that starts with an empty cache on a database just opened. Requests to \<open>/api/v1/sql\<close> are handled, and
  between them statements of other requests change the database.
\<close>

inductive sql_run :: "nat \<Rightarrow> nat \<Rightarrow> ulong \<Rightarrow> srv \<Rightarrow> bool" for n k ttl where
  start: "sdb sv = db_open dir a b disk \<Longrightarrow> qcache_of sv = query_cache_init ttl (query_cache_zero n k) \<Longrightarrow> sql_run n k ttl sv"
| elsewhere: "sql_run n k ttl sv \<Longrightarrow> evolves (sdb sv) d \<Longrightarrow> sql_run n k ttl (sv\<lparr>sdb := d\<rparr>)"
| request: "sql_run n k ttl sv \<Longrightarrow> fair w \<Longrightarrow> \<forall>s. asks req s \<longrightarrow> admissible (others w 1 0 (sdb sv)) s \<Longrightarrow>
    do_sql w sv req = Some (res, sv') \<Longrightarrow> sql_run n k ttl sv'"

lemma open_inv: "db_inv (db_open dir a b d) []" "length (snaps (mv (db_open dir a b d))) + 1 < 2 ^ 64"
proof -
  show "db_inv (db_open dir a b d) []"
    by (simp add: db_inv_def db_open_def chains_ok_def versions_ok_def covered_def mv_inv_new) (simp add: mv_new_def)
  show "length (snaps (mv (db_open dir a b d))) + 1 < 2 ^ 64" by (simp add: db_open_def mv_new_def)
qed

lemma sql_run_ok:
  assumes "sql_run n k ttl sv" "0 < n" "0 < k" "k < 2 ^ 64"
  shows "srv_ok n k ttl sv"
  using assms
proof (induction rule: sql_run.induct)
  case (start sv dir a b disk)
  have inv: "\<exists>cs. db_inv (sdb sv) cs" unfolding start(1) using open_inv(1) by blast
  have sm: "length (snaps (mv (sdb sv))) + 1 < 2 ^ 64" unfolding start(1) by (rule open_inv(2))
  have c: "cache_ok n k ttl (qcache_of sv)" "cached (qcache_of sv) = Map.empty" using init_ok start(2-5) by simp_all
  show ?case unfolding srv_ok_def c(2) by (intro conjI inv sm c(1)) simp
next
  case (elsewhere sv d)
  then have ok: "srv_ok n k ttl sv" by blast
  then have c: "cache_ok n k ttl (qcache_of sv)" by (simp add: srv_ok_def)
  show ?case by (rule srv_ok_step [OF ok]) (use elsewhere.hyps(2) c in simp_all)
next
  case (request sv w req res sv')
  then show ?case using do_sql_ok by blast
qed

end
