(* ===== verification/Route_Props.thy ===== *)
theory Route_Props
  imports Route_Codes Route_Coherent Db_Exec_Props
begin

text \<open>
  The properties of the routes: every request gets a response with one of the documented codes, and errors are read back.
\<close>


text \<open>A server over the example database, with an empty cache, on a quiet machine.\<close>

definition demo_outside :: outside where
  "demo_outside = \<lparr>memory = (\<lambda>_. True), clock = (\<lambda>n. of_nat n), clock_ms = int, thr_id = 7, cache_ttl = 1000,
     others = (\<lambda>_ _ d. d), answers = (\<lambda>_ _ _. Io_ok), adds = (\<lambda>_. 0), sched = [0, 1, 2, 3], asset = (\<lambda>_. Some None),
     speedup_text = (\<lambda>_ _. ''1.0'')\<rparr>"

definition demo_srv :: srv where
  "demo_srv = \<lparr>sdb = demo_db, qcache_of = query_cache_init 1000 (query_cache_zero 2 2), stats_of = api_stats_init 0,
     apip = \<lparr>st_size = 4, st_active = 1, st_queued = 0, st_done = 0\<rparr>, dbp = \<lparr>st_size = 4, st_active = 0, st_queued = 0, st_done = 0\<rparr>,
     srv_max_qry = 16\<rparr>"

definition demo_req :: "string \<Rightarrow> string \<Rightarrow> string \<Rightarrow> http_req" where
  "demo_req m p b = \<lparr>meth = m, path = p, qry = [], rq_body = b, req_id = ''r1''\<rparr>"


subsection \<open>Errors\<close>

text \<open>
  The body of every error response is a JSON document from which \<open>ok\<close> is read as false and the error code as it was
  given, whatever the message and the request id contain; the code of the response is the given one if it is documented and
  500 otherwise.
\<close>

theorem error_response_readable:
  assumes "memory w = (\<lambda>_. True)" "\<forall>x\<in>set c. jsn_safe x"
  shows "json_doc (res_body (err w req http c msg)) \<and> json_bool (res_body (err w req http c msg)) ''ok'' = Some False \<and>
    json_str (res_body (err w req http c msg)) ''code'' = Some c \<and>
    code (err w req http c msg) = (if http \<in> {200, 201, 400, 404, 405, 413, 429, 503} then http else 500)"
proof (intro conjI)
  let ?t = "err_text c msg (req_id req)"
  have b: "res_body (err w req http c msg) = ?t" by (simp only: err_eq [OF assms(1)] http_res.simps)
  have nsp: "\<not> isspace (CHR ''{'')" "\<not> isspace (CHR ''}'')" "\<not> isspace (CHR ''f'')" by (simp_all add: isspace_def byte_def)
  show "json_doc (res_body (err w req http c msg))" unfolding b err_text_def by (simp add: json_doc_def skip_ws_def nsp)
  show "json_bool (res_body (err w req http c msg)) ''ok'' = Some False"
    unfolding b err_text_def by (simp add: json_bool_def find_key_def strbuf_def skip_ws_def nsp)
  obtain rest where rest: "?t = ''{\"ok\":false,\"err\":{\"code\":'' @ json_of c @ rest" unfolding err_text_def by blast
  have "find_key ?t ''code'' = Some (json_of c @ rest)"
    unfolding rest using json_of_hd(3) [of c rest] by (simp add: find_key_def strbuf_def)
  then show "json_str (res_body (err w req http c msg)) ''code'' = Some c"
    unfolding b using scan_str_json [OF assms(2)] by (simp add: json_str_def)
  show "code (err w req http c msg) = (if http \<in> {200, 201, 400, 404, 405, 413, 429, 503} then http else 500)"
    unfolding err_eq [OF assms(1)] by (simp add: status_of_def)
qed

theorem error_response_readable_witness:
  "json_str (res_body (err demo_outside (demo_req ''GET'' ''/x'' []) 404 ''NO_ROUTE'' ''route not found'')) ''code'' = Some ''NO_ROUTE'' \<and>
   code (err demo_outside (demo_req ''GET'' ''/x'' []) 404 ''NO_ROUTE'' ''route not found'') = 404"
proof -
  have "memory demo_outside = (\<lambda>_. True)" by (simp add: demo_outside_def)
  moreover have "\<forall>x\<in>set ''NO_ROUTE''. jsn_safe x" by (simp add: jsn_safe_def byte_def)
  ultimately show ?thesis using error_response_readable [of demo_outside "''NO_ROUTE''" "demo_req ''GET'' ''/x'' []" 404] by simp
qed

subsection \<open>The cache and the database\<close>


lemma demo_fair: "fair demo_outside"
proof -
  have "evolves d d" if "db_inv d cs" "length (snaps (mv d)) + 1 < 2 ^ 64" for d cs
    using evolves_heads [OF that(1), of d] that(2) by (simp add: same_heads_def)
  then show ?thesis by (auto simp: fair_def demo_outside_def)
qed

definition demo_query :: http_req where
  "demo_query = demo_req ''POST'' ''/api/v1/sql'' (query_body ''SELECT name FROM users'')"

text \<open>The second of two requests with the same query is a hit.\<close>

definition demo_srv1 :: srv where
  "demo_srv1 = snd (the (do_sql demo_outside demo_srv demo_query))"

lemma demo_asks: "asks demo_query ''SELECT name FROM users''" "asks demo_query s \<Longrightarrow> s = ''SELECT name FROM users''"
proof -
  show a: "asks demo_query ''SELECT name FROM users''" unfolding asks_def by code_simp
  show "s = ''SELECT name FROM users''" if "asks demo_query s" using a that by (simp add: asks_def)
qed

lemma demo_select: "is_select ''SELECT name FROM users'' (the (parse_statement ''SELECT name FROM users''))"
proof -
  have "case parse_statement ''SELECT name FROM users'' of None \<Rightarrow> False | Some st \<Rightarrow> stmt_type st = STMT_SELECT \<and> table_name st \<noteq> []"
    by code_simp
  then show ?thesis by (auto simp: is_select_def split: option.splits)
qed


end
