(* ===== verification/Server_Props.thy ===== *)
theory Server_Props
  imports Server_Correct Route_Props
begin

text \<open>
  The properties of the server process: connections, the accept loop, and the life of the server from its configuration to
  its end.
\<close>

subsection \<open>Connections\<close>


definition demo_env :: conn_env where
  "demo_env = \<lparr>handler_out = (\<lambda>_. demo_outside), req_seq = (\<lambda>i. of_nat i + 1), between = (\<lambda>_ s. s), parse_time = (\<lambda>_. 5), send_time = (\<lambda>_. 2)\<rparr>"

definition demo_client :: "client_req list" where
  "demo_client =
     [\<lparr>c_meth = ''GET'', c_path = ''/api/v1/health'', c_query = None, c_close = False, c_body = []\<rparr>,
      \<lparr>c_meth = ''GET'', c_path = ''/x'', c_query = Some ''a=1'', c_close = True, c_body = ''hi''\<rparr>]"


text \<open>
  The header of every response of the routes fits the array of \<open>send_res\<close>, so that exactly the header and the body are
  sent, with the length of the body in the header.
\<close>

theorem response_header_fits:
  assumes "memory w = (\<lambda>_. True)" "route_do w sv req = Some (res, sv')" "length (res_body res) < 2 ^ 64"
  shows "length (res_head res cls) < 256 \<and> send_res res cls = Some (res_head res cls @ res_body res)"
proof -
  have "sendable res" using route_sendable [OF assms(1), of sv req] assms(2) unfolding coded_def by blast
  moreover have "length (res_body res) < 10 ^ 20" using assms(3) by (rule less_le_trans) simp
  ultimately show ?thesis using head_fits send_fits by blast
qed

theorem response_header_fits_witness:
  "\<exists>res sv'. route_do demo_outside demo_srv (demo_req ''GET'' ''/x'' []) = Some (res, sv') \<and>
     send_res res True = Some (res_head res True @ res_body res)"
proof -
  let ?r = "route_do demo_outside demo_srv (demo_req ''GET'' ''/x'' [])"
  have "case ?r of None \<Rightarrow> False | Some (res, sv') \<Rightarrow> length (res_body res) < 1000" by code_simp
  then obtain res sv' where r: "?r = Some (res, sv')" "length (res_body res) < 1000" by (auto split: option.splits)
  have "memory demo_outside = (\<lambda>_. True)" by (simp add: demo_outside_def)
  moreover have "length (res_body res) < 2 ^ 64" using r(2) by simp
  ultimately show ?thesis using response_header_fits [OF _ r(1), of True] r(1) by blast
qed

text \<open>
  C27. Whatever a client sends, a connection counts one request and one response, by its kind, for everything it sends, and
  leaves the number of requests in flight as it was; statistics that balance stay so.
\<close>

theorem connection_counts:
  assumes "\<forall>i s. counts (stats_of (between e i s)) = counts (stats_of s)"
    and "conn_run e max_body sock sv = (outs, sv', en)" "en \<noteq> Undefined"
  shows "total_requests (stats_of sv') = total_requests (stats_of sv) + of_nat (length outs) \<and>
    inflight_requests (stats_of sv') = inflight_requests (stats_of sv) \<and> (balanced (stats_of sv) \<longrightarrow> balanced (stats_of sv'))"
  using conn_loop_tally [OF assms(1) assms(2) [unfolded conn_run_def] assms(3)] by (auto simp: tally_def balanced_def answered_def algebra_simps)

theorem connection_counts_witness:
  "\<exists>out sv'. conn_run demo_env 100 [Data ''GET /'', Failed] demo_srv = ([out], sv', Closed) \<and>
     total_requests (stats_of sv') = 1 \<and> inflight_requests (stats_of sv') = 0 \<and> balanced (stats_of sv')"
proof -
  let ?r = "conn_run demo_env 100 [Data ''GET /'', Failed] demo_srv"
  have "case ?r of (outs, sv', en) \<Rightarrow> length outs = 1 \<and> (case en of Closed \<Rightarrow> True | _ \<Rightarrow> False)" by code_simp
  then obtain out sv' where r: "?r = ([out], sv', Closed)" by (auto simp: length_Suc_conv split: conn_end.splits)
  have b: "\<forall>i s. counts (stats_of (between demo_env i s)) = counts (stats_of s)" by (simp add: demo_env_def)
  have "stats_of demo_srv = api_stats_init 0" by (simp add: demo_srv_def)
  then have "balanced (stats_of demo_srv)" "total_requests (stats_of demo_srv) = 0" "inflight_requests (stats_of demo_srv) = 0"
    by (simp_all add: api_stats_init_def balanced_def)
  then show ?thesis using connection_counts [OF b r] r by auto
qed

subsection \<open>The accept loop\<close>

definition queue_holds :: "server \<Rightarrow> int list \<Rightarrow> bool" where
  "queue_holds s js \<longleftrightarrow> jobq_rel (queue (api_pool s)) js \<and> queued (api_pool s) = int (length js)"

definition full_text :: string where
  "full_text = ''{\"ok\":false,\"err\":{\"code\":\"Q_FULL\",\"msg\":\"api queue full\"}}''"

lemma full_res_text: "full_res = json_res 503 full_text"
proof -
  have "builds (\<lambda>mem. map_option (res_set 503) (buf_seq [buf_put mem full_text] buf_init)) 503 (full_text @ [])"
    by (rule builds_seq) (intro appends_all)
  from builds_reply [OF this] show ?thesis by (simp add: full_res_def full_text_def)
qed

lemma full_sent: "send_res full_res True = Some (res_head full_res True @ full_text)"
proof -
  have b: "res_body full_res = full_text" by (simp add: full_res_text)
  have "sendable full_res" unfolding full_res_text by (rule sendable_json) (rule codes_in)
  moreover have "length (res_body full_res) < 10 ^ 20" unfolding b by (simp add: full_text_def)
  ultimately show ?thesis using send_fits [of full_res True] unfolding b by blast
qed

lemma pool_add_holds:
  assumes "queue_holds s js" "\<not> stop (api_pool s)"
  shows "if int (length js) < qmax (api_pool s)
    then \<exists>p. pool_add (api_pool s) j = Some (0, p) \<and> queue_holds (s\<lparr>api_pool := p\<rparr>) (js @ [j]) \<and> qmax p = qmax (api_pool s) \<and> \<not> stop p
    else pool_add (api_pool s) j = Some (- 1, api_pool s)"
proof (cases "int (length js) < qmax (api_pool s)")
  case True
  obtain q where "enqueue (queue (api_pool s)) j = Some q" "jobq_rel q (js @ [j])"
    using jq.rel_enq [of "queue (api_pool s)" js j] assms(1) by (auto simp: queue_holds_def)
  then show ?thesis using True assms by (simp add: pool_add_def queue_holds_def)
qed (use assms in \<open>simp add: pool_add_def queue_holds_def\<close>)

text \<open>
  Backpressure: while no worker is free, the accept loop takes connections into the queue, in order, until it is full, and
  answers every further one with 503 and the code \<open>Q_FULL\<close>, which it counts; no connection is lost.
\<close>

theorem accept_backpressure:
  assumes "queue_holds s js" "\<not> stop (api_pool s)" "\<not> stopped s" "int (length js) \<le> qmax (api_pool s)"
    and "\<forall>a\<in>set evs. 0 \<le> cfd a"
    and "\<forall>a\<in>set evs. \<forall>s. api_pool (meanwhile a s) = api_pool s \<and> stopped (meanwhile a s) = stopped s \<and>
      counts (stats_of (core (meanwhile a s))) = counts (stats_of (core s))"
  shows "\<exists>s'. accept_loop evs s =
      Some (s', map (\<lambda>a. (cfd a, res_head full_res True @ full_text)) (drop (nat (qmax (api_pool s)) - length js) evs), True) \<and>
    queue_holds s' (js @ map cfd (take (nat (qmax (api_pool s)) - length js) evs)) \<and>
    status_503 (stats_of (core s')) = status_503 (stats_of (core s)) + of_nat (length evs - (nat (qmax (api_pool s)) - length js))"
  using assms
proof (induction evs arbitrary: s js)
  case (Cons a evs)
  let ?q = "nat (qmax (api_pool s))"
  let ?s1 = "meanwhile a s"
  have m: "api_pool ?s1 = api_pool s" "stopped ?s1 = stopped s" "counts (stats_of (core ?s1)) = counts (stats_of (core s))"
    and fd: "0 \<le> cfd a" using Cons.prems(5,6) by auto
  have h1: "queue_holds ?s1 js" "\<not> stop (api_pool ?s1)" using Cons.prems(1,2) m by (simp_all add: queue_holds_def)
  note add = pool_add_holds [OF h1, of "cfd a"]
  show ?case
  proof (cases "length js < ?q")
    case True
    then have lt: "int (length js) < qmax (api_pool ?s1)" using m by simp
    obtain p where p: "pool_add (api_pool ?s1) (cfd a) = Some (0, p)" "queue_holds (?s1\<lparr>api_pool := p\<rparr>) (js @ [cfd a])"
      "qmax p = qmax (api_pool s)" "\<not> stop p"
      using add m lt by auto
    let ?s2 = "?s1\<lparr>api_pool := p\<rparr>"
    have room: "?q - length js = Suc (?q - length (js @ [cfd a]))" using True by simp
    have "\<exists>s'. accept_loop evs ?s2 = Some (s', map (\<lambda>a. (cfd a, res_head full_res True @ full_text)) (drop (?q - length (js @ [cfd a])) evs), True) \<and>
        queue_holds s' ((js @ [cfd a]) @ map cfd (take (?q - length (js @ [cfd a])) evs)) \<and>
        status_503 (stats_of (core s')) = status_503 (stats_of (core ?s2)) + of_nat (length evs - (?q - length (js @ [cfd a])))"
      using Cons.IH [OF p(2)] p Cons.prems(3,5,6) m lt by simp
    moreover have "accept_loop (a # evs) s = accept_loop evs ?s2" using p(1) fd m Cons.prems(3) by (simp add: Let_def)
    moreover have "status_503 (stats_of (core ?s2)) = status_503 (stats_of (core s))" using m(3) by (simp add: counts_def)
    ultimately show ?thesis unfolding room by simp
  next
    case False
    then have full: "?q = length js" "\<not> int (length js) < qmax (api_pool ?s1)" using Cons.prems(4) m by auto
    then have p: "pool_add (api_pool ?s1) (cfd a) = Some (- 1, api_pool ?s1)" using add by simp
    let ?s2 = "?s1\<lparr>core := upd_stats api_stats_note_immediate_503 (core ?s1)\<rparr>"
    have h2: "queue_holds ?s2 js" using h1 by (simp add: queue_holds_def)
    have s2: "status_503 (stats_of (core ?s2)) = status_503 (stats_of (core s)) + 1"
      using m(3) by (simp add: counts_def upd_stats_def api_stats_note_immediate_503_def)
    have "\<exists>s'. accept_loop evs ?s2 = Some (s', map (\<lambda>a. (cfd a, res_head full_res True @ full_text)) (drop (?q - length js) evs), True) \<and>
        queue_holds s' (js @ map cfd (take (?q - length js) evs)) \<and>
        status_503 (stats_of (core s')) = status_503 (stats_of (core ?s2)) + of_nat (length evs - (?q - length js))"
      using Cons.IH [OF h2] Cons.prems(2-6) m by simp
    then obtain s' where s': "accept_loop evs ?s2 = Some (s', map (\<lambda>a. (cfd a, res_head full_res True @ full_text)) evs, True)"
      "queue_holds s' js" "status_503 (stats_of (core s')) = status_503 (stats_of (core ?s2)) + of_nat (length evs)"
      using full(1) by auto
    have same: "x\<lparr>api_pool := api_pool x\<rparr> = x" for x :: server by simp
    have "accept_loop (a # evs) s = Some (s', (cfd a, res_head full_res True @ full_text) # map (\<lambda>a. (cfd a, res_head full_res True @ full_text)) evs, True)"
      using p fd m(2) Cons.prems(3) s'(1) full_sent same [of ?s1] by (simp add: Let_def)
    then show ?thesis using s'(2,3) s2 full(1) by simp
  qed
qed simp

definition demo_cfg :: srv_cfg where
  "demo_cfg = \<lparr>cfg_db = Some demo_db, cfg_port = 8080, api_thr = 1, db_thr = 1, que_max = 1, cfg_max_body = 100, cfg_max_sql = 4096, cfg_max_qry = 16\<rparr>"

definition demo_server :: server where
  "demo_server = the (srv_new demo_cfg 1 1 1000 0)"

theorem accept_backpressure_witness:
  "\<exists>s'. accept_loop [\<lparr>meanwhile = \<lambda>s. s, cfd = 5\<rparr>, \<lparr>meanwhile = \<lambda>s. s, cfd = 6\<rparr>] demo_server =
      Some (s', [(6, res_head full_res True @ full_text)], True) \<and> queue_holds s' [5] \<and> status_503 (stats_of (core s')) = 1"
proof -
  have p: "api_pool demo_server = \<lparr>nthr = 1, qmax = 1, stop = False, queued = 0, active = 0, jobs_done = 0, queue = jobq_empty\<rparr>"
    "stopped demo_server = False" "status_503 (stats_of (core demo_server)) = 0"
    by (simp_all add: demo_server_def demo_cfg_def srv_new_def pool_new_def api_stats_init_def)
  have "queue_holds demo_server []" using jq.rel_empty by (simp add: queue_holds_def p(1))
  then show ?thesis
    using accept_backpressure [of demo_server "[]" "[\<lparr>meanwhile = \<lambda>s. s, cfd = 5\<rparr>, \<lparr>meanwhile = \<lambda>s. s, cfd = 6\<rparr>]"] p by simp
qed

subsection \<open>The life of the server\<close>

lemma pool_del_empty:
  assumes "jobq_rel (queue p) js"
  shows "\<exists>q. pool_del p = Some q \<and> jobq_rel q []"
proof -
  obtain as where as: "jobq_is (queue p) as js" using assms by (auto simp: jobq_rel_def)
  have "set as \<subseteq> {..<fresh (queue p)}" "distinct as" "length as = length js" using as by (auto simp: jobq_is_def)
  then have "length js \<le> fresh (queue p)" using card_mono [of "{..<fresh (queue p)}" "set as"] distinct_card [of as] by simp
  then show ?thesis using free_jobs_empty [OF assms] by (simp add: pool_del_def pool_stop_def)
qed

lemma auto_thr_range: "2 \<le> auto_thr ncpu \<and> auto_thr ncpu \<le> 512"
  by (simp add: auto_thr_def)



end
