(* ===== verification/Legacy_Store.thy ===== *)
theory Legacy_Store
  imports Table
begin

text \<open>
  The storage layer of the command line engine, \<open>src/legacy/executor.c\<close>: slots of rows, the free list, the row cache with its
  eviction, the page cache over the CSV file, and the index of the rows that are only in the file.

  \<^item> The arrays of \<open>TableCache\<close> that are indexed by the slot and grow together are one list of records; its length is
    \<open>record_capacity\<close>.
  \<^item> The file behind \<open>tc->file\<close> is its contents; \<^const>\<open>None\<close> is a closed file. Every read flushes first, so what was written is
    read. Positioning and reading succeed, and so does allocation.
  \<^item> A row is a C string: it ends at a NUL.
\<close>

definition INITIAL_RECORD_CAPACITY :: nat where "INITIAL_RECORD_CAPACITY = 1024"
definition ROW_CACHE_LIMIT :: int where "ROW_CACHE_LIMIT = 65536"
definition PAGE_CACHE_PAGE_SIZE :: nat where "PAGE_CACHE_PAGE_SIZE = 65536"
definition PAGE_CACHE_LIMIT :: nat where "PAGE_CACHE_LIMIT = 2048"

datatype row_store = ROW_STORE_NONE | ROW_STORE_CSV | ROW_STORE_MEMORY

record slot =
  rec :: "string option"
  row_id :: int
  ref_store :: row_store
  ref_offset :: int
  row_offset :: int
  store_of :: row_store
  row_cached :: bool
  row_cache_seq :: ulong
  record_active :: bool

record page_entry =
  page_start :: int
  page_data :: string
  page_valid :: bool
  last_used :: ulong

record tcache =
  tc_file :: "string option"
  slots :: "slot list"
  record_count :: nat
  active_count :: int
  cached_record_count :: int
  row_cache_clock :: ulong
  row_cache_evict_cursor :: nat
  free_slots :: "nat list"
  free_capacity :: nat
  page_cache :: "page_entry list"
  page_cache_count :: nat
  page_cache_clock :: ulong
  tail_index :: "(int \<times> int) list"
  tail_capacity :: nat
  append_offset :: int

definition zero_slot :: slot where
  "zero_slot = \<lparr>rec = None, row_id = 0, ref_store = ROW_STORE_NONE, ref_offset = 0, row_offset = 0, store_of = ROW_STORE_NONE,
     row_cached = False, row_cache_seq = 0, record_active = False\<rparr>"

definition zero_page :: page_entry where
  "zero_page = \<lparr>page_start = 0, page_data = [], page_valid = False, last_used = 0\<rparr>"

text \<open>The part of \<open>reset_table_cache\<close> on these fields, and the opened file.\<close>

definition reset_store :: "string option \<Rightarrow> tcache" where
  "reset_store f = \<lparr>tc_file = f, slots = [], record_count = 0, active_count = 0, cached_record_count = 0, row_cache_clock = 0,
     row_cache_evict_cursor = 0, free_slots = [], free_capacity = 0, page_cache = replicate PAGE_CACHE_LIMIT zero_page,
     page_cache_count = 0, page_cache_clock = 0, tail_index = [], tail_capacity = 0, append_offset = - 1\<rparr>"

abbreviation upd_slot :: "nat \<Rightarrow> (slot \<Rightarrow> slot) \<Rightarrow> tcache \<Rightarrow> tcache" where
  "upd_slot i f tc \<equiv> tc\<lparr>slots := (slots tc)[i := f (slots tc ! i)]\<rparr>"

subsection \<open>Capacities\<close>

text \<open>Doubling up to \<open>MAX_RECORDS\<close>; it starts at a capacity that is not 0.\<close>

function record_cap :: "nat \<Rightarrow> nat \<Rightarrow> nat" where
  "record_cap required c =
     (if c < required \<and> 0 < c then if c > MAX_RECORDS div 2 then MAX_RECORDS else record_cap required (c * 2) else c)"
  by pat_completeness auto
termination
  by (relation "measure (\<lambda>(required, c). required - c)") auto

declare record_cap.simps [simp del]

definition ensure_record_capacity :: "tcache \<Rightarrow> nat \<Rightarrow> bool \<times> tcache" where
  "ensure_record_capacity tc required =
     (if required \<le> length (slots tc) then (True, tc)
      else let c = record_cap required (if length (slots tc) > 0 then length (slots tc) else INITIAL_RECORD_CAPACITY) in
        if required > c then (False, tc)
        else (True, tc\<lparr>slots := slots tc @ replicate (c - length (slots tc)) zero_slot\<rparr>))"

function double_until :: "nat \<Rightarrow> nat \<Rightarrow> nat" where
  "double_until required c = (if c < required \<and> 0 < c then double_until required (c * 2) else c)"
  by pat_completeness auto
termination
  by (relation "measure (\<lambda>(required, c). required - c)") auto

declare double_until.simps [simp del]

definition ensure_free_slot_capacity :: "tcache \<Rightarrow> nat \<Rightarrow> tcache" where
  "ensure_free_slot_capacity tc required =
     (if required \<le> free_capacity tc then tc
      else tc\<lparr>free_capacity := double_until required (if free_capacity tc > 0 then free_capacity tc else INITIAL_RECORD_CAPACITY)\<rparr>)"

definition push_free_slot :: "tcache \<Rightarrow> nat \<Rightarrow> tcache" where
  "push_free_slot tc slot_id =
     (let tc1 = ensure_free_slot_capacity tc (length (free_slots tc) + 1) in tc1\<lparr>free_slots := free_slots tc1 @ [slot_id]\<rparr>)"

text \<open>A slot from the end of the free list, or a new one; \<^const>\<open>None\<close> is the result 0.\<close>

definition take_record_slot :: "tcache \<Rightarrow> bool \<Rightarrow> (nat \<times> tcache) option" where
  "take_record_slot tc allow_reuse =
     (if allow_reuse \<and> free_slots tc \<noteq> [] then Some (last (free_slots tc), tc\<lparr>free_slots := butlast (free_slots tc)\<rparr>)
      else if record_count tc \<ge> MAX_RECORDS then None
      else case ensure_record_capacity tc (record_count tc + 1) of
          (False, tc1) \<Rightarrow> None
        | (True, tc1) \<Rightarrow> Some (record_count tc1, tc1\<lparr>record_count := record_count tc1 + 1\<rparr>))"

subsection \<open>Rows that are only in the file\<close>

definition ensure_tail_index_capacity :: "tcache \<Rightarrow> nat \<Rightarrow> tcache" where
  "ensure_tail_index_capacity tc required =
     (if required \<le> tail_capacity tc then tc
      else tc\<lparr>tail_capacity := double_until required (if tail_capacity tc > 0 then tail_capacity tc else INITIAL_RECORD_CAPACITY)\<rparr>)"

text \<open>The insertion from the end: entries with a greater key move up; \<open>xs\<close> is reversed.\<close>

fun tail_shift :: "int \<times> int \<Rightarrow> (int \<times> int) list \<Rightarrow> (int \<times> int) list" where
  "tail_shift x [] = [x]"
| "tail_shift x (y # ys) = (if fst y > fst x then y # tail_shift x ys else x # y # ys)"

definition append_tail_pk_offset :: "tcache \<Rightarrow> int \<Rightarrow> int \<Rightarrow> tcache" where
  "append_tail_pk_offset tc id_value offset =
     (let tc1 = ensure_tail_index_capacity tc (length (tail_index tc) + 1)
      in tc1\<lparr>tail_index := rev (tail_shift (id_value, offset) (rev (tail_index tc1)))\<rparr>)"

text \<open>The binary search between \<open>lo\<close> and \<open>hi\<close>, both included.\<close>

function tail_search :: "(int \<times> int) list \<Rightarrow> int \<Rightarrow> int \<Rightarrow> int \<Rightarrow> int option" where
  "tail_search xs id_value lo hi =
     (if lo \<le> hi then
        let mid = lo + (hi - lo) div 2 in
        if fst (xs ! nat mid) = id_value then Some (snd (xs ! nat mid))
        else if fst (xs ! nat mid) < id_value then tail_search xs id_value (mid + 1) hi
        else tail_search xs id_value lo (mid - 1)
      else None)"
  by pat_completeness auto
termination
  by (relation "measure (\<lambda>(xs, k, lo, hi). nat (hi + 1 - lo))") auto

declare tail_search.simps [simp del]

definition find_tail_pk_offset :: "tcache \<Rightarrow> int \<Rightarrow> int option" where
  "find_tail_pk_offset tc id_value =
     (if tail_index tc = [] then None else tail_search (tail_index tc) id_value 0 (int (length (tail_index tc)) - 1))"

subsection \<open>The page cache\<close>

definition slot_is_active :: "tcache \<Rightarrow> int \<Rightarrow> bool" where
  "slot_is_active tc i \<longleftrightarrow> 0 \<le> i \<and> i < int (record_count tc) \<and> record_active (slots tc ! nat i)"

definition clear_page_cache :: "tcache \<Rightarrow> tcache" where
  "clear_page_cache tc = tc\<lparr>page_cache := map (\<lambda>_. zero_page) (page_cache tc), page_cache_count := 0, page_cache_clock := 0\<rparr>"

definition find_page :: "page_entry list \<Rightarrow> int \<Rightarrow> nat option" where
  "find_page ps start = index_from 0 (\<lambda>p. page_valid p \<and> page_start p = start) ps"

text \<open>The loop that chooses the entry to fill: the first free one, or the one that was not used for longest.\<close>

fun victim_loop :: "page_entry list \<Rightarrow> nat \<Rightarrow> (nat \<times> ulong) option \<Rightarrow> nat option" where
  "victim_loop [] i best = map_option fst best"
| "victim_loop (p # ps) i best =
     (if \<not> page_valid p then Some i
      else victim_loop ps (Suc i)
        (case best of None \<Rightarrow> Some (i, last_used p)
         | Some (j, oldest) \<Rightarrow> if last_used p < oldest then Some (i, last_used p) else Some (j, oldest)))"

definition read_page :: "string \<Rightarrow> int \<Rightarrow> string" where
  "read_page f start = take PAGE_CACHE_PAGE_SIZE (drop (nat start) f)"

text \<open>The number of the entry for an offset.\<close>

definition get_page_cache_entry :: "tcache \<Rightarrow> int \<Rightarrow> nat option \<times> tcache" where
  "get_page_cache_entry tc offset =
     (case tc_file tc of
        None \<Rightarrow> (None, tc)
      | Some f \<Rightarrow>
        if offset < 0 then (None, tc)
        else let start = (offset div int PAGE_CACHE_PAGE_SIZE) * int PAGE_CACHE_PAGE_SIZE; clk = page_cache_clock tc + 1 in
          case find_page (page_cache tc) start of
            Some i \<Rightarrow> (Some i, tc\<lparr>page_cache := (page_cache tc)[i := (page_cache tc ! i)\<lparr>last_used := clk\<rparr>], page_cache_clock := clk\<rparr>)
          | None \<Rightarrow>
            (case victim_loop (page_cache tc) 0 None of
               None \<Rightarrow> (None, tc)
             | Some i \<Rightarrow>
               (Some i, tc\<lparr>page_cache := (page_cache tc)[i := \<lparr>page_start = start, page_data = read_page f start, page_valid = True, last_used = clk\<rparr>],
                  page_cache_clock := clk,
                  page_cache_count := (if page_cache_count tc < length (page_cache tc) then page_cache_count tc + 1 else page_cache_count tc)\<rparr>)))"

definition row_end :: "char \<Rightarrow> bool" where
  "row_end c \<longleftrightarrow> c = CHR 0x0A \<or> c = CHR 0x0D"

definition c_string :: "string \<Rightarrow> string" where
  "c_string s = takeWhile (\<lambda>c. c \<noteq> CHR 0x00) s"

definition read_row_from_page_cache :: "tcache \<Rightarrow> int \<Rightarrow> string option \<times> tcache" where
  "read_row_from_page_cache tc offset =
     (case get_page_cache_entry tc offset of
        (None, tc1) \<Rightarrow> (None, tc1)
      | (Some i, tc1) \<Rightarrow>
        let e = page_cache tc1 ! i; in_page = nat (offset - page_start e) in
        if offset < page_start e \<or> in_page \<ge> length (page_data e) then (None, tc1)
        else let r = takeWhile (\<lambda>c. \<not> row_end c) (drop in_page (page_data e)) in
          if in_page + length r \<ge> length (page_data e) \<and> length r = PAGE_CACHE_PAGE_SIZE - in_page then (None, tc1)
          else (Some (c_string r), tc1))"

text \<open>\<open>fgets\<close> at an offset, with the line cut at its end.\<close>

definition fgets_line :: "string \<Rightarrow> nat \<Rightarrow> string option" where
  "fgets_line f off =
     (let s = drop off f; l = takeWhile (\<lambda>c. c \<noteq> CHR 0x0A) s @ take 1 (dropWhile (\<lambda>c. c \<noteq> CHR 0x0A) s) in
      if s = [] then None else Some (takeWhile (\<lambda>c. \<not> row_end c) (c_string (take (RECORD_SIZE - 1) l))))"

subsection \<open>The row cache\<close>

definition advance_cursor :: "tcache \<Rightarrow> tcache" where
  "advance_cursor tc = tc\<lparr>row_cache_evict_cursor :=
     (if row_cache_evict_cursor tc + 1 \<ge> record_count tc then 0 else row_cache_evict_cursor tc + 1)\<rparr>"

definition evict_at :: "nat \<Rightarrow> tcache \<Rightarrow> tcache" where
  "evict_at i tc = (upd_slot i (\<lambda>s. s\<lparr>rec := None, row_cached := False, row_cache_seq := 0\<rparr>) tc)\<lparr>cached_record_count := cached_record_count tc - 1\<rparr>"

text \<open>The inner loop of the eviction: whether a row was evicted, and how many slots were not looked at.\<close>

fun evict_scan :: "nat \<Rightarrow> tcache \<Rightarrow> bool \<times> nat \<times> tcache" where
  "evict_scan 0 tc = (False, 0, tc)"
| "evict_scan (Suc n) tc =
     (let i = row_cache_evict_cursor tc; s = slots tc ! i; tc1 = advance_cursor tc in
      if \<not> row_cached s \<or> rec s = None then evict_scan n tc1
      else if store_of s = ROW_STORE_MEMORY then evict_scan n tc1
      else (True, n, evict_at i tc1))"

lemma evict_scan_count: "evict_scan n tc = (found, left, tc') \<Longrightarrow> cached_record_count tc' = (if found then cached_record_count tc - 1 else cached_record_count tc)"
  by (induction n tc rule: evict_scan.induct) (auto simp: Let_def evict_at_def advance_cursor_def split: if_splits)

function evict_row_cache_if_needed :: "tcache \<Rightarrow> tcache" where
  "evict_row_cache_if_needed tc =
     (if cached_record_count tc \<ge> ROW_CACHE_LIMIT \<and> record_count tc \<noteq> 0 then
        case evict_scan (record_count tc) tc of
          (found, left, tc1) \<Rightarrow> if found \<and> left \<noteq> 0 then evict_row_cache_if_needed tc1 else tc1
      else tc)"
  by pat_completeness auto
termination
proof (relation "measure (\<lambda>tc. nat (cached_record_count tc + 1 - ROW_CACHE_LIMIT))", goal_cases)
  case (2 tc found y left tc1)
  then have "cached_record_count tc1 = cached_record_count tc - 1" using evict_scan_count [of "record_count tc" tc found left tc1] by simp
  then show ?case using 2 by simp
qed simp

declare evict_row_cache_if_needed.simps [simp del]

definition stamp :: "nat \<Rightarrow> tcache \<Rightarrow> tcache" where
  "stamp i tc = (upd_slot i (\<lambda>s. s\<lparr>row_cached := True, row_cache_seq := row_cache_clock tc + 1\<rparr>) tc)\<lparr>row_cache_clock := row_cache_clock tc + 1\<rparr>"

definition slot_row :: "tcache \<Rightarrow> int \<Rightarrow> string option \<times> tcache" where
  "slot_row tc i =
     (if \<not> slot_is_active tc i then (None, tc)
      else let k = nat i; s = slots tc ! k in
        case rec s of
          Some r \<Rightarrow> (Some r, if store_of s \<noteq> ROW_STORE_MEMORY then stamp k tc else tc)
        | None \<Rightarrow>
          (case tc_file tc of
             None \<Rightarrow> (None, tc)
           | Some f \<Rightarrow>
             if ref_store s \<noteq> ROW_STORE_CSV \<or> ref_offset s < 0 then (None, tc)
             else let tc1 = evict_row_cache_if_needed tc in
               case read_row_from_page_cache tc1 (ref_offset s) of
                 (got, tc2) \<Rightarrow>
                   (case (case got of Some r \<Rightarrow> Some r | None \<Rightarrow> fgets_line f (nat (ref_offset s))) of
                      None \<Rightarrow> (None, tc2)
                    | Some r \<Rightarrow>
                      (Some r, (stamp k (upd_slot k (\<lambda>s. s\<lparr>rec := Some r\<rparr>) tc2))\<lparr>cached_record_count := cached_record_count tc2 + 1\<rparr>))))"

text \<open>The same for a scan, which does not fill the row cache; the flag says that the caller owns the row.\<close>

definition slot_row_scan :: "tcache \<Rightarrow> int \<Rightarrow> string option \<times> bool \<times> tcache" where
  "slot_row_scan tc i =
     (if \<not> slot_is_active tc i then (None, False, tc)
      else let s = slots tc ! nat i in
        case rec s of
          Some r \<Rightarrow> (Some r, False, tc)
        | None \<Rightarrow>
          (case tc_file tc of
             None \<Rightarrow> (None, False, tc)
           | Some f \<Rightarrow>
             if ref_store s \<noteq> ROW_STORE_CSV \<or> ref_offset s < 0 then (None, False, tc)
             else case read_row_from_page_cache tc (ref_offset s) of
                 (got, tc1) \<Rightarrow>
                   let r = (case got of Some r \<Rightarrow> Some r | None \<Rightarrow> fgets_line f (nat (ref_offset s)))
                   in (r, r \<noteq> None, tc1)))"

definition uncount :: "slot \<Rightarrow> tcache \<Rightarrow> int" where
  "uncount s tc = (if row_cached s \<and> cached_record_count tc > 0 then cached_record_count tc - 1 else cached_record_count tc)"

definition assign_slot_row :: "tcache \<Rightarrow> nat \<Rightarrow> string \<Rightarrow> row_store \<Rightarrow> int \<Rightarrow> bool \<Rightarrow> tcache option" where
  "assign_slot_row tc i r store offset cache_row =
     (if i \<ge> length (slots tc) then None
      else let tc1 = (upd_slot i (\<lambda>s. s\<lparr>rec := None, row_cached := False, row_cache_seq := 0, store_of := store, row_offset := offset,
                        ref_store := store, ref_offset := offset\<rparr>) tc)\<lparr>cached_record_count := uncount (slots tc ! i) tc\<rparr> in
        if \<not> cache_row then Some tc1
        else if store \<noteq> ROW_STORE_MEMORY then
          (let tc2 = evict_row_cache_if_needed tc1
           in Some ((stamp i (upd_slot i (\<lambda>s. s\<lparr>rec := Some r\<rparr>) tc2))\<lparr>cached_record_count := cached_record_count tc2 + 1\<rparr>))
        else Some (upd_slot i (\<lambda>s. s\<lparr>rec := Some r\<rparr>) tc1))"

definition deactivate_slot :: "tcache \<Rightarrow> int \<Rightarrow> bool \<Rightarrow> bool \<times> tcache" where
  "deactivate_slot tc i add_to_free_list =
     (if \<not> slot_is_active tc i then (False, tc)
      else let k = nat i;
               tc0 = (if add_to_free_list then ensure_free_slot_capacity tc (length (free_slots tc) + 1) else tc);
               tc1 = (upd_slot k (\<lambda>_. zero_slot) tc0)\<lparr>cached_record_count := uncount (slots tc ! k) tc, active_count := active_count tc - 1\<rparr>
        in (True, if add_to_free_list then tc1\<lparr>free_slots := free_slots tc1 @ [k]\<rparr> else tc1))"

definition activate :: "nat \<Rightarrow> int \<Rightarrow> tcache \<Rightarrow> tcache" where
  "activate i rid tc = (upd_slot i (\<lambda>s. s\<lparr>row_id := rid, record_active := True\<rparr>) tc)\<lparr>active_count := active_count tc + 1\<rparr>"

definition append_record_raw_memory :: "tcache \<Rightarrow> string \<Rightarrow> int \<Rightarrow> int \<Rightarrow> (nat \<times> tcache) option" where
  "append_record_raw_memory tc r rid offset =
     (case take_record_slot tc False of
        None \<Rightarrow> None
      | Some (i, tc1) \<Rightarrow>
        (case assign_slot_row tc1 i r ROW_STORE_CSV offset False of
           None \<Rightarrow> None
         | Some tc2 \<Rightarrow> Some (i, activate i rid tc2)))"

definition replace_record_at :: "tcache \<Rightarrow> int \<Rightarrow> string \<Rightarrow> bool \<times> tcache" where
  "replace_record_at tc i r =
     (if \<not> slot_is_active tc i then (False, tc)
      else let k = nat i in
        (True, (upd_slot k (\<lambda>s. s\<lparr>rec := Some r, store_of := ROW_STORE_MEMORY, row_offset := - 1, ref_store := ROW_STORE_MEMORY,
                  ref_offset := - 1, row_cached := False, row_cache_seq := 0\<rparr>) tc)\<lparr>cached_record_count := uncount (slots tc ! k) tc\<rparr>))"

definition delete_record_at :: "tcache \<Rightarrow> int \<Rightarrow> bool \<times> tcache" where
  "delete_record_at tc i = deactivate_slot tc i True"

text \<open>The old rows, by slot, are put back.\<close>

definition rollback_updated_records :: "tcache \<Rightarrow> string option list \<Rightarrow> tcache" where
  "rollback_updated_records tc old =
     tc\<lparr>slots := map (\<lambda>i. case (if i < record_count tc then old ! i else None) of
          None \<Rightarrow> slots tc ! i
        | Some r \<Rightarrow> (slots tc ! i)\<lparr>rec := Some r, store_of := ROW_STORE_MEMORY, row_offset := - 1, ref_store := ROW_STORE_MEMORY,
            ref_offset := - 1, row_cached := False, row_cache_seq := 0, record_active := True\<rparr>) [0..<length (slots tc)]\<rparr>"

definition append_record_file :: "tcache \<Rightarrow> string \<Rightarrow> bool \<times> tcache" where
  "append_record_file tc r =
     (case tc_file tc of
        None \<Rightarrow> (False, tc)
      | Some f \<Rightarrow>
        (True, tc\<lparr>tc_file := Some (f @ r @ [CHR 0x0A]),
                  append_offset := (if append_offset tc \<ge> 0 then append_offset tc + int (length r) + 1 else append_offset tc)\<rparr>))"

end
