(* ===== verification/Legacy_Row.thy ===== *)
theory Legacy_Row
  imports Legacy_Store
begin

text \<open>
  Rows and values of the command line engine, \<open>src/legacy/executor.c\<close>: fields of CSV rows, comparison, keys, conditions, the
  row that an INSERT or UPDATE writes.

  \<^item> An array of fields is the list of the fields that are there; the others are \<open>NULL\<close>.
  \<^item> The loop that cuts a row at its commas is the one of \<open>split_csv\<close>, with the same bounds.
\<close>

text \<open>A pointer to the index of a unique column: \<open>NULL\<close>, a tree, or a tree that was freed.\<close>

datatype uk_index = No_Index | Index BPlusStringTree | Freed_Index

record ltable =
  l_store :: tcache
  l_cols :: "column list"
  l_pk :: "nat option"
  l_uks :: "nat list"
  id_index :: BPlusTree
  uk_indexes :: "uk_index list"
  next_auto_id :: int
  next_row_id :: int
  cache_truncated :: bool
  uncached_start_offset :: int
  snapshot_dirty :: bool

subsection \<open>Values\<close>

definition trim_and_unquote :: "string \<Rightarrow> string" where
  "trim_and_unquote s =
     (let t = trim s in
      if t \<noteq> [] \<and> hd t = QUOTE \<and> length t > 1 \<and> last t = QUOTE then butlast (tl t) else t)"

definition normalize_value :: "nat \<Rightarrow> string option \<Rightarrow> string" where
  "normalize_value n src = trim_and_unquote (strbuf n (case src of None \<Rightarrow> [] | Some s \<Rightarrow> s))"

definition compare_value :: "string option \<Rightarrow> string option \<Rightarrow> bool" where
  "compare_value fld v \<longleftrightarrow> strcmp (normalize_value 256 fld) (normalize_value 256 v) = 0"

definition parse_long_value :: "string option \<Rightarrow> int option" where
  "parse_long_value v =
     (let buf = normalize_value 256 v in
      if buf = [] \<or> strcmp buf ''NULL'' = 0 then None
      else case strtol buf of (n, e, rest) \<Rightarrow> if rest \<noteq> buf \<and> rest = [] then Some n else None)"

subsection \<open>Rows\<close>

definition parse_csv_row :: "string \<Rightarrow> string list" where
  "parse_csv_row row = split_loop False (MAX_COLS - 1) [] (strbuf RECORD_SIZE row)"

definition field_at :: "string list \<Rightarrow> nat \<Rightarrow> string option" where
  "field_at fs i = (if i < length fs then Some (fs ! i) else None)"

definition copy_csv_field_range :: "string \<Rightarrow> nat \<Rightarrow> string" where
  "copy_csv_field_range s dest_size = trim_and_unquote (take (dest_size - 1) s)"

text \<open>
  The loop that looks for column \<open>col\<close> without copying the row: \<open>cur\<close> is the column it is in, \<open>acc\<close> the field so far. The field
  and what follows it, if the column is there.
\<close>

fun find_field :: "nat \<Rightarrow> nat \<Rightarrow> bool \<Rightarrow> string \<Rightarrow> string \<Rightarrow> (string \<times> string) option" where
  "find_field col cur in_q acc [] = (if cur = col then Some (rev acc, []) else None)"
| "find_field col cur in_q acc (c # cs) =
     (let q = (if c = QUOTE then \<not> in_q else in_q) in
      if (c = CHR '','' \<and> \<not> q) \<or> row_end c then
        if cur = col then Some (rev acc, c # cs)
        else if row_end c then None
        else find_field col (Suc cur) q [] cs
      else find_field col cur q (c # acc) cs)"

definition row_field_equals :: "string \<Rightarrow> nat \<Rightarrow> string \<Rightarrow> bool" where
  "row_field_equals row col v =
     (case find_field col 0 False [] row of
        None \<Rightarrow> False
      | Some (f, rest) \<Rightarrow> strcmp (copy_csv_field_range f RECORD_SIZE) (normalize_value RECORD_SIZE (Some v)) = 0)"

definition get_col_idx :: "ltable \<Rightarrow> string \<Rightarrow> nat option" where
  "get_col_idx l name = (if name = [] then None else index_from 0 (\<lambda>c. strcmp (col_name c) name = 0) (l_cols l))"

definition get_uk_slot :: "ltable \<Rightarrow> nat \<Rightarrow> nat option" where
  "get_uk_slot l col = index_from 0 (\<lambda>u. u = col) (l_uks l)"

definition get_row_pk_value :: "ltable \<Rightarrow> string \<Rightarrow> int option" where
  "get_row_pk_value l row = (case l_pk l of None \<Rightarrow> None | Some p \<Rightarrow> parse_long_value (field_at (parse_csv_row row) p))"

definition get_row_index_key :: "ltable \<Rightarrow> string \<Rightarrow> nat \<Rightarrow> int option" where
  "get_row_index_key l row i =
     (if l_pk l \<noteq> None then get_row_pk_value l row
      else if i \<ge> record_count (l_store l) \<or> row_id (slots (l_store l) ! i) \<le> 0 then None
      else Some (row_id (slots (l_store l) ! i)))"

subsection \<open>Writing rows\<close>

text \<open>A value with a comma is put in quotes, cut to fit the buffer.\<close>

definition format_field :: "string \<Rightarrow> string" where
  "format_field v = (if strchr v (CHR '','') \<noteq> None then strbuf RECORD_SIZE (QUOTE # take (RECORD_SIZE - 3) v @ [QUOTE]) else v)"

text \<open>The row with one more field, if it fits.\<close>

definition append_csv_field :: "string \<Rightarrow> nat \<Rightarrow> string \<Rightarrow> bool \<Rightarrow> string option" where
  "append_csv_field row row_size v is_last =
     (let w = format_field v @ (if is_last then [] else '','') in
      if length w \<ge> row_size - length row then None else Some (row @ w))"

definition build_updated_row :: "ltable \<Rightarrow> string \<Rightarrow> nat \<Rightarrow> string \<Rightarrow> nat \<Rightarrow> string option" where
  "build_updated_row l row set_idx v new_row_size =
     (if set_idx \<ge> length (l_cols l) then None
      else case find_field set_idx 0 False [] row of
          None \<Rightarrow> None
        | Some (f, rest) \<Rightarrow>
          let formatted = strbuf RECORD_SIZE (format_field v); prefix_len = length row - length rest - length f in
          if prefix_len + length formatted + length rest \<ge> new_row_size then None
          else Some (take prefix_len row @ formatted @ rest))"

subsection \<open>Conditions\<close>

definition condition_column_index :: "ltable \<Rightarrow> where_condition \<Rightarrow> nat option" where
  "condition_column_index l c = (if cond_type c = WHERE_NONE then None else get_col_idx l (cond_col c))"

definition compare_range_value :: "ltable \<Rightarrow> nat \<Rightarrow> string option \<Rightarrow> where_condition \<Rightarrow> bool" where
  "compare_range_value l col fld c =
     (case fld of
        None \<Rightarrow> False
      | Some _ \<Rightarrow>
        if l_pk l = Some col then
          (case (parse_long_value fld, parse_long_value (Some (cond_val c)), parse_long_value (Some (cond_end_val c))) of
             (Some k, Some a, Some b) \<Rightarrow> k \<ge> a \<and> k \<le> b
           | _ \<Rightarrow> False)
        else let v = normalize_value RECORD_SIZE fld in
          strcmp v (normalize_value RECORD_SIZE (Some (cond_val c))) \<ge> 0 \<and> strcmp v (normalize_value RECORD_SIZE (Some (cond_end_val c))) \<le> 0)"

definition field_matches :: "ltable \<Rightarrow> string list \<Rightarrow> where_condition \<Rightarrow> bool" where
  "field_matches l fs c =
     (case condition_column_index l c of
        None \<Rightarrow> False
      | Some col \<Rightarrow>
        (case cond_type c of
           WHERE_EQ \<Rightarrow> compare_value (field_at fs col) (Some (cond_val c))
         | WHERE_BETWEEN \<Rightarrow> compare_range_value l col (field_at fs col) c
         | _ \<Rightarrow> False))"

definition row_fields_match_statement :: "ltable \<Rightarrow> statement \<Rightarrow> string list \<Rightarrow> bool" where
  "row_fields_match_statement l st fs = list_all (field_matches l fs) (where_conditions st)"

definition row_matches_statement :: "ltable \<Rightarrow> statement \<Rightarrow> string \<Rightarrow> bool" where
  "row_matches_statement l st row =
     (case where_conditions st of
        [] \<Rightarrow> True
      | [c] \<Rightarrow>
        if cond_type c = WHERE_EQ then
          (case condition_column_index l c of None \<Rightarrow> False | Some col \<Rightarrow> row_field_equals row col (cond_val c))
        else row_fields_match_statement l st (parse_csv_row row)
      | _ \<Rightarrow> row_fields_match_statement l st (parse_csv_row row))"

definition validate_where_columns :: "ltable \<Rightarrow> statement \<Rightarrow> bool" where
  "validate_where_columns l st = list_all (\<lambda>c. condition_column_index l c \<noteq> None) (where_conditions st)"

text \<open>A row that was selected is counted and, if results are shown, printed: all of it, or the chosen columns.\<close>

fun commas :: "string list \<Rightarrow> string" where
  "commas [] = []"
| "commas [f] = f"
| "commas (f # fs) = f @ '','' @ commas fs"

record exec_context =
  select_idx :: "nat list"
  exec_select_all :: bool
  emit_results :: bool
  matched_rows :: int
  printed :: string

definition emit_selected_row :: "string \<Rightarrow> exec_context \<Rightarrow> exec_context" where
  "emit_selected_row row ctx =
     (let ctx1 = ctx\<lparr>matched_rows := matched_rows ctx + 1\<rparr> in
      if \<not> emit_results ctx then ctx1
      else if exec_select_all ctx then ctx1\<lparr>printed := printed ctx @ row @ [CHR 0x0A]\<rparr>
      else ctx1\<lparr>printed := printed ctx @
        commas (map (\<lambda>i. case field_at (parse_csv_row row) i of None \<Rightarrow> [] | Some f \<Rightarrow> f) (select_idx ctx)) @ [CHR 0x0A]\<rparr>)"

end
