(* ===== verification/Legacy_Delta.thy ===== *)
theory Legacy_Delta
  imports Legacy_Row
begin

text \<open>
  The delta log of the command line engine, \<open>src/legacy/executor.c\<close>: UPDATE and DELETE append lines to a log, in batches
  between \<open>B\<close> and \<open>E\<close>; when a table is loaded, the batches that are complete are applied.

  \<^item> The log is the text of its file. Writing to it succeeds.
  \<^item> Replaying gives the batches that \<open>replay_delta_log\<close> hands to \<open>apply_delta_ops\<close>, in order, as long as that succeeds.
\<close>

definition DELTA_LINE_SIZE :: nat where "DELTA_LINE_SIZE = RECORD_SIZE + 128"

definition LF :: char where "LF = CHR 0x0A"
definition TAB :: char where "TAB = CHR 0x09"

datatype delta_op = Delta_U int string | Delta_D int

record delta =
  delta_text :: string
  delta_batch_open :: bool
  delta_ops_since_compact_check :: int
  delta_bytes_since_compact :: int

subsection \<open>Writing\<close>

text \<open>\<open>track_delta_write\<close> after \<open>fprintf\<close>.\<close>

definition delta_print :: "string \<Rightarrow> delta \<Rightarrow> delta" where
  "delta_print s d = d\<lparr>delta_text := delta_text d @ s, delta_bytes_since_compact := delta_bytes_since_compact d + int (length s)\<rparr>"

definition begin_delta_batch :: "delta \<Rightarrow> delta" where
  "begin_delta_batch d = (if delta_batch_open d then d else (delta_print [CHR ''B'', LF] d)\<lparr>delta_batch_open := True\<rparr>)"

definition close_delta_batch :: "delta \<Rightarrow> delta" where
  "close_delta_batch d = (if \<not> delta_batch_open d then d else (delta_print [CHR ''E'', LF] d)\<lparr>delta_batch_open := False\<rparr>)"

definition clear_delta_log :: "delta \<Rightarrow> delta" where
  "clear_delta_log d = \<lparr>delta_text = [], delta_batch_open = False, delta_ops_since_compact_check = 0, delta_bytes_since_compact = 0\<rparr>"

fun op_line :: "delta_op \<Rightarrow> string" where
  "op_line (Delta_U k row) = CHR ''U'' # TAB # show_long k @ TAB # row @ [LF]"
| "op_line (Delta_D k) = CHR ''D'' # TAB # show_long k @ [LF]"

definition append_delta_update_key :: "delta \<Rightarrow> int \<Rightarrow> string \<Rightarrow> delta" where
  "append_delta_update_key d k row = delta_print (op_line (Delta_U k row)) (begin_delta_batch d)"

definition append_delta_delete_key :: "delta \<Rightarrow> int \<Rightarrow> delta" where
  "append_delta_delete_key d k = delta_print (op_line (Delta_D k)) (begin_delta_batch d)"

definition append_delta_update_slot :: "ltable \<Rightarrow> delta \<Rightarrow> nat \<Rightarrow> string \<Rightarrow> bool \<times> delta" where
  "append_delta_update_slot l d i row =
     (if \<not> slot_is_active (l_store l) (int i) then (False, d)
      else case get_row_index_key l row i of None \<Rightarrow> (False, d) | Some k \<Rightarrow> (True, append_delta_update_key d k row))"

definition append_delta_delete_slot :: "ltable \<Rightarrow> delta \<Rightarrow> nat \<Rightarrow> string \<Rightarrow> bool \<times> delta" where
  "append_delta_delete_slot l d i old =
     (if i \<ge> record_count (l_store l) then (False, d)
      else case get_row_index_key l old i of None \<Rightarrow> (False, d) | Some k \<Rightarrow> (True, append_delta_delete_key d k))"

text \<open>The loops over the changed rows: the batch is open.\<close>

fun delete_lines :: "ltable \<Rightarrow> (nat \<times> string) list \<Rightarrow> delta \<Rightarrow> bool \<times> delta" where
  "delete_lines l [] d = (True, d)"
| "delete_lines l ((i, old) # rest) d =
     (case get_row_index_key l old i of None \<Rightarrow> (False, d) | Some k \<Rightarrow> delete_lines l rest (delta_print (op_line (Delta_D k)) d))"

definition append_delta_deletes :: "ltable \<Rightarrow> delta \<Rightarrow> string list \<Rightarrow> bool list \<Rightarrow> bool \<times> delta" where
  "append_delta_deletes l d old flags =
     delete_lines l (map (\<lambda>i. (i, old ! i)) (filter (\<lambda>i. flags ! i) [0..<length old])) (begin_delta_batch d)"

fun update_lines :: "ltable \<Rightarrow> nat list \<Rightarrow> delta \<Rightarrow> bool \<times> ltable \<times> delta" where
  "update_lines l [] d = (True, l, d)"
| "update_lines l (i # is) d =
     (if \<not> slot_is_active (l_store l) (int i) then update_lines l is d
      else case slot_row (l_store l) (int i) of
          (None, st) \<Rightarrow> (False, l\<lparr>l_store := st\<rparr>, d)
        | (Some row, st) \<Rightarrow>
          (case get_row_index_key l row i of
             None \<Rightarrow> (False, l\<lparr>l_store := st\<rparr>, d)
           | Some k \<Rightarrow> update_lines (l\<lparr>l_store := snd (slot_row st (int i))\<rparr>) is (delta_print (op_line (Delta_U k row)) d)))"

definition append_delta_updates :: "ltable \<Rightarrow> delta \<Rightarrow> string option list \<Rightarrow> bool \<times> ltable \<times> delta" where
  "append_delta_updates l d old =
     update_lines l (filter (\<lambda>i. old ! i \<noteq> None) [0..<record_count (l_store l)]) (begin_delta_batch d)"

subsection \<open>Replaying\<close>

text \<open>One \<open>fgets\<close>: the line with its end, and the rest.\<close>

definition fgets_split :: "nat \<Rightarrow> string \<Rightarrow> string \<times> string" where
  "fgets_split n s =
     (let l = takeWhile (\<lambda>c. c \<noteq> LF) s; k = min (n - 1) (if length l < length s then length l + 1 else length l)
      in (take k s, drop k s))"

definition read_op :: "string \<Rightarrow> delta_op option" where
  "read_op line =
     (case line of
        CHR ''U'' # t # id_text \<Rightarrow>
          if t = TAB then
            (case strchr id_text TAB of
               None \<Rightarrow> None
             | Some r \<Rightarrow> map_option (\<lambda>k. Delta_U k (tl r)) (parse_long_value (Some (take (length id_text - length r) id_text))))
          else None
      | CHR ''D'' # t # id_text \<Rightarrow> if t = TAB then map_option Delta_D (parse_long_value (Some id_text)) else None
      | _ \<Rightarrow> None)"

lemma fgets_split_less: "s \<noteq> [] \<Longrightarrow> 1 < n \<Longrightarrow> fgets_split n s = (raw, rest) \<Longrightarrow> length rest < length s"
proof -
  assume a: "s \<noteq> []" "1 < n" "fgets_split n s = (raw, rest)"
  let ?l = "takeWhile (\<lambda>c. c \<noteq> LF) s"
  have "0 < (if length ?l < length s then length ?l + 1 else length ?l)" using a(1) by auto
  then have "0 < min (n - 1) (if length ?l < length s then length ?l + 1 else length ?l)" using a(2) by simp
  moreover have "rest = drop (min (n - 1) (if length ?l < length s then length ?l + 1 else length ?l)) s"
    using a(3) unfolding fgets_split_def Let_def by (simp only: prod.inject)
  ultimately obtain k where "0 < k" "rest = drop k s" by blast
  then show ?thesis using a(1) by (cases s) (auto simp: less_Suc_eq_le)
qed

lemma DELTA_LINE_SIZE_gt: "1 < DELTA_LINE_SIZE"
  by (simp add: DELTA_LINE_SIZE_def RECORD_SIZE_def)

text \<open>The lines of the log: whether all of it could be read, and the batches to apply.\<close>

function replay_delta_log :: "string \<Rightarrow> bool \<Rightarrow> delta_op list \<Rightarrow> bool \<times> delta_op list list" where
  "replay_delta_log s in_batch ops =
     (if s = [] then (True, [])
      else let (raw, rest) = fgets_split DELTA_LINE_SIZE s; line0 = c_string raw; line = takeWhile (\<lambda>c. \<not> row_end c) line0 in
        if list_all (\<lambda>c. \<not> row_end c) line0 \<and> length line0 = DELTA_LINE_SIZE - 1 then (False, [])
        else if line = ''B'' then replay_delta_log rest True []
        else if line = ''E'' then
          (case replay_delta_log rest False [] of (ok, bs) \<Rightarrow> (ok, if in_batch then ops # bs else bs))
        else replay_delta_log rest in_batch (ops @ (if in_batch then (case read_op line of None \<Rightarrow> [] | Some x \<Rightarrow> [x]) else [])))"
  by pat_completeness auto
termination
proof (relation "measure (\<lambda>(s, in_batch, ops). length s)", goal_cases)
  case (2 s in_batch ops x raw rest)
  then show ?case using fgets_split_less [OF _ DELTA_LINE_SIZE_gt, of s raw rest] by simp
next
  case (3 s in_batch ops x raw rest)
  then show ?case using fgets_split_less [OF _ DELTA_LINE_SIZE_gt, of s raw rest] by simp
next
  case (4 s in_batch ops x raw rest)
  then show ?case using fgets_split_less [OF _ DELTA_LINE_SIZE_gt, of s raw rest] by simp
qed simp

declare replay_delta_log.simps [simp del]

end
