(* ===== verification/Legacy_Index.thy ===== *)
theory Legacy_Index
  imports Legacy_Delta Bptree_Build
begin

text \<open>
  The indexes of the command line engine, \<open>src/legacy/executor.c\<close>: the tree over the keys of the rows, and a tree for each
  unique column. They map keys to slots. An entry whose slot is not active is stale and counts as absent.

  \<^item> An outer \<^const>\<open>None\<close> is an access outside of the arrays of a tree or to a freed tree.
  \<^item> The result of a C function is a Boolean, where it tells 1 from 0.
  \<^item> \<open>qsort\<close> sorts. Pairs with equal keys may get any order, and the trees refuse them.
\<close>

subsection \<open>Lookup\<close>

definition ensure_uk_indexes :: "ltable \<Rightarrow> ltable" where
  "ensure_uk_indexes l =
     l\<lparr>uk_indexes := map (\<lambda>x. case x of No_Index \<Rightarrow> Index bptree_string_create | _ \<Rightarrow> x) (uk_indexes l)\<rparr>"

definition unique_index_find :: "ltable \<Rightarrow> nat \<Rightarrow> string \<Rightarrow> lookup_result" where
  "unique_index_find l u key =
     (if key = [] then Absent
      else case uk_indexes l ! u of
          No_Index \<Rightarrow> Absent
        | Freed_Index \<Rightarrow> Wild
        | Index t \<Rightarrow>
          (case bptree_string_search t key of
             Found r \<Rightarrow> if slot_is_active (l_store l) r then Found r else Absent
           | res \<Rightarrow> res))"

definition find_uk_row :: "ltable \<Rightarrow> nat \<Rightarrow> string \<Rightarrow> lookup_result \<times> ltable" where
  "find_uk_row l col v =
     (case get_uk_slot l col of
        None \<Rightarrow> (Absent, l)
      | Some u \<Rightarrow>
        let l1 = ensure_uk_indexes l; key = normalize_value RECORD_SIZE (Some v)
        in (if key = [] then Absent else unique_index_find l1 u key, l1))"

definition find_pk_row :: "ltable \<Rightarrow> string \<Rightarrow> lookup_result" where
  "find_pk_row l v =
     (if l_pk l = None then Absent
      else case parse_long_value (Some v) of
          None \<Rightarrow> Absent
        | Some key \<Rightarrow>
          (case bptree_search (id_index l) key of
             Found r \<Rightarrow> if slot_is_active (l_store l) r then Found r else Absent
           | res \<Rightarrow> res))"

text \<open>The loop over the slots, when the index does not have the key.\<close>

fun find_by_scan :: "ltable \<Rightarrow> int \<Rightarrow> nat list \<Rightarrow> int \<times> ltable" where
  "find_by_scan l k [] = (- 1, l)"
| "find_by_scan l k (i # is) =
     (case slot_row (l_store l) (int i) of
        (None, st) \<Rightarrow> find_by_scan (l\<lparr>l_store := st\<rparr>) k is
      | (Some row, st) \<Rightarrow>
        let l1 = l\<lparr>l_store := st\<rparr> in
        if get_row_index_key l1 row i = Some k then (int i, l1) else find_by_scan l1 k is)"

definition find_record_index_by_key :: "ltable \<Rightarrow> int \<Rightarrow> (int \<times> ltable) option" where
  "find_record_index_by_key l k =
     (case bptree_search (id_index l) k of
        Wild \<Rightarrow> None
      | Found r \<Rightarrow> Some (if slot_is_active (l_store l) r then (r, l) else find_by_scan l k [0..<record_count (l_store l)])
      | Absent \<Rightarrow> Some (find_by_scan l k [0..<record_count (l_store l)]))"

subsection \<open>Rebuilding\<close>

text \<open>The rows of the slots, as far as their keys can be read.\<close>

fun index_pairs :: "ltable \<Rightarrow> nat list \<Rightarrow> (int \<times> int) list option \<times> ltable" where
  "index_pairs l [] = (Some [], l)"
| "index_pairs l (i # is) =
     (case slot_row (l_store l) (int i) of
        (None, st) \<Rightarrow> index_pairs (l\<lparr>l_store := st\<rparr>) is
      | (Some row, st) \<Rightarrow>
        let l1 = l\<lparr>l_store := st\<rparr> in
        case get_row_index_key l1 row i of
          None \<Rightarrow> (None, l1)
        | Some k \<Rightarrow> (case index_pairs l1 is of (ps, l2) \<Rightarrow> (map_option (\<lambda>ps. (k, int i) # ps) ps, l2)))"

text \<open>The array of the pairs has room for \<open>active_count\<close>.\<close>

definition rebuild_id_index :: "ltable \<Rightarrow> (bool \<times> ltable) option" where
  "rebuild_id_index l =
     (case index_pairs l [0..<record_count (l_store l)] of
        (None, l1) \<Rightarrow> Some (False, l1)
      | (Some ps, l1) \<Rightarrow>
        if int (length ps) > active_count (l_store l) then None
        else case bptree_build_from_sorted bptree_create (if ascending long_cmp ps then ps else sort_key fst ps) of
            None \<Rightarrow> None
          | Some (ok, t) \<Rightarrow>
            if \<not> ok then Some (False, l1)
            else Some (True, l1\<lparr>id_index := t,
              next_auto_id := (if l_pk l1 = None then next_auto_id l1 else fold (\<lambda>(k, _) n. if k \<ge> n then wrap64 (k + 1) else n) ps 1)\<rparr>))"

definition row_uk :: "string \<Rightarrow> nat \<Rightarrow> string" where
  "row_uk row col = normalize_value RECORD_SIZE (field_at (parse_csv_row row) col)"

fun slot_rows :: "ltable \<Rightarrow> nat list \<Rightarrow> (nat \<times> string) list \<times> ltable" where
  "slot_rows l [] = ([], l)"
| "slot_rows l (i # is) =
     (case slot_row (l_store l) (int i) of
        (None, st) \<Rightarrow> slot_rows (l\<lparr>l_store := st\<rparr>) is
      | (Some row, st) \<Rightarrow> (case slot_rows (l\<lparr>l_store := st\<rparr>) is of (rs, l1) \<Rightarrow> ((i, row) # rs, l1)))"

definition uk_pairs :: "(nat \<times> string) list \<Rightarrow> nat \<Rightarrow> (string \<times> int) list" where
  "uk_pairs rs col = filter (\<lambda>p. fst p \<noteq> []) (map (\<lambda>(i, row). (row_uk row col, int i)) rs)"

text \<open>
  The last loop: a new tree replaces the old one. When building a tree fails, all new trees are freed, those that were
  already put into the table too.
\<close>

fun install_uks :: "(nat \<times> string) list \<Rightarrow> nat list \<Rightarrow> nat \<Rightarrow> uk_index list \<Rightarrow> (bool \<times> uk_index list) option" where
  "install_uks rs [] u ix = Some (True, ix)"
| "install_uks rs (col # rest) u ix =
     (case bptree_string_build_from_sorted bptree_string_create (sort_key fst (uk_pairs rs col)) of
        None \<Rightarrow> None
      | Some (ok, t) \<Rightarrow>
        if \<not> ok then Some (False, map (\<lambda>j. if j < u then Freed_Index else ix ! j) [0..<length ix])
        else if ix ! u = Freed_Index then None
        else install_uks rs rest (Suc u) (ix[u := Index t]))"

definition rebuild_uk_indexes :: "ltable \<Rightarrow> (bool \<times> ltable) option" where
  "rebuild_uk_indexes l =
     (case slot_rows l [0..<record_count (l_store l)] of
        (rs, l1) \<Rightarrow>
          if l_uks l \<noteq> [] \<and> int (length rs) > active_count (l_store l) then None
          else map_option (\<lambda>(ok, ix). (ok, l1\<lparr>uk_indexes := ix\<rparr>)) (install_uks rs (l_uks l1) 0 (uk_indexes l1)))"

subsection \<open>Entries of one row\<close>

definition put_uk :: "ltable \<Rightarrow> nat \<Rightarrow> BPlusStringTree \<Rightarrow> string \<Rightarrow> nat \<Rightarrow> (int \<times> ltable) option" where
  "put_uk l u t key i = map_option (\<lambda>(r, t1). (r, l\<lparr>uk_indexes := (uk_indexes l)[u := Index t1]\<rparr>)) (bptree_string_insert t key (int i))"

definition unique_index_insert :: "ltable \<Rightarrow> nat \<Rightarrow> string \<Rightarrow> nat \<Rightarrow> (int \<times> ltable) option" where
  "unique_index_insert l u key i =
     (if key = [] then Some (1, l)
      else case uk_indexes l ! u of
          No_Index \<Rightarrow> Some (1, l)
        | Freed_Index \<Rightarrow> None
        | Index t \<Rightarrow>
          (case bptree_string_search t key of
             Wild \<Rightarrow> None
           | Absent \<Rightarrow> put_uk l u t key i
           | Found r \<Rightarrow>
             if r \<noteq> int i \<and> slot_is_active (l_store l) r then Some (0, l)
             else case bptree_string_delete t key of
                 None \<Rightarrow> None
               | Some (True, t1) \<Rightarrow> put_uk l u t1 key i
               | Some (False, t1) \<Rightarrow>
                 (case rebuild_uk_indexes (l\<lparr>uk_indexes := (uk_indexes l)[u := Index t1]\<rparr>) of
                    None \<Rightarrow> None
                  | Some (False, l1) \<Rightarrow> Some (0, l1)
                  | Some (True, l1) \<Rightarrow>
                    (case get_uk_slot l1 (l_uks l ! u) of
                       None \<Rightarrow> Some (0, l1)
                     | Some j \<Rightarrow> (case uk_indexes l1 ! j of Index t2 \<Rightarrow> put_uk l1 j t2 key i | _ \<Rightarrow> None)))))"

text \<open>The loop over the unique columns \<open>us\<close>, by their numbers.\<close>

fun index_uks :: "ltable \<Rightarrow> string \<Rightarrow> nat \<Rightarrow> nat list \<Rightarrow> (bool \<times> ltable) option" where
  "index_uks l row i [] = Some (True, l)"
| "index_uks l row i (u # us) =
     (let key = row_uk row (l_uks l ! u) in
      if key = [] then index_uks l row i us
      else case unique_index_insert l u key i of
          None \<Rightarrow> None
        | Some (r, l1) \<Rightarrow> if r \<noteq> 1 then Some (False, l1) else index_uks l1 row i us)"

definition index_record_uks_from_row :: "ltable \<Rightarrow> string \<Rightarrow> nat \<Rightarrow> (bool \<times> ltable) option" where
  "index_record_uks_from_row l row i =
     (if l_uks l = [] then Some (True, l) else index_uks (ensure_uk_indexes l) row i [0..<length (l_uks l)])"

definition index_record_uks :: "ltable \<Rightarrow> nat \<Rightarrow> (bool \<times> ltable) option" where
  "index_record_uks l i =
     (if l_uks l = [] then Some (True, l)
      else case slot_row (l_store l) (int i) of
          (None, st) \<Rightarrow> Some (True, (ensure_uk_indexes l)\<lparr>l_store := st\<rparr>)
        | (Some row, st) \<Rightarrow> index_uks ((ensure_uk_indexes l)\<lparr>l_store := st\<rparr>) row i [0..<length (l_uks l)])"

definition index_record_single_uk :: "ltable \<Rightarrow> nat \<Rightarrow> nat \<Rightarrow> (int \<times> ltable) option" where
  "index_record_single_uk l i col =
     (case get_uk_slot l col of
        None \<Rightarrow> Some (1, l)
      | Some u \<Rightarrow>
        (case slot_row (l_store l) (int i) of
           (None, st) \<Rightarrow> Some (0, (ensure_uk_indexes l)\<lparr>l_store := st\<rparr>)
         | (Some row, st) \<Rightarrow> unique_index_insert ((ensure_uk_indexes l)\<lparr>l_store := st\<rparr>) u (row_uk row col) i))"

definition drop_uk :: "ltable \<Rightarrow> nat \<Rightarrow> string \<Rightarrow> (bool \<times> ltable) option" where
  "drop_uk l u key =
     (case uk_indexes l ! u of
        Index t \<Rightarrow> map_option (\<lambda>(ok, t1). (ok, l\<lparr>uk_indexes := (uk_indexes l)[u := Index t1]\<rparr>)) (bptree_string_delete t key)
      | _ \<Rightarrow> None)"

definition remove_record_single_uk :: "ltable \<Rightarrow> string \<Rightarrow> nat \<Rightarrow> (bool \<times> ltable) option" where
  "remove_record_single_uk l row col =
     (case get_uk_slot l col of
        None \<Rightarrow> Some (True, l)
      | Some u \<Rightarrow> if row_uk row col = [] then Some (True, ensure_uk_indexes l) else drop_uk (ensure_uk_indexes l) u (row_uk row col))"

fun drop_uks :: "ltable \<Rightarrow> string \<Rightarrow> nat list \<Rightarrow> (bool \<times> ltable) option" where
  "drop_uks l row [] = Some (True, l)"
| "drop_uks l row (u # us) =
     (let key = row_uk row (l_uks l ! u) in
      if key = [] then drop_uks l row us
      else case drop_uk l u key of
          None \<Rightarrow> None
        | Some (ok, l1) \<Rightarrow> if \<not> ok then Some (False, l1) else drop_uks l1 row us)"

definition remove_record_uk_indexes :: "ltable \<Rightarrow> string \<Rightarrow> (bool \<times> ltable) option" where
  "remove_record_uk_indexes l row =
     (if l_uks l = [] then Some (True, l) else drop_uks (ensure_uk_indexes l) row [0..<length (l_uks l)])"

definition restore_record_indexes :: "ltable \<Rightarrow> nat \<Rightarrow> (bool \<times> ltable) option" where
  "restore_record_indexes l i =
     (if \<not> slot_is_active (l_store l) (int i) then Some (False, l)
      else case slot_row (l_store l) (int i) of
          (None, st) \<Rightarrow> Some (False, l\<lparr>l_store := st\<rparr>)
        | (Some row, st) \<Rightarrow>
          (case get_row_index_key (l\<lparr>l_store := st\<rparr>) row i of
             None \<Rightarrow> Some (False, l\<lparr>l_store := st\<rparr>)
           | Some k \<Rightarrow>
             (case bptree_insert (id_index l) k (int i) of
                None \<Rightarrow> None
              | Some (r, t) \<Rightarrow>
                let l1 = l\<lparr>l_store := st, id_index := t\<rparr> in
                if r \<noteq> 1 then Some (False, l1) else index_record_uks l1 i)))"

subsection \<open>A new row\<close>

text \<open>
  A key that the index still has is free if its slot is the new one or is not active; the old entry is then removed. The flag
  tells whether the key could be claimed.
\<close>

definition claim_key :: "ltable \<Rightarrow> int \<Rightarrow> nat \<Rightarrow> (bool \<times> ltable) option" where
  "claim_key l k i =
     (case bptree_search (id_index l) k of
        Wild \<Rightarrow> None
      | Absent \<Rightarrow> Some (True, l)
      | Found r \<Rightarrow>
        if r \<noteq> int i \<and> slot_is_active (l_store l) r then Some (False, l)
        else case bptree_delete (id_index l) k of
            None \<Rightarrow> None
          | Some (True, t) \<Rightarrow> Some (True, l\<lparr>id_index := t\<rparr>)
          | Some (False, t) \<Rightarrow> rebuild_id_index (l\<lparr>id_index := t\<rparr>))"

definition drop_slot :: "ltable \<Rightarrow> nat \<Rightarrow> ltable" where
  "drop_slot l i = l\<lparr>l_store := snd (deactivate_slot (l_store l) (int i) True)\<rparr>"

definition note_key :: "int \<Rightarrow> ltable \<Rightarrow> ltable" where
  "note_key k l = (if l_pk l \<noteq> None \<and> k \<ge> next_auto_id l then l\<lparr>next_auto_id := wrap64 (k + 1)\<rparr> else l)"

text \<open>The number of the slot, if the row was added.\<close>

definition append_record_csv_indexed :: "ltable \<Rightarrow> string \<Rightarrow> int \<Rightarrow> int \<Rightarrow> (nat option \<times> ltable) option" where
  "append_record_csv_indexed l row id_value off =
     (case take_record_slot (l_store l) True of
        None \<Rightarrow> Some (None, l)
      | Some (i, st1) \<Rightarrow>
        let rid = next_row_id l; l0 = l\<lparr>next_row_id := wrap64 (rid + 1)\<rparr>; k = (if l_pk l \<noteq> None then id_value else rid) in
        case assign_slot_row st1 i row ROW_STORE_CSV off False of
          None \<Rightarrow> Some (None, l0\<lparr>l_store := push_free_slot st1 i\<rparr>)
        | Some st2 \<Rightarrow>
          (case claim_key (l0\<lparr>l_store := activate i rid st2\<rparr>) k i of
             None \<Rightarrow> None
           | Some (False, l1) \<Rightarrow> Some (None, drop_slot l1 i)
           | Some (True, l1) \<Rightarrow>
             (case bptree_insert (id_index l1) k (int i) of
                None \<Rightarrow> None
              | Some (r, t) \<Rightarrow>
                let l2 = l1\<lparr>id_index := t\<rparr> in
                if r \<noteq> 1 then Some (None, drop_slot l2 i)
                else case index_record_uks_from_row l2 row i of
                    None \<Rightarrow> None
                  | Some (ok, l3) \<Rightarrow> if ok then Some (Some i, note_key id_value l3) else Some (None, drop_slot l3 i))))"

text \<open>
  The same for a row that is kept in memory; here a failure in a unique column rebuilds the indexes. The second flag says
  whether that rebuilding succeeded.
\<close>

definition append_record_memory :: "ltable \<Rightarrow> string \<Rightarrow> int \<Rightarrow> (nat option \<times> ltable) option" where
  "append_record_memory l row id_value =
     (case take_record_slot (l_store l) True of
        None \<Rightarrow> Some (None, l)
      | Some (i, st1) \<Rightarrow>
        (case assign_slot_row st1 i row ROW_STORE_MEMORY (- 1) True of
           None \<Rightarrow> Some (None, l\<lparr>l_store := push_free_slot st1 i\<rparr>)
         | Some st2 \<Rightarrow>
           let rid = next_row_id l; k = (if l_pk l \<noteq> None then id_value else rid) in
           case claim_key (l\<lparr>next_row_id := wrap64 (rid + 1), l_store := activate i rid st2\<rparr>) k i of
             None \<Rightarrow> None
           | Some (False, l1) \<Rightarrow> Some (None, drop_slot l1 i)
           | Some (True, l1) \<Rightarrow>
             (case bptree_insert (id_index l1) k (int i) of
                None \<Rightarrow> None
              | Some (r, t) \<Rightarrow>
                let l2 = l1\<lparr>id_index := t\<rparr> in
                if r \<noteq> 1 then Some (None, drop_slot l2 i)
                else case index_record_uks (note_key id_value l2) i of
                    None \<Rightarrow> None
                  | Some (True, l3) \<Rightarrow> Some (Some i, l3)
                  | Some (False, l3) \<Rightarrow>
                    (case rebuild_id_index (drop_slot l3 i) of
                       None \<Rightarrow> None
                     | Some (False, l4) \<Rightarrow> Some (None, l4)
                     | Some (True, l4) \<Rightarrow> map_option (\<lambda>(ok, l5). (None, l5)) (rebuild_uk_indexes l4)))))"

end
