(* ===== verification/Legacy_Load.thy ===== *)
theory Legacy_Load
  imports Legacy_Index
begin

text \<open>
  Loading a table of the command line engine, \<open>src/legacy/executor.c\<close>, that has no index snapshot: the header, the rows, the
  indexes, and the delta log.

  \<^item> A row is passed to \<open>remove_record_indexes\<close> as a pointer to the string that a slot holds. For a table without a key the
    slot is found by comparing pointers; the argument \<open>at\<close> is that slot. A string that was evicted meanwhile has been
    freed: \<^const>\<open>None\<close>.
  \<^item> The snapshot that is written after loading is another file; only the flag of the table is kept.
\<close>

subsection \<open>Applying the delta log\<close>

definition drop_key :: "ltable \<Rightarrow> int \<Rightarrow> (bool \<times> ltable) option" where
  "drop_key l k = map_option (\<lambda>(ok, t). (ok, l\<lparr>id_index := t\<rparr>)) (bptree_delete (id_index l) k)"

text \<open>The search for the slot of a row in a table without key.\<close>

definition row_slot_key :: "ltable \<Rightarrow> string \<Rightarrow> nat \<Rightarrow> (int option \<times> ltable) option" where
  "row_slot_key l row at =
     (let st = fold (\<lambda>i st. snd (slot_row st (int i))) [0..<at] (l_store l) in
      if rec (slots st ! at) = None then None
      else let l1 = l\<lparr>l_store := snd (slot_row st (int at))\<rparr> in Some (get_row_index_key l1 row at, l1))"

definition remove_record_indexes :: "ltable \<Rightarrow> string \<Rightarrow> nat \<Rightarrow> (bool \<times> ltable) option" where
  "remove_record_indexes l row at =
     (case (case l_pk l of
              Some p \<Rightarrow> Some (parse_long_value (field_at (parse_csv_row row) p), l)
            | None \<Rightarrow> row_slot_key l row at) of
        None \<Rightarrow> None
      | Some (None, l1) \<Rightarrow> Some (False, l1)
      | Some (Some k, l1) \<Rightarrow>
        (case drop_key l1 k of
           None \<Rightarrow> None
         | Some (False, l2) \<Rightarrow> Some (False, l2)
         | Some (True, l2) \<Rightarrow>
           if l_uks l2 = [] then Some (True, l2)
           else drop_uks (ensure_uk_indexes l2) row (map (\<lambda>col. case get_uk_slot l2 col of Some u \<Rightarrow> u | None \<Rightarrow> 0) (l_uks l2))))"

definition apply_delta_op :: "ltable \<Rightarrow> delta_op \<Rightarrow> (bool \<times> ltable) option" where
  "apply_delta_op l op =
     (case find_record_index_by_key l (case op of Delta_U k row \<Rightarrow> k | Delta_D k \<Rightarrow> k) of
        None \<Rightarrow> None
      | Some (i, l1) \<Rightarrow>
        if i < 0 then Some (True, l1)
        else case slot_row (l_store l1) i of
            (old, st) \<Rightarrow>
              let l2 = l1\<lparr>l_store := st\<rparr> in
              case (case old of None \<Rightarrow> Some (True, l2) | Some row \<Rightarrow> remove_record_indexes l2 row (nat i)) of
                None \<Rightarrow> None
              | Some (False, l3) \<Rightarrow> Some (False, l3)
              | Some (True, l3) \<Rightarrow>
                (case op of
                   Delta_U k row \<Rightarrow>
                     (case replace_record_at (l_store l3) i row of
                        (False, st1) \<Rightarrow> Some (False, l3\<lparr>l_store := st1\<rparr>)
                      | (True, st1) \<Rightarrow> restore_record_indexes (l3\<lparr>l_store := st1\<rparr>) (nat i))
                 | Delta_D k \<Rightarrow> (case delete_record_at (l_store l3) i of (ok, st1) \<Rightarrow> Some (ok, l3\<lparr>l_store := st1\<rparr>))))"

fun apply_delta_ops :: "ltable \<Rightarrow> delta_op list \<Rightarrow> (bool \<times> ltable) option" where
  "apply_delta_ops l [] = Some (True, l)"
| "apply_delta_ops l (op # ops) =
     (case apply_delta_op l op of
        None \<Rightarrow> None
      | Some (False, l1) \<Rightarrow> Some (False, l1)
      | Some (True, l1) \<Rightarrow> apply_delta_ops l1 ops)"

text \<open>The batches are applied while the log is read; the first that fails stops it.\<close>

definition replay_into :: "ltable \<Rightarrow> string \<Rightarrow> (bool \<times> ltable) option" where
  "replay_into l log =
     (case replay_delta_log log False [] of
        (readable, batches) \<Rightarrow> map_option (\<lambda>(ok, l1). (ok \<and> readable, l1)) (apply_delta_ops l (concat batches)))"

subsection \<open>The header\<close>

text \<open>\<open>strtok\<close> with the separators of a header: the pieces that are not empty.\<close>

fun header_tokens :: "string \<Rightarrow> string \<Rightarrow> string list" where
  "header_tokens cur [] = (if cur = [] then [] else [rev cur])"
| "header_tokens cur (c # cs) =
     (if c = CHR '','' \<or> row_end c then (if cur = [] then header_tokens [] cs else rev cur # header_tokens [] cs)
      else header_tokens (c # cur) cs)"

definition header_column :: "string \<Rightarrow> column" where
  "header_column token =
     (case strchr token (CHR ''('') of
        None \<Rightarrow> \<lparr>col_name = strbuf 50 token, col_type = COL_NORMAL\<rparr>
      | Some paren \<Rightarrow>
        \<lparr>col_name = strbuf 50 (take (length token - length paren) token),
         col_type =
           (if strstr paren ''(PK)'' \<noteq> None then COL_PK
            else if strstr paren ''(UK)'' \<noteq> None then COL_UK
            else if strstr paren ''(NN)'' \<noteq> None then COL_NN
            else COL_NORMAL)\<rparr>)"

definition strip_bom :: "string \<Rightarrow> string" where
  "strip_bom s = (case s of a # b # c # r \<Rightarrow> if byte a = 0xEF \<and> byte b = 0xBB \<and> byte c = 0xBF then r else s | _ \<Rightarrow> s)"

definition header_columns :: "string \<Rightarrow> column list" where
  "header_columns header = map header_column (take MAX_COLS (header_tokens [] (strip_bom header)))"

text \<open>The last key column, and the first \<open>MAX_UKS\<close> unique columns.\<close>

definition key_column :: "column list \<Rightarrow> nat option" where
  "key_column cs = fold (\<lambda>i p. if col_type (cs ! i) = COL_PK then Some i else p) [0..<length cs] None"

definition unique_columns :: "column list \<Rightarrow> nat list" where
  "unique_columns cs = take MAX_UKS (filter (\<lambda>i. col_type (cs ! i) = COL_UK) [0..<length cs])"

text \<open>The table after \<open>reset_table_cache\<close> and the header.\<close>

definition empty_table :: "string \<Rightarrow> column list \<Rightarrow> ltable" where
  "empty_table csv cs = ensure_uk_indexes
     \<lparr>l_store = reset_store (Some csv), l_cols = cs, l_pk = key_column cs, l_uks = unique_columns cs, id_index = bptree_create,
      uk_indexes = map (\<lambda>_. No_Index) (unique_columns cs), next_auto_id = 1, next_row_id = 1, cache_truncated = False,
      uncached_start_offset = 0, snapshot_dirty = False\<rparr>"

subsection \<open>The rows\<close>

text \<open>One row at offset \<open>off\<close>; the flag is \<open>False\<close> on an error. \<open>n\<close> is \<open>file_next_auto_id\<close>.\<close>

definition load_line :: "bool \<Rightarrow> ltable \<Rightarrow> int \<Rightarrow> int \<Rightarrow> string \<Rightarrow> (bool \<times> int \<times> ltable) option" where
  "load_line has_delta l n off line =
     (let key = (case l_pk l of
             None \<Rightarrow> Some 0
           | Some p \<Rightarrow> (case field_at (parse_csv_row line) p of None \<Rightarrow> Some 0 | Some f \<Rightarrow> parse_long_value (Some f))) in
      case key of
        None \<Rightarrow> Some (False, n, l)
      | Some id_value \<Rightarrow>
        let n1 = (if l_pk l \<noteq> None \<and> id_value \<ge> n then wrap64 (id_value + 1) else n);
            rid = next_row_id l; l1 = l\<lparr>next_row_id := wrap64 (rid + 1)\<rparr>; k = (if l_pk l \<noteq> None then id_value else rid) in
        if active_count (l_store l1) < int MAX_RECORDS then
          (case append_record_raw_memory (l_store l1) line rid off of
             None \<Rightarrow> Some (False, n1, l1)
           | Some (i, st) \<Rightarrow>
             let l2 = l1\<lparr>l_store := st\<rparr> in
             if has_delta then Some (True, n1, l2)
             else case bptree_insert (id_index l2) k (int i) of
                 None \<Rightarrow> None
               | Some (r, t) \<Rightarrow>
                 if r \<noteq> 1 then Some (False, n1, l2\<lparr>id_index := t\<rparr>)
                 else map_option (\<lambda>(ok, l3). (ok, n1, l3)) (index_record_uks_from_row (l2\<lparr>id_index := t\<rparr>) line i))
        else Some (True, n1, l1\<lparr>l_store := append_tail_pk_offset (l_store l1) k off,
               uncached_start_offset := (if cache_truncated l1 then uncached_start_offset l1 else off), cache_truncated := True\<rparr>))"

function load_lines :: "bool \<Rightarrow> ltable \<Rightarrow> int \<Rightarrow> int \<Rightarrow> string \<Rightarrow> (bool \<times> int \<times> ltable) option" where
  "load_lines has_delta l n off s =
     (if s = [] then Some (True, n, l)
      else let (raw, rest) = fgets_split RECORD_SIZE s; line0 = c_string raw; line = takeWhile (\<lambda>c. \<not> row_end c) line0;
               next = off + int (length s) - int (length rest) in
        if list_all (\<lambda>c. \<not> row_end c) line0 \<and> length line0 = RECORD_SIZE - 1 then Some (False, n, l)
        else if line = [] then load_lines has_delta l n next rest
        else case load_line has_delta l n off line of
            None \<Rightarrow> None
          | Some (False, n1, l1) \<Rightarrow> Some (False, n1, l1)
          | Some (True, n1, l1) \<Rightarrow> load_lines has_delta l1 n1 next rest)"
  by pat_completeness auto
termination
proof (relation "measure (\<lambda>(d, l, n, off, s). length s)", goal_cases)
  case (2 has_delta l n off s x raw rest)
  then show ?case using fgets_split_less [of s RECORD_SIZE raw rest] by (simp add: RECORD_SIZE_def)
next
  case (3 has_delta l n off s x raw rest)
  then show ?case using fgets_split_less [of s RECORD_SIZE raw rest] by (simp add: RECORD_SIZE_def)
qed simp

declare load_lines.simps [simp del]

text \<open>\<open>delta\<close> is the text of the delta log, if there is one.\<close>

definition load_table_contents :: "string \<Rightarrow> string option \<Rightarrow> (bool \<times> ltable) option" where
  "load_table_contents csv delta =
     (let (header, rest) = fgets_split RECORD_SIZE csv; l0 = empty_table csv (header_columns (c_string header));
          seek_end = (\<lambda>l. l\<lparr>l_store := (l_store l)\<lparr>append_offset := int (length csv)\<rparr>\<rparr>) in
      case load_lines (delta \<noteq> None) l0 1 (int (length csv) - int (length rest)) rest of
        None \<Rightarrow> None
      | Some (False, n, l1) \<Rightarrow> Some (False, l1)
      | Some (True, n, l1) \<Rightarrow>
        let stale = (active_count (l_store l1) = 0 \<and> tail_index (l_store l1) = []) in
        (case (if stale then None else delta) of
           None \<Rightarrow> Some (True, seek_end (l1\<lparr>next_auto_id := max (next_auto_id l1) n, snapshot_dirty := (active_count (l_store l1) = 0 \<or> cache_truncated l1)\<rparr>))
         | Some log \<Rightarrow>
           (case replay_into l1 log of
              None \<Rightarrow> None
            | Some (False, l2) \<Rightarrow> Some (False, l2)
            | Some (True, l2) \<Rightarrow>
              (case rebuild_id_index l2 of
                 None \<Rightarrow> None
               | Some (False, l3) \<Rightarrow> Some (False, l3)
               | Some (True, l3) \<Rightarrow>
                 (case rebuild_uk_indexes l3 of
                    None \<Rightarrow> None
                  | Some (False, l4) \<Rightarrow> Some (False, l4)
                  | Some (True, l4) \<Rightarrow> Some (True, seek_end (l4\<lparr>next_auto_id := max (next_auto_id l4) n, snapshot_dirty := cache_truncated l4\<rparr>)))))))"

end
