(* ===== verification/Legacy_Compact.thy ===== *)
theory Legacy_Compact
  imports Legacy_Load
begin

text \<open>
  Compaction of a table of the command line engine, \<open>src/legacy/executor.c\<close>: the active rows are written to a new file that
  replaces the CSV file, and the delta log is removed.

  \<^item> Writing and replacing a file succeed. A table whose file is closed has \<^const>\<open>None\<close> for it; the contents on the disk
    stay, and opening the file again gives them.
  \<^item> Removing the index snapshot leaves a table without snapshot, as \<open>Legacy_Load\<close> loads it.
\<close>

definition DELTA_COMPACT_BYTES :: int where "DELTA_COMPACT_BYTES = 256 * 1024 * 1024"
definition DELTA_COMPACT_CHECK_INTERVAL :: int where "DELTA_COMPACT_CHECK_INTERVAL = 4096"

fun write_table_header :: "column list \<Rightarrow> string" where
  "write_table_header [] = []"
| "write_table_header (c # cs) =
     col_name c @ (case col_type c of COL_PK \<Rightarrow> ''(PK)'' | COL_UK \<Rightarrow> ''(UK)'' | COL_NN \<Rightarrow> ''(NN)'' | COL_NORMAL \<Rightarrow> []) @
     (if cs = [] then [LF] else '','') @ write_table_header cs"

text \<open>The loop over the slots; \<^const>\<open>None\<close> is a row that could not be read.\<close>

fun written_rows :: "tcache \<Rightarrow> nat list \<Rightarrow> string option \<times> tcache" where
  "written_rows tc [] = (Some [], tc)"
| "written_rows tc (i # is) =
     (if \<not> slot_is_active tc (int i) then written_rows tc is
      else case slot_row tc (int i) of
          (None, tc1) \<Rightarrow> (None, tc1)
        | (Some row, tc1) \<Rightarrow> (case written_rows tc1 is of (txt, tc2) \<Rightarrow> (map_option (\<lambda>t. row @ [LF] @ t) txt, tc2)))"

definition rewrite_file :: "ltable \<Rightarrow> delta \<Rightarrow> (bool \<times> ltable \<times> delta) option" where
  "rewrite_file l d =
     (let disk = tc_file (l_store l) in
      case written_rows ((l_store l)\<lparr>tc_file := None\<rparr>) [0..<record_count (l_store l)] of
        (None, st) \<Rightarrow> Some (False, l\<lparr>l_store := st\<lparr>tc_file := disk\<rparr>\<rparr>, d)
      | (Some txt, st) \<Rightarrow>
        map_option (\<lambda>(ok, l1). (ok, l1, clear_delta_log d)) (load_table_contents (write_table_header (l_cols l) @ txt) None))"

definition delta_log_size :: "delta \<Rightarrow> int \<times> delta" where
  "delta_log_size d = (let d1 = close_delta_batch d in (int (length (delta_text d1)), d1))"

definition maybe_compact_delta_log :: "ltable \<Rightarrow> delta \<Rightarrow> (bool \<times> ltable \<times> delta) option" where
  "maybe_compact_delta_log l d =
     (if cache_truncated l then Some (True, l, d)
      else let n = delta_ops_since_compact_check d + 1 in
        if n < DELTA_COMPACT_CHECK_INTERVAL then Some (True, l, d\<lparr>delta_ops_since_compact_check := n\<rparr>)
        else let d1 = d\<lparr>delta_ops_since_compact_check := 0\<rparr> in
          if delta_bytes_since_compact d1 < DELTA_COMPACT_BYTES then Some (True, l, d1)
          else case delta_log_size d1 of
              (bytes, d2) \<Rightarrow> if bytes < DELTA_COMPACT_BYTES then Some (True, l, d2) else rewrite_file l d2)"

text \<open>At the end of the program; the result is the new contents of the CSV file, and the file is closed.\<close>

definition compact_table_file_for_shutdown :: "ltable \<Rightarrow> delta \<Rightarrow> string option \<times> ltable \<times> delta" where
  "compact_table_file_for_shutdown l d =
     (case tc_file (l_store l) of
        None \<Rightarrow> (None, l, d)
      | Some f \<Rightarrow>
        (case written_rows (l_store l) [0..<record_count (l_store l)] of
           (None, st) \<Rightarrow> (None, l\<lparr>l_store := st\<rparr>, d)
         | (Some txt, st) \<Rightarrow> (Some (write_table_header (l_cols l) @ txt), l\<lparr>l_store := st\<lparr>tc_file := None\<rparr>\<rparr>, clear_delta_log d)))"

end
