(* ===== verification/Legacy_Insert.thy ===== *)
theory Legacy_Insert
  imports Legacy_Compact
begin

text \<open>
  INSERT of the command line engine, \<open>src/legacy/executor.c\<close>: the row that is written, the checks of keys in memory and in the
  part of the file that is not in memory, adding the row to the store, the indexes and the file.

  \<^item> The message that a failing INSERT prints is a value of \<open>insert_error\<close>.
  \<^item> Seeking to the end of the file and flushing succeed.
\<close>

datatype insert_error = Too_Many_Values | Pk_Not_Integer | Duplicate_Pk | Not_Null | Pk_Empty | Uk_Unavailable | Duplicate_Uk | Row_Too_Long
  | Compact_Failed | No_Append_Position | Index_Failed | Append_Failed

subsection \<open>The new row\<close>

text \<open>The value of column \<open>i\<close>.\<close>

definition insert_source :: "ltable \<Rightarrow> string list \<Rightarrow> bool \<Rightarrow> int \<Rightarrow> nat \<Rightarrow> string" where
  "insert_source l vals auto id_value i =
     (if auto \<and> l_pk l = Some i then show_long id_value
      else let k = (if auto \<and> l_pk l = Some 0 then int i - 1 else int i)
        in normalize_value RECORD_SIZE (Some (if 0 \<le> k \<and> k < int (length vals) then vals ! nat k else [])))"

text \<open>The checks of one column; the indexes are made when they are needed.\<close>

definition check_value :: "ltable \<Rightarrow> nat \<Rightarrow> string \<Rightarrow> (insert_error option \<times> ltable) option" where
  "check_value l i source =
     (if col_type (l_cols l ! i) = COL_NN \<and> source = [] then Some (Some Not_Null, l)
      else if l_pk l = Some i \<and> source = [] then Some (Some Pk_Empty, l)
      else if col_type (l_cols l ! i) = COL_UK \<and> source \<noteq> [] then
        (case get_uk_slot l i of
           None \<Rightarrow> Some (Some Uk_Unavailable, l)
         | Some u \<Rightarrow>
           let l1 = ensure_uk_indexes l in
           case unique_index_find l1 u source of
             Wild \<Rightarrow> None
           | Found r \<Rightarrow> Some (Some Duplicate_Uk, l1)
           | Absent \<Rightarrow> Some (None, l1))
      else Some (None, l))"

text \<open>The loop over the columns; \<open>line\<close> is what was written.\<close>

fun insert_cells :: "ltable \<Rightarrow> string list \<Rightarrow> bool \<Rightarrow> int \<Rightarrow> nat \<Rightarrow> string \<Rightarrow> nat list \<Rightarrow> ((insert_error + string) \<times> ltable) option" where
  "insert_cells l vals auto id_value line_size line [] = Some (Inr line, l)"
| "insert_cells l vals auto id_value line_size line (i # is) =
     (let source = insert_source l vals auto id_value i in
      case check_value l i source of
        None \<Rightarrow> None
      | Some (Some e, l1) \<Rightarrow> Some (Inl e, l1)
      | Some (None, l1) \<Rightarrow>
        (case append_csv_field line line_size source (is = []) of
           None \<Rightarrow> Some (Inl Row_Too_Long, l1)
         | Some line1 \<Rightarrow> insert_cells l1 vals auto id_value line_size line1 is))"

text \<open>Whether the key is chosen automatically.\<close>

definition auto_key :: "ltable \<Rightarrow> string list \<Rightarrow> bool" where
  "auto_key l vals \<longleftrightarrow>
     (case l_pk l of
        None \<Rightarrow> False
      | Some p \<Rightarrow>
        (int (length vals) = int (length (l_cols l)) - 1 \<and> p = 0) \<or> p \<ge> length vals \<or> vals ! p = [] \<or>
        compare_value (Some (vals ! p)) (Some ''NULL''))"

definition build_insert_row :: "ltable \<Rightarrow> string list \<Rightarrow> nat \<Rightarrow> ((insert_error + int \<times> string) \<times> ltable) option" where
  "build_insert_row l vals line_size =
     (if length vals > length (l_cols l) then Some (Inl Too_Many_Values, l)
      else
        let write = (\<lambda>id_value. map_option (\<lambda>(r, l1). (map_sum id (\<lambda>line. (id_value, line)) r, l1))
          (insert_cells l vals (auto_key l vals) id_value line_size [] [0..<length (l_cols l)])) in
        case l_pk l of
          None \<Rightarrow> write 0
        | Some p \<Rightarrow>
          (case (if auto_key l vals then Some (next_auto_id l) else parse_long_value (Some (vals ! p))) of
             None \<Rightarrow> Some (Inl Pk_Not_Integer, l)
           | Some id_value \<Rightarrow>
             (case bptree_search (id_index l) id_value of
                Wild \<Rightarrow> None
              | Found r \<Rightarrow> if slot_is_active (l_store l) r then Some (Inl Duplicate_Pk, l) else write id_value
              | Absent \<Rightarrow> write id_value)))"

subsection \<open>The rows that are only in the file\<close>

text \<open>
  The loop over the lines of a file; \<open>visitor\<close> is the state of the search and says whether to go on. A line that is too long
  stops it.
\<close>

function file_rows :: "(string \<Rightarrow> 's \<Rightarrow> bool \<times> 's) \<Rightarrow> string \<Rightarrow> 's \<Rightarrow> bool \<times> 's" where
  "file_rows visitor s ctx =
     (if s = [] then (True, ctx)
      else let (raw, rest) = fgets_split RECORD_SIZE s; line0 = c_string raw; line = takeWhile (\<lambda>c. \<not> row_end c) line0 in
        if list_all (\<lambda>c. \<not> row_end c) line0 \<and> length line0 = RECORD_SIZE - 1 then (False, ctx)
        else if line = [] then file_rows visitor rest ctx
        else case visitor line ctx of
            (False, ctx1) \<Rightarrow> (False, ctx1)
          | (True, ctx1) \<Rightarrow> file_rows visitor rest ctx1)"
  by pat_completeness auto
termination
proof (relation "measure (\<lambda>(v, s, ctx). length s)", goal_cases)
  case (2 visitor s ctx x raw rest)
  then show ?case using fgets_split_less [of s RECORD_SIZE raw rest] by (simp add: RECORD_SIZE_def)
next
  case (3 visitor s ctx x raw rest)
  then show ?case using fgets_split_less [of s RECORD_SIZE raw rest] by (simp add: RECORD_SIZE_def)
qed simp

declare file_rows.simps [simp del]

definition for_each_file_row_from :: "tcache \<Rightarrow> int \<Rightarrow> (string \<Rightarrow> 's \<Rightarrow> bool \<times> 's) \<Rightarrow> 's \<Rightarrow> bool \<times> 's" where
  "for_each_file_row_from tc start visitor ctx =
     (case tc_file tc of
        None \<Rightarrow> (False, ctx)
      | Some f \<Rightarrow> file_rows visitor (if start > 0 then drop (nat start) f else snd (fgets_split RECORD_SIZE f)) ctx)"

definition find_value_visitor :: "ltable \<Rightarrow> nat \<Rightarrow> string \<Rightarrow> string \<Rightarrow> bool \<Rightarrow> bool \<times> bool" where
  "find_value_visitor l col v row found =
     (if col < length (l_cols l) \<and> compare_value (field_at (parse_csv_row row) col) (Some v) then (False, True) else (True, found))"

definition table_file_has_value :: "ltable \<Rightarrow> nat \<Rightarrow> string option \<Rightarrow> bool" where
  "table_file_has_value l col v =
     (case v of
        None \<Rightarrow> False
      | Some w \<Rightarrow>
        w \<noteq> [] \<and>
        snd (for_each_file_row_from (l_store l) (if cache_truncated l then uncached_start_offset l else 0) (find_value_visitor l col w) False))"

definition validate_file_duplicates_for_uncached_insert :: "ltable \<Rightarrow> string \<Rightarrow> insert_error option" where
  "validate_file_duplicates_for_uncached_insert l line =
     (if \<not> cache_truncated l \<and> active_count (l_store l) < int MAX_RECORDS then None
      else let fs = parse_csv_row line in
        if (case l_pk l of None \<Rightarrow> False | Some p \<Rightarrow> table_file_has_value l p (field_at fs p)) then Some Duplicate_Pk
        else if list_ex (\<lambda>u. table_file_has_value l u (field_at fs u)) (l_uks l) then Some Duplicate_Uk
        else None)"

subsection \<open>The statement\<close>

text \<open>The position at the end of the file is found once.\<close>

definition find_append_offset :: "tcache \<Rightarrow> tcache" where
  "find_append_offset tc =
     (if append_offset tc < 0 then (case tc_file tc of None \<Rightarrow> tc | Some f \<Rightarrow> tc\<lparr>append_offset := int (length f)\<rparr>) else tc)"

definition undo_insert :: "ltable \<Rightarrow> nat \<Rightarrow> ltable option" where
  "undo_insert l i =
     (case deactivate_slot (l_store l) (int i) True of
        (False, st) \<Rightarrow> Some (l\<lparr>l_store := st\<rparr>)
      | (True, st) \<Rightarrow>
        (case rebuild_id_index (l\<lparr>l_store := st\<rparr>) of
           None \<Rightarrow> None
         | Some (False, l1) \<Rightarrow> Some l1
         | Some (True, l1) \<Rightarrow> map_option snd (rebuild_uk_indexes l1)))"

definition insert_cached :: "ltable \<Rightarrow> string \<Rightarrow> int \<Rightarrow> ((insert_error + int) \<times> ltable) option" where
  "insert_cached l line id_value =
     (let l1 = l\<lparr>l_store := find_append_offset (l_store l)\<rparr> in
      if append_offset (l_store l1) < 0 then Some (Inl No_Append_Position, l1)
      else case append_record_csv_indexed l1 line id_value (append_offset (l_store l1)) of
        None \<Rightarrow> None
      | Some (None, l2) \<Rightarrow> Some (Inl Index_Failed, l2)
      | Some (Some i, l2) \<Rightarrow>
        (case append_record_file (l_store l2) line of
           (True, st) \<Rightarrow> Some (Inr id_value, l2\<lparr>l_store := st, snapshot_dirty := True\<rparr>)
         | (False, st) \<Rightarrow> map_option (\<lambda>l3. (Inl Append_Failed, l3)) (undo_insert (l2\<lparr>l_store := st\<rparr>) i)))"

definition insert_uncached :: "ltable \<Rightarrow> string \<Rightarrow> int \<Rightarrow> (insert_error + int) \<times> ltable" where
  "insert_uncached l line id_value =
     (let st1 = find_append_offset (l_store l); off = append_offset st1; st2 = ensure_tail_index_capacity st1 (length (tail_index st1) + 1) in
      if off < 0 then (Inl No_Append_Position, l\<lparr>l_store := st1\<rparr>)
      else case append_record_file st2 line of
        (False, st) \<Rightarrow> (Inl Append_Failed, l\<lparr>l_store := st\<rparr>)
      | (True, st) \<Rightarrow>
        (Inr id_value,
         l\<lparr>l_store := append_tail_pk_offset st (if l_pk l \<noteq> None then id_value else next_row_id l) off,
           next_row_id := (if l_pk l \<noteq> None then next_row_id l else wrap64 (next_row_id l + 1)),
           uncached_start_offset := (if cache_truncated l then uncached_start_offset l else off),
           cache_truncated := True,
           next_auto_id := (if id_value \<ge> next_auto_id l then wrap64 (id_value + 1) else next_auto_id l),
           snapshot_dirty := True\<rparr>))"

text \<open>A delta log that nothing was written to does not exist.\<close>

definition delta_log_exists :: "delta \<Rightarrow> bool" where
  "delta_log_exists d \<longleftrightarrow> delta_text d \<noteq> []"

definition insert_row_data :: "ltable \<Rightarrow> delta \<Rightarrow> string \<Rightarrow> ((insert_error + int) \<times> ltable \<times> delta) option" where
  "insert_row_data l d values =
     (case build_insert_row l (parse_csv_row values) RECORD_SIZE of
        None \<Rightarrow> None
      | Some (Inl e, l1) \<Rightarrow> Some (Inl e, l1, d)
      | Some (Inr (id_value, line), l1) \<Rightarrow>
        (case (if \<not> cache_truncated l1 \<and> active_count (l_store l1) \<ge> int MAX_RECORDS \<and> delta_log_exists d then rewrite_file l1 d
               else Some (True, l1, d)) of
           None \<Rightarrow> None
         | Some (False, l2, d2) \<Rightarrow> Some (Inl Compact_Failed, l2, d2)
         | Some (True, l2, d2) \<Rightarrow>
           (case validate_file_duplicates_for_uncached_insert l2 line of
              Some e \<Rightarrow> Some (Inl e, l2, d2)
            | None \<Rightarrow>
              map_option (\<lambda>(r, l3). (r, l3, d2))
                (if \<not> cache_truncated l2 \<and> (active_count (l_store l2) < int MAX_RECORDS \<or> free_slots (l_store l2) \<noteq> [])
                 then insert_cached l2 line id_value else Some (insert_uncached l2 line id_value)))))"

end
