(* ===== verification/Legacy_Store_Correct.thy ===== *)
theory Legacy_Store_Correct
  imports Legacy_Store Table_Write
begin

text \<open>
  The row cache and the page cache of the command line engine are invisible: the store refines a map from slots to rows.
  Rows are read back as they are in the file, however rows and pages were cached and evicted before, also when the file has grown since
  a page was read.
\<close>

subsection \<open>Lines of the file\<close>

definition row_text :: "string \<Rightarrow> nat \<Rightarrow> string" where
  "row_text f off = c_string (takeWhile (\<lambda>c. \<not> row_end c) (drop off f))"

text \<open>A whole line that fits the buffer of \<open>fgets\<close> starts at the offset.\<close>

definition good_line :: "string \<Rightarrow> nat \<Rightarrow> bool" where
  "good_line f off \<longleftrightarrow> CHR 0x0A \<in> set (drop off f) \<and> length (takeWhile (\<lambda>c. c \<noteq> CHR 0x0A) (drop off f)) < RECORD_SIZE"

lemma takeWhile_takeWhile: "takeWhile P (takeWhile Q xs) = takeWhile (\<lambda>x. P x \<and> Q x) xs"
  by (induction xs) auto

lemma row_text_eq: "row_text f off = takeWhile (\<lambda>c. c \<noteq> CHR 0x00 \<and> \<not> row_end c) (drop off f)"
  by (simp add: row_text_def c_string_def takeWhile_takeWhile)

lemma good_line_split:
  assumes "good_line f off"
  obtains u v where "drop off f = u @ CHR 0x0A # v" "CHR 0x0A \<notin> set u" "length u < RECORD_SIZE"
    "row_text f off = takeWhile (\<lambda>c. c \<noteq> CHR 0x00 \<and> \<not> row_end c) u"
proof -
  obtain u v where s: "drop off f = u @ CHR 0x0A # v" "CHR 0x0A \<notin> set u" using assms split_list_first by (fastforce simp: good_line_def)
  have "takeWhile (\<lambda>c. c \<noteq> CHR 0x0A) (u @ CHR 0x0A # v) = u" using s(2) by (subst takeWhile_append2) auto
  then have "length u < RECORD_SIZE" using assms unfolding good_line_def s(1) by simp
  moreover have "row_text f off = takeWhile (\<lambda>c. c \<noteq> CHR 0x00 \<and> \<not> row_end c) u"
    unfolding row_text_eq s(1) by (simp add: takeWhile_tail row_end_def)
  ultimately show thesis using that s by blast
qed

lemma fgets_line_good:
  assumes "good_line f off"
  shows "fgets_line f off = Some (row_text f off)"
proof -
  obtain u v where s: "drop off f = u @ CHR 0x0A # v" "CHR 0x0A \<notin> set u" "length u < RECORD_SIZE"
    "row_text f off = takeWhile (\<lambda>c. c \<noteq> CHR 0x00 \<and> \<not> row_end c) u"
    by (rule good_line_split [OF assms])
  have l: "takeWhile (\<lambda>c. c \<noteq> CHR 0x0A) (u @ CHR 0x0A # v) = u" "dropWhile (\<lambda>c. c \<noteq> CHR 0x0A) (u @ CHR 0x0A # v) = CHR 0x0A # v"
    using s(2) by (subst takeWhile_append2 dropWhile_append2; auto)+
  have "take (RECORD_SIZE - 1) (u @ [CHR 0x0A]) = u @ take (RECORD_SIZE - 1 - length u) [CHR 0x0A]" using s(3) by simp
  then have "takeWhile (\<lambda>c. \<not> row_end c \<and> c \<noteq> CHR 0x00) (take (RECORD_SIZE - 1) (u @ [CHR 0x0A])) = row_text f off"
    unfolding s(4) by (cases "RECORD_SIZE - 1 - length u") (simp_all add: takeWhile_tail row_end_def conj_commute)
  then show ?thesis unfolding fgets_line_def s(1) Let_def l by (simp add: c_string_def takeWhile_takeWhile)
qed

lemma good_line_append:
  assumes "good_line f off"
  shows "good_line (f @ g) off \<and> row_text (f @ g) off = row_text f off"
proof -
  obtain u v where s: "drop off f = u @ CHR 0x0A # v" "CHR 0x0A \<notin> set u" "length u < RECORD_SIZE"
    "row_text f off = takeWhile (\<lambda>c. c \<noteq> CHR 0x00 \<and> \<not> row_end c) u"
    by (rule good_line_split [OF assms])
  have d: "drop off (f @ g) = u @ CHR 0x0A # v @ g" using s(1) by (cases "off < length f") auto
  have "takeWhile (\<lambda>c. c \<noteq> CHR 0x0A) (u @ CHR 0x0A # v @ g) = u" using s(2) by (subst takeWhile_append2) auto
  then have "good_line (f @ g) off" using s(3) unfolding good_line_def d by simp
  moreover have "row_text (f @ g) off = row_text f off" unfolding row_text_eq [of "f @ g"] d s(4) by (simp add: takeWhile_tail row_end_def)
  ultimately show ?thesis by blast
qed

subsection \<open>Pages\<close>

text \<open>Where the file was cut when a page was read: its end at that time, which was the end of a line.\<close>

definition boundary :: "string \<Rightarrow> nat \<Rightarrow> bool" where
  "boundary f n \<longleftrightarrow> n \<le> length f \<and> (n = 0 \<or> f ! (n - 1) = CHR 0x0A)"

definition page_ok :: "string \<Rightarrow> page_entry \<Rightarrow> bool" where
  "page_ok f p \<longleftrightarrow> (page_valid p \<longrightarrow> 0 \<le> page_start p \<and> (\<exists>n. boundary f n \<and> page_data p = read_page (take n f) (page_start p)))"

lemma boundary_append: "boundary f n \<Longrightarrow> boundary (f @ g) n"
  by (auto simp: boundary_def nth_append)

lemma page_ok_append: "page_ok f p \<Longrightarrow> page_ok (f @ g) p"
proof -
  have "take n (f @ g) = take n f" if "boundary f n" for n using that by (simp add: boundary_def)
  then show "page_ok f p \<Longrightarrow> page_ok (f @ g) p" unfolding page_ok_def using boundary_append by metis
qed

lemma row_text_cut:
  assumes "boundary f n" "off < n"
  shows "takeWhile (\<lambda>c. \<not> row_end c) (drop off (take n f)) = takeWhile (\<lambda>c. \<not> row_end c) (drop off f) \<and>
    (\<exists>c\<in>set (drop off (take n f)). row_end c)"
proof -
  have "drop off (take n f) ! (n - 1 - off) = CHR 0x0A" "n - 1 - off < length (drop off (take n f))"
    using assms by (auto simp: boundary_def)
  then have e: "CHR 0x0A \<in> set (drop off (take n f))" by (metis nth_mem)
  have "drop off f = drop off (take n f) @ drop n f"
    using assms by (metis append_take_drop_id boundary_def drop_append length_take min.absorb2 diff_is_0_eq drop_0 less_imp_le)
  then show ?thesis using e by (auto simp: row_end_def intro!: takeWhile_append1 [symmetric])
qed

definition pages_ok :: "string \<Rightarrow> page_entry list \<Rightarrow> bool" where
  "pages_ok f ps \<longleftrightarrow> (\<forall>p\<in>set ps. page_ok f p)"

text \<open>A state that differs in the page cache only.\<close>

definition other_pages :: "string \<Rightarrow> tcache \<Rightarrow> tcache \<Rightarrow> bool" where
  "other_pages f tc tc' \<longleftrightarrow> (\<exists>ps k c. tc' = tc\<lparr>page_cache := ps, page_cache_count := k, page_cache_clock := c\<rparr> \<and> pages_ok f ps)"

lemma other_pages_refl: "pages_ok f (page_cache tc) \<Longrightarrow> other_pages f tc tc"
  unfolding other_pages_def by (rule exI [of _ "page_cache tc"], rule exI [of _ "page_cache_count tc"], rule exI [of _ "page_cache_clock tc"]) simp

lemma victim_bound: "victim_loop ps i best = Some k \<Longrightarrow> (\<forall>j c. best = Some (j, c) \<longrightarrow> j < i) \<Longrightarrow> k < i + length ps"
  by (induction ps i best rule: victim_loop.induct) (auto split: if_splits option.splits prod.splits)

lemma pages_ok_upd: "pages_ok f ps \<Longrightarrow> page_ok f p \<Longrightarrow> pages_ok f (ps[i := p])"
  unfolding pages_ok_def using set_update_subset_insert [of ps i p] by blast

lemma get_page_entry:
  assumes f: "tc_file tc = Some f" "boundary f (length f)" and ps: "pages_ok f (page_cache tc)" and off: "0 \<le> off"
    and g: "get_page_cache_entry tc off = (r, tc1)"
  shows "other_pages f tc tc1 \<and> (\<forall>i. r = Some i \<longrightarrow> (let e = page_cache tc1 ! i in
    page_ok f e \<and> page_valid e \<and> page_start e = off div int PAGE_CACHE_PAGE_SIZE * int PAGE_CACHE_PAGE_SIZE))"
proof -
  let ?start = "off div int PAGE_CACHE_PAGE_SIZE * int PAGE_CACHE_PAGE_SIZE"
  let ?clk = "page_cache_clock tc + 1"
  show ?thesis
  proof (cases "find_page (page_cache tc) ?start")
    case (Some i)
    let ?e = "(page_cache tc ! i)\<lparr>last_used := ?clk\<rparr>"
    have i: "i < length (page_cache tc)" "page_valid (page_cache tc ! i)" "page_start (page_cache tc ! i) = ?start"
      using index_from_Some [OF Some [unfolded find_page_def]] by auto
    have e: "page_ok f ?e" using ps i(1) by (auto simp: pages_ok_def page_ok_def)
    have "r = Some i" "tc1 = tc\<lparr>page_cache := (page_cache tc)[i := ?e], page_cache_clock := ?clk\<rparr>"
      using g f(1) off Some by (auto simp: get_page_cache_entry_def Let_def)
    moreover have "other_pages f tc (tc\<lparr>page_cache := (page_cache tc)[i := ?e], page_cache_clock := ?clk\<rparr>)"
      unfolding other_pages_def
      by (rule exI [of _ "(page_cache tc)[i := ?e]"], rule exI [of _ "page_cache_count tc"], rule exI [of _ ?clk]) (use pages_ok_upd [OF ps e] in simp)
    ultimately show ?thesis using e i by (simp add: Let_def)
  next
    case None
    show ?thesis
    proof (cases "victim_loop (page_cache tc) 0 None")
      case Nothing: None
      then show ?thesis using g f(1) off None other_pages_refl [OF ps] by (auto simp: get_page_cache_entry_def Let_def)
    next
      case (Some i)
      let ?e = "\<lparr>page_start = ?start, page_data = read_page f ?start, page_valid = True, last_used = ?clk\<rparr>"
      have i: "i < length (page_cache tc)" using victim_bound [OF Some] by simp
      have "0 \<le> ?start" using off by (simp add: pos_imp_zdiv_nonneg_iff PAGE_CACHE_PAGE_SIZE_def)
      then have e: "page_ok f ?e" using f(2) by (auto simp: page_ok_def intro!: exI [of _ "length f"])
      obtain k where r: "r = Some i" "tc1 = tc\<lparr>page_cache := (page_cache tc)[i := ?e], page_cache_clock := ?clk, page_cache_count := k\<rparr>"
        using g f(1) off None Some by (auto simp: get_page_cache_entry_def Let_def)
      moreover have "other_pages f tc (tc\<lparr>page_cache := (page_cache tc)[i := ?e], page_cache_clock := ?clk, page_cache_count := k\<rparr>)"
        unfolding other_pages_def
        by (rule exI [of _ "(page_cache tc)[i := ?e]"], rule exI [of _ k], rule exI [of _ ?clk]) (use pages_ok_upd [OF ps e] in simp)
      ultimately show ?thesis using e i by (simp add: Let_def)
    qed
  qed
qed

lemma takeWhile_take: "takeWhile P (take m xs) = take m (takeWhile P xs)"
  by (induction xs arbitrary: m) (auto simp: take_Cons' )

lemma read_row_page:
  assumes f: "tc_file tc = Some f" "boundary f (length f)" and ps: "pages_ok f (page_cache tc)" and off: "0 \<le> off"
    and r: "read_row_from_page_cache tc off = (got, tc1)"
  shows "other_pages f tc tc1 \<and> (got = None \<or> got = Some (row_text f (nat off)))"
proof -
  obtain g tc2 where g: "get_page_cache_entry tc off = (g, tc2)" by (cases "get_page_cache_entry tc off")
  note ge = get_page_entry [OF f ps off g]
  have tc: "tc1 = tc2" using r g by (auto simp: read_row_from_page_cache_def Let_def split: option.splits if_splits)
  have "got = Some (row_text f (nat off))" if ne: "got \<noteq> None"
  proof -
    obtain i where i: "g = Some i" using r g ne by (cases g) (auto simp: read_row_from_page_cache_def)
    define e where "e = page_cache tc2 ! i"
    have e: "page_ok f e" "page_valid e" "page_start e = off div int PAGE_CACHE_PAGE_SIZE * int PAGE_CACHE_PAGE_SIZE"
      using ge i by (auto simp: Let_def e_def)
    define k where "k = nat (off - page_start e)"
    define q where "q = takeWhile (\<lambda>c. \<not> row_end c) (drop k (page_data e))"
    have got: "k < length (page_data e)" "\<not> off < page_start e" "got = Some (c_string q)"
      "\<not> (k + length q \<ge> length (page_data e) \<and> length q = PAGE_CACHE_PAGE_SIZE - k)"
      using r g i ne by (auto simp: read_row_from_page_cache_def Let_def e_def k_def q_def split: if_splits)
    obtain n where n: "boundary f n" "page_data e = read_page (take n f) (page_start e)" "0 \<le> page_start e"
      using e(1,2) by (auto simp: page_ok_def)
    have offk: "nat off = k + nat (page_start e)" using got(2) n(3) by (simp add: k_def)
    let ?X = "drop (nat off) (take n f)"
    have d: "drop k (page_data e) = take (PAGE_CACHE_PAGE_SIZE - k) ?X"
      unfolding n(2) read_page_def drop_take drop_drop offk by (simp add: add.commute)
    have "nat off < n" using got(1) unfolding n(2) read_page_def offk by (auto simp: less_diff_conv)
    note cut = row_text_cut [OF n(1) this]
    have q: "q = take (PAGE_CACHE_PAGE_SIZE - k) (takeWhile (\<lambda>c. \<not> row_end c) (drop (nat off) f))"
      unfolding q_def d takeWhile_take using cut by simp
    have "\<not> PAGE_CACHE_PAGE_SIZE - k \<le> length (takeWhile (\<lambda>c. \<not> row_end c) (drop (nat off) f))"
    proof
      assume "PAGE_CACHE_PAGE_SIZE - k \<le> length (takeWhile (\<lambda>c. \<not> row_end c) (drop (nat off) f))"
      then have "length q = PAGE_CACHE_PAGE_SIZE - k" unfolding q by simp
      moreover have "length (page_data e) \<le> PAGE_CACHE_PAGE_SIZE" unfolding n(2) read_page_def by simp
      ultimately show False using got(4) by simp
    qed
    then have "q = takeWhile (\<lambda>c. \<not> row_end c) (drop (nat off) f)" unfolding q by simp
    then show ?thesis using got(3) by (simp add: row_text_def)
  qed
  then show ?thesis using ge tc by blast
qed

subsection \<open>The invariant\<close>

text \<open>What a slot holds, apart from caches.\<close>

definition held :: "string option \<Rightarrow> slot \<Rightarrow> string option" where
  "held fo s =
     (case rec s of
        Some r \<Rightarrow> Some r
      | None \<Rightarrow> (case fo of
          None \<Rightarrow> None
        | Some f \<Rightarrow> if ref_store s = ROW_STORE_CSV \<and> 0 \<le> ref_offset s then Some (row_text f (nat (ref_offset s))) else None))"

definition slot_text :: "tcache \<Rightarrow> int \<Rightarrow> string option" where
  "slot_text tc i = (if slot_is_active tc i then held (tc_file tc) (slots tc ! nat i) else None)"

lemma slot_text_upd:
  assumes "k < length (slots tc)" "held (tc_file tc) s = held (tc_file tc) (slots tc ! k)" "record_active s = record_active (slots tc ! k)"
    "tc_file tc' = tc_file tc" "record_count tc' = record_count tc" "slots tc' = (slots tc)[k := s]"
  shows "slot_text tc' i = slot_text tc i"
proof -
  have "slot_is_active tc' i = slot_is_active tc i" using assms by (auto simp: slot_is_active_def nth_list_update)
  then show ?thesis using assms by (cases "nat i = k") (simp_all add: slot_text_def)
qed

text \<open>A slot over the contents of the file: a row of the file is a whole line, and a copy in the row cache is that line.\<close>

definition slot_ok :: "string \<Rightarrow> slot \<Rightarrow> bool" where
  "slot_ok f s \<longleftrightarrow> store_of s = ref_store s \<and>
     (ref_store s = ROW_STORE_CSV \<longrightarrow> 0 \<le> ref_offset s \<and> good_line f (nat (ref_offset s)) \<and>
       row_cached s = (rec s \<noteq> None) \<and> (\<forall>r. rec s = Some r \<longrightarrow> r = row_text f (nat (ref_offset s)))) \<and>
     (ref_store s \<noteq> ROW_STORE_CSV \<longrightarrow> \<not> row_cached s) \<and> (ref_store s = ROW_STORE_NONE \<longrightarrow> \<not> record_active s \<and> rec s = None) \<and>
     (ref_store s = ROW_STORE_MEMORY \<longrightarrow> record_active s \<longrightarrow> rec s \<noteq> None)"

definition cached_slots :: "tcache \<Rightarrow> nat" where
  "cached_slots tc = length (filter row_cached (slots tc))"

definition store_ok :: "string \<Rightarrow> tcache \<Rightarrow> bool" where
  "store_ok f tc \<longleftrightarrow> tc_file tc = Some f \<and> boundary f (length f) \<and> pages_ok f (page_cache tc) \<and> (\<forall>s\<in>set (slots tc). slot_ok f s) \<and>
     record_count tc \<le> length (slots tc) \<and> (\<forall>s\<in>set (drop (record_count tc) (slots tc)). s = zero_slot) \<and>
     (row_cache_evict_cursor tc < record_count tc \<or> row_cache_evict_cursor tc = 0) \<and>
     cached_record_count tc = int (cached_slots tc) \<and> cached_record_count tc \<le> ROW_CACHE_LIMIT \<and>
     distinct (free_slots tc) \<and> (\<forall>i\<in>set (free_slots tc). i < record_count tc \<and> \<not> record_active (slots tc ! i))"

lemma filter_update:
  "i < length xs \<Longrightarrow> length (filter P (xs[i := x])) + (if P (xs ! i) then 1 else 0) = length (filter P xs) + (if P x then 1 else 0)"
proof (induction xs arbitrary: i)
  case (Cons y ys)
  then show ?case by (cases i) auto
qed simp

lemma slot_okD: "store_ok f tc \<Longrightarrow> i < length (slots tc) \<Longrightarrow> slot_ok f (slots tc ! i)"
  by (auto simp: store_ok_def)

lemma cached_index:
  assumes "store_ok f tc" "i < length (slots tc)" "row_cached (slots tc ! i)"
  shows "i < record_count tc"
proof (rule ccontr)
  assume "\<not> i < record_count tc"
  then have "drop (record_count tc) (slots tc) ! (i - record_count tc) = slots tc ! i" "i - record_count tc < length (drop (record_count tc) (slots tc))"
    using assms(2) by auto
  then have "slots tc ! i \<in> set (drop (record_count tc) (slots tc))" using nth_mem by metis
  then show False using assms(1,3) by (auto simp: store_ok_def zero_slot_def)
qed

lemma active_bound: "store_ok f tc \<Longrightarrow> slot_is_active tc i \<Longrightarrow> nat i < length (slots tc) \<and> nat i < record_count tc"
  by (auto simp: store_ok_def slot_is_active_def)

text \<open>Changing a slot below the count.\<close>

lemma store_ok_upd:
  assumes ok: "store_ok f tc" and i: "i < record_count tc" and s: "slot_ok f s"
    and c: "n = cached_record_count tc + (if row_cached s then 1 else 0) - (if row_cached (slots tc ! i) then 1 else 0)" "n \<le> ROW_CACHE_LIMIT"
    and fr: "record_active s \<Longrightarrow> i \<notin> set (free_slots tc)"
  shows "store_ok f (tc\<lparr>slots := (slots tc)[i := s], cached_record_count := n, row_cache_clock := k\<rparr>)"
proof -
  have len: "i < length (slots tc)" using ok i by (auto simp: store_ok_def)
  have "int (length (filter row_cached ((slots tc)[i := s]))) = n"
    using filter_update [OF len, of row_cached s] ok c(1) by (auto simp: store_ok_def cached_slots_def split: if_splits)
  moreover have "\<forall>s'\<in>set ((slots tc)[i := s]). slot_ok f s'" using ok s set_update_subset_insert [of "slots tc" i s] by (auto simp: store_ok_def)
  moreover have "drop (record_count tc) ((slots tc)[i := s]) = drop (record_count tc) (slots tc)" using i by simp
  ultimately show ?thesis using ok c(2) fr len by (auto simp: store_ok_def cached_slots_def nth_list_update)
qed

lemma store_ok_pages: "store_ok f tc \<Longrightarrow> other_pages f tc tc' \<Longrightarrow> store_ok f tc'"
  unfolding other_pages_def by (auto simp: store_ok_def cached_slots_def)

lemma slot_text_pages: "other_pages f tc tc' \<Longrightarrow> slot_text tc' i = slot_text tc i"
  unfolding other_pages_def by (auto simp: slot_text_def slot_is_active_def)

lemma zero_slot_ok: "slot_ok f zero_slot"
  by (simp add: slot_ok_def zero_slot_def)

subsection \<open>Eviction\<close>

definition same_rows :: "tcache \<Rightarrow> tcache \<Rightarrow> bool" where
  "same_rows tc tc' \<longleftrightarrow> tc_file tc' = tc_file tc \<and> length (slots tc') = length (slots tc) \<and> record_count tc' = record_count tc \<and> page_cache tc' = page_cache tc \<and>
     (\<forall>i. slot_text tc' i = slot_text tc i) \<and> (\<forall>i<length (slots tc). ref_store (slots tc' ! i) = ref_store (slots tc ! i) \<and>
       ref_offset (slots tc' ! i) = ref_offset (slots tc ! i) \<and> record_active (slots tc' ! i) = record_active (slots tc ! i) \<and>
       (rec (slots tc ! i) = None \<longrightarrow> rec (slots tc' ! i) = None))"

lemma same_rows_refl: "same_rows tc tc"
  by (simp add: same_rows_def)

lemma same_rows_trans: "same_rows a b \<Longrightarrow> same_rows b c \<Longrightarrow> same_rows a c"
  unfolding same_rows_def by simp

lemma advance_ok:
  assumes "store_ok f tc"
  shows "store_ok f (advance_cursor tc)" "same_rows tc (advance_cursor tc)"
  using assms by (simp_all add: advance_cursor_def store_ok_def cached_slots_def same_rows_def slot_text_def slot_is_active_def)

lemma advance_simps [simp]: "slots (advance_cursor tc) = slots tc" "record_count (advance_cursor tc) = record_count tc"
  by (simp_all add: advance_cursor_def)

lemma evict_at_ok:
  assumes ok: "store_ok f tc" and i: "i < record_count tc" and c: "row_cached (slots tc ! i)"
  shows "store_ok f (evict_at i tc)" "same_rows tc (evict_at i tc)"
proof -
  let ?s = "(slots tc ! i)\<lparr>rec := None, row_cached := False, row_cache_seq := 0\<rparr>"
  have len: "i < length (slots tc)" using ok i by (auto simp: store_ok_def)
  note so = slot_okD [OF ok len]
  have csv: "ref_store (slots tc ! i) = ROW_STORE_CSV" using so c by (auto simp: slot_ok_def)
  have s: "slot_ok f ?s" using so csv by (simp add: slot_ok_def)
  have "store_ok f (tc\<lparr>slots := (slots tc)[i := ?s], cached_record_count := cached_record_count tc - 1, row_cache_clock := row_cache_clock tc\<rparr>)"
    by (rule store_ok_upd [OF ok i s]) (use ok c in \<open>auto simp: store_ok_def\<close>)
  then show "store_ok f (evict_at i tc)" by (simp add: evict_at_def)
  have h: "held (tc_file tc) ?s = held (tc_file tc) (slots tc ! i)"
    using so csv c ok by (auto simp: slot_ok_def held_def store_ok_def)
  have "slot_text (evict_at i tc) j = slot_text tc j" for j by (rule slot_text_upd [OF len h]) (simp_all add: evict_at_def)
  then show "same_rows tc (evict_at i tc)" using len by (simp add: same_rows_def nth_list_update evict_at_def)
qed

lemma evict_scan_ok:
  assumes "store_ok f tc" "0 < record_count tc" "evict_scan n tc = (found, left, tc')"
  shows "store_ok f tc' \<and> same_rows tc tc'"
  using assms
proof (induction n arbitrary: tc)
  case 0
  then show ?case by (auto intro: same_rows_refl)
next
  case (Suc n)
  let ?i = "row_cache_evict_cursor tc"
  have i: "?i < record_count tc" using Suc.prems(1,2) by (auto simp: store_ok_def)
  note c = advance_ok [OF Suc.prems(1)]
  show ?case
  proof (cases "\<not> row_cached (slots tc ! ?i) \<or> rec (slots tc ! ?i) = None \<or> store_of (slots tc ! ?i) = ROW_STORE_MEMORY")
    case True
    then have "evict_scan n (advance_cursor tc) = (found, left, tc')" using Suc.prems(3) by (auto simp: Let_def split: if_splits)
    then have "store_ok f tc' \<and> same_rows (advance_cursor tc) tc'" using Suc.IH [OF c(1)] Suc.prems(2) by simp
    then show ?thesis using same_rows_trans [OF c(2)] by blast
  next
    case False
    then have "tc' = evict_at ?i (advance_cursor tc)" using Suc.prems(3) by (auto simp: Let_def)
    moreover have "?i < record_count (advance_cursor tc)" "row_cached (slots (advance_cursor tc) ! ?i)" using i False by simp_all
    ultimately show ?thesis using evict_at_ok [OF c(1)] same_rows_trans [OF c(2)] by blast
  qed
qed

text \<open>The scan visits \<open>n\<close> slots in a circle from the cursor on.\<close>

lemma evict_scan_visits:
  assumes "store_ok f tc" "evict_scan n tc = (False, left, tc')" "k < n" "0 < record_count tc"
  shows "\<not> row_cached (slots tc ! ((row_cache_evict_cursor tc + k) mod record_count tc))"
  using assms
proof (induction n arbitrary: k tc)
  case (Suc n)
  let ?i = "row_cache_evict_cursor tc"
  have i: "?i < record_count tc" "?i < length (slots tc)" using Suc.prems(1,4) by (auto simp: store_ok_def)
  have no: "\<not> row_cached (slots tc ! ?i) \<or> rec (slots tc ! ?i) = None \<or> store_of (slots tc ! ?i) = ROW_STORE_MEMORY"
    and e: "evict_scan n (advance_cursor tc) = (False, left, tc')"
    using Suc.prems(2) by (auto simp: Let_def split: if_splits)
  have nc: "\<not> row_cached (slots tc ! ?i)"
    using no slot_okD [OF Suc.prems(1) i(2)] by (cases "ref_store (slots tc ! ?i)") (auto simp: slot_ok_def)
  show ?case
  proof (cases k)
    case 0
    then show ?thesis using nc i by simp
  next
    case (Suc m)
    have "\<not> row_cached (slots tc ! ((row_cache_evict_cursor (advance_cursor tc) + m) mod record_count tc))"
      using Suc.IH [OF advance_ok(1) [OF Suc.prems(1)] e, of m] Suc.prems(3,4) Suc by simp
    moreover have "(row_cache_evict_cursor (advance_cursor tc) + m) mod record_count tc = (?i + k) mod record_count tc"
    proof (cases "?i + 1 \<ge> record_count tc")
      case True
      then have "?i + k = record_count tc + m" using i Suc by simp
      then show ?thesis using True by (simp add: advance_cursor_def)
    qed (simp add: Suc advance_cursor_def)
    ultimately show ?thesis by simp
  qed
qed simp

lemma evict_finds:
  assumes ok: "store_ok f tc" and c: "0 < cached_record_count tc"
  shows "0 < record_count tc \<and> (\<exists>left tc'. evict_scan (record_count tc) tc = (True, left, tc'))"
proof -
  have "filter row_cached (slots tc) \<noteq> []" using ok c by (auto simp: store_ok_def cached_slots_def)
  then obtain i where i: "i < length (slots tc)" "row_cached (slots tc ! i)" by (metis filter_False in_set_conv_nth)
  have ir: "i < record_count tc" by (rule cached_index [OF ok i])
  obtain found left tc' where e: "evict_scan (record_count tc) tc = (found, left, tc')" by (metis prod_cases3)
  have "found"
  proof (rule ccontr)
    assume nf: "\<not> found"
    let ?n = "record_count tc" and ?c = "row_cache_evict_cursor tc"
    have "?c < ?n" using ok ir by (auto simp: store_ok_def)
    then have "\<exists>k<?n. (?c + k) mod ?n = i"
    proof (cases "?c \<le> i")
      case True
      then show ?thesis using ir by (intro exI [of _ "i - ?c"]) auto
    next
      case False
      then show ?thesis using ir \<open>?c < ?n\<close> by (intro exI [of _ "?n - ?c + i"]) (auto simp: mod_if)
    qed
    then obtain k where "k < ?n" "(?c + k) mod ?n = i" by blast
    then show False using evict_scan_visits [OF ok, of ?n left tc' k] i(2) ir nf e by simp
  qed
  then show ?thesis using e ir by auto
qed

lemma evict_ok:
  assumes ok: "store_ok f tc"
  shows "store_ok f (evict_row_cache_if_needed tc) \<and> same_rows tc (evict_row_cache_if_needed tc) \<and>
    cached_record_count (evict_row_cache_if_needed tc) < ROW_CACHE_LIMIT"
proof (cases "cached_record_count tc \<ge> ROW_CACHE_LIMIT")
  case False
  then show ?thesis using ok same_rows_refl by (subst (1 2 3) evict_row_cache_if_needed.simps) simp
next
  case True
  then have c: "cached_record_count tc = ROW_CACHE_LIMIT" using ok by (auto simp: store_ok_def)
  obtain left tc1 where e: "evict_scan (record_count tc) tc = (True, left, tc1)" and n: "0 < record_count tc"
    using evict_finds [OF ok] c by (auto simp: ROW_CACHE_LIMIT_def)
  have k: "store_ok f tc1 \<and> same_rows tc tc1" by (rule evict_scan_ok [OF ok n e])
  have c1: "cached_record_count tc1 < ROW_CACHE_LIMIT" using evict_scan_count [OF e] c by simp
  then have "evict_row_cache_if_needed tc1 = tc1" by (subst evict_row_cache_if_needed.simps) simp
  then have "evict_row_cache_if_needed tc = tc1" using True n e by (subst evict_row_cache_if_needed.simps) simp
  then show ?thesis using k c1 by simp
qed

subsection \<open>Reading rows\<close>

lemma stamp_ok:
  assumes ok: "store_ok f tc" and i: "i < record_count tc" and csv: "ref_store (slots tc ! i) = ROW_STORE_CSV"
    and r: "rec (slots tc ! i) = None \<Longrightarrow> cached_record_count tc < ROW_CACHE_LIMIT"
  defines "tc' \<equiv> (stamp i (upd_slot i (\<lambda>s. s\<lparr>rec := Some (row_text f (nat (ref_offset (slots tc ! i))))\<rparr>) tc))
      \<lparr>cached_record_count := cached_record_count tc + (if rec (slots tc ! i) = None then 1 else 0)\<rparr>"
  shows "store_ok f tc'" "slot_text tc' j = slot_text tc j"
proof -
  let ?s = "(slots tc ! i)\<lparr>rec := Some (row_text f (nat (ref_offset (slots tc ! i)))), row_cached := True, row_cache_seq := row_cache_clock tc + 1\<rparr>"
  have len: "i < length (slots tc)" using ok i by (auto simp: store_ok_def)
  note so = slot_okD [OF ok len]
  have tc': "tc' = tc\<lparr>slots := (slots tc)[i := ?s], cached_record_count := cached_record_count tc + (if rec (slots tc ! i) = None then 1 else 0),
      row_cache_clock := row_cache_clock tc + 1\<rparr>"
    unfolding tc'_def stamp_def using len by simp
  have s: "slot_ok f ?s" using so csv by (simp add: slot_ok_def)
  have cached: "row_cached (slots tc ! i) = (rec (slots tc ! i) \<noteq> None)" using so csv by (simp add: slot_ok_def)
  show "store_ok f tc'" unfolding tc'
    by (rule store_ok_upd [OF ok i s]) (use ok cached r in \<open>auto simp: store_ok_def\<close>)
  have h: "held (tc_file tc) ?s = held (tc_file tc) (slots tc ! i)"
    using so csv ok by (auto simp: slot_ok_def held_def store_ok_def split: option.splits)
  show "slot_text tc' j = slot_text tc j" by (rule slot_text_upd [OF len h]) (simp_all add: tc')
qed

lemma other_pages_slots: "other_pages f tc tc' \<Longrightarrow> slots tc' = slots tc \<and> record_count tc' = record_count tc \<and> cached_record_count tc' = cached_record_count tc \<and> tc_file tc' = tc_file tc"
  unfolding other_pages_def by auto

lemma read_row_file:
  assumes "store_ok f tc" "i < record_count tc" "ref_store (slots tc ! i) = ROW_STORE_CSV"
    "read_row_from_page_cache tc (ref_offset (slots tc ! i)) = (got, tc1)"
  shows "other_pages f tc tc1 \<and> (case got of Some r \<Rightarrow> Some r | None \<Rightarrow> fgets_line f (nat (ref_offset (slots tc ! i)))) =
    Some (row_text f (nat (ref_offset (slots tc ! i))))"
proof -
  have len: "i < length (slots tc)" using assms(1,2) by (auto simp: store_ok_def)
  have so: "0 \<le> ref_offset (slots tc ! i)" "good_line f (nat (ref_offset (slots tc ! i)))"
    using slot_okD [OF assms(1) len] assms(3) by (auto simp: slot_ok_def)
  have "tc_file tc = Some f" "boundary f (length f)" "pages_ok f (page_cache tc)" using assms(1) by (auto simp: store_ok_def)
  from read_row_page [OF this so(1) assms(4)] fgets_line_good [OF so(2)] show ?thesis by auto
qed

lemma slot_row_ok:
  assumes ok: "store_ok f tc" and r: "slot_row tc i = (r, tc')"
  shows "r = slot_text tc i \<and> store_ok f tc' \<and> (\<forall>j. slot_text tc' j = slot_text tc j)"
proof (cases "slot_is_active tc i")
  case False
  then show ?thesis using r ok by (auto simp: slot_row_def slot_text_def)
next
  case act: True
  let ?k = "nat i" and ?s = "slots tc ! nat i"
  have k: "?k < length (slots tc)" "?k < record_count tc" using active_bound [OF ok act] by auto
  have fl: "tc_file tc = Some f" using ok by (auto simp: store_ok_def)
  note so = slot_okD [OF ok k(1)]
  have some: "record_active ?s" using act by (simp add: slot_is_active_def)
  show ?thesis
  proof (cases "ref_store ?s = ROW_STORE_CSV")
    case mem: False
    then have "store_of ?s = ROW_STORE_MEMORY" using so some by (cases "ref_store ?s") (auto simp: slot_ok_def)
    then show ?thesis using r ok act mem fl by (auto simp: slot_row_def slot_text_def held_def Let_def split: option.splits)
  next
    case csv: True
    then have off: "0 \<le> ref_offset ?s" and st: "store_of ?s = ROW_STORE_CSV" using so by (auto simp: slot_ok_def)
    show ?thesis
    proof (cases "rec ?s")
      case (Some x)
      have x: "x = row_text f (nat (ref_offset ?s))" using so csv Some by (simp add: slot_ok_def)
      have same: "upd_slot ?k (\<lambda>s. s\<lparr>rec := Some x\<rparr>) tc = tc"
      proof -
        have "?s\<lparr>rec := Some x\<rparr> = ?s" using Some by simp
        then show ?thesis by (simp only: list_update_id) simp
      qed
      have z: "(stamp ?k tc)\<lparr>cached_record_count := cached_record_count tc + (if rec ?s = None then 1 else 0)\<rparr> = stamp ?k tc"
        using Some by (simp add: stamp_def)
      have "r = Some x" "tc' = stamp ?k tc" using r act Some st by (auto simp: slot_row_def Let_def)
      moreover have "store_ok f (stamp ?k tc)" "slot_text (stamp ?k tc) j = slot_text tc j" for j
        using stamp_ok(1) [OF ok k(2) csv, unfolded same [unfolded x] z] stamp_ok(2) [OF ok k(2) csv, of j, unfolded same [unfolded x] z] Some by simp_all
      ultimately show ?thesis using act Some by (simp add: slot_text_def held_def)
    next
      case None
      let ?tc1 = "evict_row_cache_if_needed tc"
      have e: "store_ok f ?tc1" "same_rows tc ?tc1" "cached_record_count ?tc1 < ROW_CACHE_LIMIT" using evict_ok [OF ok] by auto
      have k1: "?k < record_count ?tc1" "ref_store (slots ?tc1 ! ?k) = ROW_STORE_CSV" "ref_offset (slots ?tc1 ! ?k) = ref_offset ?s" "rec (slots ?tc1 ! ?k) = None"
        using e(2) k csv None by (auto simp: same_rows_def)
      obtain got tc2 where g: "read_row_from_page_cache ?tc1 (ref_offset ?s) = (got, tc2)" by (cases "read_row_from_page_cache ?tc1 (ref_offset ?s)")
      note rr = read_row_file [OF e(1) k1(1,2) g [folded k1(3)], unfolded k1(3)]
      have ok2: "store_ok f tc2" by (rule store_ok_pages [OF e(1)]) (use rr in simp)
      have sl: "slots tc2 = slots ?tc1" "record_count tc2 = record_count ?tc1" "cached_record_count tc2 = cached_record_count ?tc1"
        using other_pages_slots [of f ?tc1 tc2] rr by auto
      have s2: "slot_text tc2 j = slot_text tc j" for j using slot_text_pages [of f ?tc1 tc2] rr e(2) by (simp add: same_rows_def)
      let ?x = "row_text f (nat (ref_offset ?s))"
      have eq: "r = Some ?x" "tc' = (stamp ?k (upd_slot ?k (\<lambda>s. s\<lparr>rec := Some ?x\<rparr>) tc2))\<lparr>cached_record_count := cached_record_count tc2 + 1\<rparr>"
        using r act None fl csv off g rr by (auto simp: slot_row_def Let_def)
      have st2: "store_ok f tc'" "slot_text tc' j = slot_text tc2 j" for j
        using stamp_ok(1) [OF ok2, of ?k] stamp_ok(2) [OF ok2, of ?k j] k1 sl e(3) unfolding eq(2) by simp_all
      show ?thesis using eq(1) st2 s2 act None fl csv off by (simp add: slot_text_def held_def)
    qed
  qed
qed

lemma slot_row_scan_ok:
  assumes ok: "store_ok f tc" and r: "slot_row_scan tc i = (r, own, tc')"
  shows "r = slot_text tc i \<and> store_ok f tc' \<and> (\<forall>j. slot_text tc' j = slot_text tc j)"
proof (cases "slot_is_active tc i \<and> rec (slots tc ! nat i) = None \<and> ref_store (slots tc ! nat i) = ROW_STORE_CSV")
  case False
  have "tc_file tc = Some f" using ok by (auto simp: store_ok_def)
  then have "r = slot_text tc i" "tc' = tc" using r False
    by (cases "rec (slots tc ! nat i)"; simp add: slot_row_scan_def slot_text_def held_def Let_def split: if_splits)+
  then show ?thesis using ok by simp
next
  case True
  let ?s = "slots tc ! nat i"
  have k: "nat i < length (slots tc)" "nat i < record_count tc" using active_bound [OF ok] True by auto
  have fl: "tc_file tc = Some f" "0 \<le> ref_offset ?s" using ok slot_okD [OF ok k(1)] True by (auto simp: store_ok_def slot_ok_def)
  obtain got tc1 where g: "read_row_from_page_cache tc (ref_offset ?s) = (got, tc1)" by (cases "read_row_from_page_cache tc (ref_offset ?s)")
  note rr = read_row_file [OF ok k(2) _ g]
  have "r = Some (row_text f (nat (ref_offset ?s)))" "tc' = tc1" using r True fl g rr by (auto simp: slot_row_scan_def Let_def)
  moreover have "other_pages f tc tc1" using rr True by simp
  moreover have "slot_text tc i = Some (row_text f (nat (ref_offset ?s)))" using True fl by (simp add: slot_text_def held_def)
  ultimately show ?thesis using store_ok_pages [OF ok] slot_text_pages by simp
qed

subsection \<open>Changing rows\<close>

lemma slot_text_other:
  assumes "tc_file tc' = tc_file tc" "record_count tc' = record_count tc" "slots tc' = (slots tc)[k := s]" "nat j \<noteq> k"
  shows "slot_text tc' j = slot_text tc j"
  using assms by (simp add: slot_text_def slot_is_active_def)

lemma slot_text_this:
  assumes "record_count tc' = record_count tc" "slots tc' = (slots tc)[k := s]" "k < record_count tc" "k < length (slots tc)"
  shows "slot_text tc' (int k) = (if record_active s then held (tc_file tc') s else None)"
  using assms by (simp add: slot_text_def slot_is_active_def)

lemma slot_text_eqI:
  assumes "tc_file tc' = tc_file tc" "record_count tc' = record_count tc" "slots tc' = (slots tc)[k := s]" "k < record_count tc" "k < length (slots tc)"
  shows "slot_text tc' = (slot_text tc)(int k := if record_active s then held (tc_file tc) s else None)"
proof
  fix j
  show "slot_text tc' j = ((slot_text tc)(int k := if record_active s then held (tc_file tc) s else None)) j"
  proof (cases "j = int k")
    case True
    then show ?thesis using slot_text_this [OF assms(2-5)] assms(1) by simp
  next
    case ne: False
    show ?thesis
    proof (cases "j < 0")
      case True
      then have "slot_text tc' j = None" "slot_text tc j = None" by (simp_all add: slot_text_def slot_is_active_def)
      then show ?thesis using ne by simp
    next
      case False
      then have "nat j \<noteq> k" using ne by simp
      then show ?thesis using slot_text_other [OF assms(1-3)] ne by simp
    qed
  qed
qed

lemma uncount_eq: "store_ok f tc \<Longrightarrow> i < length (slots tc) \<Longrightarrow> uncount (slots tc ! i) tc = cached_record_count tc - (if row_cached (slots tc ! i) then 1 else 0)"
proof -
  assume "store_ok f tc" "i < length (slots tc)"
  moreover have "filter row_cached (slots tc) \<noteq> []" if "row_cached (slots tc ! i)"
    using that \<open>i < length (slots tc)\<close> nth_mem [of i "slots tc"] by (auto simp: filter_empty_conv)
  ultimately show "uncount (slots tc ! i) tc = cached_record_count tc - (if row_cached (slots tc ! i) then 1 else 0)"
    by (auto simp: uncount_def store_ok_def cached_slots_def)
qed

text \<open>Taking a slot: it is not in use, and nothing else changes.\<close>

lemma record_cap_le: "0 < c \<Longrightarrow> c \<le> record_cap required c \<or> record_cap required c = MAX_RECORDS"
proof (induction required c rule: record_cap.induct)
  case (1 required c)
  then show ?case by (subst (1 2) record_cap.simps) (auto simp: MAX_RECORDS_def)
qed

lemma ensure_record_capacity_ok:
  assumes ok: "store_ok f tc" and e: "ensure_record_capacity tc n = (True, tc')"
  shows "store_ok f tc' \<and> n \<le> length (slots tc') \<and> (\<exists>k. tc' = tc\<lparr>slots := slots tc @ replicate k zero_slot\<rparr>)"
proof (cases "n \<le> length (slots tc)")
  case True
  then show ?thesis using ok e by (auto simp: ensure_record_capacity_def intro!: exI [of _ 0])
next
  case False
  let ?c = "record_cap n (if length (slots tc) > 0 then length (slots tc) else INITIAL_RECORD_CAPACITY)"
  have t: "n \<le> ?c" "tc' = tc\<lparr>slots := slots tc @ replicate (?c - length (slots tc)) zero_slot\<rparr>"
    using e False by (auto simp: ensure_record_capacity_def Let_def split: if_splits)
  have "row_cached zero_slot = False" "slot_ok f zero_slot" by (simp add: zero_slot_def) (rule zero_slot_ok)
  then have "store_ok f tc'" using ok unfolding t(2) by (auto simp: store_ok_def cached_slots_def nth_append)
  then show ?thesis using t False by auto
qed

lemma take_slot_ok:
  assumes ok: "store_ok f tc" and t: "take_record_slot tc reuse = Some (i, tc')"
  shows "store_ok f tc' \<and> i < record_count tc' \<and> i < length (slots tc') \<and> \<not> record_active (slots tc' ! i) \<and> i \<notin> set (free_slots tc') \<and>
    slot_text tc' = slot_text tc \<and> slot_text tc (int i) = None"
proof (cases "reuse \<and> free_slots tc \<noteq> []")
  case True
  then have eq: "i = last (free_slots tc)" "tc' = tc\<lparr>free_slots := butlast (free_slots tc)\<rparr>" using t by (auto simp: take_record_slot_def)
  have fr: "free_slots tc = butlast (free_slots tc) @ [i]" using True eq(1) by simp
  have i: "i < record_count tc" "\<not> record_active (slots tc ! i)" "distinct (butlast (free_slots tc) @ [i])"
  proof -
    have "i \<in> set (free_slots tc)" by (subst fr) simp
    then show "i < record_count tc" "\<not> record_active (slots tc ! i)" using ok by (auto simp: store_ok_def)
    show "distinct (butlast (free_slots tc) @ [i])" using ok fr by (simp add: store_ok_def)
  qed
  have "set (butlast (free_slots tc)) \<subseteq> set (free_slots tc)" by (meson in_set_butlastD subsetI)
  then have "store_ok f tc'" using ok i(3) unfolding eq(2) by (auto simp: store_ok_def cached_slots_def)
  moreover have "slot_text tc' = slot_text tc" unfolding eq(2) by (rule ext) (simp add: slot_text_def slot_is_active_def)
  ultimately show ?thesis using i ok unfolding eq(2) by (auto simp: store_ok_def slot_text_def slot_is_active_def)
next
  case False
  then obtain tc1 where e: "ensure_record_capacity tc (record_count tc + 1) = (True, tc1)" "i = record_count tc1"
    "tc' = tc1\<lparr>record_count := record_count tc1 + 1\<rparr>"
    using t by (auto simp: take_record_slot_def split: if_splits prod.splits bool.splits)
  obtain k where k: "store_ok f tc1" "record_count tc + 1 \<le> length (slots tc1)" "tc1 = tc\<lparr>slots := slots tc @ replicate k zero_slot\<rparr>"
    using ensure_record_capacity_ok [OF ok e(1)] by blast
  have rc: "record_count tc1 = record_count tc" using k(3) by simp
  have len: "record_count tc1 < length (slots tc1)" using k(2) rc by simp
  have "slots tc1 ! i \<in> set (drop (record_count tc1) (slots tc1))" using len e(2) by (metis Cons_nth_drop_Suc list.set_intros(1))
  then have z: "slots tc1 ! i = zero_slot" using k(1) by (auto simp: store_ok_def)
  have "set (drop (record_count tc1 + 1) (slots tc1)) \<subseteq> set (drop (record_count tc1) (slots tc1))"
    by (rule set_drop_subset_set_drop) simp
  then have "store_ok f tc'" using k(1) len unfolding e(3) by (auto simp: store_ok_def cached_slots_def)
  moreover have "\<not> record_active (slots tc' ! i)" "i \<notin> set (free_slots tc')"
    using z k(1) e(2) unfolding e(3) by (auto simp: zero_slot_def store_ok_def)
  moreover have "slot_text tc' = slot_text tc"
  proof
    fix j
    have rc': "record_count tc' = record_count tc + 1" "slots tc' = slots tc1" "tc_file tc' = tc_file tc" using e(3) rc k(3) by simp_all
    show "slot_text tc' j = slot_text tc j"
    proof (cases "0 \<le> j \<and> j < int (record_count tc)")
      case True
      then have "nat j < length (slots tc)" using ok by (auto simp: store_ok_def)
      then have "slots tc' ! nat j = slots tc ! nat j" unfolding rc'(2) k(3) by (simp add: nth_append)
      then show ?thesis using True rc' by (simp add: slot_text_def slot_is_active_def)
    next
      case False
      have "\<not> record_active (slots tc' ! nat j)" if "0 \<le> j" "j < int (record_count tc) + 1"
      proof -
        have "nat j = i" using that False e(2) rc by simp
        then show ?thesis using z rc'(2) by (simp add: zero_slot_def)
      qed
      then have "\<not> slot_is_active tc' j" "\<not> slot_is_active tc j" using False rc' by (auto simp: slot_is_active_def)
      then show ?thesis by (simp add: slot_text_def)
    qed
  qed
  moreover have "slot_text tc (int i) = None" using e(2) rc by (simp add: slot_text_def slot_is_active_def)
  ultimately show ?thesis using len e by auto
qed

text \<open>The contents of a slot are replaced by a row that is not in the row cache.\<close>

lemma set_slot_ok:
  fixes a :: int
  assumes ok: "store_ok f tc" and i: "i < record_count tc" and s: "slot_ok f s" "\<not> row_cached s"
    and fr: "record_active s \<Longrightarrow> i \<notin> set (free_slots tc)"
  defines "tc' \<equiv> tc\<lparr>slots := (slots tc)[i := s], cached_record_count := uncount (slots tc ! i) tc, active_count := a\<rparr>"
  shows "store_ok f tc'" "slot_text tc' = (slot_text tc)(int i := if record_active s then held (Some f) s else None)"
proof -
  have len: "i < length (slots tc)" using ok i by (auto simp: store_ok_def)
  have "uncount (slots tc ! i) tc \<le> ROW_CACHE_LIMIT" unfolding uncount_eq [OF ok len] using ok by (auto simp: store_ok_def)
  then have "store_ok f (tc\<lparr>slots := (slots tc)[i := s], cached_record_count := uncount (slots tc ! i) tc, row_cache_clock := row_cache_clock tc\<rparr>)"
    by (intro store_ok_upd [OF ok i s(1)]) (use s(2) fr uncount_eq [OF ok len] in auto)
  then show "store_ok f tc'" by (simp add: tc'_def store_ok_def cached_slots_def)
  have "tc_file tc = Some f" using ok by (auto simp: store_ok_def)
  then show "slot_text tc' = (slot_text tc)(int i := if record_active s then held (Some f) s else None)"
    using slot_text_eqI [of tc' tc i s] i len by (simp add: tc'_def)
qed

lemma deactivate_ok:
  assumes ok: "store_ok f tc" and d: "deactivate_slot tc i b = (True, tc')"
  shows "store_ok f tc' \<and> slot_text tc' = (slot_text tc)(i := None)"
proof -
  have act: "slot_is_active tc i" using d by (auto simp: deactivate_slot_def split: if_splits)
  let ?k = "nat i"
  let ?tc1 = "tc\<lparr>slots := (slots tc)[?k := zero_slot], cached_record_count := uncount (slots tc ! ?k) tc, active_count := active_count tc - 1\<rparr>"
  have k: "?k < length (slots tc)" "?k < record_count tc" "int ?k = i" "record_active (slots tc ! ?k)"
    using active_bound [OF ok act] act by (auto simp: slot_is_active_def)
  have z: "\<not> row_cached zero_slot" "\<not> record_active zero_slot" by (simp_all add: zero_slot_def)
  have ok1: "store_ok f ?tc1" "slot_text ?tc1 = (slot_text tc)(i := None)"
    using set_slot_ok [OF ok k(2) zero_slot_ok z(1), of "active_count tc - 1"] z(2) k(3) by simp_all
  have nf: "?k \<notin> set (free_slots tc)" using ok k by (auto simp: store_ok_def)
  obtain cap fs where tc': "tc' = ?tc1\<lparr>free_capacity := cap, free_slots := fs\<rparr>" "fs = free_slots tc \<or> fs = free_slots tc @ [?k]"
  proof (cases b)
    case True
    then show ?thesis
      using that [of "free_slots tc @ [?k]" "free_capacity (ensure_free_slot_capacity tc (length (free_slots tc) + 1))"] d act
      by (auto simp: deactivate_slot_def Let_def ensure_free_slot_capacity_def)
  next
    case False
    then show ?thesis using that [of "free_slots tc" "free_capacity tc"] d act by (auto simp: deactivate_slot_def Let_def)
  qed
  have "store_ok f tc'" using ok1(1) tc'(2) nf k z(2) unfolding tc'(1) by (auto simp: store_ok_def cached_slots_def)
  moreover have "slot_text tc' = slot_text ?tc1" unfolding tc'(1) by (rule ext) (simp add: slot_text_def slot_is_active_def)
  ultimately show ?thesis using ok1(2) by simp
qed

lemma replace_ok:
  assumes ok: "store_ok f tc" and d: "replace_record_at tc i r = (True, tc')"
  shows "store_ok f tc' \<and> slot_text tc' = (slot_text tc)(i \<mapsto> r)"
proof -
  have act: "slot_is_active tc i" using d by (auto simp: replace_record_at_def split: if_splits)
  let ?k = "nat i"
  let ?s = "(slots tc ! ?k)\<lparr>rec := Some r, store_of := ROW_STORE_MEMORY, row_offset := - 1, ref_store := ROW_STORE_MEMORY,
      ref_offset := - 1, row_cached := False, row_cache_seq := 0\<rparr>"
  have k: "?k < length (slots tc)" "?k < record_count tc" "int ?k = i" "record_active (slots tc ! ?k)"
    using active_bound [OF ok act] act by (auto simp: slot_is_active_def)
  have s: "slot_ok f ?s" "\<not> row_cached ?s" "record_active ?s" "held (Some f) ?s = Some r" using k(4) by (simp_all add: slot_ok_def held_def)
  have nf: "?k \<notin> set (free_slots tc)" using ok k by (auto simp: store_ok_def)
  have "tc' = tc\<lparr>slots := (slots tc)[?k := ?s], cached_record_count := uncount (slots tc ! ?k) tc, active_count := active_count tc\<rparr>"
    using d act by (auto simp: replace_record_at_def Let_def)
  then show ?thesis using set_slot_ok [OF ok k(2) s(1,2), of "active_count tc"] nf s(3,4) k(3) by simp
qed

lemma place_ok:
  assumes ok: "store_ok f tc" and i: "i < record_count tc" "i < length (slots tc)" "i \<notin> set (free_slots tc)" and off: "good_line f off"
    and a: "assign_slot_row tc i r ROW_STORE_CSV (int off) False = Some tc2"
  shows "store_ok f (activate i rid tc2) \<and> slot_text (activate i rid tc2) = (slot_text tc)(int i \<mapsto> row_text f off)"
proof -
  let ?s = "(slots tc ! i)\<lparr>rec := None, row_cached := False, row_cache_seq := 0, store_of := ROW_STORE_CSV, row_offset := int off,
      ref_store := ROW_STORE_CSV, ref_offset := int off, row_id := rid, record_active := True\<rparr>"
  have s: "slot_ok f ?s" "\<not> row_cached ?s" "record_active ?s" "held (Some f) ?s = Some (row_text f off)" using off by (simp_all add: slot_ok_def held_def)
  have "activate i rid tc2 = tc\<lparr>slots := (slots tc)[i := ?s], cached_record_count := uncount (slots tc ! i) tc, active_count := active_count tc + 1\<rparr>"
    using a i by (auto simp: assign_slot_row_def activate_def Let_def)
  then show ?thesis using set_slot_ok [OF ok i(1) s(1,2), of "active_count tc + 1"] i(3) s(3,4) by simp
qed

lemma load_ok:
  assumes ok: "store_ok f tc" and off: "good_line f off" and a: "append_record_raw_memory tc r rid (int off) = Some (i, tc')"
  shows "store_ok f tc' \<and> slot_text tc' = (slot_text tc)(int i \<mapsto> row_text f off) \<and> slot_text tc (int i) = None"
proof -
  obtain tc1 tc2 where t: "take_record_slot tc False = Some (i, tc1)" "assign_slot_row tc1 i r ROW_STORE_CSV (int off) False = Some tc2" "tc' = activate i rid tc2"
    using a by (auto simp: append_record_raw_memory_def split: option.splits)
  note tk = take_slot_ok [OF ok t(1)]
  show ?thesis using place_ok [OF _ _ _ _ off t(2)] tk t(3) by auto
qed

lemma memory_ok:
  assumes ok: "store_ok f tc" and t: "take_record_slot tc reuse = Some (i, tc1)"
    and a: "assign_slot_row tc1 i r ROW_STORE_MEMORY (- 1) True = Some tc2"
  shows "store_ok f (activate i rid tc2) \<and> slot_text (activate i rid tc2) = (slot_text tc)(int i \<mapsto> r) \<and> slot_text tc (int i) = None"
proof -
  note tk = take_slot_ok [OF ok t]
  let ?s = "(slots tc1 ! i)\<lparr>row_cached := False, row_cache_seq := 0, store_of := ROW_STORE_MEMORY, row_offset := - 1,
      ref_store := ROW_STORE_MEMORY, ref_offset := - 1, rec := Some r, row_id := rid, record_active := True\<rparr>"
  have s: "slot_ok f ?s" "\<not> row_cached ?s" "record_active ?s" "held (Some f) ?s = Some r" by (simp_all add: slot_ok_def held_def)
  have "activate i rid tc2 = tc1\<lparr>slots := (slots tc1)[i := ?s], cached_record_count := uncount (slots tc1 ! i) tc1, active_count := active_count tc1 + 1\<rparr>"
    by (rule tcache.equality) (use a tk in \<open>auto simp: assign_slot_row_def activate_def Let_def\<close>)
  then show ?thesis using set_slot_ok [of f tc1 i ?s "active_count tc1 + 1"] tk s by auto
qed

text \<open>The file grows by a line.\<close>

lemma slot_ok_append: "slot_ok f s \<Longrightarrow> slot_ok (f @ g) s \<and> held (Some (f @ g)) s = held (Some f) s"
  using good_line_append by (auto simp: slot_ok_def held_def split: option.splits)

lemma append_file_ok:
  assumes ok: "store_ok f tc" and a: "append_record_file tc r = (True, tc')"
  shows "store_ok (f @ r @ [CHR 0x0A]) tc' \<and> slot_text tc' = slot_text tc"
proof -
  let ?g = "r @ [CHR 0x0A]"
  have fl: "tc_file tc = Some f" using ok by (auto simp: store_ok_def)
  obtain off where tc': "tc' = tc\<lparr>tc_file := Some (f @ ?g), append_offset := off\<rparr>" using a fl by (auto simp: append_record_file_def)
  have "boundary (f @ ?g) (length (f @ ?g))" by (simp add: boundary_def nth_append)
  moreover have "pages_ok (f @ ?g) (page_cache tc)" using ok page_ok_append by (auto simp: store_ok_def pages_ok_def)
  ultimately have "store_ok (f @ ?g) tc'" using ok slot_ok_append unfolding tc' by (simp add: store_ok_def cached_slots_def)
  moreover have "slot_text tc' j = slot_text tc j" for j
    using slot_ok_append [of f _ ?g] slot_okD [OF ok] active_bound [OF ok] fl unfolding tc' by (simp add: slot_text_def slot_is_active_def)
  ultimately show ?thesis by auto
qed

text \<open>A row that is inserted: its slot is made first, for the offset at the end of the file, and then the line is written.\<close>

lemma insert_ok:
  assumes ok: "store_ok f tc" and t: "take_record_slot tc reuse = Some (i, tc1)"
    and a: "assign_slot_row tc1 i r ROW_STORE_CSV (int (length f)) False = Some tc2"
    and w: "append_record_file (activate i rid tc2) r = (True, tc')"
    and r: "\<forall>c\<in>set r. \<not> row_end c \<and> c \<noteq> CHR 0x00" "length r < RECORD_SIZE"
  shows "store_ok (f @ r @ [CHR 0x0A]) tc' \<and> slot_text tc' = (slot_text tc)(int i \<mapsto> r) \<and> slot_text tc (int i) = None"
proof -
  let ?f = "f @ r @ [CHR 0x0A]"
  note tk = take_slot_ok [OF ok t]
  have fl: "tc_file tc1 = Some f" using tk by (auto simp: store_ok_def)
  obtain tcf where tcf: "append_record_file tc1 r = (True, tcf)" "tcf = tc1\<lparr>tc_file := tc_file tcf, append_offset := append_offset tcf\<rparr>"
    using fl by (auto simp: append_record_file_def)
  note af = append_file_ok [OF _ tcf(1), of f]
  have same: "record_count tcf = record_count tc1" "slots tcf = slots tc1" "free_slots tcf = free_slots tc1" by (subst tcf(2), simp)+
  have lt: "i < length (slots tcf)" using tk same by simp
  obtain tc3 where tc3: "assign_slot_row tcf i r ROW_STORE_CSV (int (length f)) False = Some tc3" using lt by (auto simp: assign_slot_row_def Let_def)
  have eq: "tc' = activate i rid tc3"
    using w a tc3 tcf(1) fl tk by (auto simp: append_record_file_def assign_slot_row_def activate_def uncount_def Let_def split: if_splits)
  have nl: "takeWhile (\<lambda>c. c \<noteq> CHR 0x0A) (r @ [CHR 0x0A]) = r" using r(1) by (subst takeWhile_append2) (auto simp: row_end_def)
  then have gl: "good_line ?f (length f)" using r(2) by (simp add: good_line_def)
  have rt: "row_text ?f (length f) = r" using r(1) by (simp add: row_text_eq takeWhile_append2 row_end_def)
  have "store_ok ?f (activate i rid tc3) \<and> slot_text (activate i rid tc3) = (slot_text tcf)(int i \<mapsto> row_text ?f (length f))"
    by (rule place_ok [OF _ _ lt _ gl tc3]) (use af tk same in auto)
  then show ?thesis using eq rt af tk by auto
qed

end
