(* ===== verification/Legacy_Store_Props.thy ===== *)
theory Legacy_Store_Props
  imports Legacy_Store_Correct
begin

text \<open>The properties of the storage layer of the command line engine.\<close>

subsection \<open>The store refines a map\<close>

text \<open>
  Runs of the store over the contents of the file, with the map from slots to rows that they mean: reads and scans, rows that
  are loaded from the file, inserted, kept in memory, replaced and deleted, and the page cache being cleared.
\<close>

inductive store_run :: "string \<Rightarrow> tcache \<Rightarrow> (int \<Rightarrow> string option) \<Rightarrow> bool" where
  start: "boundary f (length f) \<Longrightarrow> store_run f (reset_store (Some f)) Map.empty"
| read: "store_run f tc m \<Longrightarrow> slot_row tc i = (r, tc') \<Longrightarrow> store_run f tc' m"
| scan: "store_run f tc m \<Longrightarrow> slot_row_scan tc i = (r, own, tc') \<Longrightarrow> store_run f tc' m"
| clear: "store_run f tc m \<Longrightarrow> store_run f (clear_page_cache tc) m"
| load: "store_run f tc m \<Longrightarrow> good_line f off \<Longrightarrow> append_record_raw_memory tc r rid (int off) = Some (i, tc') \<Longrightarrow>
    store_run f tc' (m(int i \<mapsto> row_text f off))"
| insert: "store_run f tc m \<Longrightarrow> take_record_slot tc reuse = Some (i, tc1) \<Longrightarrow>
    assign_slot_row tc1 i r ROW_STORE_CSV (int (length f)) False = Some tc2 \<Longrightarrow> append_record_file (activate i rid tc2) r = (True, tc') \<Longrightarrow>
    \<forall>c\<in>set r. \<not> row_end c \<and> c \<noteq> CHR 0x00 \<Longrightarrow> length r < RECORD_SIZE \<Longrightarrow> store_run (f @ r @ [CHR 0x0A]) tc' (m(int i \<mapsto> r))"
| memory: "store_run f tc m \<Longrightarrow> take_record_slot tc reuse = Some (i, tc1) \<Longrightarrow>
    assign_slot_row tc1 i r ROW_STORE_MEMORY (- 1) True = Some tc2 \<Longrightarrow> store_run f (activate i rid tc2) (m(int i \<mapsto> r))"
| replace: "store_run f tc m \<Longrightarrow> replace_record_at tc i r = (True, tc') \<Longrightarrow> store_run f tc' (m(i \<mapsto> r))"
| delete: "store_run f tc m \<Longrightarrow> deactivate_slot tc i reuse = (True, tc') \<Longrightarrow> store_run f tc' (m(i := None))"

lemma reset_ok: "boundary f (length f) \<Longrightarrow> store_ok f (reset_store (Some f)) \<and> slot_text (reset_store (Some f)) = Map.empty"
  by (auto simp: store_ok_def reset_store_def pages_ok_def page_ok_def zero_page_def cached_slots_def ROW_CACHE_LIMIT_def slot_text_def
      slot_is_active_def fun_eq_iff)

lemma clear_pages_ok: "store_ok f tc \<Longrightarrow> store_ok f (clear_page_cache tc) \<and> slot_text (clear_page_cache tc) = slot_text tc"
proof -
  assume ok: "store_ok f tc"
  have "other_pages f tc (clear_page_cache tc)"
    unfolding other_pages_def clear_page_cache_def
    by (intro exI [of _ "map (\<lambda>_. zero_page) (page_cache tc)"] exI [of _ 0]) (auto simp: pages_ok_def page_ok_def zero_page_def)
  then show ?thesis using store_ok_pages [OF ok] slot_text_pages by blast
qed

lemma store_run_ok: "store_run f tc m \<Longrightarrow> store_ok f tc \<and> slot_text tc = m"
proof (induction rule: store_run.induct)
  case (start f)
  then show ?case by (rule reset_ok)
next
  case (read f tc m i r tc')
  then show ?case using slot_row_ok [of f tc i r tc'] by auto
next
  case (scan f tc m i r own tc')
  then show ?case using slot_row_scan_ok [of f tc i r own tc'] by auto
next
  case (clear f tc m)
  then show ?case using clear_pages_ok by blast
next
  case (load f tc m off r rid i tc')
  then show ?case using load_ok [of f tc off r rid i tc'] by simp
next
  case (insert f tc m reuse i tc1 r tc2 rid tc')
  then show ?case using insert_ok [of f tc reuse i tc1 r tc2 rid tc'] by simp
next
  case (memory f tc m reuse i tc1 r tc2 rid)
  then show ?case using memory_ok [of f tc reuse i tc1 r tc2 rid] by simp
next
  case (replace f tc m i r tc')
  then show ?case using replace_ok [of f tc i r tc'] by simp
next
  case (delete f tc m i reuse tc')
  then show ?case using deactivate_ok [of f tc i reuse tc'] by simp
qed

text \<open>
  C38. In every run of the store, reading a slot gives the row that was last put into it, whether it is in the file or in
  memory, and whatever the row cache and the page cache have evicted or still hold of an older file; the row cache keeps within its
  bound.
\<close>

theorem row_store_refines:
  assumes "store_run f tc m"
  shows "fst (slot_row tc i) = m i \<and> fst (slot_row_scan tc i) = m i \<and> cached_record_count (snd (slot_row tc i)) \<le> ROW_CACHE_LIMIT"
proof -
  have ok: "store_ok f tc" and m: "slot_text tc = m" using store_run_ok [OF assms] by auto
  obtain r tc' where r: "slot_row tc i = (r, tc')" by (cases "slot_row tc i")
  obtain r2 own tc2 where s: "slot_row_scan tc i = (r2, own, tc2)" by (cases "slot_row_scan tc i")
  show ?thesis using slot_row_ok [OF ok r] slot_row_scan_ok [OF ok s] r s m by (auto simp: store_ok_def)
qed

theorem row_store_refines_witness:
  "\<exists>tc. store_run (''id(PK)'' @ [CHR 0x0A] @ ''7,ann'' @ [CHR 0x0A]) tc (Map.empty(0 \<mapsto> ''7,ann'')) \<and> fst (slot_row tc 0) = Some ''7,ann''"
proof -
  let ?f = "''id(PK)'' @ [CHR 0x0A]"
  let ?t0 = "reset_store (Some ?f)"
  have 0: "store_run ?f ?t0 Map.empty" by (rule store_run.start) (simp add: boundary_def)
  have "record_cap 1 1024 = 1024" by (subst record_cap.simps) simp
  then obtain tc1 where 1: "take_record_slot ?t0 True = Some (0, tc1)" "0 < length (slots tc1)" "tc_file tc1 = Some ?f"
    by (auto simp: take_record_slot_def reset_store_def ensure_record_capacity_def INITIAL_RECORD_CAPACITY_def MAX_RECORDS_def Let_def)
  then obtain tc2 where 2: "assign_slot_row tc1 0 ''7,ann'' ROW_STORE_CSV (int (length ?f)) False = Some tc2" "tc_file tc2 = Some ?f"
    by (auto simp: assign_slot_row_def Let_def)
  then obtain tc' where 3: "append_record_file (activate 0 1 tc2) ''7,ann'' = (True, tc')" by (auto simp: append_record_file_def activate_def)
  have "store_run (?f @ ''7,ann'' @ [CHR 0x0A]) tc' (Map.empty(int 0 \<mapsto> ''7,ann''))"
    by (rule store_run.insert [OF 0 1(1) 2(1) 3]) (simp_all add: row_end_def RECORD_SIZE_def)
  then have run: "store_run (''id(PK)'' @ [CHR 0x0A] @ ''7,ann'' @ [CHR 0x0A]) tc' (Map.empty(0 \<mapsto> ''7,ann''))" by simp
  from row_store_refines [OF this, of 0] run show ?thesis by auto
qed

subsection \<open>Rows that are only in the file\<close>

lemma tail_shift_set: "set (tail_shift x ys) = insert x (set ys)"
  by (induction x ys rule: tail_shift.induct) auto

lemma tail_shift_sorted: "sorted_wrt (\<ge>) (map fst ys) \<Longrightarrow> sorted_wrt (\<ge>) (map fst (tail_shift x ys))"
  by (induction x ys rule: tail_shift.induct) (auto simp: tail_shift_set)

lemma tail_search_correct:
  assumes "sorted (map fst xs)" "0 \<le> lo" "hi < int (length xs)"
    and "\<forall>i<length xs. fst (xs ! i) = k \<longrightarrow> lo \<le> int i \<and> int i \<le> hi"
  shows "case tail_search xs k lo hi of None \<Rightarrow> k \<notin> fst ` set xs | Some v \<Rightarrow> (k, v) \<in> set xs"
  using assms
proof (induction xs k lo hi rule: tail_search.induct)
  case (1 xs k lo hi)
  let ?mid = "lo + (hi - lo) div 2"
  have mono: "fst (xs ! i) \<le> fst (xs ! j)" if "i \<le> j" "j < length xs" for i j
    using sorted_nth_mono [OF "1.prems"(1), of i j] that by simp
  show ?case
  proof (cases "lo \<le> hi")
    case False
    then have "k \<notin> fst ` set xs" using "1.prems"(4) by (fastforce simp: in_set_conv_nth)
    then show ?thesis using False by (subst tail_search.simps) simp
  next
    case True
    then have mid: "0 \<le> ?mid" "nat ?mid < length xs" "lo \<le> ?mid" "?mid \<le> hi" using "1.prems"(2,3) by auto
    consider "fst (xs ! nat ?mid) = k" | "fst (xs ! nat ?mid) < k" | "k < fst (xs ! nat ?mid)" by linarith
    then show ?thesis
    proof cases
      case 1
      then have "(k, snd (xs ! nat ?mid)) \<in> set xs" using mid by (metis nth_mem prod.collapse)
      then show ?thesis using True 1 by (subst tail_search.simps) (simp add: Let_def)
    next
      case 2
      have "\<forall>i<length xs. fst (xs ! i) = k \<longrightarrow> ?mid + 1 \<le> int i \<and> int i \<le> hi"
      proof (intro allI impI)
        fix i assume i: "i < length xs" "fst (xs ! i) = k"
        have "nat ?mid < i" using mono [of i "nat ?mid"] i(2) 2 mid by (cases "i \<le> nat ?mid") auto
        then show "?mid + 1 \<le> int i \<and> int i \<le> hi" using "1.prems"(4) i mid by auto
      qed
      then have "case tail_search xs k (?mid + 1) hi of None \<Rightarrow> k \<notin> fst ` set xs | Some v \<Rightarrow> (k, v) \<in> set xs"
        using "1.IH"(1) [OF True refl _ _ "1.prems"(1)] 2 "1.prems"(3) mid by simp
      then show ?thesis using True 2 by (subst tail_search.simps) (simp add: Let_def)
    next
      case 3
      have "\<forall>i<length xs. fst (xs ! i) = k \<longrightarrow> lo \<le> int i \<and> int i \<le> ?mid - 1"
      proof (intro allI impI)
        fix i assume i: "i < length xs" "fst (xs ! i) = k"
        have "i < nat ?mid" using mono [of "nat ?mid" i] i 3 by (cases "nat ?mid \<le> i") auto
        then show "lo \<le> int i \<and> int i \<le> ?mid - 1" using "1.prems"(4) i mid by auto
      qed
      then have "case tail_search xs k lo (?mid - 1) of None \<Rightarrow> k \<notin> fst ` set xs | Some v \<Rightarrow> (k, v) \<in> set xs"
        using "1.IH"(2) [OF True refl _ _ "1.prems"(1,2)] 3 "1.prems"(3) mid by simp
      then show ?thesis using True 3 by (subst tail_search.simps) (simp add: Let_def)
    qed
  qed
qed

lemma tail_fold:
  "sorted (map fst (tail_index tc)) \<Longrightarrow>
   sorted (map fst (tail_index (fold (\<lambda>(k, off) tc. append_tail_pk_offset tc k off) ps tc))) \<and>
   set (tail_index (fold (\<lambda>(k, off) tc. append_tail_pk_offset tc k off) ps tc)) = set ps \<union> set (tail_index tc)"
proof (induction ps arbitrary: tc)
  case (Cons p ps)
  obtain k off where p: "p = (k, off)" by (cases p)
  let ?tc = "append_tail_pk_offset tc k off"
  have t: "tail_index ?tc = rev (tail_shift (k, off) (rev (tail_index tc)))"
    by (simp add: append_tail_pk_offset_def Let_def ensure_tail_index_capacity_def)
  have "sorted_wrt (\<ge>) (map fst (rev (tail_index tc)))" using Cons.prems by (simp add: rev_map [symmetric] sorted_wrt_rev)
  from tail_shift_sorted [OF this, of "(k, off)"] have "sorted (map fst (tail_index ?tc))" unfolding t by (simp add: rev_map [symmetric] sorted_wrt_rev)
  from Cons.IH [OF this] show ?case using p by (auto simp: t tail_shift_set)
qed simp

text \<open>
  The binary search over the rows that are only in the file ends and finds an offset exactly for the keys that were
  appended, in any order, and only an offset that was appended with the key.
\<close>

theorem tail_index_search:
  assumes "tail_index tc0 = []"
  shows "case find_tail_pk_offset (fold (\<lambda>(k, off) tc. append_tail_pk_offset tc k off) ps tc0) key of
      None \<Rightarrow> key \<notin> fst ` set ps | Some off \<Rightarrow> (key, off) \<in> set ps"
proof -
  let ?tc = "fold (\<lambda>(k, off) tc. append_tail_pk_offset tc k off) ps tc0"
  have t: "sorted (map fst (tail_index ?tc))" "set (tail_index ?tc) = set ps" using tail_fold [of tc0 ps] assms by auto
  show ?thesis
  proof (cases "tail_index ?tc = []")
    case True
    then show ?thesis using t(2) by (simp add: find_tail_pk_offset_def)
  next
    case False
    then show ?thesis using tail_search_correct [OF t(1), of 0 "int (length (tail_index ?tc)) - 1" key, unfolded t(2)]
      by (simp add: find_tail_pk_offset_def)
  qed
qed

theorem tail_index_search_witness:
  "find_tail_pk_offset (fold (\<lambda>(k, off) tc. append_tail_pk_offset tc k off) [(5, 10), (2, 20), (9, 30)] (reset_store None)) 2 = Some 20"
proof -
  let ?r = "find_tail_pk_offset (fold (\<lambda>(k, off) tc. append_tail_pk_offset tc k off) [(5, 10), (2, 20), (9, 30)] (reset_store None)) 2"
  have "case ?r of None \<Rightarrow> (2 :: int) \<notin> fst ` set [(5, 10), (2, 20), (9, 30 :: int)] | Some off \<Rightarrow> (2, off) \<in> set [(5, 10), (2 :: int, 20), (9, 30)]"
    by (rule tail_index_search) (simp add: reset_store_def)
  then show ?thesis by (cases ?r) auto
qed

end
