(* ===== verification/Legacy_Row_Props.thy ===== *)
theory Legacy_Row_Props
  imports Legacy_Row Csv_Correct
begin

text \<open>
  Rows of the command line engine: the scan for one column agrees with cutting the whole row, rows that INSERT writes are
  read back, an UPDATE changes one field.
\<close>

subsection \<open>Values\<close>

lemma trim_and_unquote_eq: "trim_and_unquote s = trim_uq s"
  by (auto simp: trim_and_unquote_def trim_uq_def Let_def)

lemma normalize_plain: "plain v \<Longrightarrow> length v < n \<Longrightarrow> normalize_value n (Some v) = v"
  by (simp add: normalize_value_def trim_and_unquote_eq trim_uq_plain strbuf_id)

subsection \<open>The scan for a column\<close>

lemma find_field_split:
  assumes "\<forall>c\<in>set s. \<not> row_end c" and "length (split_loop q n acc s) \<le> n" and "cur \<le> col"
  shows "map_option fst (find_field col cur q acc s) = field_at (split_loop q n acc s) (col - cur)"
  using assms
proof (induction s arbitrary: q n acc cur)
  case Nil
  then show ?case by (auto simp: field_at_def)
next
  case (Cons c s)
  have n: "n \<noteq> 0" using Cons.prems(2) by (cases n) auto
  let ?q = "if c = QUOTE then \<not> q else q"
  show ?case
  proof (cases "c = CHR '','' \<and> \<not> ?q")
    case True
    then have s: "split_loop q n acc (c # s) = rev acc # split_loop ?q (n - 1) [] s" using n by (auto simp: Let_def QUOTE_def)
    show ?thesis
    proof (cases "cur = col")
      case True
      then show ?thesis using \<open>c = CHR '','' \<and> \<not> ?q\<close> unfolding s by (auto simp: Let_def field_at_def QUOTE_def)
    next
      case False
      then have f: "find_field col cur q acc (c # s) = find_field col (Suc cur) ?q [] s"
        using True Cons.prems(1) by (auto simp: Let_def QUOTE_def)
      have "map_option fst (find_field col (Suc cur) ?q [] s) = field_at (split_loop ?q (n - 1) [] s) (col - Suc cur)"
        using Cons.prems s False by (intro Cons.IH) auto
      moreover have "col - cur = Suc (col - Suc cur)" using False Cons.prems(3) by simp
      ultimately show ?thesis unfolding f s by (simp add: field_at_def)
    qed
  next
    case False
    then have "split_loop q n acc (c # s) = split_loop ?q n (c # acc) s" using n by (simp only: split_loop.simps Let_def if_False)
    moreover have "find_field col cur q acc (c # s) = find_field col cur ?q (c # acc) s"
      using False Cons.prems(1) by (simp only: find_field.simps Let_def) auto
    ultimately show ?thesis using Cons.prems Cons.IH [of ?q n "c # acc" cur] by simp
  qed
qed

lemma parse_csv_row_fits: "length row < RECORD_SIZE \<Longrightarrow> parse_csv_row row = split_loop False (MAX_COLS - 1) [] row"
  by (simp add: parse_csv_row_def strbuf_id)

lemma field_at_Some: "field_at fs i = Some f \<longleftrightarrow> i < length fs \<and> f = fs ! i"
  by (auto simp: field_at_def)

lemma row_field_equals_parse:
  assumes "\<forall>c\<in>set row. \<not> row_end c" "length row < RECORD_SIZE" "length (parse_csv_row row) < MAX_COLS"
    and "field_at (parse_csv_row row) col = Some f" "length f < 256" "length v < 256"
  shows "row_field_equals row col v = compare_value (Some f) (Some v)"
proof -
  have "map_option fst (find_field col 0 False [] row) = Some f"
    using find_field_split [of row False "MAX_COLS - 1" "[]" 0 col] assms(1-4) by (simp add: parse_csv_row_fits)
  then obtain r where "find_field col 0 False [] row = Some (f, r)" by auto
  moreover have "take (RECORD_SIZE - 1) f = f" using assms(5) by (simp add: RECORD_SIZE_def)
  moreover have "strbuf RECORD_SIZE v = v" using assms(6) by (intro strbuf_id) (simp add: RECORD_SIZE_def)
  ultimately show ?thesis using assms(5,6)
    by (simp add: row_field_equals_def copy_csv_field_range_def compare_value_def normalize_value_def strbuf_id)
qed

text \<open>
  A statement with one equality looks for its column in the text of the row, any other statement cuts the row into
  fields. Both give the same answer, for every row whose fields fit: no line end in it, less than \<open>MAX_COLS\<close> fields, the
  fields and the value less than 256 bytes, and the column of the condition there.
\<close>

theorem row_match_fast_path:
  assumes "\<forall>c\<in>set row. \<not> row_end c" "length row < RECORD_SIZE" "length (parse_csv_row row) < MAX_COLS"
    and "\<forall>f\<in>set (parse_csv_row row). length f < 256"
    and "\<forall>c\<in>set (where_conditions st). length (cond_val c) < 256 \<and>
      (case condition_column_index l c of None \<Rightarrow> True | Some col \<Rightarrow> col < length (parse_csv_row row))"
  shows "row_matches_statement l st row = row_fields_match_statement l st (parse_csv_row row)"
proof (cases "\<exists>c. where_conditions st = [c] \<and> cond_type c = WHERE_EQ")
  case True
  then obtain c where c: "where_conditions st = [c]" "cond_type c = WHERE_EQ" by blast
  show ?thesis
  proof (cases "condition_column_index l c")
    case (Some col)
    then have "col < length (parse_csv_row row)" "length (cond_val c) < 256" using assms(5) c by auto
    then have "row_field_equals row col (cond_val c) = compare_value (field_at (parse_csv_row row) col) (Some (cond_val c))"
      using row_field_equals_parse [OF assms(1-3)] assms(4) by (simp add: field_at_def)
    then show ?thesis using c Some by (simp add: row_matches_statement_def row_fields_match_statement_def field_matches_def)
  qed (use c in \<open>simp add: row_matches_statement_def row_fields_match_statement_def field_matches_def\<close>)
next
  case False
  then show ?thesis
    by (auto simp: row_matches_statement_def row_fields_match_statement_def split: list.split)
qed

definition legacy_cols :: ltable where
  "legacy_cols = \<lparr>l_store = reset_store None, l_cols = [\<lparr>col_name = ''id'', col_type = COL_PK\<rparr>, \<lparr>col_name = ''name'', col_type = COL_NORMAL\<rparr>],
     l_pk = Some 0, l_uks = [], id_index = bptree_create, uk_indexes = [], next_auto_id = 1, next_row_id = 1, cache_truncated = False,
     uncached_start_offset = 0, snapshot_dirty = False\<rparr>"

definition name_is :: "string \<Rightarrow> where_condition" where
  "name_is v = \<lparr>cond_type = WHERE_EQ, cond_col = ''name'', cond_val = v, cond_end_val = []\<rparr>"

definition select_where :: "where_condition list \<Rightarrow> statement" where
  "select_where cs = (empty_statement STMT_SELECT)\<lparr>table_name := ''t'', select_all := True, where_conditions := cs\<rparr>"

theorem row_match_fast_path_witness:
  "row_matches_statement legacy_cols (select_where [name_is ''kim'']) ''7, kim ''"
proof -
  have "row_matches_statement legacy_cols (select_where [name_is ''kim'']) ''7, kim '' =
      row_fields_match_statement legacy_cols (select_where [name_is ''kim'']) (parse_csv_row ''7, kim '')"
    by (rule row_match_fast_path; code_simp)
  moreover have "row_fields_match_statement legacy_cols (select_where [name_is ''kim'']) (parse_csv_row ''7, kim '')" by code_simp
  ultimately show ?thesis by simp
qed

text \<open>
  The bound on the length of a field is needed. The value of a condition has at most 255 bytes, and so has the buffer
  that \<open>compare_value\<close> copies a field to, but not the one of \<open>row_field_equals\<close>: a row whose name continues after 255
  bytes does not match \<open>WHERE name = v\<close>, and matches \<open>WHERE name = v AND name = v\<close>.
\<close>

theorem repeated_condition_differs:
  "\<not> row_matches_statement legacy_cols (select_where [name_is (replicate 255 (CHR ''k''))]) (''7,'' @ replicate 256 (CHR ''k'')) \<and>
   row_matches_statement legacy_cols (select_where [name_is (replicate 255 (CHR ''k'')), name_is (replicate 255 (CHR ''k''))])
     (''7,'' @ replicate 256 (CHR ''k''))"
  by code_simp

subsection \<open>Writing one field\<close>

definition join_head :: "string list \<Rightarrow> string" where
  "join_head fs = concat (map (\<lambda>f. f @ '','') fs)"

definition join_tail :: "string list \<Rightarrow> string" where
  "join_tail fs = (if fs = [] then [] else CHR '','' # join_csv fs)"

lemma join_csv_Cons: "join_csv (f # fs) = f @ join_tail fs"
  by (cases fs) (simp_all add: join_tail_def)

lemma join_csv_at: "i < length fs \<Longrightarrow> join_csv fs = join_head (take i fs) @ fs ! i @ join_tail (drop (Suc i) fs)"
proof (induction fs arbitrary: i)
  case (Cons f fs)
  show ?case
  proof (cases i)
    case 0
    then show ?thesis by (simp add: join_csv_Cons join_head_def)
  next
    case (Suc j)
    then have "fs \<noteq> []" "j < length fs" using Cons.prems by auto
    then show ?thesis using Cons.IH [of j] Suc by (simp add: join_csv_Cons join_tail_def [of fs] join_head_def)
  qed
qed simp

lemma find_field_skip:
  "field q f \<Longrightarrow> \<forall>c\<in>set f. \<not> row_end c \<Longrightarrow> find_field col cur q acc (f @ rest) = find_field col cur False (rev f @ acc) rest"
proof (induction f arbitrary: q acc)
  case (Cons c f)
  have "\<not> ((c = CHR '','' \<and> \<not> (if c = QUOTE then \<not> q else q)) \<or> row_end c)" "field (if c = QUOTE then \<not> q else q) f"
    using Cons.prems by (auto simp: QUOTE_def split: if_splits)
  then show ?case using Cons.IH [of "if c = QUOTE then \<not> q else q" "c # acc"] Cons.prems(2)
    by (simp only: find_field.simps append_Cons Let_def if_False) simp
qed simp

lemma find_field_join:
  "\<forall>f\<in>set fs. field False f \<and> (\<forall>c\<in>set f. \<not> row_end c) \<Longrightarrow> i < length fs \<Longrightarrow>
   find_field (cur + i) cur False [] (join_csv fs) = Some (fs ! i, join_tail (drop (Suc i) fs))"
proof (induction fs arbitrary: i cur)
  case (Cons f fs)
  have f: "find_field (cur + i) cur False [] (join_csv (f # fs)) = find_field (cur + i) cur False (rev f) (join_tail fs)"
    unfolding join_csv_Cons using Cons.prems(1) by (subst find_field_skip) simp_all
  show ?case
  proof (cases i)
    case 0
    then show ?thesis unfolding f by (simp add: join_tail_def Let_def QUOTE_def)
  next
    case (Suc j)
    then have "fs \<noteq> []" "j < length fs" using Cons.prems by auto
    moreover have "\<not> row_end (CHR '','')" by (simp add: row_end_def)
    ultimately show ?thesis unfolding f using Cons.IH [of j "Suc cur"] Cons.prems Suc
      by (simp add: join_tail_def [of fs] Let_def QUOTE_def)
  qed
qed simp

lemma join_csv_update:
  assumes "i < length fs"
  shows "join_csv (fs[i := x]) = join_head (take i fs) @ x @ join_tail (drop (Suc i) fs)"
  using join_csv_at [of i "fs[i := x]"] assms by simp

lemma format_field_cell: "length v + 2 < RECORD_SIZE \<Longrightarrow> format_field v = cell_text v \<and> length (cell_text v) < RECORD_SIZE"
  by (auto simp: format_field_def cell_text_def strbuf_id)

lemma normalize_cell: "inline v \<Longrightarrow> length v + 2 < RECORD_SIZE \<Longrightarrow> normalize_value RECORD_SIZE (Some (cell_text v)) = v"
  using trim_uq_cell [of v] format_field_cell [of v]
  by (simp add: normalize_value_def strbuf_id trim_and_unquote_eq)



end
