(* ===== verification/Legacy_Delta_Props.thy ===== *)
theory Legacy_Delta_Props
  imports Legacy_Delta Legacy_Row_Props
begin

text \<open>
  What a log means: batches that are written are read back, and a log that was cut anywhere gives exactly the batches that
  were complete.
\<close>

subsection \<open>Keys and operations\<close>

lemma show_long_not_NULL: "show_long k \<noteq> ''NULL''"
proof
  assume "show_long k = ''NULL''"
  then have "CHR ''N'' \<in> set (show_long k)" by simp
  from show_long_chars [OF this] show False by (simp add: isdigit_def byte_def)
qed

lemma parse_long_show:
  assumes "LONG_MIN \<le> k" "k \<le> LONG_MAX"
  shows "parse_long_value (Some (show_long k)) = Some k"
proof -
  have "normalize_value 256 (Some (show_long k)) = show_long k"
    using plain_show_long length_show_long [OF assms] by (intro normalize_plain) auto
  then show ?thesis by (simp add: parse_long_value_def Let_def strcmp_eq show_long_not_NULL strtol_show_long [OF assms])
qed

definition line_ok :: "string \<Rightarrow> bool" where
  "line_ok l \<longleftrightarrow> (\<forall>c\<in>set l. \<not> row_end c \<and> c \<noteq> CHR 0x00) \<and> length l + 1 < DELTA_LINE_SIZE"

fun op_ok :: "delta_op \<Rightarrow> bool" where
  "op_ok (Delta_U k row) = (LONG_MIN \<le> k \<and> k \<le> LONG_MAX \<and> (\<forall>c\<in>set row. \<not> row_end c \<and> c \<noteq> CHR 0x00) \<and> length row < RECORD_SIZE)"
| "op_ok (Delta_D k) = (LONG_MIN \<le> k \<and> k \<le> LONG_MAX)"

fun op_body :: "delta_op \<Rightarrow> string" where
  "op_body (Delta_U k row) = CHR ''U'' # TAB # show_long k @ TAB # row"
| "op_body (Delta_D k) = CHR ''D'' # TAB # show_long k"

lemma op_line_body: "op_line x = op_body x @ [LF]"
  by (cases x) simp_all

lemma op_body_hd: "p @ t = op_body x \<Longrightarrow> p = [] \<or> hd p = CHR ''U'' \<or> hd p = CHR ''D''"
  by (cases x; cases p) auto

lemma show_long_chars_ok: "c \<in> set (show_long k) \<Longrightarrow> \<not> row_end c \<and> c \<noteq> CHR 0x00 \<and> c \<noteq> TAB"
  using show_long_chars [of c k] by (auto simp: isdigit_def byte_def row_end_def TAB_def)

lemma op_body_line: "op_ok x \<Longrightarrow> line_ok (op_body x)"
proof (cases x)
  case (Delta_U k row)
  assume "op_ok x"
  then show ?thesis using Delta_U show_long_chars_ok [of _ k] length_show_long [of k]
    by (auto simp: line_ok_def row_end_def TAB_def DELTA_LINE_SIZE_def)
next
  case (Delta_D k)
  assume "op_ok x"
  then show ?thesis using Delta_D show_long_chars_ok [of _ k] length_show_long [of k]
    by (auto simp: line_ok_def row_end_def TAB_def DELTA_LINE_SIZE_def RECORD_SIZE_def)
qed

lemma strchr_skip: "c \<notin> set u \<Longrightarrow> strchr (u @ c # v) c = Some (c # v)"
  by (induction u) auto

lemma read_op_body: "op_ok x \<Longrightarrow> read_op (op_body x) = Some x"
proof (cases x)
  case (Delta_U k row)
  assume "op_ok x"
  moreover have "strchr (show_long k @ TAB # row) TAB = Some (TAB # row)" using show_long_chars_ok [of TAB k] by (intro strchr_skip) auto
  ultimately show ?thesis using Delta_U parse_long_show by (simp add: read_op_def)
next
  case (Delta_D k)
  assume "op_ok x"
  then show ?thesis using Delta_D parse_long_show by (simp add: read_op_def)
qed

subsection \<open>Lines\<close>

lemma fgets_split_line:
  assumes "line_ok l"
  shows "fgets_split DELTA_LINE_SIZE (l @ LF # rest) = (l @ [LF], rest)"
proof -
  have w: "takeWhile (\<lambda>c. c \<noteq> LF) (l @ LF # rest) = l"
    using assms by (subst takeWhile_append2) (auto simp: line_ok_def row_end_def LF_def)
  have n: "length l + 1 < DELTA_LINE_SIZE" using assms by (simp only: line_ok_def)
  have k: "min (DELTA_LINE_SIZE - 1) (length l + 1) = length l + 1" using n by linarith
  have c: "(length l < length (l @ LF # rest)) = True" by simp
  show ?thesis unfolding fgets_split_def Let_def w c if_True k by simp
qed

lemma line_ok_row: "line_ok l \<Longrightarrow> takeWhile (\<lambda>c. \<not> row_end c) l = l \<and> c_string (l @ r) = l @ c_string r"
  unfolding c_string_def line_ok_def by (auto intro: takeWhile_append2)

lemma replay_line:
  assumes "line_ok l"
  shows "replay_delta_log (l @ LF # rest) ib ops =
    (if l = ''B'' then replay_delta_log rest True []
     else if l = ''E'' then (case replay_delta_log rest False [] of (ok, bs) \<Rightarrow> (ok, if ib then ops # bs else bs))
     else replay_delta_log rest ib (ops @ (if ib then (case read_op l of None \<Rightarrow> [] | Some x \<Rightarrow> [x]) else [])))"
proof -
  have c: "c_string (l @ [LF]) = l @ [LF]" using line_ok_row [OF assms, of "[LF]"] by (simp add: c_string_def LF_def)
  have t: "takeWhile (\<lambda>c. \<not> row_end c) (l @ [LF]) = l"
    using line_ok_row [OF assms] by (simp add: takeWhile_tail row_end_def LF_def)
  have n: "list_all (\<lambda>c. \<not> row_end c) (l @ [LF]) = False" by (simp add: row_end_def LF_def)
  have e: "(l @ LF # rest = []) = False" by simp
  show ?thesis
    unfolding replay_delta_log.simps [of "l @ LF # rest"] fgets_split_line [OF assms] Let_def prod.case c t n e if_False simp_thms by simp
qed

lemma replay_nil: "replay_delta_log [] ib ops = (True, [])"
  by (subst replay_delta_log.simps) simp

text \<open>A line that was cut.\<close>

lemma replay_torn:
  assumes "line_ok l"
  shows "replay_delta_log l ib ops = (True, if l = ''E'' \<and> ib then [ops] else [])"
proof (cases "l = []")
  case True
  then show ?thesis by (simp add: replay_nil)
next
  case False
  have n: "length l + 1 < DELTA_LINE_SIZE" using assms by (simp only: line_ok_def)
  have w: "takeWhile (\<lambda>c. c \<noteq> LF) l = l" using assms by (auto simp: line_ok_def row_end_def LF_def)
  have k: "min (DELTA_LINE_SIZE - 1) (length l) = length l" using n by linarith
  have f: "fgets_split DELTA_LINE_SIZE l = (l, [])" unfolding fgets_split_def Let_def w less_irrefl if_False k using n by simp
  have c: "c_string l = l" using line_ok_row [OF assms, of "[]"] by (simp add: c_string_def)
  have m: "length l \<noteq> DELTA_LINE_SIZE - 1" using n by linarith
  have t: "takeWhile (\<lambda>c. \<not> row_end c) l = l" using line_ok_row [OF assms] by blast
  have b: "(length l = DELTA_LINE_SIZE - 1) = False" "(l = []) = False" using m False by simp_all
  show ?thesis unfolding replay_delta_log.simps [of l] f Let_def prod.case c t b if_False simp_thms replay_nil by simp
qed

lemma prefix_line: "line_ok (p @ t) \<Longrightarrow> line_ok p"
  by (auto simp: line_ok_def)

lemma BE_lines: "line_ok ''B''" "line_ok ''E''"
  by (simp_all add: line_ok_def row_end_def DELTA_LINE_SIZE_def RECORD_SIZE_def)

subsection \<open>Batches\<close>

definition batch_text :: "delta_op list \<Rightarrow> string" where
  "batch_text b = ''B'' @ LF # concat (map op_line b) @ ''E'' @ [LF]"

text \<open>The batches that are complete in the first \<open>n\<close> bytes; the end of the last line may be missing.\<close>

fun committed :: "nat \<Rightarrow> delta_op list list \<Rightarrow> delta_op list list" where
  "committed n [] = []"
| "committed n (b # bs) = (if length (batch_text b) \<le> n + 1 then b # committed (n - length (batch_text b)) bs else [])"

lemma op_body_not_BE: "op_body x \<noteq> ''B''" "op_body x \<noteq> ''E''"
  by (cases x; simp)+

lemma replay_ops: "\<forall>x\<in>set xs. op_ok x \<Longrightarrow> replay_delta_log (concat (map op_line xs) @ rest) True ops = replay_delta_log rest True (ops @ xs)"
proof (induction xs arbitrary: ops)
  case (Cons x xs)
  have "replay_delta_log (op_body x @ LF # concat (map op_line xs) @ rest) True ops = replay_delta_log (concat (map op_line xs) @ rest) True (ops @ [x])"
    using Cons.prems read_op_body [of x] by (subst replay_line [OF op_body_line]) (simp_all add: op_body_not_BE)
  moreover have "concat (map op_line (x # xs)) @ rest = op_body x @ LF # concat (map op_line xs) @ rest" by (simp add: op_line_body [of x])
  ultimately show ?case using Cons by simp
qed simp

lemma replay_batch:
  assumes "\<forall>x\<in>set b. op_ok x"
  shows "replay_delta_log (batch_text b @ rest) ib ops = (case replay_delta_log rest False [] of (ok, bs) \<Rightarrow> (ok, b # bs))"
proof -
  have "replay_delta_log (batch_text b @ rest) ib ops = replay_delta_log (concat (map op_line b) @ ''E'' @ LF # rest) True []"
    using replay_line [OF BE_lines(1), of "concat (map op_line b) @ ''E'' @ LF # rest" ib ops] by (simp add: batch_text_def)
  also have "\<dots> = replay_delta_log (''E'' @ LF # rest) True b" using replay_ops [OF assms, of "''E'' @ LF # rest" "[]"] by simp
  also have "\<dots> = (case replay_delta_log rest False [] of (ok, bs) \<Rightarrow> (ok, b # bs))" by (subst replay_line [OF BE_lines(2)]) simp
  finally show ?thesis .
qed

text \<open>A batch that is cut is not applied, unless only the end of its last line is missing.\<close>

lemma torn_ops:
  assumes "\<forall>x\<in>set xs. op_ok x" and "n < length (concat (map op_line xs) @ ''E'' @ [LF])"
  shows "replay_delta_log (take n (concat (map op_line xs) @ ''E'' @ [LF])) True ops =
    (True, if n + 1 = length (concat (map op_line xs) @ ''E'' @ [LF]) then [ops @ xs] else [])"
  using assms
proof (induction xs arbitrary: n ops)
  case Nil
  then have "n = 0 \<or> n = 1" by auto
  then show ?case using replay_torn [OF BE_lines(2), of True ops] replay_torn [OF prefix_line [of "[]", OF _], of "''E''" True ops] BE_lines by auto
next
  case (Cons x xs)
  let ?T = "concat (map op_line xs) @ ''E'' @ [LF]"
  have t: "concat (map op_line (x # xs)) @ ''E'' @ [LF] = op_body x @ LF # ?T" by (simp add: op_line_body [of x])
  have ok: "line_ok (op_body x)" using Cons.prems(1) op_body_line by simp
  show ?case
  proof (cases "n \<le> length (op_body x)")
    case True
    have p: "line_ok (take n (op_body x))" using ok prefix_line [of "take n (op_body x)" "drop n (op_body x)"] by simp
    have "take n (op_body x) \<noteq> ''E''" by (cases x; cases n) auto
    moreover have "take n (op_body x @ LF # ?T) = take n (op_body x)" using True by simp
    moreover have "n + 1 \<noteq> length (op_body x @ LF # ?T)" using True by simp
    ultimately show ?thesis unfolding t using replay_torn [OF p, of True ops] by simp
  next
    case False
    then obtain m where m: "n = length (op_body x) + 1 + m" using less_imp_add_positive [of "length (op_body x)" n] by (metis False add.assoc add.commute le_eq_less_or_eq less_iff_Suc_add not_le plus_1_eq_Suc add_Suc_right)
    have "take n (op_body x @ LF # ?T) = op_body x @ LF # take m ?T" unfolding m by simp
    moreover have "replay_delta_log (op_body x @ LF # take m ?T) True ops = replay_delta_log (take m ?T) True (ops @ [x])"
      using Cons.prems read_op_body [of x] by (subst replay_line [OF ok]) (simp_all add: op_body_not_BE)
    moreover have "m < length ?T" using Cons.prems(2) unfolding t m by simp
    moreover have "(n + 1 = length (op_body x @ LF # ?T)) = (m + 1 = length ?T)" unfolding m by simp
    ultimately show ?thesis unfolding t using Cons.IH [of m "ops @ [x]"] Cons.prems(1) by simp
  qed
qed

lemma torn_batch:
  assumes "\<forall>x\<in>set b. op_ok x" and "n < length (batch_text b)"
  shows "replay_delta_log (take n (batch_text b)) False [] = (True, if n + 1 = length (batch_text b) then [b] else [])"
proof -
  let ?T = "concat (map op_line b) @ ''E'' @ [LF]"
  have t: "batch_text b = CHR ''B'' # LF # ?T" by (simp add: batch_text_def)
  consider "n = 0" | "n = 1" | m where "n = Suc (Suc m)" by (metis One_nat_def not0_implies_Suc)
  then show ?thesis
  proof cases
    case 1
    then show ?thesis by (simp add: t replay_nil)
  next
    case 2
    then show ?thesis using replay_torn [OF BE_lines(1), of False "[]"] by (simp add: t)
  next
    case 3
    have "replay_delta_log (take n (batch_text b)) False [] = replay_delta_log (take m ?T) True []"
      using replay_line [OF BE_lines(1), of "take m ?T" False "[]"] by (simp add: t 3)
    also have "\<dots> = (True, if m + 1 = length ?T then [b] else [])"
      using torn_ops [OF assms(1), of m "[]"] assms(2) by (simp add: t 3)
    finally show ?thesis by (simp add: t 3)
  qed
qed

lemma replay_cut:
  assumes "\<forall>b\<in>set bs. \<forall>x\<in>set b. op_ok x"
  shows "replay_delta_log (take n (concat (map batch_text bs))) False [] = (True, committed n bs)"
  using assms
proof (induction bs arbitrary: n)
  case Nil
  then show ?case by (simp add: replay_nil)
next
  case (Cons b bs)
  have ok: "\<forall>x\<in>set b. op_ok x" using Cons.prems by simp
  have z: "committed 0 bs = []" by (cases bs) (simp_all add: batch_text_def)
  show ?case
  proof (cases "length (batch_text b) \<le> n")
    case True
    then show ?thesis using Cons.IH [of "n - length (batch_text b)"] Cons.prems by (simp add: replay_batch [OF ok])
  next
    case False
    then have "take n (concat (map batch_text (b # bs))) = take n (batch_text b)" by simp
    then show ?thesis using torn_batch [OF ok, of n] False z by (auto simp: Suc_le_eq)
  qed
qed

lemma committed_all: "length (concat (map batch_text bs)) \<le> n \<Longrightarrow> committed n bs = bs"
proof (induction bs arbitrary: n)
  case (Cons b bs)
  then have "length (batch_text b) \<le> n + 1" "committed (n - length (batch_text b)) bs = bs" by simp_all
  then show ?case by simp
qed simp

subsection \<open>Sessions\<close>

fun write_op :: "delta_op \<Rightarrow> delta \<Rightarrow> delta" where
  "write_op (Delta_U k row) d = append_delta_update_key d k row"
| "write_op (Delta_D k) d = append_delta_delete_key d k"

definition write_batch :: "delta_op list \<Rightarrow> delta \<Rightarrow> delta" where
  "write_batch b d = close_delta_batch (fold write_op b d)"

lemma write_op_open: "delta_batch_open d \<Longrightarrow> delta_batch_open (write_op x d) \<and> delta_text (write_op x d) = delta_text d @ op_line x"
  by (cases x) (simp_all add: append_delta_update_key_def append_delta_delete_key_def begin_delta_batch_def delta_print_def)

lemma write_op_first:
  "\<not> delta_batch_open d \<Longrightarrow> delta_batch_open (write_op x d) \<and> delta_text (write_op x d) = delta_text d @ ''B'' @ LF # op_line x"
  by (cases x) (simp_all add: append_delta_update_key_def append_delta_delete_key_def begin_delta_batch_def delta_print_def)

lemma write_ops_open:
  "delta_batch_open d \<Longrightarrow> delta_batch_open (fold write_op b d) \<and> delta_text (fold write_op b d) = delta_text d @ concat (map op_line b)"
proof (induction b arbitrary: d)
  case (Cons x b)
  then show ?case using write_op_open [of d x] Cons.IH [of "write_op x d"] by simp
qed simp

lemma write_batch_text:
  assumes "b \<noteq> []" and "\<not> delta_batch_open d"
  shows "\<not> delta_batch_open (write_batch b d) \<and> delta_text (write_batch b d) = delta_text d @ batch_text b"
proof -
  obtain x xs where b: "b = x # xs" using assms(1) by (cases b) auto
  show ?thesis using write_op_first [OF assms(2), of x] write_ops_open [of "write_op x d" xs]
    by (simp add: write_batch_def b close_delta_batch_def delta_print_def batch_text_def)
qed

lemma write_batches_text:
  "[] \<notin> set bs \<Longrightarrow> \<not> delta_batch_open d \<Longrightarrow> delta_text (fold write_batch bs d) = delta_text d @ concat (map batch_text bs)"
proof (induction bs arbitrary: d)
  case (Cons b bs)
  moreover from Cons.prems have "b \<noteq> []" by auto
  ultimately show ?case using write_batch_text [of b d] Cons.IH [of "write_batch b d"] by simp
qed simp

text \<open>
  C39. The delta log is atomic. Batches of updates and deletes are written one after the other to an empty log, and the file
  is cut after any number of bytes, as a crash may leave it: loading applies exactly the batches that were complete, in
  order, each with the operations that were written, and never part of a batch. If nothing is missing, it applies all.
\<close>

theorem delta_log_atomic:
  assumes "\<forall>b\<in>set bs. b \<noteq> [] \<and> (\<forall>x\<in>set b. op_ok x)"
  shows "replay_delta_log (take n (delta_text (fold write_batch bs (clear_delta_log d)))) False [] = (True, committed n bs) \<and>
    replay_delta_log (delta_text (fold write_batch bs (clear_delta_log d))) False [] = (True, bs)"
proof -
  let ?t = "concat (map batch_text bs)"
  have "delta_text (fold write_batch bs (clear_delta_log d)) = ?t"
    using assms by (subst write_batches_text) (auto simp: clear_delta_log_def)
  moreover have "replay_delta_log (take n ?t) False [] = (True, committed n bs)" for n using assms by (intro replay_cut) auto
  moreover have "committed (length ?t) bs = bs" by (simp add: committed_all)
  moreover have "take (length ?t) ?t = ?t" by simp
  ultimately show ?thesis by metis
qed

definition log_example :: "delta_op list list" where
  "log_example = [[Delta_U 7 ''7,kim'', Delta_D 9], [Delta_D 7]]"

theorem delta_log_atomic_witness:
  "replay_delta_log (take 20 (delta_text (fold write_batch log_example (clear_delta_log \<lparr>delta_text = [], delta_batch_open = True, delta_ops_since_compact_check = 0, delta_bytes_since_compact = 5\<rparr>))))
     False [] = (True, [[Delta_U 7 ''7,kim'', Delta_D 9]])"
proof -
  have "\<forall>b\<in>set log_example. b \<noteq> [] \<and> (\<forall>x\<in>set b. op_ok x)" by code_simp
  moreover have "committed 20 log_example = [[Delta_U 7 ''7,kim'', Delta_D 9]]" by code_simp
  ultimately show ?thesis
    using delta_log_atomic [of log_example 20 "\<lparr>delta_text = [], delta_batch_open = True, delta_ops_since_compact_check = 0, delta_bytes_since_compact = 5\<rparr>"] by simp
qed

text \<open>
  The log that a crash cut is not repaired: it is opened for appending. Here the row of an update is cut
  (\<open>U 7 7,k\<close>), and the next session deletes key 9. Its \<open>B\<close> is appended to the cut line, so that loading sees one batch: it
  applies the update that was never completed, with the row \<open>7,kB\<close> that nobody wrote.
\<close>

theorem torn_delta_tail_corrupts:
  "replay_delta_log (take 9 (delta_text (write_op (Delta_U 7 ''7,kim'') \<lparr>delta_text = [], delta_batch_open = False, delta_ops_since_compact_check = 0, delta_bytes_since_compact = 0\<rparr>))) False [] = (True, []) \<and>
   replay_delta_log (delta_text (write_batch [Delta_D 9] \<lparr>delta_text =
     take 9 (delta_text (write_op (Delta_U 7 ''7,kim'') \<lparr>delta_text = [], delta_batch_open = False, delta_ops_since_compact_check = 0, delta_bytes_since_compact = 0\<rparr>)),
     delta_batch_open = False, delta_ops_since_compact_check = 0, delta_bytes_since_compact = 0\<rparr>)) False [] = (True, [[Delta_U 7 ''7,kB'', Delta_D 9]])"
  by code_simp

end
