(* ===== verification/Legacy_Insert_Correct.thy ===== *)
theory Legacy_Insert_Correct
  imports Legacy_Insert Legacy_Load Legacy_Store_Props Legacy_Delta_Props
begin

text \<open>
  The invariant of a table of the command line engine with a key column: the store refines a map from slots to rows, and the
  trees hold exactly the keys of these rows. INSERT keeps it.
\<close>

subsection \<open>The invariant\<close>

definition row_key :: "nat \<Rightarrow> string \<Rightarrow> int option" where
  "row_key p row = parse_long_value (field_at (parse_csv_row row) p)"

definition pk_entries :: "nat \<Rightarrow> (int \<Rightarrow> string option) \<Rightarrow> (int \<times> int) set" where
  "pk_entries p m = {(k, i). \<exists>row. m i = Some row \<and> row_key p row = Some k}"

definition uk_entries :: "nat \<Rightarrow> (int \<Rightarrow> string option) \<Rightarrow> (string \<times> int) set" where
  "uk_entries c m = {(k, i). k \<noteq> [] \<and> (\<exists>row. m i = Some row \<and> row_uk row c = k)}"

definition tree_for :: "'k::linorder bptree \<Rightarrow> ('k \<times> int) set \<Rightarrow> bool" where
  "tree_for t E \<longleftrightarrow> tree_inv t \<and> set (pairs (root t)) = E"

definition uk_for :: "uk_index \<Rightarrow> (string \<times> int) set \<Rightarrow> bool" where
  "uk_for x E \<longleftrightarrow> (\<exists>t. x = Index t \<and> tree_for t E)"

definition indexes_ok :: "ltable \<Rightarrow> (int \<Rightarrow> string option) \<Rightarrow> bool" where
  "indexes_ok l m \<longleftrightarrow> length (uk_indexes l) = length (l_uks l) \<and>
     (\<forall>u<length (l_uks l). uk_for (uk_indexes l ! u) (uk_entries (l_uks l ! u) m)) \<and>
     (\<exists>p. l_pk l = Some p \<and> tree_for (id_index l) (pk_entries p m) \<and> (\<forall>row\<in>ran m. row_key p row \<noteq> None))"

definition cli_schema_ok :: "ltable \<Rightarrow> bool" where
  "cli_schema_ok l \<longleftrightarrow> l_cols l \<noteq> [] \<and> length (l_cols l) \<le> MAX_COLS \<and> l_pk l = key_column (l_cols l) \<and> l_uks l = unique_columns (l_cols l) \<and>
     LONG_MIN \<le> next_auto_id l \<and> next_auto_id l \<le> LONG_MAX"

definition table_ok :: "string \<Rightarrow> ltable \<Rightarrow> (int \<Rightarrow> string option) \<Rightarrow> bool" where
  "table_ok f l m \<longleftrightarrow> store_ok f (l_store l) \<and> slot_text (l_store l) = m \<and> indexes_ok l m \<and> cli_schema_ok l \<and>
     (append_offset (l_store l) < 0 \<or> append_offset (l_store l) = int (length f))"

lemma indexes_ok_upd [simp]: "indexes_ok (l\<lparr>l_store := st\<rparr>) m = indexes_ok l m" "indexes_ok (l\<lparr>snapshot_dirty := b\<rparr>) m = indexes_ok l m"
    "indexes_ok (l\<lparr>next_row_id := n\<rparr>) m = indexes_ok l m"
  and cli_schema_upd [simp]: "cli_schema_ok (l\<lparr>l_store := st\<rparr>) = cli_schema_ok l" "cli_schema_ok (l\<lparr>snapshot_dirty := b\<rparr>) = cli_schema_ok l"
    "cli_schema_ok (l\<lparr>next_row_id := n\<rparr>) = cli_schema_ok l" "cli_schema_ok (l\<lparr>id_index := t\<rparr>) = cli_schema_ok l"
    "cli_schema_ok (l\<lparr>uk_indexes := ix\<rparr>) = cli_schema_ok l"
  by (simp_all add: indexes_ok_def cli_schema_ok_def)

text \<open>Searching and adding an entry, for both kinds of trees.\<close>

lemma pk_search: "tree_for t E \<Longrightarrow> bptree_search t k = Found r \<longleftrightarrow> (k, r) \<in> E" "tree_for t E \<Longrightarrow> bptree_search t k = Absent \<longleftrightarrow> k \<notin> fst ` E"
  "tree_for t E \<Longrightarrow> bptree_search t k \<noteq> Wild"
  using pk.search_Found_iff [of t k r] pk.search_Absent_iff [of t k] pk.search_not_Wild [of t k] by (auto simp: tree_for_def)

lemma uk_search: "tree_for t E \<Longrightarrow> bptree_string_search t k = Found r \<longleftrightarrow> (k, r) \<in> E"
  "tree_for t E \<Longrightarrow> bptree_string_search t k = Absent \<longleftrightarrow> k \<notin> fst ` E" "tree_for t E \<Longrightarrow> bptree_string_search t k \<noteq> Wild"
  using uk.search_Found_iff [of t k r] uk.search_Absent_iff [of t k] uk.search_not_Wild [of t k] by (auto simp: tree_for_def)

lemma pk_add: "tree_for t E \<Longrightarrow> k \<notin> fst ` E \<Longrightarrow> \<exists>t'. bptree_insert t k r = Some (1, t') \<and> tree_for t' (insert (k, r) E)"
  using pk.insert_new [of t k r] by (auto simp: tree_for_def)

lemma uk_add: "tree_for t E \<Longrightarrow> k \<noteq> [] \<Longrightarrow> k \<notin> fst ` E \<Longrightarrow> \<exists>t'. bptree_string_insert t k r = Some (1, t') \<and> tree_for t' (insert (k, r) E)"
  using uk.insert_new [of t k r] by (auto simp: tree_for_def)

lemma pk_remove: "tree_for t E \<Longrightarrow> \<exists>t'. bptree_delete t k = Some (k \<in> fst ` E, t') \<and> tree_for t' {e \<in> E. fst e \<noteq> k}"
  using long.tree_delete_spec [of t k] by (fastforce simp: tree_for_def bptree_delete_def)

lemma uk_remove: "tree_for t E \<Longrightarrow> k \<noteq> [] \<Longrightarrow> \<exists>t'. bptree_string_delete t k = Some (k \<in> fst ` E, t') \<and> tree_for t' {e \<in> E. fst e \<noteq> k}"
  using str.tree_delete_spec [of t k] by (fastforce simp: tree_for_def bptree_string_delete_def)

lemma slot_text_active: "slot_text tc i = Some row \<Longrightarrow> slot_is_active tc i"
  by (auto simp: slot_text_def split: if_splits)

text \<open>Entries of a new row.\<close>

lemma pk_entries_new: "m i = None \<Longrightarrow> pk_entries p (m(i \<mapsto> row)) = (case row_key p row of None \<Rightarrow> {} | Some k \<Rightarrow> {(k, i)}) \<union> pk_entries p m"
  by (auto simp: pk_entries_def split: option.splits if_splits)

lemma uk_entries_new: "m i = None \<Longrightarrow> uk_entries c (m(i \<mapsto> row)) = (if row_uk row c = [] then {} else {(row_uk row c, i)}) \<union> uk_entries c m"
  by (auto simp: uk_entries_def)

subsection \<open>The unique columns of a new row\<close>

lemma index_uks_new:
  assumes "\<forall>u<n. uk_for (uk_indexes l ! u) (uk_entries (l_uks l ! u) (if u < k then m(int i \<mapsto> row) else m))"
    and "length (uk_indexes l) = n" "length (l_uks l) = n" "k \<le> n" "m (int i) = None"
    and "\<forall>c\<in>set (l_uks l). row_uk row c = [] \<or> row_uk row c \<notin> fst ` uk_entries c m"
  shows "\<exists>ix. index_uks l row i [k..<n] = Some (True, l\<lparr>uk_indexes := ix\<rparr>) \<and> length ix = n \<and>
    (\<forall>u<n. uk_for (ix ! u) (uk_entries (l_uks l ! u) (m(int i \<mapsto> row))))"
  using assms
proof (induction "n - k" arbitrary: k l)
  case 0
  then show ?case by (auto intro!: exI [of _ "uk_indexes l"])
next
  case (Suc d)
  then have kn: "k < n" by simp
  let ?c = "l_uks l ! k" and ?m = "m(int i \<mapsto> row)"
  have c: "?c \<in> set (l_uks l)" using kn Suc.prems(3) by simp
  obtain t where t: "uk_indexes l ! k = Index t" "tree_for t (uk_entries ?c m)" using Suc.prems(1) kn by (auto simp: uk_for_def)
  note new = uk_entries_new [of m "int i" ?c row, OF Suc.prems(5)]
  show ?case
  proof (cases "row_uk row ?c = []")
    case True
    have "\<forall>u<n. uk_for (uk_indexes l ! u) (uk_entries (l_uks l ! u) (if u < Suc k then ?m else m))"
      using Suc.prems(1) t new True by (auto simp: uk_for_def less_Suc_eq)
    then show ?thesis using Suc.hyps(1) [of "Suc k" l] Suc.prems Suc.hyps(2) kn True by (simp add: upt_conv_Cons)
  next
    case False
    then have fresh: "row_uk row ?c \<notin> fst ` uk_entries ?c m" using Suc.prems(6) c by auto
    obtain t' where t': "bptree_string_insert t (row_uk row ?c) (int i) = Some (1, t')" "tree_for t' (insert (row_uk row ?c, int i) (uk_entries ?c m))"
      using uk_add [OF t(2) False fresh] by blast
    have absent: "bptree_string_search t (row_uk row ?c) = Absent" using uk_search(2) [OF t(2), of "row_uk row ?c"] fresh by simp
    let ?l = "l\<lparr>uk_indexes := (uk_indexes l)[k := Index t']\<rparr>"
    have "unique_index_insert l k (row_uk row ?c) i = Some (1, ?l)"
      using False t(1) t'(1) absent by (simp add: unique_index_insert_def put_uk_def)
    then have step: "index_uks l row i [k..<n] = index_uks ?l row i [Suc k..<n]" using kn False by (simp add: upt_conv_Cons)
    have "\<forall>u<n. uk_for (uk_indexes ?l ! u) (uk_entries (l_uks ?l ! u) (if u < Suc k then ?m else m))"
      using Suc.prems(1,2) t'(2) new False kn by (auto simp: uk_for_def less_Suc_eq nth_list_update)
    then have "\<exists>ix. index_uks ?l row i [Suc k..<n] = Some (True, ?l\<lparr>uk_indexes := ix\<rparr>) \<and> length ix = n \<and>
        (\<forall>u<n. uk_for (ix ! u) (uk_entries (l_uks ?l ! u) ?m))"
      using Suc.hyps(1) [of "Suc k" ?l] Suc.prems Suc.hyps(2) kn by simp
    then show ?thesis unfolding step by simp
  qed
qed

lemma ensure_uk_id:
  assumes "\<forall>u<length (uk_indexes l). \<exists>t. uk_indexes l ! u = Index t"
  shows "ensure_uk_indexes l = l"
proof -
  have "map (\<lambda>x. case x of No_Index \<Rightarrow> Index bptree_string_create | _ \<Rightarrow> x) (uk_indexes l) = uk_indexes l"
    using assms by (intro nth_equalityI) auto
  then show ?thesis by (simp add: ensure_uk_indexes_def)
qed

lemma indexes_Index: "indexes_ok l m \<Longrightarrow> \<forall>u<length (uk_indexes l). \<exists>t. uk_indexes l ! u = Index t"
  by (auto simp: indexes_ok_def uk_for_def)

subsection \<open>A row in the store and the indexes\<close>

text \<open>The trees get the keys of a new row.\<close>

lemma index_row_ok:
  assumes ok: "indexes_ok l m" and none: "m (int i) = None"
    and k: "l_pk l = Some p" "row_key p row = Some k" "k \<notin> fst ` pk_entries p m"
    and u: "\<forall>c\<in>set (l_uks l). row_uk row c = [] \<or> row_uk row c \<notin> fst ` uk_entries c m"
  obtains t ix where "bptree_insert (id_index l) k (int i) = Some (1, t)"
    "index_record_uks_from_row (l\<lparr>id_index := t\<rparr>) row i = Some (True, l\<lparr>id_index := t, uk_indexes := ix\<rparr>)"
    "indexes_ok (l\<lparr>id_index := t, uk_indexes := ix\<rparr>) (m(int i \<mapsto> row))"
proof -
  let ?m = "m(int i \<mapsto> row)"
  have tree: "tree_for (id_index l) (pk_entries p m)" "\<forall>row\<in>ran m. row_key p row \<noteq> None" using ok k(1) by (auto simp: indexes_ok_def)
  obtain t where t: "bptree_insert (id_index l) k (int i) = Some (1, t)" "tree_for t (insert (k, int i) (pk_entries p m))"
    using pk_add [OF tree(1) k(3)] by blast
  let ?l = "l\<lparr>id_index := t\<rparr>"
  have ens: "ensure_uk_indexes ?l = ?l" using indexes_Index [OF ok] by (intro ensure_uk_id) simp
  obtain ix where ix: "index_record_uks_from_row ?l row i = Some (True, ?l\<lparr>uk_indexes := ix\<rparr>)" "length ix = length (l_uks l)"
    "\<forall>u<length (l_uks l). uk_for (ix ! u) (uk_entries (l_uks l ! u) ?m)"
  proof (cases "l_uks l = []")
    case True
    then show ?thesis using that [of "[]"] ok by (simp add: index_record_uks_from_row_def indexes_ok_def)
  next
    case False
    have "\<exists>ix. index_uks ?l row i [0..<length (l_uks l)] = Some (True, ?l\<lparr>uk_indexes := ix\<rparr>) \<and> length ix = length (l_uks l) \<and>
        (\<forall>u<length (l_uks l). uk_for (ix ! u) (uk_entries (l_uks ?l ! u) ?m))"
      by (rule index_uks_new) (use ok none u in \<open>auto simp: indexes_ok_def\<close>)
    then show ?thesis using that False ens by (auto simp: index_record_uks_from_row_def)
  qed
  have "indexes_ok (l\<lparr>id_index := t, uk_indexes := ix\<rparr>) ?m"
    using ix(2,3) t(2) tree(2) k(1,2) pk_entries_new [of m "int i" p row, OF none] none by (auto simp: indexes_ok_def ran_map_upd)
  then show ?thesis using that t(1) ix(1) by simp
qed

text \<open>
  The row gets a slot, and the indexes get its keys. The store is the one of \<open>insert_ok\<close>, before the line is written.
\<close>

lemma append_indexed_ok:
  assumes ok: "indexes_ok l m" and st: "store_ok f (l_store l)" "slot_text (l_store l) = m"
    and k: "l_pk l = Some p" "row_key p row = Some k" "k \<notin> fst ` pk_entries p m"
    and u: "\<forall>c\<in>set (l_uks l). row_uk row c = [] \<or> row_uk row c \<notin> fst ` uk_entries c m"
  obtains (full) "take_record_slot (l_store l) True = None" "append_record_csv_indexed l row k off = Some (None, l)"
  | (added) i st1 st2 l' where "take_record_slot (l_store l) True = Some (i, st1)" "assign_slot_row st1 i row ROW_STORE_CSV off False = Some st2"
      "append_record_csv_indexed l row k off = Some (Some i, l')" "l_store l' = activate i (next_row_id l) st2"
      "indexes_ok l' (m(int i \<mapsto> row))" "cli_schema_ok l \<longrightarrow> cli_schema_ok l'" "l_pk l' = l_pk l"
proof (cases "take_record_slot (l_store l) True")
  case None
  then show ?thesis using full by (simp add: append_record_csv_indexed_def)
next
  case (Some x)
  obtain i st1 where t: "take_record_slot (l_store l) True = Some (i, st1)" using Some by (cases x) auto
  note tk = take_slot_ok [OF st(1) t]
  obtain st2 where st2: "assign_slot_row st1 i row ROW_STORE_CSV off False = Some st2" using tk by (auto simp: assign_slot_row_def Let_def)
  let ?l0 = "l\<lparr>next_row_id := wrap64 (next_row_id l + 1), l_store := activate i (next_row_id l) st2\<rparr>"
  have tree: "tree_for (id_index l) (pk_entries p m)" using ok k(1) by (auto simp: indexes_ok_def)
  have claim: "claim_key ?l0 k i = Some (True, ?l0)" using pk_search(2) [OF tree, of k] k(3) by (simp add: claim_key_def)
  have ok0: "indexes_ok ?l0 m" "m (int i) = None" "l_pk ?l0 = Some p" "\<forall>c\<in>set (l_uks ?l0). row_uk row c = [] \<or> row_uk row c \<notin> fst ` uk_entries c m"
    using ok tk st(2) k(1) u by simp_all
  obtain t' ix where ix: "bptree_insert (id_index ?l0) k (int i) = Some (1, t')"
    "index_record_uks_from_row (?l0\<lparr>id_index := t'\<rparr>) row i = Some (True, ?l0\<lparr>id_index := t', uk_indexes := ix\<rparr>)"
    "indexes_ok (?l0\<lparr>id_index := t', uk_indexes := ix\<rparr>) (m(int i \<mapsto> row))"
    by (rule index_row_ok [OF ok0(1-3) k(2,3) ok0(4)])
  let ?l' = "note_key k (?l0\<lparr>id_index := t', uk_indexes := ix\<rparr>)"
  have "append_record_csv_indexed l row k off = Some (Some i, ?l')"
    using t st2 claim ix(1,2) k(1) by (simp add: append_record_csv_indexed_def Let_def)
  moreover have "indexes_ok ?l' (m(int i \<mapsto> row))" using ix(3) by (simp add: indexes_ok_def note_key_def)
  moreover have "cli_schema_ok l \<longrightarrow> cli_schema_ok ?l'" using wrap64_range [of "k + 1"] by (auto simp: cli_schema_ok_def note_key_def)
  ultimately show ?thesis using added t st2 by (simp add: note_key_def)
qed

subsection \<open>The new row\<close>

lemma check_value_ok:
  assumes "indexes_ok l m" "slot_text (l_store l) = m"
  shows "\<exists>e. check_value l i s = Some (e, l) \<and>
    (e = None \<longrightarrow> col_type (l_cols l ! i) = COL_UK \<longrightarrow> s \<noteq> [] \<longrightarrow> s \<notin> fst ` uk_entries i m)"
proof (cases "col_type (l_cols l ! i) = COL_UK \<and> s \<noteq> []")
  case False
  then show ?thesis by (auto simp: check_value_def Let_def split: option.splits)
next
  case True
  have ens: "ensure_uk_indexes l = l" by (rule ensure_uk_id [OF indexes_Index [OF assms(1)]])
  show ?thesis
  proof (cases "get_uk_slot l i")
    case None
    then show ?thesis using True by (simp add: check_value_def)
  next
    case (Some u)
    then have u: "u < length (l_uks l)" "l_uks l ! u = i" using index_from_Some [of 0 _ "l_uks l" u] by (auto simp: get_uk_slot_def)
    then obtain t where t: "uk_indexes l ! u = Index t" "tree_for t (uk_entries i m)" using assms(1) by (auto simp: indexes_ok_def uk_for_def)
    show ?thesis
    proof (cases "bptree_string_search t s")
      case (Found r)
      then have "(s, r) \<in> uk_entries i m" using uk_search(1) [OF t(2)] by simp
      then obtain row where "slot_text (l_store l) r = Some row" using assms(2) by (auto simp: uk_entries_def)
      then have "slot_is_active (l_store l) r" by (rule slot_text_active)
      then show ?thesis using True Some t Found ens by (simp add: check_value_def unique_index_find_def Let_def)
    next
      case Absent
      then show ?thesis using True Some t ens uk_search(2) [OF t(2), of s] by (simp add: check_value_def unique_index_find_def Let_def)
    next
      case Wild
      then show ?thesis using uk_search(3) [OF t(2), of s] by simp
    qed
  qed
qed

lemma append_csv_field_Some:
  "append_csv_field line n v fin = Some line' \<longleftrightarrow> line' = line @ format_field v @ (if fin then [] else '','') \<and>
     length (format_field v) + (if fin then 0 else 1) < n - length line"
  by (auto simp: append_csv_field_def Let_def)

lemma insert_cells_ok:
  assumes "indexes_ok l m" "slot_text (l_store l) = m"
  shows "\<exists>res. insert_cells l vals auto k n line is = Some (res, l) \<and>
    (\<forall>line'. res = Inr line' \<longrightarrow> line' = line @ join_csv (map (\<lambda>i. format_field (insert_source l vals auto k i)) is) \<and>
       (is \<noteq> [] \<longrightarrow> length line' < n) \<and>
       (\<forall>i\<in>set is. col_type (l_cols l ! i) = COL_UK \<longrightarrow> insert_source l vals auto k i \<noteq> [] \<longrightarrow>
          insert_source l vals auto k i \<notin> fst ` uk_entries i m))"
proof (induction "is" arbitrary: line)
  case (Cons i "is")
  let ?s = "insert_source l vals auto k i"
  obtain e where e: "check_value l i ?s = Some (e, l)"
    "e = None \<longrightarrow> col_type (l_cols l ! i) = COL_UK \<longrightarrow> ?s \<noteq> [] \<longrightarrow> ?s \<notin> fst ` uk_entries i m"
    using check_value_ok [OF assms, of i ?s] by blast
  show ?case
  proof (cases "e = None \<and> append_csv_field line n ?s (is = []) \<noteq> None")
    case False
    then show ?thesis using e(1) by (auto simp: Let_def split: option.splits)
  next
    case True
    then obtain line1 where l1: "append_csv_field line n ?s (is = []) = Some line1" by auto
    obtain res where res: "insert_cells l vals auto k n line1 is = Some (res, l)"
      "\<forall>line'. res = Inr line' \<longrightarrow> line' = line1 @ join_csv (map (\<lambda>i. format_field (insert_source l vals auto k i)) is) \<and>
         (is \<noteq> [] \<longrightarrow> length line' < n) \<and>
         (\<forall>i\<in>set is. col_type (l_cols l ! i) = COL_UK \<longrightarrow> insert_source l vals auto k i \<noteq> [] \<longrightarrow>
            insert_source l vals auto k i \<notin> fst ` uk_entries i m)"
      using Cons.IH [of line1] by blast
    have "insert_cells l vals auto k n line (i # is) = Some (res, l)" using e(1) True l1 res(1) by (simp add: Let_def)
    moreover have "join_csv (map (\<lambda>i. format_field (insert_source l vals auto k i)) (i # is)) =
        format_field ?s @ (if is = [] then [] else '','') @ join_csv (map (\<lambda>i. format_field (insert_source l vals auto k i)) is)"
      by (cases "is") simp_all
    ultimately show ?thesis using res(2) e(2) True l1 by (cases "is") (auto simp: append_csv_field_Some)
  qed
qed simp

text \<open>The values of a statement that can be written and read back: short, without quotes and line ends once they are trimmed.\<close>

definition value_ok :: "string \<Rightarrow> bool" where
  "value_ok v \<longleftrightarrow> length v < 254 \<and> inline (trim_uq v) \<and> CHR 0x00 \<notin> set v"

lemma normalize_value_ok: "value_ok v \<Longrightarrow> normalize_value RECORD_SIZE (Some v) = trim_uq v \<and> normalize_value 256 (Some v) = trim_uq v"
  by (simp add: value_ok_def normalize_value_def strbuf_id trim_and_unquote_eq RECORD_SIZE_def)

definition cell_ok :: "string \<Rightarrow> bool" where
  "cell_ok s \<longleftrightarrow> length s < 254 \<and> inline s \<and> CHR 0x00 \<notin> set s"

lemma cell_ok_trim: "value_ok v \<Longrightarrow> cell_ok (trim_uq v)"
  using set_trim_uq [of v] length_trim_uq [of v] by (auto simp: value_ok_def cell_ok_def)

lemma cell_ok_show: "LONG_MIN \<le> k \<Longrightarrow> k \<le> LONG_MAX \<Longrightarrow> cell_ok (show_long k)"
proof -
  assume k: "LONG_MIN \<le> k" "k \<le> LONG_MAX"
  have c: "c \<noteq> NL \<and> c \<noteq> CR \<and> c \<noteq> QUOTE \<and> c \<noteq> CHR 0x00" if "c \<in> set (show_long k)" for c
    using show_long_chars [OF that] digit_not_quote by (auto simp: isdigit_def byte_def NL_def CR_def QUOTE_def)
  show ?thesis using length_show_long [OF k] plain_show_long c by (auto simp: cell_ok_def inline_def)
qed

lemma insert_source_ok:
  assumes "\<forall>v\<in>set vals. value_ok v" "LONG_MIN \<le> k" "k \<le> LONG_MAX"
  shows "cell_ok (insert_source l vals auto k i)"
proof -
  have e: "value_ok []" by (simp add: value_ok_def inline_def plain_def trim_uq_def trim_def)
  have "value_ok (if 0 \<le> j \<and> j < int (length vals) then vals ! nat j else [])" for j
    using assms(1) e nth_mem [of "nat j" vals] by (auto simp: nat_less_iff)
  then have "cell_ok (normalize_value RECORD_SIZE (Some (if 0 \<le> j \<and> j < int (length vals) then vals ! nat j else [])))" for j
    using cell_ok_trim normalize_value_ok by presburger
  then show ?thesis using cell_ok_show [OF assms(2,3)] unfolding insert_source_def Let_def by presburger
qed

lemma cell_ok_facts:
  assumes "cell_ok s"
  shows "format_field s = cell_text s" "field False (cell_text s)" "normalize_value RECORD_SIZE (Some (cell_text s)) = s"
    "normalize_value 256 (Some (cell_text s)) = s" "\<forall>c\<in>set (cell_text s). \<not> row_end c \<and> c \<noteq> CHR 0x00"
proof -
  have s: "length s + 2 < RECORD_SIZE" "inline s" "length (cell_text s) < 256" using assms by (auto simp: cell_ok_def RECORD_SIZE_def cell_text_def)
  show "format_field s = cell_text s" using format_field_cell [OF s(1)] by simp
  show "field False (cell_text s)" using s(2) by (rule field_cell)
  show "normalize_value RECORD_SIZE (Some (cell_text s)) = s" using s(2,1) by (rule normalize_cell)
  show "normalize_value 256 (Some (cell_text s)) = s"
    using s(3) trim_uq_cell [OF s(2)] by (simp add: normalize_value_def strbuf_id trim_and_unquote_eq)
  show "\<forall>c\<in>set (cell_text s). \<not> row_end c \<and> c \<noteq> CHR 0x00"
    using set_cell_text [of s] assms by (auto simp: cell_ok_def inline_def row_end_def NL_def CR_def QUOTE_def)
qed

text \<open>A row that is written from good values: what it is when it is cut again.\<close>

lemma written_row:
  assumes "srcs \<noteq> []" "length srcs \<le> MAX_COLS" "\<forall>s\<in>set srcs. cell_ok s" "length (join_csv (map format_field srcs)) < RECORD_SIZE"
  shows "parse_csv_row (join_csv (map format_field srcs)) = map cell_text srcs"
    "\<forall>c\<in>set (join_csv (map format_field srcs)). \<not> row_end c \<and> c \<noteq> CHR 0x00"
    "i < length srcs \<Longrightarrow> row_uk (join_csv (map format_field srcs)) i = srcs ! i"
    "i < length srcs \<Longrightarrow> row_key i (join_csv (map format_field srcs)) = parse_long_value (Some (cell_text (srcs ! i)))"
proof -
  have f: "map format_field srcs = map cell_text srcs" using assms(3) cell_ok_facts(1) by simp
  show p: "parse_csv_row (join_csv (map format_field srcs)) = map cell_text srcs"
    unfolding f using split_csv_join [of "map cell_text srcs" MAX_COLS RECORD_SIZE] assms f cell_ok_facts(2)
    by (simp add: parse_csv_row_def split_csv_def)
  show "\<forall>c\<in>set (join_csv (map format_field srcs)). \<not> row_end c \<and> c \<noteq> CHR 0x00"
  proof
    fix c assume "c \<in> set (join_csv (map format_field srcs))"
    then have "c = CHR '','' \<or> (\<exists>s\<in>set srcs. c \<in> set (cell_text s))" using set_join_csv [of "map cell_text srcs"] f by auto
    then show "\<not> row_end c \<and> c \<noteq> CHR 0x00" using assms(3) cell_ok_facts(5) by (auto simp: row_end_def)
  qed
  show "row_uk (join_csv (map format_field srcs)) i = srcs ! i" if "i < length srcs"
    using that p assms(3) cell_ok_facts(3) by (simp add: row_uk_def field_at_def)
  show "row_key i (join_csv (map format_field srcs)) = parse_long_value (Some (cell_text (srcs ! i)))" if "i < length srcs"
    using that p by (simp add: row_key_def field_at_def)
qed

lemma parse_long_range: "parse_long_value v = Some k \<Longrightarrow> LONG_MIN \<le> k \<and> k \<le> LONG_MAX"
  using strtol_range by (auto simp: parse_long_value_def Let_def split: prod.splits if_splits)

lemma parse_long_cell:
  assumes "value_ok v"
  shows "parse_long_value (Some (cell_text (trim_uq v))) = parse_long_value (Some v)"
  using normalize_value_ok [OF assms] cell_ok_facts(4) [OF cell_ok_trim [OF assms]] by (simp add: parse_long_value_def)

lemma parse_long_cell_show:
  assumes "LONG_MIN \<le> k" "k \<le> LONG_MAX"
  shows "parse_long_value (Some (cell_text (show_long k))) = Some k"
proof -
  have "normalize_value 256 (Some (show_long k)) = show_long k"
    using plain_show_long length_show_long [OF assms] by (intro normalize_plain) auto
  then show ?thesis using cell_ok_facts(4) [OF cell_ok_show [OF assms]] parse_long_show [OF assms] by (simp add: parse_long_value_def)
qed

lemma key_column_Some: "key_column cs = Some p \<Longrightarrow> p < length cs \<and> col_type (cs ! p) = COL_PK"
proof -
  have "fold (\<lambda>i p. if col_type (cs ! i) = COL_PK then Some i else p) is q = Some p \<Longrightarrow>
      q = Some p \<or> p \<in> set is \<and> col_type (cs ! p) = COL_PK" for "is" q
    by (induction "is" arbitrary: q) (auto split: if_splits)
  from this [of "[0..<length cs]" None] show "key_column cs = Some p \<Longrightarrow> p < length cs \<and> col_type (cs ! p) = COL_PK"
    by (auto simp: key_column_def)
qed

lemma unique_columns_set: "c \<in> set (unique_columns cs) \<Longrightarrow> c < length cs \<and> col_type (cs ! c) = COL_UK"
  by (auto simp: unique_columns_def dest!: in_set_takeD)

text \<open>A line that may be added under the key \<open>k\<close>.\<close>

definition addable :: "ltable \<Rightarrow> (int \<Rightarrow> string option) \<Rightarrow> int \<Rightarrow> string \<Rightarrow> bool" where
  "addable l m k line \<longleftrightarrow> (\<forall>c\<in>set line. \<not> row_end c \<and> c \<noteq> CHR 0x00) \<and> length line < RECORD_SIZE \<and>
     (\<forall>p. l_pk l = Some p \<longrightarrow> row_key p line = Some k \<and> k \<notin> fst ` pk_entries p m) \<and>
     (\<forall>c\<in>set (l_uks l). row_uk line c = [] \<or> row_uk line c \<notin> fst ` uk_entries c m)"

lemma insert_line_ok:
  assumes ok: "indexes_ok l m" "slot_text (l_store l) = m" "cli_schema_ok l" "\<forall>v\<in>set vals. value_ok v" "length vals \<le> length (l_cols l)"
    and p: "l_pk l = Some p" and k: "LONG_MIN \<le> k" "k \<le> LONG_MAX" "k \<notin> fst ` pk_entries p m"
    and key: "auto \<or> (p < length vals \<and> parse_long_value (Some (vals ! p)) = Some k)"
  shows "\<exists>res. insert_cells l vals auto k RECORD_SIZE [] [0..<length (l_cols l)] = Some (res, l) \<and>
    (\<forall>line. res = Inr line \<longrightarrow> addable l m k line)"
proof -
  let ?srcs = "map (insert_source l vals auto k) [0..<length (l_cols l)]"
  obtain res where res: "insert_cells l vals auto k RECORD_SIZE [] [0..<length (l_cols l)] = Some (res, l)"
    "\<forall>line'. res = Inr line' \<longrightarrow> line' = [] @ join_csv (map (\<lambda>i. format_field (insert_source l vals auto k i)) [0..<length (l_cols l)]) \<and>
       ([0..<length (l_cols l)] \<noteq> [] \<longrightarrow> length line' < RECORD_SIZE) \<and>
       (\<forall>i\<in>set [0..<length (l_cols l)]. col_type (l_cols l ! i) = COL_UK \<longrightarrow> insert_source l vals auto k i \<noteq> [] \<longrightarrow>
          insert_source l vals auto k i \<notin> fst ` uk_entries i m)"
    using insert_cells_ok [OF ok(1,2), of vals auto k RECORD_SIZE "[]" "[0..<length (l_cols l)]"] by blast
  have srcs: "?srcs \<noteq> []" "length ?srcs \<le> MAX_COLS" "\<forall>s\<in>set ?srcs. cell_ok s"
    using ok(3) insert_source_ok [OF ok(4) k(1,2)] by (auto simp: cli_schema_ok_def)
  have pc: "p < length (l_cols l)" "col_type (l_cols l ! p) = COL_PK" using key_column_Some [of "l_cols l" p] ok(3) p by (auto simp: cli_schema_ok_def)
  have src_p: "parse_long_value (Some (cell_text (insert_source l vals auto k p))) = Some k"
  proof (cases auto)
    case True
    then show ?thesis using p parse_long_cell_show [OF k(1,2)] by (simp add: insert_source_def)
  next
    case False
    then have v: "p < length vals" "parse_long_value (Some (vals ! p)) = Some k" "value_ok (vals ! p)" using key ok(4) by auto
    then have "insert_source l vals auto k p = trim_uq (vals ! p)" using False normalize_value_ok [OF v(3)] by (simp add: insert_source_def)
    then show ?thesis using parse_long_cell [OF v(3)] v(2) by simp
  qed
  have "addable l m k line" if line: "res = Inr line" for line
  proof -
    have eq: "line = join_csv (map format_field ?srcs)" using res(2) line by (simp add: comp_def)
    have "[0..<length (l_cols l)] \<noteq> [] \<longrightarrow> length line < RECORD_SIZE" using res(2) line by blast
    then have "length line < RECORD_SIZE" using srcs(1) by simp
    then have len: "length (join_csv (map format_field ?srcs)) < RECORD_SIZE" by (simp only: eq)
    note w = written_row [OF srcs len]
    have "row_key p line = Some k" using w(4) [of p] pc(1) src_p eq by simp
    moreover have "row_uk line c = [] \<or> row_uk line c \<notin> fst ` uk_entries c m" if "c \<in> set (l_uks l)" for c
    proof -
      have c: "c < length (l_cols l)" "col_type (l_cols l ! c) = COL_UK" using unique_columns_set [of c "l_cols l"] that ok(3) by (auto simp: cli_schema_ok_def)
      then have "row_uk line c = insert_source l vals auto k c" using w(3) [of c] eq by simp
      then show ?thesis using res(2) line c by auto
    qed
    ultimately show ?thesis using w(2) len k(3) p eq by (simp add: addable_def)
  qed
  then show ?thesis using res(1) by blast
qed

lemma build_insert_ok:
  assumes ok: "indexes_ok l m" "slot_text (l_store l) = m" "cli_schema_ok l" "\<forall>v\<in>set vals. value_ok v"
  shows "\<exists>res. build_insert_row l vals RECORD_SIZE = Some (res, l) \<and> (\<forall>k line. res = Inr (k, line) \<longrightarrow> addable l m k line)"
proof (cases "length vals > length (l_cols l)")
  case True
  then show ?thesis by (simp add: build_insert_row_def)
next
  case False
  obtain p where p: "l_pk l = Some p" "tree_for (id_index l) (pk_entries p m)" using ok(1) by (auto simp: indexes_ok_def)
  let ?k = "if auto_key l vals then Some (next_auto_id l) else parse_long_value (Some (vals ! p))"
  show ?thesis
  proof (cases ?k)
    case None
    then show ?thesis using False p by (simp add: build_insert_row_def Let_def)
  next
    case (Some k)
    have k: "LONG_MIN \<le> k" "k \<le> LONG_MAX" using Some ok(3) parse_long_range [of "Some (vals ! p)" k] by (auto simp: cli_schema_ok_def split: if_splits)
    have key: "auto_key l vals \<or> (p < length vals \<and> parse_long_value (Some (vals ! p)) = Some k)"
      using Some p(1) by (auto simp: auto_key_def split: if_splits)
    show ?thesis
    proof (cases "bptree_search (id_index l) k")
      case (Found r)
      then have "(k, r) \<in> pk_entries p m" using pk_search(1) [OF p(2)] by simp
      then obtain row where "slot_text (l_store l) r = Some row" using ok(2) by (auto simp: pk_entries_def)
      then have "slot_is_active (l_store l) r" by (rule slot_text_active)
      then show ?thesis using False p Some Found by (simp add: build_insert_row_def Let_def)
    next
      case Absent
      then have "k \<notin> fst ` pk_entries p m" using pk_search(2) [OF p(2)] by simp
      from insert_line_ok [OF ok _ p(1) k this key] False obtain res
        where "insert_cells l vals (auto_key l vals) k RECORD_SIZE [] [0..<length (l_cols l)] = Some (res, l)"
          "\<forall>line. res = Inr line \<longrightarrow> addable l m k line" by auto
      then show ?thesis using False p Some Absent by (cases res) (auto simp: build_insert_row_def Let_def)
    next
      case Wild
      then show ?thesis using pk_search(3) [OF p(2), of k] by simp
    qed
  qed
qed

subsection \<open>The statement\<close>

lemma store_ok_offset: "store_ok f (tc\<lparr>append_offset := a\<rparr>) = store_ok f tc" "slot_text (tc\<lparr>append_offset := a\<rparr>) = slot_text tc"
  by (simp_all add: store_ok_def cached_slots_def slot_text_def slot_is_active_def fun_eq_iff)

lemma take_slot_offset: "take_record_slot (find_append_offset tc) b = None \<longleftrightarrow> take_record_slot tc b = None"
  by (auto simp: find_append_offset_def take_record_slot_def ensure_record_capacity_def Let_def split: option.splits if_splits)

lemma find_append_ok:
  assumes "table_ok f l m"
  shows "table_ok f (l\<lparr>l_store := find_append_offset (l_store l)\<rparr>) m" "append_offset (find_append_offset (l_store l)) = int (length f)"
proof -
  have "tc_file (l_store l) = Some f" using assms by (simp add: table_ok_def store_ok_def)
  then obtain a where a: "find_append_offset (l_store l) = (l_store l)\<lparr>append_offset := a\<rparr>" "a = int (length f)"
    using assms by (cases "append_offset (l_store l) < 0") (auto simp: find_append_offset_def table_ok_def intro: that)
  then show "append_offset (find_append_offset (l_store l)) = int (length f)" by simp
  show "table_ok f (l\<lparr>l_store := find_append_offset (l_store l)\<rparr>) m"
    using assms a by (simp add: table_ok_def store_ok_offset)
qed

lemma find_pk_row_ok:
  assumes "table_ok f l m" "l_pk l = Some p" "LONG_MIN \<le> k" "k \<le> LONG_MAX"
  shows "find_pk_row l (show_long k) = Found i \<longleftrightarrow> (\<exists>row. m i = Some row \<and> row_key p row = Some k)"
proof -
  have t: "tree_for (id_index l) (pk_entries p m)" using assms(1,2) by (auto simp: table_ok_def indexes_ok_def)
  have "slot_is_active (l_store l) j" if "(k, j) \<in> pk_entries p m" for j
    using that assms(1) slot_text_active [of "l_store l" j] by (auto simp: pk_entries_def table_ok_def)
  then have "find_pk_row l (show_long k) = bptree_search (id_index l) k"
    using parse_long_show [OF assms(3,4)] assms(2) pk_search(1) [OF t, of k]
    by (cases "bptree_search (id_index l) k") (auto simp: find_pk_row_def)
  then show ?thesis using pk_search(1) [OF t, of k i] by (auto simp: pk_entries_def)
qed

lemma insert_cached_ok:
  assumes ok: "table_ok f l m" and line: "addable l m k line"
  shows "\<exists>res l'. insert_cached l line k = Some (res, l') \<and>
    (case res of Inl e \<Rightarrow> e = Index_Failed \<and> take_record_slot (l_store l) True = None \<and> table_ok f l' m
     | Inr k' \<Rightarrow> take_record_slot (l_store l) True \<noteq> None \<and> k' = k \<and> l_pk l' = l_pk l \<and> (\<exists>i. m i = None \<and> table_ok (f @ line @ [CHR 0x0A]) l' (m(i \<mapsto> line))))"
proof -
  let ?l1 = "l\<lparr>l_store := find_append_offset (l_store l)\<rparr>"
  note l1 = find_append_ok [OF ok]
  have st: "store_ok f (l_store ?l1)" "slot_text (l_store ?l1) = m" "indexes_ok ?l1 m" "cli_schema_ok ?l1" using l1(1) by (auto simp: table_ok_def)
  obtain p where p: "l_pk ?l1 = Some p" using st(3) by (auto simp: indexes_ok_def)
  have a: "row_key p line = Some k" "k \<notin> fst ` pk_entries p m" "\<forall>c\<in>set (l_uks ?l1). row_uk line c = [] \<or> row_uk line c \<notin> fst ` uk_entries c m"
    "\<forall>c\<in>set line. \<not> row_end c \<and> c \<noteq> CHR 0x00" "length line < RECORD_SIZE"
    using line p by (auto simp: addable_def)
  have off: "\<not> append_offset (l_store ?l1) < 0" "append_offset (l_store ?l1) = int (length f)" using l1(2) by simp_all
  show ?thesis
  proof (rule append_indexed_ok [OF st(3,1,2) p a(1,2,3), of "int (length f)"])
    assume full: "take_record_slot (l_store ?l1) True = None" "append_record_csv_indexed ?l1 line k (int (length f)) = Some (None, ?l1)"
    then have "take_record_slot (l_store l) True = None" using take_slot_offset [of "l_store l"] by simp
    then show ?thesis using l1 full(2) by (simp add: insert_cached_def)
  next
    fix i st1 st2 l'
    assume t: "take_record_slot (l_store ?l1) True = Some (i, st1)" "assign_slot_row st1 i line ROW_STORE_CSV (int (length f)) False = Some st2"
      "append_record_csv_indexed ?l1 line k (int (length f)) = Some (Some i, l')" "l_store l' = activate i (next_row_id ?l1) st2"
      "indexes_ok l' (m(int i \<mapsto> line))" "cli_schema_ok ?l1 \<longrightarrow> cli_schema_ok l'" "l_pk l' = l_pk ?l1"
    note tk = take_slot_ok [OF st(1) t(1)]
    have st2: "tc_file st2 = tc_file st1" "append_offset st2 = append_offset st1" using t(2) by (auto simp: assign_slot_row_def Let_def split: if_splits)
    have "append_offset st1 = append_offset (l_store ?l1)"
      using t(1) by (auto simp: take_record_slot_def ensure_record_capacity_def Let_def split: if_splits prod.splits bool.splits)
    then have off2: "append_offset (l_store l') = int (length f)" "tc_file (l_store l') = Some f"
      using t(4) st2 off(2) tk by (auto simp: activate_def store_ok_def)
    obtain st3 where st3: "append_record_file (l_store l') line = (True, st3)" "append_offset st3 = int (length f) + int (length line) + 1"
      using off2 by (auto simp: append_record_file_def)
    have ins: "store_ok (f @ line @ [CHR 0x0A]) st3 \<and> slot_text st3 = m(int i \<mapsto> line) \<and> m (int i) = None"
      using insert_ok [OF st(1) t(1,2), of "next_row_id ?l1" st3] st3(1) t(4) a(4,5) st(2) by simp
    let ?l' = "l'\<lparr>l_store := st3, snapshot_dirty := True\<rparr>"
    have "insert_cached l line k = Some (Inr k, ?l')" using t(3) off st3(1) l1(2) by (simp add: insert_cached_def)
    moreover have "table_ok (f @ line @ [CHR 0x0A]) ?l' (m(int i \<mapsto> line))"
      using ins t(5,6) st(4) st3(2) by (simp add: table_ok_def)
    moreover have "take_record_slot (l_store l) True \<noteq> None" using take_slot_offset [of "l_store l" True] t(1) by simp
    ultimately show ?thesis using ins t(7) by auto
  qed
qed

lemma empty_table_ok:
  assumes "cs \<noteq> []" "length cs \<le> MAX_COLS" "key_column cs \<noteq> None" "boundary csv (length csv)"
  shows "table_ok csv (empty_table csv cs) Map.empty"
proof -
  have t: "tree_for bptree_create {}" "tree_for bptree_string_create {}"
    using pk.inv_empty uk.inv_empty pk.entries_empty uk.entries_empty by (auto simp: tree_for_def)
  have "uk_for (Index bptree_string_create) (uk_entries c Map.empty)" for c using t(2) by (simp add: uk_for_def uk_entries_def)
  then have "indexes_ok (empty_table csv cs) Map.empty"
    using assms(3) t(1) by (auto simp: indexes_ok_def empty_table_def ensure_uk_indexes_def pk_entries_def)
  moreover have "cli_schema_ok (empty_table csv cs)" using assms by (simp add: cli_schema_ok_def empty_table_def ensure_uk_indexes_def LONG_MIN_def LONG_MAX_def)
  moreover have "store_ok csv (reset_store (Some csv)) \<and> slot_text (reset_store (Some csv)) = Map.empty" using assms(4) by (rule reset_ok)
  ultimately show ?thesis by (simp add: table_ok_def empty_table_def ensure_uk_indexes_def reset_store_def)
qed

end
