(* ===== verification/Legacy_Load_Correct.thy ===== *)
theory Legacy_Load_Correct
  imports Legacy_Insert_Correct Legacy_Compact
begin

text \<open>Loading a CSV file with a header and rows: the rows get the slots in order, and the indexes their keys.\<close>

subsection \<open>Lines\<close>

definition lines_text :: "string list \<Rightarrow> string" where
  "lines_text rs = concat (map (\<lambda>r. r @ [LF]) rs)"

definition row_ok :: "string \<Rightarrow> bool" where
  "row_ok r \<longleftrightarrow> r \<noteq> [] \<and> (\<forall>c\<in>set r. \<not> row_end c \<and> c \<noteq> CHR 0x00) \<and> length r + 1 < RECORD_SIZE"

lemma fgets_line_split:
  assumes "LF \<notin> set r" "length r + 1 < n"
  shows "fgets_split n (r @ LF # s) = (r @ [LF], s)"
proof -
  have w: "takeWhile (\<lambda>c. c \<noteq> LF) (r @ LF # s) = r" using assms(1) by (subst takeWhile_append2) auto
  have k: "min (n - 1) (length r + 1) = length r + 1" using assms(2) by linarith
  have c: "(length r < length (r @ LF # s)) = True" by simp
  show ?thesis unfolding fgets_split_def Let_def w c if_True k by simp
qed

lemma c_string_clean: "\<forall>c\<in>set r. \<not> row_end c \<and> c \<noteq> CHR 0x00 \<Longrightarrow>
    c_string (r @ [LF]) = r @ [LF] \<and> takeWhile (\<lambda>c. \<not> row_end c) (r @ [LF]) = r \<and> LF \<notin> set r"
  by (auto simp: c_string_def LF_def row_end_def takeWhile_append2)

lemma load_lines_Cons:
  assumes "row_ok r"
  shows "load_lines d l n off (r @ LF # s) =
    (case load_line d l n off r of
       None \<Rightarrow> None
     | Some (False, n1, l1) \<Rightarrow> Some (False, n1, l1)
     | Some (True, n1, l1) \<Rightarrow> load_lines d l1 n1 (off + int (length r) + 1) s)"
proof -
  have c: "c_string (r @ [LF]) = r @ [LF]" "takeWhile (\<lambda>c. \<not> row_end c) (r @ [LF]) = r" "LF \<notin> set r"
    using c_string_clean [of r] assms by (auto simp: row_ok_def)
  have f: "fgets_split RECORD_SIZE (r @ LF # s) = (r @ [LF], s)" using assms c(3) by (intro fgets_line_split) (auto simp: row_ok_def)
  have e: "(r @ LF # s = []) = False" "(r = []) = False" "list_all (\<lambda>c. \<not> row_end c) (r @ [LF]) = False"
    using assms by (auto simp: row_ok_def row_end_def LF_def)
  have o: "off + int (length (r @ LF # s)) - int (length s) = off + int (length r) + 1" by simp
  show ?thesis unfolding load_lines.simps [of d l n off "r @ LF # s"] f Let_def prod.case c e o if_False simp_thms by simp
qed

lemma load_lines_Nil: "load_lines d l n off [] = Some (True, n, l)"
  by (subst load_lines.simps) simp

subsection \<open>One row\<close>

lemma record_cap_ge: "0 < c \<Longrightarrow> required \<le> MAX_RECORDS \<Longrightarrow> required \<le> record_cap required c"
proof (induction required c rule: record_cap.induct)
  case (1 required c)
  then show ?case by (subst record_cap.simps) auto
qed

lemma take_next_slot:
  assumes "record_count tc < MAX_RECORDS"
  obtains tc1 where "take_record_slot tc False = Some (record_count tc, tc1)" "record_count tc1 = Suc (record_count tc)"
    "active_count tc1 = active_count tc" "tail_index tc1 = tail_index tc" "append_offset tc1 = append_offset tc"
proof -
  let ?c = "record_cap (record_count tc + 1) (if length (slots tc) > 0 then length (slots tc) else INITIAL_RECORD_CAPACITY)"
  have "record_count tc + 1 \<le> ?c" using assms by (intro record_cap_ge) (auto simp: INITIAL_RECORD_CAPACITY_def)
  then obtain tc0 where "ensure_record_capacity tc (record_count tc + 1) = (True, tc0)" "record_count tc0 = record_count tc"
    "active_count tc0 = active_count tc" "tail_index tc0 = tail_index tc" "append_offset tc0 = append_offset tc"
    by (cases "record_count tc + 1 \<le> length (slots tc)") (auto simp: ensure_record_capacity_def Let_def)
  then show ?thesis using assms that by (simp add: take_record_slot_def)
qed

lemma append_next_row:
  assumes "record_count tc < MAX_RECORDS" "store_ok f tc"
  obtains tc' where "append_record_raw_memory tc r rid off = Some (record_count tc, tc')" "record_count tc' = Suc (record_count tc)"
    "active_count tc' = active_count tc + 1" "tail_index tc' = tail_index tc" "append_offset tc' = append_offset tc"
proof -
  obtain tc1 where t: "take_record_slot tc False = Some (record_count tc, tc1)" "record_count tc1 = Suc (record_count tc)"
    "active_count tc1 = active_count tc" "tail_index tc1 = tail_index tc" "append_offset tc1 = append_offset tc"
    using take_next_slot [OF assms(1)] by blast
  obtain tc2 where tc2: "assign_slot_row tc1 (record_count tc) r ROW_STORE_CSV off False = Some tc2"
    using take_slot_ok [OF assms(2) t(1)] by (auto simp: assign_slot_row_def Let_def)
  then have "record_count tc2 = record_count tc1" "active_count tc2 = active_count tc1" "tail_index tc2 = tail_index tc1" "append_offset tc2 = append_offset tc1"
    by (auto simp: assign_slot_row_def Let_def split: if_splits)
  then show ?thesis using that t tc2 by (auto simp: append_record_raw_memory_def activate_def)
qed

text \<open>The rows \<open>rs\<close> are in the first slots.\<close>

definition rows_map :: "string list \<Rightarrow> int \<Rightarrow> string option" where
  "rows_map rs i = (if 0 \<le> i \<and> i < int (length rs) then Some (rs ! nat i) else None)"

lemma rows_map_snoc: "rows_map (rs @ [r]) = (rows_map rs)(int (length rs) \<mapsto> r)"
  by (auto simp: rows_map_def fun_eq_iff nth_append)

definition loading_rows :: "bool \<Rightarrow> string \<Rightarrow> column list \<Rightarrow> string list \<Rightarrow> int \<Rightarrow> ltable \<Rightarrow> bool" where
  "loading_rows d f cs rs n l \<longleftrightarrow> store_ok f (l_store l) \<and> slot_text (l_store l) = rows_map rs \<and> record_count (l_store l) = length rs \<and>
     active_count (l_store l) = int (length rs) \<and> tail_index (l_store l) = [] \<and> append_offset (l_store l) = - 1 \<and>
     \<not> cache_truncated l \<and> l_cols l = cs \<and> cli_schema_ok l \<and>
     (if d then id_index l = bptree_create else indexes_ok l (rows_map rs)) \<and> LONG_MIN \<le> n \<and> n \<le> LONG_MAX"

lemma load_line_ok:
  assumes ok: "loading_rows d f cs rs n l" and r: "row_ok r" "length rs < MAX_RECORDS"
    and off: "drop off f = r @ LF # s"
    and key: "l_pk l = Some p" "row_key p r = Some k" "\<not> d \<Longrightarrow> k \<notin> fst ` pk_entries p (rows_map rs)"
    and uk: "\<not> d \<Longrightarrow> \<forall>c\<in>set (l_uks l). row_uk r c = [] \<or> row_uk r c \<notin> fst ` uk_entries c (rows_map rs)"
  shows "\<exists>n' l'. load_line d l n (int off) r = Some (True, n', l') \<and> loading_rows d f cs (rs @ [r]) n' l'"
proof -
  have st: "store_ok f (l_store l)" "slot_text (l_store l) = rows_map rs" "record_count (l_store l) = length rs" using ok by (auto simp: loading_rows_def)
  obtain f0 where f0: "field_at (parse_csv_row r) p = Some f0"
    using key(2) by (cases "field_at (parse_csv_row r) p") (auto simp: row_key_def parse_long_value_def normalize_value_def trim_and_unquote_def trim_def strbuf_def)
  obtain tc' where tc': "append_record_raw_memory (l_store l) r (next_row_id l) (int off) = Some (length rs, tc')" "record_count tc' = Suc (length rs)"
    "active_count tc' = active_count (l_store l) + 1" "tail_index tc' = tail_index (l_store l)" "append_offset tc' = append_offset (l_store l)"
    using append_next_row [of "l_store l" f r "next_row_id l" "int off"] r(2) st by metis
  have clean: "\<forall>c\<in>set r. \<not> row_end c \<and> c \<noteq> CHR 0x00" "LF \<notin> set r" using r(1) by (auto simp: row_ok_def row_end_def LF_def)
  have tw: "takeWhile (\<lambda>c. c \<noteq> CHR 0x0A) (r @ LF # s) = r" using clean by (subst takeWhile_append2) (auto simp: LF_def)
  have good: "good_line f off" "row_text f off = r"
    using off tw r(1) clean by (auto simp: good_line_def row_text_eq LF_def row_ok_def takeWhile_append2 row_end_def)
  have store: "store_ok f tc' \<and> slot_text tc' = (rows_map rs)(int (length rs) \<mapsto> r) \<and> rows_map rs (int (length rs)) = None"
    using load_ok [OF st(1) good(1) tc'(1)] good(2) st(2) by simp
  let ?n = "if k \<ge> n then wrap64 (k + 1) else n" and ?l = "l\<lparr>next_row_id := wrap64 (next_row_id l + 1), l_store := tc'\<rparr>"
  have n: "LONG_MIN \<le> ?n \<and> ?n \<le> LONG_MAX" using ok wrap64_range [of "k + 1"] by (auto simp: loading_rows_def)
  have act: "active_count (l_store l) < int MAX_RECORDS" using ok r(2) by (simp add: loading_rows_def)
  have pv: "parse_long_value (Some f0) = Some k" using key(2) f0 by (simp add: row_key_def)
  show ?thesis
  proof (cases d)
    case True
    then have "load_line d l n (int off) r = Some (True, ?n, ?l)"
      using key(1) f0 pv tc'(1) act by (simp add: load_line_def Let_def)
    moreover have "loading_rows d f cs (rs @ [r]) ?n ?l" using ok True store tc' n by (simp add: loading_rows_def rows_map_snoc)
    ultimately show ?thesis by blast
  next
    case False
    have okl: "indexes_ok ?l (rows_map rs)" "rows_map rs (int (length rs)) = None" "l_pk ?l = Some p"
      using ok False store key(1) by (simp_all add: loading_rows_def)
    have u: "\<forall>c\<in>set (l_uks ?l). row_uk r c = [] \<or> row_uk r c \<notin> fst ` uk_entries c (rows_map rs)" using uk False by simp
    obtain t ix where ix: "bptree_insert (id_index ?l) k (int (length rs)) = Some (1, t)"
      "index_record_uks_from_row (?l\<lparr>id_index := t\<rparr>) r (length rs) = Some (True, ?l\<lparr>id_index := t, uk_indexes := ix\<rparr>)"
      "indexes_ok (?l\<lparr>id_index := t, uk_indexes := ix\<rparr>) ((rows_map rs)(int (length rs) \<mapsto> r))"
      by (rule index_row_ok [OF okl key(2) key(3) [OF False] u])
    let ?l' = "?l\<lparr>id_index := t, uk_indexes := ix\<rparr>"
    have "load_line d l n (int off) r = Some (True, ?n, ?l')"
      using key(1) f0 pv tc'(1) act False ix(1,2) by (simp add: load_line_def Let_def)
    moreover have "loading_rows d f cs (rs @ [r]) ?n ?l'"
      using ok False store tc' n ix(3) by (simp add: loading_rows_def rows_map_snoc)
    ultimately show ?thesis by blast
  qed
qed

subsection \<open>All rows\<close>

lemma rows_map_ex: "(\<exists>i. rows_map rs i = Some r) \<longleftrightarrow> r \<in> set rs"
proof
  show "\<exists>i. rows_map rs i = Some r \<Longrightarrow> r \<in> set rs" by (auto simp: rows_map_def split: if_splits)
  assume "r \<in> set rs"
  then obtain j where "j < length rs" "rs ! j = r" by (auto simp: in_set_conv_nth)
  then have "rows_map rs (int j) = Some r" by (simp add: rows_map_def)
  then show "\<exists>i. rows_map rs i = Some r" ..
qed

lemma pk_entries_fst: "k \<in> fst ` pk_entries p m \<longleftrightarrow> (\<exists>r. (\<exists>i. m i = Some r) \<and> row_key p r = Some k)"
  by (auto simp: pk_entries_def image_iff)

lemma uk_entries_fst: "k \<in> fst ` uk_entries c m \<longleftrightarrow> k \<noteq> [] \<and> (\<exists>r. (\<exists>i. m i = Some r) \<and> row_uk r c = k)"
  by (auto simp: uk_entries_def image_iff)

lemma distinct_filter_new: "distinct (filter P (map g (xs @ x # ys))) \<Longrightarrow> P (g x) \<Longrightarrow> y \<in> set xs \<Longrightarrow> g y \<noteq> g x"
  by (auto simp: image_iff)

definition keys_unique :: "column list \<Rightarrow> nat \<Rightarrow> string list \<Rightarrow> bool" where
  "keys_unique cs p rs \<longleftrightarrow> distinct (map (row_key p) rs) \<and>
     (\<forall>c\<in>set (unique_columns cs). distinct (filter (\<lambda>k. k \<noteq> []) (map (\<lambda>r. row_uk r c) rs)))"

lemma load_lines_ok:
  assumes "loading_rows d f cs rs0 n l" "drop off f = lines_text rs" "key_column cs = Some p"
    "\<forall>r\<in>set rs. row_ok r \<and> row_key p r \<noteq> None" "length (rs0 @ rs) \<le> MAX_RECORDS" "\<not> d \<Longrightarrow> keys_unique cs p (rs0 @ rs)"
  shows "\<exists>n' l'. load_lines d l n (int off) (lines_text rs) = Some (True, n', l') \<and> loading_rows d f cs (rs0 @ rs) n' l'"
  using assms
proof (induction rs arbitrary: rs0 n l off)
  case Nil
  then show ?case by (simp add: lines_text_def load_lines_Nil)
next
  case (Cons r rs)
  have r: "row_ok r" "length rs0 < MAX_RECORDS" using Cons.prems(4,5) by auto
  obtain k where k: "row_key p r = Some k" using Cons.prems(4) by auto
  have sch: "l_pk l = Some p" "l_uks l = unique_columns cs" using Cons.prems(1,3) by (auto simp: loading_rows_def cli_schema_ok_def)
  have off: "drop off f = r @ LF # lines_text rs" using Cons.prems(2) by (simp add: lines_text_def)
  have fresh: "k \<notin> fst ` pk_entries p (rows_map rs0)" if "\<not> d"
    using Cons.prems(6) [OF that] k unfolding pk_entries_fst rows_map_ex by (force simp: keys_unique_def)
  have ufresh: "\<forall>c\<in>set (l_uks l). row_uk r c = [] \<or> row_uk r c \<notin> fst ` uk_entries c (rows_map rs0)" if "\<not> d"
  proof
    fix c assume "c \<in> set (l_uks l)"
    then have "distinct (filter (\<lambda>k. k \<noteq> []) (map (\<lambda>r. row_uk r c) (rs0 @ r # rs)))"
      using Cons.prems(6) [OF that] sch(2) by (simp only: keys_unique_def)
    note distinct_filter_new [OF this]
    then show "row_uk r c = [] \<or> row_uk r c \<notin> fst ` uk_entries c (rows_map rs0)" unfolding uk_entries_fst rows_map_ex by metis
  qed
  obtain n1 l1 where l1: "load_line d l n (int off) r = Some (True, n1, l1)" "loading_rows d f cs (rs0 @ [r]) n1 l1"
    using load_line_ok [OF Cons.prems(1) r off sch(1) k fresh ufresh] by blast
  have "drop (off + length r + 1) f = drop (length r + 1) (r @ LF # lines_text rs)" using off by (metis drop_drop add.assoc add.commute)
  then have "drop (off + length r + 1) f = lines_text rs" by simp
  then obtain n' l' where "load_lines d l1 n1 (int (off + length r + 1)) (lines_text rs) = Some (True, n', l')" "loading_rows d f cs ((rs0 @ [r]) @ rs) n' l'"
    using Cons.IH [OF l1(2), of "off + length r + 1"] Cons.prems(3-6) by auto
  moreover have "lines_text (r # rs) = r @ LF # lines_text rs" by (simp add: lines_text_def)
  ultimately show ?case using load_lines_Cons [OF r(1), of d l n "int off" "lines_text rs"] l1(1) by (simp add: ac_simps)
qed

subsection \<open>The header\<close>

definition column_text :: "column \<Rightarrow> string" where
  "column_text c = col_name c @ (case col_type c of COL_PK \<Rightarrow> ''(PK)'' | COL_UK \<Rightarrow> ''(UK)'' | COL_NN \<Rightarrow> ''(NN)'' | COL_NORMAL \<Rightarrow> [])"

definition name_ok :: "string \<Rightarrow> bool" where
  "name_ok s \<longleftrightarrow> s \<noteq> [] \<and> length s < 50 \<and> (\<forall>c\<in>set s. c \<noteq> CHR '','' \<and> c \<noteq> CHR ''('' \<and> c \<noteq> CHR 0x00 \<and> \<not> row_end c) \<and> byte (hd s) \<noteq> 0xEF"

definition header_ok :: "column list \<Rightarrow> bool" where
  "header_ok cs \<longleftrightarrow> cs \<noteq> [] \<and> length cs \<le> MAX_COLS \<and> (\<forall>c\<in>set cs. name_ok (col_name c)) \<and> length (write_table_header cs) < RECORD_SIZE"

lemma column_text_ok: "name_ok (col_name c) \<Longrightarrow> column_text c \<noteq> [] \<and> (\<forall>x\<in>set (column_text c). x \<noteq> CHR '','' \<and> x \<noteq> CHR 0x00 \<and> \<not> row_end x)"
  by (cases "col_type c") (auto simp: column_text_def name_ok_def row_end_def)

lemma header_column_text: "name_ok (col_name c) \<Longrightarrow> header_column (column_text c) = c"
proof -
  assume n: "name_ok (col_name c)"
  have none: "strchr (col_name c) (CHR ''('') = None" using n by (auto simp: strchr_None_iff name_ok_def)
  have skip: "strchr (col_name c @ CHR ''('' # s) (CHR ''('') = Some (CHR ''('' # s)" for s
    using n by (intro strchr_skip) (auto simp: name_ok_def)
  have len: "strbuf 50 (col_name c) = col_name c" using n by (intro strbuf_id) (auto simp: name_ok_def)
  show ?thesis
    by (cases c; cases "col_type c") (use none skip len in \<open>simp_all add: header_column_def column_text_def\<close>)
qed

lemma header_tokens_skip: "\<forall>x\<in>set t. x \<noteq> CHR '','' \<and> \<not> row_end x \<Longrightarrow> header_tokens cur (t @ s) = header_tokens (rev t @ cur) s"
  by (induction t arbitrary: cur) auto

lemma header_tokens_header:
  "\<forall>c\<in>set cs. name_ok (col_name c) \<Longrightarrow> header_tokens [] (write_table_header cs) = map column_text cs"
proof (induction cs)
  case (Cons c cs)
  have c: "column_text c \<noteq> []" "\<forall>x\<in>set (column_text c). x \<noteq> CHR '','' \<and> \<not> row_end x" using column_text_ok [of c] Cons.prems by auto
  have w: "write_table_header (c # cs) = column_text c @ (if cs = [] then [LF] else '','') @ write_table_header cs" by (simp add: column_text_def)
  show ?case unfolding w using header_tokens_skip [OF c(2), of "[]"] Cons c(1) by (auto simp: row_end_def LF_def)
qed simp

definition header_text :: "string \<Rightarrow> bool" where
  "header_text h \<longleftrightarrow> h \<noteq> [] \<and> LF \<notin> set h \<and> CHR 0x00 \<notin> set h \<and> byte (hd h) \<noteq> 0xEF"

lemma header_text_append: "header_text a \<Longrightarrow> header_text b \<Longrightarrow> header_text (a @ CHR '','' # b)"
  by (simp add: header_text_def LF_def)

lemma column_header_text: "name_ok (col_name c) \<Longrightarrow> header_text (column_text c)"
proof -
  assume n: "name_ok (col_name c)"
  have "LF \<notin> set (column_text c)" "CHR 0x00 \<notin> set (column_text c)" using column_text_ok [OF n] by (auto simp: row_end_def LF_def)
  moreover have "hd (column_text c) = hd (col_name c)" "byte (hd (col_name c)) \<noteq> 0xEF" using n by (simp_all add: column_text_def name_ok_def)
  ultimately show ?thesis using column_text_ok [OF n] by (simp add: header_text_def)
qed

lemma header_chars:
  assumes "cs \<noteq> []" "\<forall>c\<in>set cs. name_ok (col_name c)"
  shows "\<exists>h. write_table_header cs = h @ [LF] \<and> header_text h"
  using assms
proof (induction cs)
  case (Cons c cs)
  have c: "header_text (column_text c)" using column_header_text Cons.prems by simp
  have w: "write_table_header (c # cs) = column_text c @ (if cs = [] then [LF] else '','') @ write_table_header cs" by (simp add: column_text_def)
  show ?case
  proof (cases "cs = []")
    case True
    then have "write_table_header (c # cs) = column_text c @ [LF]" using w by simp
    then show ?thesis using c by blast
  next
    case False
    then obtain h where h: "write_table_header cs = h @ [LF]" "header_text h" using Cons by auto
    have "write_table_header (c # cs) = (column_text c @ CHR '','' # h) @ [LF]" unfolding w h(1) using False by simp
    then show ?thesis using header_text_append [OF c h(2)] by blast
  qed
qed simp

lemma header_read:
  assumes "header_ok cs"
  shows "fgets_split RECORD_SIZE (write_table_header cs @ s) = (write_table_header cs, s)"
    "header_columns (c_string (write_table_header cs)) = cs"
proof -
  obtain h where h: "write_table_header cs = h @ [LF]" "LF \<notin> set h" "CHR 0x00 \<notin> set h" "h \<noteq> []" "byte (hd h) \<noteq> 0xEF"
    using header_chars [of cs] assms unfolding header_ok_def header_text_def by blast
  have "length h + 1 < RECORD_SIZE" using assms h(1) by (simp add: header_ok_def)
  then show "fgets_split RECORD_SIZE (write_table_header cs @ s) = (write_table_header cs, s)" using fgets_line_split [OF h(2), of RECORD_SIZE s] h(1) by simp
  have c: "c_string (write_table_header cs) = write_table_header cs" using h(3) unfolding h(1) c_string_def by (auto simp: takeWhile_eq_all_conv LF_def)
  have b: "strip_bom (write_table_header cs) = write_table_header cs"
    using h(4,5) unfolding h(1) by (cases h) (auto simp: strip_bom_def split: list.split)
  have m: "map header_column (map column_text cs) = cs" using assms header_column_text by (simp add: header_ok_def map_idI)
  show "header_columns (c_string (write_table_header cs)) = cs"
    using header_tokens_header [of cs] assms unfolding header_columns_def c b by (simp add: header_ok_def m del: map_map)
qed


subsection \<open>The table\<close>

lemma file_boundary: "header_ok cs \<Longrightarrow> boundary (write_table_header cs @ lines_text rs) (length (write_table_header cs @ lines_text rs))"
proof (cases rs rule: rev_cases)
  case Nil
  assume "header_ok cs"
  then obtain h where "write_table_header cs = h @ [LF]" using header_chars [of cs] by (auto simp: header_ok_def)
  then show ?thesis using Nil by (simp add: boundary_def lines_text_def nth_append LF_def)
next
  case (snoc r q)
  then show ?thesis by (simp add: boundary_def lines_text_def nth_append LF_def)
qed

lemma load_lines_file:
  assumes h: "header_ok cs" and p: "key_column cs = Some p" and rs: "\<forall>r\<in>set rs. row_ok r \<and> row_key p r \<noteq> None" "length rs \<le> MAX_RECORDS"
    and u: "\<not> d \<Longrightarrow> keys_unique cs p rs" and csv: "csv = write_table_header cs @ lines_text rs"
  shows "\<exists>n l. load_lines d (empty_table csv cs) 1 (int (length (write_table_header cs))) (lines_text rs) = Some (True, n, l) \<and> loading_rows d csv cs rs n l"
proof -
  let ?l = "empty_table csv cs" and ?o = "length (write_table_header cs)"
  have "table_ok csv ?l Map.empty" using file_boundary [OF h, of rs] h p csv by (intro empty_table_ok) (auto simp: header_ok_def)
  moreover have "rows_map [] = Map.empty" by (simp add: rows_map_def fun_eq_iff)
  moreover have "record_count (l_store ?l) = 0" "active_count (l_store ?l) = 0" "tail_index (l_store ?l) = []" "append_offset (l_store ?l) = - 1"
    "\<not> cache_truncated ?l" "l_cols ?l = cs" "id_index ?l = bptree_create" by (simp_all add: empty_table_def ensure_uk_indexes_def reset_store_def)
  ultimately have "loading_rows d csv cs [] 1 ?l" by (simp add: loading_rows_def table_ok_def LONG_MIN_def LONG_MAX_def)
  then show ?thesis using load_lines_ok [of d csv cs "[]" 1 ?l ?o rs p] p rs u csv by auto
qed

lemma load_table_rows:
  assumes h: "header_ok cs" and p: "key_column cs = Some p" and rs: "\<forall>r\<in>set rs. row_ok r \<and> row_key p r \<noteq> None" "length rs \<le> MAX_RECORDS"
    and u: "keys_unique cs p rs" and csv: "csv = write_table_header cs @ lines_text rs"
  shows "\<exists>l. load_table_contents csv None = Some (True, l) \<and> table_ok csv l (rows_map rs) \<and> l_cols l = cs \<and> \<not> cache_truncated l \<and>
    record_count (l_store l) = length rs"
proof -
  let ?l = "empty_table csv cs" and ?o = "length (write_table_header cs)"
  have hd: "fgets_split RECORD_SIZE csv = (write_table_header cs, lines_text rs)" "header_columns (c_string (write_table_header cs)) = cs"
    using header_read [OF h] csv by auto
  obtain n l where l: "load_lines False ?l 1 (int ?o) (lines_text rs) = Some (True, n, l)" "loading_rows False csv cs rs n l"
    using load_lines_file [OF h p rs u csv] by blast
  have "indexes_ok (l\<lparr>next_auto_id := a\<rparr>) m = indexes_ok l m" "cli_schema_ok (l\<lparr>next_auto_id := max (next_auto_id l) n\<rparr>)" for a m
    using l(2) by (auto simp: indexes_ok_def loading_rows_def cli_schema_ok_def)
  then have ok: "table_ok csv (l\<lparr>next_auto_id := max (next_auto_id l) n, snapshot_dirty := b,
      l_store := (l_store l)\<lparr>append_offset := int (length csv)\<rparr>\<rparr>) (rows_map rs)" for b
    using l(2) by (simp add: table_ok_def loading_rows_def store_ok_offset)
  have t: "\<not> cache_truncated l" "l_cols l = cs" "record_count (l_store l) = length rs" using l(2) by (auto simp: loading_rows_def)
  show ?thesis using hd l(1) ok t csv by (simp add: load_table_contents_def Let_def)
qed

end
