(* ===== verification/Legacy_Insert_Props.thy ===== *)
theory Legacy_Insert_Props
  imports Legacy_Insert_Correct
begin

text \<open>The properties of INSERT in the command line engine.\<close>

definition people :: "column list" where
  "people = [\<lparr>col_name = ''id'', col_type = COL_PK\<rparr>, \<lparr>col_name = ''name'', col_type = COL_UK\<rparr>, \<lparr>col_name = ''age'', col_type = COL_NORMAL\<rparr>]"

definition people_csv :: string where
  "people_csv = ''id(PK),name(UK),age'' @ [CHR 0x0A]"

definition no_delta :: delta where
  "no_delta = \<lparr>delta_text = [], delta_batch_open = False, delta_ops_since_compact_check = 0, delta_bytes_since_compact = 0\<rparr>"

text \<open>
  C33. INSERT of the command line engine, on a table in memory with a key column whose indexes and rows agree. If the row cannot be built (too many
  values, a key that is no integer or is taken, an empty value where one is needed, a unique value that is taken, a row
  that is too long) nothing changes. Otherwise, unless no slot is left, the row is added to the file, gets a slot that was
  free, its key is found under that slot, and indexes and rows agree again.
\<close>

theorem cli_insert_correct:
  assumes "table_ok f l m" "\<forall>v\<in>set (parse_csv_row values). value_ok v" "\<not> cache_truncated l" "active_count (l_store l) < int MAX_RECORDS"
  shows "case build_insert_row l (parse_csv_row values) RECORD_SIZE of
      None \<Rightarrow> False
    | Some (Inl e, l') \<Rightarrow> l' = l \<and> insert_row_data l d values = Some (Inl e, l, d)
    | Some (Inr (k, row), l1) \<Rightarrow>
        (\<exists>l'. if take_record_slot (l_store l) True = None
          then insert_row_data l d values = Some (Inl Index_Failed, l', d) \<and> table_ok f l' m
          else insert_row_data l d values = Some (Inr k, l', d) \<and>
            (\<exists>i. m i = None \<and> table_ok (f @ row @ [CHR 0x0A]) l' (m(i \<mapsto> row)) \<and> find_pk_row l' (show_long k) = Found i))"
proof -
  have ok: "indexes_ok l m" "slot_text (l_store l) = m" "cli_schema_ok l" using assms(1) by (auto simp: table_ok_def)
  obtain res where res: "build_insert_row l (parse_csv_row values) RECORD_SIZE = Some (res, l)" "\<forall>k line. res = Inr (k, line) \<longrightarrow> addable l m k line"
    using build_insert_ok [OF ok assms(2)] by blast
  show ?thesis
  proof (cases res)
    case (Inl e)
    then show ?thesis using res(1) by (simp add: insert_row_data_def)
  next
    case (Inr x)
    obtain k row where x: "x = (k, row)" by (cases x)
    have add: "addable l m k row" using res(2) Inr x by simp
    have "insert_row_data l d values = map_option (\<lambda>(r, l'). (r, l', d)) (insert_cached l row k)"
      using res(1) Inr x assms(3,4) by (simp add: insert_row_data_def validate_file_duplicates_for_uncached_insert_def)
    moreover obtain r l' where r: "insert_cached l row k = Some (r, l')"
      "case r of Inl e \<Rightarrow> e = Index_Failed \<and> take_record_slot (l_store l) True = None \<and> table_ok f l' m
       | Inr k' \<Rightarrow> take_record_slot (l_store l) True \<noteq> None \<and> k' = k \<and> l_pk l' = l_pk l \<and> (\<exists>i. m i = None \<and> table_ok (f @ row @ [CHR 0x0A]) l' (m(i \<mapsto> row)))"
      using insert_cached_ok [OF assms(1) add] by blast
    moreover have "find_pk_row l' (show_long k) = Found i" if t: "table_ok (f @ row @ [CHR 0x0A]) l' (m(i \<mapsto> row))" and pk: "l_pk l' = l_pk l" for i
    proof -
      obtain p where p: "l_pk l' = Some p" using t by (auto simp: table_ok_def indexes_ok_def)
      then have key: "row_key p row = Some k" using add pk by (simp add: addable_def)
      then have "LONG_MIN \<le> k \<and> k \<le> LONG_MAX" using parse_long_range by (simp add: row_key_def)
      then show ?thesis using find_pk_row_ok [OF t p, of k i] key by simp
    qed
    ultimately show ?thesis using res(1) Inr x by (cases r) auto
  qed
qed

theorem cli_insert_correct_witness:
  "\<exists>l' i. insert_row_data (empty_table people_csv people) no_delta ''7,kim,20'' = Some (Inr 7, l', no_delta) \<and>
     table_ok (people_csv @ ''7,kim,20'' @ [CHR 0x0A]) l' (Map.empty(i \<mapsto> ''7,kim,20'')) \<and> find_pk_row l' (show_long 7) = Found i"
proof -
  let ?l = "empty_table people_csv people"
  have ok: "table_ok people_csv ?l Map.empty"
  proof (rule empty_table_ok)
    show "boundary people_csv (length people_csv)" by (simp add: boundary_def people_csv_def nth_append)
    show "people \<noteq> []" "length people \<le> MAX_COLS" "key_column people \<noteq> None" by code_simp+
  qed
  have v: "\<forall>v\<in>set (parse_csv_row ''7,kim,20''). value_ok v" by code_simp
  have c: "\<not> cache_truncated ?l" "active_count (l_store ?l) < int MAX_RECORDS" by (simp_all add: empty_table_def ensure_uk_indexes_def reset_store_def MAX_RECORDS_def)
  have "record_cap 1 1024 = 1024" by (subst record_cap.simps) simp
  then have t: "take_record_slot (l_store ?l) True \<noteq> None"
    by (simp add: empty_table_def ensure_uk_indexes_def take_record_slot_def reset_store_def ensure_record_capacity_def INITIAL_RECORD_CAPACITY_def MAX_RECORDS_def Let_def)
  have b: "map_option fst (build_insert_row ?l (parse_csv_row ''7,kim,20'') RECORD_SIZE) = Some (Inr (7, ''7,kim,20''))" by code_simp
  then obtain l1 where "build_insert_row ?l (parse_csv_row ''7,kim,20'') RECORD_SIZE = Some (Inr (7, ''7,kim,20''), l1)" by auto
  then show ?thesis using cli_insert_correct [OF ok v c, of no_delta] t by auto
qed

text \<open>
  An automatic key in the first column shifts the values by one, because such a statement normally leaves the key out. With \<open>NULL\<close>
  for the key the values are shifted as well: \<open>NULL\<close> becomes the name and the last value is lost.
\<close>

theorem null_key_shifts_values:
  "map_option fst (build_insert_row (empty_table people_csv people) (parse_csv_row ''kim,20'') RECORD_SIZE) = Some (Inr (1, ''1,kim,20'')) \<and>
   map_option fst (build_insert_row (empty_table people_csv people) (parse_csv_row ''NULL,kim,20'') RECORD_SIZE) = Some (Inr (1, ''1,NULL,kim''))"
  by code_simp

end
