(* ===== verification/Legacy_Load_Props.thy ===== *)
theory Legacy_Load_Props
  imports Legacy_Load_Correct Legacy_Insert_Props
begin

text \<open>Properties of loading and compaction in the command line engine.\<close>

subsection \<open>Compaction writes the rows in the order of their slots\<close>

definition live_rows :: "(int \<Rightarrow> string option) \<Rightarrow> nat list \<Rightarrow> string list" where
  "live_rows m is = List.map_filter (\<lambda>i. m (int i)) is"

lemma live_rows_simps [simp]: "live_rows m [] = []"
  "live_rows m (i # is) = (case m (int i) of None \<Rightarrow> live_rows m is | Some r \<Rightarrow> r # live_rows m is)"
  by (auto simp: live_rows_def map_filter_def split: option.split)

lemma set_live_rows: "set (live_rows m is) = {r. \<exists>i\<in>set is. m (int i) = Some r}"
  by (induction "is") (auto split: option.split)

lemma active_held: "store_ok f tc \<Longrightarrow> slot_is_active tc i \<longleftrightarrow> slot_text tc i \<noteq> None"
proof -
  assume ok: "store_ok f tc"
  have "held (tc_file tc) (slots tc ! nat i) \<noteq> None" if a: "slot_is_active tc i"
  proof -
    have "slot_ok f (slots tc ! nat i)" "tc_file tc = Some f" "record_active (slots tc ! nat i)"
      using slot_okD [OF ok] active_bound [OF ok a] ok a by (auto simp: store_ok_def slot_is_active_def)
    then show ?thesis by (cases "ref_store (slots tc ! nat i)") (auto simp: held_def slot_ok_def split: option.splits)
  qed
  then show ?thesis by (auto simp: slot_text_def)
qed

lemma written_rows_ok:
  "store_ok f tc \<Longrightarrow> \<exists>tc'. written_rows tc is = (Some (lines_text (live_rows (slot_text tc) is)), tc') \<and> store_ok f tc' \<and> slot_text tc' = slot_text tc"
proof (induction "is" arbitrary: tc)
  case Nil
  then show ?case by (simp add: lines_text_def)
next
  case (Cons i "is")
  show ?case
  proof (cases "slot_text tc (int i)")
    case None
    then show ?thesis using Cons active_held [OF Cons.prems] by simp
  next
    case (Some row)
    obtain r tc1 where s: "slot_row tc (int i) = (r, tc1)" by (cases "slot_row tc (int i)")
    have "r = Some row" "store_ok f tc1" "slot_text tc1 = slot_text tc" using slot_row_ok [OF Cons.prems s] Some by auto
    then show ?thesis using Cons.IH [of tc1] s Some active_held [OF Cons.prems, of "int i"] by (auto simp: lines_text_def)
  qed
qed

subsection \<open>The keys of the rows\<close>

lemma live_rows_distinct:
  assumes "\<And>i j r s. m i = Some r \<Longrightarrow> m j = Some s \<Longrightarrow> g r = g s \<Longrightarrow> P (g r) \<Longrightarrow> i = j" "distinct is"
  shows "distinct (filter P (map g (live_rows m is)))"
  using assms(2)
proof (induction "is")
  case (Cons i "is")
  show ?case
  proof (cases "m (int i)")
    case (Some r)
    have "g r \<notin> g ` set (live_rows m is)" if "P (g r)"
      using assms(1) [OF Some _ _ that] Cons.prems by (fastforce simp: set_live_rows)
    then show ?thesis using Cons Some by auto
  qed (use Cons in simp)
qed simp

lemma tree_for_unique: "tree_for t E \<Longrightarrow> (k, i) \<in> E \<Longrightarrow> (k, j) \<in> E \<Longrightarrow> i = j"
proof -
  assume t: "tree_for t E" "(k, i) \<in> E" "(k, j) \<in> E"
  then have "distinct (map fst (pairs (root t)))" using tree_inv_sorted [of t] by (auto simp: tree_for_def strict_sorted_iff)
  then show ?thesis using t by (auto simp: tree_for_def dest: eq_key_imp_eq_value)
qed

lemma live_rows_unique:
  assumes ok: "indexes_ok l m" and s: "cli_schema_ok l" "l_pk l = Some p" "distinct is"
  shows "keys_unique (l_cols l) p (live_rows m is)"
proof -
  have t: "tree_for (id_index l) (pk_entries p m)" "\<forall>row\<in>ran m. row_key p row \<noteq> None" using ok s(2) by (auto simp: indexes_ok_def)
  have "i = j" if "m i = Some r" "m j = Some q" "row_key p r = row_key p q" for i j r q
  proof -
    have "row_key p r \<noteq> None" using t(2) ranI [of m i r] that(1) by blast
    then obtain k where "row_key p r = Some k" by blast
    then show ?thesis using tree_for_unique [OF t(1), of k i j] that by (simp add: pk_entries_def)
  qed
  then have "distinct (filter (\<lambda>_. True) (map (row_key p) (live_rows m is)))" using s(3) by (intro live_rows_distinct)
  moreover have "distinct (filter (\<lambda>k. k \<noteq> []) (map (\<lambda>r. row_uk r c) (live_rows m is)))" if c: "c \<in> set (l_uks l)" for c
  proof -
    obtain u where "u < length (l_uks l)" "l_uks l ! u = c" using c by (auto simp: in_set_conv_nth)
    then obtain t where t: "tree_for t (uk_entries c m)" using ok by (auto simp: indexes_ok_def uk_for_def)
    show ?thesis using s(3) tree_for_unique [OF t] by (intro live_rows_distinct) (auto simp: uk_entries_def)
  qed
  ultimately show ?thesis using s(1) by (simp add: keys_unique_def cli_schema_ok_def)
qed

subsection \<open>Restart\<close>

definition table_rows :: "ltable \<Rightarrow> string list" where
  "table_rows l = live_rows (slot_text (l_store l)) [0..<record_count (l_store l)]"

lemma set_table_rows: "set (table_rows l) = ran (slot_text (l_store l))"
proof -
  have "\<exists>j<record_count (l_store l). slot_text (l_store l) (int j) = Some r" if "slot_text (l_store l) i = Some r" for i r
    using slot_text_active [OF that] that by (intro exI [of _ "nat i"]) (auto simp: slot_is_active_def)
  then show ?thesis by (fastforce simp: table_rows_def set_live_rows ran_def)
qed

lemma table_rows_loaded: "slot_text (l_store l) = rows_map rs \<Longrightarrow> record_count (l_store l) = length rs \<Longrightarrow> table_rows l = rs"
proof -
  have "live_rows (rows_map rs) [0..<n] = take n rs" if "n \<le> length rs" for n
    using that by (induction n) (simp_all add: live_rows_def map_filter_def rows_map_def take_Suc_conv_app_nth)
  then show "slot_text (l_store l) = rows_map rs \<Longrightarrow> record_count (l_store l) = length rs \<Longrightarrow> table_rows l = rs" by (simp add: table_rows_def)
qed

text \<open>
  C36. Shutdown and restart of the command line engine. Compaction of a table whose indexes and rows agree writes its header and its
  rows to a new CSV file and empties the delta log. Loading that file, with no index snapshot, succeeds and gives the
  columns and exactly the rows of the table back, in the order of the old slots, with indexes that agree with them. The rows are not empty and leave
  room for the line end in the buffer of the loader.
\<close>

theorem compact_then_load:
  assumes "table_ok f l m" "header_ok (l_cols l)" "list_all row_ok (table_rows l)" "record_count (l_store l) \<le> MAX_RECORDS"
  shows "\<exists>csv l1 d1 l2. compact_table_file_for_shutdown l d = (Some csv, l1, d1) \<and> delta_text d1 = [] \<and>
    load_table_contents csv None = Some (True, l2) \<and> table_ok csv l2 (rows_map (table_rows l)) \<and>
    l_cols l2 = l_cols l \<and> table_rows l2 = table_rows l \<and> set (table_rows l) = ran m"
proof -
  let ?rs = "table_rows l" and ?h = "write_table_header (l_cols l)"
  have ok: "store_ok f (l_store l)" "slot_text (l_store l) = m" "indexes_ok l m" "cli_schema_ok l" using assms(1) by (auto simp: table_ok_def)
  obtain p where p: "l_pk l = Some p" "\<forall>row\<in>ran m. row_key p row \<noteq> None" using ok(3) by (auto simp: indexes_ok_def)
  obtain st where st: "written_rows (l_store l) [0..<record_count (l_store l)] = (Some (lines_text ?rs), st)"
    using written_rows_ok [OF ok(1)] by (auto simp: table_rows_def)
  have fl: "tc_file (l_store l) = Some f" using ok(1) by (simp add: store_ok_def)
  have "length (live_rows m is) \<le> length is" for "is" by (induction "is") (auto split: option.split)
  then have len: "length ?rs \<le> MAX_RECORDS" using assms(4) ok(2) order_trans [of "length (live_rows m is)" "length is" MAX_RECORDS for "is"] by (simp add: table_rows_def)
  have uniq: "keys_unique (l_cols l) p ?rs" using live_rows_unique [OF ok(3,4) p(1)] ok(2) by (simp add: table_rows_def)
  have rs: "\<forall>r\<in>set ?rs. row_ok r \<and> row_key p r \<noteq> None" using assms(3) p(2) set_table_rows [of l] ok(2) by (auto simp: list_all_iff)
  have "key_column (l_cols l) = Some p" using ok(4) p(1) by (simp add: cli_schema_ok_def)
  then obtain l2 where "load_table_contents (?h @ lines_text ?rs) None = Some (True, l2)" "table_ok (?h @ lines_text ?rs) l2 (rows_map ?rs)" "l_cols l2 = l_cols l"
    "record_count (l_store l2) = length ?rs"
    using load_table_rows [OF assms(2) _ rs len uniq refl] by blast
  moreover from this have "table_rows l2 = ?rs" by (simp add: table_rows_loaded table_ok_def)
  ultimately show ?thesis using st fl set_table_rows [of l] ok(2) by (simp add: compact_table_file_for_shutdown_def clear_delta_log_def)
qed

definition kims :: "string list" where
  "kims = [''7,kim,20'', ''9,lee,31'']"

definition kims_table :: ltable where
  "kims_table = snd (the (load_table_contents (write_table_header people @ lines_text kims) None))"

lemma kims_loaded:
  "load_table_contents (write_table_header people @ lines_text kims) None = Some (True, kims_table) \<and>
   table_ok (write_table_header people @ lines_text kims) kims_table (rows_map kims) \<and> l_cols kims_table = people \<and> table_rows kims_table = kims \<and>
   record_count (l_store kims_table) = 2 \<and> \<not> cache_truncated kims_table"
proof -
  have h: "header_ok people" "key_column people = Some 0" by code_simp+
  have r: "\<forall>r\<in>set kims. row_ok r \<and> row_key 0 r \<noteq> None" "keys_unique people 0 kims" by code_simp+
  have n: "length kims \<le> MAX_RECORDS" by (simp add: kims_def MAX_RECORDS_def)
  obtain l where l: "load_table_contents (write_table_header people @ lines_text kims) None = Some (True, l)"
    "table_ok (write_table_header people @ lines_text kims) l (rows_map kims)" "l_cols l = people" "record_count (l_store l) = length kims" "\<not> cache_truncated l"
    using load_table_rows [OF h r(1) n r(2) refl] by auto
  then have "kims_table = l" by (simp add: kims_table_def)
  then show ?thesis using l table_rows_loaded [of l kims] by (simp add: table_ok_def kims_def)
qed

theorem compact_then_load_witness:
  "\<exists>csv l1 d1 l2. compact_table_file_for_shutdown kims_table no_delta = (Some csv, l1, d1) \<and>
     load_table_contents csv None = Some (True, l2) \<and> l_cols l2 = people \<and> table_rows l2 = kims"
proof -
  have "header_ok people" "list_all row_ok kims" by code_simp+
  moreover have "2 \<le> MAX_RECORDS" by (simp add: MAX_RECORDS_def)
  ultimately show ?thesis using compact_then_load [of "write_table_header people @ lines_text kims" kims_table "rows_map kims" no_delta] kims_loaded by auto
qed

end
