(* ===== verification/Legacy_Recover_Props.thy ===== *)
theory Legacy_Recover_Props
  imports Legacy_Load_Props
begin

text \<open>Recovery of a table of the command line engine from a delta log, when there is no index snapshot.\<close>

lemma find_by_scan_finds:
  assumes "store_ok f (l_store l)" "l_pk l = Some p" "slot_text (l_store l) (int i) = Some r" "row_key p r = Some k" "i \<in> set is"
  shows "\<exists>j st r'. find_by_scan l k is = (int j, l\<lparr>l_store := st\<rparr>) \<and> store_ok f st \<and> slot_text st (int j) = Some r' \<and> row_key p r' = Some k"
  using assms
proof (induction "is" arbitrary: l)
  case (Cons a "is")
  obtain q st where s: "slot_row (l_store l) (int a) = (q, st)" by (cases "slot_row (l_store l) (int a)")
  have ok: "q = slot_text (l_store l) (int a)" "store_ok f st" "slot_text st = slot_text (l_store l)"
    using slot_row_ok [OF Cons.prems(1) s] by auto
  have key: "get_row_index_key l' r' j = row_key p r'" if "l_pk l' = Some p" for l' r' j using that by (simp add: get_row_index_key_def get_row_pk_value_def row_key_def)
  let ?l = "l\<lparr>l_store := st\<rparr>"
  have IH: "\<exists>j st' r'. find_by_scan ?l k is = (int j, ?l\<lparr>l_store := st'\<rparr>) \<and> store_ok f st' \<and> slot_text st' (int j) = Some r' \<and> row_key p r' = Some k"
    if "i \<in> set is" using Cons.IH [of ?l] Cons.prems ok that by simp
  show ?case
  proof (cases "\<exists>r'. q = Some r' \<and> row_key p r' = Some k")
    case True
    then obtain r' where "q = Some r'" "row_key p r' = Some k" by blast
    then show ?thesis using s ok key [of ?l] Cons.prems(2) by (intro exI [of _ a] exI [of _ st] exI [of _ r']) simp
  next
    case False
    then have "i \<in> set is" using Cons.prems(3-5) ok(1) by auto
    moreover have "find_by_scan l k (a # is) = find_by_scan ?l k is"
      using False s key [of ?l] Cons.prems(2) by (cases q) auto
    ultimately show ?thesis using IH by simp
  qed
qed simp

lemma op_fails:
  assumes ok: "store_ok f (l_store l)" "l_pk l = Some p" "id_index l = bptree_create"
    and r: "slot_text (l_store l) (int i) = Some r" "row_key p r = Some k" and op: "op = Delta_U k row \<or> op = Delta_D k"
  shows "\<exists>l'. apply_delta_op l op = Some (False, l')"
proof -
  have inv: "tree_inv bptree_create" by (rule pk.inv_empty)
  have abs: "bptree_search bptree_create k = Absent" using pk.search_Absent_iff [OF inv, of k] pk.entries_empty by auto
  have "i \<in> set [0..<record_count (l_store l)]" using slot_text_active [OF r(1)] by (simp add: slot_is_active_def)
  then obtain j st r' where j: "find_by_scan l k [0..<record_count (l_store l)] = (int j, l\<lparr>l_store := st\<rparr>)"
    "store_ok f st" "slot_text st (int j) = Some r'" "row_key p r' = Some k"
    using find_by_scan_finds [OF ok(1,2) r] by blast
  then have find: "find_record_index_by_key l k = Some (int j, l\<lparr>l_store := st\<rparr>)" using abs ok(3) by (simp add: find_record_index_by_key_def)
  obtain q st1 where s: "slot_row st (int j) = (q, st1)" by (cases "slot_row st (int j)")
  have q: "q = Some r'" using slot_row_ok [OF j(2) s] j(3) by simp
  have "tree_for bptree_create {}" using inv pk.entries_empty by (simp add: tree_for_def)
  then obtain t where "bptree_delete bptree_create k = Some (False, t)" using pk_remove [of bptree_create "{}" k] by auto
  then have "remove_record_indexes (l\<lparr>l_store := st1\<rparr>) r' j = Some (False, l\<lparr>l_store := st1, id_index := t\<rparr>)"
    using ok(2,3) j(4) by (simp add: remove_record_indexes_def drop_key_def row_key_def)
  then show ?thesis using op find s q by (auto simp: apply_delta_op_def Let_def)
qed

text \<open>
  C37. Recovery of the command line engine. The rows of a file with a delta log are not put into the key index while they are read,
  and the log is applied before the index is built. Applying an update or a deletion first removes the old row from the
  index, which fails. So a table whose log has a complete batch that starts with a row of the file is refused
  when it is loaded without an index snapshot, and the whole table, not only the batch, cannot be used any more.
\<close>

theorem recovery_refuses_table:
  assumes "header_ok cs" "key_column cs = Some p" "\<forall>r\<in>set rs. row_ok r \<and> row_key p r \<noteq> None" "length rs \<le> MAX_RECORDS"
    and "r \<in> set rs" "row_key p r = Some k" "op = Delta_U k row \<or> op = Delta_D k" "\<forall>x\<in>set (op # ops). op_ok x"
  shows "\<exists>l. load_table_contents (write_table_header cs @ lines_text rs) (Some (batch_text (op # ops))) = Some (False, l)"
proof -
  let ?csv = "write_table_header cs @ lines_text rs" and ?log = "batch_text (op # ops)"
  obtain n l where l: "load_lines True (empty_table ?csv cs) 1 (int (length (write_table_header cs))) (lines_text rs) = Some (True, n, l)"
    "loading_rows True ?csv cs rs n l"
    using load_lines_file [OF assms(1-4) _ refl, of True] by auto
  obtain i where i: "rows_map rs i = Some r" using assms(5) rows_map_ex [of rs r] by blast
  moreover from i have "i = int (nat i)" by (simp add: rows_map_def split: if_splits)
  ultimately obtain j where j: "rows_map rs (int j) = Some r" by metis
  have "\<exists>l'. apply_delta_op l op = Some (False, l')"
    by (rule op_fails [where i = j, OF _ _ _ _ assms(6,7)]) (use l(2) j assms(2) in \<open>auto simp: loading_rows_def cli_schema_ok_def\<close>)
  then obtain l' where l': "apply_delta_ops l (op # ops) = Some (False, l')" by auto
  have "replay_delta_log ?log False [] = (True, [op # ops])" using replay_batch [OF assms(8), of "[]"] by (simp add: replay_nil)
  then have "replay_into l ?log = Some (False, l')" using l' by (simp add: replay_into_def)
  moreover have "active_count (l_store l) \<noteq> 0" using l(2) assms(5) by (auto simp: loading_rows_def)
  ultimately show ?thesis using l(1) header_read [OF assms(1)] by (simp add: load_table_contents_def Let_def)
qed

theorem recovery_refuses_table_witness:
  "\<exists>l. load_table_contents (write_table_header people @ lines_text kims) (Some (batch_text [Delta_U 7 ''7,kim,21''])) = Some (False, l)"
proof -
  have h: "header_ok people" "key_column people = Some 0" "\<forall>r\<in>set kims. row_ok r \<and> row_key 0 r \<noteq> None" by code_simp+
  have n: "length kims \<le> MAX_RECORDS" "''7,kim,20'' \<in> set kims" by (simp_all add: kims_def MAX_RECORDS_def)
  have k: "row_key 0 ''7,kim,20'' = Some 7" by code_simp
  have o: "\<forall>x\<in>set [Delta_U 7 ''7,kim,21'']. op_ok x" by code_simp
  show ?thesis by (rule recovery_refuses_table [OF h n k _ o]) simp
qed

end
