(* ===== verification/Legacy_Select.thy ===== *)
theory Legacy_Select
  imports Legacy_Insert
begin

text \<open>
  SELECT of the command line engine, \<open>src/legacy/executor.c\<close>: the choice of an index, the lookups and range scans of the indexes,
  the scan of the slots, and the scans of the part of the file that is not in memory.

  \<^item> The statements of this engine work on the table that \<open>get_table\<close> returns.
  \<^item> \<open>show\<close> is \<open>emit_results\<close>. Of the output only the rows are kept, not the lines that tell which index is used.
  \<^item> The loops over the lines of the file differ in what they do with a line; they are the loop of \<open>for_each_file_row_from\<close>.
\<close>

subsection \<open>The choice of an index\<close>

definition condition_score :: "ltable \<Rightarrow> bool \<Rightarrow> where_condition \<Rightarrow> nat \<Rightarrow> int" where
  "condition_score l allow_range c col =
     (if cond_type c = WHERE_EQ \<and> l_pk l = Some col then 100
      else if cond_type c = WHERE_EQ \<and> get_uk_slot l col \<noteq> None then 90
      else if allow_range \<and> cond_type c = WHERE_BETWEEN \<and> l_pk l = Some col then 80
      else if allow_range \<and> cond_type c = WHERE_BETWEEN \<and> get_uk_slot l col \<noteq> None then 70
      else 0)"

text \<open>The loop from condition \<open>i\<close>: the best condition so far with its column, and its score.\<close>

fun choose_from :: "ltable \<Rightarrow> bool \<Rightarrow> nat \<Rightarrow> int \<Rightarrow> (nat \<times> nat) option \<Rightarrow> where_condition list \<Rightarrow> (nat \<times> nat) option" where
  "choose_from l allow_range i best_score best [] = best"
| "choose_from l allow_range i best_score best (c # cs) =
     (case condition_column_index l c of
        None \<Rightarrow> choose_from l allow_range (Suc i) best_score best cs
      | Some col \<Rightarrow>
        let score = condition_score l allow_range c col in
        if score > best_score then choose_from l allow_range (Suc i) score (Some (i, col)) cs
        else choose_from l allow_range (Suc i) best_score best cs)"

definition choose_index_condition :: "ltable \<Rightarrow> statement \<Rightarrow> bool \<Rightarrow> (nat \<times> nat) option" where
  "choose_index_condition l st allow_range = choose_from l allow_range 0 0 None (where_conditions st)"

subsection \<open>Rows\<close>

text \<open>A row of a slot is emitted if it matches.\<close>

definition emit_slot :: "statement \<Rightarrow> int \<Rightarrow> ltable \<times> exec_context \<Rightarrow> ltable \<times> exec_context" where
  "emit_slot st r = (\<lambda>(l, ctx).
     case slot_row (l_store l) r of
       (row, tc) \<Rightarrow>
         let l1 = l\<lparr>l_store := tc\<rparr> in
         (l1, case row of None \<Rightarrow> ctx | Some t \<Rightarrow> if row_matches_statement l1 st t then emit_selected_row t ctx else ctx))"

definition print_range_row_visitor :: "statement \<Rightarrow> int \<Rightarrow> int \<Rightarrow> ltable \<times> exec_context \<Rightarrow> bool \<times> ltable \<times> exec_context" where
  "print_range_row_visitor st key r s = (True, if slot_is_active (l_store (fst s)) r then emit_slot st r s else s)"

definition print_string_range_row_visitor :: "statement \<Rightarrow> string \<Rightarrow> int \<Rightarrow> ltable \<times> exec_context \<Rightarrow> bool \<times> ltable \<times> exec_context" where
  "print_string_range_row_visitor st key r s = (True, if slot_is_active (l_store (fst s)) r then emit_slot st r s else s)"

definition execute_select_file_scan :: "ltable \<Rightarrow> int \<Rightarrow> statement \<Rightarrow> exec_context \<Rightarrow> exec_context" where
  "execute_select_file_scan l start st ctx =
     snd (for_each_file_row_from (l_store l) start
       (\<lambda>line ctx. (True, if row_matches_statement l st line then emit_selected_row line ctx else ctx)) ctx)"

text \<open>The row at an offset of the file, if it has the key and matches.\<close>

definition print_tail_pk_offset_row :: "ltable \<Rightarrow> int \<Rightarrow> int \<Rightarrow> statement \<Rightarrow> exec_context \<Rightarrow> exec_context option" where
  "print_tail_pk_offset_row l offset key st ctx =
     (case tc_file (l_store l) of
        None \<Rightarrow> None
      | Some f \<Rightarrow>
        if offset < 0 \<or> drop (nat offset) f = [] then None
        else let line0 = c_string (fst (fgets_split RECORD_SIZE (drop (nat offset) f))); line = takeWhile (\<lambda>c. \<not> row_end c) line0 in
          if list_all (\<lambda>c. \<not> row_end c) line0 \<and> length line0 = RECORD_SIZE - 1 then None
          else if get_row_pk_value l line \<noteq> Some key \<or> \<not> row_matches_statement l st line then None
          else Some (emit_selected_row line ctx))"

definition execute_select_file_range_scan :: "ltable \<Rightarrow> int \<Rightarrow> statement \<Rightarrow> nat \<Rightarrow> int \<Rightarrow> int \<Rightarrow> exec_context \<Rightarrow> exec_context" where
  "execute_select_file_range_scan l start st where_idx start_key end_key ctx =
     (if start_key > end_key then ctx
      else snd (for_each_file_row_from (l_store l) start
        (\<lambda>line ctx. let fs = parse_csv_row line in
           (True, case parse_long_value (field_at fs where_idx) of
               None \<Rightarrow> ctx
             | Some k \<Rightarrow> if k \<ge> start_key \<and> k \<le> end_key \<and> row_fields_match_statement l st fs then emit_selected_row line ctx else ctx)) ctx))"

definition execute_select_file_string_range_scan :: "ltable \<Rightarrow> int \<Rightarrow> statement \<Rightarrow> nat \<Rightarrow> string \<Rightarrow> string \<Rightarrow> exec_context \<Rightarrow> exec_context" where
  "execute_select_file_string_range_scan l start st where_idx start_key end_key ctx =
     (if strcmp start_key end_key > 0 then ctx
      else snd (for_each_file_row_from (l_store l) start
        (\<lambda>line ctx. let fs = parse_csv_row line; key = normalize_value RECORD_SIZE (field_at fs where_idx) in
           (True, if strcmp key start_key \<ge> 0 \<and> strcmp key end_key \<le> 0 \<and> row_fields_match_statement l st fs
              then emit_selected_row line ctx else ctx)) ctx))"

subsection \<open>The statement\<close>

datatype select_error = Unknown_Where_Column | Unknown_Column | Bounds_Not_Integer | Key_Not_Integer | Range_Failed | No_Range_Index

text \<open>The result is \<open>*matched_rows\<close> and the context, or the error; \<^const>\<open>None\<close> is a freed tree or a wild search.\<close>

type_synonym select_result = "((select_error + int \<times> exec_context) \<times> ltable) option"

definition done_select :: "ltable \<Rightarrow> exec_context \<Rightarrow> select_result" where
  "done_select l ctx = Some (Inr (matched_rows ctx, ctx), l)"

fun select_indices :: "ltable \<Rightarrow> string list \<Rightarrow> nat list option" where
  "select_indices l [] = Some []"
| "select_indices l (n # ns) =
     (case get_col_idx l n of None \<Rightarrow> None | Some i \<Rightarrow> map_option (\<lambda>is. i # is) (select_indices l ns))"

text \<open>BETWEEN on the key or a unique column.\<close>

definition select_range :: "ltable \<Rightarrow> statement \<Rightarrow> nat \<Rightarrow> where_condition \<Rightarrow> exec_context \<Rightarrow> select_result" where
  "select_range l st col c ctx =
     (if l_pk l = Some col then
        (case (parse_long_value (Some (cond_val c)), parse_long_value (Some (cond_end_val c))) of
           (Some a, Some b) \<Rightarrow>
             (case bptree_range_search (id_index l) a b (print_range_row_visitor st) (l, ctx) of
                None \<Rightarrow> None
              | Some (False, l1, ctx1) \<Rightarrow> Some (Inl Range_Failed, l1)
              | Some (True, l1, ctx1) \<Rightarrow>
                done_select l1 (if cache_truncated l1 then execute_select_file_range_scan l1 (uncached_start_offset l1) st col a b ctx1 else ctx1))
         | _ \<Rightarrow> Some (Inl Bounds_Not_Integer, l))
      else case get_uk_slot l col of
          None \<Rightarrow> Some (Inl No_Range_Index, l)
        | Some u \<Rightarrow>
          let l0 = ensure_uk_indexes l; a = normalize_value RECORD_SIZE (Some (cond_val c)); b = normalize_value RECORD_SIZE (Some (cond_end_val c)) in
          case uk_indexes l0 ! u of
            Index t \<Rightarrow>
              (case bptree_string_range_search t a b (print_string_range_row_visitor st) (l0, ctx) of
                 None \<Rightarrow> None
               | Some (False, l1, ctx1) \<Rightarrow> Some (Inl Range_Failed, l1)
               | Some (True, l1, ctx1) \<Rightarrow>
                 done_select l1 (if cache_truncated l1 then execute_select_file_string_range_scan l1 (uncached_start_offset l1) st col a b ctx1 else ctx1))
          | _ \<Rightarrow> None)"

text \<open>A row that an index found. A count of one equality does not look at the row.\<close>

definition select_found :: "ltable \<Rightarrow> statement \<Rightarrow> int \<Rightarrow> exec_context \<Rightarrow> select_result" where
  "select_found l st r ctx =
     (if \<not> emit_results ctx \<and> length (where_conditions st) = 1 then Some (Inr (1, ctx), l)
      else case emit_slot st r (l, ctx) of (l1, ctx1) \<Rightarrow> done_select l1 ctx1)"

definition select_tail :: "ltable \<Rightarrow> statement \<Rightarrow> exec_context \<Rightarrow> select_result" where
  "select_tail l st ctx = done_select l (if cache_truncated l then execute_select_file_scan l (uncached_start_offset l) st ctx else ctx)"

definition select_key :: "ltable \<Rightarrow> statement \<Rightarrow> where_condition \<Rightarrow> exec_context \<Rightarrow> select_result" where
  "select_key l st c ctx =
     (case parse_long_value (Some (cond_val c)) of
        None \<Rightarrow> Some (Inl Key_Not_Integer, l)
      | Some key \<Rightarrow>
        (case bptree_search (id_index l) key of
           Wild \<Rightarrow> None
         | Found r \<Rightarrow> select_found l st r ctx
         | Absent \<Rightarrow>
           if \<not> cache_truncated l then done_select l ctx
           else case find_tail_pk_offset (l_store l) key of
               None \<Rightarrow> select_tail l st ctx
             | Some off \<Rightarrow>
               if \<not> emit_results ctx \<and> length (where_conditions st) = 1 then Some (Inr (1, ctx), l)
               else case print_tail_pk_offset_row l off key st ctx of
                   Some ctx1 \<Rightarrow> done_select l ctx1
                 | None \<Rightarrow> select_tail l st ctx))"

definition select_unique :: "ltable \<Rightarrow> statement \<Rightarrow> nat \<Rightarrow> where_condition \<Rightarrow> exec_context \<Rightarrow> select_result" where
  "select_unique l st col c ctx =
     (case find_uk_row l col (cond_val c) of
        (Wild, l1) \<Rightarrow> None
      | (Found r, l1) \<Rightarrow> select_found l1 st r ctx
      | (Absent, l1) \<Rightarrow> select_tail l1 st ctx)"

definition scan_slot :: "statement \<Rightarrow> nat \<Rightarrow> ltable \<times> exec_context \<Rightarrow> ltable \<times> exec_context" where
  "scan_slot st i = (\<lambda>(l, ctx).
     case slot_row_scan (l_store l) (int i) of
       (row, owned, tc) \<Rightarrow>
         let l1 = l\<lparr>l_store := tc\<rparr> in
         (l1, case row of None \<Rightarrow> ctx | Some t \<Rightarrow> if row_fields_match_statement l1 st (parse_csv_row t) then emit_selected_row t ctx else ctx))"

definition select_scan :: "ltable \<Rightarrow> statement \<Rightarrow> exec_context \<Rightarrow> select_result" where
  "select_scan l st ctx = (case fold (scan_slot st) [0..<record_count (l_store l)] (l, ctx) of (l1, ctx1) \<Rightarrow> select_tail l1 st ctx1)"

definition execute_select_internal :: "ltable \<Rightarrow> statement \<Rightarrow> bool \<Rightarrow> select_result" where
  "execute_select_internal l st show =
     (if \<not> validate_where_columns l st then Some (Inl Unknown_Where_Column, l)
      else case (if select_all st then Some [] else select_indices l (select_cols st)) of
          None \<Rightarrow> Some (Inl Unknown_Column, l)
        | Some idx \<Rightarrow>
          let ctx = \<lparr>select_idx = idx, exec_select_all = select_all st, emit_results = show, matched_rows = 0, printed = []\<rparr> in
          case choose_index_condition l st True of
            None \<Rightarrow> select_scan l st ctx
          | Some (i, col) \<Rightarrow>
            let c = where_conditions st ! i in
            if cond_type c = WHERE_BETWEEN then select_range l st col c ctx
            else if cond_type c = WHERE_EQ \<and> l_pk l = Some col then select_key l st c ctx
            else if cond_type c = WHERE_EQ \<and> get_uk_slot l col \<noteq> None then select_unique l st col c ctx
            else select_scan l st ctx)"

end
