(* ===== verification/Legacy_Update.thy ===== *)
theory Legacy_Update
  imports Legacy_Select
begin

text \<open>
  UPDATE of the command line engine, \<open>src/legacy/executor.c\<close>: of one row that an index finds, of the rows that a scan finds, and of
  a table that is only partly in memory, whose file is rewritten.

  \<^item> The key index of a table is always there, so \<open>can_use_delta_log\<close> holds and changes go to the delta log.
  \<^item> A table that is only partly in memory has no index snapshot: \<open>free_table_storage\<close> removes it before the table is loaded again.
    The number of rows that rewriting its file changes is only printed; the result of the statement is then 0.
\<close>

datatype write_error = Where_Unknown | Where_Required | Set_Unknown | Pk_Fixed | Nn_Violated | Rewrite_Failed | Uk_Missing | Uk_Violated
  | Uk_Shared | New_Row_Too_Long | Uk_Update_Failed | Delta_Failed | Row_Not_Loaded | Index_Removal_Failed

subsection \<open>Tables that are partly in memory\<close>

text \<open>The lines of a file from some position on, without those that are empty. A line that is too long is several.\<close>

function file_lines :: "string \<Rightarrow> string list" where
  "file_lines s =
     (if s = [] then []
      else let (raw, rest) = fgets_split RECORD_SIZE s; line = takeWhile (\<lambda>c. \<not> row_end c) (c_string raw)
        in if line = [] then file_lines rest else line # file_lines rest)"
  by pat_completeness auto
termination
proof (relation "measure length", goal_cases)
  case (2 s x raw rest)
  then show ?case using fgets_split_less [of s RECORD_SIZE raw rest] by (simp add: RECORD_SIZE_def)
next
  case (3 s x raw rest)
  then show ?case using fgets_split_less [of s RECORD_SIZE raw rest] by (simp add: RECORD_SIZE_def)
qed simp

declare file_lines.simps [simp del]

text \<open>The loop that writes the fields \<open>js\<close> of a row with one of them changed.\<close>

fun set_fields :: "ltable \<Rightarrow> string list \<Rightarrow> nat \<Rightarrow> string \<Rightarrow> nat list \<Rightarrow> string \<Rightarrow> string option" where
  "set_fields l fs set_idx v [] row = Some row"
| "set_fields l fs set_idx v (j # js) row =
     (case append_csv_field row RECORD_SIZE (if j = set_idx then v else case field_at fs j of None \<Rightarrow> [] | Some f \<Rightarrow> f) (j = length (l_cols l) - 1) of
        None \<Rightarrow> None
      | Some row1 \<Rightarrow> set_fields l fs set_idx v js row1)"

definition set_row :: "ltable \<Rightarrow> nat \<Rightarrow> string \<Rightarrow> string \<Rightarrow> string option" where
  "set_row l set_idx v row = set_fields l (parse_csv_row row) set_idx v [0..<length (l_cols l)] []"

fun set_lines :: "ltable \<Rightarrow> statement \<Rightarrow> nat \<Rightarrow> string \<Rightarrow> string list \<Rightarrow> string option" where
  "set_lines l st set_idx v [] = Some []"
| "set_lines l st set_idx v (row # lns) =
     (case (if row_matches_statement l st row then set_row l set_idx v row else Some row) of
        None \<Rightarrow> None
      | Some row1 \<Rightarrow> map_option (\<lambda>t. row1 @ [LF] @ t) (set_lines l st set_idx v lns))"

text \<open>A delta log of a table without rows is removed when the table is loaded.\<close>

definition log_is_stale :: "string \<Rightarrow> bool" where
  "log_is_stale csv =
     (case fgets_split RECORD_SIZE csv of
        (header, rest) \<Rightarrow>
          (case load_lines True (empty_table csv (header_columns (c_string header))) 1 (int (length csv) - int (length rest)) rest of
             Some (True, n, l) \<Rightarrow> active_count (l_store l) = 0 \<and> tail_index (l_store l) = []
           | _ \<Rightarrow> False))"

definition reload_table_cache :: "string \<Rightarrow> delta \<Rightarrow> (bool \<times> ltable \<times> delta) option" where
  "reload_table_cache csv d =
     (let d1 = (close_delta_batch d)\<lparr>delta_ops_since_compact_check := 0, delta_bytes_since_compact := 0\<rparr> in
      map_option (\<lambda>(ok, l). (ok, l, if delta_log_exists d1 \<and> log_is_stale csv then clear_delta_log d1 else d1))
        (load_table_contents csv (if delta_log_exists d1 then Some (delta_text d1) else None)))"

definition rewrite_truncated_update :: "ltable \<Rightarrow> delta \<Rightarrow> statement \<Rightarrow> nat \<Rightarrow> string \<Rightarrow> (bool \<times> ltable \<times> delta) option" where
  "rewrite_truncated_update l d st set_idx v =
     (case tc_file (l_store l) of
        None \<Rightarrow> Some (False, l, d)
      | Some f \<Rightarrow>
        if f = [] then Some (False, l, d)
        else let lns = file_lines (snd (fgets_split RECORD_SIZE f)); is_uk = (col_type (l_cols l ! set_idx) = COL_UK);
                 targets = length (filter (row_matches_statement l st) lns) in
          if targets = 0 then Some (True, l, d)
          else if is_uk \<and> targets > 1 then Some (False, l, d)
          else if list_ex (\<lambda>row. \<not> row_matches_statement l st row \<and> is_uk \<and> v \<noteq> [] \<and>
              compare_value (field_at (parse_csv_row row) set_idx) (Some v)) lns then Some (False, l, d)
          else case set_lines l st set_idx v lns of
              None \<Rightarrow> Some (False, l, d)
            | Some txt \<Rightarrow> reload_table_cache (write_table_header (l_cols l) @ txt) d)"

definition rewrite_truncated_delete :: "ltable \<Rightarrow> delta \<Rightarrow> statement \<Rightarrow> (bool \<times> ltable \<times> delta) option" where
  "rewrite_truncated_delete l d st =
     (case tc_file (l_store l) of
        None \<Rightarrow> Some (False, l, d)
      | Some f \<Rightarrow>
        if f = [] then Some (False, l, d)
        else let lns = file_lines (snd (fgets_split RECORD_SIZE f)) in
          if list_all (\<lambda>row. \<not> row_matches_statement l st row) lns then Some (True, l, d)
          else reload_table_cache (write_table_header (l_cols l) @
            concat (map (\<lambda>row. row @ [LF]) (filter (\<lambda>row. \<not> row_matches_statement l st row) lns))) d)"

subsection \<open>One row\<close>

text \<open>The row that a lookup finds; the flag tells that the key was used, \<open>key\<close> is \<open>pk_key\<close>.\<close>

definition lookup_row :: "ltable \<Rightarrow> bool \<Rightarrow> nat \<Rightarrow> where_condition \<Rightarrow> lookup_result \<times> ltable" where
  "lookup_row l uses_pk col c = (if uses_pk then (find_pk_row l (cond_val c), l) else find_uk_row l col (cond_val c))"

text \<open>The new row replaces the old one, which the caller keeps; \<open>put_back\<close> puts that one back, as a row in memory.\<close>

definition put_row :: "nat \<Rightarrow> string \<Rightarrow> ltable \<Rightarrow> ltable" where
  "put_row i row l = l\<lparr>l_store := snd (replace_record_at (l_store l) (int i) row)\<rparr>"

definition put_back :: "nat \<Rightarrow> string \<Rightarrow> ltable \<Rightarrow> ltable" where
  "put_back i old l = l\<lparr>l_store := upd_slot i (\<lambda>s. s\<lparr>rec := Some old\<rparr>) (l_store l)\<rparr>"

definition rebuild_uks :: "ltable \<Rightarrow> ltable option" where
  "rebuild_uks l = map_option snd (rebuild_uk_indexes l)"

text \<open>The test whether the new value is taken by another row.\<close>

definition uk_taken :: "ltable \<Rightarrow> nat \<Rightarrow> string \<Rightarrow> (int \<Rightarrow> bool) \<Rightarrow> (write_error option \<times> ltable) option" where
  "uk_taken l set_idx v own =
     (case get_uk_slot l set_idx of
        None \<Rightarrow> Some (Some Uk_Missing, l)
      | Some u \<Rightarrow>
        let l1 = ensure_uk_indexes l in
        if v = [] then Some (None, l1)
        else case unique_index_find l1 u v of
            Wild \<Rightarrow> None
          | Found r \<Rightarrow> Some (if own r then None else Some Uk_Violated, l1)
          | Absent \<Rightarrow> Some (None, l1))"

text \<open>The new row is logged; the result is the number of rows.\<close>

definition update_logged :: "ltable \<Rightarrow> delta \<Rightarrow> nat \<Rightarrow> string \<Rightarrow> string \<Rightarrow> int option \<Rightarrow> bool \<Rightarrow> ((write_error + int) \<times> ltable \<times> delta) option" where
  "update_logged l d i old row key rebuild_uk_needed =
     (case (case key of Some k \<Rightarrow> (True, append_delta_update_key d k row) | None \<Rightarrow> append_delta_update_slot l d i row) of
        (False, d1) \<Rightarrow>
          map_option (\<lambda>l1. (Inl Delta_Failed, l1, d1)) (if rebuild_uk_needed then rebuild_uks (put_back i old l) else Some (put_back i old l))
      | (True, d1) \<Rightarrow> map_option (\<lambda>(ok, l1, d2). (Inr 1, l1, d2)) (maybe_compact_delta_log l d1))"

definition update_found :: "ltable \<Rightarrow> delta \<Rightarrow> nat \<Rightarrow> string \<Rightarrow> nat \<Rightarrow> string \<Rightarrow> int option \<Rightarrow> bool \<Rightarrow> ((write_error + int) \<times> ltable \<times> delta) option" where
  "update_found l d i old set_idx v key rebuild_uk_needed =
     (case build_updated_row l old set_idx v RECORD_SIZE of
        None \<Rightarrow> Some (Inl New_Row_Too_Long, l, d)
      | Some row \<Rightarrow>
        if \<not> rebuild_uk_needed then update_logged (put_row i row l) d i old row key False
        else case remove_record_single_uk l old set_idx of
            None \<Rightarrow> None
          | Some (False, l1) \<Rightarrow> Some (Inl Uk_Update_Failed, l1, d)
          | Some (True, l1) \<Rightarrow>
            (case index_record_single_uk (put_row i row l1) i set_idx of
               None \<Rightarrow> None
             | Some (r, l2) \<Rightarrow>
               if r = 0 then map_option (\<lambda>l3. (Inl Uk_Update_Failed, l3, d)) (rebuild_uks (put_back i old l2))
               else update_logged l2 d i old row key True))"

definition execute_update_single_row :: "ltable \<Rightarrow> delta \<Rightarrow> statement \<Rightarrow> nat \<Rightarrow> where_condition \<Rightarrow> nat \<Rightarrow> string \<Rightarrow> bool \<Rightarrow> bool \<Rightarrow>
    ((write_error + int) \<times> ltable \<times> delta) option" where
  "execute_update_single_row l d st where_idx c set_idx v uses_pk rebuild_uk_needed =
     (case lookup_row l uses_pk where_idx c of
        (Wild, l1) \<Rightarrow> None
      | (Absent, l1) \<Rightarrow> Some (Inr 0, l1, d)
      | (Found r, l1) \<Rightarrow>
        let key = (if uses_pk then parse_long_value (Some (cond_val c)) else None) in
        case slot_row (l_store l1) r of
          (None, tc) \<Rightarrow> Some (Inl Row_Not_Loaded, l1\<lparr>l_store := tc\<rparr>, d)
        | (Some old, tc) \<Rightarrow>
          let l2 = l1\<lparr>l_store := tc\<rparr> in
          if length (where_conditions st) \<noteq> 1 \<and> \<not> row_matches_statement l2 st old then Some (Inr 0, l2, d)
          else if \<not> rebuild_uk_needed then update_found l2 d (nat r) old set_idx v key False
          else case uk_taken l2 set_idx v (\<lambda>found. found = r) of
              None \<Rightarrow> None
            | Some (Some e, l3) \<Rightarrow> Some (Inl e, l3, d)
            | Some (None, l3) \<Rightarrow> update_found l3 d (nat r) old set_idx v key True)"

subsection \<open>A scan\<close>

text \<open>The slots that match.\<close>

fun match_slots :: "statement \<Rightarrow> ltable \<Rightarrow> nat list \<Rightarrow> nat list \<times> ltable" where
  "match_slots st l [] = ([], l)"
| "match_slots st l (i # is) =
     (case slot_row (l_store l) (int i) of
        (row, tc) \<Rightarrow>
          let l1 = l\<lparr>l_store := tc\<rparr> in
          case match_slots st l1 is of
            (js, l2) \<Rightarrow> (if (case row of None \<Rightarrow> False | Some t \<Rightarrow> row_matches_statement l1 st t) then i # js else js, l2))"

text \<open>The rows are replaced one by one; \<open>old\<close> are the old rows by slot. The flag is \<open>False\<close> when a row does not fit.\<close>

fun update_slots :: "ltable \<Rightarrow> nat \<Rightarrow> string \<Rightarrow> string option list \<Rightarrow> nat list \<Rightarrow> bool \<times> string option list \<times> ltable" where
  "update_slots l set_idx v old [] = (True, old, l)"
| "update_slots l set_idx v old (i # is) =
     (case slot_row (l_store l) (int i) of
        (None, tc) \<Rightarrow> update_slots (l\<lparr>l_store := tc\<rparr>) set_idx v old is
      | (Some row, tc) \<Rightarrow>
        let l1 = l\<lparr>l_store := tc\<rparr> in
        case set_row l1 set_idx v row of
          None \<Rightarrow> (False, old, l1)
        | Some row1 \<Rightarrow> update_slots (put_row i row1 l1) set_idx v (old[i := Some row]) is)"

fun reindex_slots :: "ltable \<Rightarrow> nat \<Rightarrow> (nat \<times> string) list \<Rightarrow> (bool \<times> ltable) option" where
  "reindex_slots l set_idx [] = Some (True, l)"
| "reindex_slots l set_idx ((i, old) # rest) =
     (case remove_record_single_uk l old set_idx of
        None \<Rightarrow> None
      | Some (False, l1) \<Rightarrow> Some (False, l1)
      | Some (True, l1) \<Rightarrow>
        (case index_record_single_uk l1 i set_idx of
           None \<Rightarrow> None
         | Some (r, l2) \<Rightarrow> if r = 0 then Some (False, l2) else reindex_slots l2 set_idx rest))"

definition roll_back :: "string option list \<Rightarrow> ltable \<Rightarrow> ltable" where
  "roll_back old l = l\<lparr>l_store := rollback_updated_records (l_store l) old\<rparr>"

definition changed_rows :: "string option list \<Rightarrow> (nat \<times> string) list" where
  "changed_rows old = concat (map (\<lambda>i. case old ! i of None \<Rightarrow> [] | Some r \<Rightarrow> [(i, r)]) [0..<length old])"

definition update_scanned :: "ltable \<Rightarrow> delta \<Rightarrow> nat \<Rightarrow> string \<Rightarrow> bool \<Rightarrow> nat list \<Rightarrow> ((write_error + int) \<times> ltable \<times> delta) option" where
  "update_scanned l d set_idx v rebuild_uk_needed is =
     (case update_slots l set_idx v (replicate (record_count (l_store l)) None) is of
        (False, old, l1) \<Rightarrow> Some (Inl New_Row_Too_Long, roll_back old l1, d)
      | (True, old, l1) \<Rightarrow>
        let n = int (length (changed_rows old)) in
        if n = 0 then Some (Inr 0, l1, d)
        else case (if rebuild_uk_needed then reindex_slots l1 set_idx (changed_rows old) else Some (True, l1)) of
            None \<Rightarrow> None
          | Some (False, l2) \<Rightarrow> map_option (\<lambda>l3. (Inl Uk_Update_Failed, l3, d)) (rebuild_uks (roll_back old l2))
          | Some (True, l2) \<Rightarrow>
            (case append_delta_updates l2 d old of
               (False, l3, d1) \<Rightarrow>
                 map_option (\<lambda>l4. (Inl Delta_Failed, l4, d1)) (if rebuild_uk_needed then rebuild_uks (roll_back old l3) else Some (roll_back old l3))
             | (True, l3, d1) \<Rightarrow> map_option (\<lambda>(ok, l4, d2). (Inr n, l4, d2)) (maybe_compact_delta_log l3 d1)))"

definition update_scan :: "ltable \<Rightarrow> delta \<Rightarrow> statement \<Rightarrow> nat \<Rightarrow> string \<Rightarrow> bool \<Rightarrow> ((write_error + int) \<times> ltable \<times> delta) option" where
  "update_scan l d st set_idx v rebuild_uk_needed =
     (case match_slots st l [0..<record_count (l_store l)] of
        (is, l1) \<Rightarrow>
          if is = [] then Some (Inr 0, l1, d)
          else if \<not> rebuild_uk_needed then update_scanned l1 d set_idx v False is
          else if length is > 1 then Some (Inl Uk_Shared, l1, d)
          else case uk_taken l1 set_idx v (\<lambda>r. 0 \<le> r \<and> nat r \<in> set is) of
              None \<Rightarrow> None
            | Some (Some e, l2) \<Rightarrow> Some (Inl e, l2, d)
            | Some (None, l2) \<Rightarrow> update_scanned l2 d set_idx v True is)"

subsection \<open>The statement\<close>

definition execute_update :: "ltable \<Rightarrow> delta \<Rightarrow> statement \<Rightarrow> ((write_error + int) \<times> ltable \<times> delta) option" where
  "execute_update l d st =
     (if \<not> validate_where_columns l st then Some (Inl Where_Unknown, l, d)
      else if where_conditions st = [] then Some (Inl Where_Required, l, d)
      else case get_col_idx l (set_col st) of
          None \<Rightarrow> Some (Inl Set_Unknown, l, d)
        | Some set_idx \<Rightarrow>
          if l_pk l = Some set_idx then Some (Inl Pk_Fixed, l, d)
          else let v = trim_and_unquote (strbuf 256 (set_val st)); ty = col_type (l_cols l ! set_idx) in
            if ty = COL_NN \<and> v = [] then Some (Inl Nn_Violated, l, d)
            else if cache_truncated l then
              map_option (\<lambda>(ok, l1, d1). (if ok then Inr 0 else Inl Rewrite_Failed, l1, d1)) (rewrite_truncated_update l d st set_idx v)
            else case choose_index_condition l st False of
                None \<Rightarrow> update_scan l d st set_idx v (ty = COL_UK)
              | Some (i, col) \<Rightarrow> execute_update_single_row l d st col (where_conditions st ! i) set_idx v (l_pk l = Some col) (ty = COL_UK))"

end
