(* ===== verification/Legacy_Delete.thy ===== *)
theory Legacy_Delete
  imports Legacy_Update
begin

text \<open>
  DELETE of the command line engine, \<open>src/legacy/executor.c\<close>.

  \<^item> The scan keeps pointers to the rows of all slots while it reads the rows again. Reading a row may evict another
    one, which frees it: the pointer is then \<open>Freed\<close>, and using it gives \<^const>\<open>None\<close>.
  \<^item> After the change was logged the slots are cleared. Compaction, if it was needed, has loaded the table again by then: the slots of the new
    table are cleared; one that it does not have is written out of bounds, which gives \<^const>\<open>None\<close>.
\<close>

subsection \<open>Slots\<close>

text \<open>A slot is not active any more.\<close>

definition set_inactive :: "nat \<Rightarrow> ltable \<Rightarrow> ltable" where
  "set_inactive i l =
     l\<lparr>l_store := (upd_slot i (\<lambda>s. s\<lparr>record_active := False\<rparr>) (l_store l))\<lparr>active_count := active_count (l_store l) - 1\<rparr>\<rparr>"

definition set_active :: "nat \<Rightarrow> ltable \<Rightarrow> ltable" where
  "set_active i l = l\<lparr>l_store := upd_slot i (\<lambda>s. s\<lparr>record_active := True\<rparr>) (l_store l)\<rparr>"

text \<open>The row of a slot is freed, and the slot is put on the free list.\<close>

definition clear_slot :: "nat \<Rightarrow> ltable \<Rightarrow> ltable option" where
  "clear_slot i l =
     (let tc = l_store l in
      if i \<ge> length (slots tc) then None
      else Some (l\<lparr>l_store := push_free_slot ((upd_slot i (\<lambda>s. s\<lparr>rec := None, row_cached := False, row_cache_seq := 0, store_of := ROW_STORE_NONE,
        row_offset := 0, ref_store := ROW_STORE_NONE, ref_offset := 0\<rparr>) tc)\<lparr>cached_record_count := uncount (slots tc ! i) tc\<rparr>) i\<rparr>))"

fun clear_slots :: "nat list \<Rightarrow> ltable \<Rightarrow> ltable option" where
  "clear_slots [] l = Some l"
| "clear_slots (i # is) l = (case clear_slot i l of None \<Rightarrow> None | Some l1 \<Rightarrow> clear_slots is l1)"

text \<open>The result of \<open>restore_record_indexes\<close> is ignored.\<close>

definition restore_indexes :: "nat \<Rightarrow> ltable \<Rightarrow> ltable option" where
  "restore_indexes i l = map_option snd (restore_record_indexes l i)"

subsection \<open>One row\<close>

definition append_delta_delete_one :: "ltable \<Rightarrow> delta \<Rightarrow> string \<Rightarrow> nat \<Rightarrow> bool \<times> delta" where
  "append_delta_delete_one l d old at =
     (case (if l_pk l \<noteq> None then get_row_pk_value l old
            else if rec (slots (l_store l) ! at) = None then None else get_row_index_key l old at) of
        None \<Rightarrow> (False, d)
      | Some k \<Rightarrow> (True, append_delta_delete_key d k))"

text \<open>
  Removing a row that an index found; \<open>key\<close> is the key when the statement has only the condition on the key. The result is the number of
  rows.
\<close>

definition delete_logged :: "ltable \<Rightarrow> delta \<Rightarrow> nat \<Rightarrow> string \<Rightarrow> int option \<Rightarrow> ((write_error + int) \<times> ltable \<times> delta) option" where
  "delete_logged l d i old key =
     (let l1 = set_inactive i l in
      case (case key of Some k \<Rightarrow> (True, append_delta_delete_key d k) | None \<Rightarrow> append_delta_delete_one l1 d old i) of
        (False, d1) \<Rightarrow>
          map_option (\<lambda>l2. (Inl Delta_Failed, l2, d1))
            (restore_indexes i ((set_active i l1)\<lparr>l_store := (l_store (set_active i l1))\<lparr>active_count := active_count (l_store l1) + 1\<rparr>\<rparr>))
      | (True, d1) \<Rightarrow>
        (case maybe_compact_delta_log l1 d1 of
           None \<Rightarrow> None
         | Some (ok, l2, d2) \<Rightarrow> map_option (\<lambda>l3. (Inr 1, l3, d2)) (clear_slot i l2)))"

definition remove_found :: "ltable \<Rightarrow> string \<Rightarrow> nat \<Rightarrow> int option \<Rightarrow> (bool \<times> ltable) option" where
  "remove_found l old i key =
     (case key of
        Some k \<Rightarrow>
          (case drop_key l k of
             None \<Rightarrow> None
           | Some (False, l1) \<Rightarrow> Some (False, l1)
           | Some (True, l1) \<Rightarrow> remove_record_uk_indexes l1 old)
      | None \<Rightarrow> remove_record_indexes l old i)"

text \<open>An index that found a row which does not match is taken to be stale: the entry is removed.\<close>

definition drop_stale :: "ltable \<Rightarrow> bool \<Rightarrow> nat \<Rightarrow> where_condition \<Rightarrow> ltable option" where
  "drop_stale l uses_pk col c =
     (if uses_pk then (case parse_long_value (Some (cond_val c)) of None \<Rightarrow> Some l | Some k \<Rightarrow> map_option snd (drop_key l k))
      else case get_uk_slot l col of
          None \<Rightarrow> Some l
        | Some u \<Rightarrow>
          let key = normalize_value RECORD_SIZE (Some (cond_val c)) in
          if key = [] then Some l else map_option snd (drop_uk l u key))"

definition delete_single_row :: "ltable \<Rightarrow> delta \<Rightarrow> statement \<Rightarrow> nat \<Rightarrow> where_condition \<Rightarrow> bool \<Rightarrow> ((write_error + int) \<times> ltable \<times> delta) option" where
  "delete_single_row l d st col c uses_pk =
     (let pk_key = parse_long_value (Some (cond_val c)); key_only = uses_pk \<and> length (where_conditions st) = 1 \<and> pk_key \<noteq> None in
      case lookup_row l uses_pk col c of
        (Wild, l1) \<Rightarrow> None
      | (Absent, l1) \<Rightarrow> Some (Inr 0, l1, d)
      | (Found r, l1) \<Rightarrow>
        (case slot_row (l_store l1) r of
           (None, tc) \<Rightarrow> Some (Inl Row_Not_Loaded, l1\<lparr>l_store := tc\<rparr>, d)
         | (Some old, tc) \<Rightarrow>
           let l2 = l1\<lparr>l_store := tc\<rparr>; matched = (if key_only then row_field_equals old col (cond_val c) else row_matches_statement l2 st old) in
           if \<not> matched then
             map_option (\<lambda>l3. (Inr 0, l3, d)) (if length (where_conditions st) = 1 then drop_stale l2 uses_pk col c else Some l2)
           else case remove_found l2 old (nat r) (if key_only then pk_key else None) of
               None \<Rightarrow> None
             | Some (False, l3) \<Rightarrow> Some (Inl Index_Removal_Failed, l3, d)
             | Some (True, l3) \<Rightarrow> delete_logged l3 d (nat r) old (if key_only then pk_key else None)))"

subsection \<open>A scan\<close>

datatype saved_row = Null | Saved string | Freed

text \<open>What became of the pointers after a row was read.\<close>

definition forget_evicted :: "tcache \<Rightarrow> saved_row list \<Rightarrow> saved_row list" where
  "forget_evicted tc old = map (\<lambda>(i, p). case p of Saved r \<Rightarrow> if rec (slots tc ! i) = None then Freed else p | _ \<Rightarrow> p) (zip [0..<length old] old)"

fun save_rows :: "tcache \<Rightarrow> saved_row list \<Rightarrow> nat list \<Rightarrow> saved_row list \<times> tcache" where
  "save_rows tc old [] = (old, tc)"
| "save_rows tc old (i # is) =
     (case slot_row tc (int i) of
        (row, tc1) \<Rightarrow> save_rows tc1 (forget_evicted tc1 old @ [case row of None \<Rightarrow> Null | Some r \<Rightarrow> Saved r]) is)"

fun match_saved :: "statement \<Rightarrow> ltable \<Rightarrow> saved_row list \<Rightarrow> nat list \<Rightarrow> nat list \<times> saved_row list \<times> ltable" where
  "match_saved st l old [] = ([], old, l)"
| "match_saved st l old (i # is) =
     (case slot_row (l_store l) (int i) of
        (row, tc) \<Rightarrow>
          let l1 = l\<lparr>l_store := tc\<rparr> in
          case match_saved st l1 (forget_evicted tc old) is of
            (js, old2, l2) \<Rightarrow> (if (case row of None \<Rightarrow> False | Some t \<Rightarrow> row_matches_statement l1 st t) then i # js else js, old2, l2))"

text \<open>The pointers after the search for the slot of a row in a table without key.\<close>

definition forget_search :: "ltable \<Rightarrow> nat \<Rightarrow> saved_row list \<Rightarrow> saved_row list" where
  "forget_search l at old =
     (if l_pk l \<noteq> None then old
      else snd (fold (\<lambda>i (tc, old). let tc1 = snd (slot_row tc (int i)) in (tc1, forget_evicted tc1 old)) [0..<Suc at] (l_store l, old)))"

fun restore_all :: "nat list \<Rightarrow> ltable \<Rightarrow> ltable option" where
  "restore_all [] l = Some l"
| "restore_all (i # is) l = (case restore_indexes i l of None \<Rightarrow> None | Some l1 \<Rightarrow> restore_all is l1)"

text \<open>The keys of the rows are removed; \<open>removed\<close> are the slots done so far. On an error they get their keys back.\<close>

fun remove_all :: "ltable \<Rightarrow> saved_row list \<Rightarrow> nat list \<Rightarrow> nat list \<Rightarrow> (bool \<times> saved_row list \<times> ltable) option" where
  "remove_all l old removed [] = Some (True, old, l)"
| "remove_all l old removed (i # is) =
     (case (case old ! i of Null \<Rightarrow> Some (False, l) | Freed \<Rightarrow> None | Saved r \<Rightarrow> remove_record_indexes l r i) of
        None \<Rightarrow> None
      | Some (False, l1) \<Rightarrow> map_option (\<lambda>l2. (False, old, l2)) (restore_all removed l1)
      | Some (True, l1) \<Rightarrow> remove_all l1 (forget_search l i old) (removed @ [i]) is)"

fun reactivate :: "nat list \<Rightarrow> ltable \<Rightarrow> ltable option" where
  "reactivate [] l = Some l"
| "reactivate (i # is) l = (case restore_indexes i (set_active i l) of None \<Rightarrow> None | Some l1 \<Rightarrow> reactivate is l1)"

definition delete_scan :: "ltable \<Rightarrow> delta \<Rightarrow> statement \<Rightarrow> ((write_error + int) \<times> ltable \<times> delta) option" where
  "delete_scan l d st =
     (case save_rows (l_store l) [] [0..<record_count (l_store l)] of
        (old0, tc) \<Rightarrow>
          (case match_saved st (l\<lparr>l_store := tc\<rparr>) old0 [0..<record_count tc] of
             (is, old1, l1) \<Rightarrow>
               if is = [] then Some (Inr 0, l1, d)
               else case remove_all l1 old1 [] is of
                   None \<Rightarrow> None
                 | Some (False, old2, l2) \<Rightarrow> Some (Inl Index_Removal_Failed, l2, d)
                 | Some (True, old2, l2) \<Rightarrow>
                   let l3 = fold set_inactive is l2 in
                   if list_ex (\<lambda>i. old2 ! i = Freed) is then None
                   else case append_delta_deletes l3 d (map (\<lambda>p. case p of Saved r \<Rightarrow> r | _ \<Rightarrow> []) old2) (map (\<lambda>i. i \<in> set is) [0..<length old2]) of
                       (False, d1) \<Rightarrow>
                         map_option (\<lambda>l4. (Inl Delta_Failed, l4\<lparr>l_store := (l_store l4)\<lparr>active_count := active_count (l_store l4) + int (length is)\<rparr>\<rparr>, d1)) (reactivate is l3)
                     | (True, d1) \<Rightarrow>
                       (case maybe_compact_delta_log l3 d1 of
                          None \<Rightarrow> None
                        | Some (ok, l4, d2) \<Rightarrow> map_option (\<lambda>l5. (Inr (int (length is)), l5, d2)) (clear_slots is l4))))"

subsection \<open>The statement\<close>

definition execute_delete :: "ltable \<Rightarrow> delta \<Rightarrow> statement \<Rightarrow> ((write_error + int) \<times> ltable \<times> delta) option" where
  "execute_delete l d st =
     (if \<not> validate_where_columns l st then Some (Inl Where_Unknown, l, d)
      else if where_conditions st = [] then Some (Inl Where_Required, l, d)
      else if cache_truncated l then
        map_option (\<lambda>(ok, l1, d1). (if ok then Inr 0 else Inl Rewrite_Failed, l1, d1)) (rewrite_truncated_delete l d st)
      else if record_count (l_store l) = 0 then Some (Inr 0, l, d)
      else case choose_index_condition l st False of
          None \<Rightarrow> delete_scan l d st
        | Some (i, col) \<Rightarrow> delete_single_row l d st col (where_conditions st ! i) (l_pk l = Some col))"

end
