(* ===== verification/Legacy_Select_Correct.thy ===== *)
theory Legacy_Select_Correct
  imports Legacy_Select Legacy_Load_Props "HOL-Library.Multiset"
begin

text \<open>
  SELECT of the command line engine on a table in memory: whatever index is chosen, the rows are those that a scan finds.
\<close>

subsection \<open>Rows by slot\<close>

text \<open>The rows of a list of slots that match are those of the table, if the list has every slot that matches.\<close>

lemma mset_filter_slots:
  assumes "distinct is"
  shows "mset (filter P (map (\<lambda>i. the (m i)) is)) = image_mset (\<lambda>i. the (m i)) (mset_set {i \<in> set is. P (the (m i))})"
proof -
  have "mset (filter (\<lambda>i. P (the (m i))) is) = mset_set {i \<in> set is. P (the (m i))}"
    using assms by (metis mset_set_set distinct_filter set_filter)
  then show ?thesis by (simp add: filter_map comp_def)
qed

lemma live_rows_slots: "live_rows m [0..<n] = map (\<lambda>i. the (m i)) (filter (\<lambda>i. m i \<noteq> None) (map int [0..<n]))"
  by (induction n) (auto simp: live_rows_def map_filter_def)

lemma slots_cover:
  assumes "distinct is" "\<forall>i\<in>set is. m i \<noteq> None" "\<And>i r. m i = Some r \<Longrightarrow> P r \<Longrightarrow> i \<in> set is" "\<And>i. m i \<noteq> None \<Longrightarrow> 0 \<le> i \<and> i < int n"
  shows "mset (filter P (map (\<lambda>i. the (m i)) is)) = mset (filter P (live_rows m [0..<n]))"
proof -
  let ?js = "filter (\<lambda>i. m i \<noteq> None) (map int [0..<n])"
  have "{i \<in> set is. P (the (m i))} = {i \<in> set ?js. P (the (m i))}"
  proof (intro set_eqI iffI)
    fix i assume "i \<in> {i \<in> set is. P (the (m i))}"
    then have "m i \<noteq> None" "P (the (m i))" using assms(2) by auto
    moreover from this have "i = int (nat i)" "nat i < n" using assms(4) [of i] by auto
    ultimately show "i \<in> {i \<in> set ?js. P (the (m i))}" by (auto intro: image_eqI [of i int "nat i"])
  next
    fix i assume "i \<in> {i \<in> set ?js. P (the (m i))}"
    then show "i \<in> {i \<in> set is. P (the (m i))}" using assms(3) by auto
  qed
  moreover have "distinct ?js" by (simp add: distinct_map)
  ultimately show ?thesis unfolding live_rows_slots using mset_filter_slots [OF assms(1), of P m] mset_filter_slots [of ?js P m] by simp
qed

subsection \<open>Emitting the rows of slots\<close>

definition selects :: "ltable \<Rightarrow> statement \<Rightarrow> string list \<Rightarrow> string list" where
  "selects l st rs = filter (row_matches_statement l st) rs"

lemma matches_upd [simp]: "row_matches_statement (l\<lparr>l_store := tc\<rparr>) st = row_matches_statement l st"
  "row_fields_match_statement (l\<lparr>l_store := tc\<rparr>) st = row_fields_match_statement l st"
proof -
  have f: "field_matches (l\<lparr>l_store := tc\<rparr>) = field_matches l"
    by (auto simp: fun_eq_iff field_matches_def condition_column_index_def get_col_idx_def compare_range_value_def split: option.splits where_kind.splits)
  then show "row_fields_match_statement (l\<lparr>l_store := tc\<rparr>) st = row_fields_match_statement l st"
    by (simp add: row_fields_match_statement_def [abs_def])
  then show "row_matches_statement (l\<lparr>l_store := tc\<rparr>) st = row_matches_statement l st"
    by (auto simp: fun_eq_iff row_matches_statement_def condition_column_index_def get_col_idx_def split: list.splits)
qed

lemma table_ok_store: "table_ok f l m \<Longrightarrow> store_ok f tc \<Longrightarrow> slot_text tc = m \<Longrightarrow> append_offset tc = append_offset (l_store l) \<Longrightarrow>
    table_ok f (l\<lparr>l_store := tc\<rparr>) m"
  by (simp add: table_ok_def)

lemma evict_scan_append: "append_offset (snd (snd (evict_scan n tc))) = append_offset tc"
  by (induction n tc rule: evict_scan.induct) (auto simp: Let_def evict_at_def advance_cursor_def)

lemma evict_append: "append_offset (evict_row_cache_if_needed tc) = append_offset tc"
proof (induction tc rule: evict_row_cache_if_needed.induct)
  case (1 tc)
  show ?case using 1 evict_scan_append [of "record_count tc" tc]
    by (subst evict_row_cache_if_needed.simps) (auto split: prod.splits)
qed

lemma page_entry_append: "append_offset (snd (get_page_cache_entry tc off)) = append_offset tc"
  by (auto simp: get_page_cache_entry_def Let_def split: option.splits)

lemma page_row_append: "append_offset (snd (read_row_from_page_cache tc off)) = append_offset tc"
  using page_entry_append [of tc off] by (auto simp: read_row_from_page_cache_def Let_def split: prod.splits option.splits)

lemma slot_row_append: "append_offset (snd (slot_row tc i)) = append_offset tc"
  using page_row_append [of "evict_row_cache_if_needed tc" "ref_offset (slots tc ! nat i)"] evict_append [of tc]
  by (auto simp: slot_row_def stamp_def Let_def split: prod.splits option.splits)

lemma slot_row_scan_append: "append_offset (snd (snd (slot_row_scan tc i))) = append_offset tc"
  using page_row_append [of tc "ref_offset (slots tc ! nat i)"] by (auto simp: slot_row_scan_def Let_def split: prod.splits option.splits)

text \<open>What reading one slot does to a table and the rows that were emitted.\<close>

lemma emit_slot_ok:
  assumes "table_ok f l m" "m r = Some t"
  shows "\<exists>tc. emit_slot st r (l, ctx) = (l\<lparr>l_store := tc\<rparr>, fold emit_selected_row (selects l st [t]) ctx) \<and> table_ok f (l\<lparr>l_store := tc\<rparr>) m"
proof -
  obtain q tc where s: "slot_row (l_store l) r = (q, tc)" by (cases "slot_row (l_store l) r")
  have ok: "store_ok f (l_store l)" "slot_text (l_store l) = m" using assms(1) by (auto simp: table_ok_def)
  have q: "q = Some t" "store_ok f tc" "slot_text tc = m" using slot_row_ok [OF ok(1) s] ok(2) assms(2) by auto
  have "append_offset tc = append_offset (l_store l)" using slot_row_append [of "l_store l" r] s by simp
  then have "table_ok f (l\<lparr>l_store := tc\<rparr>) m" using table_ok_store [OF assms(1) q(2,3)] by simp
  then show ?thesis using s q(1) by (auto simp: emit_slot_def selects_def)
qed

lemma selects_upd [simp]: "selects (l\<lparr>l_store := tc\<rparr>) st = selects l st"
  by (simp add: selects_def fun_eq_iff)

lemma visit_slots:
  assumes "\<And>k r s. vis k r s = (True, if slot_is_active (l_store (fst s)) r then emit_slot st r s else s)" "table_ok f l m" "\<forall>e\<in>set es. m (snd e) \<noteq> None"
  shows "\<exists>tc. visit_all vis es (l, ctx) = (True, l\<lparr>l_store := tc\<rparr>, fold emit_selected_row (selects l st (map (\<lambda>e. the (m (snd e))) es)) ctx) \<and>
    table_ok f (l\<lparr>l_store := tc\<rparr>) m"
  using assms(2,3)
proof (induction es arbitrary: l ctx)
  case Nil
  then show ?case by (auto simp: selects_def intro: exI [of _ "l_store l"])
next
  case (Cons e es)
  obtain k r where e: "e = (k, r)" by (cases e)
  obtain t where t: "m r = Some t" using Cons.prems(2) e by auto
  obtain tc where tc: "emit_slot st r (l, ctx) = (l\<lparr>l_store := tc\<rparr>, fold emit_selected_row (selects l st [t]) ctx)" "table_ok f (l\<lparr>l_store := tc\<rparr>) m"
    using emit_slot_ok [OF Cons.prems(1) t] by blast
  have act: "slot_is_active (l_store l) r" using Cons.prems(1) t slot_text_active [of "l_store l" r t] by (simp add: table_ok_def)
  have "\<exists>tc'. visit_all vis es (l\<lparr>l_store := tc\<rparr>, fold emit_selected_row (selects l st [t]) ctx) = (True, l\<lparr>l_store := tc'\<rparr>,
      fold emit_selected_row (selects l st (map (\<lambda>e. the (m (snd e))) es)) (fold emit_selected_row (selects l st [t]) ctx)) \<and> table_ok f (l\<lparr>l_store := tc'\<rparr>) m"
    using Cons.IH [OF tc(2), of "fold emit_selected_row (selects l st [t]) ctx"] Cons.prems(2) by simp
  then show ?case using e t tc(1) act assms(1) [of k r "(l, ctx)"] by (auto simp: selects_def)
qed

lemma scan_slots:
  assumes "table_ok f l m"
  shows "\<exists>tc. fold (scan_slot st) is (l, ctx) = (l\<lparr>l_store := tc\<rparr>,
      fold emit_selected_row (filter (\<lambda>r. row_fields_match_statement l st (parse_csv_row r)) (live_rows m is)) ctx) \<and> table_ok f (l\<lparr>l_store := tc\<rparr>) m"
  using assms
proof (induction "is" arbitrary: l ctx)
  case Nil
  then show ?case by (auto intro: exI [of _ "l_store l"])
next
  case (Cons i "is")
  obtain q own tc where s: "slot_row_scan (l_store l) (int i) = (q, own, tc)" by (cases "slot_row_scan (l_store l) (int i)")
  have ok: "store_ok f (l_store l)" "slot_text (l_store l) = m" using Cons.prems by (auto simp: table_ok_def)
  have q: "q = m (int i)" "store_ok f tc" "slot_text tc = m" using slot_row_scan_ok [OF ok(1) s] ok(2) by auto
  have tok: "table_ok f (l\<lparr>l_store := tc\<rparr>) m"
    using table_ok_store [OF Cons.prems q(2,3)] slot_row_scan_append [of "l_store l" "int i"] s by simp
  show ?case using Cons.IH [OF tok] s q(1) by (cases "m (int i)") (auto simp: scan_slot_def)
qed

subsection \<open>The chosen condition\<close>

lemma choose_from_sound:
  "choose_from l a i s b cs = Some (j, col) \<Longrightarrow> 0 \<le> s \<Longrightarrow> b = Some (j, col) \<or>
     (i \<le> j \<and> j - i < length cs \<and> condition_column_index l (cs ! (j - i)) = Some col \<and> condition_score l a (cs ! (j - i)) col > 0)"
proof (induction l a i s b cs rule: choose_from.induct)
  case (2 l a i s b c cs)
  have step: "b' = Some (j, col) \<or> i \<le> j \<and> j - i < length (c # cs) \<and> condition_column_index l ((c # cs) ! (j - i)) = Some col \<and>
      condition_score l a ((c # cs) ! (j - i)) col > 0"
    if "b' = Some (j, col) \<or> Suc i \<le> j \<and> j - Suc i < length cs \<and> condition_column_index l (cs ! (j - Suc i)) = Some col \<and>
      condition_score l a (cs ! (j - Suc i)) col > 0" for b'
    using that by (auto simp: nth_Cons' Suc_diff_le le_Suc_eq)
  show ?case
  proof (cases "condition_column_index l c")
    case None
    then show ?thesis using 2 by (intro step) simp
  next
    case (Some k)
    let ?s = "condition_score l a c k"
    show ?thesis
    proof (cases "?s > s")
      case True
      then have "Some (i, k) = Some (j, col) \<or> i \<le> j \<and> j - i < length (c # cs) \<and> condition_column_index l ((c # cs) ! (j - i)) = Some col \<and>
        condition_score l a ((c # cs) ! (j - i)) col > 0" using 2 Some by (intro step) simp
      then show ?thesis using True Some 2(5) by auto
    next
      case False
      then show ?thesis using 2 Some by (intro step) simp
    qed
  qed
qed simp

lemma choose_sound:
  assumes "choose_index_condition l st a = Some (j, col)"
  shows "where_conditions st ! j \<in> set (where_conditions st)" "condition_column_index l (where_conditions st ! j) = Some col"
    "condition_score l a (where_conditions st ! j) col > 0"
  using choose_from_sound [of l a 0 0 None "where_conditions st" j col] assms by (auto simp: choose_index_condition_def)

subsection \<open>Rows that match\<close>

text \<open>Rows as INSERT writes them: one field for every column, with less than 256 bytes.\<close>

definition row_fits :: "ltable \<Rightarrow> string \<Rightarrow> bool" where
  "row_fits l r \<longleftrightarrow> list_all (\<lambda>c. \<not> row_end c) r \<and> length r < RECORD_SIZE \<and> length (l_cols l) < MAX_COLS \<and>
     length (parse_csv_row r) = length (l_cols l) \<and> list_all (\<lambda>f. length f < 256) (parse_csv_row r)"

text \<open>Conditions with values of less than 256 bytes; one on a unique column has a value that is not empty, because empty values are not in the index.\<close>

definition condition_fits :: "ltable \<Rightarrow> where_condition \<Rightarrow> bool" where
  "condition_fits l c \<longleftrightarrow> length (cond_val c) < 256 \<and> length (cond_end_val c) < 256 \<and>
     (case condition_column_index l c of None \<Rightarrow> False | Some col \<Rightarrow> col \<in> set (l_uks l) \<longrightarrow> normalize_value RECORD_SIZE (Some (cond_val c)) \<noteq> [])"

lemma condition_column_less: "condition_column_index l c = Some col \<Longrightarrow> col < length (l_cols l)"
  using index_from_Some [of 0 _ "l_cols l" col] by (auto simp: condition_column_index_def get_col_idx_def split: if_splits)

lemma matches_fields:
  assumes "row_fits l r" "list_all (condition_fits l) (where_conditions st)"
  shows "row_matches_statement l st r = row_fields_match_statement l st (parse_csv_row r)"
proof (rule row_match_fast_path)
  show "\<forall>c\<in>set (where_conditions st). length (cond_val c) < 256 \<and>
      (case condition_column_index l c of None \<Rightarrow> True | Some col \<Rightarrow> col < length (parse_csv_row r))"
    using assms condition_column_less [of l] by (auto simp: list_all_iff condition_fits_def row_fits_def split: option.splits)
qed (use assms(1) in \<open>auto simp: row_fits_def list_all_iff\<close>)

lemma norm_short: "length s < 256 \<Longrightarrow> normalize_value RECORD_SIZE (Some s) = normalize_value 256 (Some s)"
  by (simp add: normalize_value_def strbuf_id RECORD_SIZE_def)

text \<open>The field that a condition on a row looks at.\<close>

lemma row_cell:
  assumes "row_fits l r" "condition_column_index l c = Some col"
  obtains v where "field_at (parse_csv_row r) col = Some v" "length v < 256"
  using assms condition_column_less [OF assms(2)] by (auto simp: row_fits_def field_at_def list_all_iff)

lemma eq_key:
  assumes "row_fits l r" "condition_column_index l c = Some col" "cond_type c = WHERE_EQ" "field_matches l (parse_csv_row r) c"
  shows "row_key col r = parse_long_value (Some (cond_val c))" "length (cond_val c) < 256 \<Longrightarrow> row_uk r col = normalize_value RECORD_SIZE (Some (cond_val c))"
proof -
  obtain v where v: "field_at (parse_csv_row r) col = Some v" "length v < 256" using row_cell [OF assms(1,2)] by blast
  have eq: "normalize_value 256 (Some v) = normalize_value 256 (Some (cond_val c))"
    using assms(2-4) v(1) by (simp add: field_matches_def compare_value_def strcmp_eq)
  then show "row_key col r = parse_long_value (Some (cond_val c))" using v(1) by (simp add: row_key_def parse_long_value_def Let_def)
  show "row_uk r col = normalize_value RECORD_SIZE (Some (cond_val c))" if "length (cond_val c) < 256"
    using eq v norm_short [of v] norm_short [OF that] by (simp add: row_uk_def)
qed

lemma between_key:
  assumes "row_fits l r" "condition_column_index l c = Some col" "cond_type c = WHERE_BETWEEN" "field_matches l (parse_csv_row r) c"
  shows "l_pk l = Some col \<Longrightarrow> \<exists>k a b. row_key col r = Some k \<and> parse_long_value (Some (cond_val c)) = Some a \<and>
      parse_long_value (Some (cond_end_val c)) = Some b \<and> a \<le> k \<and> k \<le> b"
    "l_pk l \<noteq> Some col \<Longrightarrow> normalize_value RECORD_SIZE (Some (cond_val c)) \<le> row_uk r col \<and> row_uk r col \<le> normalize_value RECORD_SIZE (Some (cond_end_val c))"
proof -
  obtain v where v: "field_at (parse_csv_row r) col = Some v" using row_cell [OF assms(1,2)] by blast
  have m: "compare_range_value l col (Some v) c" using assms(2-4) v by (simp add: field_matches_def)
  show "l_pk l = Some col \<Longrightarrow> \<exists>k a b. row_key col r = Some k \<and> parse_long_value (Some (cond_val c)) = Some a \<and>
      parse_long_value (Some (cond_end_val c)) = Some b \<and> a \<le> k \<and> k \<le> b"
    using m v by (auto simp: compare_range_value_def row_key_def split: option.splits)
  have le: "strcmp x y \<ge> 0 \<longleftrightarrow> y \<le> x" "strcmp x y \<le> 0 \<longleftrightarrow> x \<le> y" for x y using strcmp_less [of x y] strcmp_greater [of x y] by auto
  show "l_pk l \<noteq> Some col \<Longrightarrow> normalize_value RECORD_SIZE (Some (cond_val c)) \<le> row_uk r col \<and> row_uk r col \<le> normalize_value RECORD_SIZE (Some (cond_end_val c))"
    using m v by (simp add: compare_range_value_def row_uk_def Let_def le)
qed

subsection \<open>The ways to find rows\<close>

text \<open>The result of a statement that emits the rows that match, in some order.\<close>

definition selected :: "string \<Rightarrow> (int \<Rightarrow> string option) \<Rightarrow> ltable \<Rightarrow> statement \<Rightarrow> exec_context \<Rightarrow> select_result \<Rightarrow> bool" where
  "selected f m l st ctx res \<longleftrightarrow> (\<exists>rs l'. mset rs = mset (selects l st (table_rows l)) \<and> table_ok f l' m \<and>
     res = done_select l' (fold emit_selected_row rs ctx))"

text \<open>The assumptions on a table in memory.\<close>

definition selectable :: "string \<Rightarrow> ltable \<Rightarrow> (int \<Rightarrow> string option) \<Rightarrow> statement \<Rightarrow> bool" where
  "selectable f l m st \<longleftrightarrow> table_ok f l m \<and> \<not> cache_truncated l \<and> (\<forall>r\<in>ran m. row_fits l r) \<and> list_all (condition_fits l) (where_conditions st)"

lemma selected_slots:
  assumes ok: "selectable f l m st" and "is": "distinct is" "\<forall>i\<in>set is. m i \<noteq> None"
    and cov: "\<And>i r. m i = Some r \<Longrightarrow> row_matches_statement l st r \<Longrightarrow> i \<in> set is"
    and res: "res = done_select l' (fold emit_selected_row (selects l st (map (\<lambda>i. the (m i)) is)) ctx)" "table_ok f l' m"
  shows "selected f m l st ctx res"
proof -
  have m: "slot_text (l_store l) = m" using ok by (simp add: selectable_def table_ok_def)
  have "0 \<le> i \<and> i < int (record_count (l_store l))" if "m i \<noteq> None" for i
    using that m slot_text_active [of "l_store l" i] by (auto simp: slot_is_active_def)
  then have "mset (selects l st (map (\<lambda>i. the (m i)) is)) = mset (selects l st (table_rows l))"
    unfolding selects_def table_rows_def m by (intro slots_cover [OF "is" cov])
  then show ?thesis using res unfolding selected_def by blast
qed

lemma match_condition: "selectable f l m st \<Longrightarrow> m i = Some r \<Longrightarrow> row_matches_statement l st r \<Longrightarrow> c \<in> set (where_conditions st) \<Longrightarrow>
    row_fits l r \<and> field_matches l (parse_csv_row r) c"
  using matches_fields [of l r st] by (auto simp: selectable_def row_fields_match_statement_def list_all_iff ranI)

lemma select_scan_ok:
  assumes "selectable f l m st"
  shows "selected f m l st ctx (select_scan l st ctx)"
proof -
  let ?P = "\<lambda>r. row_fields_match_statement l st (parse_csv_row r)"
  have ok: "table_ok f l m" "slot_text (l_store l) = m" "\<not> cache_truncated l" using assms by (auto simp: selectable_def table_ok_def)
  obtain tc where tc: "fold (scan_slot st) [0..<record_count (l_store l)] (l, ctx) =
      (l\<lparr>l_store := tc\<rparr>, fold emit_selected_row (filter ?P (table_rows l)) ctx)" "table_ok f (l\<lparr>l_store := tc\<rparr>) m"
    using scan_slots [OF ok(1)] ok(2) unfolding table_rows_def by blast
  have "?P r = row_matches_statement l st r" if "r \<in> set (table_rows l)" for r
    using that assms matches_fields [of l r st] set_table_rows [of l] ok(2) by (auto simp: selectable_def)
  then have "filter ?P (table_rows l) = selects l st (table_rows l)" unfolding selects_def by (intro filter_cong) auto
  then have "select_scan l st ctx = done_select (l\<lparr>l_store := tc\<rparr>) (fold emit_selected_row (selects l st (table_rows l)) ctx)"
    using tc(1) ok(3) by (simp add: select_scan_def select_tail_def)
  then show ?thesis using tc(2) unfolding selected_def by blast
qed

text \<open>No row or one row was found under a key.\<close>

lemma select_one:
  assumes ok: "selectable f l m st" "emit_results ctx" and r: "m r = Some t" and cov: "\<And>i q. m i = Some q \<Longrightarrow> row_matches_statement l st q \<Longrightarrow> i = r"
  shows "selected f m l st ctx (select_found l st r ctx)"
proof -
  obtain tc where "emit_slot st r (l, ctx) = (l\<lparr>l_store := tc\<rparr>, fold emit_selected_row (selects l st [t]) ctx)" "table_ok f (l\<lparr>l_store := tc\<rparr>) m"
    using emit_slot_ok [of f l m r t] ok(1) r unfolding selectable_def by blast
  then show ?thesis using ok r cov by (intro selected_slots [OF ok(1), of "[r]"]) (auto simp: select_found_def)
qed

lemma select_none:
  assumes ok: "selectable f l m st" and cov: "\<And>i q. m i = Some q \<Longrightarrow> \<not> row_matches_statement l st q"
  shows "selected f m l st ctx (done_select l ctx)"
  using ok cov by (intro selected_slots [OF ok, of "[]"]) (auto simp: selects_def selectable_def)

lemma tail_none: "\<not> cache_truncated l \<Longrightarrow> select_tail l st ctx = done_select l ctx"
  by (simp add: select_tail_def)

lemma select_key_ok:
  assumes ok: "selectable f l m st" "emit_results ctx" and c: "c \<in> set (where_conditions st)" "condition_column_index l c = Some p" "cond_type c = WHERE_EQ"
    and pk: "l_pk l = Some p" "parse_long_value (Some (cond_val c)) = Some k"
  shows "selected f m l st ctx (select_key l st c ctx)"
proof -
  have tree: "tree_for (id_index l) (pk_entries p m)" using ok(1) pk(1) by (auto simp: selectable_def table_ok_def indexes_ok_def)
  have key: "(k, i) \<in> pk_entries p m" if "m i = Some q" "row_matches_statement l st q" for i q
    using match_condition [OF ok(1) that c(1)] eq_key(1) [of l q c p] c pk(2) that(1) by (auto simp: pk_entries_def)
  show ?thesis
  proof (cases "bptree_search (id_index l) k")
    case (Found r)
    then have r: "(k, r) \<in> pk_entries p m" using pk_search(1) [OF tree] by simp
    then obtain t where t: "m r = Some t" by (auto simp: pk_entries_def)
    have "i = r" if "m i = Some q" "row_matches_statement l st q" for i q using tree_for_unique [OF tree key [OF that] r] .
    then have "selected f m l st ctx (select_found l st r ctx)" by (rule select_one [OF ok t])
    then show ?thesis using Found pk(2) by (simp add: select_key_def)
  next
    case Absent
    then have "k \<notin> fst ` pk_entries p m" using pk_search(2) [OF tree] by simp
    then have "selected f m l st ctx (done_select l ctx)" using key by (intro select_none [OF ok(1)]) force
    then show ?thesis using Absent pk(2) ok(1) by (simp add: select_key_def selectable_def)
  qed (use pk_search(3) [OF tree] in simp)
qed

lemma uk_tree:
  assumes "table_ok f l m" "get_uk_slot l col = Some u"
  obtains t where "uk_indexes l ! u = Index t" "tree_for t (uk_entries col m)" "ensure_uk_indexes l = l" "col \<in> set (l_uks l)"
proof -
  have u: "u < length (l_uks l)" "l_uks l ! u = col" using assms(2) index_from_Some [of 0 _ "l_uks l" u] by (auto simp: get_uk_slot_def)
  have ok: "indexes_ok l m" using assms(1) by (simp add: table_ok_def)
  then obtain t where "uk_indexes l ! u = Index t" "tree_for t (uk_entries col m)" using u by (auto simp: indexes_ok_def uk_for_def)
  moreover have "ensure_uk_indexes l = l" by (rule ensure_uk_id [OF indexes_Index [OF ok]])
  ultimately show ?thesis using that u by (metis nth_mem)
qed

lemma select_unique_ok:
  assumes ok: "selectable f l m st" "emit_results ctx" and c: "c \<in> set (where_conditions st)" "condition_column_index l c = Some col" "cond_type c = WHERE_EQ"
    and uk: "get_uk_slot l col = Some u"
  shows "selected f m l st ctx (select_unique l st col c ctx)"
proof -
  let ?k = "normalize_value RECORD_SIZE (Some (cond_val c))"
  have tok: "table_ok f l m" "\<not> cache_truncated l" using ok(1) by (auto simp: selectable_def)
  obtain t where t: "uk_indexes l ! u = Index t" "tree_for t (uk_entries col m)" "ensure_uk_indexes l = l" "col \<in> set (l_uks l)" by (rule uk_tree [OF tok(1) uk])
  have fit: "condition_fits l c" using ok(1) c(1) by (auto simp: selectable_def list_all_iff)
  then have ne: "?k \<noteq> []" using c(2) t(4) by (simp add: condition_fits_def)
  have key: "(?k, i) \<in> uk_entries col m" if "m i = Some q" "row_matches_statement l st q" for i q
    using match_condition [OF ok(1) that c(1)] eq_key(2) [of l q c col] c that(1) fit ne by (auto simp: uk_entries_def condition_fits_def)
  show ?thesis
  proof (cases "bptree_string_search t ?k")
    case (Found r)
    then have r: "(?k, r) \<in> uk_entries col m" using uk_search(1) [OF t(2)] by simp
    then obtain q where q: "m r = Some q" by (auto simp: uk_entries_def)
    then have "slot_is_active (l_store l) r" using tok(1) slot_text_active [of "l_store l" r q] by (simp add: table_ok_def)
    moreover have "i = r" if "m i = Some q" "row_matches_statement l st q" for i q using tree_for_unique [OF t(2) key [OF that] r] .
    then have "selected f m l st ctx (select_found l st r ctx)" by (rule select_one [OF ok q])
    ultimately show ?thesis using Found uk t(1,3) ne by (simp add: select_unique_def find_uk_row_def unique_index_find_def Let_def)
  next
    case Absent
    then have "?k \<notin> fst ` uk_entries col m" using uk_search(2) [OF t(2)] by simp
    then have "selected f m l st ctx (done_select l ctx)" using key by (intro select_none [OF ok(1)]) force
    then show ?thesis using Absent uk t(1,3) ne tail_none [OF tok(2)] by (simp add: select_unique_def find_uk_row_def unique_index_find_def Let_def)
  qed (use uk_search(3) [OF t(2)] in simp)
qed

text \<open>The slots of the entries in a range are different slots that hold rows.\<close>

lemma entry_slots:
  assumes "tree_for t E" "\<And>k i k'. (k, i) \<in> E \<Longrightarrow> (k', i) \<in> E \<Longrightarrow> k = k'"
  shows "distinct (map snd (filter Q (pairs (root t))))"
proof -
  have "distinct (pairs (root t))" using assms(1) tree_inv_sorted [of t] by (auto simp: tree_for_def strict_sorted_iff distinct_map)
  moreover have "inj_on snd (set (pairs (root t)))" using assms by (force simp: tree_for_def inj_on_def)
  ultimately show ?thesis by (auto simp: distinct_map inj_on_def)
qed

lemma pk_entries_fun: "(k, i) \<in> pk_entries p m \<Longrightarrow> (k', i) \<in> pk_entries p m \<Longrightarrow> k = k'" and pk_entries_row: "(k, i) \<in> pk_entries p m \<Longrightarrow> m i \<noteq> None"
  by (auto simp: pk_entries_def)

lemma uk_entries_fun: "(k, i) \<in> uk_entries c m \<Longrightarrow> (k', i) \<in> uk_entries c m \<Longrightarrow> k = k'" and uk_entries_row: "(k, i) \<in> uk_entries c m \<Longrightarrow> m i \<noteq> None"
  by (auto simp: uk_entries_def)

lemma range_slots:
  assumes ok: "selectable f l m st" and vis: "\<And>k r s. vis k r s = (True, if slot_is_active (l_store (fst s)) r then emit_slot st r s else s)"
    and t: "tree_for t E" "\<And>k i k'. (k, i) \<in> E \<Longrightarrow> (k', i) \<in> E \<Longrightarrow> k = k'" "\<And>k i. (k, i) \<in> E \<Longrightarrow> m i \<noteq> None"
    and cov: "\<And>i q. m i = Some q \<Longrightarrow> row_matches_statement l st q \<Longrightarrow> \<exists>k. (k, i) \<in> E \<and> a \<le> k \<and> k \<le> b"
  shows "\<exists>tc ctx1. visit_all vis (filter (\<lambda>e. a \<le> fst e \<and> fst e \<le> b) (pairs (root t))) (l, ctx) = (True, l\<lparr>l_store := tc\<rparr>, ctx1) \<and>
    selected f m l st ctx (done_select (l\<lparr>l_store := tc\<rparr>) ctx1)"
proof -
  let ?es = "filter (\<lambda>e. a \<le> fst e \<and> fst e \<le> b) (pairs (root t))"
  have E: "set (pairs (root t)) = E" using t(1) by (simp add: tree_for_def)
  then have "\<forall>e\<in>set ?es. m (snd e) \<noteq> None" using t(3) by auto
  then obtain tc where tc: "visit_all vis ?es (l, ctx) = (True, l\<lparr>l_store := tc\<rparr>, fold emit_selected_row (selects l st (map (\<lambda>e. the (m (snd e))) ?es)) ctx)"
    "table_ok f (l\<lparr>l_store := tc\<rparr>) m"
    using visit_slots [of vis st f l m ?es ctx, OF vis] ok unfolding selectable_def by blast
  have "selected f m l st ctx (done_select (l\<lparr>l_store := tc\<rparr>) (fold emit_selected_row (selects l st (map (\<lambda>i. the (m i)) (map snd ?es))) ctx))"
  proof (rule selected_slots [OF ok entry_slots [OF t(1,2)] _ _ refl tc(2)])
    show "\<forall>i\<in>set (map snd ?es). m i \<noteq> None" using E t(3) by auto
    show "i \<in> set (map snd ?es)" if "m i = Some q" "row_matches_statement l st q" for i q
      using cov [OF that] E by (auto simp: image_iff)
  qed auto
  then show ?thesis using tc(1) by (auto simp: comp_def)
qed

lemma select_range_ok:
  assumes ok: "selectable f l m st" and c: "c \<in> set (where_conditions st)" "condition_column_index l c = Some col" "cond_type c = WHERE_BETWEEN"
  shows "l_pk l = Some col \<Longrightarrow> parse_long_value (Some (cond_val c)) \<noteq> None \<Longrightarrow> parse_long_value (Some (cond_end_val c)) \<noteq> None \<Longrightarrow>
      selected f m l st ctx (select_range l st col c ctx)"
    "l_pk l \<noteq> Some col \<Longrightarrow> get_uk_slot l col = Some u \<Longrightarrow> selected f m l st ctx (select_range l st col c ctx)"
proof -
  have tok: "table_ok f l m" "\<not> cache_truncated l" using ok by (auto simp: selectable_def)
  note mc = match_condition [OF ok _ _ c(1)]
  show "selected f m l st ctx (select_range l st col c ctx)"
    if pk: "l_pk l = Some col" and ab: "parse_long_value (Some (cond_val c)) \<noteq> None" "parse_long_value (Some (cond_end_val c)) \<noteq> None"
  proof -
    obtain a b where a: "parse_long_value (Some (cond_val c)) = Some a" and b: "parse_long_value (Some (cond_end_val c)) = Some b" using ab by auto
    have tree: "tree_for (id_index l) (pk_entries col m)" using tok(1) pk by (auto simp: table_ok_def indexes_ok_def)
    have cov: "\<exists>k. (k, i) \<in> pk_entries col m \<and> a \<le> k \<and> k \<le> b" if "m i = Some q" "row_matches_statement l st q" for i q
      using mc [OF that] between_key(1) [of l q c col] c pk a b that(1) by (auto simp: pk_entries_def)
    have "\<exists>tc ctx1. visit_all (print_range_row_visitor st) (filter (\<lambda>e. a \<le> fst e \<and> fst e \<le> b) (pairs (root (id_index l)))) (l, ctx) = (True, l\<lparr>l_store := tc\<rparr>, ctx1) \<and>
        selected f m l st ctx (done_select (l\<lparr>l_store := tc\<rparr>) ctx1)"
    proof (rule range_slots [OF ok _ tree])
      show "print_range_row_visitor st k r s = (True, if slot_is_active (l_store (fst s)) r then emit_slot st r s else s)" for k r s by (rule print_range_row_visitor_def)
      show "k = k'" if "(k, i) \<in> pk_entries col m" "(k', i) \<in> pk_entries col m" for k i k' using that by (rule pk_entries_fun)
      show "m i \<noteq> None" if "(k, i) \<in> pk_entries col m" for k i using that by (rule pk_entries_row)
      show "\<exists>k. (k, i) \<in> pk_entries col m \<and> a \<le> k \<and> k \<le> b" if "m i = Some q" "row_matches_statement l st q" for i q using that by (rule cov)
    qed
    then show ?thesis using pk a b tok(2) tree long.tree_range_inv [of "id_index l" a b "print_range_row_visitor st" "(l, ctx)"]
      by (auto simp: select_range_def tree_for_def bptree_range_search_def)
  qed
  show "selected f m l st ctx (select_range l st col c ctx)" if pk: "l_pk l \<noteq> Some col" and uk: "get_uk_slot l col = Some u"
  proof -
    let ?a = "normalize_value RECORD_SIZE (Some (cond_val c))" and ?b = "normalize_value RECORD_SIZE (Some (cond_end_val c))"
    obtain t where t: "uk_indexes l ! u = Index t" "tree_for t (uk_entries col m)" "ensure_uk_indexes l = l" "col \<in> set (l_uks l)" by (rule uk_tree [OF tok(1) uk])
    have "condition_fits l c" using ok c(1) by (auto simp: selectable_def list_all_iff)
    then have ne: "?a \<noteq> []" using c(2) t(4) by (simp add: condition_fits_def)
    have cov: "\<exists>k. (k, i) \<in> uk_entries col m \<and> ?a \<le> k \<and> k \<le> ?b" if "m i = Some q" "row_matches_statement l st q" for i q
      using mc [OF that] between_key(2) [of l q c col] c pk that(1) ne by (auto simp: uk_entries_def)
    have "\<exists>tc ctx1. visit_all (print_string_range_row_visitor st) (filter (\<lambda>e. ?a \<le> fst e \<and> fst e \<le> ?b) (pairs (root t))) (l, ctx) = (True, l\<lparr>l_store := tc\<rparr>, ctx1) \<and>
        selected f m l st ctx (done_select (l\<lparr>l_store := tc\<rparr>) ctx1)"
    proof (rule range_slots [OF ok _ t(2)])
      show "print_string_range_row_visitor st k r s = (True, if slot_is_active (l_store (fst s)) r then emit_slot st r s else s)" for k r s by (rule print_string_range_row_visitor_def)
      show "k = k'" if "(k, i) \<in> uk_entries col m" "(k', i) \<in> uk_entries col m" for k i k' using that by (rule uk_entries_fun)
      show "m i \<noteq> None" if "(k, i) \<in> uk_entries col m" for k i using that by (rule uk_entries_row)
      show "\<exists>k. (k, i) \<in> uk_entries col m \<and> ?a \<le> k \<and> k \<le> ?b" if "m i = Some q" "row_matches_statement l st q" for i q using that by (rule cov)
    qed
    then show ?thesis using pk uk t tok(2) str.tree_range_inv [of t ?a ?b "print_string_range_row_visitor st" "(l, ctx)"]
      by (auto simp: select_range_def tree_for_def bptree_string_range_search_def Let_def)
  qed
qed

subsection \<open>The statement\<close>

text \<open>The bounds and values that have to be integers.\<close>

definition key_values_ok :: "ltable \<Rightarrow> statement \<Rightarrow> bool" where
  "key_values_ok l st \<longleftrightarrow> list_all (\<lambda>c. condition_column_index l c = l_pk l \<longrightarrow> parse_long_value (Some (cond_val c)) \<noteq> None \<and>
     (cond_type c = WHERE_BETWEEN \<longrightarrow> parse_long_value (Some (cond_end_val c)) \<noteq> None)) (where_conditions st)"

lemma cli_select_ok:
  assumes ok: "selectable f l m st" and k: "key_values_ok l st" and idx: "(if select_all st then Some [] else select_indices l (select_cols st)) = Some idx"
  shows "selected f m l st \<lparr>select_idx = idx, exec_select_all = select_all st, emit_results = True, matched_rows = 0, printed = []\<rparr>
    (execute_select_internal l st True)"
proof -
  let ?ctx = "\<lparr>select_idx = idx, exec_select_all = select_all st, emit_results = True, matched_rows = 0, printed = []\<rparr>"
  have v: "validate_where_columns l st" using ok by (auto simp: selectable_def validate_where_columns_def condition_fits_def list_all_iff split: option.splits)
  show ?thesis
  proof (cases "choose_index_condition l st True")
    case None
    then show ?thesis using v idx select_scan_ok [OF ok] by (simp add: execute_select_internal_def)
  next
    case (Some x)
    obtain i col where x: "x = (i, col)" by (cases x)
    let ?c = "where_conditions st ! i"
    have ch: "?c \<in> set (where_conditions st)" "condition_column_index l ?c = Some col" "condition_score l True ?c col > 0"
      using choose_sound [of l st True i col] Some x by auto
    have run: "execute_select_internal l st True =
        (if cond_type ?c = WHERE_BETWEEN then select_range l st col ?c ?ctx
         else if cond_type ?c = WHERE_EQ \<and> l_pk l = Some col then select_key l st ?c ?ctx
         else if cond_type ?c = WHERE_EQ \<and> get_uk_slot l col \<noteq> None then select_unique l st col ?c ?ctx else select_scan l st ?ctx)"
      using v idx Some x by (simp add: execute_select_internal_def Let_def)
    have kv: "l_pk l = Some col \<Longrightarrow> parse_long_value (Some (cond_val ?c)) \<noteq> None \<and>
        (cond_type ?c = WHERE_BETWEEN \<longrightarrow> parse_long_value (Some (cond_end_val ?c)) \<noteq> None)"
      using k ch(1,2) by (simp add: key_values_ok_def list_all_iff)
    consider (between) "cond_type ?c = WHERE_BETWEEN" "l_pk l = Some col \<or> get_uk_slot l col \<noteq> None"
      | (key) "cond_type ?c = WHERE_EQ" "l_pk l = Some col" | (unique) "cond_type ?c = WHERE_EQ" "l_pk l \<noteq> Some col" "get_uk_slot l col \<noteq> None"
      using ch(3) by (auto simp: condition_score_def split: if_splits)
    then show ?thesis
    proof cases
      case between
      then show ?thesis using select_range_ok [OF ok ch(1,2) between(1)] kv run by (cases "l_pk l = Some col") auto
    next
      case key
      then show ?thesis using select_key_ok [OF ok _ ch(1,2) key, of ?ctx] kv run by auto
    next
      case unique
      then show ?thesis using select_unique_ok [OF ok _ ch(1,2) unique(1), of ?ctx] run by auto
    qed
  qed
qed

lemma emit_counts: "matched_rows (fold emit_selected_row rs ctx) = matched_rows ctx + int (length rs)"
  by (induction rs arbitrary: ctx) (simp_all add: emit_selected_row_def Let_def)

end
