(* ===== verification/Legacy_Select_Props.thy ===== *)
theory Legacy_Select_Props
  imports Legacy_Select_Correct
begin

text \<open>The property of SELECT in the command line engine.\<close>

text \<open>The line of a row in the output.\<close>

definition shown_row :: "ltable \<Rightarrow> statement \<Rightarrow> string \<Rightarrow> string" where
  "shown_row l st r =
     (if select_all st then r
      else commas (map (\<lambda>n. case get_col_idx l n of None \<Rightarrow> [] | Some i \<Rightarrow> (case field_at (parse_csv_row r) i of None \<Rightarrow> [] | Some f \<Rightarrow> f)) (select_cols st))) @ [LF]"

lemma select_indices_all:
  "list_all (\<lambda>n. get_col_idx l n \<noteq> None) ns \<Longrightarrow> select_indices l ns = Some (map (\<lambda>n. the (get_col_idx l n)) ns)"
  by (induction ns) auto

lemma emit_prints:
  assumes "emit_results ctx" "exec_select_all ctx = select_all st" "select_all st \<or> select_idx ctx = map (\<lambda>n. the (get_col_idx l n)) (select_cols st)"
    and "select_all st \<or> list_all (\<lambda>n. get_col_idx l n \<noteq> None) (select_cols st)"
  shows "printed (fold emit_selected_row rs ctx) = printed ctx @ concat (map (shown_row l st) rs)"
  using assms
proof (induction rs arbitrary: ctx)
  case (Cons r rs)
  let ?ctx = "emit_selected_row r ctx"
  have "commas (map (\<lambda>i. case field_at (parse_csv_row r) i of None \<Rightarrow> [] | Some f \<Rightarrow> f) (select_idx ctx)) =
      commas (map (\<lambda>n. case get_col_idx l n of None \<Rightarrow> [] | Some i \<Rightarrow> (case field_at (parse_csv_row r) i of None \<Rightarrow> [] | Some f \<Rightarrow> f)) (select_cols st))"
    if "\<not> select_all st" using Cons.prems(3,4) that by (intro arg_cong [of _ _ commas]) (auto simp: list_all_iff)
  then have "printed ?ctx = printed ctx @ shown_row l st r"
    using Cons.prems(1,2) by (cases "select_all st") (simp_all add: emit_selected_row_def shown_row_def Let_def LF_def)
  moreover have "emit_results ?ctx" "exec_select_all ?ctx = exec_select_all ctx" "select_idx ?ctx = select_idx ctx"
    using Cons.prems(1) by (simp_all add: emit_selected_row_def Let_def)
  ultimately show ?case using Cons by simp
qed simp

text \<open>
  C34. SELECT of the command line engine on a table in memory whose indexes and rows agree. Whatever index it chooses, a key
  lookup, a unique lookup, a range of either, or the scan, it shows exactly the rows of the table that a scan with all
  conditions would find, each as often, counts them, and leaves rows and indexes as they were. The columns have to exist, values
  for the key have to be integers, and values for a unique column must not be empty.
\<close>

theorem cli_select_correct:
  assumes "table_ok f l m" "\<not> cache_truncated l" "list_all (row_fits l) (table_rows l)"
    and "list_all (condition_fits l) (where_conditions st)" "key_values_ok l st"
    and "select_all st \<or> list_all (\<lambda>n. get_col_idx l n \<noteq> None) (select_cols st)"
  shows "\<exists>rs ctx l'. execute_select_internal l st True = Some (Inr (int (length rs), ctx), l') \<and> table_ok f l' m \<and>
    mset rs = mset (filter (\<lambda>r. row_fields_match_statement l st (parse_csv_row r)) (table_rows l)) \<and>
    printed ctx = concat (map (shown_row l st) rs)"
proof -
  let ?idx = "if select_all st then [] else map (\<lambda>n. the (get_col_idx l n)) (select_cols st)"
  let ?ctx = "\<lparr>select_idx = ?idx, exec_select_all = select_all st, emit_results = True, matched_rows = 0, printed = []\<rparr>"
  have m: "slot_text (l_store l) = m" using assms(1) by (simp add: table_ok_def)
  have ok: "selectable f l m st" using assms(1-4) set_table_rows [of l] m by (simp add: selectable_def list_all_iff)
  have "(if select_all st then Some [] else select_indices l (select_cols st)) = Some ?idx" using assms(6) select_indices_all [of l] by auto
  then obtain rs l' where rs: "mset rs = mset (selects l st (table_rows l))" "table_ok f l' m"
    "execute_select_internal l st True = done_select l' (fold emit_selected_row rs ?ctx)"
    using cli_select_ok [OF ok assms(5)] unfolding selected_def by blast
  have "selects l st (table_rows l) = filter (\<lambda>r. row_fields_match_statement l st (parse_csv_row r)) (table_rows l)"
    unfolding selects_def using assms(3,4) matches_fields by (intro filter_cong) (auto simp: list_all_iff)
  moreover have "printed (fold emit_selected_row rs ?ctx) = concat (map (shown_row l st) rs)"
    using emit_prints [of ?ctx st l rs] assms(6) by auto
  ultimately show ?thesis using rs emit_counts [of rs ?ctx] by (auto simp: done_select_def)
qed

definition ids_to_8 :: statement where
  "ids_to_8 = select_where [\<lparr>cond_type = WHERE_BETWEEN, cond_col = ''id'', cond_val = ''1'', cond_end_val = ''8''\<rparr>]"

text \<open>Conditions look at the columns of a table only.\<close>

lemma same_schema:
  assumes "l_cols l = l_cols l'" "l_pk l = l_pk l'" "l_uks l = l_uks l'"
  shows "row_fits l = row_fits l'" "condition_fits l = condition_fits l'" "key_values_ok l = key_values_ok l'"
    "row_fields_match_statement l = row_fields_match_statement l'"
proof -
  have c: "condition_column_index l = condition_column_index l'" using assms by (simp add: fun_eq_iff condition_column_index_def get_col_idx_def)
  then show "condition_fits l = condition_fits l'" "key_values_ok l = key_values_ok l'" using assms by (auto simp: fun_eq_iff condition_fits_def key_values_ok_def split: option.split)
  show "row_fits l = row_fits l'" using assms by (simp add: fun_eq_iff row_fits_def)
  have "compare_range_value l = compare_range_value l'" using assms by (simp add: fun_eq_iff compare_range_value_def)
  then have "field_matches l = field_matches l'" using c by (simp only: field_matches_def [abs_def])
  then show "row_fields_match_statement l = row_fields_match_statement l'" by (simp only: row_fields_match_statement_def [abs_def])
qed

theorem cli_select_correct_witness:
  "\<exists>ctx l'. execute_select_internal kims_table ids_to_8 True = Some (Inr (1, ctx), l') \<and> printed ctx = ''7,kim,20'' @ [LF]"
proof -
  let ?l = kims_table and ?e = "empty_table [] people"
  have k: "table_ok (write_table_header people @ lines_text kims) ?l (rows_map kims)" "l_cols ?l = people" "table_rows ?l = kims" "\<not> cache_truncated ?l"
    using kims_loaded by auto
  have "l_cols ?l = l_cols ?e" "l_pk ?l = l_pk ?e" "l_uks ?l = l_uks ?e"
    using k by (auto simp: empty_table_def ensure_uk_indexes_def table_ok_def cli_schema_ok_def)
  note same = same_schema [OF this]
  have "list_all (row_fits ?e) kims" "list_all (condition_fits ?e) (where_conditions ids_to_8)" "key_values_ok ?e ids_to_8" "select_all ids_to_8"
    "filter (\<lambda>r. row_fields_match_statement ?e ids_to_8 (parse_csv_row r)) kims = [''7,kim,20'']" by code_simp+
  then show ?thesis using cli_select_correct [of _ ?l _ ids_to_8, OF k(1,4)] k(3) by (auto simp: same shown_row_def)
qed

end
