(* ===== verification/Legacy_Delete_Correct.thy ===== *)
theory Legacy_Delete_Correct
  imports Legacy_Delete Legacy_Select_Props
begin

text \<open>DELETE of a row that an index finds: the keys of the row leave the trees, and its slot is free.\<close>

subsection \<open>The trees\<close>

lemma pk_entries_gone:
  assumes "tree_for t (pk_entries p m)" "m i = Some r" "row_key p r = Some k"
  shows "{e \<in> pk_entries p m. fst e \<noteq> k} = pk_entries p (m(i := None))"
proof -
  have i: "(k, i) \<in> pk_entries p m" using assms(2,3) by (simp add: pk_entries_def)
  have "fst e = k \<longleftrightarrow> snd e = i" if "e \<in> pk_entries p m" for e
    using that tree_for_unique [OF assms(1) _ i, of "snd e"] pk_entries_fun [OF _ i, of "fst e"] by (cases e) auto
  then have "{e \<in> pk_entries p m. fst e \<noteq> k} = {e \<in> pk_entries p m. snd e \<noteq> i}" by blast
  also have "\<dots> = pk_entries p (m(i := None))" by (auto simp: pk_entries_def)
  finally show ?thesis .
qed

lemma uk_entries_gone:
  assumes "tree_for t (uk_entries c m)" "m i = Some r" "row_uk r c \<noteq> []"
  shows "{e \<in> uk_entries c m. fst e \<noteq> row_uk r c} = uk_entries c (m(i := None))"
proof -
  have i: "(row_uk r c, i) \<in> uk_entries c m" using assms(2,3) by (simp add: uk_entries_def)
  have "fst e = row_uk r c \<longleftrightarrow> snd e = i" if "e \<in> uk_entries c m" for e
    using that tree_for_unique [OF assms(1) _ i, of "snd e"] uk_entries_fun [OF _ i, of "fst e"] by (cases e) auto
  then have "{e \<in> uk_entries c m. fst e \<noteq> row_uk r c} = {e \<in> uk_entries c m. snd e \<noteq> i}" by blast
  also have "\<dots> = uk_entries c (m(i := None))" by (auto simp: uk_entries_def)
  finally show ?thesis .
qed

lemma drop_uks_row:
  assumes "\<forall>u<n. uk_for (uk_indexes l ! u) (uk_entries (l_uks l ! u) (if u < k then m(i := None) else m))"
    and "length (uk_indexes l) = n" "length (l_uks l) = n" "k \<le> n" "m i = Some r"
  shows "\<exists>ix. drop_uks l r [k..<n] = Some (True, l\<lparr>uk_indexes := ix\<rparr>) \<and> length ix = n \<and> (\<forall>u<n. uk_for (ix ! u) (uk_entries (l_uks l ! u) (m(i := None))))"
  using assms
proof (induction "n - k" arbitrary: k l)
  case 0
  then show ?case by (auto intro!: exI [of _ "uk_indexes l"])
next
  case (Suc d)
  then have kn: "k < n" by simp
  let ?c = "l_uks l ! k" and ?m = "m(i := None)"
  obtain t where t: "uk_indexes l ! k = Index t" "tree_for t (uk_entries ?c m)" using Suc.prems(1) kn by (auto simp: uk_for_def)
  show ?case
  proof (cases "row_uk r ?c = []")
    case True
    have "uk_entries ?c ?m = uk_entries ?c m" using True Suc.prems(5) by (auto simp: uk_entries_def split: if_splits)
    then have "\<forall>u<n. uk_for (uk_indexes l ! u) (uk_entries (l_uks l ! u) (if u < Suc k then ?m else m))"
      using Suc.prems(1) t by (auto simp: uk_for_def less_Suc_eq)
    then show ?thesis using Suc.hyps(1) [of "Suc k" l] Suc.prems Suc.hyps(2) kn True by (simp add: upt_conv_Cons)
  next
    case False
    have "row_uk r ?c \<in> fst ` uk_entries ?c m" using False Suc.prems(5) by (force simp: uk_entries_def)
    then obtain t' where t': "bptree_string_delete t (row_uk r ?c) = Some (True, t')" "tree_for t' (uk_entries ?c ?m)"
      using uk_remove [OF t(2) False] uk_entries_gone [OF t(2) Suc.prems(5) False] by auto
    let ?l = "l\<lparr>uk_indexes := (uk_indexes l)[k := Index t']\<rparr>"
    have "drop_uk l k (row_uk r ?c) = Some (True, ?l)" using t(1) t'(1) by (simp add: drop_uk_def)
    then have step: "drop_uks l r [k..<n] = drop_uks ?l r [Suc k..<n]" using kn False by (simp add: upt_conv_Cons)
    have "\<forall>u<n. uk_for (uk_indexes ?l ! u) (uk_entries (l_uks ?l ! u) (if u < Suc k then ?m else m))"
      using Suc.prems(1,2) t'(2) kn by (auto simp: uk_for_def less_Suc_eq nth_list_update)
    then have "\<exists>ix. drop_uks ?l r [Suc k..<n] = Some (True, ?l\<lparr>uk_indexes := ix\<rparr>) \<and> length ix = n \<and>
        (\<forall>u<n. uk_for (ix ! u) (uk_entries (l_uks ?l ! u) ?m))"
      using Suc.hyps(1) [of "Suc k" ?l] Suc.prems Suc.hyps(2) kn by simp
    then show ?thesis unfolding step by simp
  qed
qed

lemma unindex_row:
  assumes ok: "indexes_ok l m" "m i = Some r" and p: "l_pk l = Some p"
  obtains k t ix where "row_key p r = Some k" "drop_key l k = Some (True, l\<lparr>id_index := t\<rparr>)"
    "remove_record_uk_indexes (l\<lparr>id_index := t\<rparr>) r = Some (True, l\<lparr>id_index := t, uk_indexes := ix\<rparr>)"
    "indexes_ok (l\<lparr>id_index := t, uk_indexes := ix\<rparr>) (m(i := None))"
proof -
  have tree: "tree_for (id_index l) (pk_entries p m)" "\<forall>row\<in>ran m. row_key p row \<noteq> None" using ok(1) p by (auto simp: indexes_ok_def)
  have "row_key p r \<noteq> None" using tree(2) ranI [of m i r] ok(2) by blast
  then obtain k where k: "row_key p r = Some k" by blast
  then have "k \<in> fst ` pk_entries p m" using ok(2) by (force simp: pk_entries_def)
  then obtain t where t: "bptree_delete (id_index l) k = Some (True, t)" "tree_for t (pk_entries p (m(i := None)))"
    using pk_remove [OF tree(1), of k] pk_entries_gone [OF tree(1) ok(2) k] by auto
  let ?l = "l\<lparr>id_index := t\<rparr>"
  have ens: "ensure_uk_indexes ?l = ?l" using indexes_Index [OF ok(1)] by (intro ensure_uk_id) simp
  obtain ix where ix: "remove_record_uk_indexes ?l r = Some (True, ?l\<lparr>uk_indexes := ix\<rparr>)" "length ix = length (l_uks l)"
    "\<forall>u<length (l_uks l). uk_for (ix ! u) (uk_entries (l_uks l ! u) (m(i := None)))"
  proof (cases "l_uks l = []")
    case True
    then show ?thesis using that [of "[]"] ok by (simp add: remove_record_uk_indexes_def indexes_ok_def)
  next
    case False
    have "\<exists>ix. drop_uks ?l r [0..<length (l_uks l)] = Some (True, ?l\<lparr>uk_indexes := ix\<rparr>) \<and> length ix = length (l_uks l) \<and>
        (\<forall>u<length (l_uks l). uk_for (ix ! u) (uk_entries (l_uks ?l ! u) (m(i := None))))"
      by (rule drop_uks_row) (use ok in \<open>auto simp: indexes_ok_def\<close>)
    then show ?thesis using that False ens by (auto simp: remove_record_uk_indexes_def)
  qed
  have "ran (m(i := None)) \<subseteq> ran m" by (auto simp: ran_def)
  then have "indexes_ok (l\<lparr>id_index := t, uk_indexes := ix\<rparr>) (m(i := None))" using ix(2,3) t(2) tree(2) p by (auto simp: indexes_ok_def)
  moreover have "drop_key l k = Some (True, ?l)" using t(1) by (simp add: drop_key_def)
  ultimately show ?thesis using that [OF k] ix(1) by simp
qed

subsection \<open>The slot\<close>

lemma push_free: "\<exists>cap. push_free_slot tc i = tc\<lparr>free_capacity := cap, free_slots := free_slots tc @ [i]\<rparr>"
proof (cases "length (free_slots tc) + 1 \<le> free_capacity tc")
  case True
  then have "push_free_slot tc i = tc\<lparr>free_capacity := free_capacity tc, free_slots := free_slots tc @ [i]\<rparr>"
    by (simp add: push_free_slot_def ensure_free_slot_capacity_def)
  then show ?thesis ..
qed (auto simp: push_free_slot_def ensure_free_slot_capacity_def Let_def)

lemma store_update_order: "tc\<lparr>active_count := a, slots := s, cached_record_count := n\<rparr> = tc\<lparr>slots := s, cached_record_count := n, active_count := a\<rparr>"
  by (cases tc) simp

lemma clear_slot_ok:
  assumes ok: "store_ok f (l_store l)" "slot_text (l_store l) (int i) = Some r"
  shows "\<exists>tc. clear_slot i (set_inactive i l) = Some (l\<lparr>l_store := tc\<rparr>) \<and> store_ok f tc \<and> slot_text tc = (slot_text (l_store l))(int i := None) \<and>
    append_offset tc = append_offset (l_store l) \<and> record_count tc = record_count (l_store l)"
proof -
  let ?tc = "l_store l"
  let ?s = "(slots ?tc ! i)\<lparr>record_active := False, rec := None, row_cached := False, row_cache_seq := 0, store_of := ROW_STORE_NONE,
      row_offset := 0, ref_store := ROW_STORE_NONE, ref_offset := 0\<rparr>"
  let ?tc1 = "?tc\<lparr>slots := (slots ?tc)[i := ?s], cached_record_count := uncount (slots ?tc ! i) ?tc, active_count := active_count ?tc - 1\<rparr>"
  have act: "slot_is_active ?tc (int i)" by (rule slot_text_active [OF ok(2)])
  have i: "i < length (slots ?tc)" "i < record_count ?tc" "record_active (slots ?tc ! i)" using active_bound [OF ok(1) act] act by (auto simp: slot_is_active_def)
  have s: "slot_ok f ?s" "\<not> row_cached ?s" "\<not> record_active ?s" by (simp_all add: slot_ok_def)
  have ok1: "store_ok f ?tc1" "slot_text ?tc1 = (slot_text ?tc)(int i := None)"
    using set_slot_ok [OF ok(1) i(2) s(1,2), of "active_count ?tc - 1"] s(3) by simp_all
  have nf: "i \<notin> set (free_slots ?tc)" using ok(1) i by (auto simp: store_ok_def)
  let ?tc2 = "push_free_slot ?tc1 i"
  obtain cap where tc2: "?tc2 = ?tc1\<lparr>free_capacity := cap, free_slots := free_slots ?tc @ [i]\<rparr>"
    using push_free [of ?tc1 i] by auto
  have "clear_slot i (set_inactive i l) = Some (l\<lparr>l_store := ?tc2\<rparr>)"
    using i(1) by (simp add: clear_slot_def set_inactive_def uncount_def store_update_order Let_def)
  moreover have "store_ok f ?tc2" using ok1(1) nf i unfolding tc2 by (auto simp: store_ok_def cached_slots_def)
  moreover have "slot_text ?tc2 = slot_text ?tc1" unfolding tc2 by (rule ext) (simp add: slot_text_def slot_is_active_def)
  moreover have "append_offset ?tc2 = append_offset ?tc" "record_count ?tc2 = record_count ?tc" unfolding tc2 by simp_all
  ultimately show ?thesis using ok1(2) by (intro exI [of _ ?tc2]) simp
qed

subsection \<open>The statement\<close>

text \<open>The table after the row in slot \<open>i\<close> was removed, and the log.\<close>

lemma delete_logged_ok:
  assumes ok: "table_ok f l m" "m (int i) = Some r" and ix: "indexes_ok (l\<lparr>id_index := t, uk_indexes := ix\<rparr>) (m(int i := None))"
    and key: "key = Some k \<or> key = None \<and> get_row_pk_value l r = Some k" and pk: "l_pk l \<noteq> None"
    and n: "delta_ops_since_compact_check d + 1 < DELTA_COMPACT_CHECK_INTERVAL" "\<not> cache_truncated l"
  shows "\<exists>l' d'. delete_logged (l\<lparr>id_index := t, uk_indexes := ix\<rparr>) d i r key = Some (Inr 1, l', d') \<and> table_ok f l' (m(int i := None)) \<and>
    delta_text d' = delta_text (append_delta_delete_key d k)"
proof -
  let ?l = "l\<lparr>id_index := t, uk_indexes := ix\<rparr>" and ?d = "append_delta_delete_key d k"
  have st: "store_ok f (l_store ?l)" "slot_text (l_store ?l) (int i) = Some r" "slot_text (l_store l) = m" using ok by (auto simp: table_ok_def)
  obtain tc where tc: "clear_slot i (set_inactive i ?l) = Some (?l\<lparr>l_store := tc\<rparr>)" "store_ok f tc" "slot_text tc = m(int i := None)"
    "append_offset tc = append_offset (l_store l)" using clear_slot_ok [OF st(1,2)] st(3) by auto
  have d: "delta_ops_since_compact_check ?d = delta_ops_since_compact_check d"
    by (simp add: append_delta_delete_key_def begin_delta_batch_def delta_print_def)
  have log: "(case key of Some k \<Rightarrow> (True, append_delta_delete_key d k) | None \<Rightarrow> append_delta_delete_one (set_inactive i ?l) d r i) = (True, ?d)"
    using key pk by (auto simp: append_delta_delete_one_def get_row_pk_value_def set_inactive_def)
  have "maybe_compact_delta_log (set_inactive i ?l) ?d = Some (True, set_inactive i ?l, ?d\<lparr>delta_ops_since_compact_check := delta_ops_since_compact_check ?d + 1\<rparr>)"
    using n d by (simp add: maybe_compact_delta_log_def Let_def set_inactive_def)
  moreover have "table_ok f (?l\<lparr>l_store := tc\<rparr>) (m(int i := None))" using ok(1) ix tc by (auto simp: table_ok_def)
  ultimately show ?thesis using log tc(1) by (simp add: delete_logged_def)
qed

text \<open>The row that the chosen condition finds is the only one that can match.\<close>

lemma lookup_row_ok:
  assumes ok: "selectable f l m st" and c: "c \<in> set (where_conditions st)" "condition_column_index l c = Some col" "cond_type c = WHERE_EQ"
    and how: "l_pk l = Some col \<or> l_pk l \<noteq> Some col \<and> get_uk_slot l col = Some u"
  obtains (absent) "lookup_row l (l_pk l = Some col) col c = (Absent, l)" "\<And>i q. m i = Some q \<Longrightarrow> \<not> row_matches_statement l st q"
  | (found) r t where "lookup_row l (l_pk l = Some col) col c = (Found r, l)" "m r = Some t" "\<And>i q. m i = Some q \<Longrightarrow> row_matches_statement l st q \<Longrightarrow> i = r"
      "l_pk l = Some col \<Longrightarrow> parse_long_value (Some (cond_val c)) \<noteq> None \<and> row_key col t = parse_long_value (Some (cond_val c))"
      "l_pk l \<noteq> Some col \<Longrightarrow> row_uk t col = normalize_value RECORD_SIZE (Some (cond_val c))"
proof (cases "l_pk l = Some col")
  case pk: True
  have tok: "table_ok f l m" using ok by (simp add: selectable_def)
  have tree: "tree_for (id_index l) (pk_entries col m)" "\<forall>row\<in>ran m. row_key col row \<noteq> None" using tok pk by (auto simp: table_ok_def indexes_ok_def)
  have key: "row_key col q = parse_long_value (Some (cond_val c))" if "m i = Some q" "row_matches_statement l st q" for i q
    using match_condition [OF ok that c(1)] eq_key(1) [of l q c col] c by auto
  show ?thesis
  proof (cases "parse_long_value (Some (cond_val c))")
    case None
    then have "\<not> row_matches_statement l st q" if "m i = Some q" for i q using key [OF that] tree(2) ranI [of m i q, OF that] by auto
    then show ?thesis using absent None pk by (simp add: lookup_row_def find_pk_row_def)
  next
    case (Some k)
    show ?thesis
    proof (cases "bptree_search (id_index l) k")
      case (Found r)
      then have r: "(k, r) \<in> pk_entries col m" using pk_search(1) [OF tree(1)] by simp
      then obtain t where t: "m r = Some t" "row_key col t = Some k" by (auto simp: pk_entries_def)
      then have "slot_is_active (l_store l) r" using tok slot_text_active [of "l_store l" r t] by (simp add: table_ok_def)
      moreover have "i = r" if "m i = Some q" "row_matches_statement l st q" for i q
        using tree_for_unique [OF tree(1) _ r, of i] key [OF that] Some that(1) by (simp add: pk_entries_def)
      ultimately show ?thesis using found [of r t] t Some Found pk by (simp add: lookup_row_def find_pk_row_def)
    next
      case Absent
      then have "k \<notin> fst ` pk_entries col m" using pk_search(2) [OF tree(1)] by simp
      then have "\<not> row_matches_statement l st q" if "m i = Some q" for i q using key [OF that] Some that by (force simp: pk_entries_def)
      then show ?thesis using absent Absent Some pk by (simp add: lookup_row_def find_pk_row_def)
    qed (use pk_search(3) [OF tree(1)] in simp)
  qed
next
  case pk: False
  then have uk: "get_uk_slot l col = Some u" using how by simp
  let ?k = "normalize_value RECORD_SIZE (Some (cond_val c))"
  have tok: "table_ok f l m" using ok by (simp add: selectable_def)
  obtain t where t: "uk_indexes l ! u = Index t" "tree_for t (uk_entries col m)" "ensure_uk_indexes l = l" "col \<in> set (l_uks l)" by (rule uk_tree [OF tok uk])
  have fit: "condition_fits l c" using ok c(1) by (auto simp: selectable_def list_all_iff)
  then have ne: "?k \<noteq> []" using c(2) t(4) by (simp add: condition_fits_def)
  have key: "(?k, i) \<in> uk_entries col m" if "m i = Some q" "row_matches_statement l st q" for i q
    using match_condition [OF ok that c(1)] eq_key(2) [of l q c col] c that(1) fit ne by (auto simp: uk_entries_def condition_fits_def)
  show ?thesis
  proof (cases "bptree_string_search t ?k")
    case (Found r)
    then have r: "(?k, r) \<in> uk_entries col m" using uk_search(1) [OF t(2)] by simp
    then obtain q where q: "m r = Some q" "row_uk q col = ?k" by (auto simp: uk_entries_def)
    then have "slot_is_active (l_store l) r" using tok slot_text_active [of "l_store l" r q] by (simp add: table_ok_def)
    moreover have "i = r" if "m i = Some q" "row_matches_statement l st q" for i q using tree_for_unique [OF t(2) key [OF that] r] .
    ultimately show ?thesis using found [of r q] q Found uk t(1,3) ne pk by (simp add: lookup_row_def find_uk_row_def unique_index_find_def Let_def)
  next
    case Absent
    then have "?k \<notin> fst ` uk_entries col m" using uk_search(2) [OF t(2)] by simp
    then have "\<not> row_matches_statement l st q" if "m i = Some q" for i q using key [OF that] by force
    then show ?thesis using absent Absent uk t(1,3) ne pk by (simp add: lookup_row_def find_uk_row_def unique_index_find_def Let_def)
  qed (use uk_search(3) [OF t(2)] in simp)
qed

subsection \<open>Deleting\<close>

definition without :: "ltable \<Rightarrow> statement \<Rightarrow> (int \<Rightarrow> string option) \<Rightarrow> int \<Rightarrow> string option" where
  "without l st m i = (case m i of None \<Rightarrow> None | Some r \<Rightarrow> if row_matches_statement l st r then None else Some r)"

lemma without_none: "(\<And>i q. m i = Some q \<Longrightarrow> \<not> row_matches_statement l st q) \<Longrightarrow> without l st m = m"
  by (auto simp: without_def fun_eq_iff split: option.splits)

lemma without_one: "m r = Some t \<Longrightarrow> row_matches_statement l st t \<Longrightarrow> (\<And>i q. m i = Some q \<Longrightarrow> row_matches_statement l st q \<Longrightarrow> i = r) \<Longrightarrow> without l st m = m(r := None)"
proof (rule ext)
  fix i
  assume a: "m r = Some t" "row_matches_statement l st t" "\<And>i q. m i = Some q \<Longrightarrow> row_matches_statement l st q \<Longrightarrow> i = r"
  show "without l st m i = (m(r := None)) i"
  proof (cases "i = r")
    case False
    then have "\<not> row_matches_statement l st q" if "m i = Some q" for q using a(3) [OF that] by blast
    then show ?thesis using False by (auto simp: without_def split: option.split)
  qed (use a(1,2) in \<open>simp add: without_def\<close>)
qed

lemma unique_slots: "distinct (l_uks l) \<Longrightarrow> map (\<lambda>col. case get_uk_slot l col of Some u \<Rightarrow> u | None \<Rightarrow> 0) (l_uks l) = [0..<length (l_uks l)]"
proof (rule nth_equalityI)
  assume d: "distinct (l_uks l)"
  fix u assume "u < length (map (\<lambda>col. case get_uk_slot l col of Some u \<Rightarrow> u | None \<Rightarrow> 0) (l_uks l))"
  then have u: "u < length (l_uks l)" by simp
  have "get_uk_slot l (l_uks l ! u) = Some u"
  proof (cases "get_uk_slot l (l_uks l ! u)")
    case None
    then show ?thesis using index_from_None [of 0 _ "l_uks l"] u by (auto simp: get_uk_slot_def)
  next
    case (Some v)
    then have "v < length (l_uks l)" "l_uks l ! v = l_uks l ! u" using index_from_Some [of 0 _ "l_uks l" v] by (auto simp: get_uk_slot_def)
    then show ?thesis using d u Some by (simp add: nth_eq_iff_index_eq)
  qed
  then show "map (\<lambda>col. case get_uk_slot l col of Some u \<Rightarrow> u | None \<Rightarrow> 0) (l_uks l) ! u = [0..<length (l_uks l)] ! u" using u by simp
qed simp

lemma remove_found_ok:
  assumes ok: "indexes_ok l m" "m i = Some r" "l_pk l = Some p" "cli_schema_ok l"
    and key: "key = None \<or> key = row_key p r"
  obtains t ix where "remove_found l r j key = Some (True, l\<lparr>id_index := t, uk_indexes := ix\<rparr>)" "indexes_ok (l\<lparr>id_index := t, uk_indexes := ix\<rparr>) (m(i := None))"
proof -
  obtain k t ix where t: "row_key p r = Some k" "drop_key l k = Some (True, l\<lparr>id_index := t\<rparr>)"
    "remove_record_uk_indexes (l\<lparr>id_index := t\<rparr>) r = Some (True, l\<lparr>id_index := t, uk_indexes := ix\<rparr>)"
    "indexes_ok (l\<lparr>id_index := t, uk_indexes := ix\<rparr>) (m(i := None))" by (rule unindex_row [OF ok(1-3)])
  have "distinct (l_uks l)" using ok(4) by (simp add: cli_schema_ok_def unique_columns_def)
  then have u: "map (\<lambda>col. case get_uk_slot (l\<lparr>id_index := t\<rparr>) col of Some u \<Rightarrow> u | None \<Rightarrow> 0) (l_uks l) = [0..<length (l_uks l)]"
    using unique_slots [of "l\<lparr>id_index := t\<rparr>"] by simp
  have "remove_record_indexes l r j = Some (True, l\<lparr>id_index := t, uk_indexes := ix\<rparr>)"
    using t(1-3) ok(3) u by (auto simp: remove_record_indexes_def row_key_def remove_record_uk_indexes_def split: if_splits)
  then have "remove_found l r j key = Some (True, l\<lparr>id_index := t, uk_indexes := ix\<rparr>)" using key t(1-3) by (auto simp: remove_found_def)
  then show ?thesis using that t(4) by blast
qed

text \<open>
  A statement with nothing but a condition on the key should spell the key as the rows do. The lookup compares numbers, the test of
  the row that was found compares texts.
\<close>

definition spelled_alike :: "ltable \<Rightarrow> statement \<Rightarrow> string list \<Rightarrow> bool" where
  "spelled_alike l st rs \<longleftrightarrow>
     (case (where_conditions st, l_pk l) of
        ([c], Some p) \<Rightarrow> condition_column_index l c = Some p \<longrightarrow>
          list_all (\<lambda>r. row_key p r = parse_long_value (Some (cond_val c)) \<longrightarrow> row_field_equals r p (cond_val c)) rs
      | _ \<Rightarrow> True)"

lemma single_match:
  assumes "where_conditions st = [c]" "condition_column_index l c = Some col" "cond_type c = WHERE_EQ"
  shows "row_matches_statement l st r = row_field_equals r col (cond_val c)"
  using assms by (simp add: row_matches_statement_def)

text \<open>A row that was found under its unique value matches a statement with that condition only.\<close>

lemma unique_matches:
  assumes ok: "row_fits l r" "condition_fits l c" and c: "where_conditions st = [c]" "condition_column_index l c = Some col" "cond_type c = WHERE_EQ"
    and u: "row_uk r col = normalize_value RECORD_SIZE (Some (cond_val c))"
  shows "row_matches_statement l st r"
proof -
  obtain v where v: "field_at (parse_csv_row r) col = Some v" "length v < 256" using row_cell [OF ok(1) c(2)] by blast
  have "normalize_value 256 (Some v) = normalize_value 256 (Some (cond_val c))"
    using u v norm_short [of v] norm_short [of "cond_val c"] ok(2) by (simp add: row_uk_def condition_fits_def)
  then have "field_matches l (parse_csv_row r) c" using v c by (simp add: field_matches_def compare_value_def)
  then show ?thesis using matches_fields [OF ok(1), of st] ok(2) c(1) by (simp add: row_fields_match_statement_def)
qed

lemma select_count:
  assumes "selectable f l m st" "distinct is" "\<forall>i\<in>set is. m i \<noteq> None" "\<And>i r. m i = Some r \<Longrightarrow> row_matches_statement l st r \<Longrightarrow> i \<in> set is"
  shows "length (selects l st (table_rows l)) = length (selects l st (map (\<lambda>i. the (m i)) is))"
proof -
  have m: "slot_text (l_store l) = m" using assms(1) by (simp add: selectable_def table_ok_def)
  have "0 \<le> i \<and> i < int (record_count (l_store l))" if "m i \<noteq> None" for i
    using that m slot_text_active [of "l_store l" i] by (auto simp: slot_is_active_def)
  then have "mset (selects l st (map (\<lambda>i. the (m i)) is)) = mset (selects l st (table_rows l))"
    unfolding selects_def table_rows_def m by (intro slots_cover [OF assms(2-4)])
  then show ?thesis by (metis size_mset)
qed

text \<open>Whether the row that was found matches.\<close>

lemma found_matches:
  assumes ok: "selectable f l m st" "m r = Some t" and c: "where_conditions st = [c]" "condition_column_index l c = Some col" "cond_type c = WHERE_EQ"
    and sp: "spelled_alike l st (table_rows l)"
    and pk: "l_pk l = Some col \<Longrightarrow> row_key col t = parse_long_value (Some (cond_val c))"
    and uk: "l_pk l \<noteq> Some col \<Longrightarrow> row_uk t col = normalize_value RECORD_SIZE (Some (cond_val c))"
  shows "row_matches_statement l st t"
proof (cases "l_pk l = Some col")
  case True
  have "t \<in> set (table_rows l)" using ok set_table_rows [of l] ranI [of m r t] by (simp add: selectable_def table_ok_def)
  then show ?thesis using sp True c pk by (simp add: single_match spelled_alike_def list_all_iff)
next
  case False
  have "row_fits l t" "condition_fits l c" using ok c(1) ranI [of m r t] by (auto simp: selectable_def)
  then show ?thesis using unique_matches [OF _ _ c] uk [OF False] by simp
qed

lemma delete_single_ok:
  assumes ok: "selectable f l m st" and c: "c \<in> set (where_conditions st)" "condition_column_index l c = Some col" "cond_type c = WHERE_EQ"
    and how: "l_pk l = Some col \<or> l_pk l \<noteq> Some col \<and> get_uk_slot l col = Some u"
    and sp: "spelled_alike l st (table_rows l)" and n: "delta_ops_since_compact_check d + 1 < DELTA_COMPACT_CHECK_INTERVAL"
  shows "\<exists>l' d'. delete_single_row l d st col c (l_pk l = Some col) = Some (Inr (int (length (selects l st (table_rows l)))), l', d') \<and> table_ok f l' (without l st m)"
proof (rule lookup_row_ok [OF ok c how])
  assume "lookup_row l (l_pk l = Some col) col c = (Absent, l)" and none: "\<And>i q. m i = Some q \<Longrightarrow> \<not> row_matches_statement l st q"
  then show ?thesis using ok without_none [OF none] select_count [OF ok, of "[]"] by (auto simp: delete_single_row_def Let_def selectable_def selects_def)
next
  fix r t
  assume look: "lookup_row l (l_pk l = Some col) col c = (Found r, l)" and t: "m r = Some t"
    and only: "\<And>i q. m i = Some q \<Longrightarrow> row_matches_statement l st q \<Longrightarrow> i = r"
    and pk: "l_pk l = Some col \<Longrightarrow> parse_long_value (Some (cond_val c)) \<noteq> None \<and> row_key col t = parse_long_value (Some (cond_val c))"
    and uk: "l_pk l \<noteq> Some col \<Longrightarrow> row_uk t col = normalize_value RECORD_SIZE (Some (cond_val c))"
  have tok: "table_ok f l m" "\<not> cache_truncated l" "slot_text (l_store l) = m" "store_ok f (l_store l)" using ok by (auto simp: selectable_def table_ok_def)
  have r: "int (nat r) = r" using slot_text_active [of "l_store l" r t] t tok(3) by (simp add: slot_is_active_def)
  obtain tc where tc: "slot_row (l_store l) r = (Some t, tc)" "table_ok f (l\<lparr>l_store := tc\<rparr>) m"
  proof -
    obtain q tc where s: "slot_row (l_store l) r = (q, tc)" by (cases "slot_row (l_store l) r")
    have "q = Some t" "store_ok f tc" "slot_text tc = m" using slot_row_ok [OF tok(4) s] tok(3) t by auto
    then show ?thesis using that s table_ok_store [OF tok(1), of tc] slot_row_append [of "l_store l" r] by simp
  qed
  let ?l = "l\<lparr>l_store := tc\<rparr>" and ?one = "l_pk l = Some col \<and> length (where_conditions st) = 1 \<and> parse_long_value (Some (cond_val c)) \<noteq> None"
  let ?key = "if ?one then parse_long_value (Some (cond_val c)) else None"
  have cs: "where_conditions st = [c]" if "length (where_conditions st) = 1" using that c(1) by (cases "where_conditions st") auto
  have run: "delete_single_row l d st col c (l_pk l = Some col) =
      (if \<not> row_matches_statement l st t then
         map_option (\<lambda>l3. (Inr 0, l3, d)) (if length (where_conditions st) = 1 then drop_stale ?l (l_pk l = Some col) col c else Some ?l)
       else case remove_found ?l t (nat r) ?key of
           None \<Rightarrow> None
         | Some (False, l3) \<Rightarrow> Some (Inl Index_Removal_Failed, l3, d)
         | Some (True, l3) \<Rightarrow> delete_logged l3 d (nat r) t ?key)"
    using look tc(1) single_match [OF cs c(2,3), of t] by (auto simp: delete_single_row_def Let_def)
  show ?thesis
  proof (cases "row_matches_statement l st t")
    case True
    have w: "without l st m = m(r := None)" by (rule without_one [of m r t l st, OF t True]) (rule only)
    have "i \<in> set [r]" if "m i = Some q" "row_matches_statement l st q" for i q using only [OF that] by simp
    then have "length (selects l st (table_rows l)) = length (selects l st (map (\<lambda>i. the (m i)) [r]))" using t by (intro select_count [OF ok]) auto
    then have len: "length (selects l st (table_rows l)) = 1" using t True by (simp add: selects_def)
    obtain p where p: "l_pk ?l = Some p" "indexes_ok ?l m" "cli_schema_ok ?l" using tc(2) by (auto simp: table_ok_def indexes_ok_def)
    have "row_key p t \<noteq> None" using p(1,2) ranI [of m r t] t by (auto simp: indexes_ok_def)
    then obtain k where k: "row_key p t = Some k" by blast
    have key: "?key = None \<or> ?key = row_key p t" using pk p(1) by auto
    obtain x ix where ix: "remove_found ?l t (nat r) ?key = Some (True, ?l\<lparr>id_index := x, uk_indexes := ix\<rparr>)"
      "indexes_ok (?l\<lparr>id_index := x, uk_indexes := ix\<rparr>) (m(r := None))" by (rule remove_found_ok [OF p(2) t p(1,3) key])
    have "?key = Some k \<or> ?key = None \<and> get_row_pk_value ?l t = Some k" using key k p(1) by (auto simp: get_row_pk_value_def row_key_def)
    then obtain l' d' where "delete_logged (?l\<lparr>id_index := x, uk_indexes := ix\<rparr>) d (nat r) t ?key = Some (Inr 1, l', d')" "table_ok f l' (m(r := None))"
      using delete_logged_ok [OF tc(2), where i = "nat r" and r = t and t = x and ix = ix and key = ?key and k = k and d = d] t r ix(2) p(1) n tok(2) by auto
    then show ?thesis using run True ix(1) w len by simp
  next
    case False
    then have "length (where_conditions st) \<noteq> 1" using found_matches [OF ok t cs c(2,3) sp] pk uk by blast
    moreover have "\<not> row_matches_statement l st q" if "m i = Some q" for i q using only [OF that] that t False by auto
    ultimately show ?thesis using run False tc(2) without_none [of m l st] select_count [OF ok, of "[]"] by (auto simp: selects_def)
  qed
qed

end
