(* ===== verification/Legacy_Delete_Props.thy ===== *)
theory Legacy_Delete_Props
  imports Legacy_Delete_Correct
begin

text \<open>Properties of DELETE in the command line engine.\<close>

text \<open>
  C35. DELETE of the command line engine with an equality on the key or on a unique column, on a table in memory whose indexes and
  rows agree: exactly the rows that match are removed from the slots and from all indexes, which agree again, and the
  number of rows is reported. A statement with nothing but a condition on the key has to spell the key as the rows do, values for a
  unique column are not empty, and the delta log is not compacted by this statement.
\<close>

theorem cli_delete_correct:
  assumes "table_ok f l m" "\<not> cache_truncated l" "list_all (row_fits l) (table_rows l)"
    and "list_all (condition_fits l) (where_conditions st)" "choose_index_condition l st False \<noteq> None"
    and "spelled_alike l st (table_rows l)" "delta_ops_since_compact_check d + 1 < DELTA_COMPACT_CHECK_INTERVAL"
  shows "\<exists>l' d'. execute_delete l d st = Some (Inr (int (length (filter (row_matches_statement l st) (table_rows l)))), l', d') \<and>
    table_ok f l' (\<lambda>i. case m i of None \<Rightarrow> None | Some r \<Rightarrow> if row_matches_statement l st r then None else Some r)"
proof -
  have m: "slot_text (l_store l) = m" using assms(1) by (simp add: table_ok_def)
  have ok: "selectable f l m st" using assms(1-4) set_table_rows [of l] m by (simp add: selectable_def list_all_iff)
  obtain i col where ch: "choose_index_condition l st False = Some (i, col)" using assms(5) by auto
  let ?c = "where_conditions st ! i"
  have c: "?c \<in> set (where_conditions st)" "condition_column_index l ?c = Some col" "condition_score l False ?c col > 0"
    using choose_sound [OF ch] by auto
  have v: "validate_where_columns l st" using assms(4) by (auto simp: validate_where_columns_def condition_fits_def list_all_iff split: option.splits)
  have w: "(\<lambda>i. case m i of None \<Rightarrow> None | Some r \<Rightarrow> if row_matches_statement l st r then None else Some r) = without l st m"
    by (simp add: without_def [abs_def])
  have ne: "where_conditions st \<noteq> []" using c(1) by auto
  show ?thesis
  proof (cases "record_count (l_store l) = 0")
    case True
    then have "m i = None" for i using slot_text_active [of "l_store l" i] m by (cases "m i") (auto simp: slot_is_active_def)
    then have "without l st m = m" by (intro without_none) simp
    moreover have "table_rows l = []" using True by (simp add: table_rows_def)
    ultimately show ?thesis using True v ne assms(1,2) w by (auto simp: execute_delete_def)
  next
    case False
    have eq: "cond_type ?c = WHERE_EQ" "l_pk l = Some col \<or> l_pk l \<noteq> Some col \<and> (\<exists>u. get_uk_slot l col = Some u)"
      using c(3) by (auto simp: condition_score_def split: if_splits)
    then obtain u where "l_pk l = Some col \<or> l_pk l \<noteq> Some col \<and> get_uk_slot l col = Some u" by blast
    then show ?thesis using delete_single_ok [OF ok c(1,2) eq(1) _ assms(6,7)] False v ne assms(2) ch w by (simp add: execute_delete_def selects_def)
  qed
qed

definition delete_where :: "where_condition list \<Rightarrow> statement" where
  "delete_where cs = (empty_statement STMT_DELETE)\<lparr>table_name := ''t'', where_conditions := cs\<rparr>"

definition id_is :: "string \<Rightarrow> where_condition" where
  "id_is v = \<lparr>cond_type = WHERE_EQ, cond_col = ''id'', cond_val = v, cond_end_val = []\<rparr>"

text \<open>The schema of the example table.\<close>

lemma kims_schema:
  "l_cols kims_table = l_cols (empty_table [] people)" "l_pk kims_table = l_pk (empty_table [] people)" "l_uks kims_table = l_uks (empty_table [] people)"
  using kims_loaded by (auto simp: empty_table_def ensure_uk_indexes_def table_ok_def cli_schema_ok_def)

lemma matches_schema:
  assumes "l_cols l = l_cols l'" "l_pk l = l_pk l'"
  shows "row_matches_statement l = row_matches_statement l'" "condition_column_index l = condition_column_index l'"
proof -
  show c: "condition_column_index l = condition_column_index l'" using assms by (simp add: fun_eq_iff condition_column_index_def get_col_idx_def)
  have "compare_range_value l = compare_range_value l'" using assms by (simp add: fun_eq_iff compare_range_value_def)
  then have "field_matches l = field_matches l'" using c by (simp only: field_matches_def [abs_def])
  then have "row_fields_match_statement l = row_fields_match_statement l'" by (simp only: row_fields_match_statement_def [abs_def])
  then show "row_matches_statement l = row_matches_statement l'" using c by (simp only: row_matches_statement_def [abs_def])
qed

lemma choose_schema:
  assumes "l_cols l = l_cols l'" "l_pk l = l_pk l'" "l_uks l = l_uks l'"
  shows "choose_index_condition l st a = choose_index_condition l' st a"
proof -
  have s: "condition_score l = condition_score l'" using assms by (simp add: fun_eq_iff condition_score_def get_uk_slot_def)
  have "choose_from l a i b x cs = choose_from l' a i b x cs" for i b x cs
    by (induction cs arbitrary: i b x) (simp_all add: matches_schema(2) [OF assms(1,2)] s Let_def split: option.split)
  then show ?thesis by (simp add: choose_index_condition_def)
qed

theorem cli_delete_correct_witness:
  "\<exists>l' d' csv. execute_delete kims_table no_delta (delete_where [id_is ''7'']) = Some (Inr 1, l', d') \<and>
     table_ok csv l' (\<lambda>i. case rows_map kims i of None \<Rightarrow> None | Some r \<Rightarrow> if r = ''7,kim,20'' then None else Some r)"
proof -
  let ?l = kims_table and ?e = "empty_table [] people" and ?st = "delete_where [id_is ''7'']"
  have k: "table_ok (write_table_header people @ lines_text kims) ?l (rows_map kims)" "table_rows ?l = kims" "\<not> cache_truncated ?l" using kims_loaded by auto
  note same = same_schema [OF kims_schema] matches_schema [OF kims_schema(1,2)] choose_schema [OF kims_schema]
  have sp: "spelled_alike ?l = spelled_alike ?e" unfolding spelled_alike_def [abs_def] same(6) kims_schema(2) ..
  have "list_all (row_fits ?e) kims" "list_all (condition_fits ?e) (where_conditions ?st)" "choose_index_condition ?e ?st False \<noteq> None"
    "spelled_alike ?e ?st kims" "delta_ops_since_compact_check no_delta + 1 < DELTA_COMPACT_CHECK_INTERVAL"
    and f: "filter (row_matches_statement ?e ?st) kims = [''7,kim,20'']" by code_simp+
  then obtain l' d' where l': "execute_delete ?l no_delta ?st = Some (Inr 1, l', d')"
    "table_ok (write_table_header people @ lines_text kims) l' (\<lambda>i. case rows_map kims i of None \<Rightarrow> None | Some r \<Rightarrow> if row_matches_statement ?e ?st r then None else Some r)"
    using cli_delete_correct [OF k(1,3), of ?st no_delta, unfolded same sp k(2)] by auto
  have "row_matches_statement ?e ?st r \<longleftrightarrow> r = ''7,kim,20''" if "r \<in> set kims" for r
    using that arg_cong [OF f, of set] by auto
  then have "(\<lambda>i. case rows_map kims i of None \<Rightarrow> None | Some r \<Rightarrow> if row_matches_statement ?e ?st r then None else Some r) =
      (\<lambda>i. case rows_map kims i of None \<Rightarrow> None | Some r \<Rightarrow> if r = ''7,kim,20'' then None else Some r)"
    using rows_map_ex [of kims] by (fastforce simp: fun_eq_iff split: option.split)
  then show ?thesis using l' by auto
qed

text \<open>
  A DELETE whose only condition gives the key in another spelling than the row, such as \<open>007\<close> for \<open>7\<close>, deletes nothing and reports no row. But it
  takes the entry of the key index for a stale one and removes it: the row is still in its slot, and the key is
  not found any more.
\<close>

theorem other_spelling_loses_key:
  assumes "table_ok f l m" "\<not> cache_truncated l" "l_pk l = Some p" "where_conditions st = [c]" "condition_column_index l c = Some p"
    and "cond_type c = WHERE_EQ" "parse_long_value (Some (cond_val c)) = Some k" "m i = Some r" "row_key p r = Some k"
    and "\<not> row_field_equals r p (cond_val c)"
  shows "\<exists>l'. execute_delete l d st = Some (Inr 0, l', d) \<and> slot_text (l_store l') = m \<and> find_pk_row l' (show_long k) = Absent"
proof -
  have ok: "store_ok f (l_store l)" "slot_text (l_store l) = m" "indexes_ok l m" using assms(1) by (auto simp: table_ok_def)
  have tree: "tree_for (id_index l) (pk_entries p m)" using ok(3) assms(3) by (auto simp: indexes_ok_def)
  have act: "slot_is_active (l_store l) i" using slot_text_active [of "l_store l" i r] ok(2) assms(8) by simp
  have e: "(k, i) \<in> pk_entries p m" using assms(8,9) by (simp add: pk_entries_def)
  then have key: "k \<in> fst ` pk_entries p m" by (rule image_eqI [rotated]) simp
  have "bptree_search (id_index l) k = Found i" using pk_search(1) [OF tree, of k i] e by simp
  then have look: "lookup_row l True p c = (Found i, l)" using assms(3,7) act by (simp add: lookup_row_def find_pk_row_def)
  obtain q tc where s: "slot_row (l_store l) i = (q, tc)" by (cases "slot_row (l_store l) i")
  have q: "q = Some r" "slot_text tc = m" using slot_row_ok [OF ok(1) s] ok(2) assms(8) by auto
  let ?l = "l\<lparr>l_store := tc\<rparr>"
  obtain t where t: "bptree_delete (id_index l) k = Some (True, t)" "tree_for t {e \<in> pk_entries p m. fst e \<noteq> k}"
    using pk_remove [OF tree, of k] key by auto
  have "drop_stale ?l True p c = Some (?l\<lparr>id_index := t\<rparr>)" using assms(7) t(1) by (simp add: drop_stale_def drop_key_def)
  then have "delete_single_row l d st p c True = Some (Inr 0, ?l\<lparr>id_index := t\<rparr>, d)"
    using look s q(1) assms(4,7,10) by (simp add: delete_single_row_def Let_def)
  moreover have "choose_index_condition l st False = Some (0, p)" using assms(3-6) by (simp add: choose_index_condition_def condition_score_def)
  moreover have "record_count (l_store l) \<noteq> 0" using act by (auto simp: slot_is_active_def)
  ultimately have "execute_delete l d st = Some (Inr 0, ?l\<lparr>id_index := t\<rparr>, d)"
    using assms(2-5) by (simp add: execute_delete_def validate_where_columns_def)
  moreover have "bptree_search t k = Absent" using pk_search(2) [OF t(2), of k] by auto
  moreover have "parse_long_value (Some (show_long k)) = Some k" using parse_long_range [of "Some (cond_val c)" k] assms(7) by (intro parse_long_show) auto
  ultimately show ?thesis using q(2) assms(3) by (simp add: find_pk_row_def)
qed

theorem other_spelling_loses_key_witness:
  "\<exists>l'. execute_delete kims_table no_delta (delete_where [id_is ''007'']) = Some (Inr 0, l', no_delta) \<and>
     slot_text (l_store l') = rows_map kims \<and> find_pk_row l' (show_long 7) = Absent"
proof -
  let ?e = "empty_table [] people" and ?c = "id_is ''007''"
  have "l_pk ?e = Some 0" "condition_column_index ?e ?c = Some 0" "cond_type ?c = WHERE_EQ" "parse_long_value (Some (cond_val ?c)) = Some 7"
    "row_key 0 ''7,kim,20'' = Some 7" "\<not> row_field_equals ''7,kim,20'' 0 (cond_val ?c)" "where_conditions (delete_where [?c]) = [?c]" by code_simp+
  moreover have "rows_map kims 0 = Some ''7,kim,20''" by (simp add: rows_map_def kims_def)
  ultimately show ?thesis using kims_loaded kims_schema(2) matches_schema(2) [OF kims_schema(1,2)]
    by (intro other_spelling_loses_key [where c = ?c and p = 0 and i = 0]) auto
qed

end
