(* ===== verification/Spec2Isabelle.thy ===== *)
theory Spec2Isabelle
  imports Parser_Print Bptree_Build_Correct Table_Props Csv_Props Db_Exec_Props Pool Query_Cache_Props Http_Correct Stats Server_Props Legacy_Recover_Props Legacy_Delete_Props
begin

text \<open>
  \<^bold>\<open>A verification of the SQL server\<close>

  The program is an HTTP server in front of a small SQL database that keeps its tables in CSV files. A request is read from a
  socket (\<open>src/api/srv.c\<close>), given to a route (\<open>src/api/route.c\<close>), which asks the query cache (\<open>src/api/cache/query_cache.c\<close>) or the
  database (\<open>src/db/dbapi.c\<close>), and answered in JSON (\<open>src/api/resp.c\<close>). The database parses a statement (\<open>src/legacy/lexer.c\<close>,
  \<open>parser.c\<close>), runs it on a version of a table that a snapshot of the version clock (\<open>src/db/mvcc.c\<close>) makes visible, finds rows through
  B+ trees (\<open>src/legacy/bptree.c\<close>), and publishes the result of a write as a new version. Connections and parallel reads run
  on thread pools (\<open>src/thr/pool.c\<close>); counters are kept in \<open>src/api/stats/stats.c\<close>; \<open>src/dbsrv.c\<close> configures and starts the server.
  A command line tool has an older engine of its own (\<open>src/legacy/executor.c\<close>) with the same lexer, parser and trees.

  \<^bold>\<open>Theories and code\<close>

  Every theory opens with the conventions of its model. A definition has the name of the C function it translates; a
  loop or a locked region of a function that is a definition of its own is named after it.

  \<^item> \<open>Prelude\<close>: bytes, C strings and their library functions (\<open>strtol\<close>, \<open>strcmp\<close>, \<open>snprintf\<close>), 64-bit integers, shared lemmas.
  \<^item> \<open>Lexer\<close>, \<open>Parser\<close>: \<open>lexer.c\<close> and \<open>parser.c\<close> with the buffer sizes of \<open>types.h\<close>. \<open>Parser_Print\<close>: a printer of statements;
    parsing its output gives the statement back.
  \<^item> \<open>Bptree\<close>, \<open>Bptree_Build\<close>: \<open>bptree.c\<close>, integer and string trees, with the arrays of a node as lists. \<open>Bptree_Correct\<close>,
    \<open>Bptree_Build_Correct\<close>: the invariant of trees and what insertion, deletion, search, range search and bulk loading do to
    the finite map a tree stands for.
  \<^item> \<open>Mvcc\<close>: \<open>mvcc.c\<close> and the interleavings of its operations.
  \<^item> \<open>Values\<close>, \<open>Table\<close>: values, keys, rows, indexes and SELECT, INSERT, UPDATE, DELETE on one version of a table (\<open>dbapi.c\<close>).
    \<open>Table_Index\<close>, \<open>Table_Select\<close>, \<open>Table_Write\<close>, \<open>Table_Props\<close>: rows and indexes agree, reads through an index are full scans,
    writes do exactly what the statement says or fail. \<open>Table_Spec\<close>, \<open>Table_Snap\<close>: statements as functions on the list of rows.
  \<^item> \<open>Csv\<close>, \<open>Csv_Correct\<close>, \<open>Csv_Props\<close>: loading and saving of tables; a saved table loads back.
  \<^item> \<open>Db\<close>: entries of tables, version chains on a heap of addresses, snapshots, transactions, commit, abort, collection,
    retries and batches (\<open>dbapi.c\<close>). \<open>Db_Versions\<close>, \<open>Db_Correct\<close>, \<open>Db_Tx\<close>, \<open>Db_Commit\<close>, \<open>Db_Props\<close>: the invariant of the heap, snapshot
    isolation, atomic commit, what collection may free. \<open>Db_Exec\<close>, \<open>Db_Exec_Props\<close>: a whole statement with its retries refines
    one step on the newest rows of all tables.
  \<^item> \<open>Pool\<close>: the linked queue of \<open>pool.c\<close> on a store, the locked regions as steps, and runs of the pool.
  \<^item> \<open>Query_Cache\<close>, \<open>Query_Cache_Correct\<close>, \<open>Query_Cache_Props\<close>: buckets and the LRU list as arrays of indices; the cache refines a map.
  \<^item> \<open>Resp\<close>, \<open>Json\<close>: growing buffers, JSON writing (\<open>resp.c\<close>) and the JSON and query string readers of \<open>route.c\<close>.
  \<^item> \<open>Stats\<close>: the counters. \<open>Http\<close>, \<open>Http_Correct\<close>: the connection buffer and the request parser of \<open>srv.c\<close>.
  \<^item> \<open>Route\<close>: all handlers of \<open>route.c\<close> over the database, the cache, the statistics and the pools. \<open>Route_Text\<close>, \<open>Route_Codes\<close>: what
    the writers write. \<open>Route_Coherent\<close>: the cache and the database agree in every run. \<open>Route_Props\<close>: its properties.
  \<^item> \<open>Server\<close>, \<open>Server_Correct\<close>, \<open>Server_Props\<close>: the connection loop, the accept loop, the server's life and \<open>dbsrv.c\<close>.
  \<^item> \<open>Legacy_Store\<close>, \<open>Legacy_Store_Correct\<close>, \<open>Legacy_Store_Props\<close>: the row store of the command line engine (\<open>src/legacy/executor.c\<close>)
    with its row and page cache refines a map. \<open>Legacy_Row\<close>, \<open>Legacy_Row_Props\<close>: its rows and conditions. \<open>Legacy_Delta\<close>,
    \<open>Legacy_Delta_Props\<close>: its delta log; a log that was cut gives the complete batches.
  \<^item> \<open>Legacy_Index\<close>: the key and unique indexes of a table of that engine. \<open>Legacy_Insert\<close>: INSERT. \<open>Legacy_Load\<close>, \<open>Legacy_Compact\<close>: loading, replay of
    the delta log, and compaction. \<open>Legacy_Insert_Correct\<close>, \<open>Legacy_Insert_Props\<close>: rows and indexes agree after INSERT.
    \<open>Legacy_Load_Correct\<close>, \<open>Legacy_Load_Props\<close>: a compacted table loads back. \<open>Legacy_Recover_Props\<close>: replay without a snapshot fails.
  \<^item> \<open>Legacy_Select\<close>, \<open>Legacy_Update\<close>, \<open>Legacy_Delete\<close>: SELECT, UPDATE and DELETE of that engine, by an index, by a scan and on a table
    that is only partly in memory. \<open>Legacy_Select_Correct\<close>, \<open>Legacy_Select_Props\<close>: a SELECT through an index is a scan.
    \<open>Legacy_Delete_Correct\<close>, \<open>Legacy_Delete_Props\<close>: a DELETE through an index removes the rows that match and keeps the indexes.

  \<^bold>\<open>Interfaces\<close>

  Where several structures share a contract it is a locale, interpreted on the model's definitions: the queue of the pool, the
  trees over integer and string keys, the cache as a map, and the others declared next to the component that provides them.

  \<^bold>\<open>Effects\<close>

  State is passed explicitly. Memory that the code shares and frees (table versions, nodes of the queue) is a map from
  addresses, and reading a freed address gives \<^const>\<open>None\<close>; the theorems then say that this does not happen, or, where the
  code has a defect, that it does. What the model does not contain is an argument: the answers of the operating system, the clock,
  memory, what other threads do between two steps, and the bytes that arrive on a socket. Interleavings are runs of
  inductive step relations whose steps are the regions that the code locks.

  \<^bold>\<open>Loops and fuel\<close>

  Loops are structural recursions or functions with a measure (the bytes left in the buffer and the socket for the
  connection loop, the room of the buffer for reading a header). Fuel is used where the code follows links: the walks over
  buckets and lists of the cache have as much fuel as there are entries, the walks over version chains and leaves as many steps as there
  are cells, and the freeing loop of the pool as many as nodes were made; the lemmas show that this is enough in every state
  that is reached. The retries of \<open>db_exec\<close> are bounded in the code.

  \<^bold>\<open>Main results\<close>

  Snapshot isolation and atomic commit of transactions; a statement run by the server refines its specification; what the
  server answers from its cache is what the database would answer; tables, trees, cache, pool and statistics keep their
  invariants in every run; statements, tables, strings, and requests survive a round trip; every request gets one response with a documented
  code, however its bytes arrive. Some theorems show defects of the code on the executions that have them: an aborted transaction
  after a failed save, a collection with a stale bound, a delta log that cannot be replayed,
  a DELETE that loses a key.

  \<^bold>\<open>Not modelled\<close>

  \<^item> Of the command line engine (\<open>src/legacy/executor.c\<close>): index snapshots, the array of open tables (\<open>get_table\<close>,
    \<open>close_all_tables\<close>), and the data generator and timing runs of its benchmarks. \<open>src/cli/main.c\<close> reads commands and prints.
  \<^item> The benchmarks under \<open>tools/\<close>: load generation and timing.
  \<^item> Failing allocation in \<open>dbapi.c\<close>, \<open>bptree.c\<close>, \<open>query_cache.c\<close> and \<open>srv.c\<close>; it is modelled for response buffers.
  \<^item> Memory ordering below the level of locks and atomic operations, and signals.
\<close>

end
